(* ===== verification/Prelude.thy ===== *)
theory Prelude
  imports "HOL-Library.Word" "HOL-Library.List_Lexorder" "HOL-Library.Char_ord"
begin

text \<open>
  Shared vocabulary of the development.

  \<^item> A C++ \<open>uint8_t\<close> or \<open>char\<close> is an 8-bit word (\<open>byte\<close>); a \<open>std::string\<close> and a
    \<open>std::vector<uint8_t>\<close> are both lists of bytes.  Byte literals are written as the
    character they stand for, \<open>B CHR ''i''\<close>, and string literals as \<open>ascii ''...''\<close>.
  \<^item> Sizes and positions inside a buffer that exists in memory (\<open>size_t\<close>) are \<open>nat\<close>.
    Unsigned arithmetic that the program performs on values an input controls is reduced
    explicitly: \<open>u32\<close> and \<open>u64\<close> are the conversions to \<open>uint32_t\<close> and \<open>uint64_t\<close>, and
    \<open>sub32\<close> and \<open>sub64\<close> the wrapping subtractions.
  \<^item> \<open>find_byte\<close> and \<open>find_sub\<close> are \<open>std::string::find\<close>; \<open>None\<close> is \<open>npos\<close>.
\<close>

unbundle bit_operations_syntax

type_synonym byte = "8 word"
type_synonym bytes = "byte list"

abbreviation B :: "char \<Rightarrow> byte" where
  "B c \<equiv> of_char c"

abbreviation ascii :: "string \<Rightarrow> bytes" where
  "ascii s \<equiv> map of_char s"

named_theorems wrap_simps \<open>reading a wrapped integer back inside its range\<close>
named_theorems find_simps \<open>std::string::find and substr\<close>

subsection \<open>Unsigned integers of a fixed width, as naturals\<close>

definition u16 :: "nat \<Rightarrow> nat" where
  "u16 n = n mod 2 ^ 16"

definition u32 :: "nat \<Rightarrow> nat" where
  "u32 n = n mod 2 ^ 32"

definition u64 :: "nat \<Rightarrow> nat" where
  "u64 n = n mod 2 ^ 64"

definition sub32 :: "nat \<Rightarrow> nat \<Rightarrow> nat" where
  "sub32 a b = (a + (2 ^ 32 - b mod 2 ^ 32)) mod 2 ^ 32"

definition sub64 :: "nat \<Rightarrow> nat \<Rightarrow> nat" where
  "sub64 a b = (a + (2 ^ 64 - b mod 2 ^ 64)) mod 2 ^ 64"

text \<open>\<open>static_cast\<close> of a signed 64-bit value to an unsigned type keeps the low bits.\<close>

definition cast_u8 :: "int \<Rightarrow> nat" where
  "cast_u8 i = nat (i mod 2 ^ 8)"

definition cast_u16 :: "int \<Rightarrow> nat" where
  "cast_u16 i = nat (i mod 2 ^ 16)"

definition cast_u32 :: "int \<Rightarrow> nat" where
  "cast_u32 i = nat (i mod 2 ^ 32)"

definition cast_u64 :: "int \<Rightarrow> nat" where
  "cast_u64 i = nat (i mod 2 ^ 64)"

lemma u16_id [wrap_simps]: "n < 2 ^ 16 \<Longrightarrow> u16 n = n"
  by (simp add: u16_def)

lemma u32_id [wrap_simps]: "n < 2 ^ 32 \<Longrightarrow> u32 n = n"
  by (simp add: u32_def)

lemma u64_id [wrap_simps]: "n < 2 ^ 64 \<Longrightarrow> u64 n = n"
  by (simp add: u64_def)

lemma u32_less: "u32 n < 2 ^ 32"
  by (simp add: u32_def)

lemma u64_less: "u64 n < 2 ^ 64"
  by (simp add: u64_def)

lemma sub32_less: "sub32 a b < 2 ^ 32"
  by (simp add: sub32_def)

lemma sub64_less: "sub64 a b < 2 ^ 64"
  by (simp add: sub64_def)

lemma wrap_sub_id: "b \<le> a \<Longrightarrow> a < m \<Longrightarrow> (a + (m - b mod m)) mod m = a - (b::nat)"
proof -
  assume "b \<le> a" "a < m"
  then have "a + (m - b mod m) = (a - b) + m" by simp
  then show ?thesis using \<open>a < m\<close> by simp
qed

lemma sub32_id [wrap_simps]: "b \<le> a \<Longrightarrow> a < 2 ^ 32 \<Longrightarrow> sub32 a b = a - b"
  unfolding sub32_def by (rule wrap_sub_id)

lemma sub64_id [wrap_simps]: "b \<le> a \<Longrightarrow> a < 2 ^ 64 \<Longrightarrow> sub64 a b = a - b"
  unfolding sub64_def by (rule wrap_sub_id)

lemma cast_u32_id [wrap_simps]: "0 \<le> i \<Longrightarrow> i < 2 ^ 32 \<Longrightarrow> cast_u32 i = nat i"
  by (simp add: cast_u32_def)

lemma cast_u64_id [wrap_simps]: "0 \<le> i \<Longrightarrow> i < 2 ^ 64 \<Longrightarrow> cast_u64 i = nat i"
  by (simp add: cast_u64_def)

lemma div_ceil_le: "0 < k \<Longrightarrow> (n + k - 1) div k * k < n + (k::nat)"
  by (rule le_less_trans [OF div_times_less_eq_dividend]) simp

lemma div_ceil_bound: "0 < k \<Longrightarrow> n \<le> (n + k - 1) div k * (k::nat)"
proof -
  assume k: "0 < k"
  have "n + k - 1 = (n + k - 1) div k * k + (n + k - 1) mod k" by simp
  moreover have "(n + k - 1) mod k \<le> k - 1" using k
    by (metis Suc_pred' less_Suc_eq_le mod_less_divisor)
  ultimately show ?thesis using k by linarith
qed

subsection \<open>Characters\<close>

definition is_digit :: "byte \<Rightarrow> bool" where
  "is_digit b \<longleftrightarrow> B CHR ''0'' \<le> b \<and> b \<le> B CHR ''9''"

definition is_upper :: "byte \<Rightarrow> bool" where
  "is_upper b \<longleftrightarrow> B CHR ''A'' \<le> b \<and> b \<le> B CHR ''Z''"

definition is_lower :: "byte \<Rightarrow> bool" where
  "is_lower b \<longleftrightarrow> B CHR ''a'' \<le> b \<and> b \<le> B CHR ''z''"

text \<open>\<open>std::isspace\<close>, \<open>std::tolower\<close> and \<open>std::toupper\<close> in the C locale.\<close>

definition is_space :: "byte \<Rightarrow> bool" where
  "is_space b \<longleftrightarrow> b = 32 \<or> (9 \<le> b \<and> b \<le> 13)"

definition to_lower :: "byte \<Rightarrow> byte" where
  "to_lower b = (if is_upper b then b + 32 else b)"

definition to_upper :: "byte \<Rightarrow> byte" where
  "to_upper b = (if is_lower b then b - 32 else b)"

subsection \<open>Searching and slicing\<close>

fun find_byte :: "byte \<Rightarrow> bytes \<Rightarrow> nat option" where
  "find_byte c [] = None"
| "find_byte c (x # xs) = (if x = c then Some 0 else map_option Suc (find_byte c xs))"

fun prefix_of :: "bytes \<Rightarrow> bytes \<Rightarrow> bool" where
  "prefix_of [] s = True"
| "prefix_of (p # ps) [] = False"
| "prefix_of (p # ps) (x # xs) = (p = x \<and> prefix_of ps xs)"

fun find_sub :: "bytes \<Rightarrow> bytes \<Rightarrow> nat option" where
  "find_sub p [] = (if p = [] then Some 0 else None)"
| "find_sub p (x # xs) =
     (if prefix_of p (x # xs) then Some 0 else map_option Suc (find_sub p xs))"

text \<open>\<open>s.find(x, from)\<close>, and \<open>s.rfind(x)\<close> for one byte.\<close>

definition find_byte_from :: "byte \<Rightarrow> bytes \<Rightarrow> nat \<Rightarrow> nat option" where
  "find_byte_from c s k = map_option (\<lambda>i. i + k) (find_byte c (drop k s))"

definition find_sub_from :: "bytes \<Rightarrow> bytes \<Rightarrow> nat \<Rightarrow> nat option" where
  "find_sub_from p s k =
     (if length s < k then None else map_option (\<lambda>i. i + k) (find_sub p (drop k s)))"

definition rfind_byte :: "byte \<Rightarrow> bytes \<Rightarrow> nat option" where
  "rfind_byte c s = map_option (\<lambda>i. length s - Suc i) (find_byte c (rev s))"

definition substr :: "bytes \<Rightarrow> nat \<Rightarrow> nat \<Rightarrow> bytes" where
  "substr s i n = take n (drop i s)"

lemma find_byte_None [find_simps]: "find_byte c s = None \<longleftrightarrow> c \<notin> set s"
  by (induction s) auto

lemma find_byte_Some:
  "find_byte c s = Some i \<longleftrightarrow> i < length s \<and> s ! i = c \<and> c \<notin> set (take i s)"
proof (induction s arbitrary: i)
  case (Cons x xs)
  then show ?case by (cases i) auto
qed simp

lemma find_byte_append [find_simps]: "c \<notin> set a \<Longrightarrow> find_byte c (a @ c # b) = Some (length a)"
  by (induction a) auto

lemma prefix_of_iff: "prefix_of p s \<longleftrightarrow> take (length p) s = p"
proof (induction p s rule: prefix_of.induct)
  case (3 p ps x xs)
  then show ?case by auto
qed auto

lemma prefix_of_append [simp]: "prefix_of p (p @ s)"
  by (simp add: prefix_of_iff)

lemma prefix_of_length: "prefix_of p s \<Longrightarrow> length p \<le> length s"
  by (induction p s rule: prefix_of.induct) auto

lemma find_sub_bound: "find_sub p s = Some i \<Longrightarrow> i + length p \<le> length s"
proof (induction s arbitrary: i)
  case Nil
  then show ?case by (auto split: if_splits)
next
  case (Cons x xs)
  show ?case
  proof (cases "prefix_of p (x # xs)")
    case True
    with Cons.prems show ?thesis using prefix_of_length [OF True] by simp
  next
    case False
    with Cons.prems obtain j where "find_sub p xs = Some j" "i = Suc j" by auto
    with Cons.IH show ?thesis by fastforce
  qed
qed

lemma find_sub_match: "find_sub p s = Some i \<Longrightarrow> prefix_of p (drop i s)"
proof (induction s arbitrary: i)
  case Nil
  then show ?case by (auto split: if_splits)
next
  case (Cons x xs)
  then show ?case by (auto split: if_splits)
qed

subsection \<open>Decimal numbers\<close>

fun digit_byte :: "nat \<Rightarrow> byte" where
  "digit_byte d = B CHR ''0'' + of_nat d"

text \<open>\<open>std::to_string\<close> of an unsigned and of a signed integer.\<close>

fun dec_nat :: "nat \<Rightarrow> bytes" where
  "dec_nat n = (if n < 10 then [digit_byte n] else dec_nat (n div 10) @ [digit_byte (n mod 10)])"

definition dec_int :: "int \<Rightarrow> bytes" where
  "dec_int i = (if i < 0 then B CHR ''-'' # dec_nat (nat (- i)) else dec_nat (nat i))"

declare dec_nat.simps [simp del]
declare digit_byte.simps [simp del]

definition digit_val :: "byte \<Rightarrow> nat" where
  "digit_val b = unat b - 48"

lemma unat_digit_byte: "d < 10 \<Longrightarrow> unat (digit_byte d) = 48 + d"
  by (simp add: digit_byte.simps unat_word_ariths unat_of_nat)

lemma digit_val_digit_byte [simp]: "d < 10 \<Longrightarrow> digit_val (digit_byte d) = d"
  by (simp add: digit_val_def unat_digit_byte)

lemma is_digit_digit_byte [simp]: "d < 10 \<Longrightarrow> is_digit (digit_byte d)"
  by (simp add: is_digit_def word_le_nat_alt unat_digit_byte)

lemma digit_byte_eq_zero: "d < 10 \<Longrightarrow> digit_byte d = B CHR ''0'' \<longleftrightarrow> d = 0"
  by (auto simp: word_unat_eq_iff unat_digit_byte)

lemma is_digit_unat: "is_digit b \<longleftrightarrow> 48 \<le> unat b \<and> unat b \<le> 57"
  by (simp add: is_digit_def word_le_nat_alt)

lemma digit_val_less: "is_digit b \<Longrightarrow> digit_val b < 10"
  by (auto simp: digit_val_def is_digit_unat)

lemma dec_nat_digits: "b \<in> set (dec_nat n) \<Longrightarrow> is_digit b"
proof (induction n rule: dec_nat.induct)
  case (1 n)
  then show ?case by (cases "n < 10") (auto simp: dec_nat.simps [of n])
qed

lemma dec_nat_not_Nil [simp]: "dec_nat n \<noteq> []"
  by (cases "n < 10") (auto simp: dec_nat.simps [of n])

lemma dec_nat_head: "hd (dec_nat n) = B CHR ''0'' \<Longrightarrow> length (dec_nat n) = 1"
proof (induction n rule: dec_nat.induct)
  case (1 n)
  show ?case
  proof (cases "n < 10")
    case True
    then show ?thesis by (simp add: dec_nat.simps [of n])
  next
    case False
    then have eq: "dec_nat n = dec_nat (n div 10) @ [digit_byte (n mod 10)]"
      by (simp add: dec_nat.simps [of n])
    with "1.prems" have "hd (dec_nat (n div 10)) = B CHR ''0''" by simp
    with False "1.IH" have one: "length (dec_nat (n div 10)) = 1" by simp
    then have small: "n div 10 < 10"
      using dec_nat.simps [of "n div 10"] by (cases "n div 10 < 10") auto
    then have "hd (dec_nat (n div 10)) = digit_byte (n div 10)"
      by (simp add: dec_nat.simps [of "n div 10"])
    with \<open>hd (dec_nat (n div 10)) = B CHR ''0''\<close> small have "n div 10 = 0"
      using digit_byte_eq_zero by metis
    with False show ?thesis by simp
  qed
qed

text \<open>The value a run of digits denotes.\<close>

definition dec_value :: "bytes \<Rightarrow> nat" where
  "dec_value ds = fold (\<lambda>b v. v * 10 + digit_val b) ds 0"

lemma dec_value_snoc: "dec_value (ds @ [b]) = dec_value ds * 10 + digit_val b"
  by (simp add: dec_value_def)

lemma dec_value_dec_nat [simp]: "dec_value (dec_nat n) = n"
proof (induction n rule: dec_nat.induct)
  case (1 n)
  show ?case
  proof (cases "n < 10")
    case True
    then show ?thesis by (simp add: dec_nat.simps [of n] dec_value_def)
  next
    case False
    then have "dec_value (dec_nat n) = dec_value (dec_nat (n div 10)) * 10 + n mod 10"
      by (simp add: dec_nat.simps [of n] dec_value_snoc)
    with False "1.IH" show ?thesis by simp
  qed
qed

subsection \<open>Lists\<close>

lemma take_drop_split: "i + n \<le> length s \<Longrightarrow> take n (drop i s) @ drop (i + n) s = drop i s"
  by (metis append_take_drop_id drop_drop add.commute)

lemma takeWhile_append_stop:
  "(\<And>x. x \<in> set a \<Longrightarrow> P x) \<Longrightarrow> \<not> P y \<Longrightarrow> takeWhile P (a @ y # b) = a"
  by (induction a) auto

lemma sum_list_map_add: "sum_list (map f (xs @ ys)) = sum_list (map f xs) + sum_list (map f ys)"
  by simp

lemma distinct_map_filter: "distinct (map f xs) \<Longrightarrow> distinct (map f (filter P xs))"
  by (induction xs) auto

lemma count_list_update:
  "i < length xs \<Longrightarrow> count_list (xs[i := y]) x + (if xs ! i = x then 1 else 0) = count_list xs x + (if y = x then 1 else 0)"
proof (induction xs arbitrary: i)
  case (Cons a xs)
  show ?case
  proof (cases i)
    case (Suc k)
    then show ?thesis using Cons.IH [of k] Cons.prems by auto
  qed auto
qed simp

lemma count_list_full: "count_list xs x = length xs \<longleftrightarrow> (\<forall>a \<in> set xs. a = x)"
proof (induction xs)
  case (Cons a xs)
  have "count_list xs x \<le> length xs" by (rule count_le_length)
  with Cons show ?case by auto
qed simp

end
