(* ===== verification/Bytes.thy ===== *)
theory Bytes
  imports Prelude
begin

text \<open>
  The byte and string helpers of \<open>include/util/bytes.hpp\<close> and \<open>source/util/bytes.cpp\<close>:
  big-endian reads and writes, hexadecimal, base32 and percent encodings, trimming, splitting
  and the sanitiser of file names.  A pointer argument is the list of bytes from that address
  on; an output buffer is the returned list, and a \<open>bool\<close> result with an output buffer an
  option.  The lemmas show that each encoder is inverted by its decoder, that \<open>split\<close> is
  inverted by joining, and what a sanitised name can never contain.  \<open>random_bytes\<close>,
  \<open>disk_free\<close> and the floating-point formatting are not modelled (system services).
\<close>

subsection \<open>Big-endian reads and writes\<close>

definition rd_be16 :: "bytes \<Rightarrow> 16 word" where
  "rd_be16 p = push_bit 8 (ucast (p ! 0)) OR ucast (p ! 1)"

definition rd_be32 :: "bytes \<Rightarrow> 32 word" where
  "rd_be32 p = push_bit 24 (ucast (p ! 0)) OR push_bit 16 (ucast (p ! 1)) OR
     push_bit 8 (ucast (p ! 2)) OR ucast (p ! 3)"

definition rd_be64 :: "bytes \<Rightarrow> 64 word" where
  "rd_be64 p = push_bit 32 (ucast (rd_be32 p)) OR ucast (rd_be32 (drop 4 p))"

definition wr_be16 :: "16 word \<Rightarrow> bytes" where
  "wr_be16 v = [ucast (drop_bit 8 v), ucast v]"

definition wr_be32 :: "32 word \<Rightarrow> bytes" where
  "wr_be32 v = [ucast (drop_bit 24 v), ucast (drop_bit 16 v), ucast (drop_bit 8 v), ucast v]"

definition wr_be64 :: "64 word \<Rightarrow> bytes" where
  "wr_be64 v = wr_be32 (ucast (drop_bit 32 v)) @ wr_be32 (ucast v)"

text \<open>The same reads as the naturals the callers compute with.\<close>

definition rd16 :: "bytes \<Rightarrow> nat" where
  "rd16 p = unat (rd_be16 p)"

definition rd32 :: "bytes \<Rightarrow> nat" where
  "rd32 p = unat (rd_be32 p)"

definition wr32 :: "nat \<Rightarrow> bytes" where
  "wr32 n = wr_be32 (of_nat n)"

lemma length_wr_be16 [simp]: "length (wr_be16 v) = 2"
  by (simp add: wr_be16_def)

lemma length_wr_be32 [simp]: "length (wr_be32 v) = 4"
  by (simp add: wr_be32_def)

lemma length_wr_be64 [simp]: "length (wr_be64 v) = 8"
  by (simp add: wr_be64_def)

lemma length_wr32 [simp]: "length (wr32 n) = 4"
  by (simp add: wr32_def)

lemma rd_wr_be16 [simp]: "rd_be16 (wr_be16 v @ rest) = v"
  unfolding rd_be16_def wr_be16_def
  by (rule bit_word_eqI) (auto simp: bit_simps)

lemma rd_wr_be32 [simp]: "rd_be32 (wr_be32 v @ rest) = v"
proof (rule bit_word_eqI)
  fix n :: nat
  assume n: "n < LENGTH(32)"
  then consider "n < 8" | "8 \<le> n" "n < 16" | "16 \<le> n" "n < 24" | "24 \<le> n" by linarith
  then show "bit (rd_be32 (wr_be32 v @ rest)) n = bit v n"
    by cases (use n in \<open>auto simp: rd_be32_def wr_be32_def bit_simps\<close>)
qed

lemma rd_wr_be64 [simp]: "rd_be64 (wr_be64 v @ rest) = v"
proof -
  have "rd_be64 (wr_be64 v @ rest) =
      push_bit 32 (ucast (ucast (drop_bit 32 v) :: 32 word)) OR ucast (ucast v :: 32 word)"
    by (simp add: rd_be64_def wr_be64_def)
  also have "\<dots> = v"
    by (rule bit_word_eqI) (auto simp: bit_simps)
  finally show ?thesis .
qed

lemma rd_wr_be16' [simp]: "rd_be16 (wr_be16 v) = v"
  using rd_wr_be16 [of v "[]"] by simp

lemma rd_wr_be32' [simp]: "rd_be32 (wr_be32 v) = v"
  using rd_wr_be32 [of v "[]"] by simp

lemma rd32_less: "rd32 p < 2 ^ 32"
  using unsigned_less [of "rd_be32 p"] by (simp add: rd32_def)

lemma rd16_less: "rd16 p < 2 ^ 16"
  using unsigned_less [of "rd_be16 p"] by (simp add: rd16_def)

lemma rd32_wr32 [simp]: "n < 2 ^ 32 \<Longrightarrow> rd32 (wr32 n @ rest) = n"
  by (simp add: rd32_def wr32_def unat_of_nat)

subsection \<open>Hexadecimal\<close>

definition hex_val :: "byte \<Rightarrow> int" where
  "hex_val c =
     (if is_digit c then uint c - uint (B CHR ''0'')
      else if B CHR ''a'' \<le> c \<and> c \<le> B CHR ''f'' then uint c - uint (B CHR ''a'') + 10
      else if B CHR ''A'' \<le> c \<and> c \<le> B CHR ''F'' then uint c - uint (B CHR ''A'') + 10
      else -1)"

definition hex_digits :: bytes where
  "hex_digits = ascii ''0123456789abcdef''"

definition hex_of :: "byte \<Rightarrow> bytes" where
  "hex_of b = [hex_digits ! unat (drop_bit 4 b), hex_digits ! unat (b AND 0x0f)]"

definition to_hex :: "bytes \<Rightarrow> bytes" where
  "to_hex bs = concat (map hex_of bs)"

definition byte_of_hex :: "byte \<Rightarrow> byte \<Rightarrow> byte" where
  "byte_of_hex h l = word_of_int (push_bit 4 (hex_val h) OR hex_val l)"

fun from_hex_loop :: "bytes \<Rightarrow> bytes option" where
  "from_hex_loop (h # l # rest) =
     (if hex_val h < 0 \<or> hex_val l < 0 then None
      else map_option ((#) (byte_of_hex h l)) (from_hex_loop rest))"
| "from_hex_loop _ = Some []"

definition from_hex :: "bytes \<Rightarrow> nat \<Rightarrow> bytes option" where
  "from_hex hex out_len = (if length hex \<noteq> out_len * 2 then None else from_hex_loop hex)"

lemma hex_val_digits: "d < 16 \<Longrightarrow> hex_val (hex_digits ! d) = int d"
proof -
  have "list_all (\<lambda>d. hex_val (hex_digits ! d) = int d) [0..<16]"
    by code_simp
  then show "d < 16 \<Longrightarrow> ?thesis" by (simp add: list_all_iff)
qed

lemma nibble_bounds: "unat (drop_bit 4 (b :: byte)) < 16" "unat (b AND 0x0f) < 16"
proof -
  have "unat b < 256" using unsigned_less [of b] by simp
  then show "unat (drop_bit 4 b) < 16"
    by (simp only: unat_drop_bit_eq) (simp add: drop_bit_eq_div)
  have "b AND 0x0f \<le> 0x0f" by (rule word_and_le1)
  then show "unat (b AND 0x0f) < 16" by (simp add: word_le_nat_alt)
qed

lemma byte_of_nibbles:
  "word_of_int (push_bit 4 (uint (drop_bit 4 b)) OR uint (b AND 0x0f)) = (b :: byte)"
proof (rule bit_word_eqI)
  fix n :: nat
  assume n: "n < LENGTH(8)"
  have mask: "(0x0f :: byte) = mask 4" by (simp add: mask_eq_exp_minus_1)
  show "bit (word_of_int (push_bit 4 (uint (drop_bit 4 b)) OR uint (b AND 0x0f)) :: byte) n
      = bit b n"
    using n by (cases "n < 4") (auto simp: bit_simps mask)
qed

lemma hex_of_byte:
  "0 \<le> hex_val (hex_of b ! 0) \<and> 0 \<le> hex_val (hex_of b ! 1) \<and>
   byte_of_hex (hex_of b ! 0) (hex_of b ! 1) = b"
  by (simp add: hex_of_def byte_of_hex_def hex_val_digits nibble_bounds byte_of_nibbles)

lemma hex_of_pair: "hex_of b = [hex_of b ! 0, hex_of b ! 1]"
  by (simp add: hex_of_def)

lemma from_hex_loop_hex_of: "from_hex_loop (hex_of b @ rest) = map_option ((#) b) (from_hex_loop rest)"
  using hex_of_byte [of b] by (subst hex_of_pair) auto

lemma length_to_hex [simp]: "length (to_hex bs) = 2 * length bs"
  by (induction bs) (simp_all add: to_hex_def hex_of_def)

lemma from_hex_loop_to_hex: "from_hex_loop (to_hex bs) = Some bs"
  by (induction bs) (simp_all add: to_hex_def from_hex_loop_hex_of)

lemma from_hex_loop_length: "from_hex_loop hex = Some out \<Longrightarrow> length out = length hex div 2"
  by (induction hex arbitrary: out rule: from_hex_loop.induct) (auto split: if_splits)

lemma from_hex_length: "from_hex hex n = Some out \<Longrightarrow> length out = n"
  by (auto simp: from_hex_def dest: from_hex_loop_length split: if_splits)

subsection \<open>Base32 (RFC 4648, no padding)\<close>

definition base32_val :: "byte \<Rightarrow> nat option" where
  "base32_val raw =
     (let c = to_upper raw in
      if is_upper c then Some (unat c - unat (B CHR ''A''))
      else if B CHR ''2'' \<le> c \<and> c \<le> B CHR ''7'' then Some (unat c - unat (B CHR ''2'') + 26)
      else None)"

text \<open>
  The loop of \<open>from_base32\<close>: \<open>acc\<close> is the 32-bit accumulator, \<open>bits\<close> the bits it holds that
  are not yet written, and the list what has been written.
\<close>

fun base32_loop :: "nat \<Rightarrow> bytes \<Rightarrow> 32 word \<Rightarrow> nat \<Rightarrow> bytes \<Rightarrow> bytes option" where
  "base32_loop out_len [] acc bits out = Some out"
| "base32_loop out_len (raw # s) acc bits out =
     (if raw = B CHR ''='' then Some out
      else case base32_val raw of
        None \<Rightarrow> None
      | Some v \<Rightarrow>
          let acc' = push_bit 5 acc OR of_nat v; bits' = bits + 5 in
          if 8 \<le> bits' then
            (if out_len \<le> length out then None
             else base32_loop out_len s acc' (bits' - 8) (out @ [ucast (drop_bit (bits' - 8) acc')]))
          else base32_loop out_len s acc' bits' out)"

definition from_base32 :: "bytes \<Rightarrow> nat \<Rightarrow> bytes option" where
  "from_base32 s out_len =
     (case base32_loop out_len s 0 0 [] of
        Some out \<Rightarrow> (if length out = out_len then Some out else None)
      | None \<Rightarrow> None)"

lemma from_base32_length: "from_base32 s n = Some out \<Longrightarrow> length out = n"
  by (auto simp: from_base32_def split: option.splits if_splits)

subsection \<open>Percent encoding\<close>

definition unreserved :: "byte \<Rightarrow> bool" where
  "unreserved c \<longleftrightarrow> is_upper c \<or> is_lower c \<or> is_digit c \<or> c = B CHR ''-'' \<or> c = B CHR ''_'' \<or>
     c = B CHR ''.'' \<or> c = B CHR ''~''"

definition url_encode_byte :: "byte \<Rightarrow> bytes" where
  "url_encode_byte c = (if unreserved c then [c] else B CHR ''%'' # hex_of c)"

definition url_encode :: "bytes \<Rightarrow> bytes" where
  "url_encode data = concat (map url_encode_byte data)"

definition plain_byte :: "byte \<Rightarrow> byte" where
  "plain_byte c = (if c = B CHR ''+'' then B CHR '' '' else c)"

fun url_decode :: "bytes \<Rightarrow> bytes" where
  "url_decode (c # h # l # rest) =
     (if c = B CHR ''%'' \<and> 0 \<le> hex_val h \<and> 0 \<le> hex_val l
      then byte_of_hex h l # url_decode rest
      else plain_byte c # url_decode (h # l # rest))"
| "url_decode (c # rest) = plain_byte c # url_decode rest"
| "url_decode [] = []"

lemma url_decode_plain:
  "c \<noteq> 37 \<Longrightarrow> url_decode (c # rest) = plain_byte c # url_decode rest"
  by (cases rest rule: remdups_adj.cases) auto

lemma url_decode_escape: "url_decode (37 # hex_of c @ rest) = c # url_decode rest"
  using hex_of_byte [of c] by (subst hex_of_pair) auto

lemma unreserved_plain: "unreserved c \<Longrightarrow> c \<noteq> 37" "unreserved c \<Longrightarrow> plain_byte c = c"
  by (auto simp: unreserved_def plain_byte_def is_upper_def is_lower_def is_digit_def)

lemma url_decode_encode_append: "url_decode (url_encode s @ rest) = s @ url_decode rest"
proof (induction s)
  case (Cons c s)
  then show ?case
    by (auto simp: url_encode_def url_encode_byte_def url_decode_plain url_decode_escape
        unreserved_plain)
qed (simp add: url_encode_def)

lemma url_decode_url_encode: "url_decode (url_encode s) = s"
  using url_decode_encode_append [of s "[]"] by simp

lemma length_url_decode: "length (url_decode s) \<le> length s"
  by (induction s rule: url_decode.induct) auto

subsection \<open>Trimming, comparing and splitting\<close>

definition trim :: "bytes \<Rightarrow> bytes" where
  "trim s = rev (dropWhile is_space (rev (dropWhile is_space s)))"

definition starts_with :: "bytes \<Rightarrow> bytes \<Rightarrow> bool" where
  "starts_with s prefix \<longleftrightarrow> length prefix \<le> length s \<and> substr s 0 (length prefix) = prefix"

fun iequals :: "bytes \<Rightarrow> bytes \<Rightarrow> bool" where
  "iequals [] [] = True"
| "iequals (a # as) (b # bs) = (to_lower a = to_lower b \<and> iequals as bs)"
| "iequals _ _ = False"

function split_on :: "bytes \<Rightarrow> byte \<Rightarrow> bytes list" where
  "split_on s sep =
     (case find_byte sep s of
        None \<Rightarrow> [s]
      | Some pos \<Rightarrow> take pos s # split_on (drop (Suc pos) s) sep)"
  by pat_completeness auto
termination
  by (relation "measure (\<lambda>(s, sep). length s)") (auto simp: find_byte_Some)

declare split_on.simps [simp del]

fun join_with :: "byte \<Rightarrow> bytes list \<Rightarrow> bytes" where
  "join_with sep [] = []"
| "join_with sep [x] = x"
| "join_with sep (x # y # ys) = x @ sep # join_with sep (y # ys)"

lemma split_on_not_Nil [simp]: "split_on s sep \<noteq> []"
  by (simp add: split_on.simps [of s] split: option.split)

lemma join_with_Cons: "ys \<noteq> [] \<Longrightarrow> join_with sep (x # ys) = x @ sep # join_with sep ys"
  by (cases ys) auto

lemma join_split_on: "join_with sep (split_on s sep) = s"
proof (induction s sep rule: split_on.induct)
  case (1 s sep)
  show ?case
  proof (cases "find_byte sep s")
    case None
    then show ?thesis by (simp add: split_on.simps [of s])
  next
    case (Some pos)
    then have pos: "pos < length s" "s ! pos = sep" by (auto simp: find_byte_Some)
    have "join_with sep (split_on s sep) = take pos s @ sep # drop (Suc pos) s"
      using Some "1.IH" [OF Some] by (simp add: split_on.simps [of s] join_with_Cons)
    then show ?thesis using id_take_nth_drop [OF pos(1)] pos(2) by simp
  qed
qed

lemma split_on_parts: "p \<in> set (split_on s sep) \<Longrightarrow> sep \<notin> set p"
proof (induction s sep rule: split_on.induct)
  case (1 s sep)
  show ?case
  proof (cases "find_byte sep s")
    case None
    with "1.prems" show ?thesis by (simp add: split_on.simps [of s] find_byte_None)
  next
    case (Some pos)
    with "1.prems" "1.IH" [OF Some] show ?thesis
      by (auto simp: split_on.simps [of s] find_byte_Some)
  qed
qed

lemma split_on_append: "sep \<notin> set a \<Longrightarrow> split_on (a @ sep # b) sep = a # split_on b sep"
  by (subst split_on.simps) (simp add: find_byte_append)

lemma split_on_single: "sep \<notin> set a \<Longrightarrow> split_on a sep = [a]"
  by (subst split_on.simps) (simp add: find_byte_None [THEN iffD2])

lemma split_on_join: "xs \<noteq> [] \<Longrightarrow> \<forall>x \<in> set xs. sep \<notin> set x \<Longrightarrow> split_on (join_with sep xs) sep = xs"
  by (induction sep xs rule: join_with.induct) (auto simp: split_on_append split_on_single)

lemma starts_with_iff: "starts_with s p \<longleftrightarrow> (\<exists>r. s = p @ r)"
  unfolding starts_with_def substr_def
  by (metis append_eq_conv_conj append_take_drop_id drop0 length_append le_add1)

lemma starts_with_append [simp]: "starts_with (p @ r) p"
  by (auto simp: starts_with_iff)

lemma iequals_iff: "iequals a b \<longleftrightarrow> map to_lower a = map to_lower b"
  by (induction a b rule: iequals.induct) auto

lemma dropWhile_idem: "(\<And>x. xs \<noteq> [] \<Longrightarrow> x = hd xs \<Longrightarrow> \<not> P x) \<Longrightarrow> dropWhile P xs = xs"
  by (cases xs) auto

lemma trim_no_space: "s \<noteq> [] \<Longrightarrow> \<not> is_space (hd s) \<Longrightarrow> \<not> is_space (last s) \<Longrightarrow> trim s = s"
  by (simp add: trim_def dropWhile_idem hd_rev)

subsection \<open>File names\<close>

definition forbidden :: "byte \<Rightarrow> bool" where
  "forbidden c \<longleftrightarrow> c < 0x20 \<or> c \<in> set (ascii [CHR 0x5C, CHR ''/'', CHR '':'', CHR ''*'', CHR ''?'',
     CHR 0x22, CHR ''<'', CHR ''>'', CHR ''|''])"

definition strip_trailing :: "bytes \<Rightarrow> bytes" where
  "strip_trailing s = rev (dropWhile (\<lambda>c. c = B CHR ''.'' \<or> c = B CHR '' '') (rev s))"

definition sanitize_filename :: "bytes \<Rightarrow> bytes" where
  "sanitize_filename name =
     (let out = map (\<lambda>c. if forbidden c then B CHR ''_'' else c) name;
          out = strip_trailing out;
          out = (if out = [] then ascii ''_'' else out)
      in if 200 < length out then take 200 out else out)"

lemma strip_trailing_set: "set (strip_trailing s) \<subseteq> set s"
  unfolding strip_trailing_def using set_dropWhileD by fastforce

lemma strip_trailing_last:
  "strip_trailing s \<noteq> [] \<Longrightarrow> last (strip_trailing s) \<noteq> B CHR ''.'' \<and> last (strip_trailing s) \<noteq> B CHR '' ''"
  using hd_dropWhile [of "\<lambda>c. c = B CHR ''.'' \<or> c = B CHR '' ''" "rev s"]
  by (simp add: strip_trailing_def last_rev)

lemma sanitize_not_Nil [simp]: "sanitize_filename name \<noteq> []"
  by (auto simp: sanitize_filename_def Let_def)

lemma sanitize_length: "length (sanitize_filename name) \<le> 200"
  by (auto simp: sanitize_filename_def Let_def)

lemma underscore_ok: "\<not> forbidden (B CHR ''_'')"
  by (simp add: forbidden_def)

lemma sanitize_allowed: "c \<in> set (sanitize_filename name) \<Longrightarrow> \<not> forbidden c"
proof -
  let ?out = "map (\<lambda>c. if forbidden c then B CHR ''_'' else c) name"
  assume "c \<in> set (sanitize_filename name)"
  then have "c \<in> set (strip_trailing ?out) \<or> c = B CHR ''_''"
    by (auto simp: sanitize_filename_def Let_def dest: in_set_takeD split: if_splits)
  then have "c \<in> set ?out \<or> c = B CHR ''_''" using strip_trailing_set by blast
  then show ?thesis using underscore_ok by (auto split: if_splits)
qed

text \<open>A name that fits keeps a last byte the file system accepts.\<close>

lemma sanitize_last:
  "length (strip_trailing (map (\<lambda>c. if forbidden c then B CHR ''_'' else c) name)) \<le> 200 \<Longrightarrow>
   last (sanitize_filename name) \<noteq> B CHR ''.'' \<and> last (sanitize_filename name) \<noteq> B CHR '' ''"
  using strip_trailing_last by (auto simp: sanitize_filename_def Let_def)

lemma sanitize_no_dots: "sanitize_filename name \<noteq> ascii ''.'' \<and> sanitize_filename name \<noteq> ascii ''..''"
proof (cases "length (strip_trailing (map (\<lambda>c. if forbidden c then B CHR ''_'' else c) name)) \<le> 200")
  case True
  from sanitize_last [OF True] show ?thesis by (auto dest!: arg_cong [of _ _ last])
next
  case False
  then have "length (sanitize_filename name) = 200"
    by (auto simp: sanitize_filename_def Let_def)
  then show ?thesis by (auto dest!: arg_cong [of _ _ length])
qed

text \<open>The bytes the comparisons of the code name, by their values.\<close>

lemma forbidden_bytes:
  "forbidden c \<longleftrightarrow> unat c < 32 \<or> unat c \<in> {34, 42, 47, 58, 60, 62, 63, 92, 124}"
proof -
  have "unat c = n \<longleftrightarrow> c = of_nat n" if "n < 256" for n
    using that by (auto simp: unat_of_nat take_bit_eq_mod)
  then show ?thesis by (auto simp: forbidden_def word_less_nat_alt)
qed

lemma underscore_byte: "B CHR ''_'' = 95"
  by simp

lemma strip_trailing_prefix: "strip_trailing s = take (length (strip_trailing s)) s"
proof -
  let ?P = "\<lambda>c. c = B CHR ''.'' \<or> c = B CHR '' ''"
  have "strip_trailing s @ rev (takeWhile ?P (rev s)) = rev (takeWhile ?P (rev s) @ dropWhile ?P (rev s))"
    by (simp only: strip_trailing_def rev_append)
  then have "strip_trailing s @ rev (takeWhile ?P (rev s)) = s"
    by (simp only: takeWhile_dropWhile_id rev_rev_ident)
  then show ?thesis by (simp only: append_eq_conv_conj)
qed

lemma sanitize_prefix:
  "sanitize_filename name = ascii ''_'' \<or> sanitize_filename name = take (length (sanitize_filename name))
     (map (\<lambda>c. if forbidden c then B CHR ''_'' else c) name)"
proof -
  let ?out = "map (\<lambda>c. if forbidden c then B CHR ''_'' else c) name"
  obtain k where out: "strip_trailing ?out = take k ?out" using strip_trailing_prefix by blast
  then have "\<exists>k. sanitize_filename name = take k ?out \<or> sanitize_filename name = ascii ''_''"
    by (cases "strip_trailing ?out = []") (auto simp: sanitize_filename_def Let_def)
  moreover have "x = take k y \<Longrightarrow> x = take (length x) y" for x y :: bytes and k
    by (simp add: min_def)
  ultimately show ?thesis by blast
qed

lemma sanitize_short:
  "length (sanitize_filename name) < 200 \<Longrightarrow>
   last (sanitize_filename name) \<noteq> B CHR ''.'' \<and> last (sanitize_filename name) \<noteq> B CHR '' ''"
  by (rule sanitize_last) (auto simp: sanitize_filename_def Let_def split: if_splits)

subsection \<open>Numbers of several bytes\<close>

text \<open>The values the big-endian reads and writes stand for, as arithmetic on the bytes: the
  protocols' documents speak of these.\<close>

fun le_num :: "bytes \<Rightarrow> nat" where
  "le_num [] = 0"
| "le_num (b # bs) = unat b + 256 * le_num bs"

definition num_le :: "nat \<Rightarrow> nat \<Rightarrow> bytes" where
  "num_le k n = map (\<lambda>i. of_nat (n div 256 ^ i)) [0..<k]"

definition be_num :: "bytes \<Rightarrow> nat" where
  "be_num bs = le_num (rev bs)"

definition num_be :: "nat \<Rightarrow> nat \<Rightarrow> bytes" where
  "num_be k n = rev (num_le k n)"

lemma length_num_le [simp]: "length (num_le k n) = k" "length (num_be k n) = k"
  by (simp_all add: num_le_def num_be_def)

lemma less_exp_bit: "(a :: nat) < 2 ^ k \<Longrightarrow> bit a n \<Longrightarrow> n < k"
  by (metis bit_take_bit_iff take_bit_nat_eq_self)

lemma bit_add_shift:
  assumes "(a :: nat) < 2 ^ k"
  shows "bit (a + 2 ^ k * x) n \<longleftrightarrow> (if n < k then bit a n else bit x (n - k))"
proof -
  have "a + push_bit k x = a OR push_bit k x"
    by (rule disjunctive_add) (use less_exp_bit [OF assms] in \<open>fastforce simp: bit_push_bit_iff\<close>)
  then have "a + 2 ^ k * x = a OR push_bit k x" by (simp add: push_bit_eq_mult mult.commute)
  then show ?thesis using less_exp_bit [OF assms] by (auto simp: bit_or_iff bit_push_bit_iff)
qed

lemma bit_le_num: "bit (le_num bs) n \<longleftrightarrow> n < 8 * length bs \<and> bit (bs ! (n div 8)) (n mod 8)"
proof (induction bs arbitrary: n)
  case (Cons b bs)
  have "unat b < 2 ^ 8" using unsigned_less [of b] by simp
  from bit_add_shift [OF this, of "le_num bs" n]
  have "bit (le_num (b # bs)) n = (if n < 8 then bit b n else bit (le_num bs) (n - 8))"
    by (simp add: bit_unsigned_iff mult.commute)
  moreover have "n div 8 = Suc ((n - 8) div 8)" "n mod 8 = (n - 8) mod 8" if "\<not> n < 8"
    using that by (auto simp: div_if [of 8 n] le_mod_geq)
  ultimately show ?case by (auto simp: Cons.IH)
qed simp

lemma le_num_less: "le_num bs < 256 ^ length bs"
proof (induction bs)
  case (Cons b bs)
  have "unat b < 256" using unsigned_less [of b] by simp
  moreover have "256 * Suc (le_num bs) \<le> 256 * 256 ^ length bs"
    using Cons.IH by (intro mult_left_mono) auto
  ultimately show ?case by simp
qed simp

lemma le_num_append: "le_num (a @ b) = le_num a + 256 ^ length a * le_num b"
  by (induction a) (auto simp: algebra_simps)

lemma le_num_zeros [simp]: "le_num (replicate n 0) = 0"
  by (induction n) auto

lemma num_le_le_num: "num_le (length bs) (le_num bs) = bs"
proof (rule nth_equalityI)
  fix i
  assume "i < length (num_le (length bs) (le_num bs))"
  then have i: "i < length bs" by (simp add: num_le_def)
  have pw: "256 ^ i = (2 ^ (8 * i) :: nat)" by (simp add: power_mult)
  have "of_nat (le_num bs div 256 ^ i) = bs ! i"
  proof (rule bit_word_eqI)
    fix n :: nat
    assume n: "n < LENGTH(8)"
    then have "(8 * i + n) div 8 = i" "(8 * i + n) mod 8 = n" "8 * i + n < 8 * length bs" using i by auto
    then have "bit (le_num bs) (8 * i + n) = bit (bs ! i) n" by (simp only: bit_le_num simp_thms)
    then show "bit (of_nat (le_num bs div 256 ^ i) :: byte) n = bit (bs ! i) n"
      using n by (simp add: pw drop_bit_eq_div [symmetric] bit_drop_bit_eq bit_of_nat_iff_bit bit_simps)
  qed
  with i show "num_le (length bs) (le_num bs) ! i = bs ! i" by (simp add: num_le_def)
qed (simp add: num_le_def)

lemma four_bytes:
  "unat (ucast a OR push_bit 8 (ucast b) OR push_bit 16 (ucast c) OR push_bit 24 (ucast d) :: 32 word) =
   le_num [a, b, c, d]"
proof (rule bit_eqI)
  fix n :: nat
  let ?w = "ucast a OR push_bit 8 (ucast b) OR push_bit 16 (ucast c) OR push_bit 24 (ucast d) :: 32 word"
  consider "n < 8" | "8 \<le> n" "n < 16" | "16 \<le> n" "n < 24" | "24 \<le> n" "n < 32" | "32 \<le> n" by linarith
  then have "bit ?w n \<longleftrightarrow> n < 32 \<and> bit ([a, b, c, d] ! (n div 8)) (n mod 8)"
  proof cases
    case 1
    then show ?thesis by (auto simp: bit_simps)
  next
    case 2
    then have "n div 8 = 1" "n mod 8 = n - 8" by (auto simp: div_if mod_if)
    with 2 show ?thesis using bit_imp_le_length [of a n] by (auto simp: bit_simps)
  next
    case 3
    then have "n div 8 = 2" "n mod 8 = n - 16" by (auto simp: div_if mod_if)
    with 3 show ?thesis by (auto simp: bit_simps dest: bit_imp_le_length)
  next
    case 4
    then have "n div 8 = 3" "n mod 8 = n - 24" by (auto simp: div_if mod_if)
    with 4 show ?thesis by (auto simp: bit_simps dest: bit_imp_le_length)
  next
    case 5
    then show ?thesis using bit_imp_le_length [of ?w n] by auto
  qed
  then show "bit (unat ?w) n = bit (le_num [a, b, c, d]) n"
    by (simp only: bit_unsigned_iff bit_le_num) simp
qed

lemma rd_be32_num: "unat (rd_be32 p) = be_num [p ! 0, p ! 1, p ! 2, p ! 3]"
proof -
  have "rd_be32 p = ucast (p ! 3) OR push_bit 8 (ucast (p ! 2)) OR push_bit 16 (ucast (p ! 1)) OR
      push_bit 24 (ucast (p ! 0))"
    by (simp add: rd_be32_def or.commute or.left_commute)
  then show ?thesis by (simp only: four_bytes be_num_def rev.simps append.simps)
qed

lemma wr_be32_num: "wr_be32 v = num_be 4 (unat v)"
proof -
  have "num_be 4 n = [of_nat (n div 2 ^ 24), of_nat (n div 2 ^ 16), of_nat (n div 2 ^ 8), of_nat n]" for n
    by (simp add: num_be_def num_le_def upt_conv_Cons)
  moreover have "(ucast (drop_bit k v) :: byte) = of_nat (unat v div 2 ^ k)" for k
    by (metis drop_bit_eq_div of_nat_unat unat_drop_bit_eq)
  moreover have "(ucast v :: byte) = of_nat (unat v)" by simp
  ultimately show ?thesis by (simp only: wr_be32_def)
qed

lemma wr_be32_of_nat: "wr_be32 (of_nat n) = num_be 4 n"
proof -
  have "num_be 4 n = [of_nat (n div 2 ^ 24), of_nat (n div 2 ^ 16), of_nat (n div 2 ^ 8), of_nat (n div 2 ^ 0)]"
    by (simp add: num_be_def num_le_def upt_conv_Cons)
  moreover have "(ucast (drop_bit k (of_nat n :: 32 word)) :: byte) = of_nat (n div 2 ^ k)" if "k \<le> 24" for k
    using that unfolding drop_bit_eq_div [symmetric]
    by (intro bit_word_eqI) (auto simp: bit_simps)
  from this [of 24] this [of 16] this [of 8] this [of 0]
  have "[of_nat (n div 2 ^ 24), of_nat (n div 2 ^ 16), of_nat (n div 2 ^ 8), of_nat (n div 2 ^ 0)] = wr_be32 (of_nat n)"
    by (simp add: wr_be32_def)
  ultimately show ?thesis by (simp only:)
qed

lemma wr_be16_of_nat: "wr_be16 (of_nat n) = num_be 2 n"
proof -
  have "num_be 2 n = [of_nat (n div 2 ^ 8), of_nat (n div 2 ^ 0)]"
    by (simp add: num_be_def num_le_def upt_conv_Cons)
  moreover have "(ucast (drop_bit k (of_nat n :: 16 word)) :: byte) = of_nat (n div 2 ^ k)" if "k \<le> 8" for k
    using that unfolding drop_bit_eq_div [symmetric]
    by (intro bit_word_eqI) (auto simp: bit_simps)
  from this [of 8] this [of 0] have "[of_nat (n div 2 ^ 8), of_nat (n div 2 ^ 0)] = wr_be16 (of_nat n)"
    by (simp add: wr_be16_def)
  ultimately show ?thesis by (simp only:)
qed

lemma wr_be64_of_nat: "wr_be64 (of_nat n) = num_be 8 n"
proof -
  let ?v = "of_nat n :: 64 word"
  have low: "(ucast (drop_bit k (ucast ?v :: 32 word)) :: byte) = of_nat (n div 2 ^ k)" if "k \<le> 24" for k
    using that unfolding drop_bit_eq_div [symmetric]
    by (intro bit_word_eqI) (auto simp: bit_simps)
  have high: "(ucast (drop_bit k (ucast (drop_bit 32 ?v) :: 32 word)) :: byte) = of_nat (n div 2 ^ (32 + k))"
    if "k \<le> 24" for k
    using that unfolding drop_bit_eq_div [symmetric]
    by (intro bit_word_eqI) (auto simp: bit_simps ac_simps)
  have "num_be 8 n = [of_nat (n div 2 ^ (32 + 24)), of_nat (n div 2 ^ (32 + 16)), of_nat (n div 2 ^ (32 + 8)),
      of_nat (n div 2 ^ (32 + 0)), of_nat (n div 2 ^ 24), of_nat (n div 2 ^ 16), of_nat (n div 2 ^ 8), of_nat (n div 2 ^ 0)]"
    by (simp add: num_be_def num_le_def upt_conv_Cons)
  moreover have "\<dots> = wr_be64 ?v"
    using low [of 24] low [of 16] low [of 8] low [of 0] high [of 24] high [of 16] high [of 8] high [of 0]
    by (simp add: wr_be64_def wr_be32_def)
  ultimately show ?thesis by simp
qed

lemma four_of: "4 \<le> length p \<Longrightarrow> [p ! 0, p ! 1, p ! 2, p ! 3] = take 4 p"
  by (rule nth_equalityI) (auto simp: nth_Cons' numeral_eq_Suc less_Suc_eq)

lemma rd_be32_take: "4 \<le> length p \<Longrightarrow> unat (rd_be32 p) = be_num (take 4 p)"
  by (simp only: rd_be32_num four_of)

lemma rd_be16_take: "2 \<le> length p \<Longrightarrow> unat (rd_be16 p) = be_num (take 2 p)"
proof -
  assume "2 \<le> length p"
  then have two: "take 2 p = [p ! 0, p ! 1]"
    by (intro nth_equalityI) (auto simp: nth_Cons' numeral_eq_Suc less_Suc_eq)
  have "rd_be16 p = ucast (ucast (p ! 1) OR push_bit 8 (ucast (p ! 0)) OR push_bit 16 (ucast (0 :: byte)) OR
      push_bit 24 (ucast (0 :: byte)) :: 32 word)"
    by (rule bit_word_eqI) (auto simp: rd_be16_def bit_simps)
  then have "unat (rd_be16 p) = take_bit 16 (le_num [p ! 1, p ! 0, 0, 0])"
    by (simp only: unsigned_ucast_eq four_bytes) simp
  also have "\<dots> = le_num [p ! 1, p ! 0]"
    using le_num_less [of "[p ! 1, p ! 0]"] by (simp add: take_bit_nat_eq_self)
  finally show ?thesis by (simp add: be_num_def two)
qed

lemma wr_rd_be32: "4 \<le> length p \<Longrightarrow> wr_be32 (rd_be32 p) = take 4 p"
proof -
  assume len: "4 \<le> length p"
  have "wr_be32 (rd_be32 p) = num_be (length (take 4 p)) (be_num (take 4 p))"
    using len by (simp only: wr_be32_num rd_be32_take length_take min_absorb2)
  also have "\<dots> = take 4 p"
    using num_le_le_num [of "rev (take 4 p)"] by (simp add: num_be_def be_num_def del: rev_take)
  finally show ?thesis .
qed

lemma wr_rd_be64: "8 \<le> length p \<Longrightarrow> wr_be64 (rd_be64 p) = take 8 p"
proof -
  assume len: "8 \<le> length p"
  let ?a = "rd_be32 p" and ?b = "rd_be32 (drop 4 p)"
  have a: "ucast (drop_bit 32 (push_bit 32 (ucast ?a) OR ucast ?b :: 64 word)) = ?a"
    by (rule bit_word_eqI) (auto simp: bit_simps dest: bit_imp_le_length)
  have b: "ucast (push_bit 32 (ucast ?a) OR ucast ?b :: 64 word) = ?b"
    by (rule bit_word_eqI) (auto simp: bit_simps)
  have "wr_be64 (rd_be64 p) = take 4 p @ take 4 (drop 4 p)"
    using len by (simp only: wr_be64_def rd_be64_def a b) (simp add: wr_rd_be32)
  also have "\<dots> = take (4 + 4) p" by (rule take_add [symmetric])
  finally show ?thesis by simp
qed

subsection \<open>Durations\<close>

definition pad2 :: "nat \<Rightarrow> bytes" where
  "pad2 n = (if n < 10 then B CHR ''0'' # dec_nat n else dec_nat n)"

definition dash :: bytes where
  "dash = [0xE2, 0x80, 0x94]"

definition human_duration :: "nat \<Rightarrow> bytes" where
  "human_duration seconds =
     (if seconds = 0 then dash
      else if seconds < 60 then dec_nat seconds @ ascii '' s''
      else if seconds < 3600 then dec_nat (seconds div 60) @ ascii '' min '' @ pad2 (seconds mod 60) @ ascii '' s''
      else if seconds < 86400 then
        dec_nat (seconds div 3600) @ ascii '' h '' @ pad2 (seconds mod 3600 div 60) @ ascii '' min''
      else dec_nat (seconds div 86400) @ ascii '' j '' @ pad2 (seconds mod 86400 div 3600) @ ascii '' h'')"

text \<open>
  The trailing dots and spaces are dropped before the name is cut to 200 bytes, so the cut can
  leave a last byte the comment says the file system refuses.
\<close>

lemma sanitize_cut_leaves_dot:
  "last (sanitize_filename (replicate 199 (B CHR ''a'') @ ascii ''.b'')) = B CHR ''.''"
  by code_simp

subsection \<open>Properties\<close>

text \<open>The text encodings used in magnet links, announces and requests can be undone: decoding
  the hexadecimal form of n bytes as n bytes gives them back, whatever the bytes are, and so does
  percent-decoding a percent-encoded string, whatever encoded text follows it.\<close>

theorem text_encodings_invert:
  "from_hex (to_hex bs) (length bs) = Some bs \<and>
   url_decode (url_encode s @ url_encode t) = s @ t"
  by (simp add: from_hex_def from_hex_loop_to_hex url_decode_encode_append url_decode_url_encode)

text \<open>C32: a sanitised file name is one path component of at most 200 bytes, never empty, holding no
  control byte (below 32) and none of the bytes 34, 42, 47, 58, 60, 62, 63, 92 and 124 (the double
  quote, the asterisk, the slash, the colon, the angle brackets, the question mark, the backslash
  and the bar), and it is neither the current nor the parent directory.  Nothing is made up: it is
  a beginning of the name with each of those bytes replaced by an underscore, or one underscore.
  It ends in a dot or a space only when the cut at 200 bytes fell after one.\<close>

theorem sanitize_filename_safe:
  "sanitize_filename name \<noteq> [] \<and> length (sanitize_filename name) \<le> 200 \<and>
   filter (\<lambda>c. unat c < 32 \<or> unat c \<in> {34, 42, 47, 58, 60, 62, 63, 92, 124}) (sanitize_filename name) = [] \<and>
   sanitize_filename name \<noteq> [46] \<and> sanitize_filename name \<noteq> [46, 46] \<and>
   (sanitize_filename name = [95] \<or>
    sanitize_filename name = take (length (sanitize_filename name))
      (map (\<lambda>c. if unat c < 32 \<or> unat c \<in> {34, 42, 47, 58, 60, 62, 63, 92, 124} then 95 else c) name)) \<and>
   (if length (sanitize_filename name) < 200
    then last (sanitize_filename name) \<noteq> 46 \<and> last (sanitize_filename name) \<noteq> 32
    else length (sanitize_filename name) = 200)"
proof -
  have dots: "B CHR ''.'' = 46" "B CHR '' '' = 32" by simp_all
  have "sanitize_filename name \<noteq> [46]" "sanitize_filename name \<noteq> [46, 46]"
    using sanitize_no_dots [of name] by simp_all
  moreover have "if length (sanitize_filename name) < 200
      then last (sanitize_filename name) \<noteq> 46 \<and> last (sanitize_filename name) \<noteq> 32
      else length (sanitize_filename name) = 200"
    using sanitize_short [of name, unfolded dots] sanitize_length [of name] by simp
  ultimately show ?thesis
    unfolding forbidden_bytes [symmetric] filter_empty_conv
    using sanitize_length [of name] sanitize_prefix [of name, unfolded list.map underscore_byte]
      sanitize_allowed [of _ name] sanitize_not_Nil [of name] by blast
qed

end
