(* ===== verification/Sha1.thy ===== *)
theory Sha1
  imports Bytes "HOL-Library.While_Combinator"
begin

text \<open>
  SHA-1 as \<open>source/util/sha1.cpp\<close> computes it.  The object is a record: the five chaining
  words, the 64-bit bit counter and the pending bytes \<open>buf_[0..buf_len_)\<close>.  \<open>transform\<close> is
  the compression of one block, \<open>update\<close> the buffering loop, \<open>digest\<close> the padding loop of the
  code (a \<open>while\<close> over the state).  \<open>sha1_spec\<close> is FIPS 180-4 written out on its own; the main
  result is that the object computes it on everything it was fed, however the data was cut; the interface
  \<open>incremental_hash\<close> states what the storage layer relies on and is interpreted on this object.
\<close>

record sha1 =
  hstate :: "32 word list"
  total_bits :: nat
  pending :: bytes

definition rotl :: "32 word \<Rightarrow> nat \<Rightarrow> 32 word" where
  "rotl v n = push_bit n v OR drop_bit (32 - n) v"

definition h0 :: "32 word list" where
  "h0 = [0x67452301, 0xEFCDAB89, 0x98BADCFE, 0x10325476, 0xC3D2E1F0]"

definition reset :: sha1 where
  "reset = \<lparr>hstate = h0, total_bits = 0, pending = []\<rparr>"

subsection \<open>The compression function\<close>

definition schedule :: "bytes \<Rightarrow> 32 word list" where
  "schedule block =
     fold (\<lambda>i w. w @ [rotl (w ! (i - 3) XOR w ! (i - 8) XOR w ! (i - 14) XOR w ! (i - 16)) 1]) [16..<80]
       (map (\<lambda>i. rd_be32 (drop (i * 4) block)) [0..<16])"

definition round_f :: "nat \<Rightarrow> 32 word \<Rightarrow> 32 word \<Rightarrow> 32 word \<Rightarrow> 32 word" where
  "round_f i b c d =
     (if i < 20 then (b AND c) OR (NOT b AND d)
      else if i < 40 then b XOR c XOR d
      else if i < 60 then (b AND c) OR (b AND d) OR (c AND d)
      else b XOR c XOR d)"

definition round_k :: "nat \<Rightarrow> 32 word" where
  "round_k i = (if i < 20 then 0x5A827999 else if i < 40 then 0x6ED9EBA1
     else if i < 60 then 0x8F1BBCDC else 0xCA62C1D6)"

fun sha1_round ::
  "32 word list \<Rightarrow> nat \<Rightarrow> 32 word \<times> 32 word \<times> 32 word \<times> 32 word \<times> 32 word \<Rightarrow>
   32 word \<times> 32 word \<times> 32 word \<times> 32 word \<times> 32 word" where
  "sha1_round w i (a, b, c, d, e) =
     (let tmp = rotl a 5 + round_f i b c d + e + round_k i + w ! i
      in (tmp, a, rotl b 30, c, d))"

definition transform :: "32 word list \<Rightarrow> bytes \<Rightarrow> 32 word list" where
  "transform hs block =
     (let w = schedule block;
          (a, b, c, d, e) = fold (sha1_round w) [0..<80] (hs ! 0, hs ! 1, hs ! 2, hs ! 3, hs ! 4)
      in [hs ! 0 + a, hs ! 1 + b, hs ! 2 + c, hs ! 3 + d, hs ! 4 + e])"

subsection \<open>Feeding data\<close>

text \<open>The \<open>while (len >= 64)\<close> loop of \<open>update\<close>: the remaining data is what gets buffered.\<close>

function absorb :: "32 word list \<Rightarrow> bytes \<Rightarrow> 32 word list \<times> bytes" where
  "absorb hs data =
     (if 64 \<le> length data then absorb (transform hs (take 64 data)) (drop 64 data) else (hs, data))"
  by pat_completeness auto
termination
  by (relation "measure (\<lambda>(hs, data). length data)") auto

declare absorb.simps [simp del]

definition update_blocks :: "sha1 \<Rightarrow> bytes \<Rightarrow> sha1" where
  "update_blocks s data =
     (let (hs, rest) = absorb (hstate s) data
      in if 0 < length rest then s\<lparr>hstate := hs, pending := rest\<rparr> else s\<lparr>hstate := hs\<rparr>)"

definition update :: "sha1 \<Rightarrow> bytes \<Rightarrow> sha1" where
  "update s data =
     (let s = s\<lparr>total_bits := u64 (total_bits s + length data * 8)\<rparr>
      in if 0 < length (pending s) then
           (let need = 64 - length (pending s);
                take_n = (if length data < need then length data else need);
                b = pending s @ take take_n data;
                data' = drop take_n data
            in if length b < 64 then s\<lparr>pending := b\<rparr>
               else update_blocks (s\<lparr>hstate := transform (hstate s) b, pending := []\<rparr>) data')
         else update_blocks s data)"

subsection \<open>Finishing\<close>

definition pad_byte :: "byte \<Rightarrow> nat \<Rightarrow> sha1 \<Rightarrow> sha1" where
  "pad_byte b bits s = (update s [b])\<lparr>total_bits := bits\<rparr>"

definition digest :: "sha1 \<Rightarrow> bytes" where
  "digest s =
     (let bits = total_bits s;
          s = pad_byte 0x80 bits s;
          s = while (\<lambda>s. length (pending s) \<noteq> 56) (pad_byte 0 bits) s;
          hs = transform (hstate s) (take 56 (pending s) @ wr_be64 (of_nat bits))
      in concat (map (\<lambda>i. wr_be32 (hs ! i)) [0..<5]))"

definition sha1_of :: "bytes \<Rightarrow> bytes" where
  "sha1_of data = digest (update reset data)"

subsection \<open>The reference: FIPS 180-4\<close>

text \<open>
  SHA-1 as the standard writes it, section by section and without a definition of the code: the
  functions \<open>f_t\<close> with exclusive ors (4.1.1), the constants as the integer parts of square roots
  (4.2.1), the padding (5.1.1), the initial value (5.3.1), the message schedule as a recurrence and
  the working variables after \<open>t\<close> rounds (6.1.2).  Words are read and written as numbers.
\<close>

definition fips_f :: "nat \<Rightarrow> 32 word \<Rightarrow> 32 word \<Rightarrow> 32 word \<Rightarrow> 32 word" where
  "fips_f t x y z =
     (if t \<le> 19 then (x AND y) XOR (NOT x AND z)
      else if 40 \<le> t \<and> t \<le> 59 then (x AND y) XOR (x AND z) XOR (y AND z)
      else x XOR y XOR z)"

definition fips_K :: "nat \<Rightarrow> nat" where
  "fips_K t = [1518500249, 1859775393, 2400959708, 3395469782] ! (t div 20)"

definition fips_H0 :: "32 word list" where
  "fips_H0 = [0x67452301, 0xefcdab89, 0x98badcfe, 0x10325476, 0xc3d2e1f0]"

text \<open>The four constants are \<open>2 ^ 30\<close> times the square roots of 2, 3, 5 and 10, cut.\<close>

lemma fips_K_roots:
  "t < 80 \<Longrightarrow> fips_K t ^ 2 \<le> [2, 3, 5, 10] ! (t div 20) * 2 ^ 60 \<and>
     [2, 3, 5, 10] ! (t div 20) * 2 ^ 60 < (fips_K t + 1) ^ 2"
proof -
  assume "t < 80"
  then have "t div 20 = 0 \<or> t div 20 = 1 \<or> t div 20 = 2 \<or> t div 20 = 3" by arith
  then show ?thesis by (auto simp: fips_K_def power2_eq_square)
qed

function fips_W :: "bytes \<Rightarrow> nat \<Rightarrow> 32 word" where
  "fips_W M t =
     (if t < 16 then of_nat (be_num [M ! (4 * t), M ! (4 * t + 1), M ! (4 * t + 2), M ! (4 * t + 3)])
      else word_rotl 1 (fips_W M (t - 3) XOR fips_W M (t - 8) XOR fips_W M (t - 14) XOR fips_W M (t - 16)))"
  by pat_completeness auto
termination
  by (relation "measure (\<lambda>(M, t). t)") auto

declare fips_W.simps [simp del]

primrec fips_vars :: "bytes \<Rightarrow> 32 word list \<Rightarrow> nat \<Rightarrow> 32 word \<times> 32 word \<times> 32 word \<times> 32 word \<times> 32 word" where
  "fips_vars M H 0 = (H ! 0, H ! 1, H ! 2, H ! 3, H ! 4)"
| "fips_vars M H (Suc t) =
     (case fips_vars M H t of (a, b, c, d, e) \<Rightarrow>
       (word_rotl 5 a + fips_f t b c d + e + of_nat (fips_K t) + fips_W M t, a, word_rotl 30 b, c, d))"

definition fips_compress :: "bytes \<Rightarrow> 32 word list \<Rightarrow> 32 word list" where
  "fips_compress M H =
     (case fips_vars M H 80 of (a, b, c, d, e) \<Rightarrow> [a + H ! 0, b + H ! 1, c + H ! 2, d + H ! 3, e + H ! 4])"

text \<open>The number of zero bytes is the smallest that leaves room for the length in the last block.\<close>

definition zero_count :: "nat \<Rightarrow> nat" where
  "zero_count n = (119 - n mod 64) mod 64"

definition padded :: "bytes \<Rightarrow> bytes" where
  "padded m = m @ 0x80 # replicate (zero_count (length m)) 0 @ num_be 8 (length m * 8)"

definition fips_blocks :: "bytes \<Rightarrow> bytes list" where
  "fips_blocks m = map (\<lambda>i. take 64 (drop (64 * i) m)) [0..<length m div 64]"

definition sha1_spec :: "bytes \<Rightarrow> bytes" where
  "sha1_spec m = concat (map (\<lambda>w. num_be 4 (unat w)) (fold fips_compress (fips_blocks (padded m)) fips_H0))"

subsection \<open>The compression function is the standard's\<close>

lemma rotl_word_rotl:
  assumes "0 < n" "n < 32"
  shows "rotl v n = word_rotl n v"
proof (rule bit_word_eqI)
  fix k :: nat
  assume "k < LENGTH(32)"
  then have k: "k < 32" by simp
  have "bit (word_rotl n v) k = bit v ((k + (32 - n)) mod 32)"
    using k assms by (simp add: bit_word_rotl_iff)
  also have "\<dots> = (if k < n then bit v (k + (32 - n)) else bit v (k - n))"
    using k assms by (simp add: mod_if)
  also have "\<dots> = bit (rotl v n) k"
    using k assms by (auto simp: rotl_def bit_simps add.commute dest: bit_imp_le_length)
  finally show "bit (rotl v n) k = bit (word_rotl n v) k" by simp
qed

lemma round_f_fips: "i < 80 \<Longrightarrow> round_f i x y z = fips_f i x y z"
  by (rule bit_word_eqI) (auto simp: round_f_def fips_f_def bit_simps)

lemma round_k_fips: "i < 80 \<Longrightarrow> round_k i = of_nat (fips_K i)"
proof -
  assume "i < 80"
  then consider "i < 20" | "20 \<le> i" "i < 40" | "40 \<le> i" "i < 60" | "60 \<le> i" "i < 80" by linarith
  then show ?thesis
  proof cases
    case 1
    then show ?thesis by (simp add: round_k_def fips_K_def)
  next
    case 2
    then have "i div 20 = 1" by simp
    with 2 show ?thesis by (simp add: round_k_def fips_K_def)
  next
    case 3
    then have "i div 20 = 2" by simp
    with 3 show ?thesis by (simp add: round_k_def fips_K_def)
  next
    case 4
    then have "i div 20 = 3" by simp
    with 4 show ?thesis by (simp add: round_k_def fips_K_def)
  qed
qed

lemma rd_be32_fips:
  assumes "length M = 64" "t < 16"
  shows "rd_be32 (drop (t * 4) M) = fips_W M t"
proof -
  have "drop (t * 4) M ! k = M ! (4 * t + k)" if "k < 4" for k
    using assms that by (simp add: mult.commute)
  then have "unat (rd_be32 (drop (t * 4) M)) = be_num [M ! (4 * t), M ! (4 * t + 1), M ! (4 * t + 2), M ! (4 * t + 3)]"
    unfolding rd_be32_num by simp
  then have "rd_be32 (drop (t * 4) M) = of_nat (be_num [M ! (4 * t), M ! (4 * t + 1), M ! (4 * t + 2), M ! (4 * t + 3)])"
    by (metis of_nat_unat ucast_id)
  then show ?thesis using assms(2) by (subst fips_W.simps) simp
qed

lemma schedule_fips: "length M = 64 \<Longrightarrow> schedule M = map (fips_W M) [0..<80]"
proof -
  assume len: "length M = 64"
  let ?step = "\<lambda>i w. w @ [rotl (w ! (i - 3) XOR w ! (i - 8) XOR w ! (i - 14) XOR w ! (i - 16)) 1]"
  have steps: "[16..<16 + Suc k] = [16..<16 + k] @ [16 + k]" "[0..<16 + Suc k] = [0..<16 + k] @ [16 + k]" for k
    by (simp_all only: add_Suc_right upt_Suc_append le_add1 zero_le)
  have "fold ?step [16..<16 + k] (map (fips_W M) [0..<16]) = map (fips_W M) [0..<16 + k]" for k
  proof (induction k)
    case (Suc k)
    have "fips_W M (16 + k) = word_rotl 1 (fips_W M (16 + k - 3) XOR fips_W M (16 + k - 8) XOR
        fips_W M (16 + k - 14) XOR fips_W M (16 + k - 16))"
      by (subst fips_W.simps) simp
    moreover have "map (fips_W M) [0..<16 + k] ! j = fips_W M j" if "j < 16 + k" for j
      using that by simp
    ultimately show ?case
      unfolding steps fold_append comp_apply Suc.IH
      by (simp add: rotl_word_rotl del: upt_rec_numeral One_nat_def)
  qed simp
  from this [of 64] have "fold ?step [16..<80] (map (fips_W M) [0..<16]) = map (fips_W M) [0..<80]"
    by (simp del: upt_rec_numeral)
  moreover have "map (\<lambda>i. rd_be32 (drop (i * 4) M)) [0..<16] = map (fips_W M) [0..<16]"
    using rd_be32_fips [OF len] by (intro map_cong) (auto simp del: upt_rec_numeral)
  ultimately show ?thesis by (simp only: schedule_def)
qed

lemma rounds_fips:
  assumes "length M = 64" "k \<le> 80"
  shows "fold (sha1_round (schedule M)) [0..<k] (H ! 0, H ! 1, H ! 2, H ! 3, H ! 4) = fips_vars M H k"
  using assms(2)
proof (induction k)
  case (Suc k)
  obtain a b c d e where v: "fips_vars M H k = (a, b, c, d, e)" by (rule prod_cases5)
  have "schedule M ! k = fips_W M k"
    using Suc.prems unfolding schedule_fips [OF assms(1)] by (simp del: upt_rec_numeral)
  with Suc v show ?case by (simp add: rotl_word_rotl round_f_fips round_k_fips)
qed simp

lemma transform_fips: "length M = 64 \<Longrightarrow> transform H M = fips_compress M H"
  using rounds_fips [of M 80 H]
  by (simp add: transform_def fips_compress_def Let_def add.commute split: prod.splits del: upt_rec_numeral)

lemma h0_fips: "h0 = fips_H0"
  by (simp add: h0_def fips_H0_def)

subsection \<open>Cutting into blocks\<close>

lemma absorb_short: "length data < 64 \<Longrightarrow> absorb hs data = (hs, data)"
  by (simp add: absorb.simps)

lemma absorb_block: "length b = 64 \<Longrightarrow> absorb hs (b @ data) = absorb (transform hs b) data"
  by (subst absorb.simps) simp

lemma absorb_rest: "length (snd (absorb hs data)) = length data mod 64"
proof (induction hs data rule: absorb.induct)
  case (1 hs data)
  then show ?case
    by (cases "64 \<le> length data") (auto simp: absorb.simps [of hs data] le_mod_geq)
qed

lemma absorb_append: "absorb hs (a @ b) = (case absorb hs a of (hs', r) \<Rightarrow> absorb hs' (r @ b))"
proof (induction hs a rule: absorb.induct)
  case (1 hs a)
  show ?case
  proof (cases "64 \<le> length a")
    case True
    then have "absorb hs (a @ b) = absorb (transform hs (take 64 a)) (drop 64 a @ b)"
      by (subst absorb.simps) simp
    with True "1.IH" show ?thesis by (simp add: absorb.simps [of hs a])
  next
    case False
    then show ?thesis by (simp add: absorb.simps [of hs a])
  qed
qed

text \<open>
  With fewer than 64 bytes pending, one call of \<open>update\<close> leaves what absorbing the pending
  bytes and the new ones leaves.
\<close>

lemma update_absorb:
  assumes "length (pending s) < 64"
  shows "update s data = s\<lparr>hstate := fst (absorb (hstate s) (pending s @ data)), pending := snd (absorb (hstate s) (pending s @ data)),
    total_bits := u64 (total_bits s + length data * 8)\<rparr>"
proof (cases "pending s = []")
  case True
  obtain hs r where a: "absorb (hstate s) data = (hs, r)" by force
  with True show ?thesis by (cases r) (simp_all add: update_def update_blocks_def Let_def)
next
  case False
  let ?n = "64 - length (pending s)"
  show ?thesis
  proof (cases "length data < ?n")
    case True
    then have "absorb (hstate s) (pending s @ data) = (hstate s, pending s @ data)"
      by (simp add: absorb_short)
    with True False show ?thesis by (simp add: update_def Let_def)
  next
    case False
    let ?b = "pending s @ take ?n data"
    have len: "length ?b = 64" using False assms by simp
    have eq: "absorb (hstate s) (pending s @ data) = absorb (transform (hstate s) ?b) (drop ?n data)"
      using absorb_block [OF len, of "hstate s" "drop ?n data"] by simp
    obtain hs r where a: "absorb (transform (hstate s) ?b) (drop ?n data) = (hs, r)" by force
    from False len \<open>pending s \<noteq> []\<close> a eq show ?thesis
      by (cases r) (simp_all add: update_def update_blocks_def Let_def)
  qed
qed

lemma update_buf_less: "length (pending s) < 64 \<Longrightarrow> length (pending (update s data)) < 64"
  by (simp add: update_absorb absorb_rest)

lemma update_update:
  assumes "length (pending s) < 64"
  shows "update (update s a) b = update s (a @ b)"
proof -
  obtain hs r where a: "absorb (hstate s) (pending s @ a) = (hs, r)" by force
  have r: "length r < 64" using absorb_rest [of "hstate s" "pending s @ a"] a by simp
  have "absorb (hstate s) (pending s @ a @ b) = absorb hs (r @ b)"
    using absorb_append [of "hstate s" "pending s @ a" b] a by simp
  moreover have "u64 (u64 (total_bits s + length a * 8) + length b * 8) =
      u64 (total_bits s + length (a @ b) * 8)"
    by (simp add: u64_def mod_add_left_eq add_mult_distrib add.assoc)
  ultimately show ?thesis
    using assms a r by (simp add: update_absorb)
qed

lemma update_Nil: "length (pending s) < 64 \<Longrightarrow> total_bits s < 2 ^ 64 \<Longrightarrow> update s [] = s"
  by (simp add: update_absorb absorb_short u64_def)

lemma reset_buf [simp]: "pending reset = []" "hstate reset = h0" "total_bits reset = 0"
  by (simp_all add: reset_def)

lemma update_reset:
  "update reset m = \<lparr>hstate = fst (absorb h0 m), total_bits = u64 (length m * 8), pending = snd (absorb h0 m)\<rparr>"
  by (simp add: update_absorb reset_def)

subsection \<open>The digest is the hash of the padded message\<close>

lemma pad_mod: "l < 64 \<Longrightarrow> (120 - l) mod 64 = (if l \<le> 56 then 56 - l else 120 - (l::nat))"
  by (simp add: le_mod_geq)

lemma succ_mod: "l < 64 \<Longrightarrow> (l + 1) mod 64 = (if l = 63 then 0 else l + (1::nat))"
  by simp

lemma zero_count_small: "n < 64 \<Longrightarrow> zero_count n = (if n \<le> 55 then 55 - n else 119 - n)"
  by (simp add: zero_count_def le_mod_geq)

lemma update_total_bits:
  "length (pending s) < 64 \<Longrightarrow>
   (update (s\<lparr>total_bits := x\<rparr>) d)\<lparr>total_bits := y\<rparr> = (update s d)\<lparr>total_bits := y\<rparr>"
  by (simp add: update_absorb)

lemma pad_byte_buf: "length (pending s) < 64 \<Longrightarrow> length (pending (pad_byte b bits s)) = (length (pending s) + 1) mod 64"
  by (simp add: pad_byte_def update_absorb absorb_rest)

lemma pad_loop:
  assumes "length (pending s) < 64" and "total_bits s = bits"
  shows "while (\<lambda>s. length (pending s) \<noteq> 56) (pad_byte 0 bits) s =
    (update s (replicate ((120 - length (pending s)) mod 64) 0))\<lparr>total_bits := bits\<rparr>"
  using assms
proof (induction "(120 - length (pending s)) mod 64" arbitrary: s)
  case 0
  then have "length (pending s) = 56" by (simp add: pad_mod split: if_splits)
  with 0 show ?case by (simp add: while_unfold update_absorb absorb_short)
next
  case (Suc k)
  let ?s = "pad_byte 0 bits s"
  have ne: "length (pending s) \<noteq> 56" using Suc(2) by auto
  have len: "length (pending ?s) = (length (pending s) + 1) mod 64"
    using Suc.prems by (simp add: pad_byte_buf)
  have k: "k = (120 - length (pending ?s)) mod 64"
    using Suc(2) Suc.prems(1) ne unfolding len
    by (simp only: pad_mod succ_mod) (auto simp: le_mod_geq split: if_splits)
  have less: "length (pending (update s [0])) < 64"
    using Suc.prems by (simp add: update_buf_less)
  have "while (\<lambda>s. length (pending s) \<noteq> 56) (pad_byte 0 bits) s =
      while (\<lambda>s. length (pending s) \<noteq> 56) (pad_byte 0 bits) ?s"
    using ne by (simp add: while_unfold [of _ _ s])
  also have "\<dots> = (update ?s (replicate ((120 - length (pending ?s)) mod 64) 0))\<lparr>total_bits := bits\<rparr>"
    by (rule Suc(1) [OF k]) (use less in \<open>simp_all add: pad_byte_def\<close>)
  also have "\<dots> = (update ?s (replicate k 0))\<lparr>total_bits := bits\<rparr>"
    by (simp only: k [symmetric])
  also have "\<dots> = (update (update s [0]) (replicate k 0))\<lparr>total_bits := bits\<rparr>"
    unfolding pad_byte_def by (rule update_total_bits [OF less])
  also have "\<dots> = (update s (replicate (Suc k) 0))\<lparr>total_bits := bits\<rparr>"
    using Suc.prems by (simp add: update_update)
  finally show ?case by (simp add: Suc(2) [symmetric])
qed

lemma pad_state:
  assumes "length (pending s) < 64"
  shows "while (\<lambda>s. length (pending s) \<noteq> 56) (pad_byte 0 (total_bits s)) (pad_byte 0x80 (total_bits s) s) =
    (update s (0x80 # replicate (zero_count (length (pending s))) 0))\<lparr>total_bits := total_bits s\<rparr>"
proof -
  let ?s = "update s [0x80]"
  have less: "length (pending ?s) < 64" by (rule update_buf_less [OF assms])
  have len: "length (pending ?s) = (length (pending s) + 1) mod 64"
    using pad_byte_buf [OF assms, of "0x80" 0] by (simp add: pad_byte_def)
  have z: "(120 - length (pending ?s)) mod 64 = zero_count (length (pending s))"
    using assms unfolding len by (simp only: succ_mod zero_count_small) (auto simp: pad_mod)
  show ?thesis
    using pad_loop [of "pad_byte 0x80 (total_bits s) s" "total_bits s"] less z
    by (simp add: pad_byte_def update_total_bits [OF less] update_update [OF assms])
qed

lemma zero_count_mod [simp]: "zero_count (n mod 64) = zero_count n"
  by (simp add: zero_count_def)

lemma zero_count_total: "(n + 1 + zero_count n) mod 64 = 56"
proof -
  have "(n + 1 + zero_count n) mod 64 = (n mod 64 + 1 + zero_count (n mod 64)) mod 64"
    by (metis zero_count_mod add.assoc mod_add_left_eq)
  also have "\<dots> = 56"
    using mod_less_divisor [of 64 n] by (simp add: zero_count_small del: zero_count_mod)
  finally show ?thesis .
qed

text \<open>On whole blocks, \<open>absorb\<close> is the fold of the standard over them.\<close>

lemma fips_blocks_Cons: "64 \<le> length m \<Longrightarrow> fips_blocks m = take 64 m # fips_blocks (drop 64 m)"
proof -
  assume "64 \<le> length m"
  then have "length m div 64 = Suc ((length m - 64) div 64)" by (simp add: le_div_geq)
  then have "[0..<length m div 64] = 0 # map Suc [0..<length (drop 64 m) div 64]"
    by (simp only: upt_conv_Cons zero_less_Suc map_Suc_upt length_drop)
  then show ?thesis by (simp add: fips_blocks_def add.commute)
qed

lemma absorb_fips: "fst (absorb H m) = fold fips_compress (fips_blocks m) H"
proof (induction H m rule: absorb.induct)
  case (1 H m)
  show ?case
  proof (cases "64 \<le> length m")
    case True
    then have "absorb H m = absorb (transform H (take 64 m)) (drop 64 m)" by (subst absorb.simps) simp
    with "1.IH" [OF True] True show ?thesis by (simp add: fips_blocks_Cons transform_fips)
  next
    case False
    then show ?thesis by (simp add: absorb_short fips_blocks_def)
  qed
qed

lemma length_fips: "length H = 5 \<Longrightarrow> length (fold fips_compress bs H) = 5"
  by (induction bs arbitrary: H) (simp_all add: fips_compress_def split: prod.splits)

lemma sha1_spec_absorb:
  "sha1_spec m = concat (map (\<lambda>i. wr_be32 (fst (absorb h0 (padded m)) ! i)) [0..<5])"
proof -
  let ?h = "fold fips_compress (fips_blocks (padded m)) fips_H0"
  have "map (\<lambda>i. ?h ! i) [0..<5] = ?h"
    using map_nth [of ?h] length_fips [of fips_H0] by (simp add: fips_H0_def del: upt_rec_numeral)
  then have "map (\<lambda>w. num_be 4 (unat w)) ?h = map (\<lambda>i. wr_be32 (?h ! i)) [0..<5]"
    by (metis (no_types, lifting) map_map map_eq_conv o_apply wr_be32_num)
  then show ?thesis by (simp only: sha1_spec_def absorb_fips h0_fips)
qed

lemma length_word: "num_be 8 n = wr_be64 (of_nat (u64 n))"
proof -
  have "unat (of_nat n :: 64 word) = u64 n" by (simp add: u64_def unsigned_of_nat take_bit_eq_mod)
  then have "of_nat (u64 n) = (of_nat n :: 64 word)" by (metis of_nat_unat ucast_id)
  then show ?thesis by (simp only: wr_be64_of_nat)
qed

text \<open>
  \<open>digest\<close> after one \<open>update\<close>, hence after any sequence of them, is the reference hash: the
  padding loop terminates, writes the terminator and the zeros, and the length word closes
  the last block.
\<close>

lemma sha1_of_spec: "sha1_of m = sha1_spec m"
proof -
  let ?s = "update reset m"
  let ?z = "replicate (zero_count (length m)) (0 :: byte)"
  let ?len = "wr_be64 (of_nat (u64 (length m * 8)))"
  have padded_def: "padded m = m @ 0x80 # ?z @ ?len" by (simp only: Sha1.padded_def length_word)
  obtain hs r where a: "absorb h0 (m @ 0x80 # ?z) = (hs, r)" by force
  have r: "length r = 56"
    using absorb_rest [of h0 "m @ 0x80 # ?z"] a zero_count_total [of "length m"] by simp
  have pending: "length (pending ?s) = length m mod 64" and bits: "total_bits ?s = u64 (length m * 8)"
    by (simp_all add: update_reset absorb_rest)
  have less: "length (pending ?s) < 64" by (simp add: pending)
  have st: "while (\<lambda>s. length (pending s) \<noteq> 56) (pad_byte 0 (total_bits ?s)) (pad_byte 0x80 (total_bits ?s) ?s)
      = \<lparr>hstate = hs, total_bits = u64 (length m * 8), pending = r\<rparr>"
    unfolding pad_state [OF less] using a
    by (simp add: pending bits update_update) (simp add: update_reset)
  have "absorb h0 (padded m) = absorb hs (r @ ?len)"
    using absorb_append [of h0 "m @ 0x80 # ?z" ?len] a by (simp add: padded_def)
  also have "\<dots> = absorb (transform hs (r @ ?len)) []"
    using absorb_block [of "r @ ?len" hs "[]"] r by simp
  also have "\<dots> = (transform hs (r @ ?len), [])" by (simp add: absorb_short)
  finally have "fst (absorb h0 (padded m)) = transform hs (r @ ?len)" by simp
  then show ?thesis
    unfolding sha1_of_def digest_def Let_def st sha1_spec_absorb using r by (simp add: bits)
qed

lemma length_sha1_of: "length (sha1_of m) = 20"
  by (simp add: sha1_of_def digest_def Let_def upt_rec)

subsection \<open>The interface the storage layer uses\<close>

text \<open>
  An incremental hash: an object that can be fed in any number of pieces.  The client only
  needs that two successive feeds equal one, from a state it can reach.
\<close>

locale incremental_hash =
  fixes init :: 's
    and feed :: "'s \<Rightarrow> bytes \<Rightarrow> 's"
    and ok :: "'s \<Rightarrow> bool"
  assumes ok_init: "ok init"
    and ok_feed: "ok s \<Longrightarrow> ok (feed s d)"
    and feed_Nil: "ok s \<Longrightarrow> feed s [] = s"
    and feed_feed: "ok s \<Longrightarrow> feed (feed s a) b = feed s (a @ b)"
begin

lemma feed_all: "ok s \<Longrightarrow> fold (\<lambda>d s. feed s d) ds s = feed s (concat ds)"
  by (induction ds arbitrary: s) (auto simp: feed_Nil feed_feed ok_feed)

lemma feed_all_init: "fold (\<lambda>d s. feed s d) ds init = feed init (concat ds)"
  by (rule feed_all [OF ok_init])

end

definition sha1_ok :: "sha1 \<Rightarrow> bool" where
  "sha1_ok s \<longleftrightarrow> length (pending s) < 64 \<and> total_bits s < 2 ^ 64"

lemma sha1_ok_update: "sha1_ok s \<Longrightarrow> sha1_ok (update s d)"
  by (simp add: sha1_ok_def update_absorb absorb_rest u64_def)

interpretation sha: incremental_hash reset update sha1_ok
proof unfold_locales
  show "sha1_ok reset" by (simp add: sha1_ok_def)
next
  fix s d
  assume "sha1_ok s"
  then show "sha1_ok (update s d)" by (rule sha1_ok_update)
next
  fix s
  assume "sha1_ok s"
  then show "update s [] = s" by (simp add: sha1_ok_def update_Nil)
next
  fix s a b
  assume "sha1_ok s"
  then show "update (update s a) b = update s (a @ b)" by (simp add: sha1_ok_def update_update)
qed

lemma digest_fold_update: "digest (fold (\<lambda>d s. update s d) ds reset) = sha1_spec (concat ds)"
  by (simp add: sha.feed_all_init sha1_of_def [symmetric] sha1_of_spec)

subsection \<open>Properties\<close>

text \<open>C31: the hasher of the code computes SHA-1 of FIPS 180-4, and in pieces as well as whole: fed
  any sequence of chunks, empty ones included, and then finalised, it yields the 20 bytes the
  standard gives for their concatenation, where the standard is written out on its own (functions,
  constants, schedule, rounds, padding and initial value).  So the compression of a block, the
  buffering of partial blocks, the padding loop and the restored bit count are right for every
  split.\<close>

theorem digest_of_chunks:
  "digest (fold (\<lambda>d s. update s d) ds reset) = sha1_spec (concat ds) \<and>
   length (digest (fold (\<lambda>d s. update s d) ds reset)) = 20"
  using digest_fold_update length_sha1_of [of "concat ds"] by (simp add: sha1_of_spec)

end
