(* ===== verification/Bencode.thy ===== *)
theory Bencode
  imports Bytes
begin

text \<open>
  The bencode decoder and encoder of \<open>source/bt/bencode.cpp\<close>.  A decoded value keeps the
  range of the input it was read from, as \<open>raw_begin\<close> and \<open>raw_end\<close> do; a dictionary is the
  association list, in increasing key order, that iterating the \<open>std::map\<close> yields.  The error
  messages are the constructors of \<open>berr\<close>.

  The parser is three mutually recursive functions over a fuel; \<open>parse_enough\<close> shows that
  \<open>2 * size + 1\<close> units, which \<open>bdecode\<close> provides, are never exhausted, so \<open>Fuel\<close> is not
  an outcome.  The other results: what the parser accepts is well formed, ranges nest, and
  decoding inverts encoding whatever follows the value.
\<close>

datatype berr = NegForbidden | IntRange | IntExpected | LeadingZero | MinusZero | DelimExpected
  | StrTooLong | StrTruncated | ListUnterminated | DictUnterminated | KeyNotText | TooDeep
  | InputTruncated | UnexpectedByte | Fuel

datatype bvalue =
    BInt (raw: "nat \<times> nat") int
  | BStr (raw: "nat \<times> nat") bytes
  | BList (raw: "nat \<times> nat") "bvalue list"
  | BDict (raw: "nat \<times> nat") "(bytes \<times> bvalue) list"

definition kMaxDepth :: nat where
  "kMaxDepth = 32"

definition kMaxStringLen :: nat where
  "kMaxStringLen = 64 * 1024 * 1024"

subsection \<open>Access\<close>

definition is_int :: "bvalue \<Rightarrow> bool" where
  "is_int v = (case v of BInt _ _ \<Rightarrow> True | _ \<Rightarrow> False)"

definition is_str :: "bvalue \<Rightarrow> bool" where
  "is_str v = (case v of BStr _ _ \<Rightarrow> True | _ \<Rightarrow> False)"

definition is_list :: "bvalue \<Rightarrow> bool" where
  "is_list v = (case v of BList _ _ \<Rightarrow> True | _ \<Rightarrow> False)"

definition is_dict :: "bvalue \<Rightarrow> bool" where
  "is_dict v = (case v of BDict _ _ \<Rightarrow> True | _ \<Rightarrow> False)"

definition find_key :: "bvalue \<Rightarrow> bytes \<Rightarrow> bvalue option" where
  "find_key v key = (case v of BDict _ d \<Rightarrow> map_of d key | _ \<Rightarrow> None)"

definition find_int :: "bvalue \<Rightarrow> bytes \<Rightarrow> int option" where
  "find_int v key = (case find_key v key of Some (BInt _ i) \<Rightarrow> Some i | _ \<Rightarrow> None)"

definition find_str :: "bvalue \<Rightarrow> bytes \<Rightarrow> bytes option" where
  "find_str v key = (case find_key v key of Some (BStr _ s) \<Rightarrow> Some s | _ \<Rightarrow> None)"

definition find_list :: "bvalue \<Rightarrow> bytes \<Rightarrow> bvalue list option" where
  "find_list v key = (case find_key v key of Some (BList _ l) \<Rightarrow> Some l | _ \<Rightarrow> None)"

definition find_dict :: "bvalue \<Rightarrow> bytes \<Rightarrow> bvalue option" where
  "find_dict v key = (case find_key v key of Some d \<Rightarrow> (if is_dict d then Some d else None) | None \<Rightarrow> None)"

definition int_or :: "bvalue \<Rightarrow> bytes \<Rightarrow> int \<Rightarrow> int" where
  "int_or v key fallback = (case find_int v key of Some i \<Rightarrow> i | None \<Rightarrow> fallback)"

definition str_or :: "bvalue \<Rightarrow> bytes \<Rightarrow> bytes \<Rightarrow> bytes" where
  "str_or v key fallback = (case find_str v key of Some s \<Rightarrow> s | None \<Rightarrow> fallback)"

definition from_int :: "int \<Rightarrow> bvalue" where
  "from_int i = BInt (0, 0) i"

definition from_list :: bvalue where
  "from_list = BList (0, 0) []"

definition from_dict :: bvalue where
  "from_dict = BDict (0, 0) []"

definition from_str :: "bytes \<Rightarrow> bvalue" where
  "from_str s = BStr (0, 0) s"

text \<open>\<open>std::map::emplace\<close>: keys stay sorted and a key already present keeps its value.\<close>

fun emplace :: "bytes \<Rightarrow> bvalue \<Rightarrow> (bytes \<times> bvalue) list \<Rightarrow> (bytes \<times> bvalue) list" where
  "emplace k v [] = [(k, v)]"
| "emplace k v ((k', v') # d) =
     (if k < k' then (k, v) # (k', v') # d
      else if k = k' then (k', v') # d
      else (k', v') # emplace k v d)"

subsection \<open>Decoding\<close>

fun read_digits :: "bytes \<Rightarrow> nat \<Rightarrow> nat \<Rightarrow> berr + nat \<times> nat" where
  "read_digits [] v k = Inr (v, k)"
| "read_digits (c # s) v k =
     (if is_digit c then
        (let digit = digit_val c
         in if (2 ^ 63 - 1 - digit) div 10 < v then Inl IntRange
            else read_digits s (v * 10 + digit) (Suc k))
      else Inr (v, k))"

definition read_number :: "bytes \<Rightarrow> nat \<Rightarrow> byte \<Rightarrow> bool \<Rightarrow> berr + int \<times> nat" where
  "read_number b p terminator allow_negative =
     (let negative = p < length b \<and> b ! p = B CHR ''-''
      in if negative \<and> \<not> allow_negative then Inl NegForbidden
         else
           let digits_begin = (if negative then p + 1 else p)
           in case read_digits (drop digits_begin b) 0 0 of
                Inl e \<Rightarrow> Inl e
              | Inr (v, k) \<Rightarrow>
                  let p' = digits_begin + k
                  in if k = 0 then Inl IntExpected
                     else if b ! digits_begin = B CHR ''0'' \<and> 1 < k then Inl LeadingZero
                     else if negative \<and> v = 0 then Inl MinusZero
                     else if length b \<le> p' \<or> b ! p' \<noteq> terminator then Inl DelimExpected
                     else Inr (if negative then - int v else int v, p' + 1))"

definition parse_str :: "bytes \<Rightarrow> nat \<Rightarrow> berr + bytes \<times> nat" where
  "parse_str b p =
     (case read_number b p (B CHR '':'') False of
        Inl e \<Rightarrow> Inl e
      | Inr (len, p') \<Rightarrow>
          if int kMaxStringLen < len then Inl StrTooLong
          else if length b - p' < nat len then Inl StrTruncated
          else Inr (take (nat len) (drop p' b), p' + nat len))"

text \<open>The \<open>switch\<close> on the first byte of a value.\<close>

datatype lead = LInt | LList | LDict | LStr | LBad

definition lead_of :: "byte \<Rightarrow> lead" where
  "lead_of c =
     (if c = B CHR ''i'' then LInt
      else if c = B CHR ''l'' then LList
      else if c = B CHR ''d'' then LDict
      else if is_digit c then LStr
      else LBad)"

definition at_end :: "bytes \<Rightarrow> nat \<Rightarrow> bool" where
  "at_end b p \<longleftrightarrow> b ! p = B CHR ''e''"

definition parse_int :: "bytes \<Rightarrow> nat \<Rightarrow> berr + int \<times> nat" where
  "parse_int b p = read_number b (p + 1) (B CHR ''e'') True"

fun parse_value :: "nat \<Rightarrow> bytes \<Rightarrow> nat \<Rightarrow> nat \<Rightarrow> berr + bvalue \<times> nat"
and parse_list :: "nat \<Rightarrow> bytes \<Rightarrow> nat \<Rightarrow> nat \<Rightarrow> bvalue list \<Rightarrow> berr + bvalue list \<times> nat"
and parse_dict :: "nat \<Rightarrow> bytes \<Rightarrow> nat \<Rightarrow> nat \<Rightarrow> (bytes \<times> bvalue) list \<Rightarrow>
  berr + (bytes \<times> bvalue) list \<times> nat" where
  "parse_value 0 b p depth = Inl Fuel"
| "parse_value (Suc n) b p depth =
     (if kMaxDepth < depth then Inl TooDeep
      else if length b \<le> p then Inl InputTruncated
      else case lead_of (b ! p) of
        LInt \<Rightarrow> (case parse_int b p of
            Inl e \<Rightarrow> Inl e
          | Inr (i, p') \<Rightarrow> Inr (BInt (p, p') i, p'))
      | LList \<Rightarrow> (case parse_list n b (p + 1) depth [] of
            Inl e \<Rightarrow> Inl e
          | Inr (l, p') \<Rightarrow> Inr (BList (p, p') l, p'))
      | LDict \<Rightarrow> (case parse_dict n b (p + 1) depth [] of
            Inl e \<Rightarrow> Inl e
          | Inr (d, p') \<Rightarrow> Inr (BDict (p, p') d, p'))
      | LStr \<Rightarrow> (case parse_str b p of
            Inl e \<Rightarrow> Inl e
          | Inr (s, p') \<Rightarrow> Inr (BStr (p, p') s, p'))
      | LBad \<Rightarrow> Inl UnexpectedByte)"
| "parse_list 0 b p depth l = Inl Fuel"
| "parse_list (Suc n) b p depth l =
     (if length b \<le> p then Inl ListUnterminated
      else if at_end b p then Inr (l, p + 1)
      else case parse_value n b p (depth + 1) of
        Inl e \<Rightarrow> Inl e
      | Inr (v, p') \<Rightarrow> parse_list n b p' depth (l @ [v]))"
| "parse_dict 0 b p depth d = Inl Fuel"
| "parse_dict (Suc n) b p depth d =
     (if length b \<le> p then Inl DictUnterminated
      else if at_end b p then Inr (d, p + 1)
      else if \<not> is_digit (b ! p) then Inl KeyNotText
      else case parse_str b p of
        Inl e \<Rightarrow> Inl e
      | Inr (key, p') \<Rightarrow>
          (case parse_value n b p' (depth + 1) of
             Inl e \<Rightarrow> Inl e
           | Inr (v, p'') \<Rightarrow> parse_dict n b p'' depth (emplace key v d)))"

text \<open>Bytes after the value are tolerated, as in the code.\<close>

definition bdecode :: "bytes \<Rightarrow> berr + bvalue" where
  "bdecode b = map_sum id fst (parse_value (2 * length b + 1) b 0 0)"

subsection \<open>Encoding\<close>

definition encode_str :: "bytes \<Rightarrow> bytes" where
  "encode_str s = dec_nat (length s) @ B CHR '':'' # s"

fun bencode :: "bvalue \<Rightarrow> bytes" where
  "bencode (BInt _ i) = B CHR ''i'' # dec_int i @ [B CHR ''e'']"
| "bencode (BStr _ s) = encode_str s"
| "bencode (BList _ l) = B CHR ''l'' # concat (map bencode l) @ [B CHR ''e'']"
| "bencode (BDict _ d) = B CHR ''d'' # concat (map (\<lambda>(k, v). encode_str k @ bencode v) d) @ [B CHR ''e'']"

subsection \<open>Well-formed values\<close>

fun erase :: "bvalue \<Rightarrow> bvalue" where
  "erase (BInt _ i) = BInt (0, 0) i"
| "erase (BStr _ s) = BStr (0, 0) s"
| "erase (BList _ l) = BList (0, 0) (map erase l)"
| "erase (BDict _ d) = BDict (0, 0) (map (\<lambda>(k, v). (k, erase v)) d)"

fun bwf :: "bvalue \<Rightarrow> bool" where
  "bwf (BInt _ i) \<longleftrightarrow> - (2 ^ 63) < i \<and> i < 2 ^ 63"
| "bwf (BStr _ s) \<longleftrightarrow> length s \<le> kMaxStringLen"
| "bwf (BList _ l) \<longleftrightarrow> (\<forall>v \<in> set l. bwf v)"
| "bwf (BDict _ d) \<longleftrightarrow> sorted_wrt (<) (map fst d) \<and>
     (\<forall>kv \<in> set d. length (fst kv) \<le> kMaxStringLen \<and> bwf (snd kv))"

fun nesting :: "bvalue \<Rightarrow> nat" where
  "nesting (BInt _ _) = 0"
| "nesting (BStr _ _) = 0"
| "nesting (BList _ l) = fold max (map (\<lambda>v. Suc (nesting v)) l) 0"
| "nesting (BDict _ d) = fold max (map (\<lambda>kv. Suc (nesting (snd kv))) d) 0"

fun within :: "nat \<Rightarrow> nat \<Rightarrow> bvalue \<Rightarrow> bool" where
  "within lo hi (BInt r _) \<longleftrightarrow> lo \<le> fst r \<and> fst r < snd r \<and> snd r \<le> hi"
| "within lo hi (BStr r _) \<longleftrightarrow> lo \<le> fst r \<and> fst r < snd r \<and> snd r \<le> hi"
| "within lo hi (BList r l) \<longleftrightarrow> lo \<le> fst r \<and> fst r < snd r \<and> snd r \<le> hi \<and>
     (\<forall>v \<in> set l. within (fst r) (snd r) v)"
| "within lo hi (BDict r d) \<longleftrightarrow> lo \<le> fst r \<and> fst r < snd r \<and> snd r \<le> hi \<and>
     (\<forall>kv \<in> set d. within (fst r) (snd r) (snd kv))"

subsection \<open>Numbers and strings\<close>

lemma read_digits_bounds:
  "read_digits s v k = Inr (v', k') \<Longrightarrow> v < 2 ^ 63 \<Longrightarrow> k \<le> k' \<and> k' - k \<le> length s \<and> v' < 2 ^ 63"
proof (induction s arbitrary: v k)
  case (Cons c s)
  show ?case
  proof (cases "is_digit c")
    case True
    with Cons.prems have ok: "\<not> (2 ^ 63 - 1 - digit_val c) div 10 < v"
      and rec: "read_digits s (v * 10 + digit_val c) (Suc k) = Inr (v', k')"
      by (auto simp: Let_def split: if_splits)
    have "digit_val c < 10" using True by (rule digit_val_less)
    with ok have "v * 10 + digit_val c < 2 ^ 63" by simp
    from Cons.IH [OF rec this] show ?thesis by auto
  next
    case False
    with Cons.prems show ?thesis by simp
  qed
qed simp

lemma read_digits_error: "read_digits s v k = Inl e \<Longrightarrow> e = IntRange"
  by (induction s v k rule: read_digits.induct) (auto simp: Let_def split: if_splits)

lemma fold_dec_mono: "v \<le> fold (\<lambda>b v. v * 10 + digit_val b) ds v"
proof (induction ds arbitrary: v)
  case (Cons d ds)
  have "v \<le> v * 10 + digit_val d" by simp
  also have "\<dots> \<le> fold (\<lambda>b v. v * 10 + digit_val b) ds (v * 10 + digit_val d)" by (rule Cons)
  finally show ?case by simp
qed simp

lemma read_digits_append:
  "\<forall>d \<in> set ds. is_digit d \<Longrightarrow> rest \<noteq> [] \<Longrightarrow> \<not> is_digit (hd rest) \<Longrightarrow>
   fold (\<lambda>b v. v * 10 + digit_val b) ds v < 2 ^ 63 \<Longrightarrow>
   read_digits (ds @ rest) v k = Inr (fold (\<lambda>b v. v * 10 + digit_val b) ds v, k + length ds)"
proof (induction ds arbitrary: v k)
  case Nil
  then show ?case by (cases rest) auto
next
  case (Cons d ds)
  have "v * 10 + digit_val d < 2 ^ 63"
    using fold_dec_mono [of "v * 10 + digit_val d" ds] Cons.prems(4) by simp
  then have "\<not> (2 ^ 63 - 1 - digit_val d) div 10 < v" by simp
  with Cons show ?case by (simp add: Let_def)
qed

lemma read_number_ok:
  assumes "read_number b p t neg = Inr (i, p')"
  shows "p < p' \<and> p' \<le> length b \<and> - (2 ^ 63) < i \<and> i < 2 ^ 63 \<and> (\<not> neg \<longrightarrow> 0 \<le> i)"
proof -
  let ?negative = "p < length b \<and> b ! p = B CHR ''-''"
  let ?db = "if ?negative then p + 1 else p"
  obtain v k where d: "read_digits (drop ?db b) 0 0 = Inr (v, k)"
    using assms by (auto simp: read_number_def Let_def split: sum.splits if_splits)
  from read_digits_bounds [OF d] have v: "v < 2 ^ 63" by simp
  from assms d have "p' = ?db + k + 1" "k \<noteq> 0" "?db + k < length b"
    "i = (if ?negative then - int v else int v)" "?negative \<longrightarrow> neg"
    by (simp_all add: read_number_def Let_def split: if_splits)
  with v show ?thesis by auto
qed

lemma read_number_no_fuel: "read_number b p t neg \<noteq> Inl Fuel"
  by (auto simp: read_number_def Let_def dest: read_digits_error split: sum.splits if_splits)

lemma parse_int_ok:
  "parse_int b p = Inr (i, p') \<Longrightarrow> p < p' \<and> p' \<le> length b \<and> - (2 ^ 63) < i \<and> i < 2 ^ 63"
  using read_number_ok by (fastforce simp: parse_int_def)

lemma parse_int_no_fuel: "parse_int b p \<noteq> Inl Fuel"
  by (simp add: parse_int_def read_number_no_fuel)

lemma parse_str_ok:
  assumes "parse_str b p = Inr (s, p')"
  shows "p < p' \<and> p' \<le> length b \<and> length s \<le> kMaxStringLen"
proof -
  obtain len q where n: "read_number b p (B CHR '':'') False = Inr (len, q)"
    and s: "\<not> int kMaxStringLen < len" "\<not> length b - q < nat len" "s = take (nat len) (drop q b)"
      "p' = q + nat len"
    using assms by (auto simp: parse_str_def split: sum.splits if_splits)
  from read_number_ok [OF n] s show ?thesis by auto
qed

lemma parse_str_no_fuel: "parse_str b p \<noteq> Inl Fuel"
  using read_number_no_fuel [of b p "B CHR '':''" False]
  by (auto simp: parse_str_def split: sum.splits if_splits)

lemmas parse_atoms = parse_int_ok parse_str_ok
lemmas parse_no_fuel = parse_int_no_fuel parse_str_no_fuel
lemmas parse_induct = parse_value_parse_list_parse_dict.induct

subsection \<open>Progress, and fuel that is never exhausted\<close>

lemma parse_progress:
  shows value_progress: "parse_value n b p depth = Inr (v, p') \<Longrightarrow> p < p' \<and> p' \<le> length b"
    and list_progress: "parse_list n b p depth l = Inr (l', p') \<Longrightarrow> p < p' \<and> p' \<le> length b"
    and dict_progress: "parse_dict n b p depth d = Inr (d', p') \<Longrightarrow> p < p' \<and> p' \<le> length b"
proof (induction n b p depth and n b p depth l and n b p depth d
    arbitrary: v p' and l' p' and d' p' rule: parse_induct)
  case (2 n b p depth)
  then show ?case
    by (auto dest: parse_atoms split: if_splits lead.splits sum.splits)
next
  case (4 n b p depth l)
  show ?case
  proof (cases "length b \<le> p \<or> at_end b p")
    case True
    with "4.prems" show ?thesis by (auto split: if_splits)
  next
    case False
    with "4.prems" obtain v q where "parse_value n b p (depth + 1) = Inr (v, q)"
      "parse_list n b q depth (l @ [v]) = Inr (l', p')"
      by (auto split: sum.splits)
    with "4.IH" False show ?thesis by fastforce
  qed
next
  case (6 n b p depth d)
  show ?case
  proof (cases "length b \<le> p \<or> at_end b p \<or> \<not> is_digit (b ! p)")
    case True
    with "6.prems" show ?thesis by (auto split: if_splits)
  next
    case False
    with "6.prems" obtain key q v r where s: "parse_str b p = Inr (key, q)"
      and "parse_value n b q (depth + 1) = Inr (v, r)"
      "parse_dict n b r depth (emplace key v d) = Inr (d', p')"
      by (auto split: sum.splits)
    with "6.IH" False parse_str_ok [OF s] show ?thesis by fastforce
  qed
qed auto


lemma parse_enough:
  shows value_enough: "2 * (length b - p) + 1 \<le> n \<Longrightarrow> parse_value n b p depth \<noteq> Inl Fuel"
    and list_enough: "2 * (length b - p) + 2 \<le> n \<Longrightarrow> parse_list n b p depth l \<noteq> Inl Fuel"
    and dict_enough: "2 * (length b - p) + 2 \<le> n \<Longrightarrow> parse_dict n b p depth d \<noteq> Inl Fuel"
proof (induction n b p depth and n b p depth l and n b p depth d rule: parse_induct)
  case (2 n b p depth)
  show ?case
  proof (cases "kMaxDepth < depth \<or> length b \<le> p")
    case False
    then have "2 * (length b - (p + 1)) + 2 \<le> n" using "2.prems" by linarith
    with "2.IH" False have "lead_of (b ! p) = LList \<Longrightarrow> parse_list n b (p + 1) depth [] \<noteq> Inl Fuel"
      "lead_of (b ! p) = LDict \<Longrightarrow> parse_dict n b (p + 1) depth [] \<noteq> Inl Fuel"
      by auto
    with False show ?thesis
      using parse_no_fuel [of b p] by (cases "lead_of (b ! p)") (auto split: sum.splits)
  qed auto
next
  case (4 n b p depth l)
  show ?case
  proof (cases "length b \<le> p \<or> at_end b p")
    case False
    then have p: "p < length b" by simp
    show ?thesis
    proof (cases "parse_value n b p (depth + 1)")
      case (Inl e)
      with "4.IH"(1) "4.prems" False show ?thesis by auto
    next
      case (Inr r)
      obtain v q where r: "r = (v, q)" by force
      have "p < q" "q \<le> length b" using value_progress Inr r by blast+
      then have "2 * (length b - q) + 2 \<le> n" using "4.prems" p by linarith
      with "4.IH"(2) False Inr r show ?thesis by simp
    qed
  qed auto
next
  case (6 n b p depth d)
  show ?case
  proof (cases "length b \<le> p \<or> at_end b p \<or> \<not> is_digit (b ! p)")
    case False
    then have p: "p < length b" by simp
    show ?thesis
    proof (cases "parse_str b p")
      case (Inl e)
      with False show ?thesis using parse_str_no_fuel [of b p] by auto
    next
      case (Inr ks)
      obtain key q where ks: "ks = (key, q)" by force
      have q: "p < q" "q \<le> length b" using parse_str_ok Inr ks by blast+
      show ?thesis
      proof (cases "parse_value n b q (depth + 1)")
        case (Inl e)
        have "2 * (length b - q) + 1 \<le> n" using q "6.prems" by linarith
        with Inl "6.IH"(1) False \<open>parse_str b p = Inr ks\<close> ks show ?thesis by auto
      next
        case (Inr r)
        obtain v q' where r: "r = (v, q')" by force
        have "q < q'" "q' \<le> length b" using value_progress Inr r by blast+
        then have "2 * (length b - q') + 2 \<le> n" using "6.prems" q by linarith
        with "6.IH"(2) False Inr r \<open>parse_str b p = Inr ks\<close> ks show ?thesis by simp
      qed
    qed
  qed auto
qed auto

lemma bdecode_no_fuel: "bdecode b \<noteq> Inl Fuel"
  using value_enough [of b 0 "2 * length b + 1" 0]
  by (cases "parse_value (2 * length b + 1) b 0 0") (auto simp: bdecode_def)

subsection \<open>What the parser accepts\<close>

lemma emplace_set: "kv \<in> set (emplace k v d) \<Longrightarrow> kv = (k, v) \<or> kv \<in> set d"
  by (induction k v d rule: emplace.induct) (auto split: if_splits)

lemma emplace_keys: "set (map fst (emplace k v d)) = insert k (set (map fst d))"
  by (induction k v d rule: emplace.induct) auto

lemma emplace_sorted: "sorted_wrt (<) (map fst d) \<Longrightarrow> sorted_wrt (<) (map fst (emplace k v d))"
proof (induction k v d rule: emplace.induct)
  case (2 k v k' v' d)
  have "\<forall>x \<in> set (map fst (emplace k v d)). k' < x" if "k' < k"
    using emplace_keys [of k v d] that "2.prems" by auto
  moreover have "k' < k" if "\<not> k < k'" "k \<noteq> k'" using that by auto
  ultimately show ?case using 2 by (auto intro: less_trans)
qed simp

lemma map_of_emplace:
  "map_of (emplace k v d) = (case map_of d k of None \<Rightarrow> (map_of d)(k \<mapsto> v) | Some _ \<Rightarrow> map_of d)"
  if "sorted_wrt (<) (map fst d)"
  using that
proof (induction k v d rule: emplace.induct)
  case (2 k v k' v' d)
  consider "k < k'" | "k = k'" | "k' < k" by fastforce
  then show ?case
  proof cases
    case 1
    then have "k \<notin> fst ` set d" "k \<noteq> k'" using "2.prems" by auto
    then have "map_of d k = None" by (simp add: map_of_eq_None_iff)
    with 1 show ?thesis by auto
  next
    case 2
    then show ?thesis by simp
  next
    case 3
    with "2.IH" "2.prems" have "map_of (emplace k v d) =
        (case map_of d k of None \<Rightarrow> (map_of d)(k \<mapsto> v) | Some _ \<Rightarrow> map_of d)"
      by auto
    with 3 show ?thesis by (auto split: option.splits)
  qed
qed simp

lemma fold_max_le: "fold max xs a \<le> (n :: nat) \<longleftrightarrow> a \<le> n \<and> (\<forall>x \<in> set xs. x \<le> n)"
  by (induction xs arbitrary: a) auto

lemma nesting_BList [simp]: "nesting (BList r l) \<le> n \<longleftrightarrow> (\<forall>v \<in> set l. Suc (nesting v) \<le> n)"
  by (simp add: fold_max_le)

lemma nesting_BDict [simp]: "nesting (BDict r d) \<le> n \<longleftrightarrow> (\<forall>kv \<in> set d. Suc (nesting (snd kv)) \<le> n)"
  by (simp add: fold_max_le)

declare nesting.simps(3,4) [simp del]

lemma within_mono: "within lo hi v \<Longrightarrow> lo' \<le> lo \<Longrightarrow> hi \<le> hi' \<Longrightarrow> within lo' hi' v"
  by (cases v) auto

text \<open>
  A value the parser returns starts where it was asked to, ends where it says, holds only
  values inside its range, is well formed and nests no deeper than the limit allows.
\<close>

definition good :: "nat \<Rightarrow> nat \<Rightarrow> nat \<Rightarrow> bvalue \<Rightarrow> bool" where
  "good lo hi k v \<longleftrightarrow> bwf v \<and> within lo hi v \<and> nesting v \<le> k"

lemma good_mono: "good lo hi k v \<Longrightarrow> lo' \<le> lo \<Longrightarrow> hi \<le> hi' \<Longrightarrow> good lo' hi' k v"
  by (auto simp: good_def intro: within_mono)

lemma parse_good:
  shows value_good: "parse_value n b p depth = Inr (v, p') \<Longrightarrow>
      depth \<le> kMaxDepth \<and> raw v = (p, p') \<and> good p p' (kMaxDepth - depth) v"
    and list_good: "parse_list n b p depth l = Inr (l', p') \<Longrightarrow> \<forall>v \<in> set l. good lo p (kMaxDepth - Suc depth) v \<and> depth < kMaxDepth \<Longrightarrow>
      lo \<le> p \<Longrightarrow> \<forall>v \<in> set l'. good lo p' (kMaxDepth - Suc depth) v \<and> depth < kMaxDepth"
    and dict_good: "parse_dict n b p depth d = Inr (d', p') \<Longrightarrow> sorted_wrt (<) (map fst d) \<Longrightarrow>
      \<forall>kv \<in> set d. length (fst kv) \<le> kMaxStringLen \<and> good lo p (kMaxDepth - Suc depth) (snd kv) \<and> depth < kMaxDepth \<Longrightarrow>
      lo \<le> p \<Longrightarrow> sorted_wrt (<) (map fst d') \<and>
      (\<forall>kv \<in> set d'. length (fst kv) \<le> kMaxStringLen \<and> good lo p' (kMaxDepth - Suc depth) (snd kv) \<and> depth < kMaxDepth)"
proof (induction n b p depth and n b p depth l and n b p depth d
    arbitrary: v p' and l' p' lo and d' p' lo rule: parse_induct)
  case (2 n b p depth)
  have depth: "\<not> kMaxDepth < depth" and p: "\<not> length b \<le> p"
    using "2.prems" by (auto split: if_splits)
  show ?case
  proof (cases "lead_of (b ! p)")
    case LInt
    with "2.prems" depth p obtain i where "parse_int b p = Inr (i, p')" "v = BInt (p, p') i"
      by (auto split: sum.splits)
    with depth show ?thesis using parse_int_ok [of b p i p'] by (auto simp: good_def)
  next
    case LList
    with "2.prems" depth p obtain l where l: "parse_list n b (p + 1) depth [] = Inr (l, p')"
      and v: "v = BList (p, p') l"
      by (auto split: sum.splits)
    from "2.IH"(1) [OF depth p LList l, of p] have "\<forall>v \<in> set l. good p p' (kMaxDepth - Suc depth) v \<and> depth < kMaxDepth"
      by simp
    with list_progress [OF l] v depth show ?thesis by (auto simp: good_def Suc_le_eq)
  next
    case LDict
    with "2.prems" depth p obtain d where d: "parse_dict n b (p + 1) depth [] = Inr (d, p')"
      and v: "v = BDict (p, p') d"
      by (auto split: sum.splits)
    from "2.IH"(2) [OF depth p LDict d, of p] have "sorted_wrt (<) (map fst d)"
      "\<forall>kv \<in> set d. length (fst kv) \<le> kMaxStringLen \<and> good p p' (kMaxDepth - Suc depth) (snd kv) \<and> depth < kMaxDepth"
      by simp_all
    with dict_progress [OF d] v depth show ?thesis by (auto simp: good_def Suc_le_eq)
  next
    case LStr
    with "2.prems" depth p obtain s where "parse_str b p = Inr (s, p')" "v = BStr (p, p') s"
      by (auto split: sum.splits)
    with depth show ?thesis using parse_str_ok [of b p s p'] by (auto simp: good_def)
  next
    case LBad
    with "2.prems" depth p show ?thesis by simp
  qed
next
  case (4 n b p depth l)
  show ?case
  proof (cases "length b \<le> p \<or> at_end b p")
    case True
    with "4.prems" show ?thesis by (auto split: if_splits intro: good_mono)
  next
    case False
    with "4.prems" obtain v q where v: "parse_value n b p (depth + 1) = Inr (v, q)"
      and l: "parse_list n b q depth (l @ [v]) = Inr (l', p')"
      by (auto split: sum.splits)
    have v': "depth + 1 \<le> kMaxDepth" "good p q (kMaxDepth - Suc depth) v"
      using "4.IH"(1) [OF _ _ v] False by auto
    have q: "p < q" using value_progress [OF v] by simp
    have acc: "\<forall>v \<in> set (l @ [v]). good lo q (kMaxDepth - Suc depth) v \<and> depth < kMaxDepth"
      using "4.prems"(2,3) v' q by (auto intro: good_mono)
    have "lo \<le> q" using q "4.prems"(3) by simp
    with "4.IH"(2) [OF _ _ v refl _ acc] l False show ?thesis by auto
  qed
next
  case (6 n b p depth d)
  show ?case
  proof (cases "length b \<le> p \<or> at_end b p \<or> \<not> is_digit (b ! p)")
    case True
    with "6.prems" show ?thesis by (auto split: if_splits intro: good_mono)
  next
    case False
    with "6.prems" obtain key q v r where s: "parse_str b p = Inr (key, q)"
      and v: "parse_value n b q (depth + 1) = Inr (v, r)"
      and d: "parse_dict n b r depth (emplace key v d) = Inr (d', p')"
      by (auto split: sum.splits)
    have q: "p < q" "q < r" "length key \<le> kMaxStringLen"
      using parse_str_ok [OF s] value_progress [OF v] by auto
    have v': "depth + 1 \<le> kMaxDepth" "good q r (kMaxDepth - Suc depth) v"
      using "6.IH"(1) [OF _ _ _ s refl v] False by auto
    have acc: "\<forall>kv \<in> set (emplace key v d). length (fst kv) \<le> kMaxStringLen \<and>
        good lo r (kMaxDepth - Suc depth) (snd kv) \<and> depth < kMaxDepth"
      using "6.prems"(3,4) v' q by (auto dest!: emplace_set intro: good_mono)
    have "lo \<le> r" using q "6.prems"(4) by simp
    with "6.IH"(2) [OF _ _ _ s refl v refl d emplace_sorted [OF "6.prems"(2)] acc] False
    show ?thesis by auto
  qed
qed auto

lemma bdecode_good: "bdecode b = Inr v \<Longrightarrow> good 0 (length b) kMaxDepth v \<and> fst (raw v) = 0"
proof -
  assume "bdecode b = Inr v"
  then obtain p' where p: "parse_value (2 * length b + 1) b 0 0 = Inr (v, p')"
    by (cases "parse_value (2 * length b + 1) b 0 0") (auto simp: bdecode_def)
  from value_good [OF p] value_progress [OF p] show ?thesis
    by (auto intro: good_mono)
qed

subsection \<open>Decoding inverts encoding\<close>

lemma nth_drop_at: "drop p b = xs \<Longrightarrow> k < length xs \<Longrightarrow> p + k < length b \<and> b ! (p + k) = xs ! k"
  by auto

lemma drop_at: "drop p b = xs @ ys \<Longrightarrow> drop (p + length xs) b = ys"
  by (metis add.commute append_eq_conv_conj drop_drop)

lemma dec_nat_hd_digit: "is_digit (dec_nat n ! 0)"
  using dec_nat_digits [of "dec_nat n ! 0" n] by simp

lemma dec_nat_leading: "dec_nat n ! 0 = 48 \<Longrightarrow> length (dec_nat n) = 1"
  using dec_nat_head [of n] by (simp add: hd_conv_nth)

lemma read_digits_dec_nat:
  "\<not> is_digit t \<Longrightarrow> n < 2 ^ 63 \<Longrightarrow> read_digits (dec_nat n @ t # rest) 0 0 = Inr (n, length (dec_nat n))"
  using read_digits_append [of "dec_nat n" "t # rest" 0 0] dec_value_dec_nat [of n]
  by (auto simp: dec_nat_digits dec_value_def)

lemma dec_nat_not_minus: "dec_nat n ! 0 \<noteq> 45"
  using dec_nat_hd_digit [of n] by (auto simp: is_digit_def)

lemma read_number_nat:
  assumes d: "drop p b = dec_nat n @ t # rest" and t: "\<not> is_digit t" and n: "n < 2 ^ 63"
  shows "read_number b p t neg = Inr (int n, p + length (dec_nat n) + 1)"
proof -
  have 0: "p < length b" "b ! p = dec_nat n ! 0"
    using nth_drop_at [OF d, of 0] by (simp_all add: nth_append)
  have 1: "p + length (dec_nat n) < length b" "b ! (p + length (dec_nat n)) = t"
    using nth_drop_at [OF d, of "length (dec_nat n)"] by simp_all
  show ?thesis
    using 0 1 dec_nat_leading [of n]
    by (simp add: read_number_def Let_def dec_nat_not_minus d read_digits_dec_nat [OF t n])
qed

lemma read_number_neg:
  assumes d: "drop p b = 45 # dec_nat n @ t # rest" and t: "\<not> is_digit t" and n: "n < 2 ^ 63" "0 < n"
  shows "read_number b p t True = Inr (- int n, p + 1 + length (dec_nat n) + 1)"
proof -
  have 0: "p < length b" "b ! p = 45" "b ! (p + 1) = dec_nat n ! 0"
    using nth_drop_at [OF d, of 0] nth_drop_at [OF d, of 1] by (simp_all add: nth_append)
  have 1: "p + 1 + length (dec_nat n) < length b" "b ! (p + 1 + length (dec_nat n)) = t"
    using nth_drop_at [OF d, of "1 + length (dec_nat n)"] by simp_all
  have 2: "drop (p + 1) b = dec_nat n @ t # rest"
    using drop_at [of p b "[45]" "dec_nat n @ t # rest"] d by simp
  show ?thesis
    using 0 1 2 n dec_nat_leading [of n]
    by (simp add: read_number_def Let_def read_digits_dec_nat [OF t n(1)])
qed

lemma parse_int_dec:
  assumes d: "drop p b = B CHR ''i'' # dec_int i @ [B CHR ''e''] @ rest" and i: "- (2 ^ 63) < i" "i < 2 ^ 63"
  shows "parse_int b p = Inr (i, p + length (bencode (BInt r i)))"
proof -
  have d1: "drop (p + 1) b = dec_int i @ B CHR ''e'' # rest"
    using drop_at [of p b "[B CHR ''i'']" "dec_int i @ B CHR ''e'' # rest"] d by simp
  show ?thesis
  proof (cases "i < 0")
    case True
    then have "nat (- i) < 2 ^ 63" "0 < nat (- i)" using i by auto
    with d1 True read_number_neg [of "p + 1" b "nat (- i)" "B CHR ''e''" rest] show ?thesis
      by (simp add: parse_int_def dec_int_def is_digit_def)
  next
    case False
    then have "nat i < 2 ^ 63" using i by auto
    with d1 False read_number_nat [of "p + 1" b "nat i" "B CHR ''e''" rest] show ?thesis
      by (simp add: parse_int_def dec_int_def is_digit_def)
  qed
qed

lemma parse_str_encode:
  assumes d: "drop p b = encode_str s @ rest" and s: "length s \<le> kMaxStringLen"
  shows "parse_str b p = Inr (s, p + length (encode_str s))"
proof -
  let ?n = "length (dec_nat (length s))"
  have d1: "drop p b = dec_nat (length s) @ B CHR '':'' # s @ rest"
    using d by (simp add: encode_str_def)
  have "length s < 2 ^ 63" using s by (simp add: kMaxStringLen_def)
  then have n: "read_number b p (B CHR '':'') False = Inr (int (length s), p + ?n + 1)"
    using read_number_nat [OF d1] by (simp add: is_digit_def)
  have d2: "drop (p + ?n + 1) b = s @ rest"
    using drop_at [of p b "dec_nat (length s) @ [B CHR '':'']" "s @ rest"] d1 by simp
  then have "length s \<le> length b - (p + ?n + 1)"
    by (metis length_append length_drop le_add1)
  with n s d2 show ?thesis by (simp add: parse_str_def encode_str_def)
qed

lemma encode_str_hd: "encode_str s \<noteq> [] \<and> is_digit (encode_str s ! 0)"
  by (simp add: encode_str_def nth_append dec_nat_hd_digit)

lemma digit_lead: "is_digit c \<Longrightarrow> lead_of c = LStr \<and> c \<noteq> B CHR ''e''"
  by (auto simp: lead_of_def is_digit_def)

lemma bencode_lead:
  "bencode v \<noteq> [] \<and> bencode v ! 0 \<noteq> B CHR ''e'' \<and>
   lead_of (bencode v ! 0) = (case v of BInt _ _ \<Rightarrow> LInt | BStr _ _ \<Rightarrow> LStr | BList _ _ \<Rightarrow> LList | BDict _ _ \<Rightarrow> LDict)"
proof (cases v)
  case (BStr r s)
  then show ?thesis using encode_str_hd [of s] digit_lead by simp
qed (auto simp: lead_of_def)

lemma emplace_last:
  "\<forall>k' \<in> set (map fst d). k' < k \<Longrightarrow> emplace k v d = d @ [(k, v)]"
  by (induction k v d rule: emplace.induct) (auto dest: less_imp_not_less)

definition decodes :: "bvalue \<Rightarrow> bool" where
  "decodes v \<longleftrightarrow> (\<forall>n b p depth rest. nesting v + depth \<le> kMaxDepth \<longrightarrow> drop p b = bencode v @ rest \<longrightarrow>
     2 * (length b - p) + 1 \<le> n \<longrightarrow>
     (\<exists>v'. parse_value n b p depth = Inr (v', p + length (bencode v)) \<and> erase v' = erase v))"

lemma list_decodes:
  assumes "\<forall>v \<in> set l. decodes v \<and> nesting v + Suc depth \<le> kMaxDepth"
    and "drop p b = concat (map bencode l) @ B CHR ''e'' # rest" and "2 * (length b - p) + 2 \<le> n"
  shows "\<exists>l'. parse_list n b p depth acc = Inr (acc @ l', p + length (concat (map bencode l)) + 1) \<and>
    map erase l' = map erase l"
  using assms
proof (induction l arbitrary: n p acc)
  case Nil
  obtain m where n: "n = Suc m" using Nil.prems(3) by (cases n) auto
  have "p < length b" "at_end b p"
    using nth_drop_at [OF Nil.prems(2), of 0] by (simp_all add: at_end_def)
  then show ?case by (simp add: n)
next
  case (Cons v l)
  obtain m where n: "n = Suc m" using Cons.prems(3) by (cases n) auto
  have d: "drop p b = bencode v @ (concat (map bencode l) @ B CHR ''e'' # rest)"
    using Cons.prems(2) by simp
  have p: "p < length b" "\<not> at_end b p"
    using nth_drop_at [OF d, of 0] bencode_lead [of v] by (auto simp: at_end_def nth_append)
  obtain v' where v': "parse_value m b p (depth + 1) = Inr (v', p + length (bencode v))" "erase v' = erase v"
    using Cons.prems(1,3) d n unfolding decodes_def by (fastforce simp: add.commute)
  have "length (bencode v) > 0" using bencode_lead [of v] by simp
  then have fuel: "2 * (length b - (p + length (bencode v))) + 2 \<le> m" using Cons.prems(3) n p by linarith
  obtain l' where "parse_list m b (p + length (bencode v)) depth (acc @ [v']) =
      Inr ((acc @ [v']) @ l', p + length (bencode v) + length (concat (map bencode l)) + 1)"
    "map erase l' = map erase l"
    using Cons.IH [OF _ drop_at [OF d] fuel] Cons.prems(1) by fastforce
  with v' p n show ?case by (intro exI [of _ "v' # l'"]) (simp add: add.assoc)
qed

lemma dict_decodes:
  assumes "\<forall>kv \<in> set d. decodes (snd kv) \<and> nesting (snd kv) + Suc depth \<le> kMaxDepth \<and> length (fst kv) \<le> kMaxStringLen"
    and "drop p b = concat (map (\<lambda>(k, v). encode_str k @ bencode v) d) @ B CHR ''e'' # rest"
    and "2 * (length b - p) + 2 \<le> n" and "sorted_wrt (<) (map fst acc @ map fst d)"
  shows "\<exists>d'. parse_dict n b p depth acc =
      Inr (acc @ d', p + length (concat (map (\<lambda>(k, v). encode_str k @ bencode v) d)) + 1) \<and>
    map (\<lambda>(k, v). (k, erase v)) d' = map (\<lambda>(k, v). (k, erase v)) d"
  using assms
proof (induction d arbitrary: n p acc)
  case Nil
  obtain m where n: "n = Suc m" using Nil.prems(3) by (cases n) auto
  have "p < length b" "at_end b p"
    using nth_drop_at [OF Nil.prems(2), of 0] by (simp_all add: at_end_def)
  then show ?case by (simp add: n)
next
  case (Cons kv d)
  obtain k v where kv: "kv = (k, v)" by force
  let ?rest = "concat (map (\<lambda>(k, v). encode_str k @ bencode v) d) @ B CHR ''e'' # rest"
  obtain m where n: "n = Suc m" using Cons.prems(3) by (cases n) auto
  have d: "drop p b = encode_str k @ (bencode v @ ?rest)"
    using Cons.prems(2) kv by simp
  have p: "p < length b" "is_digit (b ! p)" "\<not> at_end b p"
    using nth_drop_at [OF d, of 0] encode_str_hd [of k] digit_lead
    by (auto simp: at_end_def nth_append)
  have s: "parse_str b p = Inr (k, p + length (encode_str k))"
    using parse_str_encode [OF d] Cons.prems(1) kv by simp
  let ?q = "p + length (encode_str k)"
  have dq: "drop ?q b = bencode v @ ?rest" by (rule drop_at [OF d])
  have pos: "length (encode_str k) > 0" "length (bencode v) > 0"
    using bencode_lead [of v] encode_str_hd [of k] by simp_all
  then have f1: "2 * (length b - ?q) + 1 \<le> m"
    and fuel: "2 * (length b - (?q + length (bencode v))) + 2 \<le> m"
    using Cons.prems(3) n p by linarith+
  have dv: "decodes v" and nv: "nesting v + (depth + 1) \<le> kMaxDepth"
    using Cons.prems(1) kv by auto
  obtain v' where v': "parse_value m b ?q (depth + 1) = Inr (v', ?q + length (bencode v))" "erase v' = erase v"
    using dv [unfolded decodes_def, rule_format, OF nv dq f1] by blast
  have e: "emplace k v' acc = acc @ [(k, v')]"
    using Cons.prems(4) kv by (intro emplace_last) (auto simp: sorted_wrt_append)
  have srt: "sorted_wrt (<) (map fst (acc @ [(k, v')]) @ map fst d)"
    using Cons.prems(4) kv by simp
  obtain d' where "parse_dict m b (?q + length (bencode v)) depth (acc @ [(k, v')]) =
      Inr ((acc @ [(k, v')]) @ d', ?q + length (bencode v) +
        length (concat (map (\<lambda>(k, v). encode_str k @ bencode v) d)) + 1)"
    "map (\<lambda>(k, v). (k, erase v)) d' = map (\<lambda>(k, v). (k, erase v)) d"
    using Cons.IH [OF _ drop_at [OF dq] fuel srt] Cons.prems(1) by fastforce
  with v' s e p n kv show ?case
    by (intro exI [of _ "(k, v') # d'"]) (simp add: add.assoc)
qed

lemma bwf_decodes: "bwf v \<Longrightarrow> decodes v"
proof (induction v)
  case (BInt r i)
  show ?case unfolding decodes_def
  proof (intro allI impI)
    fix n b p depth rest
    assume a: "nesting (BInt r i) + depth \<le> kMaxDepth" "drop p b = bencode (BInt r i) @ rest"
      "2 * (length b - p) + 1 \<le> n"
    have "lead_of (b ! p) = LInt" "p < length b"
      using nth_drop_at [OF a(2), of 0] by (simp_all add: lead_of_def)
    moreover have "parse_int b p = Inr (i, p + length (bencode (BInt r i)))"
      using parse_int_dec [of p b i rest] a(2) BInt by simp
    moreover obtain m where "n = Suc m" using a(3) by (cases n) auto
    ultimately show "\<exists>v'. parse_value n b p depth = Inr (v', p + length (bencode (BInt r i))) \<and>
        erase v' = erase (BInt r i)"
      using a(1) by simp
  qed
next
  case (BStr r s)
  show ?case unfolding decodes_def
  proof (intro allI impI)
    fix n b p depth rest
    assume a: "nesting (BStr r s) + depth \<le> kMaxDepth" "drop p b = bencode (BStr r s) @ rest"
      "2 * (length b - p) + 1 \<le> n"
    have "lead_of (b ! p) = LStr" "p < length b"
      using nth_drop_at [OF a(2), of 0] bencode_lead [of "BStr r s"] by (simp_all add: nth_append)
    moreover have "parse_str b p = Inr (s, p + length (encode_str s))"
      using parse_str_encode [of p b s rest] a(2) BStr by simp
    moreover obtain m where "n = Suc m" using a(3) by (cases n) auto
    ultimately show "\<exists>v'. parse_value n b p depth = Inr (v', p + length (bencode (BStr r s))) \<and>
        erase v' = erase (BStr r s)"
      using a(1) by simp
  qed
next
  case (BList r l)
  show ?case unfolding decodes_def
  proof (intro allI impI)
    fix n b p depth rest
    assume a: "nesting (BList r l) + depth \<le> kMaxDepth" "drop p b = bencode (BList r l) @ rest"
      "2 * (length b - p) + 1 \<le> n"
    have lead: "lead_of (b ! p) = LList" "p < length b"
      using nth_drop_at [OF a(2), of 0] by (simp_all add: lead_of_def)
    obtain m where n: "n = Suc m" using a(3) by (cases n) auto
    have d: "drop (p + 1) b = concat (map bencode l) @ B CHR ''e'' # rest"
      using drop_at [of p b "[B CHR ''l'']" "concat (map bencode l) @ B CHR ''e'' # rest"] a(2) by simp
    have "\<forall>v \<in> set l. Suc (nesting v) \<le> nesting (BList r l)"
      using nesting_BList [of r l "nesting (BList r l)"] by blast
    then have "\<forall>v \<in> set l. decodes v \<and> nesting v + Suc depth \<le> kMaxDepth"
      using BList a(1) by fastforce
    moreover have "2 * (length b - (p + 1)) + 2 \<le> m" using a(3) lead n by linarith
    ultimately obtain l' where "parse_list m b (p + 1) depth [] =
        Inr (l', p + 1 + length (concat (map bencode l)) + 1)" "map erase l' = map erase l"
      using list_decodes [OF _ d, of depth m "[]"] by auto
    with lead n a(1) show "\<exists>v'. parse_value n b p depth = Inr (v', p + length (bencode (BList r l))) \<and>
        erase v' = erase (BList r l)"
      by simp
  qed
next
  case (BDict r d)
  show ?case unfolding decodes_def
  proof (intro allI impI)
    fix n b p depth rest
    let ?enc = "concat (map (\<lambda>(k, v). encode_str k @ bencode v) d)"
    assume a: "nesting (BDict r d) + depth \<le> kMaxDepth" "drop p b = bencode (BDict r d) @ rest"
      "2 * (length b - p) + 1 \<le> n"
    have lead: "lead_of (b ! p) = LDict" "p < length b"
      using nth_drop_at [OF a(2), of 0] by (simp_all add: lead_of_def)
    obtain m where n: "n = Suc m" using a(3) by (cases n) auto
    have dd: "drop (p + 1) b = ?enc @ B CHR ''e'' # rest"
      using drop_at [of p b "[B CHR ''d'']" "?enc @ B CHR ''e'' # rest"] a(2) by simp
    have "\<forall>kv \<in> set d. Suc (nesting (snd kv)) \<le> nesting (BDict r d)"
      using nesting_BDict [of r d "nesting (BDict r d)"] by blast
    moreover have "\<forall>kv \<in> set d. bwf (snd kv) \<and> length (fst kv) \<le> kMaxStringLen"
      using BDict.prems by auto
    moreover have "\<forall>kv \<in> set d. bwf (snd kv) \<longrightarrow> decodes (snd kv)"
      using BDict.IH by (metis prod.collapse snds.intros)
    ultimately have "\<forall>kv \<in> set d. decodes (snd kv) \<and> nesting (snd kv) + Suc depth \<le> kMaxDepth \<and>
        length (fst kv) \<le> kMaxStringLen"
      using a(1) by fastforce
    moreover have "2 * (length b - (p + 1)) + 2 \<le> m" using a(3) lead n by linarith
    moreover have "sorted_wrt (<) (map fst [] @ map fst d)" using BDict.prems by simp
    ultimately obtain d' where "parse_dict m b (p + 1) depth [] = Inr (d', p + 1 + length ?enc + 1)"
      "map (\<lambda>(k, v). (k, erase v)) d' = map (\<lambda>(k, v). (k, erase v)) d"
      using dict_decodes [OF _ dd, of depth m "[]"] by auto
    with lead n a(1) show "\<exists>v'. parse_value n b p depth = Inr (v', p + length (bencode (BDict r d))) \<and>
        erase v' = erase (BDict r d)"
      by simp
  qed
qed

lemma bdecode_bencode_append:
  assumes "bwf v" and "nesting v \<le> kMaxDepth"
  shows "\<exists>v'. bdecode (bencode v @ rest) = Inr v' \<and> erase v' = erase v \<and> raw v' = (0, length (bencode v))"
proof -
  let ?b = "bencode v @ rest"
  obtain v' where v': "parse_value (2 * length ?b + 1) ?b 0 0 = Inr (v', length (bencode v))"
    "erase v' = erase v"
    using bwf_decodes [OF assms(1), unfolded decodes_def, rule_format, of 0 0 ?b rest "2 * length ?b + 1"] assms(2)
    by auto
  with value_good [OF v'(1)] show ?thesis by (auto simp: bdecode_def)
qed

text \<open>A sample for the witnesses.\<close>

definition sample :: bvalue where
  "sample = BDict (0, 0) [(ascii ''a'', BInt (0, 0) (- 5)), (ascii ''b'', BList (0, 0) [BStr (0, 0) []])]"

lemma sample_ok: "bwf sample \<and> nesting sample \<le> kMaxDepth"
  by (simp add: sample_def kMaxStringLen_def kMaxDepth_def)

subsection \<open>Properties\<close>

text \<open>C30: decoding ends on every input, with a value or an error of the parser's own: the fuel of
  the model is never what stops it, whatever the input nests or repeats.\<close>

theorem bdecode_terminates:
  "(\<exists>v. bdecode b = Inr v) \<or> (\<exists>e. bdecode b = Inl e \<and> e \<noteq> Fuel)"
  using bdecode_no_fuel [of b] by (cases "bdecode b") auto

text \<open>What the decoder accepts is well formed: integers fit in 64 bits, strings respect the
  length limit, dictionary keys are strictly increasing, nesting stays within the depth limit, and
  the raw range of every value lies inside the input and inside the range of the value that
  contains it.\<close>

theorem bdecode_accepts_good:
  "bdecode b = Inr v \<Longrightarrow> bwf v \<and> nesting v \<le> kMaxDepth \<and> within 0 (length b) v \<and> fst (raw v) = 0"
  using bdecode_good [of b v] by (simp add: good_def)

theorem bdecode_accepts_good_witness:
  "\<exists>v. bdecode (bencode sample) = Inr v \<and> bwf v \<and> nesting v \<le> kMaxDepth \<and>
    within 0 (length (bencode sample)) v \<and> fst (raw v) = 0"
  using bdecode_bencode_append [of sample "[]"] sample_ok bdecode_accepts_good [of "bencode sample"] by auto

text \<open>C29: decoding inverts encoding: a well-formed value within the limits, encoded and followed by
  any bytes, decodes to the same value, and its raw range is exactly the bytes of the encoding.\<close>

theorem bdecode_bencode:
  assumes "bwf v" and "nesting v \<le> kMaxDepth"
  shows "\<exists>v'. bdecode (bencode v @ rest) = Inr v' \<and> erase v' = erase v \<and>
    raw v' = (0, length (bencode v))"
  using assms by (rule bdecode_bencode_append)

theorem bdecode_bencode_witness:
  "\<exists>v'. bdecode (bencode sample @ [13, 10]) = Inr v' \<and> erase v' = erase sample \<and>
    raw v' = (0, length (bencode sample))"
  using bdecode_bencode [of sample "[13, 10]"] sample_ok by blast

end
