(* ===== verification/Metainfo.thy ===== *)
theory Metainfo
  imports Sha1 Bencode
begin

text \<open>
  Torrent metadata (\<open>source/bt/metainfo.cpp\<close>, \<open>include/bt/metainfo.hpp\<close>): reading the
  \<open>info\<close> dictionary, the trackers, the size of a piece.  The output parameter \<open>out\<close> is the
  argument and the result of each reader; every caller passes a fresh object and drops it when the
  reader fails, so a failure returns only the error.  The message of an error is a constructor of
  \<open>merr\<close>.

  Results: an accepted torrent has exactly the pieces its size calls for, the sizes of its pieces
  sum to the total, its files tile the total when their lengths do not overflow, and every path is
  made of sanitised components.
\<close>

datatype merr = PieceLengthBad | PiecesBad | NameMissing | FileEntryBad | PathComponentBad
  | PathSuspect | NoLength | TotalZero | PieceCountMismatch | RootNotDict | InfoMissing
  | InfoRange | HashMismatch | InfoNotDict | Undecodable berr

record file_entry =
  fpath :: bytes
  flength :: nat
  foffset :: nat

record metainfo =
  info_hash :: bytes
  mname :: bytes
  piece_length :: nat
  piece_hashes :: "bytes list"
  files :: "file_entry list"
  total_size :: nat
  single_file :: bool
  is_private :: bool
  trackers :: "bytes list"

definition empty_meta :: metainfo where
  "empty_meta = \<lparr>info_hash = replicate 20 0, mname = [], piece_length = 0, piece_hashes = [],
     files = [], total_size = 0, single_file = False, is_private = False, trackers = []\<rparr>"

definition piece_count :: "metainfo \<Rightarrow> nat" where
  "piece_count m = u32 (length (piece_hashes m))"

definition meta_valid :: "metainfo \<Rightarrow> bool" where
  "meta_valid m \<longleftrightarrow> 0 < piece_length m \<and> piece_hashes m \<noteq> [] \<and> 0 < total_size m"

definition size_of_piece :: "metainfo \<Rightarrow> nat \<Rightarrow> nat" where
  "size_of_piece m index =
     (if u32 (index + 1) < piece_count m then piece_length m
      else u32 (sub64 (total_size m) (u64 (index * piece_length m))))"

subsection \<open>Reading the info dictionary\<close>

fun read_path :: "bvalue list \<Rightarrow> bytes \<Rightarrow> merr + bytes" where
  "read_path [] joined = Inr joined"
| "read_path (BStr _ s # parts) joined =
     (let clean = sanitize_filename s
      in if clean = ascii ''.'' \<or> clean = ascii ''..'' then Inl PathSuspect
         else read_path parts ((if joined \<noteq> [] then joined @ ascii ''/'' else joined) @ clean))"
| "read_path (_ # parts) joined = Inl PathComponentBad"

fun read_files :: "bvalue list \<Rightarrow> nat \<Rightarrow> file_entry list \<Rightarrow> merr + file_entry list \<times> nat" where
  "read_files [] off fs = Inr (fs, off)"
| "read_files (f # rest) off fs =
     (case (find_int f (ascii ''length''), find_list f (ascii ''path'')) of
        (Some len, Some parts) \<Rightarrow>
          (if len < 0 \<or> parts = [] then Inl FileEntryBad
           else case read_path parts [] of
             Inl e \<Rightarrow> Inl e
           | Inr joined \<Rightarrow>
               read_files rest (u64 (off + cast_u64 len))
                 (fs @ [\<lparr>fpath = joined, flength = cast_u64 len, foffset = off\<rparr>]))
      | _ \<Rightarrow> Inl FileEntryBad)"

definition read_content :: "bvalue \<Rightarrow> metainfo \<Rightarrow> merr + metainfo" where
  "read_content info out =
     (case find_list info (ascii ''files'') of
        Some fl \<Rightarrow>
          (case read_files fl 0 (files out) of
             Inl e \<Rightarrow> Inl e
           | Inr (fs, off) \<Rightarrow> Inr (out\<lparr>single_file := False, files := fs, total_size := off\<rparr>))
      | None \<Rightarrow>
          (case find_int info (ascii ''length'') of
             None \<Rightarrow> Inl NoLength
           | Some len \<Rightarrow>
               if len < 0 then Inl NoLength
               else Inr (out\<lparr>single_file := True,
                 files := files out @ [\<lparr>fpath = mname out, flength = cast_u64 len, foffset = 0\<rparr>],
                 total_size := cast_u64 len\<rparr>)))"

definition read_info :: "bvalue \<Rightarrow> metainfo \<Rightarrow> merr + metainfo" where
  "read_info info out =
     (case find_int info (ascii ''piece length'') of
        None \<Rightarrow> Inl PieceLengthBad
      | Some pl \<Rightarrow>
     if pl \<le> 0 \<or> 256 * 1024 * 1024 < pl then Inl PieceLengthBad
     else case find_str info (ascii ''pieces'') of
        None \<Rightarrow> Inl PiecesBad
      | Some pieces \<Rightarrow>
     if pieces = [] \<or> length pieces mod 20 \<noteq> 0 then Inl PiecesBad
     else
       let count = length pieces div 20;
           out = out\<lparr>piece_length := cast_u32 pl,
                     piece_hashes := map (\<lambda>i. take 20 (drop (i * 20) pieces)) [0..<count]\<rparr>
       in case find_str info (ascii ''name'') of
        None \<Rightarrow> Inl NameMissing
      | Some nm \<Rightarrow>
     if nm = [] then Inl NameMissing
     else case read_content info (out\<lparr>mname := sanitize_filename nm,
              is_private := (int_or info (ascii ''private'') 0 \<noteq> 0)\<rparr>) of
        Inl e \<Rightarrow> Inl e
      | Inr out \<Rightarrow>
     if total_size out = 0 then Inl TotalZero
     else if u64 (total_size out + piece_length out - 1) div piece_length out \<noteq> count
       then Inl PieceCountMismatch
     else Inr out)"

fun add_urls :: "bvalue list \<Rightarrow> bytes list \<Rightarrow> bytes list" where
  "add_urls [] known = known"
| "add_urls (BStr _ s # urls) known =
     add_urls urls (if s = [] \<or> s \<in> set known then known else known @ [s])"
| "add_urls (_ # urls) known = add_urls urls known"

fun add_tiers :: "bvalue list \<Rightarrow> bytes list \<Rightarrow> bytes list" where
  "add_tiers [] known = known"
| "add_tiers (BList _ l # tiers) known = add_tiers tiers (add_urls l known)"
| "add_tiers (_ # tiers) known = add_tiers tiers known"

definition collect_trackers :: "bvalue \<Rightarrow> metainfo \<Rightarrow> metainfo" where
  "collect_trackers root out =
     (let out = (case find_str root (ascii ''announce'') of
                   Some s \<Rightarrow> if s \<noteq> [] then out\<lparr>trackers := trackers out @ [s]\<rparr> else out
                 | None \<Rightarrow> out)
      in case find_list root (ascii ''announce-list'') of
           Some tiers \<Rightarrow> out\<lparr>trackers := add_tiers tiers (trackers out)\<rparr>
         | None \<Rightarrow> out)"

definition parse_torrent :: "bytes \<Rightarrow> metainfo \<Rightarrow> merr + metainfo" where
  "parse_torrent b out =
     (case bdecode b of
        Inl e \<Rightarrow> Inl (Undecodable e)
      | Inr root \<Rightarrow>
     if \<not> is_dict root then Inl RootNotDict
     else case find_dict root (ascii ''info'') of
        None \<Rightarrow> Inl InfoMissing
      | Some info \<Rightarrow>
          let (raw_begin, raw_end) = raw info
          in if raw_end \<le> raw_begin \<or> length b < raw_end then Inl InfoRange
             else case read_info info (out\<lparr>info_hash := sha1_of (take (raw_end - raw_begin) (drop raw_begin b))\<rparr>) of
               Inl e \<Rightarrow> Inl e
             | Inr out \<Rightarrow> Inr (collect_trackers root out))"

definition parse_info_dict :: "bytes \<Rightarrow> bytes \<Rightarrow> metainfo \<Rightarrow> merr + metainfo" where
  "parse_info_dict info_buf expected out =
     (if sha1_of info_buf \<noteq> expected then Inl HashMismatch
      else case bdecode info_buf of
        Inl e \<Rightarrow> Inl (Undecodable e)
      | Inr info \<Rightarrow>
          if \<not> is_dict info then Inl InfoNotDict
          else read_info info (out\<lparr>info_hash := expected\<rparr>))"

subsection \<open>What an accepted torrent satisfies\<close>

text \<open>The pieces are the ones the size calls for.\<close>

definition pieces_ok :: "metainfo \<Rightarrow> bool" where
  "pieces_ok m \<longleftrightarrow> 0 < piece_length m \<and> piece_length m \<le> 2 ^ 28 \<and> 0 < total_size m \<and>
     length (piece_hashes m) = (total_size m + piece_length m - 1) div piece_length m \<and>
     length (piece_hashes m) < 2 ^ 22 \<and> (\<forall>h \<in> set (piece_hashes m). length h = 20)"

text \<open>The files lie end to end, from the first offset to the last.\<close>

fun tiles :: "nat \<Rightarrow> file_entry list \<Rightarrow> nat \<Rightarrow> bool" where
  "tiles off [] e \<longleftrightarrow> off = e"
| "tiles off (f # fs) e \<longleftrightarrow> foffset f = off \<and> tiles (off + flength f) fs e"

definition component_ok :: "bytes \<Rightarrow> bool" where
  "component_ok c \<longleftrightarrow> c \<noteq> [] \<and> length c \<le> 200 \<and> filter forbidden c = [] \<and>
     c \<noteq> ascii ''.'' \<and> c \<noteq> ascii ''..''"

definition path_ok :: "bytes \<Rightarrow> bool" where
  "path_ok p \<longleftrightarrow> list_all component_ok (split_on p (B CHR ''/''))"

lemma component_ok_sanitize: "component_ok (sanitize_filename s)"
  using sanitize_length sanitize_no_dots
  by (auto simp: component_ok_def filter_empty_conv dest: sanitize_allowed)

lemma component_no_slash: "component_ok c \<Longrightarrow> 47 \<notin> set c"
  by (auto simp: component_ok_def filter_empty_conv forbidden_def)

lemma path_ok_component: "component_ok c \<Longrightarrow> path_ok c"
  by (simp add: path_ok_def split_on_single component_no_slash)

lemma split_on_extend:
  "sep \<notin> set c \<Longrightarrow> split_on (p @ sep # c) sep = split_on p sep @ [c]"
proof (induction p sep rule: split_on.induct)
  case (1 s sep)
  show ?case
  proof (cases "sep \<in> set s")
    case True
    then obtain a b where s: "s = a @ sep # b" "sep \<notin> set a" by (meson split_list_first)
    then have "find_byte sep s = Some (length a)" by (simp add: find_byte_append)
    with 1 s show ?thesis by (simp add: split_on_append)
  next
    case False
    then show ?thesis using 1 by (simp add: split_on_single split_on_append)
  qed
qed

lemma path_ok_extend: "path_ok p \<Longrightarrow> component_ok c \<Longrightarrow> path_ok (p @ B CHR ''/'' # c)"
  by (simp add: path_ok_def split_on_extend component_no_slash)

lemma path_ok_not_Nil: "path_ok p \<Longrightarrow> p \<noteq> []"
  using split_on_single [of "B CHR ''/''" "[]"] by (auto simp: path_ok_def component_ok_def)

lemma read_path_ok:
  "read_path parts joined = Inr p \<Longrightarrow> joined = [] \<or> path_ok joined \<Longrightarrow> parts \<noteq> [] \<or> path_ok joined \<Longrightarrow> path_ok p"
proof (induction parts joined rule: read_path.induct)
  case (2 r s parts joined)
  let ?j = "(if joined \<noteq> [] then joined @ ascii ''/'' else joined) @ sanitize_filename s"
  have "path_ok ?j"
    using "2.prems"(2) path_ok_component [OF component_ok_sanitize] path_ok_extend [OF _ component_ok_sanitize]
      path_ok_not_Nil by (cases "joined = []") (auto simp del: split_paired_All)
  with 2 show ?case by (auto simp: Let_def split: if_splits)
qed auto

lemma find_key_wf:
  "bwf v \<Longrightarrow> find_key v k = Some w \<Longrightarrow> bwf w"
  by (cases v) (auto simp: find_key_def dest!: map_of_SomeD)

lemma find_int_wf: "bwf v \<Longrightarrow> find_int v k = Some i \<Longrightarrow> - (2 ^ 63) < i \<and> i < 2 ^ 63"
  using find_key_wf [of v k] by (cases "find_key v k") (auto simp: find_int_def split: bvalue.splits)

lemma find_str_wf: "bwf v \<Longrightarrow> find_str v k = Some s \<Longrightarrow> length s \<le> kMaxStringLen"
  using find_key_wf [of v k] by (cases "find_key v k") (auto simp: find_str_def split: bvalue.splits)

lemma find_list_wf: "bwf v \<Longrightarrow> find_list v k = Some l \<Longrightarrow> \<forall>x \<in> set l. bwf x"
  using find_key_wf [of v k] by (cases "find_key v k") (auto simp: find_list_def split: bvalue.splits)

lemma find_dict_wf: "bwf v \<Longrightarrow> find_dict v k = Some d \<Longrightarrow> bwf d \<and> is_dict d"
  using find_key_wf [of v k] by (cases "find_key v k") (auto simp: find_dict_def split: if_splits)

lemmas find_wf = find_int_wf find_str_wf find_list_wf find_dict_wf

text \<open>The offsets as the code computes them, the running sum wrapping at 64 bits.\<close>

fun chain :: "nat \<Rightarrow> file_entry list \<Rightarrow> nat \<Rightarrow> bool" where
  "chain off [] e \<longleftrightarrow> off = e"
| "chain off (f # fs) e \<longleftrightarrow> foffset f = off \<and> chain (u64 (off + flength f)) fs e"

lemma chain_end: "chain off fs e \<Longrightarrow> off < 2 ^ 64 \<Longrightarrow> e = u64 (off + (\<Sum>f\<leftarrow>fs. flength f))"
proof (induction fs arbitrary: off)
  case (Cons f fs)
  have "u64 (u64 (off + flength f) + (\<Sum>f\<leftarrow>fs. flength f)) = u64 (off + flength f + (\<Sum>f\<leftarrow>fs. flength f))"
    by (simp add: u64_def mod_simps)
  with Cons.IH [of "u64 (off + flength f)"] Cons.prems(1) u64_less show ?case
    by (simp add: add.assoc)
qed (simp add: u64_id)

lemma chain_tiles: "chain off fs e \<Longrightarrow> off + (\<Sum>f\<leftarrow>fs. flength f) < 2 ^ 64 \<Longrightarrow> tiles off fs e"
proof (induction fs arbitrary: off)
  case (Cons f fs)
  then have "u64 (off + flength f) = off + flength f" by (intro u64_id) simp
  with Cons show ?case by (simp add: add.assoc)
qed simp

lemma tiles_append: "tiles off fs m \<Longrightarrow> tiles m gs e \<Longrightarrow> tiles off (fs @ gs) e"
  by (induction fs arbitrary: off) auto

lemma tiles_end: "tiles off fs e \<Longrightarrow> e = off + (\<Sum>f\<leftarrow>fs. flength f)"
  by (induction fs arbitrary: off) force+

lemma read_files_ok:
  "read_files fl off fs = Inr (fs', off') \<Longrightarrow> \<forall>f \<in> set fl. bwf f \<Longrightarrow>
   \<exists>gs. fs' = fs @ gs \<and> chain off gs off' \<and> length gs = length fl \<and>
     (\<forall>f \<in> set gs. path_ok (fpath f) \<and> flength f < 2 ^ 63)"
proof (induction fl arbitrary: off fs)
  case Nil
  then show ?case by (intro exI [of _ "[]"]) simp
next
  case (Cons f rest)
  from Cons.prems(1) obtain len parts joined where l: "find_int f (ascii ''length'') = Some len"
      "find_list f (ascii ''path'') = Some parts" "0 \<le> len" "parts \<noteq> []" "read_path parts [] = Inr joined"
    and rec: "read_files rest (u64 (off + cast_u64 len))
        (fs @ [\<lparr>fpath = joined, flength = cast_u64 len, foffset = off\<rparr>]) = Inr (fs', off')"
    by (auto split: option.splits sum.splits if_splits)
  let ?f = "\<lparr>fpath = joined, flength = cast_u64 len, foffset = off\<rparr>"
  from Cons.IH [OF rec] Cons.prems(2) obtain gs where gs: "fs' = (fs @ [?f]) @ gs"
    "chain (u64 (off + cast_u64 len)) gs off'" "length gs = length rest"
    "\<forall>f \<in> set gs. path_ok (fpath f) \<and> flength f < 2 ^ 63" by auto
  have "len < 2 ^ 63" using find_int_wf [OF _ l(1)] Cons.prems(2) by simp
  then have "cast_u64 len < 2 ^ 63" using l(3) by (simp add: cast_u64_id)
  moreover have "path_ok joined" using read_path_ok [OF l(5)] l(4) by simp
  ultimately show ?case using gs by (intro exI [of _ "?f # gs"]) simp
qed


lemma read_content_ok:
  assumes "read_content info out = Inr m" and "bwf info" and "files out = []" and "component_ok (mname out)"
  shows "(\<forall>f \<in> set (files m). path_ok (fpath f) \<and> flength f < 2 ^ 63) \<and> total_size m < 2 ^ 64 \<and>
    ((\<Sum>f\<leftarrow>files m. flength f) < 2 ^ 64 \<longrightarrow> tiles 0 (files m) (total_size m)) \<and>
    m = out\<lparr>files := files m, total_size := total_size m, single_file := single_file m\<rparr>"
proof (cases "find_list info (ascii ''files'')")
  case (Some fl)
  with assms(1,3) obtain fs off where r: "read_files fl 0 [] = Inr (fs, off)"
    and m: "m = out\<lparr>single_file := False, files := fs, total_size := off\<rparr>"
    by (auto simp: read_content_def split: sum.splits)
  from read_files_ok [OF r] find_list_wf [OF assms(2) Some] have c: "chain 0 fs off"
    "\<forall>f \<in> set fs. path_ok (fpath f) \<and> flength f < 2 ^ 63" by auto
  have "off < 2 ^ 64" using chain_end [OF c(1)] u64_less by simp
  with c m chain_tiles [OF c(1)] show ?thesis by simp
next
  case None
  with assms(1,3) obtain len where l: "find_int info (ascii ''length'') = Some len" "0 \<le> len"
    and m: "m = out\<lparr>single_file := True,
      files := [\<lparr>fpath = mname out, flength = cast_u64 len, foffset = 0\<rparr>], total_size := cast_u64 len\<rparr>"
    by (auto simp: read_content_def split: option.splits if_splits)
  have "len < 2 ^ 63" using find_int_wf [OF assms(2) l(1)] by simp
  then have "cast_u64 len < 2 ^ 63" using l(2) by (simp add: cast_u64_id)
  with m path_ok_component [OF assms(4)] show ?thesis by simp
qed

lemma expected_pieces:
  assumes "0 < pl" and "pl \<le> 2 ^ 28" and "0 < t" and "t < 2 ^ 64" and "u64 (t + pl - 1) div pl = count" and "0 < count"
  shows "count = (t + pl - 1) div pl"
proof (cases "t + pl - 1 < 2 ^ 64")
  case True
  with assms(5) show ?thesis by (simp add: u64_id)
next
  case False
  then have "u64 (t + pl - 1) = t + pl - 1 - 2 ^ 64"
    using assms(2,4) by (simp add: u64_def le_mod_geq)
  then have "u64 (t + pl - 1) < pl" using assms(1,4) by linarith
  then have "count = 0" using assms(5) by simp
  with assms(6) show ?thesis by simp
qed

lemma read_info_ok:
  assumes "read_info info out = Inr m" and "bwf info" and "files out = []"
  shows "pieces_ok m \<and> component_ok (mname m) \<and>
    (\<forall>f \<in> set (files m). path_ok (fpath f) \<and> flength f < 2 ^ 63) \<and>
    ((\<Sum>f\<leftarrow>files m. flength f) < 2 ^ 64 \<longrightarrow> tiles 0 (files m) (total_size m)) \<and>
    info_hash m = info_hash out \<and> trackers m = trackers out"
proof -
  from assms(1) obtain pl pieces nm where
    pl: "find_int info (ascii ''piece length'') = Some pl" "0 < pl" "pl \<le> 256 * 1024 * 1024"
    and ps: "find_str info (ascii ''pieces'') = Some pieces" "pieces \<noteq> []" "length pieces mod 20 = 0"
    and c: "read_content info (out\<lparr>piece_length := cast_u32 pl,
        piece_hashes := map (\<lambda>i. take 20 (drop (i * 20) pieces)) [0..<length pieces div 20],
        mname := sanitize_filename nm, is_private := (int_or info (ascii ''private'') 0 \<noteq> 0)\<rparr>) = Inr m"
    and t: "0 < total_size m"
    and n: "u64 (total_size m + piece_length m - 1) div piece_length m = length pieces div 20"
    by (auto simp: read_info_def Let_def split: option.splits sum.splits if_splits)
  let ?hs = "map (\<lambda>i. take 20 (drop (i * 20) pieces)) [0..<length pieces div 20]"
  note ok = read_content_ok [OF c assms(2), simplified, OF assms(3) component_ok_sanitize]
  have ok': "(\<forall>f \<in> set (files m). path_ok (fpath f) \<and> flength f < 2 ^ 63)" "total_size m < 2 ^ 64"
    "((\<Sum>f\<leftarrow>files m. flength f) < 2 ^ 64 \<longrightarrow> tiles 0 (files m) (total_size m))"
    using ok by simp_all
  note eq = ok [THEN conjunct2, THEN conjunct2, THEN conjunct2]
  have m: "piece_length m = cast_u32 pl" "piece_hashes m = ?hs" "mname m = sanitize_filename nm"
      "info_hash m = info_hash out" "trackers m = trackers out"
    using arg_cong [OF eq, of piece_length] arg_cong [OF eq, of piece_hashes] arg_cong [OF eq, of mname]
      arg_cong [OF eq, of info_hash] arg_cong [OF eq, of trackers] by simp_all
  have p: "piece_length m = nat pl" "0 < piece_length m" "piece_length m \<le> 2 ^ 28"
    using pl m(1) by (simp_all add: cast_u32_id)
  have len: "length pieces \<le> 2 ^ 26" using find_str_wf [OF assms(2) ps(1)] by (simp add: kMaxStringLen_def)
  then have small: "length pieces div 20 < 2 ^ 22" by simp
  have pos: "0 < length pieces div 20" using ps(2,3) dvd_imp_le [of 20 "length pieces"]
    by (simp add: div_greater_zero_iff mod_eq_0_iff_dvd)
  have "length pieces div 20 = (total_size m + piece_length m - 1) div piece_length m"
    by (rule expected_pieces [OF p(2,3) _ ok'(2) n pos]) (rule t)
  moreover have "\<forall>h \<in> set ?hs. length h = 20"
  proof
    fix h assume "h \<in> set ?hs"
    then obtain i where i: "i < length pieces div 20" "h = take 20 (drop (i * 20) pieces)" by auto
    then have "Suc i * 20 \<le> length pieces"
      by (metis Suc_leI div_times_less_eq_dividend le_trans mult_le_mono1)
    with i(2) show "length h = 20" by simp
  qed
  moreover have "length (piece_hashes m) = length pieces div 20" "set (piece_hashes m) = set ?hs"
    using m(2) by simp_all
  ultimately have "pieces_ok m" using p(2,3) t small unfolding pieces_ok_def by metis
  moreover have "component_ok (mname m)" unfolding m(3) by (rule component_ok_sanitize)
  ultimately show ?thesis using ok'(1,3) m(4,5) by blast
qed

subsection \<open>Sizes of pieces\<close>

lemma pieces_ok_count: "pieces_ok m \<Longrightarrow> piece_count m = length (piece_hashes m)"
  by (simp add: pieces_ok_def piece_count_def u32_id)

lemma pieces_ok_range:
  assumes "pieces_ok m" and "i < piece_count m"
  shows "i * piece_length m < total_size m" and "i + 1 < piece_count m \<longleftrightarrow> (i + 1) * piece_length m < total_size m"
proof -
  let ?pl = "piece_length m" and ?t = "total_size m"
  have c: "piece_count m = (?t + ?pl - 1) div ?pl" and pl: "0 < ?pl" and t: "0 < ?t"
    using assms(1) by (simp_all add: pieces_ok_count pieces_ok_def)
  have k: "k < piece_count m \<longleftrightarrow> k * ?pl < ?t" for k
  proof -
    have "k < piece_count m \<longleftrightarrow> Suc k * ?pl \<le> ?t + ?pl - 1"
      using pl c less_eq_div_iff_mult_less_eq [of ?pl "Suc k" "?t + ?pl - 1"] by (simp add: Suc_le_eq)
    also have "\<dots> \<longleftrightarrow> k * ?pl < ?t" using pl t by auto
    finally show ?thesis .
  qed
  show "i * ?pl < ?t" using assms(2) k by simp
  show "i + 1 < piece_count m \<longleftrightarrow> (i + 1) * ?pl < ?t" by (rule k)
qed

lemma pieces_ok_total: "pieces_ok m \<Longrightarrow> total_size m < 2 ^ 50"
proof -
  assume ok: "pieces_ok m"
  have "total_size m \<le> length (piece_hashes m) * piece_length m"
    using ok div_ceil_bound [of "piece_length m" "total_size m"] by (simp add: pieces_ok_def)
  also have "\<dots> \<le> (2 ^ 22 - 1) * 2 ^ 28"
    using ok by (intro mult_le_mono) (simp_all add: pieces_ok_def)
  finally show ?thesis by simp
qed

lemma size_of_piece_min:
  assumes "pieces_ok m" and "i < piece_count m"
  shows "size_of_piece m i = min (piece_length m) (total_size m - i * piece_length m)"
proof -
  let ?pl = "piece_length m" and ?t = "total_size m"
  note r = pieces_ok_range [OF assms]
  have i: "i + 1 < 2 ^ 32" using assms by (simp add: pieces_ok_count pieces_ok_def)
  have t: "?t < 2 ^ 50" using pieces_ok_total [OF assms(1)] .
  have pl: "?pl \<le> 2 ^ 28" using assms(1) by (simp add: pieces_ok_def)
  show ?thesis
  proof (cases "i + 1 < piece_count m")
    case True
    with r(2) have "(i + 1) * ?pl < ?t" by simp
    with True i show ?thesis by (simp add: size_of_piece_def u32_id)
  next
    case False
    with r have b: "?t \<le> i * ?pl + ?pl" by simp
    have "u64 (i * ?pl) = i * ?pl" using r(1) t by (intro u64_id) simp
    moreover have "sub64 ?t (i * ?pl) = ?t - i * ?pl" using r(1) t by (intro sub64_id) simp_all
    moreover have "u32 (?t - i * ?pl) = ?t - i * ?pl" using b pl by (intro u32_id) simp
    ultimately show ?thesis using False i b by (simp add: size_of_piece_def u32_id)
  qed
qed

lemma size_of_piece_bounds:
  "pieces_ok m \<Longrightarrow> i < piece_count m \<Longrightarrow> 0 < size_of_piece m i \<and> size_of_piece m i \<le> piece_length m"
  using pieces_ok_range(1) [of m i] by (simp add: size_of_piece_min pieces_ok_def)

lemma size_of_piece_end:
  "pieces_ok m \<Longrightarrow> i < piece_count m \<Longrightarrow> i * piece_length m + size_of_piece m i \<le> total_size m"
  using pieces_ok_range(1) [of m i] by (simp add: size_of_piece_min)

lemma sum_pieces_prefix:
  "pieces_ok m \<Longrightarrow> k \<le> piece_count m \<Longrightarrow>
   (\<Sum>i\<leftarrow>[0..<k]. size_of_piece m i) = min (k * piece_length m) (total_size m)"
proof (induction k)
  case (Suc k)
  then show ?case using pieces_ok_range(1) [of m k] by (simp add: size_of_piece_min)
qed simp

lemma sum_size_of_piece:
  assumes "pieces_ok m"
  shows "(\<Sum>i\<leftarrow>[0..<piece_count m]. size_of_piece m i) = total_size m"
  using assms div_ceil_bound [of "piece_length m" "total_size m"]
  by (simp add: sum_pieces_prefix pieces_ok_count) (simp add: pieces_ok_def)


subsection \<open>A whole torrent file\<close>

lemma collect_trackers_more:
  "\<exists>ts. collect_trackers root m = m\<lparr>trackers := ts\<rparr>"
  by (auto simp: collect_trackers_def Let_def split: option.splits intro: exI [of _ "trackers m"])

lemma parse_torrent_ok:
  assumes "parse_torrent b out = Inr m" and "files out = []"
  shows "\<exists>root info lo hi m' ts. bdecode b = Inr root \<and> find_dict root (ascii ''info'') = Some info \<and>
    raw info = (lo, hi) \<and> lo < hi \<and> hi \<le> length b \<and> bwf info \<and>
    read_info info (out\<lparr>info_hash := sha1_of (take (hi - lo) (drop lo b))\<rparr>) = Inr m' \<and>
    m = m'\<lparr>trackers := ts\<rparr>"
proof -
  from assms(1) obtain root info m' where r: "bdecode b = Inr root"
    "find_dict root (ascii ''info'') = Some info" "fst (raw info) < snd (raw info)" "snd (raw info) \<le> length b"
    "read_info info (out\<lparr>info_hash := sha1_of (take (snd (raw info) - fst (raw info)) (drop (fst (raw info)) b))\<rparr>) = Inr m'"
    "m = collect_trackers root m'"
    by (auto simp: parse_torrent_def split: sum.splits option.splits if_splits prod.splits)
  have "bwf info" using bdecode_good [OF r(1)] find_dict_wf [OF _ r(2)] by (simp add: good_def)
  with r collect_trackers_more [of root m'] show ?thesis
    by (cases "raw info") auto
qed

lemma pieces_ok_trackers [simp]: "pieces_ok (m\<lparr>trackers := ts\<rparr>) = pieces_ok m"
  by (simp add: pieces_ok_def)

text \<open>Samples for the witnesses: five bytes in pieces of four.\<close>

definition sample_info :: bvalue where
  "sample_info = BDict (0, 0) [(ascii ''length'', BInt (0, 0) 5), (ascii ''name'', BStr (0, 0) (ascii ''a'')),
     (ascii ''piece length'', BInt (0, 0) 4), (ascii ''pieces'', BStr (0, 0) (replicate 40 0))]"

definition sample_torrent :: bytes where
  "sample_torrent = bencode (BDict (0, 0) [(ascii ''info'', sample_info)])"

lemma erase_BDict:
  "erase v = BDict (0, 0) d \<longleftrightarrow> (\<exists>r d'. v = BDict r d' \<and> d = map (\<lambda>(k, v). (k, erase v)) d')"
  "BDict (0, 0) d = erase v \<longleftrightarrow> (\<exists>r d'. v = BDict r d' \<and> d = map (\<lambda>(k, v). (k, erase v)) d')"
  by (cases v; auto)+

lemma erase_BInt:
  "erase v = BInt (0, 0) i \<longleftrightarrow> (\<exists>r. v = BInt r i)"
  "BInt (0, 0) i = erase v \<longleftrightarrow> (\<exists>r. v = BInt r i)"
  by (cases v; auto)+

lemma erase_BStr:
  "erase v = BStr (0, 0) s \<longleftrightarrow> (\<exists>r. v = BStr r s)"
  "BStr (0, 0) s = erase v \<longleftrightarrow> (\<exists>r. v = BStr r s)"
  by (cases v; auto)+

lemma sample_parses: "\<exists>m. parse_torrent sample_torrent empty_meta = Inr m \<and> (\<Sum>f\<leftarrow>files m. flength f) = 5"
proof -
  let ?v = "BDict (0, 0) [(ascii ''info'', sample_info)]"
  have "bwf ?v" "nesting ?v \<le> kMaxDepth"
    by (simp_all add: sample_info_def kMaxStringLen_def kMaxDepth_def)
  then obtain v where v: "bdecode sample_torrent = Inr v" "erase v = erase ?v"
    using bdecode_bencode_append [of ?v "[]"] by (auto simp: sample_torrent_def)
  then obtain r r1 r2 r3 r4 r5 where v': "v = BDict r [(ascii ''info'', BDict r1 [(ascii ''length'', BInt r2 5),
      (ascii ''name'', BStr r3 (ascii ''a'')), (ascii ''piece length'', BInt r4 4),
      (ascii ''pieces'', BStr r5 (replicate 40 0))])]"
    by (auto simp: sample_info_def erase_BDict erase_BInt erase_BStr Cons_eq_map_conv)
  with bdecode_good [OF v(1)] have "fst r1 < snd r1" "snd r1 \<le> length sample_torrent"
    by (auto simp: good_def)
  with v(1) v' show ?thesis
    by (cases r1) (simp add: parse_torrent_def is_dict_def find_dict_def find_key_def read_info_def find_int_def
        find_str_def find_list_def int_or_def read_content_def empty_meta_def cast_u32_def cast_u64_def
        u64_def Let_def collect_trackers_def split: prod.splits)
qed

subsection \<open>Properties\<close>

text \<open>C27: an accepted torrent file describes a consistent download: its piece length is within
  bounds, the number of hashes is exactly the number of pieces its size calls for, each hash has 20
  bytes, the pieces have positive sizes that sum to the total, and the name and every path consist
  of sanitised components, so no file can land outside the download directory.\<close>

theorem parse_torrent_sound:
  assumes "parse_torrent b empty_meta = Inr m"
  shows "pieces_ok m \<and> (\<Sum>i\<leftarrow>[0..<piece_count m]. size_of_piece m i) = total_size m \<and>
    list_all (\<lambda>i. 0 < size_of_piece m i \<and> size_of_piece m i \<le> piece_length m) [0..<piece_count m] \<and>
    component_ok (mname m) \<and> list_all (\<lambda>f. path_ok (fpath f)) (files m)"
proof -
  have e: "files empty_meta = []" by (simp add: empty_meta_def)
  from parse_torrent_ok [OF assms e] obtain info out m' ts where m: "bwf info" "read_info info out = Inr m'"
    "files out = []" "m = m'\<lparr>trackers := ts\<rparr>"
    by (auto simp: e)
  from read_info_ok [OF m(2,1,3)] m(4) have "pieces_ok m" "component_ok (mname m)"
    "list_all (\<lambda>f. path_ok (fpath f)) (files m)" by (auto simp: list_all_iff)
  then show ?thesis using sum_size_of_piece size_of_piece_bounds by (auto simp: list_all_iff)
qed

theorem parse_torrent_sound_witness:
  "\<exists>m. parse_torrent sample_torrent empty_meta = Inr m \<and>
    (\<Sum>i\<leftarrow>[0..<piece_count m]. size_of_piece m i) = total_size m"
  using sample_parses parse_torrent_sound [of sample_torrent] by blast

text \<open>The files of an accepted torrent lie end to end: the first starts at 0, each starts where
  the previous ends and the last ends at the total size, as long as the declared lengths do not sum
  past 64 bits.\<close>

theorem parse_torrent_files_tile:
  assumes "parse_torrent b empty_meta = Inr m" and "(\<Sum>f\<leftarrow>files m. flength f) < 2 ^ 64"
  shows "tiles 0 (files m) (total_size m)"
proof -
  have e: "files empty_meta = []" by (simp add: empty_meta_def)
  from parse_torrent_ok [OF assms(1) e] obtain info out m' ts where m: "bwf info" "read_info info out = Inr m'"
    "files out = []" "m = m'\<lparr>trackers := ts\<rparr>"
    by (auto simp: e)
  from read_info_ok [OF m(2,1,3)] m(4) assms(2) show ?thesis by simp
qed

theorem parse_torrent_files_tile_witness:
  "\<exists>m. parse_torrent sample_torrent empty_meta = Inr m \<and> tiles 0 (files m) (total_size m)"
  using sample_parses parse_torrent_files_tile [of sample_torrent] by force

text \<open>The info hash of an accepted torrent is the SHA-1 of the original bytes of its info
  dictionary, the range of the input the decoder recorded for it, not of a re-encoding.\<close>

theorem parse_torrent_info_hash:
  assumes "parse_torrent b empty_meta = Inr m"
  shows "\<exists>root info lo hi. bdecode b = Inr root \<and> find_dict root (ascii ''info'') = Some info \<and>
    raw info = (lo, hi) \<and> lo < hi \<and> hi \<le> length b \<and>
    info_hash m = sha1_spec (take (hi - lo) (drop lo b))"
proof -
  have e: "files empty_meta = []" by (simp add: empty_meta_def)
  from parse_torrent_ok [OF assms e] obtain root info lo hi m' ts where m: "bdecode b = Inr root"
    "find_dict root (ascii ''info'') = Some info" "raw info = (lo, hi)" "lo < hi" "hi \<le> length b" "bwf info"
    "read_info info (empty_meta\<lparr>info_hash := sha1_of (take (hi - lo) (drop lo b))\<rparr>) = Inr m'"
    "m = m'\<lparr>trackers := ts\<rparr>"
    by blast
  from read_info_ok [OF m(7,6)] m(8) have "info_hash m = sha1_spec (take (hi - lo) (drop lo b))"
    by (simp add: e sha1_of_spec)
  with m show ?thesis by blast
qed

theorem parse_torrent_info_hash_witness:
  "\<exists>m lo hi. parse_torrent sample_torrent empty_meta = Inr m \<and>
    info_hash m = sha1_spec (take (hi - lo) (drop lo sample_torrent))"
  using sample_parses parse_torrent_info_hash [of sample_torrent] by blast

text \<open>C28: metadata assembled from peers is accepted only when its SHA-1 is the info hash of the
  magnet link, and then describes a consistent download under that hash.\<close>

theorem parse_info_dict_authentic:
  assumes "parse_info_dict info_buf expected empty_meta = Inr m"
  shows "sha1_spec info_buf = expected \<and> info_hash m = expected \<and> pieces_ok m \<and>
    list_all (\<lambda>f. path_ok (fpath f)) (files m)"
proof -
  from assms obtain info where i: "sha1_of info_buf = expected" "bdecode info_buf = Inr info"
    "read_info info (empty_meta\<lparr>info_hash := expected\<rparr>) = Inr m"
    by (auto simp: parse_info_dict_def split: if_splits sum.splits)
  have "bwf info" using bdecode_good [OF i(2)] by (simp add: good_def)
  from read_info_ok [OF i(3) this] i(1) show ?thesis
    by (auto simp: empty_meta_def sha1_of_spec list_all_iff)
qed

lemma sample_info_parses:
  "\<exists>m. parse_info_dict (bencode sample_info) (sha1_of (bencode sample_info)) empty_meta = Inr m"
proof -
  have "bwf sample_info" "nesting sample_info \<le> kMaxDepth"
    by (simp_all add: sample_info_def kMaxStringLen_def kMaxDepth_def)
  then obtain v where v: "bdecode (bencode sample_info) = Inr v" "erase v = erase sample_info"
    using bdecode_bencode_append [of sample_info "[]"] by auto
  then obtain r1 r2 r3 r4 r5 where v': "v = BDict r1 [(ascii ''length'', BInt r2 5),
      (ascii ''name'', BStr r3 (ascii ''a'')), (ascii ''piece length'', BInt r4 4),
      (ascii ''pieces'', BStr r5 (replicate 40 0))]"
    by (auto simp: sample_info_def erase_BDict erase_BInt erase_BStr Cons_eq_map_conv)
  with v(1) show ?thesis
    by (simp add: parse_info_dict_def is_dict_def find_key_def read_info_def find_int_def
        find_str_def find_list_def int_or_def read_content_def empty_meta_def cast_u32_def cast_u64_def
        u64_def Let_def)
qed

theorem parse_info_dict_authentic_witness:
  "\<exists>m. parse_info_dict (bencode sample_info) (sha1_of (bencode sample_info)) empty_meta = Inr m \<and>
    sha1_spec (bencode sample_info) = sha1_of (bencode sample_info) \<and> pieces_ok m"
  using sample_info_parses parse_info_dict_authentic [of "bencode sample_info"] by blast

text \<open>The total size is not protected against overflow: three files whose lengths sum to
  2\^64 + 4 are accepted as a torrent of one four-byte piece, and the first two files reach far past
  its end.\<close>

theorem read_info_size_overflow:
  "\<exists>m. read_info (BDict (0, 0)
      [(ascii ''files'', BList (0, 0) (map (\<lambda>n. BDict (0, 0) [(ascii ''length'', BInt (0, 0) n),
          (ascii ''path'', BList (0, 0) [BStr (0, 0) (ascii ''a'')])]) [2 ^ 63 - 1, 2 ^ 63 - 1, 6])),
       (ascii ''name'', BStr (0, 0) (ascii ''n'')), (ascii ''piece length'', BInt (0, 0) 4),
       (ascii ''pieces'', BStr (0, 0) (replicate 20 0))]) empty_meta = Inr m \<and>
    total_size m = 4 \<and> map flength (files m) = [2 ^ 63 - 1, 2 ^ 63 - 1, 6]"
  using sanitize_no_dots [of "[97]"]
  by (simp add: read_info_def find_int_def find_str_def find_list_def find_key_def int_or_def read_content_def
      empty_meta_def cast_u32_def cast_u64_def u64_def Let_def)

end
