(* ===== verification/Magnet.thy ===== *)
theory Magnet
  imports Metainfo
begin

text \<open>
  Magnet links: the parser of \<open>source/bt/magnet.cpp\<close> and the link the session writes to find a
  torrent again (\<open>Session::magnet_for\<close>, \<open>Session::magnet_path\<close>).  The link read back from the
  one written has the same hash, name and trackers.
\<close>

datatype magnet_err = NotMagnet | BadHexHash | BadBase32Hash | BadHashLength | VersionTwo | NoHash

record magnet_link =
  link_hash :: bytes
  display_name :: bytes
  link_trackers :: "bytes list"
  web_seeds :: "bytes list"
  exact_length :: nat

definition empty_link :: magnet_link where
  "empty_link = \<lparr>link_hash = replicate 20 0, display_name = [], link_trackers = [], web_seeds = [],
     exact_length = 0\<rparr>"

text \<open>\<open>std::strtoll\<close> in base 10: leading spaces, a sign, digits; saturating.\<close>

definition strtoll :: "bytes \<Rightarrow> int" where
  "strtoll s =
     (let s = dropWhile is_space s;
          neg = (s \<noteq> [] \<and> hd s = B CHR ''-'');
          s = (if s \<noteq> [] \<and> (hd s = B CHR ''-'' \<or> hd s = B CHR ''+'') then tl s else s);
          v = int (dec_value (takeWhile is_digit s))
      in if neg then max (- (2 ^ 63)) (- v) else min (2 ^ 63 - 1) v)"

definition magnet_topic :: "bytes \<Rightarrow> magnet_link \<times> bool \<Rightarrow> magnet_err + magnet_link \<times> bool" where
  "magnet_topic value st =
     (if starts_with value (ascii ''urn:btih:'') then
        (let hid = drop 9 value
         in if length hid = 40 then
              (case from_hex hid 20 of
                 None \<Rightarrow> Inl BadHexHash
               | Some h \<Rightarrow> Inr ((fst st)\<lparr>link_hash := h\<rparr>, True))
            else if length hid = 32 then
              (case from_base32 hid 20 of
                 None \<Rightarrow> Inl BadBase32Hash
               | Some h \<Rightarrow> Inr ((fst st)\<lparr>link_hash := h\<rparr>, True))
            else Inl BadHashLength)
      else if starts_with value (ascii ''urn:btmh:'') then Inl VersionTwo
      else Inr st)"

definition magnet_param :: "bytes \<Rightarrow> magnet_link \<times> bool \<Rightarrow> magnet_err + magnet_link \<times> bool" where
  "magnet_param raw_param st =
     (case find_byte (B CHR ''='') raw_param of
        None \<Rightarrow> Inr st
      | Some eq \<Rightarrow>
          let key = take eq raw_param;
              value = url_decode (drop (eq + 1) raw_param);
              (out, has_hash) = st
          in if value = [] then Inr st
             else if key = ascii ''xt'' \<or> starts_with key (ascii ''xt.'') then magnet_topic value st
             else if key = ascii ''dn'' then Inr (out\<lparr>display_name := value\<rparr>, has_hash)
             else if key = ascii ''tr'' then Inr (out\<lparr>link_trackers := link_trackers out @ [value]\<rparr>, has_hash)
             else if key = ascii ''ws'' then Inr (out\<lparr>web_seeds := web_seeds out @ [value]\<rparr>, has_hash)
             else if key = ascii ''xl'' then
               Inr (if 0 < strtoll value then out\<lparr>exact_length := cast_u64 (strtoll value)\<rparr> else out, has_hash)
             else Inr st)"

fun magnet_params :: "bytes list \<Rightarrow> magnet_link \<times> bool \<Rightarrow> magnet_err + magnet_link \<times> bool" where
  "magnet_params [] st = Inr st"
| "magnet_params (p # ps) st =
     (case magnet_param p st of Inl e \<Rightarrow> Inl e | Inr st' \<Rightarrow> magnet_params ps st')"

definition parse_magnet :: "bytes \<Rightarrow> magnet_link \<Rightarrow> magnet_err + magnet_link" where
  "parse_magnet uri out =
     (let trimmed = trim uri
      in if \<not> starts_with trimmed (ascii ''magnet:?'') then Inl NotMagnet
         else case magnet_params (split_on (drop 8 trimmed) (B CHR ''&'')) (out, False) of
           Inl e \<Rightarrow> Inl e
         | Inr (out, has_hash) \<Rightarrow> if has_hash then Inr out else Inl NoHash)"

subsection \<open>The link written by the session\<close>

definition magnet_for :: "metainfo \<Rightarrow> bytes" where
  "magnet_for meta =
     (let uri = ascii ''magnet:?xt=urn:btih:'' @ to_hex (info_hash meta);
          uri = (if mname meta \<noteq> [] then uri @ ascii ''&dn='' @ url_encode (mname meta) else uri)
      in fold (\<lambda>tracker uri. uri @ ascii ''&tr='' @ url_encode tracker) (trackers meta) uri)"

definition magnet_path :: "bytes \<Rightarrow> bytes \<Rightarrow> bytes" where
  "magnet_path download_dir hash_hex = download_dir @ ascii ''/.'' @ take 16 hash_hex @ ascii ''.magnet''"

subsection \<open>Reading it back\<close>

declare url_decode.simps(1) [simp del]

definition clean :: "bytes \<Rightarrow> bool" where
  "clean s \<longleftrightarrow> list_all (\<lambda>c. unreserved c \<or> c = 37) s"

lemma clean_hex_of: "clean (hex_of b)"
proof -
  have "list_all (\<lambda>d. unreserved (hex_digits ! d)) [0..<16]" by code_simp
  then show ?thesis using nibble_bounds [of b] by (simp add: clean_def hex_of_def list_all_iff)
qed

lemma clean_append [simp]: "clean (a @ b) \<longleftrightarrow> clean a \<and> clean b"
  by (simp add: clean_def)

lemma clean_to_hex: "clean (to_hex bs)"
  by (induction bs) (simp_all add: to_hex_def clean_hex_of, simp add: clean_def)

lemma clean_url_encode: "clean (url_encode s)"
proof (induction s)
  case (Cons c s)
  have "clean (url_encode_byte c)"
    using clean_hex_of [of c] by (auto simp: url_encode_byte_def clean_def)
  with Cons show ?case by (simp add: url_encode_def)
qed (simp add: url_encode_def clean_def)

lemma clean_no_amp: "clean s \<Longrightarrow> 38 \<notin> set s"
  by (auto simp: clean_def list_all_iff unreserved_def is_upper_def is_lower_def is_digit_def)

lemma clean_no_space: "clean s \<Longrightarrow> c \<in> set s \<Longrightarrow> \<not> is_space c"
  by (auto simp: clean_def list_all_iff unreserved_def is_upper_def is_lower_def is_digit_def is_space_def
      word_le_nat_alt)

lemma clean_plain: "clean s \<Longrightarrow> 37 \<notin> set s \<Longrightarrow> url_decode s = s"
proof (induction s)
  case (Cons c s)
  then have "unreserved c" "url_decode s = s" by (auto simp: clean_def)
  then show ?case using unreserved_plain [of c] by (simp add: url_decode_plain)
qed simp

lemma to_hex_no_percent: "37 \<notin> set (to_hex bs)"
proof (induction bs)
  case (Cons b bs)
  have "list_all (\<lambda>d. hex_digits ! d \<noteq> 37) [0..<16]" by code_simp
  then have "37 \<notin> set (hex_of b)" using nibble_bounds [of b] by (auto simp: hex_of_def list_all_iff)
  with Cons show ?case by (simp add: to_hex_def)
qed (simp add: to_hex_def)

lemma trim_no_spaces: "(\<And>c. c \<in> set s \<Longrightarrow> \<not> is_space c) \<Longrightarrow> trim s = s"
  by (cases "s = []") (simp add: trim_def, simp add: trim_no_space)

definition link_params :: "metainfo \<Rightarrow> bytes list" where
  "link_params meta = (ascii ''xt=urn:btih:'' @ to_hex (info_hash meta)) #
     (if mname meta \<noteq> [] then [ascii ''dn='' @ url_encode (mname meta)] else []) @
     map (\<lambda>t. ascii ''tr='' @ url_encode t) (trackers meta)"

lemma join_with_snoc: "xs \<noteq> [] \<Longrightarrow> join_with sep (xs @ [y]) = join_with sep xs @ sep # y"
  by (induction xs rule: join_with.induct) (auto simp: join_with_Cons)

lemma magnet_for_join: "magnet_for meta = ascii ''magnet:?'' @ join_with 38 (link_params meta)"
proof -
  have "fold (\<lambda>tracker uri. uri @ ascii ''&tr='' @ url_encode tracker) ts (pre @ join_with 38 ps) =
      pre @ join_with 38 (ps @ map (\<lambda>t. ascii ''tr='' @ url_encode t) ts)" if "ps \<noteq> []" for pre ts ps
    using that
  proof (induction ts arbitrary: ps)
    case (Cons t ts)
    from Cons.prems Cons.IH [of "ps @ [ascii ''tr='' @ url_encode t]"]
    show ?case by (simp add: join_with_snoc)
  qed simp
  from this [of "if mname meta \<noteq> [] then [ascii ''xt=urn:btih:'' @ to_hex (info_hash meta), ascii ''dn='' @ url_encode (mname meta)]
      else [ascii ''xt=urn:btih:'' @ to_hex (info_hash meta)]" "trackers meta" "ascii ''magnet:?''"]
  show ?thesis by (auto simp: magnet_for_def link_params_def split: if_splits)
qed

lemma is_space_numeral: "is_space (numeral n) \<longleftrightarrow> numeral n = (32 :: byte) \<or> 9 \<le> (numeral n :: byte) \<and> numeral n \<le> (13 :: byte)"
  by (rule is_space_def)

lemma clean_quiet: "clean s \<Longrightarrow> 38 \<notin> set s \<and> (\<forall>c \<in> set s. \<not> is_space c)"
  using clean_no_amp clean_no_space by blast

lemma link_params_clean: "p \<in> set (link_params meta) \<Longrightarrow> 38 \<notin> set p \<and> (\<forall>c \<in> set p. \<not> is_space c)"
  using clean_quiet [OF clean_to_hex [of "info_hash meta"]] clean_quiet [OF clean_url_encode]
  by (auto simp: link_params_def is_space_numeral split: if_splits)

lemma set_join_with: "set (join_with sep ps) \<subseteq> insert sep (\<Union> (set ` set ps))"
  by (induction sep ps rule: join_with.induct) auto

lemma magnet_for_trim: "trim (magnet_for meta) = magnet_for meta"
proof (rule trim_no_spaces)
  fix c assume "c \<in> set (magnet_for meta)"
  then have "c \<in> set (ascii ''magnet:?'') \<or> c = 38 \<or> (\<exists>p \<in> set (link_params meta). c \<in> set p)"
    using set_join_with [of 38 "link_params meta"] by (auto simp: magnet_for_join)
  then show "\<not> is_space c" using link_params_clean by (auto simp: is_space_numeral)
qed

lemma param_tracker:
  "t \<noteq> [] \<Longrightarrow> magnet_param (ascii ''tr='' @ url_encode t) (out, b) =
     Inr (out\<lparr>link_trackers := link_trackers out @ [t]\<rparr>, b)"
  by (simp add: magnet_param_def url_decode_url_encode starts_with_def substr_def Let_def)

lemma param_name:
  "t \<noteq> [] \<Longrightarrow> magnet_param (ascii ''dn='' @ url_encode t) (out, b) = Inr (out\<lparr>display_name := t\<rparr>, b)"
  by (simp add: magnet_param_def url_decode_url_encode starts_with_def substr_def Let_def)

lemma param_topic:
  assumes "length h = 20"
  shows "magnet_param (ascii ''xt=urn:btih:'' @ to_hex h) (out, b) = Inr (out\<lparr>link_hash := h\<rparr>, True)"
proof -
  have "url_decode (to_hex h) = to_hex h"
    using clean_plain [OF clean_to_hex to_hex_no_percent] .
  then show ?thesis using assms
    by (simp add: magnet_param_def magnet_topic_def starts_with_def from_hex_def from_hex_loop_to_hex
        url_decode_plain plain_byte_def substr_def Let_def)
qed

lemma params_trackers:
  "\<forall>t \<in> set ts. t \<noteq> [] \<Longrightarrow> magnet_params (map (\<lambda>t. ascii ''tr='' @ url_encode t) ts) (out, b) =
     Inr (out\<lparr>link_trackers := link_trackers out @ ts\<rparr>, b)"
  by (induction ts arbitrary: out) (simp_all add: param_tracker [simplified])

subsection \<open>Properties\<close>

text \<open>The link the session writes for a torrent finds it again: parsed back, it yields the same
  info hash, the same name and the same trackers in the same order, whatever bytes the name and the
  trackers contain.\<close>

theorem parse_magnet_for:
  assumes "length (info_hash meta) = 20" and "list_all (\<lambda>t. t \<noteq> []) (trackers meta)"
  shows "parse_magnet (magnet_for meta) empty_link =
    Inr \<lparr>link_hash = info_hash meta, display_name = mname meta, link_trackers = trackers meta,
      web_seeds = [], exact_length = 0\<rparr>"
proof -
  have "split_on (join_with 38 (link_params meta)) 38 = link_params meta"
    by (rule split_on_join) (use link_params_clean in \<open>auto simp: link_params_def\<close>)
  moreover have "magnet_params (link_params meta) (empty_link, False) =
    Inr (\<lparr>link_hash = info_hash meta, display_name = mname meta, link_trackers = trackers meta,
      web_seeds = [], exact_length = 0\<rparr>, True)"
    using assms param_topic [OF assms(1)]
    by (simp add: link_params_def param_name [simplified] params_trackers [simplified] list_all_iff empty_link_def)
  ultimately show ?thesis
    by (simp add: parse_magnet_def magnet_for_trim) (simp add: magnet_for_join starts_with_def substr_def)
qed

theorem parse_magnet_for_witness:
  "parse_magnet (magnet_for (empty_meta\<lparr>mname := ascii ''a b'', trackers := [ascii ''http://t/a?x&y'']\<rparr>)) empty_link =
    Inr \<lparr>link_hash = replicate 20 0, display_name = ascii ''a b'', link_trackers = [ascii ''http://t/a?x&y''],
      web_seeds = [], exact_length = 0\<rparr>"
  using parse_magnet_for [of "empty_meta\<lparr>mname := ascii ''a b'', trackers := [ascii ''http://t/a?x&y'']\<rparr>"]
  by (simp add: empty_meta_def)

end
