(* ===== verification/Bitfield.thy ===== *)
theory Bitfield
  imports Prelude
begin

text \<open>
  The piece bitfield of \<open>source/bt/piece_picker.cpp\<close>: bytes with the most significant bit first,
  a size and a running count of the set bits.  \<open>bf_ok\<close> is the class invariant; under it the
  operations are those of a set of indices (\<open>bf_set\<close>), which is the interface the locale
  \<open>index_set\<close> states and the picker and the peers use.
\<close>

record bitfield =
  bdata :: bytes
  bits :: nat
  bcount :: nat

definition bf_empty :: bitfield where
  "bf_empty = \<lparr>bdata = [], bits = 0, bcount = 0\<rparr>"

definition bf_resize :: "nat \<Rightarrow> bitfield" where
  "bf_resize n = \<lparr>bdata = replicate (u32 (n + 7) div 8) 0, bits = n, bcount = 0\<rparr>"

definition bf_clear :: "bitfield \<Rightarrow> bitfield" where
  "bf_clear bf = bf\<lparr>bdata := replicate (length (bdata bf)) 0, bcount := 0\<rparr>"

definition bf_get :: "bitfield \<Rightarrow> nat \<Rightarrow> bool" where
  "bf_get bf index =
     (if bits bf \<le> index then False
      else drop_bit (7 - index mod 8) (bdata bf ! (index div 8)) AND 1 \<noteq> 0)"

definition bit_mask :: "nat \<Rightarrow> byte" where
  "bit_mask index = push_bit (7 - index mod 8) 1"

definition bf_set :: "bitfield \<Rightarrow> nat \<Rightarrow> bool \<Rightarrow> bitfield" where
  "bf_set bf index value =
     (if bits bf \<le> index then bf
      else
        let mask = bit_mask index;
            was = (bdata bf ! (index div 8) AND mask \<noteq> 0)
        in if value = was then bf
           else if value then
             bf\<lparr>bdata := (bdata bf)[index div 8 := bdata bf ! (index div 8) OR mask],
                bcount := u32 (bcount bf + 1)\<rparr>
           else
             bf\<lparr>bdata := (bdata bf)[index div 8 := bdata bf ! (index div 8) AND NOT mask],
                bcount := sub32 (bcount bf) 1\<rparr>)"

definition bf_full :: "bitfield \<Rightarrow> bool" where
  "bf_full bf \<longleftrightarrow> 0 < bits bf \<and> bcount bf = bits bf"

text \<open>The loop over the bits of each byte.\<close>

definition count_bits :: "bytes \<Rightarrow> nat" where
  "count_bits data = fold (\<lambda>byte n. fold (\<lambda>b n. if byte AND push_bit b 1 \<noteq> 0 then u32 (n + 1) else n) [0..<8] n) data 0"

definition bf_from_bytes :: "bytes \<Rightarrow> nat \<Rightarrow> bitfield option" where
  "bf_from_bytes data n =
     (let expected = u32 (n + 7) div 8
      in if length data \<noteq> expected then None
         else
           let spare = u32 (expected * 8 - n)
           in if 0 < spare \<and> ucast (data ! (expected - 1)) AND (push_bit spare (1 :: 32 word) - 1) \<noteq> 0 then None
              else Some \<lparr>bdata = data, bits = n, bcount = count_bits data\<rparr>)"

subsection \<open>The invariant\<close>

definition bit_at :: "bytes \<Rightarrow> nat \<Rightarrow> bool" where
  "bit_at data i \<longleftrightarrow> bit (data ! (i div 8)) (7 - i mod 8)"

text \<open>The bits past the size are zero, as BEP 3 requires.\<close>

definition pad_ok :: "bytes \<Rightarrow> nat \<Rightarrow> bool" where
  "pad_ok data n \<longleftrightarrow> (\<forall>i. n \<le> i \<longrightarrow> i div 8 < length data \<longrightarrow> \<not> bit_at data i)"

definition bf_ok :: "bitfield \<Rightarrow> bool" where
  "bf_ok bf \<longleftrightarrow> bits bf \<le> 2 ^ 32 - 8 \<and> length (bdata bf) = (bits bf + 7) div 8 \<and>
     bcount bf = card {i. bf_get bf i} \<and> pad_ok (bdata bf) (bits bf)"

lemma and_one_bit: "(w :: byte) AND 1 \<noteq> 0 \<longleftrightarrow> bit w 0"
  by (simp add: and_one_eq bit_0 odd_iff_mod_2_eq_one)

lemma and_mask_bit: "w AND bit_mask i \<noteq> 0 \<longleftrightarrow> bit w (7 - i mod 8)"
proof -
  have "w AND bit_mask i = (if bit w (7 - i mod 8) then bit_mask i else 0)"
    by (rule bit_word_eqI) (auto simp: bit_mask_def bit_simps)
  moreover have "bit (bit_mask i) (7 - i mod 8)" by (simp add: bit_mask_def bit_simps)
  then have "bit_mask i \<noteq> 0" by auto
  ultimately show ?thesis by simp
qed

lemma bf_get_bit: "bf_get bf i \<longleftrightarrow> i < bits bf \<and> bit_at (bdata bf) i"
  by (auto simp: bf_get_def and_one_bit bit_at_def bit_drop_bit_eq)

lemma bf_get_range: "bf_get bf i \<Longrightarrow> i < bits bf"
  by (simp add: bf_get_bit)

lemma finite_get [simp]: "finite {i. bf_get bf i}"
  by (rule finite_subset [of _ "{..<bits bf}"]) (auto simp: bf_get_bit)

lemma bf_ok_count_le: "bf_ok bf \<Longrightarrow> bcount bf \<le> bits bf"
proof -
  assume "bf_ok bf"
  then have "bcount bf = card {i. bf_get bf i}" by (simp add: bf_ok_def)
  also have "\<dots> \<le> card {..<bits bf}" by (rule card_mono) (auto simp: bf_get_bit)
  finally show ?thesis by simp
qed

lemma index_byte: "i < n \<Longrightarrow> i div 8 < (n + 7) div (8 :: nat)"
proof -
  assume "i < n"
  then have "(i + 8) div 8 \<le> (n + 7) div 8" by (intro div_le_mono) simp
  then show ?thesis by simp
qed

lemma bits_resize [simp]: "bits (bf_resize n) = n"
  by (simp add: bf_resize_def)

lemma bit_at_zeros: "i div 8 < k \<Longrightarrow> \<not> bit_at (replicate k 0) i"
  by (simp add: bit_at_def)

lemma u32_round_up: "n \<le> 2 ^ 32 - 8 \<Longrightarrow> u32 (n + 7) = n + 7"
  by (rule u32_id) simp

lemma bf_get_resize [simp]: "n \<le> 2 ^ 32 - 8 \<Longrightarrow> \<not> bf_get (bf_resize n) i"
  unfolding bf_get_bit bits_resize
  using bit_at_zeros [OF index_byte [of i n]] by (auto simp add: bf_resize_def u32_round_up)

lemma bf_ok_resize: "n \<le> 2 ^ 32 - 8 \<Longrightarrow> bf_ok (bf_resize n)"
proof -
  assume n: "n \<le> 2 ^ 32 - 8"
  then have e: "{i. bf_get (bf_resize n) i} = {}" by simp
  have d: "bdata (bf_resize n) = replicate ((n + 7) div 8) 0" "bcount (bf_resize n) = 0"
    using n by (simp_all add: bf_resize_def u32_round_up)
  show ?thesis unfolding bf_ok_def e pad_ok_def
    using n d bit_at_zeros by simp
qed

lemma bf_clear_get: "bf_ok bf \<Longrightarrow> \<not> bf_get (bf_clear bf) i"
  using bit_at_zeros [OF index_byte [of i "bits bf"]] by (auto simp: bf_get_bit bf_clear_def bf_ok_def)

lemma bf_ok_clear:
  assumes "bf_ok bf"
  shows "bf_ok (bf_clear bf)"
proof -
  have e: "{i. bf_get (bf_clear bf) i} = {}" using assms by (simp add: bf_clear_get)
  show ?thesis unfolding bf_ok_def e pad_ok_def
    using assms bit_at_zeros by (simp add: bf_ok_def bf_clear_def)
qed

text \<open>Setting and clearing one bit.\<close>

lemma mod_8_flip: "7 - i mod 8 = 7 - j mod 8 \<longleftrightarrow> i mod 8 = j mod (8 :: nat)"
proof -
  have "i mod 8 < 8" "j mod 8 < 8" by simp_all
  then show ?thesis by linarith
qed

lemma bit_or_mask: "bit (w OR bit_mask i) (7 - j mod 8) \<longleftrightarrow> j mod 8 = i mod 8 \<or> bit w (7 - j mod 8)"
  by (auto simp: bit_mask_def bit_simps mod_8_flip)

lemma bit_and_not_mask:
  "bit (w AND NOT (bit_mask i)) (7 - j mod 8) \<longleftrightarrow> j mod 8 \<noteq> i mod 8 \<and> bit w (7 - j mod 8)"
  by (auto simp: bit_mask_def bit_simps mod_8_flip)

lemma same_index: "i div 8 = j div 8 \<Longrightarrow> i mod 8 = j mod 8 \<longleftrightarrow> i = (j :: nat)"
  by (metis div_mult_mod_eq)

lemma bits_bf_set [simp]: "bits (bf_set bf i v) = bits bf"
  by (simp add: bf_set_def Let_def)

lemma length_bf_set [simp]: "length (bdata (bf_set bf i v)) = length (bdata bf)"
  by (simp add: bf_set_def Let_def)

lemma bit_at_set:
  assumes i: "i < bits bf" and len: "i div 8 < length (bdata bf)"
  shows "bit_at (bdata (bf_set bf i v)) j \<longleftrightarrow> (if j = i then v else bit_at (bdata bf) j)"
proof (cases "i div 8 = j div 8")
  case False
  then have "i \<noteq> j" by auto
  with False i show ?thesis by (simp add: bf_set_def Let_def bit_at_def)
next
  case same: True
  let ?w = "bdata bf ! (i div 8)"
  have w: "bdata bf ! (j div 8) = ?w" using same by simp
  have e: "j mod 8 = i mod 8 \<longleftrightarrow> j = i" using same_index [of j i] same by simp
  show ?thesis
  proof (cases "v = (?w AND bit_mask i \<noteq> 0)")
    case True
    then have "bf_set bf i v = bf" by (simp add: bf_set_def Let_def)
    then show ?thesis using w True by (simp add: bit_at_def and_mask_bit)
  next
    case change: False
    then have "bdata (bf_set bf i v) ! (j div 8) = (if v then ?w OR bit_mask i else ?w AND NOT (bit_mask i))"
      using i len same by (simp add: bf_set_def Let_def)
    then show ?thesis using e w by (simp add: bit_at_def bit_or_mask bit_and_not_mask)
  qed
qed

lemma bf_get_set:
  assumes "length (bdata bf) = (bits bf + 7) div 8"
  shows "bf_get (bf_set bf i v) j \<longleftrightarrow> (if j = i \<and> i < bits bf then v else bf_get bf j)"
proof (cases "i < bits bf")
  case False
  then show ?thesis by (simp add: bf_set_def)
next
  case True
  then have "i div 8 < length (bdata bf)" using index_byte assms by simp
  from bit_at_set [OF True this] True show ?thesis by (auto simp: bf_get_bit)
qed

lemma bf_ok_set:
  assumes ok: "bf_ok bf"
  shows "bf_ok (bf_set bf i v)"
proof -
  have len: "length (bdata bf) = (bits bf + 7) div 8" using ok by (simp add: bf_ok_def)
  note get = bf_get_set [OF len]
  show ?thesis
  proof (cases "i < bits bf")
    case False
    then show ?thesis using ok by (simp add: bf_set_def)
  next
    case True
    have was: "bdata bf ! (i div 8) AND bit_mask i \<noteq> 0 \<longleftrightarrow> bf_get bf i"
      using True by (simp add: and_mask_bit bf_get_bit bit_at_def)
    have le: "bcount bf \<le> bits bf" "bits bf < 2 ^ 32 - 7" using bf_ok_count_le ok by (auto simp: bf_ok_def)
    have c: "bcount bf = card {i. bf_get bf i}" using ok by (simp add: bf_ok_def)
    consider "v = bf_get bf i" | "v" "\<not> bf_get bf i" | "\<not> v" "bf_get bf i" by blast
    then have "bcount (bf_set bf i v) = card {j. bf_get (bf_set bf i v) j}"
    proof cases
      case 1
      then have "bf_set bf i v = bf" using was by (simp add: bf_set_def Let_def)
      then show ?thesis using c by simp
    next
      case 2
      then have "{j. bf_get (bf_set bf i v) j} = insert i {j. bf_get bf j}"
        using True by (auto simp: get)
      moreover have "bcount (bf_set bf i v) = u32 (bcount bf + 1)"
        using 2 True was by (simp add: bf_set_def Let_def)
      ultimately show ?thesis using 2 c le by (simp add: u32_id)
    next
      case 3
      then have "{j. bf_get (bf_set bf i v) j} = {j. bf_get bf j} - {i}"
        using True by (auto simp: get)
      moreover have "bcount (bf_set bf i v) = sub32 (bcount bf) 1"
        using 3 True was by (simp add: bf_set_def Let_def)
      moreover have "0 < bcount bf" using 3 c by (auto simp: card_gt_0_iff)
      ultimately show ?thesis using 3 c le by (simp add: sub32_id)
    qed
    moreover have "pad_ok (bdata (bf_set bf i v)) (bits bf)"
      unfolding pad_ok_def
    proof (intro allI impI)
      fix j assume j: "bits bf \<le> j" "j div 8 < length (bdata (bf_set bf i v))"
      then have "\<not> bit_at (bdata bf) j" "j \<noteq> i" using ok True by (auto simp: bf_ok_def pad_ok_def)
      then show "\<not> bit_at (bdata (bf_set bf i v)) j"
        using bit_at_set [OF True, of v j] index_byte [OF True] len by simp
    qed
    ultimately show ?thesis using ok len by (simp add: bf_ok_def)
  qed
qed


subsection \<open>Loading bytes received\<close>

lemma fold_count:
  "n + length xs < 2 ^ 32 \<Longrightarrow> fold (\<lambda>x n. if P x then u32 (n + 1) else n) xs n = n + length (filter P xs)"
proof (induction xs arbitrary: n)
  case (Cons x xs)
  then have "u32 (n + 1) = n + 1" by (intro u32_id) simp
  with Cons.IH [of n] Cons.IH [of "n + 1"] Cons.prems show ?case by simp
qed simp

definition byte_bits :: "byte \<Rightarrow> nat" where
  "byte_bits w = card {k. k < 8 \<and> bit w k}"

lemma count_byte:
  "n + 8 < 2 ^ 32 \<Longrightarrow> fold (\<lambda>b n. if w AND push_bit b 1 \<noteq> 0 then u32 (n + 1) else n) [0..<8] n = n + byte_bits w"
proof -
  assume n: "n + 8 < 2 ^ 32"
  have b: "w AND push_bit b 1 \<noteq> 0 \<longleftrightarrow> bit w b" if "b < 8" for b
    using and_mask_bit [of w "7 - b"] that by (simp add: bit_mask_def)
  have "length (filter (\<lambda>b. w AND push_bit b 1 \<noteq> 0) [0..<8]) = card (set (filter (\<lambda>b. w AND push_bit b 1 \<noteq> 0) [0..<8]))"
    by (simp only: distinct_card distinct_filter distinct_upt)
  also have "set (filter (\<lambda>b. w AND push_bit b 1 \<noteq> 0) [0..<8]) = {k. k < 8 \<and> bit w k}"
    using b by (auto simp del: upt_Suc push_bit_of_1)
  finally have "length (filter (\<lambda>b. w AND push_bit b 1 \<noteq> 0) [0..<8]) = byte_bits w"
    by (simp only: byte_bits_def)
  then show ?thesis using n
    by (subst fold_count) simp_all
qed

lemma fold_bytes:
  "n + 8 * length data < 2 ^ 32 \<Longrightarrow>
   fold (\<lambda>byte n. fold (\<lambda>b n. if byte AND push_bit b 1 \<noteq> 0 then u32 (n + 1) else n) [0..<8] n) data n =
     n + (\<Sum>w\<leftarrow>data. byte_bits w)"
proof (induction data arbitrary: n)
  case (Cons w data)
  have "byte_bits w \<le> card {..<8::nat}" unfolding byte_bits_def by (rule card_mono) auto
  then have le: "byte_bits w \<le> 8" by simp
  have c: "fold (\<lambda>b n. if w AND push_bit b 1 \<noteq> 0 then u32 (n + 1) else n) [0..<8] n = n + byte_bits w"
    using Cons.prems by (intro count_byte) simp
  have "n + byte_bits w + 8 * length data < 2 ^ 32" using Cons.prems le by simp
  from Cons.IH [OF this] show ?case
    by (simp only: fold_simps c) simp
qed simp

lemma card_last_byte:
  "card {i. 8 * n \<le> i \<and> i < 8 * n + 8 \<and> bit w (7 - i mod 8)} = byte_bits w"
proof -
  have "{i. 8 * n \<le> i \<and> i < 8 * n + 8 \<and> bit w (7 - i mod 8)} = (\<lambda>k. 8 * n + (7 - k)) ` {k. k < 8 \<and> bit w k}"
  proof (intro equalityI subsetI)
    fix i assume i: "i \<in> {i. 8 * n \<le> i \<and> i < 8 * n + 8 \<and> bit w (7 - i mod 8)}"
    then obtain d where d: "i = 8 * n + d" "d < 8" by (auto simp: le_iff_add)
    then have "i mod 8 = d" by simp
    with i d show "i \<in> (\<lambda>k. 8 * n + (7 - k)) ` {k. k < 8 \<and> bit w k}"
      by (intro image_eqI [of _ _ "7 - d"]) auto
  next
    fix i assume "i \<in> (\<lambda>k. 8 * n + (7 - k)) ` {k. k < 8 \<and> bit w k}"
    then obtain k where k: "i = 8 * n + (7 - k)" "k < 8" "bit w k" by auto
    then have "(8 * n + (7 - k)) mod 8 = 7 - k" by (simp only: mod_mult_self4) simp
    then have "i mod 8 = 7 - k" using k(1) by simp
    moreover have "8 * n \<le> i" "i < 8 * n + 8" unfolding k(1) using k(2) by arith+
    ultimately show "i \<in> {i. 8 * n \<le> i \<and> i < 8 * n + 8 \<and> bit w (7 - i mod 8)}" using k(2,3) by simp
  qed
  moreover have "inj_on (\<lambda>k. 8 * n + (7 - k)) {k. k < 8 \<and> bit w k}"
    by (auto intro!: inj_onI)
  ultimately show ?thesis by (simp only: card_image byte_bits_def)
qed

lemma sum_byte_bits: "(\<Sum>w\<leftarrow>data. byte_bits w) = card {i. i < 8 * length data \<and> bit_at data i}"
proof (induction data rule: rev_induct)
  case (snoc w data)
  let ?n = "length data"
  have "{i. i < 8 * length (data @ [w]) \<and> bit_at (data @ [w]) i} =
      {i. i < 8 * ?n \<and> bit_at data i} \<union> {i. 8 * ?n \<le> i \<and> i < 8 * ?n + 8 \<and> bit w (7 - i mod 8)}"
  proof (intro set_eqI iffI)
    fix i assume i: "i \<in> {i. i < 8 * length (data @ [w]) \<and> bit_at (data @ [w]) i}"
    then have "\<not> i < 8 * ?n \<Longrightarrow> i div 8 = ?n" "i < 8 * ?n \<Longrightarrow> i div 8 < ?n" by auto
    then show "i \<in> {i. i < 8 * ?n \<and> bit_at data i} \<union> {i. 8 * ?n \<le> i \<and> i < 8 * ?n + 8 \<and> bit w (7 - i mod 8)}"
      using i by (cases "i < 8 * ?n") (auto simp: bit_at_def nth_append)
  next
    fix i assume i: "i \<in> {i. i < 8 * ?n \<and> bit_at data i} \<union> {i. 8 * ?n \<le> i \<and> i < 8 * ?n + 8 \<and> bit w (7 - i mod 8)}"
    then have "\<not> i < 8 * ?n \<Longrightarrow> i div 8 = ?n" "i < 8 * ?n \<Longrightarrow> i div 8 < ?n" by auto
    then show "i \<in> {i. i < 8 * length (data @ [w]) \<and> bit_at (data @ [w]) i}"
      using i by (cases "i < 8 * ?n") (auto simp: bit_at_def nth_append)
  qed
  moreover have "{i. i < 8 * ?n \<and> bit_at data i} \<inter> {i. 8 * ?n \<le> i \<and> i < 8 * ?n + 8 \<and> bit w (7 - i mod 8)} = {}"
    by auto
  moreover have "finite {i. 8 * ?n \<le> i \<and> i < 8 * ?n + 8 \<and> bit w (7 - i mod 8)}"
    by (rule finite_subset [of _ "{..<8 * ?n + 8}"]) auto
  ultimately show ?case using snoc card_last_byte [of ?n w] by (simp add: card_Un_disjoint)
qed simp

lemma spare_check:
  assumes "k \<le> 8"
  shows "(ucast (w :: byte) :: 32 word) AND (push_bit k 1 - 1) \<noteq> 0 \<longleftrightarrow> (\<exists>b < k. bit w b)"
proof -
  have m: "push_bit k 1 - 1 = (mask k :: 32 word)" by (simp add: mask_eq_exp_minus_1)
  have b: "bit ((ucast w :: 32 word) AND mask k) n \<longleftrightarrow> n < k \<and> bit w n" for n
    using assms by (auto simp: bit_simps)
  have "(\<exists>b < k. bit w b) \<longleftrightarrow> (\<exists>n. bit ((ucast w :: 32 word) AND mask k) n)" using b by blast
  also have "\<dots> \<longleftrightarrow> (ucast w :: 32 word) AND mask k \<noteq> 0" by (metis bit_0_eq bit_eqI bot_apply bot_bool_def)
  finally show ?thesis unfolding m by simp
qed

lemma pad_last:
  assumes "length data = (n + 7) div 8"
  shows "pad_ok data n \<longleftrightarrow> (\<forall>b < 8 * length data - n. \<not> bit (data ! (length data - 1)) b)"
proof -
  let ?l = "length data"
  have l: "n \<le> 8 * ?l" "8 * ?l < n + 8" using assms by linarith+
  show ?thesis
  proof
    assume p: "pad_ok data n"
    show "\<forall>b < 8 * ?l - n. \<not> bit (data ! (?l - 1)) b"
    proof (intro allI impI)
      fix b assume b: "b < 8 * ?l - n"
      let ?i = "8 * (?l - 1) + (7 - b)"
      have "b < 8" using b l by linarith
      moreover have "n \<le> ?i" using b l by linarith
      moreover have d: "?i div 8 = ?l - 1" "?i mod 8 = 7 - b" by simp_all
      moreover have "?l - 1 < ?l" using b by linarith
      ultimately have "\<not> bit_at data ?i" using p unfolding pad_ok_def by metis
      then show "\<not> bit (data ! (?l - 1)) b" unfolding bit_at_def d using \<open>b < 8\<close> by simp
    qed
  next
    assume a: "\<forall>b < 8 * ?l - n. \<not> bit (data ! (?l - 1)) b"
    show "pad_ok data n" unfolding pad_ok_def
    proof (intro allI impI)
      fix i assume i: "n \<le> i" "i div 8 < ?l"
      have "?l - 1 \<le> i div 8" using i l by linarith
      with i have d: "i div 8 = ?l - 1" by linarith
      have "i mod 8 = i - 8 * (?l - 1)" using d minus_mod_eq_mult_div [of i 8] mod_less_eq_dividend [of i 8] by linarith
      then have "7 - i mod 8 < 8 * ?l - n" using i l d by linarith
      with a d show "\<not> bit_at data i" by (simp add: bit_at_def)
    qed
  qed
qed

lemma bf_from_bytes_iff:
  assumes n: "n \<le> 2 ^ 32 - 8"
  shows "bf_from_bytes data n = (if length data = (n + 7) div 8 \<and> pad_ok data n
     then Some \<lparr>bdata = data, bits = n, bcount = count_bits data\<rparr> else None)"
proof (cases "length data = (n + 7) div 8")
  case False
  then show ?thesis using u32_round_up [OF n] by (simp add: bf_from_bytes_def)
next
  case True
  then have l: "n \<le> 8 * length data" "8 * length data < n + 8" by linarith+
  have s: "u32 (length data * 8 - n) = 8 * length data - n" using l by (subst u32_id) auto
  have z: "8 * length data - n = 0 \<Longrightarrow> pad_ok data n" using pad_last [OF True] by simp
  have c: "ucast (data ! (length data - 1)) AND (push_bit (8 * length data - n) (1 :: 32 word) - 1) \<noteq> 0
      \<longleftrightarrow> \<not> pad_ok data n"
    unfolding pad_last [OF True] using l by (subst spare_check) auto
  show ?thesis
    unfolding bf_from_bytes_def u32_round_up [OF n] Let_def True [symmetric] s c
    using z by simp
qed

lemma bf_from_bytes_ok:
  assumes n: "n \<le> 2 ^ 32 - 8" and bf: "bf_from_bytes data n = Some bf"
  shows "bf_ok bf" and "bits bf = n" and "bdata bf = data"
proof -
  from bf have len: "length data = (n + 7) div 8" and p: "pad_ok data n"
    and b: "bf = \<lparr>bdata = data, bits = n, bcount = count_bits data\<rparr>"
    unfolding bf_from_bytes_iff [OF n] by (auto split: if_splits)
  have "count_bits data = card {i. i < 8 * length data \<and> bit_at data i}"
    unfolding count_bits_def using fold_bytes [of 0 data] len n sum_byte_bits [of data] by simp
  also have "{i. i < 8 * length data \<and> bit_at data i} = {i. bf_get bf i}"
  proof (intro set_eqI iffI)
    fix i assume i: "i \<in> {i. i < 8 * length data \<and> bit_at data i}"
    then have "i div 8 < length data" by auto
    with p i have "i < n" by (auto simp: pad_ok_def not_le [symmetric])
    with i b show "i \<in> {i. bf_get bf i}" by (simp add: bf_get_bit)
  next
    fix i assume "i \<in> {i. bf_get bf i}"
    then have "i < n" "bit_at data i" using b by (simp_all add: bf_get_bit)
    moreover have "n \<le> 8 * length data" using len by linarith
    ultimately show "i \<in> {i. i < 8 * length data \<and> bit_at data i}" by simp
  qed
  finally show "bf_ok bf" using n len p b by (simp add: bf_ok_def)
  show "bits bf = n" "bdata bf = data" using b by simp_all
qed

lemma bf_from_bytes_bdata:
  assumes "bf_ok bf"
  shows "bf_from_bytes (bdata bf) (bits bf) = Some bf"
proof -
  have n: "bits bf \<le> 2 ^ 32 - 8" and l: "length (bdata bf) = (bits bf + 7) div 8" "pad_ok (bdata bf) (bits bf)"
    using assms by (simp_all add: bf_ok_def)
  then obtain bf' where bf': "bf_from_bytes (bdata bf) (bits bf) = Some bf'"
    by (simp add: bf_from_bytes_iff [OF n])
  note ok = bf_from_bytes_ok [OF n bf']
  then have "{i. bf_get bf' i} = {i. bf_get bf i}" by (simp add: bf_get_bit)
  with ok(1) assms have "bcount bf' = bcount bf" by (simp add: bf_ok_def)
  with ok(2,3) bf' show ?thesis by simp
qed

subsection \<open>A bitfield as a set of indices\<close>

locale index_set =
  fixes mem :: "'s \<Rightarrow> nat \<Rightarrow> bool" and add :: "'s \<Rightarrow> nat \<Rightarrow> 's" and width :: "'s \<Rightarrow> nat"
    and size_of :: "'s \<Rightarrow> nat" and ok :: "'s \<Rightarrow> bool"
  assumes ok_add: "ok s \<Longrightarrow> ok (add s i)"
    and width_add: "ok s \<Longrightarrow> width (add s i) = width s"
    and mem_add: "ok s \<Longrightarrow> mem (add s i) j \<longleftrightarrow> j = i \<and> i < width s \<or> mem s j"
    and mem_width: "mem s j \<Longrightarrow> j < width s"
    and size_card: "ok s \<Longrightarrow> size_of s = card {i. mem s i}"
begin

definition add_all :: "nat list \<Rightarrow> 's \<Rightarrow> 's" where
  "add_all is s = fold (\<lambda>i s. add s i) is s"

lemma ok_add_all: "ok s \<Longrightarrow> ok (add_all is s) \<and> width (add_all is s) = width s"
  unfolding add_all_def by (induction "is" arbitrary: s) (auto simp: ok_add width_add)

lemma mem_add_all: "ok s \<Longrightarrow> mem (add_all is s) j \<longleftrightarrow> j \<in> set is \<and> j < width s \<or> mem s j"
  unfolding add_all_def by (induction "is" arbitrary: s) (auto simp: ok_add width_add mem_add)

lemma size_add: "ok s \<Longrightarrow> i < width s \<Longrightarrow> \<not> mem s i \<Longrightarrow> size_of (add s i) = Suc (size_of s)"
proof -
  assume a: "ok s" "i < width s" "\<not> mem s i"
  then have "{j. mem (add s i) j} = insert i {j. mem s j}" by (auto simp: mem_add)
  moreover have "finite {j. mem s j}"
    by (rule finite_subset [of _ "{..<width s}"]) (auto dest: mem_width)
  ultimately show ?thesis using a by (simp add: size_card ok_add)
qed

lemma size_le: "ok s \<Longrightarrow> size_of s \<le> width s"
  using card_mono [of "{..<width s}" "{i. mem s i}"] by (auto simp: size_card dest: mem_width)

lemma size_full: "ok s \<Longrightarrow> size_of s = width s \<longleftrightarrow> (\<forall>i < width s. mem s i)"
proof -
  assume s: "ok s"
  have sub: "{i. mem s i} \<subseteq> {..<width s}" by (auto dest: mem_width)
  have "size_of s = width s \<longleftrightarrow> card {i. mem s i} = card {..<width s}" using s by (simp add: size_card)
  also have "\<dots> \<longleftrightarrow> {i. mem s i} = {..<width s}"
    using card_subset_eq [OF finite_lessThan sub] by metis
  also have "\<dots> \<longleftrightarrow> (\<forall>i < width s. mem s i)" using sub by blast
  finally show ?thesis .
qed

end

lemma bf_mem_add:
  "bf_ok s \<Longrightarrow> bf_get (bf_set s i True) j \<longleftrightarrow> j = i \<and> i < bits s \<or> bf_get s j"
  using bf_get_set [of s i True j] by (auto simp: bf_ok_def)

interpretation bfs: index_set bf_get "\<lambda>s i. bf_set s i True" bits bcount bf_ok
proof unfold_locales
  fix s :: bitfield and i j :: nat
  show "bf_ok s \<Longrightarrow> bf_ok (bf_set s i True)" by (rule bf_ok_set)
  show "bf_ok s \<Longrightarrow> bits (bf_set s i True) = bits s" by simp
  show "bf_ok s \<Longrightarrow> bf_get (bf_set s i True) j \<longleftrightarrow> j = i \<and> i < bits s \<or> bf_get s j" by (rule bf_mem_add)
  show "bf_get s j \<Longrightarrow> j < bits s" by (rule bf_get_range)
  show "bf_ok s \<Longrightarrow> bcount s = card {i. bf_get s i}" by (simp add: bf_ok_def)
qed

lemma bf_full_iff: "bf_ok bf \<Longrightarrow> bf_full bf \<longleftrightarrow> 0 < bits bf \<and> (\<forall>i < bits bf. bf_get bf i)"
  by (simp add: bf_full_def bfs.size_full)

subsection \<open>Properties\<close>

text \<open>Setting or clearing a bit changes that bit only, and the running count always equals the
  number of set bits: the count the progress and the completion test rely on cannot drift, whatever
  sequence of updates is made, out-of-range indices and repeated updates included.\<close>

theorem bitfield_updates:
  assumes "bf_ok bf"
  shows "bf_ok (bf_set bf i v) \<and>
    (bf_get (bf_set bf i v) j \<longleftrightarrow> (if j = i \<and> i < bits bf then v else bf_get bf j)) \<and>
    bcount (bf_set bf i v) = card {k. bf_get (bf_set bf i v) k} \<and>
    (bf_full bf \<longleftrightarrow> 0 < bits bf \<and> list_all (bf_get bf) [0..<bits bf])"
  using assms bf_ok_set [OF assms, of i v] bf_get_set [of bf i v j] bf_full_iff [OF assms]
  by (auto simp: bf_ok_def list_all_iff)

theorem bitfield_updates_witness:
  "bf_ok (bf_set (bf_resize 9) 8 True) \<and> bf_get (bf_set (bf_resize 9) 8 True) 8"
  using bitfield_updates [of "bf_resize 9" 8 True 8] bf_ok_resize [of 9] by simp

text \<open>A bitfield message is loaded exactly when it has the right number of bytes and its padding
  bits are zero; the object it gives satisfies the invariant and holds the bytes received, and
  loading back the bytes of any well-formed bitfield gives that bitfield.\<close>

theorem bitfield_from_bytes:
  assumes "n \<le> 2 ^ 32 - 8"
  shows "(bf_from_bytes data n \<noteq> None \<longleftrightarrow> length data = (n + 7) div 8 \<and> pad_ok data n) \<and>
    list_all (\<lambda>bf. bf_ok bf \<and> bits bf = n \<and> bdata bf = data) (case bf_from_bytes data n of None \<Rightarrow> [] | Some bf \<Rightarrow> [bf]) \<and>
    bf_from_bytes (bdata (bf_set (bf_resize n) i True)) n = Some (bf_set (bf_resize n) i True)"
  using assms bf_from_bytes_ok [OF assms, of data] bf_from_bytes_iff [OF assms, of data]
    bf_from_bytes_bdata [OF bf_ok_set [OF bf_ok_resize [OF assms], of i True]]
  by (auto split: option.splits)

theorem bitfield_from_bytes_witness:
  "bf_from_bytes [0x80, 0x40] 9 = None \<and> bf_from_bytes (bdata (bf_set (bf_resize 9) 8 True)) 9 = Some (bf_set (bf_resize 9) 8 True)"
proof -
  have "bit_at [0x80, 0x40] 9" by (simp add: bit_at_def)
  then have "\<not> pad_ok [0x80, 0x40] 9" by (auto simp: pad_ok_def intro!: exI [of _ 9])
  then show ?thesis using bitfield_from_bytes [of 9 "[0x80, 0x40]" 8] by simp
qed

end
