(* ===== verification/Picker.thy ===== *)
theory Picker
  imports Metainfo Bitfield
begin

text \<open>
  The piece picker (\<open>source/bt/piece_picker.cpp\<close>, \<open>include/bt/piece_picker.hpp\<close>): which blocks to
  ask of a peer, and what the answers, the losses and the timeouts do to the blocks asked for.

  \<open>progress_\<close> and \<open>pending_\<close> are \<open>std::unordered_map\<close>s, here maps.  Where the code iterates over
  one, the order is the container's and may be anything: \<open>pick\<close> and \<open>expire_requests\<close> take it as
  an argument, and the theorems hold for every order.  \<open>picker_ok\<close> is the invariant every operation
  keeps.
\<close>

datatype block_state = Free | Pending | Done

record piece_progress =
  blocks :: "block_state list"
  pdone :: nat
  ppending :: nat

record block_request =
  rpiece :: nat
  roffset :: nat
  rlength :: nat

record picker =
  pmeta :: metainfo
  have_bits :: bitfield
  availability :: "nat list"
  progress :: "nat \<Rightarrow> piece_progress option"
  requested :: "nat \<Rightarrow> nat option"
  bytes_done :: nat
  pick_cursor :: nat

definition kBlockSize :: nat where
  "kBlockSize = 16 * 1024"

definition kRarestSample :: nat where
  "kRarestSample = 256"

definition block_key :: "nat \<Rightarrow> nat \<Rightarrow> nat" where
  "block_key piece off = piece * 2 ^ 32 + off"

definition picker_init :: "metainfo \<Rightarrow> picker" where
  "picker_init m = \<lparr>pmeta = m, have_bits = bf_resize (piece_count m),
     availability = replicate (piece_count m) 0, progress = (\<lambda>_. None), requested = (\<lambda>_. None),
     bytes_done = 0, pick_cursor = 0\<rparr>"

definition is_complete :: "picker \<Rightarrow> bool" where
  "is_complete pk \<longleftrightarrow> bf_full (have_bits pk)"

definition have_piece :: "picker \<Rightarrow> nat \<Rightarrow> bool" where
  "have_piece pk i \<longleftrightarrow> bf_get (have_bits pk) i"

definition blocks_in_piece :: "metainfo \<Rightarrow> nat \<Rightarrow> nat" where
  "blocks_in_piece m piece = u32 (size_of_piece m piece + kBlockSize - 1) div kBlockSize"

definition fresh_progress :: "metainfo \<Rightarrow> nat \<Rightarrow> piece_progress" where
  "fresh_progress m piece = \<lparr>blocks = replicate (blocks_in_piece m piece) Free, pdone = 0, ppending = 0\<rparr>"

definition progress_for :: "picker \<Rightarrow> nat \<Rightarrow> piece_progress" where
  "progress_for pk piece =
     (case progress pk piece of Some pr \<Rightarrow> pr | None \<Rightarrow> fresh_progress (pmeta pk) piece)"

definition set_have :: "nat \<Rightarrow> picker \<Rightarrow> picker" where
  "set_have piece pk =
     (if piece_count (pmeta pk) \<le> piece \<or> have_piece pk piece then pk
      else pk\<lparr>have_bits := bf_set (have_bits pk) piece True,
              bytes_done := u64 (bytes_done pk + size_of_piece (pmeta pk) piece),
              progress := (progress pk)(piece := None)\<rparr>)"

subsection \<open>Availability\<close>

definition bump :: "nat \<Rightarrow> nat" where
  "bump a = (if a < 0xffff then a + 1 else a)"

definition peer_added :: "bitfield \<Rightarrow> picker \<Rightarrow> picker" where
  "peer_added pieces pk =
     (let n = min (bits pieces) (piece_count (pmeta pk))
      in pk\<lparr>availability := fold (\<lambda>i av. if bf_get pieces i then av[i := bump (av ! i)] else av) [0..<n]
           (availability pk)\<rparr>)"

definition peer_removed :: "bitfield \<Rightarrow> picker \<Rightarrow> picker" where
  "peer_removed pieces pk =
     (let n = min (bits pieces) (piece_count (pmeta pk))
      in pk\<lparr>availability := fold (\<lambda>i av. if bf_get pieces i \<and> 0 < av ! i then av[i := av ! i - 1] else av) [0..<n]
           (availability pk)\<rparr>)"

definition peer_has :: "nat \<Rightarrow> picker \<Rightarrow> picker" where
  "peer_has piece pk =
     (if piece < length (availability pk)
      then pk\<lparr>availability := (availability pk)[piece := bump (availability pk ! piece)]\<rparr>
      else pk)"

subsection \<open>Selection\<close>

definition endgame :: "picker \<Rightarrow> bool" where
  "endgame pk \<longleftrightarrow> 0 < piece_count (pmeta pk) \<and>
     u32 (sub32 (piece_count (pmeta pk)) (bcount (have_bits pk)) * 50) < piece_count (pmeta pk)"

definition block_at :: "nat \<Rightarrow> nat \<Rightarrow> nat \<Rightarrow> block_request" where
  "block_at piece piece_size b =
     \<lparr>rpiece = piece, roffset = u32 (b * kBlockSize),
      rlength = min kBlockSize (sub32 piece_size (u32 (b * kBlockSize)))\<rparr>"

text \<open>The loop of \<open>take_from\<close> over the blocks of one piece.\<close>

fun take_blocks :: "nat \<Rightarrow> nat \<Rightarrow> bool \<Rightarrow> nat \<Rightarrow> nat \<Rightarrow> nat list \<Rightarrow>
    piece_progress \<times> (nat \<Rightarrow> nat option) \<times> block_request list \<Rightarrow>
    piece_progress \<times> (nat \<Rightarrow> nat option) \<times> block_request list" where
  "take_blocks piece sz eg now mx [] st = st"
| "take_blocks piece sz eg now mx (b # bs) (pr, rq, out) =
     (if mx \<le> length out then (pr, rq, out)
      else
        let free = (blocks pr ! b = Free);
            retryable = (eg \<and> blocks pr ! b = Pending)
        in if \<not> free \<and> \<not> retryable then take_blocks piece sz eg now mx bs (pr, rq, out)
           else
             let r = block_at piece sz b;
                 pr' = (if free then pr\<lparr>blocks := (blocks pr)[b := Pending], ppending := ppending pr + 1\<rparr> else pr)
             in take_blocks piece sz eg now mx bs (pr', rq(block_key piece (roffset r) \<mapsto> now), out @ [r]))"

definition take_from :: "bool \<Rightarrow> nat \<Rightarrow> nat \<Rightarrow> nat \<Rightarrow> picker \<times> block_request list \<Rightarrow> picker \<times> block_request list" where
  "take_from eg now mx piece st =
     (let (pk, out) = st;
          pr = progress_for pk piece;
          (pr', rq', out') = take_blocks piece (size_of_piece (pmeta pk) piece) eg now mx [0..<length (blocks pr)]
            (pr, requested pk, out)
      in (pk\<lparr>progress := (progress pk)(piece \<mapsto> pr'), requested := rq'\<rparr>, out'))"

text \<open>First the pieces already begun, in the order the hash table yields them.\<close>

fun pick_begun :: "bitfield \<Rightarrow> bool \<Rightarrow> nat \<Rightarrow> nat \<Rightarrow> nat list \<Rightarrow> picker \<times> block_request list \<Rightarrow> picker \<times> block_request list" where
  "pick_begun peer eg now mx [] st = st"
| "pick_begun peer eg now mx (piece # ps) (pk, out) =
     (if mx \<le> length out then (pk, out)
      else case progress pk piece of
        None \<Rightarrow> pick_begun peer eg now mx ps (pk, out)
      | Some prog \<Rightarrow>
          if have_piece pk piece \<or> \<not> bf_get peer piece then pick_begun peer eg now mx ps (pk, out)
          else if length (blocks prog) \<le> pdone prog + ppending prog \<and> \<not> eg
            then pick_begun peer eg now mx ps (pk, out)
          else pick_begun peer eg now mx ps (take_from eg now mx piece (pk, out)))"

text \<open>The rarest of the candidates weighed, from the cursor on.\<close>

definition candidate :: "picker \<Rightarrow> bitfield \<Rightarrow> nat \<Rightarrow> bool" where
  "candidate pk peer i \<longleftrightarrow> \<not> have_piece pk i \<and> bf_get peer i \<and> progress pk i = None \<and> availability pk ! i \<noteq> 0"

fun rarest :: "picker \<Rightarrow> bitfield \<Rightarrow> nat list \<Rightarrow> nat \<Rightarrow> nat option \<Rightarrow> nat \<Rightarrow> nat option" where
  "rarest pk peer [] weighed best best_avail = best"
| "rarest pk peer (step # steps) weighed best best_avail =
     (if kRarestSample \<le> weighed then best
      else
        let i = u32 (pick_cursor pk + step) mod piece_count (pmeta pk)
        in if \<not> candidate pk peer i then rarest pk peer steps weighed best best_avail
           else if availability pk ! i < best_avail then
             (if availability pk ! i = 1 then Some i
              else rarest pk peer steps (weighed + 1) (Some i) (availability pk ! i))
           else rarest pk peer steps (weighed + 1) best best_avail)"

definition pick_rarest :: "picker \<Rightarrow> bitfield \<Rightarrow> nat option" where
  "pick_rarest pk peer = rarest pk peer [0..<piece_count (pmeta pk)] 0 None 0xffff"

lemma take_blocks_length:
  "length (snd (snd st)) \<le> length (snd (snd (take_blocks piece sz eg now mx bs st)))"
proof (induction bs arbitrary: st)
  case (Cons b bs)
  obtain pr rq out where st: "st = (pr, rq, out)" by (cases st)
  show ?case
    using Cons [of "(pr, rq, out)"]
      Cons [of "(_, _, out @ [_])", THEN le_trans [rotated], of "length out"]
    by (simp add: st Let_def)
qed simp

lemma take_from_length: "length (snd st) \<le> length (snd (take_from eg now mx piece st))"
proof -
  obtain pk out where st: "st = (pk, out)" by (cases st)
  show ?thesis
    using take_blocks_length [of "(progress_for pk piece, requested pk, out)"]
    by (simp add: st take_from_def Let_def split: prod.splits) (metis snd_conv)
qed

text \<open>Then new pieces, the rarest first; a piece that yields nothing ends the loop.\<close>

function pick_new :: "bitfield \<Rightarrow> bool \<Rightarrow> nat \<Rightarrow> nat \<Rightarrow> picker \<Rightarrow> block_request list \<Rightarrow> picker \<times> block_request list" where
  "pick_new peer eg now mx pk out =
     (if mx \<le> length out then (pk, out)
      else case pick_rarest pk peer of
        None \<Rightarrow> (pk, out)
      | Some best \<Rightarrow>
          let st = take_from eg now mx best
                (pk\<lparr>pick_cursor := u32 (best + 1) mod piece_count (pmeta pk)\<rparr>, out)
          in if length (snd st) = length out then st
             else pick_new peer eg now mx (fst st) (snd st))"
  by pat_completeness auto
termination
proof (relation "measure (\<lambda>(peer, eg, now, mx, pk, out). mx - length out)")
  fix peer eg now mx pk out best st
  assume "\<not> mx \<le> length (out :: block_request list)"
    and st: "st = take_from eg now mx best (pk\<lparr>pick_cursor := u32 (best + 1) mod piece_count (pmeta pk)\<rparr>, out)"
    and ne: "length (snd st) \<noteq> length out"
  moreover have "length out \<le> length (snd st)"
    using take_from_length [of "(pk\<lparr>pick_cursor := u32 (best + 1) mod piece_count (pmeta pk)\<rparr>, out)" eg now mx best] st
    by simp
  ultimately show "((peer, eg, now, mx, fst st, snd st), peer, eg, now, mx, pk, out)
      \<in> measure (\<lambda>(peer, eg, now, mx, pk, out). mx - length out)"
    by (simp add: case_prod_beta')
qed simp

declare pick_new.simps [simp del]

definition pick :: "picker \<Rightarrow> nat list \<Rightarrow> bitfield \<Rightarrow> nat \<Rightarrow> nat \<Rightarrow> picker \<times> block_request list" where
  "pick pk order peer mx now =
     (if mx = 0 \<or> piece_count (pmeta pk) = 0 then (pk, [])
      else
        let eg = endgame pk;
            (pk', out) = pick_begun peer eg now mx order (pk, [])
        in pick_new peer eg now mx pk' out)"

subsection \<open>Answers, losses and timeouts\<close>

definition on_block_received :: "nat \<Rightarrow> nat \<Rightarrow> picker \<Rightarrow> picker \<times> bool" where
  "on_block_received piece off pk =
     (if piece_count (pmeta pk) \<le> piece \<or> have_piece pk piece then (pk, False)
      else if off mod kBlockSize \<noteq> 0 then (pk, False)
      else
        let index = off div kBlockSize
        in case progress pk piece of
             None \<Rightarrow> (pk, False)
           | Some prog \<Rightarrow>
               if length (blocks prog) \<le> index then (pk, False)
               else
                 let pk = pk\<lparr>requested := (requested pk)(block_key piece off := None)\<rparr>
                 in if blocks prog ! index = Done then (pk, False)
                    else
                      let prog = (if blocks prog ! index = Pending \<and> 0 < ppending prog
                                  then prog\<lparr>ppending := ppending prog - 1\<rparr> else prog);
                          prog = prog\<lparr>blocks := (blocks prog)[index := Done], pdone := pdone prog + 1\<rparr>
                      in (pk\<lparr>progress := (progress pk)(piece \<mapsto> prog)\<rparr>, pdone prog = length (blocks prog)))"

text \<open>A pending block becomes free again: the shared body of a loss and of a timeout.\<close>

definition free_block :: "nat \<Rightarrow> nat \<Rightarrow> picker \<Rightarrow> picker" where
  "free_block piece off pk =
     (case progress pk piece of
        None \<Rightarrow> pk
      | Some prog \<Rightarrow>
          let index = off div kBlockSize
          in if index < length (blocks prog) \<and> blocks prog ! index = Pending
             then pk\<lparr>progress := (progress pk)(piece \<mapsto> prog\<lparr>blocks := (blocks prog)[index := Free],
                    ppending := (if 0 < ppending prog then ppending prog - 1 else ppending prog)\<rparr>)\<rparr>
             else pk)"

definition on_request_dropped :: "nat \<Rightarrow> nat \<Rightarrow> picker \<Rightarrow> picker" where
  "on_request_dropped piece off pk =
     free_block piece off (pk\<lparr>requested := (requested pk)(block_key piece off := None)\<rparr>)"

definition on_piece_verified :: "nat \<Rightarrow> bool \<Rightarrow> picker \<Rightarrow> picker" where
  "on_piece_verified piece good_hash pk =
     (if good_hash then set_have piece pk
      else
        let pk = (case progress pk piece of
                    None \<Rightarrow> pk
                  | Some prog \<Rightarrow> pk\<lparr>progress := (progress pk)(piece \<mapsto>
                      \<lparr>blocks = replicate (length (blocks prog)) Free, pdone = 0, ppending = 0\<rparr>)\<rparr>)
        in pk\<lparr>requested := (\<lambda>k. if k div 2 ^ 32 = piece then None else requested pk k)\<rparr>)"

definition expire_one :: "nat \<Rightarrow> nat \<Rightarrow> nat \<Rightarrow> picker \<times> nat \<Rightarrow> picker \<times> nat" where
  "expire_one now timeout k st =
     (case requested (fst st) k of
        None \<Rightarrow> st
      | Some t \<Rightarrow>
          if sub64 now t < timeout then st
          else (free_block (k div 2 ^ 32) (k mod 2 ^ 32) ((fst st)\<lparr>requested := (requested (fst st))(k := None)\<rparr>),
                snd st + 1))"

definition expire_requests :: "nat list \<Rightarrow> nat \<Rightarrow> nat \<Rightarrow> picker \<Rightarrow> picker \<times> nat" where
  "expire_requests order now timeout pk = fold (expire_one now timeout) order (pk, 0)"

subsection \<open>The invariant\<close>

definition prog_ok :: "picker \<Rightarrow> nat \<Rightarrow> piece_progress \<Rightarrow> bool" where
  "prog_ok pk p pr \<longleftrightarrow> p < piece_count (pmeta pk) \<and> \<not> have_piece pk p \<and>
     length (blocks pr) = blocks_in_piece (pmeta pk) p \<and>
     pdone pr = count_list (blocks pr) Done \<and> ppending pr = count_list (blocks pr) Pending \<and>
     (\<forall>b < length (blocks pr). blocks pr ! b = Pending \<longrightarrow> requested pk (block_key p (b * kBlockSize)) \<noteq> None)"

definition have_bytes :: "picker \<Rightarrow> nat" where
  "have_bytes pk = (\<Sum>i | have_piece pk i. size_of_piece (pmeta pk) i)"

definition picker_ok :: "picker \<Rightarrow> bool" where
  "picker_ok pk \<longleftrightarrow> pieces_ok (pmeta pk) \<and> bf_ok (have_bits pk) \<and> bits (have_bits pk) = piece_count (pmeta pk) \<and>
     length (availability pk) = piece_count (pmeta pk) \<and> (\<forall>a \<in> set (availability pk). a \<le> 0xffff) \<and>
     (\<forall>p pr. progress pk p = Some pr \<longrightarrow> prog_ok pk p pr) \<and>
     bytes_done pk = have_bytes pk \<and> pick_cursor pk < piece_count (pmeta pk)"

lemma picker_okD:
  assumes "picker_ok pk"
  shows "pieces_ok (pmeta pk)" "bf_ok (have_bits pk)" "bits (have_bits pk) = piece_count (pmeta pk)"
    "length (availability pk) = piece_count (pmeta pk)" "bytes_done pk = have_bytes pk"
    "pick_cursor pk < piece_count (pmeta pk)" "\<And>p pr. progress pk p = Some pr \<Longrightarrow> prog_ok pk p pr"
    "\<forall>a \<in> set (availability pk). a \<le> 0xffff"
  using assms by (auto simp: picker_ok_def)

lemma pieces_ok_small: "pieces_ok m \<Longrightarrow> piece_count m < 2 ^ 22 \<and> 0 < piece_count m"
  by (auto simp: pieces_ok_count) (auto simp: pieces_ok_def div_eq_0_iff)

lemma block_bounds:
  assumes "pieces_ok m" and "p < piece_count m" and "b < blocks_in_piece m p"
  shows "b * kBlockSize < size_of_piece m p" and "u32 (b * kBlockSize) = b * kBlockSize"
    and "roffset (block_at p (size_of_piece m p) b) = b * kBlockSize"
    and "rlength (block_at p (size_of_piece m p) b) = min kBlockSize (size_of_piece m p - b * kBlockSize)"
proof -
  let ?s = "size_of_piece m p"
  have s: "0 < ?s" "?s \<le> 2 ^ 28"
    using size_of_piece_bounds [OF assms(1,2)] assms(1) by (auto simp: pieces_ok_def)
  then have "u32 (?s + kBlockSize - 1) = ?s + kBlockSize - 1" by (intro u32_id) (simp add: kBlockSize_def)
  then have "Suc b * kBlockSize \<le> ?s + kBlockSize - 1"
    using assms(3) less_eq_div_iff_mult_less_eq [of kBlockSize "Suc b" "?s + kBlockSize - 1"]
    by (simp add: blocks_in_piece_def kBlockSize_def Suc_le_eq)
  then show lt: "b * kBlockSize < ?s" using s by (simp add: kBlockSize_def)
  show u: "u32 (b * kBlockSize) = b * kBlockSize" using lt s by (intro u32_id) simp
  show "roffset (block_at p ?s b) = b * kBlockSize" by (simp add: block_at_def u)
  have "sub32 ?s (b * kBlockSize) = ?s - b * kBlockSize" using lt s by (intro sub32_id) simp_all
  then show "rlength (block_at p ?s b) = min kBlockSize (?s - b * kBlockSize)" by (simp add: block_at_def u)
qed

lemma block_index_less:
  assumes "pieces_ok m" and "p < piece_count m" and "b * kBlockSize < size_of_piece m p"
  shows "b < blocks_in_piece m p"
proof -
  let ?s = "size_of_piece m p"
  have s: "0 < ?s" "?s \<le> 2 ^ 28"
    using size_of_piece_bounds [OF assms(1,2)] assms(1) by (auto simp: pieces_ok_def)
  then have u: "u32 (?s + kBlockSize - 1) = ?s + kBlockSize - 1" by (intro u32_id) (simp add: kBlockSize_def)
  have "Suc b * kBlockSize \<le> ?s + kBlockSize - 1" using assms(3) by simp
  then have "Suc b \<le> (?s + kBlockSize - 1) div kBlockSize"
    by (simp add: less_eq_div_iff_mult_less_eq kBlockSize_def)
  then show ?thesis unfolding blocks_in_piece_def u by simp
qed

lemma count_list_replicate: "count_list (replicate n a) x = (if a = x then n else 0)"
  by (induction n) auto


lemma prog_ok_fresh:
  "p < piece_count (pmeta pk) \<Longrightarrow> \<not> have_piece pk p \<Longrightarrow> prog_ok pk p (fresh_progress (pmeta pk) p)"
  by (simp add: prog_ok_def fresh_progress_def count_list_replicate)

lemma prog_ok_progress_for:
  "picker_ok pk \<Longrightarrow> p < piece_count (pmeta pk) \<Longrightarrow> \<not> have_piece pk p \<Longrightarrow> prog_ok pk p (progress_for pk p)"
  using prog_ok_fresh picker_okD(7) by (auto simp: progress_for_def split: option.splits)

lemma picker_ok_init: "pieces_ok m \<Longrightarrow> picker_ok (picker_init m)"
  using pieces_ok_small [of m]
  by (auto simp: picker_ok_def picker_init_def bf_ok_resize have_bytes_def have_piece_def)

lemma picker_ok_progress:
  assumes "picker_ok pk" and "prog_ok pk p pr"
  shows "picker_ok (pk\<lparr>progress := (progress pk)(p \<mapsto> pr)\<rparr>)"
  using assms by (auto simp: picker_ok_def prog_ok_def have_piece_def have_bytes_def)

subsection \<open>What a selection takes\<close>

definition takeable :: "bool \<Rightarrow> piece_progress \<Rightarrow> nat \<Rightarrow> bool" where
  "takeable eg pr b \<longleftrightarrow> blocks pr ! b = Free \<or> eg \<and> blocks pr ! b = Pending"

definition chosen :: "bool \<Rightarrow> piece_progress \<Rightarrow> nat \<Rightarrow> nat list \<Rightarrow> nat list" where
  "chosen eg pr n bs = take n (filter (takeable eg pr) bs)"

lemma take_blocks_spec:
  assumes "distinct bs" and "\<forall>b \<in> set bs. b < length (blocks pr)"
    and "take_blocks piece sz eg now mx bs (pr, rq, out) = (pr', rq', out')"
  defines "cs \<equiv> chosen eg pr (mx - length out) bs"
  shows "out' = out @ map (block_at piece sz) cs"
    and "length (blocks pr') = length (blocks pr)" and "pdone pr' = pdone pr"
    and "\<forall>b < length (blocks pr). blocks pr' ! b = (if b \<in> set cs then Pending else blocks pr ! b)"
    and "rq' = (\<lambda>k. if k \<in> (\<lambda>b. block_key piece (roffset (block_at piece sz b))) ` set cs then Some now else rq k)"
    and "ppending pr = count_list (blocks pr) Pending \<Longrightarrow> ppending pr' = count_list (blocks pr') Pending"
    and "count_list (blocks pr') Done = count_list (blocks pr) Done"
proof -
  have "out' = out @ map (block_at piece sz) cs \<and> length (blocks pr') = length (blocks pr) \<and> pdone pr' = pdone pr \<and>
    (\<forall>b < length (blocks pr). blocks pr' ! b = (if b \<in> set cs then Pending else blocks pr ! b)) \<and>
    rq' = (\<lambda>k. if k \<in> (\<lambda>b. block_key piece (roffset (block_at piece sz b))) ` set cs then Some now else rq k) \<and>
    (ppending pr = count_list (blocks pr) Pending \<longrightarrow> ppending pr' = count_list (blocks pr') Pending) \<and>
    count_list (blocks pr') Done = count_list (blocks pr) Done"
    using assms(1-3) unfolding cs_def
  proof (induction bs arbitrary: pr rq out)
    case Nil
    then show ?case by (simp add: chosen_def)
  next
    case (Cons b bs)
    consider "mx \<le> length out" | "length out < mx" "\<not> takeable eg pr b" | "length out < mx" "takeable eg pr b"
      by linarith
    then show ?case
    proof cases
      case 1
      then show ?thesis using Cons.prems by (simp add: chosen_def)
    next
      case 2
      then have "take_blocks piece sz eg now mx bs (pr, rq, out) = (pr', rq', out')"
        using Cons.prems(3) by (simp add: takeable_def)
      from Cons.IH [OF _ _ this] Cons.prems(1,2) 2 show ?thesis by (simp add: chosen_def)
    next
      case 3
      define pr1 where "pr1 = (if blocks pr ! b = Free
        then pr\<lparr>blocks := (blocks pr)[b := Pending], ppending := ppending pr + 1\<rparr> else pr)"
      let ?r = "block_at piece sz b"
      let ?rq = "rq(block_key piece (roffset ?r) \<mapsto> now)"
      have step: "take_blocks piece sz eg now mx bs (pr1, ?rq, out @ [?r]) = (pr', rq', out')"
        using Cons.prems(3) 3 by (auto simp: takeable_def pr1_def Let_def)
      have b: "b < length (blocks pr)" "b \<notin> set bs" "distinct bs" using Cons.prems(1,2) by auto
      have len: "length (blocks pr1) = length (blocks pr)" "pdone pr1 = pdone pr" by (simp_all add: pr1_def)
      have nth: "\<forall>c < length (blocks pr). blocks pr1 ! c = (if c = b then Pending else blocks pr ! c)"
        using 3 b by (auto simp: pr1_def takeable_def nth_list_update)
      have "filter (takeable eg pr1) bs = filter (takeable eg pr) bs"
        using nth b Cons.prems(2) by (intro filter_cong) (auto simp: takeable_def)
      then have ch: "chosen eg pr (mx - length out) (b # bs) = b # chosen eg pr1 (mx - length (out @ [?r])) bs"
        using 3 by (simp add: chosen_def take_Cons' Suc_diff_Suc)
      have cnt: "count_list (blocks pr1) Done = count_list (blocks pr) Done"
        "ppending pr = count_list (blocks pr) Pending \<Longrightarrow> ppending pr1 = count_list (blocks pr1) Pending"
        using count_list_update [OF b(1), of Pending Done] count_list_update [OF b(1), of Pending Pending]
        by (cases "blocks pr ! b = Free"; simp add: pr1_def)+
      have "\<forall>c \<in> set bs. c < length (blocks pr1)" using Cons.prems(2) len by simp
      note ih = Cons.IH [OF b(3) this step]
      let ?cs = "chosen eg pr1 (mx - length (out @ [?r])) bs"
      have 1: "out' = out @ map (block_at piece sz) (b # ?cs)" using ih by simp
      have 2: "length (blocks pr') = length (blocks pr) \<and> pdone pr' = pdone pr" using ih len by simp
      have 3: "\<forall>c < length (blocks pr). blocks pr' ! c = (if c \<in> set (b # ?cs) then Pending else blocks pr ! c)"
        using ih len nth by simp
      have 4: "rq' = (\<lambda>k. if k \<in> (\<lambda>b. block_key piece (roffset (block_at piece sz b))) ` set (b # ?cs)
          then Some now else rq k)"
        using ih by (simp add: fun_eq_iff)
      have 5: "ppending pr = count_list (blocks pr) Pending \<longrightarrow> ppending pr' = count_list (blocks pr') Pending"
        "count_list (blocks pr') Done = count_list (blocks pr) Done"
        using ih cnt by simp_all
      show ?thesis unfolding ch using 1 2 3 4 5 by blast
    qed
  qed
  then show "out' = out @ map (block_at piece sz) cs"
    "length (blocks pr') = length (blocks pr)" "pdone pr' = pdone pr"
    "\<forall>b < length (blocks pr). blocks pr' ! b = (if b \<in> set cs then Pending else blocks pr ! b)"
    "rq' = (\<lambda>k. if k \<in> (\<lambda>b. block_key piece (roffset (block_at piece sz b))) ` set cs then Some now else rq k)"
    "ppending pr = count_list (blocks pr) Pending \<Longrightarrow> ppending pr' = count_list (blocks pr') Pending"
    "count_list (blocks pr') Done = count_list (blocks pr) Done"
    by blast+
qed

lemma prog_ok_frame:
  "prog_ok pk p pr \<Longrightarrow> pmeta pk' = pmeta pk \<Longrightarrow> have_bits pk' = have_bits pk \<Longrightarrow>
   (\<And>k. requested pk k \<noteq> None \<Longrightarrow> requested pk' k \<noteq> None) \<Longrightarrow> prog_ok pk' p pr"
  unfolding prog_ok_def have_piece_def by metis

lemma take_from_spec:
  assumes ok: "picker_ok pk" and p: "p < piece_count (pmeta pk)" and h: "\<not> have_piece pk p"
    and st: "take_from eg now mx p (pk, out) = (pk', out')"
  defines "cs \<equiv> chosen eg (progress_for pk p) (mx - length out) [0..<blocks_in_piece (pmeta pk) p]"
  obtains pr' where "pk' = pk\<lparr>progress := (progress pk)(p \<mapsto> pr'), requested := requested pk'\<rparr>"
    and "out' = out @ map (block_at p (size_of_piece (pmeta pk) p)) cs"
    and "\<forall>b < blocks_in_piece (pmeta pk) p. blocks pr' ! b = (if b \<in> set cs then Pending else blocks (progress_for pk p) ! b)"
    and "picker_ok pk'"
proof -
  let ?pr = "progress_for pk p" and ?n = "blocks_in_piece (pmeta pk) p" and ?sz = "size_of_piece (pmeta pk) p"
  have prog: "prog_ok pk p ?pr" by (rule prog_ok_progress_for [OF ok p h])
  then have n: "length (blocks ?pr) = ?n" by (simp add: prog_ok_def)
  obtain pr' rq' where tb: "take_blocks p ?sz eg now mx [0..<?n] (?pr, requested pk, out) = (pr', rq', out')"
    and pk': "pk' = pk\<lparr>progress := (progress pk)(p \<mapsto> pr'), requested := rq'\<rparr>"
    using st n by (auto simp: take_from_def Let_def split: prod.splits)
  have b: "\<forall>b \<in> set [0..<?n]. b < length (blocks ?pr)" using n by simp
  note spec = take_blocks_spec [OF distinct_upt b tb]
  have out: "out' = out @ map (block_at p ?sz) cs" using spec(1) by (simp add: cs_def)
  have nth: "\<forall>b < ?n. blocks pr' ! b = (if b \<in> set cs then Pending else blocks ?pr ! b)"
    using spec(4) n by (simp add: cs_def)
  have rq: "rq' = (\<lambda>k. if k \<in> (\<lambda>b. block_key p (roffset (block_at p ?sz b))) ` set cs then Some now else requested pk k)"
    using spec(5) by (simp add: cs_def)
  then have keep: "\<And>k. requested pk k \<noteq> None \<Longrightarrow> rq' k \<noteq> None" by simp
  have cs: "\<And>b. b \<in> set cs \<Longrightarrow> b < ?n"
    by (auto simp: cs_def chosen_def dest: in_set_takeD)
  have "prog_ok pk' p pr'"
    unfolding prog_ok_def
  proof (intro conjI allI impI)
    show "p < piece_count (pmeta pk')" "\<not> have_piece pk' p" "length (blocks pr') = blocks_in_piece (pmeta pk') p"
      using p h spec(2) n by (simp_all add: pk' have_piece_def)
    show "pdone pr' = count_list (blocks pr') Done" "ppending pr' = count_list (blocks pr') Pending"
      using spec(3,6,7) prog by (simp_all add: prog_ok_def)
    fix b assume b: "b < length (blocks pr')" "blocks pr' ! b = Pending"
    then have bn: "b < ?n" using spec(2) n by simp
    show "requested pk' (block_key p (b * kBlockSize)) \<noteq> None"
    proof (cases "b \<in> set cs")
      case True
      have "roffset (block_at p ?sz b) = b * kBlockSize"
        by (rule block_bounds(3) [OF picker_okD(1) [OF ok] p bn])
      then show ?thesis using True by (force simp: pk' rq)
    next
      case False
      then have "blocks ?pr ! b = Pending" using nth bn b(2) by simp
      then show ?thesis using prog keep n bn by (simp add: pk' prog_ok_def)
    qed
  qed
  moreover have "prog_ok pk' q pr" if "progress pk q = Some pr" for q pr
    by (rule prog_ok_frame [OF picker_okD(7) [OF ok that]]) (use keep in \<open>simp_all add: pk'\<close>)
  moreover have "progress pk' = (progress pk)(p \<mapsto> pr')" by (simp add: pk')
  ultimately have "\<forall>q pr. progress pk' q = Some pr \<longrightarrow> prog_ok pk' q pr" by simp
  moreover have "have_bytes pk' = have_bytes pk" by (simp add: have_bytes_def have_piece_def pk')
  ultimately have "picker_ok pk'"
    using picker_okD(1-6,8) [OF ok] by (simp add: picker_ok_def) (simp add: pk')
  with out nth show thesis using that [of pr'] by (simp add: pk')
qed

subsection \<open>Selections are sound\<close>

definition is_free :: "picker \<Rightarrow> nat \<Rightarrow> nat \<Rightarrow> bool" where
  "is_free pk p b \<longleftrightarrow> (case progress pk p of None \<Rightarrow> True | Some pr \<Rightarrow> blocks pr ! b = Free)"

definition request_ok :: "picker \<Rightarrow> bitfield \<Rightarrow> block_request \<Rightarrow> bool" where
  "request_ok pk peer r \<longleftrightarrow> rpiece r < piece_count (pmeta pk) \<and> bf_get peer (rpiece r) \<and>
     \<not> have_piece pk (rpiece r) \<and> roffset r mod kBlockSize = 0 \<and>
     roffset r < size_of_piece (pmeta pk) (rpiece r) \<and>
     rlength r = min kBlockSize (size_of_piece (pmeta pk) (rpiece r) - roffset r)"

definition request_free :: "picker \<Rightarrow> block_request \<Rightarrow> bool" where
  "request_free pk r \<longleftrightarrow> is_free pk (rpiece r) (roffset r div kBlockSize)"

definition sel_ok :: "picker \<Rightarrow> bitfield \<Rightarrow> bool \<Rightarrow> nat \<Rightarrow> picker \<times> block_request list \<Rightarrow> bool" where
  "sel_ok pk0 peer eg mx st \<longleftrightarrow> (case st of (pk, out) \<Rightarrow>
     picker_ok pk \<and> pmeta pk = pmeta pk0 \<and> have_bits pk = have_bits pk0 \<and> availability pk = availability pk0 \<and>
     length out \<le> mx \<and> (\<forall>r \<in> set out. request_ok pk0 peer r) \<and>
     (\<forall>p b. b < blocks_in_piece (pmeta pk0) p \<longrightarrow> is_free pk p b \<longrightarrow> is_free pk0 p b) \<and>
     (\<not> eg \<longrightarrow> distinct out \<and> (\<forall>r \<in> set out. \<not> request_free pk r \<and> request_free pk0 r)))"

lemma is_free_progress_for:
  "b < blocks_in_piece (pmeta pk) p \<Longrightarrow> is_free pk p b \<longleftrightarrow> blocks (progress_for pk p) ! b = Free"
  by (auto simp: is_free_def progress_for_def fresh_progress_def split: option.splits)

lemma chosen_facts:
  "b \<in> set (chosen eg pr n [0..<k]) \<Longrightarrow> b < k \<and> takeable eg pr b"
  "distinct (chosen eg pr n [0..<k])"
  "length (chosen eg pr n [0..<k]) \<le> n"
  by (auto simp: chosen_def dest: in_set_takeD)

lemma take_from_sel_ok:
  assumes sel: "sel_ok pk0 peer eg mx st"
    and p: "p < piece_count (pmeta pk0)" "bf_get peer p" "\<not> have_piece pk0 p"
  shows "sel_ok pk0 peer eg mx (take_from eg now mx p st)"
proof -
  obtain pk out where st: "st = (pk, out)" by (cases st)
  obtain pk' out' where st': "take_from eg now mx p (pk, out) = (pk', out')" by force
  note S = sel [unfolded sel_ok_def st, simplified]
  have pk: "picker_ok pk" "p < piece_count (pmeta pk)" "\<not> have_piece pk p"
    using S p by (simp_all add: have_piece_def)
  let ?n = "blocks_in_piece (pmeta pk) p" and ?sz = "size_of_piece (pmeta pk) p"
  define cs where "cs = chosen eg (progress_for pk p) (mx - length out) [0..<?n]"
  obtain pr' where T: "pk' = pk\<lparr>progress := (progress pk)(p \<mapsto> pr'), requested := requested pk'\<rparr>"
    "out' = out @ map (block_at p ?sz) cs"
    "\<forall>b < ?n. blocks pr' ! b = (if b \<in> set cs then Pending else blocks (progress_for pk p) ! b)"
    "picker_ok pk'"
    using take_from_spec [OF pk st'] unfolding cs_def by metis
  have meta: "pmeta pk = pmeta pk0" using S by simp
  have eqs: "pmeta pk' = pmeta pk0" "have_bits pk' = have_bits pk0" "availability pk' = availability pk0"
    "progress pk' = (progress pk)(p \<mapsto> pr')"
    using S arg_cong [OF T(1), of pmeta] arg_cong [OF T(1), of have_bits] arg_cong [OF T(1), of availability]
      arg_cong [OF T(1), of progress] by simp_all
  have cs: "\<And>b. b \<in> set cs \<Longrightarrow> b < ?n \<and> takeable eg (progress_for pk p) b" "distinct cs"
    "length cs \<le> mx - length out"
    using chosen_facts unfolding cs_def by blast+
  note bb = block_bounds [OF picker_okD(1) [OF pk(1)] pk(2)]
  have off: "roffset (block_at p ?sz b) = b * kBlockSize" "rpiece (block_at p ?sz b) = p" if "b < ?n" for b
    using bb(3) [OF that] by (simp_all add: block_at_def)
  have bs: "0 < kBlockSize" by (simp add: kBlockSize_def)
  have "length out \<le> mx" using S by blast
  then have len: "length out' \<le> mx" using T(2) cs(3) by simp
  have req: "request_ok pk0 peer r" if r: "r \<in> set out'" for r
  proof (cases "r \<in> set out")
    case True
    then show ?thesis using S by simp
  next
    case False
    then obtain b where b: "b \<in> set cs" "r = block_at p ?sz b" using r T(2) by auto
    have "b < ?n" using cs(1) b(1) by blast
    then show ?thesis
      using bb(1,4) [of b] off [of b] p meta unfolding b(2) by (simp add: request_ok_def)
  qed
  have mono: "is_free pk0 q b" if "b < blocks_in_piece (pmeta pk0) q" "is_free pk' q b" for q b
  proof (cases "q = p")
    case True
    then have "blocks (progress_for pk p) ! b = Free"
      using that T(3) eqs(4) meta by (auto simp: is_free_def split: if_splits)
    then have "is_free pk q b" using that(1) True meta by (simp add: is_free_progress_for)
    then show ?thesis using S that(1) by blast
  next
    case False
    then have "is_free pk q b" using that(2) eqs(4) by (simp add: is_free_def)
    then show ?thesis using S that(1) by blast
  qed
  have fresh: "distinct out' \<and> (\<forall>r \<in> set out'. \<not> request_free pk' r \<and> request_free pk0 r)" if eg: "\<not> eg"
  proof -
    have free: "is_free pk p b" if "b \<in> set cs" for b
      using cs(1) [OF that] eg by (simp add: takeable_def is_free_progress_for)
    have nf: "\<not> is_free pk' p b" if "b \<in> set cs" for b
      using cs(1) [OF that] T(3) that eqs(4) by (simp add: is_free_def)
    have old: "\<not> request_free pk r \<and> request_free pk0 r" "distinct out" if "r \<in> set out" for r
      using S eg that by auto
    have d1: "distinct out" using S eg by simp
    have keep: "\<not> request_free pk' r" if r: "r \<in> set out" for r
    proof (cases "rpiece r = p")
      case False
      then show ?thesis using old(1) [OF r] eqs(4) by (simp add: request_free_def is_free_def)
    next
      case True
      have rk: "request_ok pk0 peer r" using S r by simp
      let ?b = "roffset r div kBlockSize"
      have "?b * kBlockSize = roffset r" using rk by (simp add: request_ok_def mod_eq_0_iff_dvd)
      then have "?b * kBlockSize < ?sz" using rk True meta by (simp add: request_ok_def)
      then have "?b < ?n" by (rule block_index_less [OF picker_okD(1) [OF pk(1)] pk(2)])
      then show ?thesis
        using old(1) [OF r] True T(3) eqs(4) by (simp add: request_free_def is_free_progress_for) (simp add: is_free_def)
    qed
    have rf: "\<not> request_free pk' (block_at p ?sz b)" "request_free pk (block_at p ?sz b)"
      "request_free pk0 (block_at p ?sz b)" if "b \<in> set cs" for b
    proof -
      have b: "b < ?n" using cs(1) that by blast
      have i: "roffset (block_at p ?sz b) div kBlockSize = b" using off(1) [OF b] bs by simp
      show "\<not> request_free pk' (block_at p ?sz b)" "request_free pk (block_at p ?sz b)"
        using nf [OF that] free [OF that] off(2) [OF b] i by (simp_all add: request_free_def)
      then show "request_free pk0 (block_at p ?sz b)"
        using S b meta off(2) [OF b] i by (simp add: request_free_def)
    qed
    have "inj_on (block_at p ?sz) (set cs)"
    proof (rule inj_onI)
      fix b c assume "b \<in> set cs" "c \<in> set cs" "block_at p ?sz b = block_at p ?sz c"
      then have "b * kBlockSize = c * kBlockSize" using off(1) cs(1) by metis
      then show "b = c" using bs by simp
    qed
    then have "distinct (map (block_at p ?sz) cs)" using cs(2) by (simp add: distinct_map)
    moreover have "set out \<inter> set (map (block_at p ?sz) cs) = {}" using old(1) rf(2) by auto
    ultimately show ?thesis using d1 old(1) keep rf unfolding T(2) by auto
  qed
  show ?thesis
    unfolding st st' sel_ok_def prod.case
    using T(4) eqs(1-3) len req mono fresh by blast
qed

lemma pick_begun_sel_ok:
  "sel_ok pk0 peer eg mx st \<Longrightarrow> sel_ok pk0 peer eg mx (pick_begun peer eg now mx order st)"
proof (induction order arbitrary: st)
  case (Cons p ps)
  obtain pk out where st: "st = (pk, out)" by (cases st)
  have ok: "picker_ok pk" "pmeta pk = pmeta pk0" "have_bits pk = have_bits pk0"
    using Cons.prems by (simp_all add: st sel_ok_def)
  show ?case
  proof (cases "progress pk p")
    case (Some prog)
    then have p: "p < piece_count (pmeta pk0)" "\<not> have_piece pk0 p"
      using picker_okD(7) [OF ok(1) Some] ok(2,3) by (simp_all add: prog_ok_def have_piece_def)
    have "bf_get peer p \<Longrightarrow> sel_ok pk0 peer eg mx (take_from eg now mx p (pk, out))"
      using take_from_sel_ok [OF Cons.prems p(1) _ p(2)] st by simp
    then show ?thesis using Cons Some by (auto simp: st)
  qed (use Cons in \<open>auto simp: st\<close>)
qed simp

lemma rarest_Some:
  "rarest pk peer steps w best ba = Some i \<Longrightarrow> 0 < piece_count (pmeta pk) \<Longrightarrow>
   best = Some i \<or> i < piece_count (pmeta pk) \<and> candidate pk peer i"
  by (induction pk peer steps w best ba rule: rarest.induct) (auto simp: Let_def split: if_splits)

lemma pick_rarest_Some:
  "picker_ok pk \<Longrightarrow> pick_rarest pk peer = Some i \<Longrightarrow> i < piece_count (pmeta pk) \<and> candidate pk peer i"
  using rarest_Some [of pk peer "[0..<piece_count (pmeta pk)]" 0 None "0xffff" i] pieces_ok_small picker_okD(1)
  by (auto simp: pick_rarest_def)

lemma sel_ok_cursor:
  assumes "sel_ok pk0 peer eg mx (pk, out)"
  shows "sel_ok pk0 peer eg mx (pk\<lparr>pick_cursor := c mod piece_count (pmeta pk)\<rparr>, out)"
proof -
  have ok: "picker_ok pk" using assms by (simp add: sel_ok_def)
  then have "0 < piece_count (pmeta pk)" using pieces_ok_small picker_okD(1) by blast
  then have "picker_ok (pk\<lparr>pick_cursor := c mod piece_count (pmeta pk)\<rparr>)"
    using ok by (simp add: picker_ok_def prog_ok_def have_bytes_def have_piece_def)
  then show ?thesis using assms by (simp add: sel_ok_def is_free_def request_free_def)
qed

lemma pick_new_sel_ok:
  "sel_ok pk0 peer eg mx (pk, out) \<Longrightarrow> sel_ok pk0 peer eg mx (pick_new peer eg now mx pk out)"
proof (induction peer eg now mx pk out rule: pick_new.induct)
  case (1 peer eg now mx pk out)
  show ?case
  proof (cases "mx \<le> length out")
    case True
    then show ?thesis using "1.prems" by (simp add: pick_new.simps)
  next
    case False
    show ?thesis
    proof (cases "pick_rarest pk peer")
      case None
      then show ?thesis using "1.prems" False by (simp add: pick_new.simps)
    next
      case (Some best)
      let ?c = "pk\<lparr>pick_cursor := u32 (best + 1) mod piece_count (pmeta pk)\<rparr>"
      let ?st = "take_from eg now mx best (?c, out)"
      have ok: "picker_ok pk" "pmeta pk = pmeta pk0" "have_bits pk = have_bits pk0"
        using "1.prems" by (simp_all add: sel_ok_def)
      have b: "best < piece_count (pmeta pk0)" "bf_get peer best" "\<not> have_piece pk0 best"
        using pick_rarest_Some [OF ok(1) Some] ok(2,3) by (simp_all add: candidate_def have_piece_def)
      have sel: "sel_ok pk0 peer eg mx ?st"
        by (rule take_from_sel_ok [OF sel_ok_cursor [OF "1.prems"] b])
      have "length (snd ?st) \<noteq> length out \<Longrightarrow> sel_ok pk0 peer eg mx (pick_new peer eg now mx (fst ?st) (snd ?st))"
        by (rule "1.IH" [OF False Some refl]) (use sel in simp_all)
      then show ?thesis
        using sel False Some by (simp add: pick_new.simps [of peer eg now mx pk out] Let_def)
    qed
  qed
qed

lemma sel_ok_start: "picker_ok pk \<Longrightarrow> sel_ok pk peer eg mx (pk, [])"
  by (simp add: sel_ok_def)

lemma pick_sel_ok: "picker_ok pk \<Longrightarrow> sel_ok pk peer (endgame pk) mx (pick pk order peer mx now)"
  using pick_begun_sel_ok [OF sel_ok_start, of pk peer "endgame pk" mx now order]
  by (auto simp: pick_def sel_ok_start Let_def split: prod.splits intro: pick_new_sel_ok)

subsection \<open>Selections make progress\<close>






lemma rarest_keeps: "best \<noteq> None \<Longrightarrow> rarest pk peer steps w best ba \<noteq> None"
  by (induction pk peer steps w best ba rule: rarest.induct) (auto simp: Let_def)

lemma rarest_finds:
  assumes "step \<in> set steps" and "candidate pk peer (u32 (pick_cursor pk + step) mod piece_count (pmeta pk))"
    and "\<forall>i < piece_count (pmeta pk). availability pk ! i < 0xffff" and "w < kRarestSample"
    and "0 < piece_count (pmeta pk)"
  shows "rarest pk peer steps w None 0xffff \<noteq> None"
  using assms(1)
proof (induction steps)
  case (Cons s ss)
  let ?i = "u32 (pick_cursor pk + s) mod piece_count (pmeta pk)"
  have "availability pk ! ?i < 0xffff" using assms(3,5) by simp
  then show ?case
    using Cons assms(2,4) rarest_keeps [of "Some ?i"] by (auto simp: Let_def)
qed simp

lemma pick_rarest_finds:
  assumes ok: "picker_ok pk" and i: "i < piece_count (pmeta pk)" "candidate pk peer i"
    and av: "\<forall>i < piece_count (pmeta pk). availability pk ! i < 0xffff"
  shows "pick_rarest pk peer \<noteq> None"
proof -
  let ?n = "piece_count (pmeta pk)" and ?c = "pick_cursor pk"
  have n: "0 < ?n" "?n < 2 ^ 22" using pieces_ok_small picker_okD(1) [OF ok] by blast+
  have c: "?c < ?n" using picker_okD(6) [OF ok] .
  define step where "step = (i + ?n - ?c) mod ?n"
  have "step < ?n" using n by (simp add: step_def)
  moreover have "u32 (?c + step) = ?c + step" using c n \<open>step < ?n\<close> by (intro u32_id) simp
  moreover have "(?c + step) mod ?n = i"
  proof -
    have "(?c + step) mod ?n = (?c + (i + ?n - ?c)) mod ?n" by (simp add: step_def mod_simps)
    also have "?c + (i + ?n - ?c) = i + ?n" using c by simp
    finally show ?thesis using i(1) by simp
  qed
  ultimately show ?thesis
    unfolding pick_rarest_def using i(2) av n
    by (intro rarest_finds [of step]) (simp_all add: kRarestSample_def)
qed




subsection \<open>The other operations keep the invariant\<close>

lemma have_set:
  "picker_ok pk \<Longrightarrow> bf_get (bf_set (have_bits pk) piece True) i \<longleftrightarrow>
     i = piece \<and> piece < piece_count (pmeta pk) \<or> have_piece pk i"
  using bfs.mem_add [OF picker_okD(2), of pk piece i] picker_okD(3) by (simp add: have_piece_def)

lemma have_bytes_le:
  assumes "pieces_ok (pmeta pk)" and "bits (have_bits pk) = piece_count (pmeta pk)"
  shows "have_bytes pk \<le> total_size (pmeta pk)"
proof -
  have "{i. have_piece pk i} \<subseteq> {..<piece_count (pmeta pk)}"
    using bf_get_range [of "have_bits pk"] assms(2) by (auto simp: have_piece_def)
  then have "have_bytes pk \<le> (\<Sum>i \<in> {..<piece_count (pmeta pk)}. size_of_piece (pmeta pk) i)"
    unfolding have_bytes_def by (intro sum_mono2) auto
  also have "\<dots> = (\<Sum>i\<leftarrow>[0..<piece_count (pmeta pk)]. size_of_piece (pmeta pk) i)"
    by (simp add: sum_list_distinct_conv_sum_set atLeast0LessThan)
  finally show ?thesis using sum_size_of_piece [OF assms(1)] by simp
qed

lemma set_have_ok:
  assumes ok: "picker_ok pk"
  shows "picker_ok (set_have piece pk)"
proof (cases "piece_count (pmeta pk) \<le> piece \<or> have_piece pk piece")
  case True
  then show ?thesis using ok by (simp add: set_have_def)
next
  case False
  define pk' where "pk' = set_have piece pk"
  have pk': "pmeta pk' = pmeta pk" "have_bits pk' = bf_set (have_bits pk) piece True"
    "bytes_done pk' = u64 (bytes_done pk + size_of_piece (pmeta pk) piece)"
    "progress pk' = (progress pk)(piece := None)" "availability pk' = availability pk"
    "requested pk' = requested pk" "pick_cursor pk' = pick_cursor pk"
    using False by (simp_all add: pk'_def set_have_def)
  have h: "have_piece pk' i \<longleftrightarrow> i = piece \<or> have_piece pk i" for i
    using have_set [OF ok, of piece i] False by (auto simp: have_piece_def pk')
  have "{i. have_piece pk' i} = insert piece {i. have_piece pk i}" using h by auto
  moreover have "finite {i. have_piece pk i}" by (simp add: have_piece_def)
  ultimately have hb: "have_bytes pk' = have_bytes pk + size_of_piece (pmeta pk) piece"
    using False by (simp add: have_bytes_def pk')
  have bok: "bf_ok (have_bits pk')" "bits (have_bits pk') = piece_count (pmeta pk')"
    using picker_okD(2,3) [OF ok] by (simp_all add: pk' bf_ok_set)
  have le: "have_bytes pk' \<le> total_size (pmeta pk)"
    using have_bytes_le [of pk'] picker_okD(1) [OF ok] bok(2) by (simp add: pk')
  have "bytes_done pk' = have_bytes pk'"
    using le hb pieces_ok_total [OF picker_okD(1) [OF ok]] picker_okD(5) [OF ok]
    by (simp add: pk'(3)) (rule u64_id, simp)
  moreover have "prog_ok pk' p pr" if "progress pk' p = Some pr" for p pr
    using that picker_okD(7) [OF ok, of p pr] h by (auto simp: prog_ok_def pk' split: if_splits)
  ultimately have "picker_ok pk'"
    using picker_okD(1,4,6,8) [OF ok] bok by (simp add: picker_ok_def pk')
  then show ?thesis by (simp add: pk'_def)
qed

lemma fold_av:
  assumes "\<And>i av. length (f i av) = length av" and "\<And>i av. \<forall>a \<in> set av. a \<le> m \<Longrightarrow> i < length av \<Longrightarrow> \<forall>a \<in> set (f i av). a \<le> m"
    and "\<forall>i \<in> set is. i < length av" and "\<forall>a \<in> set av. a \<le> (m :: nat)"
  shows "length (fold f is av) = length av \<and> (\<forall>a \<in> set (fold f is av). a \<le> m)"
  using assms(3,4)
proof (induction "is" arbitrary: av)
  case (Cons i "is")
  have "length (f i av) = length av" by (rule assms(1))
  moreover have "\<forall>a \<in> set (f i av). a \<le> m"
    by (rule assms(2)) (use Cons.prems in auto)
  ultimately show ?case using Cons.IH [of "f i av"] Cons.prems(1) by simp
qed simp

lemma picker_ok_availability:
  "picker_ok pk \<Longrightarrow> length av = length (availability pk) \<Longrightarrow> \<forall>a \<in> set av. a \<le> 0xffff \<Longrightarrow>
   picker_ok (pk\<lparr>availability := av\<rparr>)"
  by (simp add: picker_ok_def prog_ok_def have_piece_def have_bytes_def)

lemma peer_added_ok:
  assumes "picker_ok pk"
  shows "picker_ok (peer_added pieces pk)"
proof -
  let ?f = "\<lambda>i (av :: nat list). if bf_get pieces i then av[i := bump (av ! i)] else av"
  have "length (fold ?f [0..<min (bits pieces) (piece_count (pmeta pk))] (availability pk)) = length (availability pk) \<and>
    (\<forall>a \<in> set (fold ?f [0..<min (bits pieces) (piece_count (pmeta pk))] (availability pk)). a \<le> 0xffff)"
    by (rule fold_av) (use picker_okD(4,8) [OF assms] in
      \<open>auto simp: bump_def dest!: subsetD [OF set_update_subset_insert]\<close>)
  then show ?thesis using assms by (simp add: peer_added_def Let_def picker_ok_availability)
qed

lemma peer_removed_ok:
  assumes "picker_ok pk"
  shows "picker_ok (peer_removed pieces pk)"
proof -
  let ?f = "\<lambda>i (av :: nat list). if bf_get pieces i \<and> 0 < av ! i then av[i := av ! i - 1] else av"
  have "length (fold ?f [0..<min (bits pieces) (piece_count (pmeta pk))] (availability pk)) = length (availability pk) \<and>
    (\<forall>a \<in> set (fold ?f [0..<min (bits pieces) (piece_count (pmeta pk))] (availability pk)). a \<le> 0xffff)"
  proof (rule fold_av)
    fix i and av :: "nat list"
    assume "\<forall>a \<in> set av. a \<le> 0xffff" "i < length av"
    then show "\<forall>a \<in> set (?f i av). a \<le> 0xffff"
      by (auto dest!: subsetD [OF set_update_subset_insert] intro: le_trans [OF diff_le_self])
  qed (use picker_okD(4,8) [OF assms] in auto)
  then show ?thesis using assms by (simp add: peer_removed_def Let_def picker_ok_availability)
qed

lemma peer_has_ok: "picker_ok pk \<Longrightarrow> picker_ok (peer_has piece pk)"
  using picker_okD(8) [of pk]
  by (auto simp: peer_has_def bump_def intro!: picker_ok_availability dest!: subsetD [OF set_update_subset_insert])

lemma block_key_inj:
  "block_key q a = block_key p c \<Longrightarrow> a < 2 ^ 32 \<Longrightarrow> c < 2 ^ 32 \<Longrightarrow> q = p \<and> a = c"
proof -
  assume k: "block_key q a = block_key p c" and a: "a < 2 ^ 32" and c: "c < 2 ^ 32"
  have "block_key q a div 2 ^ 32 = q" "block_key p c div 2 ^ 32 = p"
    using a c by (simp_all add: block_key_def)
  with k show ?thesis by (simp add: block_key_def)
qed

lemma pending_key:
  assumes ok: "picker_ok pk" and pr: "progress pk q = Some pr" and b: "b < length (blocks pr)"
    and off: "off < 2 ^ 32" and k: "block_key q (b * kBlockSize) = block_key p off"
  shows "q = p \<and> b = off div kBlockSize"
proof -
  have q: "q < piece_count (pmeta pk)" "b < blocks_in_piece (pmeta pk) q"
    using picker_okD(7) [OF ok pr] b by (simp_all add: prog_ok_def)
  have "b * kBlockSize < size_of_piece (pmeta pk) q" by (rule block_bounds(1) [OF picker_okD(1) [OF ok] q])
  moreover have "size_of_piece (pmeta pk) q \<le> 2 ^ 28"
    using size_of_piece_bounds [OF picker_okD(1) [OF ok] q(1)] picker_okD(1) [OF ok]
    by (auto simp: pieces_ok_def)
  ultimately have "b * kBlockSize < 2 ^ 32" by simp
  from block_key_inj [OF k this off] show ?thesis by (auto simp: kBlockSize_def)
qed

lemma picker_ok_unrequest:
  assumes ok: "picker_ok pk" and off: "off < 2 ^ 32"
    and gone: "\<And>pr. progress pk p = Some pr \<Longrightarrow> off div kBlockSize < length (blocks pr) \<Longrightarrow>
      blocks pr ! (off div kBlockSize) \<noteq> Pending"
  shows "picker_ok (pk\<lparr>requested := (requested pk)(block_key p off := None)\<rparr>)"
proof -
  let ?pk = "pk\<lparr>requested := (requested pk)(block_key p off := None)\<rparr>"
  have "prog_ok ?pk q pr" if q: "progress pk q = Some pr" for q pr
  proof -
    have base: "prog_ok pk q pr" by (rule picker_okD(7) [OF ok q])
    have "block_key q (b * kBlockSize) \<noteq> block_key p off"
      if b: "b < length (blocks pr)" "blocks pr ! b = Pending" for b
    proof
      assume "block_key q (b * kBlockSize) = block_key p off"
      from pending_key [OF ok q b(1) off this] gone q b show False by auto
    qed
    with base show ?thesis by (simp add: prog_ok_def have_piece_def)
  qed
  then show ?thesis using ok by (simp add: picker_ok_def have_bytes_def have_piece_def)
qed

text \<open>One block leaves the pending state and its request is forgotten.\<close>

lemma picker_ok_settle:
  assumes ok: "picker_ok pk" and pr: "progress pk p = Some pr" and off: "off < 2 ^ 32"
    and i: "off div kBlockSize < length (blocks pr)" and s: "s \<noteq> Pending"
    and b: "blocks pr' = (blocks pr)[off div kBlockSize := s]"
    and d: "pdone pr' = count_list (blocks pr') Done" and pd: "ppending pr' = count_list (blocks pr') Pending"
  shows "picker_ok (pk\<lparr>requested := (requested pk)(block_key p off := None), progress := (progress pk)(p \<mapsto> pr')\<rparr>)"
proof -
  have base: "prog_ok pk p pr" by (rule picker_okD(7) [OF ok pr])
  then have "prog_ok pk p pr'"
    using b d pd s i by (auto simp: prog_ok_def nth_list_update)
  then have "picker_ok (pk\<lparr>progress := (progress pk)(p \<mapsto> pr')\<rparr>)" by (rule picker_ok_progress [OF ok])
  from picker_ok_unrequest [OF this off, of p]
  have "picker_ok (pk\<lparr>progress := (progress pk)(p \<mapsto> pr'), requested := (requested pk)(block_key p off := None)\<rparr>)"
    using b s i by simp
  then show ?thesis by (cases pk) simp
qed

lemma on_block_received_ok:
  assumes ok: "picker_ok pk" and off: "off < 2 ^ 32"
  shows "picker_ok (fst (on_block_received piece off pk))"
proof -
  let ?i = "off div kBlockSize"
  consider "fst (on_block_received piece off pk) = pk"
    | prog where "progress pk piece = Some prog" "?i < length (blocks prog)" "blocks prog ! ?i = Done"
        "fst (on_block_received piece off pk) = pk\<lparr>requested := (requested pk)(block_key piece off := None)\<rparr>"
    | prog prog' where "progress pk piece = Some prog" "?i < length (blocks prog)" "blocks prog ! ?i \<noteq> Done"
        "prog' = (if blocks prog ! ?i = Pending \<and> 0 < ppending prog
          then prog\<lparr>ppending := ppending prog - 1\<rparr> else prog)\<lparr>blocks := (blocks prog)[?i := Done], pdone := pdone prog + 1\<rparr>"
        "fst (on_block_received piece off pk) =
          pk\<lparr>requested := (requested pk)(block_key piece off := None), progress := (progress pk)(piece \<mapsto> prog')\<rparr>"
  proof (cases "piece_count (pmeta pk) \<le> piece \<or> have_piece pk piece \<or> off mod kBlockSize \<noteq> 0 \<or> progress pk piece = None")
    case True
    then show ?thesis using that(1) by (auto simp: on_block_received_def)
  next
    case False
    then obtain prog where prog: "progress pk piece = Some prog" by auto
    let ?prog' = "(if blocks prog ! ?i = Pending \<and> 0 < ppending prog
          then prog\<lparr>ppending := ppending prog - 1\<rparr> else prog)\<lparr>blocks := (blocks prog)[?i := Done], pdone := pdone prog + 1\<rparr>"
    consider "length (blocks prog) \<le> ?i" | "?i < length (blocks prog)" "blocks prog ! ?i = Done"
      | "?i < length (blocks prog)" "blocks prog ! ?i \<noteq> Done" by linarith
    then show ?thesis
    proof cases
      case 1
      then show ?thesis using False prog that(1) by (simp add: on_block_received_def)
    next
      case 2
      then show ?thesis using False prog that(2) by (simp add: on_block_received_def)
    next
      case 3
      then have "blocks (if blocks prog ! ?i = Pending \<and> 0 < ppending prog
          then prog\<lparr>ppending := ppending prog - 1\<rparr> else prog) = blocks prog" by simp
      then have "fst (on_block_received piece off pk) =
          pk\<lparr>requested := (requested pk)(block_key piece off := None), progress := (progress pk)(piece \<mapsto> ?prog')\<rparr>"
        using False prog 3 by (simp add: on_block_received_def Let_def)
      then show ?thesis using that(3) [OF prog 3 refl] by blast
    qed
  qed
  then show ?thesis
  proof cases
    case (2 prog)
    then show ?thesis using picker_ok_unrequest [OF ok off, of piece] by simp
  next
    case (3 prog prog')
    note base = picker_okD(7) [OF ok 3(1), unfolded prog_ok_def]
    have "pdone prog' = count_list (blocks prog') Done" "ppending prog' = count_list (blocks prog') Pending"
      using base count_list_update [OF 3(2), of Done Done] count_list_update [OF 3(2), of Done Pending] 3(3)
      by (auto simp: 3(4) split: if_splits)
    then show ?thesis
      unfolding 3(5) by (intro picker_ok_settle [OF ok 3(1) off 3(2), of Done]) (simp_all add: 3(4))
  qed (simp add: ok)
qed

lemma free_block_ok:
  assumes ok: "picker_ok pk" and off: "off < 2 ^ 32"
  shows "picker_ok (free_block piece off (pk\<lparr>requested := (requested pk)(block_key piece off := None)\<rparr>))"
proof -
  let ?i = "off div kBlockSize"
  let ?pk = "pk\<lparr>requested := (requested pk)(block_key piece off := None)\<rparr>"
  show ?thesis
  proof (cases "\<exists>prog. progress pk piece = Some prog \<and> ?i < length (blocks prog) \<and> blocks prog ! ?i = Pending")
    case False
    then have "free_block piece off ?pk = ?pk" by (auto simp: free_block_def Let_def split: option.splits)
    then show ?thesis using False picker_ok_unrequest [OF ok off, of piece] by auto
  next
    case True
    then obtain prog where prog: "progress pk piece = Some prog" "?i < length (blocks prog)" "blocks prog ! ?i = Pending"
      by blast
    let ?prog = "prog\<lparr>blocks := (blocks prog)[?i := Free],
      ppending := (if 0 < ppending prog then ppending prog - 1 else ppending prog)\<rparr>"
    note base = picker_okD(7) [OF ok prog(1), unfolded prog_ok_def]
    have "pdone ?prog = count_list (blocks ?prog) Done" "ppending ?prog = count_list (blocks ?prog) Pending"
      using base count_list_update [OF prog(2), of Free Done] count_list_update [OF prog(2), of Free Pending] prog(3)
      by auto
    from picker_ok_settle [OF ok prog(1) off prog(2) _ _ this, of Free]
    have "picker_ok (?pk\<lparr>progress := (progress ?pk)(piece \<mapsto> ?prog)\<rparr>)" by simp
    moreover have "free_block piece off ?pk = ?pk\<lparr>progress := (progress ?pk)(piece \<mapsto> ?prog)\<rparr>"
      using prog by (simp add: free_block_def)
    ultimately show ?thesis by (simp only:)
  qed
qed

lemma on_piece_verified_ok:
  assumes ok: "picker_ok pk"
  shows "picker_ok (on_piece_verified piece good_hash pk)"
proof (cases good_hash)
  case True
  then show ?thesis using set_have_ok [OF ok] by (simp add: on_piece_verified_def)
next
  case False
  define pk' where "pk' = on_piece_verified piece good_hash pk"
  define pr' where "pr' = map_option (\<lambda>prog. \<lparr>blocks = replicate (length (blocks prog)) Free, pdone = 0, ppending = 0\<rparr>) (progress pk piece)"
  have pk'': "pk' = pk\<lparr>progress := (progress pk)(piece := pr'), requested := (\<lambda>k. if k div 2 ^ 32 = piece then None else requested pk k)\<rparr>"
    unfolding pk'_def on_piece_verified_def Let_def pr'_def using False
    by (cases "progress pk piece") (simp_all add: fun_upd_idem cong: if_cong)
  have pk': "pmeta pk' = pmeta pk" "have_bits pk' = have_bits pk" "availability pk' = availability pk"
    "bytes_done pk' = bytes_done pk" "pick_cursor pk' = pick_cursor pk"
    "requested pk' = (\<lambda>k. if k div 2 ^ 32 = piece then None else requested pk k)"
    "progress pk' = (progress pk)(piece := pr')"
    unfolding pk'' by simp_all
  have key: "block_key q (b * kBlockSize) div 2 ^ 32 = q"
    if "progress pk q = Some pr" "b < length (blocks pr)" for q pr b
  proof -
    have q: "q < piece_count (pmeta pk)" "b < blocks_in_piece (pmeta pk) q"
      using picker_okD(7) [OF ok that(1)] that(2) by (simp_all add: prog_ok_def)
    have "b * kBlockSize < size_of_piece (pmeta pk) q" by (rule block_bounds(1) [OF picker_okD(1) [OF ok] q])
    moreover have "size_of_piece (pmeta pk) q \<le> 2 ^ 28"
      using size_of_piece_bounds [OF picker_okD(1) [OF ok] q(1)] picker_okD(1) [OF ok]
      by (auto simp: pieces_ok_def)
    ultimately show ?thesis by (simp add: block_key_def)
  qed
  have "prog_ok pk' q pr" if qpr: "progress pk' q = Some pr" for q pr
  proof (cases "q = piece")
    case True
    then obtain prog where prog: "progress pk q = Some prog"
      "pr = \<lparr>blocks = replicate (length (blocks prog)) Free, pdone = 0, ppending = 0\<rparr>"
      using qpr by (auto simp: pk' pr'_def)
    then show ?thesis using picker_okD(7) [OF ok prog(1)] pk'
      by (simp add: prog_ok_def have_piece_def count_list_replicate)
  next
    case q: False
    then have p: "progress pk q = Some pr" using qpr by (simp add: pk')
    then show ?thesis using picker_okD(7) [OF ok p] key [OF p] pk' q
      by (simp add: prog_ok_def have_piece_def)
  qed
  moreover have "have_bytes pk' = have_bytes pk" by (simp add: have_bytes_def have_piece_def pk')
  ultimately have "picker_ok pk'"
    using picker_okD(1-6,8) [OF ok] by (simp add: picker_ok_def pk'(1-5))
  then show ?thesis by (simp add: pk'_def)
qed

lemma expire_one_ok:
  assumes "picker_ok (fst st)"
  shows "picker_ok (fst (expire_one now timeout k st))"
proof -
  have "block_key (k div 2 ^ 32) (k mod 2 ^ 32) = k" by (simp add: block_key_def)
  with free_block_ok [OF assms, of "k mod 2 ^ 32" "k div 2 ^ 32"] assms show ?thesis
    by (auto simp: expire_one_def split: option.splits)
qed

lemma expire_requests_ok: "picker_ok pk \<Longrightarrow> picker_ok (fst (expire_requests order now timeout pk))"
proof -
  have "picker_ok (fst st) \<Longrightarrow> picker_ok (fst (fold (expire_one now timeout) order st))" for st
    by (induction order arbitrary: st) (simp_all add: expire_one_ok)
  then show "picker_ok pk \<Longrightarrow> ?thesis" by (simp add: expire_requests_def)
qed

lemma requested_free_block: "requested (free_block p off pk) = requested pk"
  by (simp add: free_block_def Let_def split: option.splits)

lemma expire_one_requested:
  "requested (fst (expire_one now timeout k st)) =
     (if \<exists>t. requested (fst st) k = Some t \<and> \<not> sub64 now t < timeout then (requested (fst st))(k := None)
      else requested (fst st))"
  by (auto simp: expire_one_def requested_free_block split: option.splits)

lemma expire_keeps:
  "requested (fst (fold (expire_one now timeout) order st)) k = Some t \<Longrightarrow> requested (fst st) k = Some t"
proof (induction order arbitrary: st)
  case (Cons a as)
  then have "requested (fst (expire_one now timeout a st)) k = Some t" by simp
  then show ?case by (auto simp: expire_one_requested split: if_splits)
qed simp

lemma expire_requests_requested:
  "requested (fst (expire_requests order now timeout pk)) k = Some t \<Longrightarrow> requested pk k = Some t"
  using expire_keeps [of now timeout order "(pk, 0)" k t] by (simp add: expire_requests_def)

lemma expire_requests_fresh:
  assumes "k \<in> set order" and "requested (fst (expire_requests order now timeout pk)) k = Some t"
  shows "sub64 now t < timeout"
proof -
  have "k \<in> set order \<Longrightarrow> requested (fst (fold (expire_one now timeout) order st)) k = Some t \<Longrightarrow> sub64 now t < timeout"
    for order and st :: "picker \<times> nat"
  proof (induction order arbitrary: st)
    case (Cons a as)
    have "requested (fst (expire_one now timeout a st)) k = Some t"
      using expire_keeps [of now timeout as "expire_one now timeout a st" k t] Cons.prems(2) by simp
    then show ?case
      using Cons by (cases "a = k") (auto simp: expire_one_requested split: if_splits)
  qed simp
  then show ?thesis using assms by (simp add: expire_requests_def)
qed

subsection \<open>The picker as a state machine\<close>

text \<open>The calls of \<open>source/bt/session.cpp\<close>, with 32-bit offsets and any iteration order.\<close>

inductive picker_step :: "picker \<Rightarrow> picker \<Rightarrow> bool" where
  step_have: "picker_step pk (set_have i pk)"
| step_added: "picker_step pk (peer_added peer pk)"
| step_removed: "picker_step pk (peer_removed peer pk)"
| step_has: "picker_step pk (peer_has i pk)"
| step_pick: "picker_step pk (fst (pick pk order peer mx now))"
| step_received: "off < 2 ^ 32 \<Longrightarrow> picker_step pk (fst (on_block_received i off pk))"
| step_dropped: "off < 2 ^ 32 \<Longrightarrow> picker_step pk (on_request_dropped i off pk)"
| step_verified: "picker_step pk (on_piece_verified i good_hash pk)"
| step_expire: "picker_step pk (fst (expire_requests order now timeout pk))"

inductive picker_reach :: "metainfo \<Rightarrow> picker \<Rightarrow> bool" for m where
  reach_init: "picker_reach m (picker_init m)"
| reach_step: "picker_reach m pk \<Longrightarrow> picker_step pk pk' \<Longrightarrow> picker_reach m pk'"

lemma pmeta_free_block [simp]: "pmeta (free_block i off pk) = pmeta pk"
  by (simp add: free_block_def Let_def split: option.splits)

lemma pmeta_set_have [simp]: "pmeta (set_have i pk) = pmeta pk"
  by (simp add: set_have_def)

lemma pmeta_expire: "pmeta (fst (fold (expire_one now timeout) order st)) = pmeta (fst st)"
proof (induction order arbitrary: st)
  case (Cons k ks)
  have "pmeta (fst (expire_one now timeout k st)) = pmeta (fst st)"
    by (simp add: expire_one_def split: option.splits)
  then show ?case using Cons by simp
qed simp

lemma pmeta_availability [simp]:
  "pmeta (peer_added peer pk) = pmeta pk" "pmeta (peer_removed peer pk) = pmeta pk" "pmeta (peer_has i pk) = pmeta pk"
  by (simp_all add: peer_added_def peer_removed_def peer_has_def Let_def)

lemma pmeta_received [simp]: "pmeta (fst (on_block_received i off pk)) = pmeta pk"
  by (simp add: on_block_received_def Let_def split: option.splits)

lemma picker_step_ok:
  assumes "picker_step pk pk'" and ok: "picker_ok pk"
  shows "picker_ok pk' \<and> pmeta pk' = pmeta pk"
  using assms(1)
proof cases
  case (step_pick order peer mx now)
  then show ?thesis using pick_sel_ok [OF ok, of peer mx order now]
    by (auto simp: sel_ok_def split: prod.splits)
next
  case (step_dropped off i)
  then show ?thesis using free_block_ok [OF ok] by (simp add: on_request_dropped_def)
next
  case (step_verified i good_hash)
  then show ?thesis using on_piece_verified_ok [OF ok, of i good_hash]
    by (auto simp: on_piece_verified_def Let_def split: option.splits)
next
  case (step_expire order now timeout)
  then show ?thesis using expire_requests_ok [OF ok] pmeta_expire [of now timeout order "(pk, 0)"]
    by (simp add: expire_requests_def)
qed (use ok in \<open>simp_all add: set_have_ok peer_added_ok peer_removed_ok peer_has_ok on_block_received_ok\<close>)

lemma picker_reach_ok:
  assumes "picker_reach m pk" and "pieces_ok m"
  shows "picker_ok pk \<and> pmeta pk = m"
  using assms(1)
proof induction
  case reach_init
  then show ?case using picker_ok_init [OF assms(2)] by (simp add: picker_init_def)
next
  case (reach_step pk pk')
  then show ?case using picker_step_ok by metis
qed

lemma have_bytes_list:
  assumes "picker_ok pk"
  shows "have_bytes pk = (\<Sum>i\<leftarrow>filter (have_piece pk) [0..<piece_count (pmeta pk)]. size_of_piece (pmeta pk) i)"
proof -
  have "set (filter (have_piece pk) [0..<piece_count (pmeta pk)]) = {i. have_piece pk i}"
    using bf_get_range [of "have_bits pk"] picker_okD(3) [OF assms] by (auto simp: have_piece_def)
  moreover have "distinct (filter (have_piece pk) [0..<piece_count (pmeta pk)])" by simp
  ultimately show ?thesis unfolding have_bytes_def
    by (metis sum_list_distinct_conv_sum_set)
qed

lemma complete_iff_bytes:
  assumes ok: "picker_ok pk"
  shows "is_complete pk \<longleftrightarrow> bytes_done pk = total_size (pmeta pk)"
proof -
  let ?n = "piece_count (pmeta pk)"
  have n: "0 < ?n" using pieces_ok_small picker_okD(1) [OF ok] by blast
  have c: "is_complete pk \<longleftrightarrow> (\<forall>i < ?n. have_piece pk i)"
    using bf_full_iff [OF picker_okD(2) [OF ok]] picker_okD(3) [OF ok] n by (simp add: is_complete_def have_piece_def)
  have sub: "{i. have_piece pk i} \<subseteq> {..<?n}"
    using bf_get_range [of "have_bits pk"] picker_okD(3) [OF ok] by (auto simp: have_piece_def)
  have tot: "(\<Sum>i \<in> {..<?n}. size_of_piece (pmeta pk) i) = total_size (pmeta pk)"
    using sum_size_of_piece [OF picker_okD(1) [OF ok]]
    by (simp add: sum_list_distinct_conv_sum_set atLeast0LessThan)
  have bd: "bytes_done pk = (\<Sum>i | have_piece pk i. size_of_piece (pmeta pk) i)"
    using picker_okD(5) [OF ok] by (simp add: have_bytes_def)
  show ?thesis
  proof
    assume "is_complete pk"
    then have "{i. have_piece pk i} = {..<?n}" using c sub by auto
    then show "bytes_done pk = total_size (pmeta pk)" using bd tot by simp
  next
    assume e: "bytes_done pk = total_size (pmeta pk)"
    have "have_piece pk i" if i: "i < ?n" for i
    proof (rule ccontr)
      assume "\<not> have_piece pk i"
      then have "{i. have_piece pk i} \<subset> {..<?n}" using sub i by auto
      moreover have "0 < size_of_piece (pmeta pk) i" using size_of_piece_bounds [OF picker_okD(1) [OF ok] i] by simp
      ultimately have "(\<Sum>i | have_piece pk i. size_of_piece (pmeta pk) i) < (\<Sum>i \<in> {..<?n}. size_of_piece (pmeta pk) i)"
        using i \<open>\<not> have_piece pk i\<close> by (intro sum_strict_mono2 [of _ _ i]) auto
      then show False using e bd tot by simp
    qed
    then show "is_complete pk" using c by simp
  qed
qed

lemma on_block_received_done:
  assumes ok: "picker_ok pk" and r: "snd (on_block_received piece off pk)"
  shows "\<exists>prog prog'. progress pk piece = Some prog \<and> off div kBlockSize < length (blocks prog) \<and>
    blocks prog ! (off div kBlockSize) \<noteq> Done \<and> progress (fst (on_block_received piece off pk)) piece = Some prog' \<and>
    length (blocks prog') = blocks_in_piece (pmeta pk) piece \<and> list_all (\<lambda>b. b = Done) (blocks prog')"
proof -
  let ?i = "off div kBlockSize"
  from r obtain prog where prog: "progress pk piece = Some prog"
    and c: "\<not> (piece_count (pmeta pk) \<le> piece \<or> have_piece pk piece)" "off mod kBlockSize = 0"
      "?i < length (blocks prog)" "blocks prog ! ?i \<noteq> Done"
    by (auto simp: on_block_received_def Let_def split: option.splits if_splits)
  note base = picker_okD(7) [OF ok prog, unfolded prog_ok_def]
  let ?bs = "(blocks prog)[?i := Done]"
  define prog' where "prog' = (if blocks prog ! ?i = Pending \<and> 0 < ppending prog
        then prog\<lparr>ppending := ppending prog - 1\<rparr> else prog)\<lparr>blocks := ?bs, pdone := pdone prog + 1\<rparr>"
  have res: "on_block_received piece off pk =
      (pk\<lparr>requested := (requested pk)(block_key piece off := None), progress := (progress pk)(piece \<mapsto> prog')\<rparr>,
       pdone prog' = length (blocks prog'))"
    using c prog by (simp add: on_block_received_def Let_def prog'_def)
  have "pdone prog + 1 = length (blocks prog)" using r res by (simp add: prog'_def)
  then have "count_list ?bs Done = length ?bs"
    using base count_list_update [OF c(3), of Done Done] c(4) by simp
  then have "list_all (\<lambda>b. b = Done) ?bs" unfolding list_all_iff by (rule iffD1 [OF count_list_full])
  then show ?thesis using res prog c(3,4) base by (simp add: prog'_def)
qed

subsection \<open>The rarest candidate\<close>

definition weighed :: "picker \<Rightarrow> bitfield \<Rightarrow> nat list \<Rightarrow> nat \<Rightarrow> nat list" where
  "weighed pk peer steps n =
     take n (filter (candidate pk peer) (map (\<lambda>s. u32 (pick_cursor pk + s) mod piece_count (pmeta pk)) steps))"

lemma rarest_min:
  assumes "rarest pk peer steps w best ba = Some i" and "w \<le> kRarestSample"
    and "\<And>b. best = Some b \<Longrightarrow> ba = availability pk ! b" and "best = None \<Longrightarrow> ba = 0xffff"
  shows "(best = Some i \<or> i \<in> set (weighed pk peer steps (kRarestSample - w))) \<and> availability pk ! i \<le> ba \<and>
    (\<forall>j \<in> set (weighed pk peer steps (kRarestSample - w)). availability pk ! i \<le> availability pk ! j)"
  using assms
proof (induction steps arbitrary: w best ba)
  case Nil
  then show ?case by (simp add: weighed_def)
next
  case (Cons s ss)
  let ?i = "u32 (pick_cursor pk + s) mod piece_count (pmeta pk)"
  show ?case
  proof (cases "w = kRarestSample")
    case True
    then show ?thesis using Cons.prems by (simp add: weighed_def)
  next
    case False
    then have w: "w < kRarestSample" using Cons.prems(2) by simp
    show ?thesis
    proof (cases "candidate pk peer ?i")
      case no: False
      then have "weighed pk peer (s # ss) n = weighed pk peer ss n" for n by (simp add: weighed_def)
      then show ?thesis using Cons.IH [of w best ba] Cons.prems no w by (simp add: Let_def)
    next
      case yes: True
      then have head: "weighed pk peer (s # ss) (kRarestSample - w) = ?i # weighed pk peer ss (kRarestSample - Suc w)"
        using w by (simp add: weighed_def take_Cons' Suc_diff_Suc)
      have pos: "\<forall>j \<in> set (weighed pk peer ss n). 1 \<le> availability pk ! j" for n
        by (auto simp: weighed_def candidate_def dest!: in_set_takeD)
      consider "availability pk ! ?i < ba" "availability pk ! ?i = 1"
        | "availability pk ! ?i < ba" "availability pk ! ?i \<noteq> 1" | "ba \<le> availability pk ! ?i" by linarith
      then show ?thesis
      proof cases
        case 1
        then have "i = ?i" using Cons.prems(1) yes w by (simp add: Let_def)
        then show ?thesis using 1 head pos by auto
      next
        case 2
        then have "rarest pk peer ss (w + 1) (Some ?i) (availability pk ! ?i) = Some i"
          using Cons.prems(1) yes w by (simp add: Let_def)
        from Cons.IH [OF this] w 2 head show ?thesis by auto
      next
        case 3
        then have "rarest pk peer ss (w + 1) best ba = Some i"
          using Cons.prems(1) yes w by (simp add: Let_def)
        from Cons.IH [OF this _ Cons.prems(3,4)] w 3 head show ?thesis by auto
      qed
    qed
  qed
qed

lemma pick_rarest_min:
  "pick_rarest pk peer = Some i \<Longrightarrow>
   i \<in> set (weighed pk peer [0..<piece_count (pmeta pk)] kRarestSample) \<and>
   (\<forall>j \<in> set (weighed pk peer [0..<piece_count (pmeta pk)] kRarestSample). availability pk ! i \<le> availability pk ! j)"
  using rarest_min [of pk peer "[0..<piece_count (pmeta pk)]" 0 None "0xffff" i]
  by (simp add: pick_rarest_def)

subsection \<open>Samples for the witnesses\<close>

definition two_pieces :: metainfo where
  "two_pieces = empty_meta\<lparr>piece_length := 4, piece_hashes := [replicate 20 0, replicate 20 0], total_size := 5\<rparr>"

lemma two_pieces_ok: "pieces_ok two_pieces" "piece_count two_pieces = 2"
  by (simp_all add: two_pieces_def pieces_ok_def piece_count_def u32_def)

lemma two_pieces_size: "size_of_piece two_pieces 0 = 4" "size_of_piece two_pieces 1 = 1"
  using size_of_piece_min [OF two_pieces_ok(1)] two_pieces_ok(2) by (simp_all add: two_pieces_def)

definition seed2 :: bitfield where
  "seed2 = bf_set (bf_set (bf_resize 2) 0 True) 1 True"

lemma seed2_get: "bf_get seed2 i \<longleftrightarrow> i = 0 \<or> i = 1"
  using bfs.mem_add [of "bf_set (bf_resize 2) 0 True" 1 i] bfs.mem_add [of "bf_resize 2" 0 i]
    bf_ok_resize [of 2] bf_ok_set [of "bf_resize 2" 0 True]
  by (auto simp: seed2_def)

definition sample_picker :: picker where
  "sample_picker = peer_has 0 (picker_init two_pieces)"

lemma sample_picker_ok: "picker_ok sample_picker" "pmeta sample_picker = two_pieces"
  "progress sample_picker = (\<lambda>_. None)" "availability sample_picker = [1, 0]" "have_piece sample_picker = (\<lambda>_. False)"
proof -
  have "replicate 2 0 = [0, 0 :: nat]" by (simp add: numeral_2_eq_2)
  then show "picker_ok sample_picker" "pmeta sample_picker = two_pieces"
    "progress sample_picker = (\<lambda>_. None)" "availability sample_picker = [1, 0]" "have_piece sample_picker = (\<lambda>_. False)"
    using peer_has_ok [OF picker_ok_init [OF two_pieces_ok(1)], of 0] two_pieces_ok(2)
    by (simp_all add: sample_picker_def peer_has_def picker_init_def bump_def have_piece_def fun_eq_iff)
qed

subsection \<open>Properties\<close>

text \<open>C14: whatever sequence of calls the session makes from a fresh picker, the bytes done are the sum
  of the sizes of the pieces held, the torrent is complete exactly when that sum is the total size, and
  in every piece begun and not held the counters of received and pending blocks equal the number of
  blocks in those states.\<close>

theorem picker_accounts:
  assumes "picker_reach m pk" and "pieces_ok m"
  shows "bytes_done pk = (\<Sum>i\<leftarrow>filter (have_piece pk) [0..<piece_count m]. size_of_piece m i) \<and>
    (is_complete pk \<longleftrightarrow> bytes_done pk = total_size m) \<and>
    (case progress pk p of None \<Rightarrow> True
     | Some pr \<Rightarrow> \<not> have_piece pk p \<and> length (blocks pr) = blocks_in_piece m p \<and>
         pdone pr = count_list (blocks pr) Done \<and> ppending pr = count_list (blocks pr) Pending)"
proof -
  have ok: "picker_ok pk" "pmeta pk = m" using picker_reach_ok [OF assms] by simp_all
  then show ?thesis
    using have_bytes_list [OF ok(1)] complete_iff_bytes [OF ok(1)] picker_okD(5) [OF ok(1)] picker_okD(7) [OF ok(1), of p]
    by (auto simp: prog_ok_def split: option.splits)
qed

theorem picker_accounts_witness:
  "bytes_done (set_have 1 (picker_init two_pieces)) =
    (\<Sum>i\<leftarrow>filter (have_piece (set_have 1 (picker_init two_pieces))) [0..<2]. size_of_piece two_pieces i)"
  using picker_accounts [OF reach_step [OF reach_init step_have] two_pieces_ok(1), of 1] two_pieces_ok(2)
  by simp

text \<open>C21: a selection asks only for what makes sense: at most the number of blocks wanted, each a
  whole block inside a piece the peer has and we lack, and outside the end game no block twice and
  none that is pending or received already, whatever the order of the hash table; afterwards the
  invariant still holds.\<close>

theorem pick_sound:
  assumes "picker_ok pk"
  shows "case pick pk order peer mx now of (pk', out) \<Rightarrow>
    picker_ok pk' \<and> have_bits pk' = have_bits pk \<and> length out \<le> mx \<and> list_all (request_ok pk peer) out \<and>
    (endgame pk \<or> distinct out \<and> list_all (request_free pk) out \<and> list_all (\<lambda>r. \<not> request_free pk' r) out)"
  using pick_sel_ok [OF assms, of peer mx order now] by (auto simp: sel_ok_def list_all_iff)

theorem pick_sound_witness:
  "case pick sample_picker [] seed2 4 0 of (pk', out) \<Rightarrow>
    length out \<le> 4 \<and> list_all (request_ok sample_picker seed2) out"
  using pick_sound [OF sample_picker_ok(1), where order = "[]" and peer = seed2 and mx = 4 and now = 0]
  by auto



text \<open>Among the candidates it weighs, at most 256 from the cursor on, the picker opens one that
  is least available, even though it stops at the first piece only one peer has.\<close>

theorem pick_rarest_first:
  assumes "pick_rarest pk peer = Some i"
  shows "i \<in> set (weighed pk peer [0..<piece_count (pmeta pk)] kRarestSample) \<and>
    list_all (\<lambda>j. availability pk ! i \<le> availability pk ! j)
      (weighed pk peer [0..<piece_count (pmeta pk)] kRarestSample)"
  using pick_rarest_min [OF assms] by (simp add: list_all_iff)

theorem pick_rarest_first_witness:
  "\<exists>i. pick_rarest sample_picker seed2 = Some i \<and>
    i \<in> set (weighed sample_picker seed2 [0..<piece_count two_pieces] kRarestSample)"
proof -
  have "candidate sample_picker seed2 0" by (simp add: candidate_def sample_picker_ok seed2_get)
  then obtain i where "pick_rarest sample_picker seed2 = Some i"
    using pick_rarest_finds [OF sample_picker_ok(1), of 0 seed2] two_pieces_ok(2)
    by (auto simp: sample_picker_ok less_2_cases_iff)
  then show ?thesis using pick_rarest_first [of sample_picker seed2 i] sample_picker_ok(2) by auto
qed

text \<open>A piece is reported complete only on a block that was missing, and then every one of its
  blocks has been received: it is verified neither early nor twice for the same blocks.\<close>

theorem received_completes_piece:
  assumes "picker_ok pk" and "snd (on_block_received piece off pk)"
  shows "\<exists>prog prog'. progress pk piece = Some prog \<and> off div kBlockSize < length (blocks prog) \<and>
    blocks prog ! (off div kBlockSize) \<noteq> Done \<and>
    progress (fst (on_block_received piece off pk)) piece = Some prog' \<and>
    length (blocks prog') = blocks_in_piece (pmeta pk) piece \<and> list_all (\<lambda>b. b = Done) (blocks prog')"
  using on_block_received_done [OF assms] .

theorem received_completes_piece_witness:
  "\<exists>pk. picker_ok pk \<and> snd (on_block_received 1 0 pk) \<and>
    (\<exists>prog'. progress (fst (on_block_received 1 0 pk)) 1 = Some prog' \<and> list_all (\<lambda>b. b = Done) (blocks prog'))"
proof -
  let ?pk = "sample_picker\<lparr>progress := (progress sample_picker)(1 \<mapsto> fresh_progress (pmeta sample_picker) 1)\<rparr>"
  have n: "blocks_in_piece two_pieces 1 = 1"
    using two_pieces_size(2) by (simp add: blocks_in_piece_def kBlockSize_def u32_def)
  have "prog_ok sample_picker 1 (fresh_progress (pmeta sample_picker) 1)"
    using prog_ok_fresh [of 1 sample_picker] sample_picker_ok(2,5) two_pieces_ok(2) by simp
  then have ok: "picker_ok ?pk" by (rule picker_ok_progress [OF sample_picker_ok(1)])
  have "snd (on_block_received 1 0 ?pk)"
    using sample_picker_ok two_pieces_ok(2) n
    by (simp add: on_block_received_def have_piece_def fun_eq_iff fresh_progress_def Let_def kBlockSize_def)
  with received_completes_piece [OF ok this] ok show ?thesis by blast
qed

text \<open>A request left unanswered cannot hold a block for ever: after a pass over the requests,
  every block still pending has a request younger than the timeout, so every older one is free
  again.\<close>

theorem expire_frees_blocks:
  assumes "picker_ok pk" and "\<And>k. requested pk k \<noteq> None \<Longrightarrow> k \<in> set order"
    and "progress (fst (expire_requests order now timeout pk)) p = Some pr"
    and "b < length (blocks pr)" and "blocks pr ! b = Pending"
  shows "\<exists>t. requested (fst (expire_requests order now timeout pk)) (block_key p (b * kBlockSize)) = Some t \<and>
    sub64 now t < timeout"
proof -
  let ?pk = "fst (expire_requests order now timeout pk)" and ?k = "block_key p (b * kBlockSize)"
  have "picker_ok ?pk" by (rule expire_requests_ok [OF assms(1)])
  then obtain t where t: "requested ?pk ?k = Some t"
    using picker_okD(7) [OF _ assms(3)] assms(4,5) by (auto simp: prog_ok_def)
  then have "?k \<in> set order" using assms(2) expire_requests_requested by blast
  with t expire_requests_fresh [of ?k order now timeout pk t] show ?thesis by simp
qed

theorem expire_frees_blocks_witness:
  "\<exists>pk pr t. picker_ok pk \<and> progress (fst (expire_requests [block_key 0 0] 100 45 pk)) 0 = Some pr \<and>
    requested (fst (expire_requests [block_key 0 0] 100 45 pk)) (block_key 0 (0 * kBlockSize)) = Some t \<and> sub64 100 t < 45"
proof -
  let ?pr = "\<lparr>blocks = [Pending], pdone = 0, ppending = 1\<rparr>"
  let ?pk = "sample_picker\<lparr>requested := (requested sample_picker)(block_key 0 0 \<mapsto> 90), progress := (progress sample_picker)(0 \<mapsto> ?pr)\<rparr>"
  have n: "blocks_in_piece two_pieces 0 = 1"
    by (simp add: blocks_in_piece_def two_pieces_size kBlockSize_def u32_def)
  have rq: "requested sample_picker = (\<lambda>_. None)"
    by (simp add: sample_picker_def peer_has_def picker_init_def)
  have nh: "\<And>i. \<not> bf_get (have_bits sample_picker) i"
    using fun_cong [OF sample_picker_ok(5)] by (simp add: have_piece_def)
  have ok: "picker_ok ?pk"
    using sample_picker_ok(1-4) n two_pieces_ok(2) nh
    by (auto simp: picker_ok_def prog_ok_def have_bytes_def have_piece_def)
  have ex: "fst (expire_requests [block_key 0 0] 100 45 ?pk) = ?pk"
    by (simp add: expire_requests_def expire_one_def sub64_def)
  have all: "requested ?pk k \<noteq> None \<Longrightarrow> k \<in> set [block_key 0 0]" for k using rq by (auto split: if_splits)
  have "progress (fst (expire_requests [block_key 0 0] 100 45 ?pk)) 0 = Some ?pr" unfolding ex by simp
  from expire_frees_blocks [OF ok all this, of 0] this ok show ?thesis by auto
qed

end
