(* ===== verification/Storage.thy ===== *)
theory Storage
  imports Metainfo
begin

text \<open>
  The content of a torrent on the card (\<open>source/bt/storage.cpp\<close>, \<open>include/bt/storage.hpp\<close>): the
  files and their handles, the pieces assembled in memory, reading, writing and verifying.

  The file system the code calls through \<open>stdio\<close> and POSIX is the record \<open>disk\<close>: the bytes of every
  file, and what may refuse a call (a path that cannot be opened or created, the largest size a file
  may reach, the console's concatenated files).  As on the console, a write past the end of a file
  fails, which is why the code grows files first; a call that fails changes nothing.  Not modelled:
  the text of an error message, a failing seek, and what a refused \<open>open\<close> leaves behind (its caller
  drops the object).

  \<open>StorageIO\<close> and \<open>StoragePieces\<close> prove the results: the spans of a byte range tile it exactly; what is
  written is what is read back and nothing else changes; at most eight files are open; a piece passes
  verification exactly when its bytes hash to the expected value, and a committed piece is on the
  card as verified.
\<close>

record disk =
  contents :: "bytes \<Rightarrow> bytes option"
  openable :: "bytes \<Rightarrow> bool"
  max_size :: "bytes \<Rightarrow> nat"
  dir_ok :: "bytes \<Rightarrow> bool"
  big_file :: "(bytes \<Rightarrow> nat \<Rightarrow> bool) option"

definition can_open :: "disk \<Rightarrow> bytes \<Rightarrow> bool" where
  "can_open d p \<longleftrightarrow> openable d p \<and> contents d p \<noteq> None"

definition file_size :: "disk \<Rightarrow> bytes \<Rightarrow> nat" where
  "file_size d p = (case contents d p of None \<Rightarrow> 0 | Some c \<Rightarrow> length c)"

definition ftruncate :: "bytes \<Rightarrow> nat \<Rightarrow> disk \<Rightarrow> disk option" where
  "ftruncate p n d =
     (case contents d p of
        None \<Rightarrow> None
      | Some c \<Rightarrow>
          if n \<le> max_size d p then Some (d\<lparr>contents := (contents d)(p \<mapsto> take n c @ replicate (n - length c) 0)\<rparr>)
          else None)"

definition fwrite :: "bytes \<Rightarrow> nat \<Rightarrow> bytes \<Rightarrow> disk \<Rightarrow> disk option" where
  "fwrite p off data d =
     (case contents d p of
        None \<Rightarrow> None
      | Some c \<Rightarrow>
          if off + length data \<le> length c
          then Some (d\<lparr>contents := (contents d)(p \<mapsto> take off c @ data @ drop (off + length data) c)\<rparr>)
          else None)"

definition fread :: "disk \<Rightarrow> bytes \<Rightarrow> nat \<Rightarrow> nat \<Rightarrow> bytes option" where
  "fread d p off n =
     (case contents d p of
        None \<Rightarrow> None
      | Some c \<Rightarrow> if off + n \<le> length c then Some (take n (drop off c)) else None)"

definition create_file :: "bytes \<Rightarrow> disk \<Rightarrow> disk option" where
  "create_file p d = (if openable d p then Some (d\<lparr>contents := (contents d)(p \<mapsto> [])\<rparr>) else None)"

subsection \<open>State\<close>

record file_slot =
  abs_path :: bytes
  slot_offset :: nat
  slot_length :: nat
  opened :: bool
  slot_used :: nat
  allocated :: nat

record piece_buffer =
  buf_index :: nat
  buf_data :: bytes
  buf_have :: "bool list"
  blocks_present :: nat
  buf_used :: nat

record storage =
  smeta :: metainfo
  base_dir :: bytes
  slots :: "file_slot list"
  sclock :: nat
  open_handles :: nat
  created_fresh :: bool
  recreated :: bool
  large_threshold :: nat
  growth_probe :: "(bytes \<Rightarrow> nat \<Rightarrow> bool) option"
  buffers :: "piece_buffer list"
  sdisk :: disk

definition kMaxOpenHandles :: nat where
  "kMaxOpenHandles = 8"

definition kHashChunk :: nat where
  "kHashChunk = 64 * 1024"

definition kStoreBlock :: nat where
  "kStoreBlock = 16 * 1024"

definition kMaxBufferedPiece :: nat where
  "kMaxBufferedPiece = 16 * 1024 * 1024"

definition kBufferBudget :: nat where
  "kBufferBudget = 48 * 1024 * 1024"

definition kGrowChunk :: nat where
  "kGrowChunk = 32 * 1024 * 1024"

definition kFat32FileLimit :: nat where
  "kFat32FileLimit = 0xFFFFFFFF"

definition new_storage :: "disk \<Rightarrow> storage" where
  "new_storage d = \<lparr>smeta = empty_meta, base_dir = [], slots = [], sclock = 0, open_handles = 0,
     created_fresh = True, recreated = False, large_threshold = kFat32FileLimit, growth_probe = None,
     buffers = [], sdisk = d\<rparr>"

subsection \<open>Handles\<close>

text \<open>The open slot used the longest ago; the first of equals, as the scan keeps.\<close>

fun oldest_slot :: "file_slot list \<Rightarrow> nat \<Rightarrow> (nat \<times> nat) option \<Rightarrow> nat option" where
  "oldest_slot [] i best = map_option fst best"
| "oldest_slot (s # ss) i best =
     (if \<not> opened s then oldest_slot ss (Suc i) best
      else case best of
        None \<Rightarrow> oldest_slot ss (Suc i) (Some (i, slot_used s))
      | Some (j, u) \<Rightarrow> oldest_slot ss (Suc i) (if slot_used s < u then Some (i, slot_used s) else best))"

definition evict_if_needed :: "storage \<Rightarrow> storage" where
  "evict_if_needed st =
     (if open_handles st < kMaxOpenHandles then st
      else case oldest_slot (slots st) 0 None of
        None \<Rightarrow> st
      | Some i \<Rightarrow> st\<lparr>slots := (slots st)[i := (slots st ! i)\<lparr>opened := False\<rparr>], open_handles := open_handles st - 1\<rparr>)"

definition acquire :: "nat \<Rightarrow> storage \<Rightarrow> storage \<times> bool" where
  "acquire i st =
     (let touch = (\<lambda>st. st\<lparr>sclock := sclock st + 1,
            slots := (slots st)[i := (slots st ! i)\<lparr>slot_used := sclock st + 1\<rparr>]\<rparr>)
      in if opened (slots st ! i) then (touch st, True)
         else
           let st = evict_if_needed st
           in if \<not> can_open (sdisk st) (abs_path (slots st ! i)) then (st, False)
              else (touch (st\<lparr>slots := (slots st)[i := (slots st ! i)\<lparr>opened := True\<rparr>],
                             open_handles := open_handles st + 1\<rparr>), True))"

definition ensure_allocated :: "nat \<Rightarrow> nat \<Rightarrow> storage \<Rightarrow> storage \<times> bool" where
  "ensure_allocated i needed st =
     (let slot = slots st ! i
      in if needed \<le> allocated slot then (st, True)
         else if \<not> opened slot then (st, False)
         else
           let target = u64 (u64 (needed + kGrowChunk - 1) div kGrowChunk * kGrowChunk);
               target = (if slot_length slot < target then slot_length slot else target)
           in case ftruncate (abs_path slot) target (sdisk st) of
                None \<Rightarrow> (st, False)
              | Some d \<Rightarrow> (st\<lparr>sdisk := d, slots := (slots st)[i := slot\<lparr>allocated := target\<rparr>]\<rparr>, True))"

subsection \<open>Spans\<close>

text \<open>The binary search for the first file that reaches past a position.\<close>

function first_slot :: "file_slot list \<Rightarrow> nat \<Rightarrow> nat \<Rightarrow> nat \<Rightarrow> nat" where
  "first_slot ss apos lo hi =
     (if lo < hi then
        (let mid = (lo + hi) div 2
         in if u64 (slot_offset (ss ! mid) + slot_length (ss ! mid)) \<le> apos then first_slot ss apos (mid + 1) hi
            else first_slot ss apos lo mid)
      else lo)"
  by pat_completeness auto
termination by (relation "measure (\<lambda>(ss, apos, lo, hi). hi - lo)") auto

declare first_slot.simps [simp del]

text \<open>The slices \<open>for_each_span\<close> visits, as (slot, local offset, length), and what remains.\<close>

fun spans_from :: "nat \<Rightarrow> file_slot list \<Rightarrow> nat \<Rightarrow> nat \<Rightarrow> (nat \<times> nat \<times> nat) list \<times> nat" where
  "spans_from i [] cursor remaining = ([], remaining)"
| "spans_from i (s # ss) cursor remaining =
     (if remaining = 0 then ([], 0)
      else if slot_length s = 0 then spans_from (Suc i) ss cursor remaining
      else
        let local = sub64 cursor (slot_offset s);
            avail = sub64 (slot_length s) local;
            chunk = min avail remaining;
            (sp, rest) = spans_from (Suc i) ss (u64 (cursor + chunk)) (remaining - chunk)
        in ((i, local, chunk) # sp, rest))"

definition spans :: "file_slot list \<Rightarrow> nat \<Rightarrow> nat \<Rightarrow> (nat \<times> nat \<times> nat) list \<times> nat" where
  "spans ss apos len = (let i = first_slot ss apos 0 (length ss) in spans_from i (drop i ss) apos len)"

definition abs_position :: "storage \<Rightarrow> nat \<Rightarrow> nat \<Rightarrow> nat" where
  "abs_position st piece off = u64 (piece * piece_length (smeta st) + off)"

subsection \<open>Reading and writing through\<close>

definition write_span :: "nat \<Rightarrow> nat \<Rightarrow> bytes \<Rightarrow> storage \<Rightarrow> storage \<times> bool" where
  "write_span i local data st =
     (let (st, ok) = acquire i st
      in if \<not> ok then (st, False)
         else
           let (st, ok) = ensure_allocated i (u64 (local + length data)) st
           in if \<not> ok then (st, False)
              else case fwrite (abs_path (slots st ! i)) local data (sdisk st) of
                     None \<Rightarrow> (st, False)
                   | Some d \<Rightarrow> (st\<lparr>sdisk := d\<rparr>, True))"

fun write_spans :: "(nat \<times> nat \<times> nat) list \<Rightarrow> bytes \<Rightarrow> storage \<Rightarrow> storage \<times> bool" where
  "write_spans [] data st = (st, True)"
| "write_spans ((i, local, chunk) # sp) data st =
     (let (st, ok) = write_span i local (take chunk data) st
      in if ok then write_spans sp (drop chunk data) st else (st, False))"

definition write_through :: "nat \<Rightarrow> nat \<Rightarrow> bytes \<Rightarrow> storage \<Rightarrow> storage \<times> bool" where
  "write_through piece off data st =
     (let apos = abs_position st piece off
      in if total_size (smeta st) < u64 (apos + length data) then (st, False)
         else
           let (sp, rest) = spans (slots st) apos (length data);
               (st, ok) = write_spans sp data st
           in (st, ok \<and> rest = 0))"

fun read_spans :: "(nat \<times> nat \<times> nat) list \<Rightarrow> storage \<Rightarrow> storage \<times> bytes option" where
  "read_spans [] st = (st, Some [])"
| "read_spans ((i, local, chunk) # sp) st =
     (let (st, ok) = acquire i st
      in if \<not> ok then (st, None)
         else case fread (sdisk st) (abs_path (slots st ! i)) local chunk of
                None \<Rightarrow> (st, None)
              | Some bs \<Rightarrow>
                  let (st, r) = read_spans sp st
                  in (st, map_option ((@) bs) r))"

definition read_block :: "nat \<Rightarrow> nat \<Rightarrow> nat \<Rightarrow> storage \<Rightarrow> storage \<times> bytes option" where
  "read_block piece off len st =
     (let apos = abs_position st piece off
      in if total_size (smeta st) < u64 (apos + len) then (st, None)
         else
           let (sp, rest) = spans (slots st) apos len;
               (st, r) = read_spans sp st
           in (st, if rest = 0 then r else None))"

subsection \<open>Pieces in memory\<close>

fun find_buffer :: "nat \<Rightarrow> piece_buffer list \<Rightarrow> nat option" where
  "find_buffer piece [] = None"
| "find_buffer piece (b # bs) =
     (if buf_index b = piece \<and> buf_data b \<noteq> [] then Some 0 else map_option Suc (find_buffer piece bs))"

definition buffer_for :: "nat \<Rightarrow> bool \<Rightarrow> storage \<Rightarrow> storage \<times> nat option" where
  "buffer_for piece create st =
     (case find_buffer piece (buffers st) of
        Some k \<Rightarrow>
          (st\<lparr>sclock := sclock st + 1, buffers := (buffers st)[k := (buffers st ! k)\<lparr>buf_used := sclock st + 1\<rparr>]\<rparr>, Some k)
      | None \<Rightarrow>
          if \<not> create then (st, None)
          else
            let psize = size_of_piece (smeta st) piece
            in if psize = 0 \<or> kMaxBufferedPiece < psize then (st, None)
               else
                 let used = (\<Sum>b\<leftarrow>buffers st. length (buf_data b))
                 in if kBufferBudget < used + psize then (st, None)
                    else (st\<lparr>sclock := sclock st + 1, buffers := buffers st @
                        [\<lparr>buf_index = piece, buf_data = replicate psize 0,
                          buf_have = replicate ((psize + kStoreBlock - 1) div kStoreBlock) False,
                          blocks_present = 0, buf_used = sclock st + 1\<rparr>]\<rparr>, Some (length (buffers st))))"

text \<open>The runs of present blocks, as byte ranges of the piece; the list is followed by the sentinel
  turn of the loop, which closes a run that reaches the end.\<close>

fun runs :: "bool list \<Rightarrow> nat \<Rightarrow> nat option \<Rightarrow> nat \<Rightarrow> (nat \<times> nat) list" where
  "runs [] b start psize = (case start of None \<Rightarrow> [] | Some s \<Rightarrow> [(s, min (b * kStoreBlock) psize)])"
| "runs (h # hs) b start psize =
     (case start of
        None \<Rightarrow> runs hs (Suc b) (if h then Some (b * kStoreBlock) else None) psize
      | Some s \<Rightarrow>
          if h then runs hs (Suc b) start psize
          else (s, min (b * kStoreBlock) psize) # runs hs (Suc b) None psize)"

fun write_runs :: "nat \<Rightarrow> bytes \<Rightarrow> (nat \<times> nat) list \<Rightarrow> storage \<Rightarrow> storage \<times> bool" where
  "write_runs piece data [] st = (st, True)"
| "write_runs piece data ((s, e) # rs) st =
     (let (st, ok) = write_through piece s (take (e - s) (drop s data)) st
      in if ok then write_runs piece data rs st else (st, False))"

definition flush_buffer :: "nat \<Rightarrow> storage \<Rightarrow> storage \<times> bool" where
  "flush_buffer k st =
     (let buf = buffers st ! k;
          (st, ok) = write_runs (buf_index buf) (buf_data buf)
            (runs (buf_have buf) 0 None (length (buf_data buf))) st
      in if \<not> ok then (st, False)
         else (st\<lparr>buffers := (buffers st)[k := buf\<lparr>buf_data := [], buf_have := [], blocks_present := 0\<rparr>]\<rparr>, True))"

definition remove_at :: "nat \<Rightarrow> 'a list \<Rightarrow> 'a list" where
  "remove_at k xs = take k xs @ drop (Suc k) xs"

definition commit_piece :: "nat \<Rightarrow> storage \<Rightarrow> storage \<times> bool" where
  "commit_piece piece st =
     (case find_buffer piece (buffers st) of
        None \<Rightarrow> (st, True)
      | Some k \<Rightarrow>
          let (st, ok) = flush_buffer k st
          in (st\<lparr>buffers := remove_at k (buffers st)\<rparr>, ok))"

fun find_index :: "nat \<Rightarrow> piece_buffer list \<Rightarrow> nat option" where
  "find_index piece [] = None"
| "find_index piece (b # bs) = (if buf_index b = piece then Some 0 else map_option Suc (find_index piece bs))"

definition discard_piece :: "nat \<Rightarrow> storage \<Rightarrow> storage" where
  "discard_piece piece st =
     (case find_index piece (buffers st) of
        None \<Rightarrow> st
      | Some k \<Rightarrow> st\<lparr>buffers := remove_at k (buffers st)\<rparr>)"

fun mark_blocks :: "nat list \<Rightarrow> piece_buffer \<Rightarrow> piece_buffer" where
  "mark_blocks [] buf = buf"
| "mark_blocks (b # bs) buf =
     mark_blocks bs (if buf_have buf ! b then buf
       else buf\<lparr>buf_have := (buf_have buf)[b := True], blocks_present := blocks_present buf + 1\<rparr>)"

definition write_block :: "nat \<Rightarrow> nat \<Rightarrow> bytes \<Rightarrow> storage \<Rightarrow> storage \<times> bool" where
  "write_block piece off data st =
     (if piece_count (smeta st) \<le> piece then (st, False)
      else
        let piece_size = size_of_piece (smeta st) piece;
            len = length data
        in if piece_size < off \<or> piece_size - off < len then (st, False)
           else
             let (st, found) = (if off mod kStoreBlock = 0 \<and> 0 < len then buffer_for piece True st else (st, None))
             in case found of
                  None \<Rightarrow> write_through piece off data st
                | Some k \<Rightarrow>
                    let buf = buffers st ! k;
                        first = off div kStoreBlock;
                        last_block = (off + len - 1) div kStoreBlock
                    in if last_block < length (buf_have buf) then
                         (st\<lparr>buffers := (buffers st)[k := mark_blocks [first..<Suc last_block]
                            (buf\<lparr>buf_data := take off (buf_data buf) @ data @ drop (off + len) (buf_data buf)\<rparr>)]\<rparr>, True)
                       else write_through piece off data st)"

definition take_complete_piece :: "nat \<Rightarrow> storage \<Rightarrow> storage \<times> bytes option" where
  "take_complete_piece piece st =
     (case find_buffer piece (buffers st) of
        None \<Rightarrow> (st, None)
      | Some k \<Rightarrow>
          let buf = buffers st ! k
          in if blocks_present buf \<noteq> length (buf_have buf) then (st, None)
             else (st\<lparr>buffers := remove_at k (buffers st)\<rparr>, Some (buf_data buf)))"

subsection \<open>Verification\<close>

definition hash_matches :: "metainfo \<Rightarrow> nat \<Rightarrow> bytes \<Rightarrow> bool" where
  "hash_matches m piece data \<longleftrightarrow>
     \<not> piece_count m \<le> piece \<and> length data = size_of_piece m piece \<and>
     digest (update reset data) = piece_hashes m ! piece"

definition write_piece :: "nat \<Rightarrow> bytes \<Rightarrow> storage \<Rightarrow> storage \<times> bool" where
  "write_piece piece data st = write_through piece 0 data st"

text \<open>The loop that hashes a piece from the card, in chunks of 64 KiB.\<close>

function hash_from :: "nat \<Rightarrow> nat \<Rightarrow> nat \<Rightarrow> sha1 \<Rightarrow> storage \<Rightarrow> storage \<times> sha1 option" where
  "hash_from piece psize pos sha st =
     (if psize \<le> pos then (st, Some sha)
      else
        let n = min kHashChunk (psize - pos);
            (st, r) = read_block piece pos n st
        in case r of
             None \<Rightarrow> (st, None)
           | Some bs \<Rightarrow> hash_from piece psize (pos + n) (update sha bs) st)"
  by pat_completeness auto
termination
  by (relation "measure (\<lambda>(piece, psize, pos, sha, st). psize - pos)") (auto simp: kHashChunk_def)

declare hash_from.simps [simp del]

definition verify_from_disk :: "nat \<Rightarrow> storage \<Rightarrow> storage \<times> bool" where
  "verify_from_disk piece st =
     (let (st, r) = hash_from piece (size_of_piece (smeta st) piece) 0 reset st
      in (st, case r of None \<Rightarrow> False | Some sha \<Rightarrow> digest sha = piece_hashes (smeta st) ! piece))"

definition verify_piece :: "nat \<Rightarrow> storage \<Rightarrow> storage \<times> bool" where
  "verify_piece piece st =
     (if piece_count (smeta st) \<le> piece then (st, False)
      else
        let (st, found) = buffer_for piece False st
        in case found of
             None \<Rightarrow> verify_from_disk piece st
           | Some k \<Rightarrow>
               let buf = buffers st ! k
               in if blocks_present buf = length (buf_have buf)
                  then (st, digest (update reset (take (size_of_piece (smeta st) piece) (buf_data buf))) =
                          piece_hashes (smeta st) ! piece)
                  else
                    let (st, ok) = flush_buffer k st
                    in if ok then verify_from_disk piece (discard_piece piece st) else (st, False))"

text \<open>\<open>keep_going\<close> is the callback that may interrupt the scan.\<close>

fun scan_pieces :: "(nat \<Rightarrow> bool) \<Rightarrow> nat list \<Rightarrow> bool list \<Rightarrow> storage \<Rightarrow> storage \<times> bool list \<times> bool" where
  "scan_pieces keep_going [] held st = (st, held, True)"
| "scan_pieces keep_going (i # is) held st =
     (let (st, ok) = verify_piece i st;
          held = held[i := ok]
      in if \<not> keep_going (i + 1) then (st, held, False) else scan_pieces keep_going is held st)"

definition scan_existing :: "(nat \<Rightarrow> bool) \<Rightarrow> storage \<Rightarrow> storage \<times> bool list \<times> bool" where
  "scan_existing keep_going st =
     scan_pieces keep_going [0..<piece_count (smeta st)] (replicate (piece_count (smeta st)) False) st"

subsection \<open>Opening and closing\<close>

definition parent_dirs :: "bytes \<Rightarrow> bytes list" where
  "parent_dirs p = filter (\<lambda>dir. dir \<noteq> [] \<and> last dir \<noteq> B CHR '':'')
     (map (\<lambda>i. take i p) (filter (\<lambda>i. p ! i = B CHR ''/'') [0..<length p]))"

definition ensure_directories :: "disk \<Rightarrow> bytes \<Rightarrow> bool" where
  "ensure_directories d p \<longleftrightarrow> list_all (dir_ok d) (parent_dirs p)"

definition can_grow_to_full_size :: "(bytes \<Rightarrow> nat \<Rightarrow> bool) option \<Rightarrow> file_slot \<Rightarrow> disk \<Rightarrow> disk \<times> bool" where
  "can_grow_to_full_size probe slot d =
     (case probe of
        Some p \<Rightarrow> (d, p (abs_path slot) (slot_length slot))
      | None \<Rightarrow>
          if \<not> can_open d (abs_path slot) then (d, False)
          else case ftruncate (abs_path slot) (slot_length slot) d of
                 None \<Rightarrow> (d, False)
               | Some d1 \<Rightarrow>
                   (case ftruncate (abs_path slot) (allocated slot) d1 of None \<Rightarrow> (d1, True) | Some d2 \<Rightarrow> (d2, True)))"

text \<open>Both platforms: \<open>big_file\<close> is the console's call that creates a concatenated file at its final
  size, absent elsewhere; what follows its refusal is what the other platform does at once.\<close>

definition create_large_file :: "(bytes \<Rightarrow> nat \<Rightarrow> bool) option \<Rightarrow> file_slot \<Rightarrow> disk \<Rightarrow> (file_slot \<times> disk) option" where
  "create_large_file probe slot d =
     (let ordinary = (\<lambda>d. case create_file (abs_path slot) d of
             None \<Rightarrow> None
           | Some d \<Rightarrow>
               let slot = slot\<lparr>allocated := 0\<rparr>;
                   (d, ok) = can_grow_to_full_size probe slot d
               in if ok then Some (slot, d) else None)
      in case big_file d of
           None \<Rightarrow> ordinary d
         | Some f \<Rightarrow>
             let d = d\<lparr>contents := (contents d)(abs_path slot := None)\<rparr>
             in if f (abs_path slot) (slot_length slot)
                then Some (slot\<lparr>allocated := slot_length slot\<rparr>,
                           d\<lparr>contents := (contents d)(abs_path slot \<mapsto> replicate (slot_length slot) 0)\<rparr>)
                else ordinary d)"

definition prepare_large_file :: "(bytes \<Rightarrow> nat \<Rightarrow> bool) option \<Rightarrow> file_slot \<Rightarrow> disk \<Rightarrow> (file_slot \<times> disk \<times> bool) option" where
  "prepare_large_file probe slot d =
     (if slot_length slot \<le> allocated slot then Some (slot, d, False)
      else if 0 < allocated slot then
        (case can_grow_to_full_size probe slot d of
           (d, True) \<Rightarrow> Some (slot, d, False)
         | (d, False) \<Rightarrow>
             map_option (\<lambda>(slot, d). (slot, d, True)) (create_large_file probe (slot\<lparr>allocated := 0\<rparr>) d))
      else map_option (\<lambda>(slot, d). (slot, d, False)) (create_large_file probe slot d))"

definition open_slot :: "bytes \<Rightarrow> file_entry \<Rightarrow> storage \<Rightarrow> storage option" where
  "open_slot root f st =
     (let p = root @ B CHR ''/'' # fpath f; d = sdisk st
      in if \<not> ensure_directories d p then None
         else
           let slot = \<lparr>abs_path = p, slot_offset = foffset f, slot_length = flength f, opened = False,
                       slot_used = 0, allocated = file_size d p\<rparr>;
               st = (if 0 < allocated slot then st\<lparr>created_fresh := False\<rparr> else st)
           in case (if large_threshold st < slot_length slot then prepare_large_file (growth_probe st) slot d
                    else if allocated slot = 0 then map_option (\<lambda>d. (slot, d, False)) (create_file p d)
                    else Some (slot, d, False)) of
                None \<Rightarrow> None
              | Some (slot, d, again) \<Rightarrow>
                  if \<not> can_open d p then None
                  else Some (st\<lparr>slots := slots st @ [slot], sdisk := d, recreated := (recreated st \<or> again)\<rparr>))"

fun open_slots :: "bytes \<Rightarrow> file_entry list \<Rightarrow> storage \<Rightarrow> storage option" where
  "open_slots root [] st = Some st"
| "open_slots root (f # fs) st = (case open_slot root f st of None \<Rightarrow> None | Some st \<Rightarrow> open_slots root fs st)"

definition close_handles :: "storage \<Rightarrow> storage" where
  "close_handles st = st\<lparr>buffers := [], slots := [], open_handles := 0, sclock := 0, created_fresh := True\<rparr>"

fun flush_all :: "nat list \<Rightarrow> storage \<Rightarrow> storage" where
  "flush_all [] st = st"
| "flush_all (k # ks) st = flush_all ks (if buf_data (buffers st ! k) \<noteq> [] then fst (flush_buffer k st) else st)"

definition close_storage :: "storage \<Rightarrow> storage" where
  "close_storage st = close_handles (flush_all [0..<length (buffers st)] st)"

text \<open>\<open>free_bytes\<close> is the answer of \<open>util::disk_free\<close>, zero when it is not known.\<close>

definition open_storage :: "metainfo \<Rightarrow> bytes \<Rightarrow> nat \<Rightarrow> storage \<Rightarrow> storage option" where
  "open_storage m dir free_bytes st =
     (let st = close_storage st
      in if \<not> meta_valid m then None
         else
           let dir = (if dir \<noteq> [] \<and> last dir = B CHR ''/'' then butlast dir else dir);
               st = st\<lparr>smeta := m, base_dir := dir\<rparr>;
               root = (if single_file m then dir else dir @ B CHR ''/'' # mname m)
           in if 0 < free_bytes \<and> free_bytes < total_size m then None
              else open_slots root (files m) st)"

fun largest_slot :: "file_slot list \<Rightarrow> file_slot option \<Rightarrow> file_slot option" where
  "largest_slot [] best = best"
| "largest_slot (s # ss) best =
     largest_slot ss (case best of None \<Rightarrow> Some s | Some b \<Rightarrow> if slot_length b < slot_length s then Some s else best)"

definition largest_file_path :: "storage \<Rightarrow> bytes" where
  "largest_file_path st = (case largest_slot (slots st) None of None \<Rightarrow> [] | Some s \<Rightarrow> abs_path s)"

end
