(* ===== verification/StorageIO.thy ===== *)
theory StorageIO
  imports Storage
begin

text \<open>
  Reading and writing through the file handles: the layout of the slots, the spans of a byte range,
  the limit on open files, and the content of the card by absolute position.  What is written is
  there, what is read is what is there, nothing else changes.
\<close>

subsection \<open>The layout and the invariant\<close>

fun slots_tile :: "nat \<Rightarrow> file_slot list \<Rightarrow> nat \<Rightarrow> bool" where
  "slots_tile off [] e \<longleftrightarrow> off = e"
| "slots_tile off (s # ss) e \<longleftrightarrow> slot_offset s = off \<and> slots_tile (off + slot_length s) ss e"

definition shape :: "file_slot list \<Rightarrow> (bytes \<times> nat \<times> nat) list" where
  "shape ss = map (\<lambda>s. (abs_path s, slot_offset s, slot_length s)) ss"

definition slots_ok :: "storage \<Rightarrow> bool" where
  "slots_ok st \<longleftrightarrow> slots_tile 0 (slots st) (total_size (smeta st)) \<and> total_size (smeta st) < 2 ^ 63 \<and>
     distinct (map abs_path (slots st)) \<and>
     (\<forall>i < length (slots st). \<exists>c. contents (sdisk st) (abs_path (slots st ! i)) = Some c \<and> length c = allocated (slots st ! i)) \<and>
     open_handles st = count_list (map opened (slots st)) True \<and> open_handles st \<le> kMaxOpenHandles"

text \<open>What a call leaves alone: the torrent, the shape of the slots, the pieces in memory, the policy
  of the disk.\<close>

definition same_frame :: "storage \<Rightarrow> storage \<Rightarrow> bool" where
  "same_frame st st' \<longleftrightarrow> smeta st' = smeta st \<and> shape (slots st') = shape (slots st) \<and> buffers st' = buffers st \<and>
     openable (sdisk st') = openable (sdisk st) \<and> max_size (sdisk st') = max_size (sdisk st)"

lemma same_frame_refl: "same_frame st st"
  by (simp add: same_frame_def)

lemma same_frame_trans: "same_frame a b \<Longrightarrow> same_frame b c \<Longrightarrow> same_frame a c"
  by (simp add: same_frame_def)

lemma shape_nth:
  assumes "shape ss' = shape ss"
  shows "length ss' = length ss"
    and "i < length ss \<Longrightarrow> abs_path (ss' ! i) = abs_path (ss ! i)"
    and "i < length ss \<Longrightarrow> slot_offset (ss' ! i) = slot_offset (ss ! i)"
    and "i < length ss \<Longrightarrow> slot_length (ss' ! i) = slot_length (ss ! i)"
proof -
  show len: "length ss' = length ss" using arg_cong [OF assms, of length] by (simp add: shape_def)
  have nth: "abs_path (ss' ! k) = abs_path (ss ! k) \<and> slot_offset (ss' ! k) = slot_offset (ss ! k) \<and>
      slot_length (ss' ! k) = slot_length (ss ! k)" if "k < length ss" for k
    using arg_cong [OF assms, of "\<lambda>xs. xs ! k"] that len by (simp add: shape_def)
  show "i < length ss \<Longrightarrow> abs_path (ss' ! i) = abs_path (ss ! i)" by (simp only: nth)
  show "i < length ss \<Longrightarrow> slot_offset (ss' ! i) = slot_offset (ss ! i)" by (simp only: nth)
  show "i < length ss \<Longrightarrow> slot_length (ss' ! i) = slot_length (ss ! i)" by (simp only: nth)
qed

lemma shape_paths: "shape ss' = shape ss \<Longrightarrow> map abs_path ss' = map abs_path ss"
  using shape_nth [of ss' ss] by (auto intro: nth_equalityI)

lemma slots_tile_shape: "shape ss' = shape ss \<Longrightarrow> slots_tile off ss' e = slots_tile off ss e"
proof (induction ss arbitrary: off ss')
  case (Cons s ss)
  then obtain s' rest where ss': "ss' = s' # rest" "shape rest = shape ss" "slot_offset s' = slot_offset s"
    "slot_length s' = slot_length s"
    by (cases ss') (auto simp: shape_def)
  then show ?case using Cons.IH [OF ss'(2)] by simp
qed (auto simp: shape_def)

lemma shape_update:
  "abs_path s = abs_path (ss ! i) \<Longrightarrow> slot_offset s = slot_offset (ss ! i) \<Longrightarrow> slot_length s = slot_length (ss ! i) \<Longrightarrow>
   shape (ss[i := s]) = shape ss"
proof (cases "i < length ss")
  case False
  then show ?thesis by (simp add: list_update_beyond not_less)
qed (simp add: shape_def map_update list_update_same_conv)

lemma slots_tile_end: "slots_tile off ss e \<Longrightarrow> off \<le> e"
  by (induction ss arbitrary: off) force+

lemma slots_tile_nth:
  "slots_tile off ss e \<Longrightarrow> i < length ss \<Longrightarrow> off \<le> slot_offset (ss ! i) \<and> slot_offset (ss ! i) + slot_length (ss ! i) \<le> e"
proof (induction ss arbitrary: off i)
  case (Cons s ss)
  then have e: "off + slot_length s \<le> e" using slots_tile_end by auto
  show ?case
  proof (cases i)
    case (Suc j)
    with Cons.IH [of "off + slot_length s" j] Cons.prems show ?thesis by auto
  qed (use Cons e in auto)
qed simp

lemma slots_tile_mono:
  "slots_tile off ss e \<Longrightarrow> j < length ss \<Longrightarrow> i < j \<Longrightarrow> slot_offset (ss ! i) + slot_length (ss ! i) \<le> slot_offset (ss ! j)"
proof (induction ss arbitrary: off i j)
  case (Cons s ss)
  obtain k where j: "j = Suc k" using Cons.prems(3) by (cases j) auto
  show ?case
  proof (cases i)
    case 0
    have "off + slot_length s \<le> slot_offset (ss ! k)"
      using slots_tile_nth [of "off + slot_length s" ss e k] Cons.prems j by simp
    then show ?thesis using 0 j Cons.prems(1) by simp
  next
    case (Suc l)
    with Cons.IH [of "off + slot_length s" k l] Cons.prems j show ?thesis by auto
  qed
qed simp

lemma slots_tile_step:
  "slots_tile off ss e \<Longrightarrow> Suc i < length ss \<Longrightarrow> slot_offset (ss ! Suc i) = slot_offset (ss ! i) + slot_length (ss ! i)"
proof (induction ss arbitrary: off i)
  case (Cons s ss)
  show ?case
  proof (cases i)
    case 0
    then show ?thesis using Cons.prems by (cases ss) auto
  next
    case (Suc j)
    with Cons show ?thesis by auto
  qed
qed simp

lemma slots_tile_unique:
  assumes "slots_tile off ss e" and "i < length ss" "j < length ss"
    and "slot_offset (ss ! i) + l = slot_offset (ss ! j) + k" and "l < slot_length (ss ! i)" "k < slot_length (ss ! j)"
  shows "i = j \<and> l = k"
proof -
  have "\<not> i < j" using slots_tile_mono [OF assms(1,3), of i] assms(4-6) by linarith
  moreover have "\<not> j < i" using slots_tile_mono [OF assms(1,2), of j] assms(4-6) by linarith
  ultimately show ?thesis using assms(4) by simp
qed

lemma slots_tile_head: "slots_tile off ss e \<Longrightarrow> ss \<noteq> [] \<Longrightarrow> slot_offset (ss ! 0) = off"
  by (cases ss) auto

lemma slots_tile_last: "slots_tile off ss e \<Longrightarrow> ss \<noteq> [] \<Longrightarrow>
  slot_offset (ss ! (length ss - 1)) + slot_length (ss ! (length ss - 1)) = e"
proof (induction ss arbitrary: off)
  case (Cons s ss)
  then show ?case by (cases ss) auto
qed simp

subsection \<open>Spans tile the range\<close>

fun covers :: "file_slot list \<Rightarrow> nat \<Rightarrow> (nat \<times> nat \<times> nat) list \<Rightarrow> nat \<Rightarrow> bool" where
  "covers ss cur [] len \<longleftrightarrow> len = 0"
| "covers ss cur ((i, l, c) # sp) len \<longleftrightarrow>
     i < length ss \<and> slot_offset (ss ! i) + l = cur \<and> 0 < c \<and> l + c \<le> slot_length (ss ! i) \<and> c \<le> len \<and>
     covers ss (cur + c) sp (len - c)"

lemma first_slot_spec:
  assumes "slots_tile 0 ss e" and "e < 2 ^ 63" and "lo \<le> hi" "hi \<le> length ss"
    and "\<forall>j < lo. slot_offset (ss ! j) + slot_length (ss ! j) \<le> a"
    and "\<forall>j < length ss. hi \<le> j \<longrightarrow> a < slot_offset (ss ! j) + slot_length (ss ! j)"
  shows "first_slot ss a lo hi \<le> length ss \<and>
    (\<forall>j < first_slot ss a lo hi. slot_offset (ss ! j) + slot_length (ss ! j) \<le> a) \<and>
    (\<forall>j < length ss. first_slot ss a lo hi \<le> j \<longrightarrow> a < slot_offset (ss ! j) + slot_length (ss ! j))"
  using assms
proof (induction ss a lo hi rule: first_slot.induct)
  case (1 ss a lo hi)
  show ?case
  proof (cases "lo < hi")
    case False
    then have "first_slot ss a lo hi = lo" by (subst first_slot.simps) simp
    then show ?thesis using False 1 by simp
  next
    case True
    define mid where "mid = (lo + hi) div 2"
    have m: "lo \<le> mid" "mid < hi" "mid < length ss" using True "1.prems"(4) by (auto simp: mid_def)
    have e: "slot_offset (ss ! mid) + slot_length (ss ! mid) \<le> e" using slots_tile_nth [OF "1.prems"(1) m(3)] by simp
    then have u: "u64 (slot_offset (ss ! mid) + slot_length (ss ! mid)) = slot_offset (ss ! mid) + slot_length (ss ! mid)"
      using "1.prems"(2) by (intro u64_id) simp
    show ?thesis
    proof (cases "slot_offset (ss ! mid) + slot_length (ss ! mid) \<le> a")
      case le: True
      have below: "slot_offset (ss ! j) + slot_length (ss ! j) \<le> a" if "j < mid + 1" for j
      proof (cases "j = mid")
        case False
        then have "slot_offset (ss ! j) + slot_length (ss ! j) \<le> slot_offset (ss ! mid)"
          using slots_tile_mono [OF "1.prems"(1) m(3), of j] that by simp
        then show ?thesis using le by simp
      qed (use le in simp)
      have "first_slot ss a lo hi = first_slot ss a (mid + 1) hi"
        using True le u by (simp add: first_slot.simps [of ss a lo hi] mid_def Let_def)
      moreover have "mid + 1 \<le> hi" using m by simp
      ultimately show ?thesis
        using "1.IH"(1) [OF True mid_def _ "1.prems"(1,2) \<open>mid + 1 \<le> hi\<close> "1.prems"(4) _ "1.prems"(6)] le u below by simp
    next
      case gt: False
      have above: "a < slot_offset (ss ! j) + slot_length (ss ! j)" if "j < length ss" "mid \<le> j" for j
      proof (cases "j = mid")
        case False
        then have "slot_offset (ss ! mid) + slot_length (ss ! mid) \<le> slot_offset (ss ! j)"
          using slots_tile_mono [OF "1.prems"(1) that(1), of mid] that by simp
        then show ?thesis using gt by simp
      qed (use gt in simp)
      have "first_slot ss a lo hi = first_slot ss a lo mid"
        using True gt u by (simp add: first_slot.simps [of ss a lo hi] mid_def Let_def)
      then show ?thesis
        using "1.IH"(2) [OF True mid_def _ "1.prems"(1,2) m(1) _ "1.prems"(5)] gt u above m by simp
    qed
  qed
qed

lemma spans_from_ok:
  assumes "slots_tile 0 ss e" and "e < 2 ^ 63" and "i \<le> length ss"
    and "0 < rem \<Longrightarrow> i < length ss \<and> slot_offset (ss ! i) \<le> cur" and "cur + rem \<le> e"
    and "\<forall>j < length ss. i \<le> j \<longrightarrow> cur < slot_offset (ss ! j) + slot_length (ss ! j) \<or> slot_length (ss ! j) = 0"
  shows "\<exists>sp. spans_from i (drop i ss) cur rem = (sp, 0) \<and> covers ss cur sp rem"
  using assms(3-6)
proof (induction "length ss - i" arbitrary: i cur rem)
  case 0
  then have "rem = 0" "drop i ss = []" by auto
  then show ?case by simp
next
  case (Suc n)
  then have i: "i < length ss" by simp
  then have d: "drop i ss = ss ! i # drop (Suc i) ss" by (rule Cons_nth_drop_Suc [symmetric])
  have en: "slot_offset (ss ! i) + slot_length (ss ! i) \<le> e" using slots_tile_nth [OF assms(1) i] by simp
  have next_off: "slot_offset (ss ! Suc i) = slot_offset (ss ! i) + slot_length (ss ! i)" if "Suc i < length ss"
    by (rule slots_tile_step [OF assms(1) that])
  have last_end: "slot_offset (ss ! i) + slot_length (ss ! i) = e" if "\<not> Suc i < length ss"
  proof -
    have "ss \<noteq> []" "length ss - 1 = i" using i that by auto
    then show ?thesis using slots_tile_last [OF assms(1)] by simp
  qed
  have n: "n = length ss - Suc i" using Suc.hyps(2) by simp
  show ?case
  proof (cases "rem = 0")
    case True
    then show ?thesis using d by (simp del: drop_Suc_Cons)
  next
    case False
    then have off: "slot_offset (ss ! i) \<le> cur" using Suc.prems(2) by simp
    show ?thesis
    proof (cases "slot_length (ss ! i) = 0")
      case zero: True
      have "\<exists>sp. spans_from (Suc i) (drop (Suc i) ss) cur rem = (sp, 0) \<and> covers ss cur sp rem"
      proof (rule Suc.hyps(1) [OF n])
        show "Suc i \<le> length ss" using i by simp
        show "cur + rem \<le> e" by fact
        show "Suc i < length ss \<and> slot_offset (ss ! Suc i) \<le> cur"
          using next_off last_end off zero False Suc.prems(3) by (cases "Suc i < length ss") auto
        show "\<forall>j < length ss. Suc i \<le> j \<longrightarrow> cur < slot_offset (ss ! j) + slot_length (ss ! j) \<or> slot_length (ss ! j) = 0"
          using Suc.prems(4) by auto
      qed
      then show ?thesis using d False zero by simp
    next
      case pos: False
      then have lt: "cur < slot_offset (ss ! i) + slot_length (ss ! i)" using Suc.prems(4) i by auto
      define l where "l = cur - slot_offset (ss ! i)"
      define c where "c = min (slot_length (ss ! i) - l) rem"
      have l: "sub64 cur (slot_offset (ss ! i)) = l" using off lt en assms(2) by (simp add: l_def sub64_id)
      have av: "sub64 (slot_length (ss ! i)) l = slot_length (ss ! i) - l"
        using off lt en assms(2) by (intro sub64_id) (auto simp: l_def)
      have c: "0 < c" "c \<le> rem" "l + c \<le> slot_length (ss ! i)" "slot_offset (ss ! i) + l = cur"
        using False lt off by (auto simp: c_def l_def)
      have u: "u64 (cur + c) = cur + c" using c(2) Suc.prems(3) assms(2) by (intro u64_id) simp
      have "\<exists>sp. spans_from (Suc i) (drop (Suc i) ss) (cur + c) (rem - c) = (sp, 0) \<and> covers ss (cur + c) sp (rem - c)"
      proof (rule Suc.hyps(1) [OF n])
        show "Suc i \<le> length ss" using i by simp
        show "cur + c + (rem - c) \<le> e" using Suc.prems(3) c by simp
        show "Suc i < length ss \<and> slot_offset (ss ! Suc i) \<le> cur + c" if "0 < rem - c"
        proof -
          have "cur + c = slot_offset (ss ! i) + slot_length (ss ! i)" using that c(4) lt by (auto simp: c_def l_def)
          then show ?thesis using next_off last_end that Suc.prems(3) by (cases "Suc i < length ss") auto
        qed
        show "\<forall>j < length ss. Suc i \<le> j \<longrightarrow> cur + c < slot_offset (ss ! j) + slot_length (ss ! j) \<or> slot_length (ss ! j) = 0"
        proof (intro allI impI)
          fix j assume j: "j < length ss" "Suc i \<le> j"
          then have "slot_offset (ss ! i) + slot_length (ss ! i) \<le> slot_offset (ss ! j)"
            using slots_tile_mono [OF assms(1) j(1), of i] by simp
          then show "cur + c < slot_offset (ss ! j) + slot_length (ss ! j) \<or> slot_length (ss ! j) = 0"
            using c by auto
        qed
      qed
      then obtain sp where sp: "spans_from (Suc i) (drop (Suc i) ss) (cur + c) (rem - c) = (sp, 0)"
        "covers ss (cur + c) sp (rem - c)" by blast
      have "spans_from i (drop i ss) cur rem = ((i, l, c) # sp, 0)"
        using d False pos l av u sp(1) by (simp add: Let_def c_def [symmetric])
      moreover have "covers ss cur ((i, l, c) # sp) rem" using i c sp(2) by simp
      ultimately show ?thesis by blast
    qed
  qed
qed

lemma spans_ok:
  assumes t: "slots_tile 0 ss e" and e: "e < 2 ^ 63" and r: "a + len \<le> e"
  shows "\<exists>sp. spans ss a len = (sp, 0) \<and> covers ss a sp len"
proof -
  let ?i = "first_slot ss a 0 (length ss)"
  note f = first_slot_spec [OF t e, of 0 "length ss" a, simplified]
  have "?i < length ss \<and> slot_offset (ss ! ?i) \<le> a" if "0 < len"
  proof -
    have i: "?i < length ss"
    proof (rule ccontr)
      assume "\<not> ?i < length ss"
      then have all: "\<forall>j < length ss. slot_offset (ss ! j) + slot_length (ss ! j) \<le> a" using f by auto
      show False
      proof (cases "ss = []")
        case True
        then show False using t r that by simp
      next
        case False
        then show False using all slots_tile_last [OF t False] r that by (metis diff_less leD length_greater_0_conv less_add_same_cancel1 less_le_trans zero_less_one)
      qed
    qed
    show ?thesis
    proof (cases ?i)
      case 0
      then show ?thesis using i slots_tile_head [OF t] by (cases "ss = []") auto
    next
      case (Suc k)
      then have "slot_offset (ss ! ?i) = slot_offset (ss ! k) + slot_length (ss ! k)"
        using slots_tile_step [OF t, of k] i by simp
      then show ?thesis using f i Suc by simp
    qed
  qed
  from spans_from_ok [OF t e _ this r] f show ?thesis by (simp add: spans_def Let_def)
qed

subsection \<open>Handles stay within the limit\<close>

lemma oldest_slot_open:
  "oldest_slot ss i best = Some j \<Longrightarrow>
   (\<exists>u. best = Some (j, u)) \<or> (i \<le> j \<and> j < i + length ss \<and> opened (ss ! (j - i)))"
proof (induction ss arbitrary: i best)
  case (Cons s ss)
  obtain b where b: "oldest_slot ss (Suc i) b = Some j" "b = best \<or> opened s \<and> (\<exists>u. b = Some (i, u))"
    using Cons.prems by (cases best) (auto split: if_splits)
  from Cons.IH [OF b(1)] show ?case
  proof
    assume "\<exists>u. b = Some (j, u)"
    with b(2) show ?thesis by auto
  next
    assume a: "Suc i \<le> j \<and> j < Suc i + length ss \<and> opened (ss ! (j - Suc i))"
    then have "j - i = Suc (j - Suc i)" by linarith
    with a show ?thesis by simp
  qed
qed auto

lemma oldest_slot_finds: "best \<noteq> None \<or> (\<exists>s \<in> set ss. opened s) \<Longrightarrow> oldest_slot ss i best \<noteq> None"
  by (induction ss i best rule: oldest_slot.induct) (auto split: option.splits)

lemma count_opened_update:
  "i < length ss \<Longrightarrow> count_list (map opened (ss[i := s])) True + (if opened (ss ! i) then 1 else 0) =
     count_list (map opened ss) True + (if opened s then 1 else 0)"
  using count_list_update [of i "map opened ss" "opened s" True] by (simp add: map_update)

lemma count_opened_pos: "0 < count_list (map opened ss) True \<Longrightarrow> \<exists>s \<in> set ss. opened s"
  by (induction ss) (auto split: if_splits)

text \<open>Updating one slot in its handle or its clock keeps the layout and the files.\<close>

lemma slots_ok_handle:
  assumes ok: "slots_ok st" and i: "i < length (slots st)"
    and s: "abs_path s = abs_path (slots st ! i)" "slot_offset s = slot_offset (slots st ! i)"
      "slot_length s = slot_length (slots st ! i)" "allocated s = allocated (slots st ! i)"
    and n: "n = count_list (map opened ((slots st)[i := s])) True" "n \<le> kMaxOpenHandles"
  shows "slots_ok (st\<lparr>slots := (slots st)[i := s], open_handles := n, sclock := c\<rparr>)"
    and "shape ((slots st)[i := s]) = shape (slots st)"
proof -
  show sh: "shape ((slots st)[i := s]) = shape (slots st)" by (rule shape_update [OF s(1-3)])
  have al: "allocated ((slots st)[i := s] ! k) = allocated (slots st ! k)" if "k < length (slots st)" for k
    using s(4) that by (cases "k = i") simp_all
  have p: "abs_path ((slots st)[i := s] ! k) = abs_path (slots st ! k)" if "k < length (slots st)" for k
    using shape_nth(2) [OF sh that] .
  show "slots_ok (st\<lparr>slots := (slots st)[i := s], open_handles := n, sclock := c\<rparr>)"
    using ok n slots_tile_shape [OF sh] shape_paths [OF sh] al p
    unfolding slots_ok_def by simp
qed

lemma evict_ok:
  assumes ok: "slots_ok st"
  shows "slots_ok (evict_if_needed st)" and "same_frame st (evict_if_needed st)" and "sdisk (evict_if_needed st) = sdisk st"
    and "open_handles (evict_if_needed st) < kMaxOpenHandles"
    and "\<And>k. k < length (slots st) \<Longrightarrow> \<not> opened (slots st ! k) \<Longrightarrow> \<not> opened (slots (evict_if_needed st) ! k)"
proof -
  have "slots_ok (evict_if_needed st) \<and> same_frame st (evict_if_needed st) \<and> sdisk (evict_if_needed st) = sdisk st \<and>
    open_handles (evict_if_needed st) < kMaxOpenHandles \<and>
    (\<forall>k < length (slots st). \<not> opened (slots st ! k) \<longrightarrow> \<not> opened (slots (evict_if_needed st) ! k))"
  proof (cases "open_handles st < kMaxOpenHandles")
    case True
    then show ?thesis using ok by (simp add: evict_if_needed_def same_frame_refl)
  next
    case False
    have c: "open_handles st = count_list (map opened (slots st)) True" "open_handles st \<le> kMaxOpenHandles"
      using ok by (simp_all add: slots_ok_def)
    have "0 < open_handles st" using False by (simp add: kMaxOpenHandles_def)
    then have "\<exists>s \<in> set (slots st). opened s" using c(1) count_opened_pos by simp
    then obtain i where i: "oldest_slot (slots st) 0 None = Some i" using oldest_slot_finds by blast
    then have io: "i < length (slots st)" "opened (slots st ! i)" using oldest_slot_open by fastforce+
    let ?s = "(slots st ! i)\<lparr>opened := False\<rparr>" and ?n = "open_handles st - 1"
    have n: "?n = count_list (map opened ((slots st)[i := ?s])) True"
      using count_opened_update [OF io(1), of ?s] io(2) c(1) by simp
    have e: "evict_if_needed st = st\<lparr>slots := (slots st)[i := ?s], open_handles := ?n, sclock := sclock st\<rparr>"
      using False i by (simp add: evict_if_needed_def)
    have le: "?n \<le> kMaxOpenHandles" "?n < kMaxOpenHandles" using c(2) \<open>0 < open_handles st\<close> by simp_all
    have sh: "shape ((slots st)[i := ?s]) = shape (slots st)" by (rule shape_update) simp_all
    have "\<not> opened (slots st ! k) \<Longrightarrow> \<not> opened ((slots st)[i := ?s] ! k)" if "k < length (slots st)" for k
      using that by (cases "k = i") simp_all
    then show ?thesis unfolding e
      using slots_ok_handle(1) [OF ok io(1) _ _ _ _ n le(1), of "sclock st"] sh le(2)
      by (simp add: same_frame_def)
  qed
  then show "slots_ok (evict_if_needed st)" "same_frame st (evict_if_needed st)" "sdisk (evict_if_needed st) = sdisk st"
    "open_handles (evict_if_needed st) < kMaxOpenHandles"
    "\<And>k. k < length (slots st) \<Longrightarrow> \<not> opened (slots st ! k) \<Longrightarrow> \<not> opened (slots (evict_if_needed st) ! k)"
    by blast+
qed

lemma acquire_ok:
  assumes ok: "slots_ok st" and i: "i < length (slots st)" and a: "acquire i st = (st', r)"
  shows "slots_ok st'" and "same_frame st st'" and "sdisk st' = sdisk st"
    and "r \<Longrightarrow> opened (slots st' ! i)" and "can_open (sdisk st) (abs_path (slots st ! i)) \<Longrightarrow> r"
proof -
  have touch: "slots_ok (s1\<lparr>sclock := sclock s1 + 1, slots := (slots s1)[i := (slots s1 ! i)\<lparr>slot_used := sclock s1 + 1\<rparr>]\<rparr>) \<and>
      shape ((slots s1)[i := (slots s1 ! i)\<lparr>slot_used := sclock s1 + 1\<rparr>]) = shape (slots s1)"
    if s1: "slots_ok s1" "i < length (slots s1)" for s1
  proof -
    let ?s = "(slots s1 ! i)\<lparr>slot_used := sclock s1 + 1\<rparr>"
    have n: "open_handles s1 = count_list (map opened ((slots s1)[i := ?s])) True"
      using count_opened_update [OF s1(2), of ?s] s1(1) by (auto simp: slots_ok_def split: if_splits)
    have le: "open_handles s1 \<le> kMaxOpenHandles" using s1(1) by (simp add: slots_ok_def)
    have "slots_ok (s1\<lparr>slots := (slots s1)[i := ?s], open_handles := open_handles s1, sclock := sclock s1 + 1\<rparr>)"
      by (rule slots_ok_handle(1) [OF s1 _ _ _ _ n le]) simp_all
    then show ?thesis by (simp add: shape_update slots_ok_def)
  qed
  have "slots_ok st' \<and> same_frame st st' \<and> sdisk st' = sdisk st \<and> (r \<longrightarrow> opened (slots st' ! i)) \<and>
    (can_open (sdisk st) (abs_path (slots st ! i)) \<longrightarrow> r)"
  proof (cases "opened (slots st ! i)")
    case True
    then have "st' = st\<lparr>sclock := sclock st + 1, slots := (slots st)[i := (slots st ! i)\<lparr>slot_used := sclock st + 1\<rparr>]\<rparr>" "r"
      using a by (simp_all add: acquire_def Let_def)
    then show ?thesis using touch [OF ok i] True i by (simp add: same_frame_def)
  next
    case closed: False
    define s1 where "s1 = evict_if_needed st"
    note ev = evict_ok [OF ok, folded s1_def]
    have i1: "i < length (slots s1)" "abs_path (slots s1 ! i) = abs_path (slots st ! i)"
      using shape_nth(1,2) [of "slots s1" "slots st"] ev(2) i by (simp_all add: same_frame_def)
    show ?thesis
    proof (cases "can_open (sdisk st) (abs_path (slots st ! i))")
      case False
      then have "st' = s1" "\<not> r" using a closed i1(2) ev(3) by (simp_all add: acquire_def Let_def s1_def [symmetric])
      then show ?thesis using ev False by simp
    next
      case True
      let ?s = "(slots s1 ! i)\<lparr>opened := True\<rparr>" and ?n = "open_handles s1 + 1"
      define s2 where "s2 = s1\<lparr>slots := (slots s1)[i := ?s], open_handles := ?n\<rparr>"
      have n: "?n = count_list (map opened ((slots s1)[i := ?s])) True"
        using count_opened_update [OF i1(1), of ?s] ev(1) ev(5) [OF i closed] by (simp add: slots_ok_def)
      have le: "?n \<le> kMaxOpenHandles" using ev(4) by simp
      have "slots_ok (s1\<lparr>slots := (slots s1)[i := ?s], open_handles := ?n, sclock := sclock s1\<rparr>)"
        by (rule slots_ok_handle(1) [OF ev(1) i1(1) _ _ _ _ n le]) simp_all
      then have ok2: "slots_ok s2" by (simp add: s2_def slots_ok_def)
      have f2: "same_frame s1 s2" "sdisk s2 = sdisk s1" by (simp_all add: same_frame_def s2_def shape_update)
      have i2: "i < length (slots s2)" "opened (slots s2 ! i)" using i1 by (simp_all add: s2_def)
      have st': "st' = s2\<lparr>sclock := sclock s2 + 1, slots := (slots s2)[i := (slots s2 ! i)\<lparr>slot_used := sclock s2 + 1\<rparr>]\<rparr>" "r"
        using a closed True i1(2) ev(3) by (simp_all add: acquire_def Let_def s1_def [symmetric] s2_def)
      have "same_frame s2 st'" using touch [OF ok2 i2(1)] by (simp add: st' same_frame_def)
      then have "same_frame st st'" using ev(2) f2(1) same_frame_trans by blast
      moreover have "slots_ok st'" using touch [OF ok2 i2(1)] by (simp add: st'(1))
      moreover have "sdisk st' = sdisk st" using f2(2) ev(3) by (simp add: st'(1))
      moreover have "opened (slots st' ! i)" using i2 by (simp add: st'(1))
      ultimately show ?thesis using st'(2) by blast
    qed
  qed
  then show "slots_ok st'" "same_frame st st'" "sdisk st' = sdisk st" "r \<Longrightarrow> opened (slots st' ! i)"
    "can_open (sdisk st) (abs_path (slots st ! i)) \<Longrightarrow> r" by blast+
qed

subsection \<open>The content, by absolute position\<close>

text \<open>The abstract content of a torrent on the card: the byte at each position, if its file reaches it.\<close>

definition byte_at :: "storage \<Rightarrow> nat \<Rightarrow> nat \<Rightarrow> byte option" where
  "byte_at st i l =
     (case contents (sdisk st) (abs_path (slots st ! i)) of
        None \<Rightarrow> None
      | Some c \<Rightarrow> if l < length c then Some (c ! l) else None)"

definition content_at :: "storage \<Rightarrow> nat \<Rightarrow> byte option" where
  "content_at st pos =
     (case find (\<lambda>i. slot_offset (slots st ! i) \<le> pos \<and> pos < slot_offset (slots st ! i) + slot_length (slots st ! i))
        [0..<length (slots st)] of
        None \<Rightarrow> None
      | Some i \<Rightarrow> byte_at st i (pos - slot_offset (slots st ! i)))"

definition kept :: "storage \<Rightarrow> storage \<Rightarrow> nat \<Rightarrow> nat \<Rightarrow> bool" where
  "kept st st' a n \<longleftrightarrow> (\<forall>pos b. \<not> (a \<le> pos \<and> pos < a + n) \<longrightarrow> content_at st pos = Some b \<longrightarrow> content_at st' pos = Some b)"

definition holds_at :: "storage \<Rightarrow> nat \<Rightarrow> bytes \<Rightarrow> bool" where
  "holds_at st a data \<longleftrightarrow> (\<forall>k < length data. content_at st (a + k) = Some (data ! k))"

text \<open>The disk opens every file of the torrent and lets it reach its length.\<close>

definition disk_serves :: "storage \<Rightarrow> bool" where
  "disk_serves st \<longleftrightarrow> (\<forall>s \<in> set (slots st). openable (sdisk st) (abs_path s) \<and> slot_length s \<le> max_size (sdisk st) (abs_path s))"

lemma disk_serves_frame: "same_frame st st' \<Longrightarrow> disk_serves st' = disk_serves st"
proof -
  assume f: "same_frame st st'"
  note n = shape_nth [of "slots st'" "slots st"]
  show ?thesis using n f unfolding disk_serves_def same_frame_def all_set_conv_all_nth by auto
qed

lemma disk_serves_nth:
  assumes "disk_serves st" "slots_ok st" "i < length (slots st)"
  shows "can_open (sdisk st) (abs_path (slots st ! i))" "slot_length (slots st ! i) \<le> max_size (sdisk st) (abs_path (slots st ! i))"
  using assms unfolding disk_serves_def slots_ok_def can_open_def by auto

lemma content_at_slot:
  assumes ok: "slots_ok st" and i: "i < length (slots st)" and l: "l < slot_length (slots st ! i)"
  shows "content_at st (slot_offset (slots st ! i) + l) = byte_at st i l"
proof -
  let ?P = "\<lambda>k. slot_offset (slots st ! k) \<le> slot_offset (slots st ! i) + l \<and>
    slot_offset (slots st ! i) + l < slot_offset (slots st ! k) + slot_length (slots st ! k)"
  have u: "k = i" if k: "k < length (slots st)" "?P k" for k
  proof -
    have t: "slots_tile 0 (slots st) (total_size (smeta st))" using ok by (simp add: slots_ok_def)
    obtain m where m: "slot_offset (slots st ! i) + l = slot_offset (slots st ! k) + m"
      using k(2) le_Suc_ex by blast
    then have "m < slot_length (slots st ! k)" using k(2) by simp
    from slots_tile_unique [OF t i k(1) m l this] show ?thesis by simp
  qed
  have "find ?P [0..<length (slots st)] \<noteq> None" using i l by (auto simp: find_None_iff intro!: exI [of _ i])
  then obtain k where k: "find ?P [0..<length (slots st)] = Some k" by blast
  then have "k < length (slots st)" "?P k" by (auto simp: find_Some_iff)
  then have "k = i" by (rule u)
  then show ?thesis using k by (simp add: content_at_def)
qed

lemma content_at_elim:
  assumes "content_at st pos = Some b"
  obtains i l where "i < length (slots st)" "l < slot_length (slots st ! i)" "pos = slot_offset (slots st ! i) + l"
proof -
  from assms obtain i where "find (\<lambda>i. slot_offset (slots st ! i) \<le> pos \<and> pos < slot_offset (slots st ! i) + slot_length (slots st ! i))
        [0..<length (slots st)] = Some i"
    unfolding content_at_def by (auto split: option.splits)
  then have "i < length (slots st)" "slot_offset (slots st ! i) \<le> pos" "pos < slot_offset (slots st ! i) + slot_length (slots st ! i)"
    by (auto simp: find_Some_iff)
  then show thesis using that [of i "pos - slot_offset (slots st ! i)"] by simp
qed

lemma kept_refl: "kept st st a n"
  by (simp add: kept_def)

lemma kept_wider: "kept st st' a n \<Longrightarrow> b \<le> a \<Longrightarrow> a + n \<le> b + m \<Longrightarrow> kept st st' b m"
  by (auto simp: kept_def)

lemma kept_trans: "kept st st1 a n \<Longrightarrow> kept st1 st2 a n \<Longrightarrow> kept st st2 a n"
  unfolding kept_def by blast

lemma kept_holds:
  assumes "kept st st' a n" "holds_at st b data" "b + length data \<le> a \<or> a + n \<le> b"
  shows "holds_at st' b data"
  unfolding holds_at_def
proof (intro allI impI)
  fix k assume k: "k < length data"
  then have "content_at st (b + k) = Some (data ! k)" "\<not> (a \<le> b + k \<and> b + k < a + n)"
    using assms(2,3) by (auto simp: holds_at_def)
  then show "content_at st' (b + k) = Some (data ! k)" using assms(1) by (simp add: kept_def)
qed

lemma holds_at_append:
  assumes "holds_at st a xs" "holds_at st (a + length xs) ys"
  shows "holds_at st a (xs @ ys)"
  unfolding holds_at_def
proof (intro allI impI)
  fix k assume k: "k < length (xs @ ys)"
  show "content_at st (a + k) = Some ((xs @ ys) ! k)"
  proof (cases "k < length xs")
    case True
    then show ?thesis using assms(1) by (simp add: holds_at_def nth_append)
  next
    case False
    then obtain m where "k = length xs + m" using le_Suc_ex not_less by blast
    then show ?thesis using assms(2) k by (simp add: holds_at_def add.assoc)
  qed
qed

text \<open>Changing nothing but handles and clocks changes no content.\<close>

lemma content_at_frame: "same_frame st st' \<Longrightarrow> contents (sdisk st') = contents (sdisk st) \<Longrightarrow> content_at st' = content_at st"
proof (rule ext)
  fix pos
  assume f: "same_frame st st'" and d: "contents (sdisk st') = contents (sdisk st)"
  note n = shape_nth [of "slots st'" "slots st"]
  have sh: "shape (slots st') = shape (slots st)" using f by (simp add: same_frame_def)
  have "find (\<lambda>i. slot_offset (slots st' ! i) \<le> pos \<and> pos < slot_offset (slots st' ! i) + slot_length (slots st' ! i)) [0..<length (slots st')]
      = find (\<lambda>i. slot_offset (slots st ! i) \<le> pos \<and> pos < slot_offset (slots st ! i) + slot_length (slots st ! i)) [0..<length (slots st)]"
    using n [OF sh] by (intro find_cong) auto
  moreover have "find (\<lambda>i. slot_offset (slots st ! i) \<le> pos \<and> pos < slot_offset (slots st ! i) + slot_length (slots st ! i)) [0..<length (slots st)] = Some i
     \<Longrightarrow> i < length (slots st)" for i by (auto simp: find_Some_iff)
  ultimately show "content_at st' pos = content_at st pos"
    using n [OF sh] d by (auto simp: content_at_def byte_at_def split: option.splits)
qed

subsection \<open>Writing\<close>

lemma slots_ok_content:
  assumes ok: "slots_ok st" and i: "i < length (slots st)"
    and st': "st' = st\<lparr>sdisk := (sdisk st)\<lparr>contents := (contents (sdisk st))(abs_path (slots st ! i) \<mapsto> c)\<rparr>,
      slots := (slots st)[i := (slots st ! i)\<lparr>allocated := length c\<rparr>]\<rparr>"
  shows "slots_ok st'" and "same_frame st st'"
    and "k < length (slots st) \<Longrightarrow> byte_at st' k l = (if k = i then if l < length c then Some (c ! l) else None else byte_at st k l)"
proof -
  have sh: "shape (slots st') = shape (slots st)" unfolding st' by (simp add: shape_update)
  show "same_frame st st'" using sh by (simp add: same_frame_def st')
  have p: "abs_path (slots st' ! k) = abs_path (slots st ! k)" if "k < length (slots st)" for k
    using shape_nth(2) [OF sh that] .
  have ne: "abs_path (slots st ! k) \<noteq> abs_path (slots st ! i)" if "k < length (slots st)" "k \<noteq> i" for k
    using ok i that nth_eq_iff_index_eq [of "map abs_path (slots st)" k i] by (simp add: slots_ok_def)
  have cont: "contents (sdisk st') (abs_path (slots st ! k)) = (if k = i then Some c else contents (sdisk st) (abs_path (slots st ! k)))"
    if "k < length (slots st)" for k using ne [OF that] by (simp add: st')
  have "\<exists>x. contents (sdisk st') (abs_path (slots st' ! k)) = Some x \<and> length x = allocated (slots st' ! k)"
    if "k < length (slots st)" for k
    using ok that cont [OF that] p [OF that] by (cases "k = i") (simp_all add: slots_ok_def st')
  moreover have "map opened (slots st') = map opened (slots st)"
    by (simp add: st' map_update list_update_same_conv i)
  ultimately show "slots_ok st'"
    using ok slots_tile_shape [OF sh] shape_paths [OF sh] unfolding slots_ok_def by (simp add: st')
  show "k < length (slots st) \<Longrightarrow> byte_at st' k l = (if k = i then if l < length c then Some (c ! l) else None else byte_at st k l)"
    using cont [of k] p [of k] by (simp add: byte_at_def)
qed

lemma content_at_frame_at:
  assumes "slots_ok st'" "same_frame st st'" "i < length (slots st)" "l < slot_length (slots st ! i)"
  shows "content_at st' (slot_offset (slots st ! i) + l) = byte_at st' i l"
proof -
  have sh: "shape (slots st') = shape (slots st)" using assms(2) by (simp add: same_frame_def)
  show ?thesis using content_at_slot [OF assms(1), of i l] shape_nth [OF sh] assms(3,4) by simp
qed

text \<open>What a call does to the bytes of one file, seen through the absolute positions.\<close>

lemma kept_slotwise:
  assumes ok: "slots_ok st" "slots_ok st'" "same_frame st st'" and i: "i < length (slots st)"
    and l: "local + n \<le> slot_length (slots st ! i)"
    and b: "\<And>k m x. k < length (slots st) \<Longrightarrow> \<not> (k = i \<and> local \<le> m \<and> m < local + n) \<Longrightarrow>
      byte_at st k m = Some x \<Longrightarrow> byte_at st' k m = Some x"
  shows "kept st st' (slot_offset (slots st ! i) + local) n"
  unfolding kept_def
proof (intro allI impI)
  fix pos x
  assume out: "\<not> (slot_offset (slots st ! i) + local \<le> pos \<and> pos < slot_offset (slots st ! i) + local + n)"
    and c: "content_at st pos = Some x"
  obtain k m where k: "k < length (slots st)" "m < slot_length (slots st ! k)" "pos = slot_offset (slots st ! k) + m"
    using content_at_elim [OF c] .
  have "byte_at st k m = Some x" using content_at_slot [OF ok(1) k(1,2)] c k(3) by simp
  moreover have "\<not> (k = i \<and> local \<le> m \<and> m < local + n)" using out k(3) by auto
  ultimately have "byte_at st' k m = Some x" using b k(1) by blast
  then show "content_at st' pos = Some x" using content_at_frame_at [OF ok(2,3) k(1,2)] k(3) by simp
qed

lemma ensure_allocated_ok:
  assumes ok: "slots_ok st" and i: "i < length (slots st)" and n: "needed \<le> slot_length (slots st ! i)"
    and e: "ensure_allocated i needed st = (st', r)"
  shows "slots_ok st'" and "same_frame st st'" and "kept st st' a 0" and "r \<Longrightarrow> needed \<le> allocated (slots st' ! i)"
    and "opened (slots st ! i) \<Longrightarrow> slot_length (slots st ! i) \<le> max_size (sdisk st) (abs_path (slots st ! i)) \<Longrightarrow> r"
proof -
  let ?s = "slots st ! i"
  have "slots_ok st' \<and> same_frame st st' \<and> kept st st' a 0 \<and> (r \<longrightarrow> needed \<le> allocated (slots st' ! i)) \<and>
    (opened ?s \<longrightarrow> slot_length ?s \<le> max_size (sdisk st) (abs_path ?s) \<longrightarrow> r)"
  proof (cases "needed \<le> allocated ?s \<or> \<not> opened ?s")
    case True
    then have "st' = st \<and> (r \<longrightarrow> needed \<le> allocated ?s) \<and> (opened ?s \<longrightarrow> r)"
      using e by (cases "needed \<le> allocated ?s") (auto simp: ensure_allocated_def Let_def)
    then show ?thesis using ok by (simp add: same_frame_refl kept_refl)
  next
    case grow: False
    obtain c where c: "contents (sdisk st) (abs_path ?s) = Some c" "length c = allocated ?s"
      using ok i by (auto simp: slots_ok_def)
    have "slot_offset ?s + slot_length ?s \<le> total_size (smeta st)" "total_size (smeta st) < 2 ^ 63"
      using ok slots_tile_nth [of 0 "slots st"] i by (auto simp: slots_ok_def)
    then have small: "needed < 2 ^ 63" using n by simp
    define t0 where "t0 = (needed + kGrowChunk - 1) div kGrowChunk * kGrowChunk"
    define target where "target = (if slot_length ?s < t0 then slot_length ?s else t0)"
    have t0: "needed \<le> t0" "t0 < needed + kGrowChunk"
      using div_mult_mod_eq [of "needed + kGrowChunk - 1" kGrowChunk] mod_less_divisor [of kGrowChunk "needed + kGrowChunk - 1"]
      unfolding t0_def by (simp_all add: kGrowChunk_def)
    have u: "u64 (needed + kGrowChunk - 1) = needed + kGrowChunk - 1" "u64 t0 = t0"
      using small t0(2) by (auto intro!: u64_id simp: kGrowChunk_def)
    have t: "needed \<le> target" "allocated ?s \<le> target" "target \<le> slot_length ?s"
      using t0(1) n grow by (auto simp: target_def)
    have e': "(case ftruncate (abs_path ?s) target (sdisk st) of None \<Rightarrow> (st, False)
       | Some d \<Rightarrow> (st\<lparr>sdisk := d, slots := (slots st)[i := ?s\<lparr>allocated := target\<rparr>]\<rparr>, True)) = (st', r)"
      using e grow unfolding ensure_allocated_def Let_def u(1) t0_def [symmetric] u(2) target_def [symmetric] by simp
    show ?thesis
    proof (cases "target \<le> max_size (sdisk st) (abs_path ?s)")
      case False
      then have "st' = st" "\<not> r" using e' c by (simp_all add: ftruncate_def)
      then show ?thesis using ok False t(3) by (simp add: same_frame_refl kept_refl)
    next
      case True
      let ?c = "c @ replicate (target - length c) 0"
      have len: "length ?c = target" using t(2) c(2) by simp
      have r: r and st': "st' = st\<lparr>sdisk := (sdisk st)\<lparr>contents := (contents (sdisk st))(abs_path ?s \<mapsto> ?c)\<rparr>,
          slots := (slots st)[i := ?s\<lparr>allocated := length ?c\<rparr>]\<rparr>"
        using e' True c t(2) len by (simp_all add: ftruncate_def)
      note w = slots_ok_content [OF ok i st']
      have old: "byte_at st i m = Some x \<Longrightarrow> m < length ?c \<and> ?c ! m = x" for m x
        using c t(2) by (auto simp: byte_at_def nth_append split: if_splits)
      have "kept st st' (slot_offset ?s + 0) 0"
        by (rule kept_slotwise [OF ok w(1,2) i]) (use w(3) old in \<open>auto split: if_splits\<close>)
      then have "kept st st' a 0" by (simp add: kept_def)
      moreover have "needed \<le> allocated (slots st' ! i)" using t(1) len i by (simp add: st')
      ultimately show ?thesis using w(1,2) r by blast
    qed
  qed
  then show "slots_ok st'" "same_frame st st'" "kept st st' a 0" "r \<Longrightarrow> needed \<le> allocated (slots st' ! i)"
    "opened ?s \<Longrightarrow> slot_length ?s \<le> max_size (sdisk st) (abs_path ?s) \<Longrightarrow> r" by blast+
qed

text \<open>One step of the writing: the invariant, the frame, what stays, and what a success stores.\<close>

definition wrote :: "storage \<Rightarrow> storage \<Rightarrow> nat \<Rightarrow> bytes \<Rightarrow> bool \<Rightarrow> bool" where
  "wrote st st' a data r \<longleftrightarrow> slots_ok st' \<and> same_frame st st' \<and> kept st st' a (length data) \<and>
     (r \<longrightarrow> holds_at st' a data) \<and> (disk_serves st \<longrightarrow> r)"

lemma fwrite_wrote:
  assumes ok: "slots_ok st" and i: "i < length (slots st)" and l: "local + length data \<le> slot_length (slots st ! i)"
    and al: "local + length data \<le> allocated (slots st ! i)"
  shows "\<exists>d. fwrite (abs_path (slots st ! i)) local data (sdisk st) = Some d \<and>
    wrote st (st\<lparr>sdisk := d\<rparr>) (slot_offset (slots st ! i) + local) data True"
proof -
  let ?s = "slots st ! i"
  obtain c where c: "contents (sdisk st) (abs_path ?s) = Some c" "length c = allocated ?s"
    using ok i by (auto simp: slots_ok_def)
  define c' where "c' = take local c @ data @ drop (local + length data) c"
  have len: "length c' = length c" using al c(2) by (simp add: c'_def)
  define d where "d = (sdisk st)\<lparr>contents := (contents (sdisk st))(abs_path ?s \<mapsto> c')\<rparr>"
  have d: "fwrite (abs_path ?s) local data (sdisk st) = Some d"
    using c al by (simp add: fwrite_def d_def c'_def)
  have st': "st\<lparr>sdisk := d\<rparr> = st\<lparr>sdisk := (sdisk st)\<lparr>contents := (contents (sdisk st))(abs_path ?s \<mapsto> c')\<rparr>,
      slots := (slots st)[i := ?s\<lparr>allocated := length c'\<rparr>]\<rparr>"
    using c(2) len by (simp add: d_def)
  note w = slots_ok_content [OF ok i st']
  have old: "c' ! m = c ! m" if "m < length c" "\<not> (local \<le> m \<and> m < local + length data)" for m
    using that al c(2) by (auto simp: c'_def nth_append min_def)
  have new: "c' ! (local + m) = data ! m" if "m < length data" for m
    using that al c(2) by (simp add: c'_def nth_append)
  have b: "byte_at st i m = (if m < length c then Some (c ! m) else None)" for m using c by (simp add: byte_at_def)
  have "kept st (st\<lparr>sdisk := d\<rparr>) (slot_offset ?s + local) (length data)"
  proof (rule kept_slotwise [OF ok w(1,2) i l])
    fix k m x
    assume k: "k < length (slots st)" and o: "\<not> (k = i \<and> local \<le> m \<and> m < local + length data)"
      and x: "byte_at st k m = Some x"
    show "byte_at (st\<lparr>sdisk := d\<rparr>) k m = Some x"
      unfolding w(3) [OF k] len using o x old [of m] b [of m] by (auto split: if_splits)
  qed
  moreover have "holds_at (st\<lparr>sdisk := d\<rparr>) (slot_offset ?s + local) data"
    unfolding holds_at_def
  proof (intro allI impI)
    fix m assume m: "m < length data"
    have "content_at (st\<lparr>sdisk := d\<rparr>) (slot_offset ?s + (local + m)) = byte_at (st\<lparr>sdisk := d\<rparr>) i (local + m)"
      using content_at_frame_at [OF w(1,2) i, of "local + m"] l m by simp
    then show "content_at (st\<lparr>sdisk := d\<rparr>) (slot_offset ?s + local + m) = Some (data ! m)"
      unfolding w(3) [OF i] using new [OF m] m al c(2) len by (simp add: add.assoc)
  qed
  ultimately show ?thesis using d w(1,2) by (auto simp: wrote_def)
qed

lemma write_span_ok:
  assumes ok: "slots_ok st" and i: "i < length (slots st)" and l: "local + length data \<le> slot_length (slots st ! i)"
    and w: "write_span i local data st = (st', r)"
  shows "wrote st st' (slot_offset (slots st ! i) + local) data r"
proof -
  let ?a = "slot_offset (slots st ! i) + local"
  obtain s1 r1 where a: "acquire i st = (s1, r1)" by fastforce
  note acq = acquire_ok [OF ok i a]
  have k1: "kept st s1 ?a (length data)" using content_at_frame [OF acq(2)] acq(3) by (simp add: kept_def)
  have n1: "i < length (slots s1)" "slot_length (slots s1 ! i) = slot_length (slots st ! i)"
    "slot_offset (slots s1 ! i) = slot_offset (slots st ! i)"
    using shape_nth [of "slots s1" "slots st"] acq(2) i by (simp_all add: same_frame_def)
  show ?thesis
  proof (cases r1)
    case False
    then have "st' = s1" "\<not> r" using w a by (simp_all add: write_span_def)
    then show ?thesis using acq k1 False disk_serves_nth(1) [OF _ ok i] by (auto simp: wrote_def)
  next
    case True
    have "total_size (smeta st) < 2 ^ 63" "slot_offset (slots st ! i) + slot_length (slots st ! i) \<le> total_size (smeta st)"
      using ok slots_tile_nth [of 0 "slots st"] i by (auto simp: slots_ok_def)
    then have u: "u64 (local + length data) = local + length data" using l by (intro u64_id) simp
    obtain s2 r2 where e: "ensure_allocated i (local + length data) s1 = (s2, r2)" by fastforce
    have "local + length data \<le> slot_length (slots s1 ! i)" using l n1 by simp
    note ens = ensure_allocated_ok [OF acq(1) n1(1) this e]
    have f2: "same_frame st s2" using acq(2) ens(2) by (rule same_frame_trans)
    have k2: "kept st s2 ?a (length data)"
      using kept_trans [OF k1 kept_wider [OF ens(3) [of ?a]]] by simp
    have n2: "i < length (slots s2)" "slot_length (slots s2 ! i) = slot_length (slots st ! i)"
      "slot_offset (slots s2 ! i) = slot_offset (slots st ! i)"
      using shape_nth [of "slots s2" "slots st"] f2 i by (simp_all add: same_frame_def)
    show ?thesis
    proof (cases r2)
      case False
      then have "st' = s2" "\<not> r" using w a e True u by (simp_all add: write_span_def)
      moreover have "\<not> disk_serves st"
        using False ens(5) acq(4) [OF True] disk_serves_nth(2) [OF _ acq(1) n1(1)] disk_serves_frame [OF acq(2)] by blast
      ultimately show ?thesis using ens(1) f2 k2 by (simp add: wrote_def)
    next
      case r2: True
      have l2: "local + length data \<le> slot_length (slots s2 ! i)" using l n2 by simp
      obtain d where d: "fwrite (abs_path (slots s2 ! i)) local data (sdisk s2) = Some d"
        "wrote s2 (s2\<lparr>sdisk := d\<rparr>) (slot_offset (slots s2 ! i) + local) data True"
        using fwrite_wrote [OF ens(1) n2(1) l2 ens(4) [OF r2]] by blast
      have st': "st' = s2\<lparr>sdisk := d\<rparr>" "r" using w a e True r2 u d(1) by (simp_all add: write_span_def)
      have d': "slots_ok st'" "same_frame s2 st'" "kept s2 st' ?a (length data)" "holds_at st' ?a data"
        using d(2) n2(3) by (simp_all add: wrote_def st'(1))
      then show ?thesis using same_frame_trans [OF f2 d'(2)] kept_trans [OF k2 d'(3)] st'(2) by (simp add: wrote_def)
    qed
  qed
qed

lemma covers_shape: "shape ss' = shape ss \<Longrightarrow> covers ss' cur sp len = covers ss cur sp len"
proof (induction ss cur sp len rule: covers.induct)
  case (2 ss cur i l c sp len)
  then show ?case using shape_nth [OF 2(2)] by (cases "i < length ss") simp_all
qed simp

lemma write_spans_ok:
  assumes "slots_ok st" and "covers (slots st) cur sp (length data)" and "write_spans sp data st = (st', r)"
  shows "wrote st st' cur data r"
  using assms
proof (induction sp data st arbitrary: cur rule: write_spans.induct)
  case (1 data st)
  then show ?case by (simp add: wrote_def same_frame_refl kept_refl holds_at_def)
next
  case (2 i local chunk sp data st)
  have c: "i < length (slots st)" "slot_offset (slots st ! i) + local = cur" "local + chunk \<le> slot_length (slots st ! i)"
    "chunk \<le> length data" "covers (slots st) (cur + chunk) sp (length data - chunk)"
    using "2.prems"(2) by simp_all
  obtain s1 r1 where w1: "write_span i local (take chunk data) st = (s1, r1)" by fastforce
  have tl: "length (take chunk data) = chunk" using c(4) by simp
  have w: "wrote st s1 cur (take chunk data) r1"
    using write_span_ok [OF "2.prems"(1) c(1) _ w1] c(2,3) tl by simp
  have k1: "kept st s1 cur (length data)" using w c(4) by (auto simp: wrote_def intro: kept_wider)
  show ?case
  proof (cases r1)
    case False
    then have "st' = s1" "\<not> r" using "2.prems"(3) w1 by simp_all
    then show ?thesis using w k1 False by (simp add: wrote_def)
  next
    case True
    have w2: "write_spans sp (drop chunk data) s1 = (st', r)" using "2.prems"(3) w1 True by simp
    have s1: "slots_ok s1" "same_frame st s1" "holds_at s1 cur (take chunk data)" using w True by (simp_all add: wrote_def)
    have sh: "shape (slots s1) = shape (slots st)" using s1(2) by (simp add: same_frame_def)
    have r: "wrote s1 st' (cur + chunk) (drop chunk data) r"
      by (rule "2.IH" [OF w1 [symmetric] refl True s1(1) _ w2]) (use c(5) covers_shape [OF sh] in simp)
    then have k2: "kept s1 st' (cur + chunk) (length data - chunk)" by (simp add: wrote_def)
    have "kept s1 st' cur (length data)" by (rule kept_wider [OF k2]) (use c(4) in simp_all)
    then have "kept st st' cur (length data)" by (rule kept_trans [OF k1])
    moreover have "holds_at st' cur data" if r
    proof -
      have "holds_at st' cur (take chunk data)" by (rule kept_holds [OF k2 s1(3)]) (simp add: tl)
      moreover have "holds_at st' (cur + length (take chunk data)) (drop chunk data)" using r that tl by (simp add: wrote_def)
      ultimately have "holds_at st' cur (take chunk data @ drop chunk data)" by (rule holds_at_append)
      then show ?thesis by simp
    qed
    moreover have "same_frame st st'" using s1(2) r by (auto simp: wrote_def intro: same_frame_trans)
    moreover have "disk_serves st \<longrightarrow> r" using r disk_serves_frame [OF s1(2)] by (simp add: wrote_def)
    ultimately show ?thesis using r by (simp add: wrote_def)
  qed
qed

text \<open>What is written: within the torrent the write succeeds on a disk that serves it, and then the bytes
  are there; beyond the torrent nothing happens.\<close>

lemma write_through_ok:
  assumes ok: "slots_ok st" and w: "write_through piece off data st = (st', r)"
    and a: "abs_position st piece off + length data < 2 ^ 64"
  shows "slots_ok st'" and "same_frame st st'" and "kept st st' (abs_position st piece off) (length data)"
    and "r \<Longrightarrow> holds_at st' (abs_position st piece off) data \<and> abs_position st piece off + length data \<le> total_size (smeta st)"
    and "disk_serves st \<Longrightarrow> abs_position st piece off + length data \<le> total_size (smeta st) \<Longrightarrow> r"
proof -
  let ?a = "abs_position st piece off"
  have "slots_ok st' \<and> same_frame st st' \<and> kept st st' ?a (length data) \<and>
    (r \<longrightarrow> holds_at st' ?a data \<and> ?a + length data \<le> total_size (smeta st)) \<and>
    (disk_serves st \<longrightarrow> ?a + length data \<le> total_size (smeta st) \<longrightarrow> r)"
  proof (cases "?a + length data \<le> total_size (smeta st)")
    case False
    then have "st' = st" "\<not> r" using w u64_id [OF a] by (simp_all add: write_through_def Let_def)
    then show ?thesis using ok False by (simp add: same_frame_refl kept_refl)
  next
    case True
    have "slots_tile 0 (slots st) (total_size (smeta st))" "total_size (smeta st) < 2 ^ 63" using ok by (simp_all add: slots_ok_def)
    from spans_ok [OF this True] obtain sp where sp: "spans (slots st) ?a (length data) = (sp, 0)"
      "covers (slots st) ?a sp (length data)" by blast
    obtain s1 r1 where ws: "write_spans sp data st = (s1, r1)" by fastforce
    have "st' = s1" "r = r1" using w u64_id [OF a] True sp(1) ws by (simp_all add: write_through_def Let_def)
    then show ?thesis using write_spans_ok [OF ok sp(2) ws] True by (simp add: wrote_def)
  qed
  then show "slots_ok st'" "same_frame st st'" "kept st st' ?a (length data)"
    "r \<Longrightarrow> holds_at st' ?a data \<and> ?a + length data \<le> total_size (smeta st)"
    "disk_serves st \<Longrightarrow> ?a + length data \<le> total_size (smeta st) \<Longrightarrow> r" by blast+
qed

subsection \<open>Reading\<close>

text \<open>One step of the reading: the bytes it yields are those of the content, and no file changes.\<close>

definition read_as :: "storage \<Rightarrow> storage \<Rightarrow> nat \<Rightarrow> nat \<Rightarrow> bytes option \<Rightarrow> bool" where
  "read_as st st' a n r \<longleftrightarrow> slots_ok st' \<and> same_frame st st' \<and> sdisk st' = sdisk st \<and>
     (\<forall>bs. r = Some bs \<longrightarrow> length bs = n \<and> holds_at st a bs) \<and>
     (disk_serves st \<and> (\<forall>k < n. content_at st (a + k) \<noteq> None) \<longrightarrow> r \<noteq> None)"

lemma fread_content:
  assumes ok: "slots_ok st" and i: "i < length (slots st)" and l: "local + n \<le> slot_length (slots st ! i)"
  shows "fread (sdisk st) (abs_path (slots st ! i)) local n = Some bs \<Longrightarrow>
      length bs = n \<and> holds_at st (slot_offset (slots st ! i) + local) bs"
    and "\<forall>k < n. content_at st (slot_offset (slots st ! i) + local + k) \<noteq> None \<Longrightarrow>
      fread (sdisk st) (abs_path (slots st ! i)) local n \<noteq> None \<or> n = 0 \<and> \<not> local \<le> allocated (slots st ! i)"
proof -
  obtain c where c: "contents (sdisk st) (abs_path (slots st ! i)) = Some c" "length c = allocated (slots st ! i)"
    using ok i by (auto simp: slots_ok_def)
  have at: "content_at st (slot_offset (slots st ! i) + local + k) = (if local + k < length c then Some (c ! (local + k)) else None)"
    if "k < n" for k
    using content_at_slot [OF ok i, of "local + k"] l that c(1) by (simp add: byte_at_def add.assoc)
  show "length bs = n \<and> holds_at st (slot_offset (slots st ! i) + local) bs"
    if "fread (sdisk st) (abs_path (slots st ! i)) local n = Some bs"
  proof -
    have "local + n \<le> length c" "bs = take n (drop local c)"
      using that c(1) by (simp_all add: fread_def split: if_splits)
    then show ?thesis using at by (simp add: holds_at_def)
  qed
  show "fread (sdisk st) (abs_path (slots st ! i)) local n \<noteq> None \<or> n = 0 \<and> \<not> local \<le> allocated (slots st ! i)"
    if "\<forall>k < n. content_at st (slot_offset (slots st ! i) + local + k) \<noteq> None"
  proof (cases n)
    case (Suc m)
    then have "content_at st (slot_offset (slots st ! i) + local + m) \<noteq> None" using that by blast
    then have "local + m < length c" using at [of m] Suc by (auto split: if_splits)
    then show ?thesis using c(1) Suc by (simp add: fread_def)
  qed (use c in \<open>simp add: fread_def\<close>)
qed

lemma read_spans_ok:
  assumes "slots_ok st" and "covers (slots st) cur sp n" and "read_spans sp st = (st', r)"
  shows "read_as st st' cur n r"
  using assms
proof (induction sp st arbitrary: cur n st' r rule: read_spans.induct)
  case (1 st)
  then show ?case by (auto simp: read_as_def same_frame_refl holds_at_def)
next
  case (2 i local chunk sp st)
  have c: "i < length (slots st)" "slot_offset (slots st ! i) + local = cur" "local + chunk \<le> slot_length (slots st ! i)"
    "chunk \<le> n" "0 < chunk" "covers (slots st) (cur + chunk) sp (n - chunk)"
    using "2.prems"(2) by simp_all
  obtain s1 r1 where a: "acquire i st = (s1, r1)" by fastforce
  note acq = acquire_ok [OF "2.prems"(1) c(1) a]
  have p1: "abs_path (slots s1 ! i) = abs_path (slots st ! i)"
    using shape_nth [of "slots s1" "slots st"] acq(2) c(1) by (simp add: same_frame_def)
  have sh: "shape (slots s1) = shape (slots st)" using acq(2) by (simp add: same_frame_def)
  have cont1: "content_at s1 = content_at st" using content_at_frame [OF acq(2)] acq(3) by simp
  note f = fread_content [OF "2.prems"(1) c(1,3), unfolded c(2)]
  show ?case
  proof (cases "r1 \<and> fread (sdisk st) (abs_path (slots st ! i)) local chunk \<noteq> None")
    case False
    then have "st' = s1" "r = None" using "2.prems"(3) a p1 acq(3) by (cases r1; simp)+
    moreover have "\<not> (disk_serves st \<and> (\<forall>k < n. content_at st (cur + k) \<noteq> None))"
    proof
      assume d: "disk_serves st \<and> (\<forall>k < n. content_at st (cur + k) \<noteq> None)"
      then have "\<forall>k < chunk. content_at st (cur + k) \<noteq> None" using c(4) by simp
      then show False using False f(2) c(5) d acq(5) disk_serves_nth(1) [OF _ "2.prems"(1) c(1)] by simp
    qed
    ultimately show ?thesis using acq by (simp add: read_as_def)
  next
    case True
    then obtain bs where bs: "fread (sdisk st) (abs_path (slots st ! i)) local chunk = Some bs" "r1" by blast
    have fr: "fread (sdisk s1) (abs_path (slots s1 ! i)) local chunk = Some bs" using bs p1 acq(3) by simp
    obtain s2 r2 where rs: "read_spans sp s1 = (s2, r2)" by fastforce
    have res: "st' = s2" "r = map_option ((@) bs) r2" using "2.prems"(3) a bs(2) fr rs by simp_all
    have "read_as s1 s2 (cur + chunk) (n - chunk) r2"
      by (rule "2.IH" [OF a [symmetric] refl _ fr acq(1) _ rs]) (use bs(2) c(6) covers_shape [OF sh] in simp_all)
    then have s2: "slots_ok s2" "same_frame s1 s2" "sdisk s2 = sdisk s1"
      "\<And>xs. r2 = Some xs \<Longrightarrow> length xs = n - chunk \<and> holds_at s1 (cur + chunk) xs"
      "disk_serves s1 \<Longrightarrow> \<forall>k < n - chunk. content_at s1 (cur + chunk + k) \<noteq> None \<Longrightarrow> r2 \<noteq> None"
      by (simp_all add: read_as_def)
    have h1: "length bs = chunk \<and> holds_at st cur bs" using f(1) bs(1) by blast
    have "length xs = n \<and> holds_at st cur xs" if rx: "r = Some xs" for xs
    proof -
      obtain ys where ys: "r2 = Some ys" "xs = bs @ ys" using rx res(2) by auto
      have "holds_at st (cur + length bs) ys" using s2(4) [OF ys(1)] h1 cont1 by (simp add: holds_at_def)
      then show ?thesis using s2(4) [OF ys(1)] h1 c(4) ys(2) by (simp add: holds_at_append)
    qed
    moreover have "r \<noteq> None" if "disk_serves st" "\<forall>k < n. content_at st (cur + k) \<noteq> None"
    proof -
      have "\<forall>k < n - chunk. content_at s1 (cur + chunk + k) \<noteq> None"
      proof (intro allI impI)
        fix k assume "k < n - chunk"
        then have "chunk + k < n" by simp
        then have "content_at st (cur + (chunk + k)) \<noteq> None" using that(2) by blast
        then show "content_at s1 (cur + chunk + k) \<noteq> None" by (simp add: cont1 add.assoc)
      qed
      then have "r2 \<noteq> None" using s2(5) that(1) disk_serves_frame [OF acq(2)] by simp
      then show ?thesis using res(2) by simp
    qed
    ultimately show ?thesis
      using s2(1,3) acq(3) same_frame_trans [OF acq(2) s2(2)] res(1) unfolding read_as_def by simp
  qed
qed

lemma read_block_ok:
  assumes ok: "slots_ok st" and rd: "read_block piece off n st = (st', r)"
    and a: "abs_position st piece off + n < 2 ^ 64"
  shows "slots_ok st'" and "same_frame st st'" and "sdisk st' = sdisk st"
    and "r = Some bs \<Longrightarrow> length bs = n \<and> holds_at st (abs_position st piece off) bs"
    and "disk_serves st \<Longrightarrow> abs_position st piece off + n \<le> total_size (smeta st) \<Longrightarrow>
      \<forall>k < n. content_at st (abs_position st piece off + k) \<noteq> None \<Longrightarrow> r \<noteq> None"
proof -
  let ?a = "abs_position st piece off"
  have "(slots_ok st' \<and> same_frame st st' \<and> sdisk st' = sdisk st \<and> r = None \<and> \<not> ?a + n \<le> total_size (smeta st)) \<or>
    read_as st st' ?a n r"
  proof (cases "?a + n \<le> total_size (smeta st)")
    case False
    then have "st' = st" "r = None" using rd u64_id [OF a] by (simp_all add: read_block_def Let_def)
    then show ?thesis using ok False by (simp add: same_frame_refl)
  next
    case True
    have "slots_tile 0 (slots st) (total_size (smeta st))" "total_size (smeta st) < 2 ^ 63" using ok by (simp_all add: slots_ok_def)
    from spans_ok [OF this True] obtain sp where sp: "spans (slots st) ?a n = (sp, 0)" "covers (slots st) ?a sp n" by blast
    have "read_spans sp st = (st', r)" using rd u64_id [OF a] True sp(1)
      by (cases "read_spans sp st") (simp add: read_block_def Let_def)
    then show ?thesis using read_spans_ok [OF ok sp(2)] by blast
  qed
  then show "slots_ok st'" "same_frame st st'" "sdisk st' = sdisk st"
    "r = Some bs \<Longrightarrow> length bs = n \<and> holds_at st ?a bs"
    "disk_serves st \<Longrightarrow> ?a + n \<le> total_size (smeta st) \<Longrightarrow> \<forall>k < n. content_at st (?a + k) \<noteq> None \<Longrightarrow> r \<noteq> None"
    by (auto simp: read_as_def)
qed

lemma holds_at_unique: "holds_at st a xs \<Longrightarrow> holds_at st a ys \<Longrightarrow> length xs = length ys \<Longrightarrow> xs = ys"
  unfolding holds_at_def by (intro nth_equalityI) auto

end
