(* ===== verification/StoragePieces.thy ===== *)
theory StoragePieces
  imports StorageIO
begin

text \<open>
  Pieces in memory and on the card: the invariant of the buffers, the view a reader has of the torrent
  (blocks in memory over the card), and what every operation of the storage does to it.
\<close>

subsection \<open>Verification\<close>

lemma update_append_reset: "update (update reset a) b = update reset (a @ b)"
  using sha.feed_feed [OF sha.ok_init] .

lemma digest_update_reset: "digest (update reset bs) = sha1_spec bs"
  using digest_fold_update [of "[bs]"] by simp

text \<open>A piece lies inside the torrent, and its positions do not wrap.\<close>

lemma abs_position_piece:
  assumes "slots_ok st" "pieces_ok (smeta st)" "piece < piece_count (smeta st)" "off \<le> size_of_piece (smeta st) piece"
  shows "abs_position st piece off = piece * piece_length (smeta st) + off"
    and "piece * piece_length (smeta st) + off \<le> total_size (smeta st)" and "total_size (smeta st) < 2 ^ 63"
proof -
  show t: "total_size (smeta st) < 2 ^ 63" using assms(1) by (simp add: slots_ok_def)
  show e: "piece * piece_length (smeta st) + off \<le> total_size (smeta st)"
    using size_of_piece_end [OF assms(2,3)] assms(4) by linarith
  then show "abs_position st piece off = piece * piece_length (smeta st) + off"
    unfolding abs_position_def using t by (intro u64_id) simp
qed

lemma hash_from_ok:
  assumes "slots_ok st" "pieces_ok (smeta st)" "piece < piece_count (smeta st)"
    and "psize = size_of_piece (smeta st) piece" "pos \<le> psize" and "hash_from piece psize pos (update reset done) st = (st', r)"
  shows "slots_ok st' \<and> same_frame st st' \<and> sdisk st' = sdisk st \<and>
    (\<forall>s. r = Some s \<longrightarrow> (\<exists>bs. length bs = psize - pos \<and> holds_at st (piece * piece_length (smeta st) + pos) bs \<and>
       s = update reset (done @ bs))) \<and>
    (disk_serves st \<and> (\<forall>k < psize - pos. content_at st (piece * piece_length (smeta st) + pos + k) \<noteq> None) \<longrightarrow> r \<noteq> None)"
  using assms
proof (induction "psize - pos" arbitrary: pos "done" st st' r rule: less_induct)
  case less
  note ok = less.prems(1) and pk = less.prems(2) and pc = less.prems(3) and ps = less.prems(4)
  let ?a = "piece * piece_length (smeta st)"
  show ?case
  proof (cases "psize \<le> pos")
    case True
    then have "st' = st" "r = Some (update reset done)" using less.prems(6) by (simp_all add: hash_from.simps)
    then show ?thesis using ok True by (auto simp: same_frame_refl holds_at_def)
  next
    case False
    define n where "n = min kHashChunk (psize - pos)"
    have n: "0 < n" "pos + n \<le> psize" using False by (auto simp: n_def kHashChunk_def)
    have a: "abs_position st piece pos = ?a + pos" "abs_position st piece pos + n \<le> total_size (smeta st)"
      using abs_position_piece [OF ok pk pc, of pos] abs_position_piece(2) [OF ok pk pc, of "pos + n"] n ps by simp_all
    obtain s1 r1 where rd: "read_block piece pos n st = (s1, r1)" by fastforce
    have "abs_position st piece pos + n < 2 ^ 64" using a(2) abs_position_piece(3) [OF ok pk pc, of 0] by simp
    note b = read_block_ok [OF ok rd this, unfolded a(1)]
    have cont: "content_at s1 = content_at st" using content_at_frame [OF b(2)] b(3) by simp
    have sm: "smeta s1 = smeta st" using b(2) by (simp add: same_frame_def)
    show ?thesis
    proof (cases r1)
      case None
      then have res: "st' = s1" "r = None"
        using less.prems(6) False rd by (simp_all add: hash_from.simps [of piece psize pos] Let_def n_def)
      have "\<not> (disk_serves st \<and> (\<forall>k < psize - pos. content_at st (?a + pos + k) \<noteq> None))"
      proof
        assume d: "disk_serves st \<and> (\<forall>k < psize - pos. content_at st (?a + pos + k) \<noteq> None)"
        then have "\<forall>k < n. content_at st (?a + pos + k) \<noteq> None" using n(2) by simp
        then show False using b(5) d a None by simp
      qed
      then show ?thesis using b(1-3) res by simp
    next
      case (Some bs)
      have h: "length bs = n" "holds_at st (?a + pos) bs" using b(4) [OF Some] by simp_all
      have rec: "hash_from piece psize (pos + n) (update reset (done @ bs)) s1 = (st', r)"
        using less.prems(6) False rd Some by (simp add: hash_from.simps [of piece psize pos] Let_def n_def update_append_reset)
      have "psize - (pos + n) < psize - pos" using n by simp
      from less.hyps [OF this b(1) _ _ _ n(2) rec] pk pc ps sm
      have ih: "slots_ok st'" "same_frame s1 st'" "sdisk st' = sdisk s1"
        "\<And>s. r = Some s \<Longrightarrow> \<exists>bs'. length bs' = psize - (pos + n) \<and> holds_at s1 (?a + (pos + n)) bs' \<and> s = update reset ((done @ bs) @ bs')"
        "disk_serves s1 \<Longrightarrow> \<forall>k < psize - (pos + n). content_at s1 (?a + (pos + n) + k) \<noteq> None \<Longrightarrow> r \<noteq> None"
        by simp_all
      have "\<exists>xs. length xs = psize - pos \<and> holds_at st (?a + pos) xs \<and> s = update reset (done @ xs)" if r: "r = Some s" for s
      proof -
        obtain bs' where bs': "length bs' = psize - (pos + n)" "holds_at s1 (?a + (pos + n)) bs'" "s = update reset ((done @ bs) @ bs')"
          using ih(4) [OF r] by blast
        have "holds_at st (?a + pos + length bs) bs'" using bs'(2) h(1) cont by (simp add: holds_at_def add.assoc)
        then have "holds_at st (?a + pos) (bs @ bs')" by (rule holds_at_append [OF h(2)])
        then show ?thesis using bs' h(1) n(2) by (intro exI [of _ "bs @ bs'"]) simp
      qed
      moreover have "r \<noteq> None" if "disk_serves st" "\<forall>k < psize - pos. content_at st (?a + pos + k) \<noteq> None"
      proof (rule ih(5))
        show "disk_serves s1" using that(1) disk_serves_frame [OF b(2)] by simp
        show "\<forall>k < psize - (pos + n). content_at s1 (?a + (pos + n) + k) \<noteq> None"
        proof (intro allI impI)
          fix k assume "k < psize - (pos + n)"
          then have "content_at st (?a + pos + (n + k)) \<noteq> None" using that(2) by simp
          then show "content_at s1 (?a + (pos + n) + k) \<noteq> None" by (simp add: cont add.assoc)
        qed
      qed
      ultimately show ?thesis using ih(1,3) b(3) same_frame_trans [OF b(2) ih(2)] by simp
    qed
  qed
qed

text \<open>The content of one piece, when all of it is there.\<close>

definition piece_is :: "storage \<Rightarrow> nat \<Rightarrow> bytes \<Rightarrow> bool" where
  "piece_is st piece bs \<longleftrightarrow> length bs = size_of_piece (smeta st) piece \<and> holds_at st (piece * piece_length (smeta st)) bs"

lemma verify_from_disk_ok:
  assumes ok: "slots_ok st" "pieces_ok (smeta st)" "piece < piece_count (smeta st)"
    and v: "verify_from_disk piece st = (st', r)"
  shows "slots_ok st'" and "same_frame st st'" and "sdisk st' = sdisk st"
    and "r \<Longrightarrow> \<exists>bs. piece_is st piece bs \<and> sha1_spec bs = piece_hashes (smeta st) ! piece"
    and "disk_serves st \<Longrightarrow> piece_is st piece bs \<Longrightarrow> sha1_spec bs = piece_hashes (smeta st) ! piece \<Longrightarrow> r"
proof -
  let ?ps = "size_of_piece (smeta st) piece"
  obtain s1 h where hf: "hash_from piece ?ps 0 reset st = (s1, h)" by fastforce
  have "update reset [] = reset" using sha.feed_Nil [OF sha.ok_init] .
  then have hf': "hash_from piece ?ps 0 (update reset []) st = (s1, h)" using hf by simp
  note f = hash_from_ok [OF ok refl _ hf', simplified]
  have sm: "smeta s1 = smeta st" using f by (simp add: same_frame_def)
  have res: "st' = s1" and r: "r = (case h of None \<Rightarrow> False | Some sha \<Rightarrow> digest sha = piece_hashes (smeta st) ! piece)"
    using v hf by (simp_all add: verify_from_disk_def sm cong: option.case_cong)
  show "slots_ok st'" "same_frame st st'" "sdisk st' = sdisk st" using f res by simp_all
  have some: "\<exists>xs. piece_is st piece xs \<and> digest s = sha1_spec xs" if "h = Some s" for s
    using f that digest_update_reset by (auto simp: piece_is_def)
  show "\<exists>bs. piece_is st piece bs \<and> sha1_spec bs = piece_hashes (smeta st) ! piece" if r1: r
    using some r r1 by (cases h) auto
  show r if d: "disk_serves st" and p: "piece_is st piece bs" and e: "sha1_spec bs = piece_hashes (smeta st) ! piece"
  proof -
    have "\<forall>k < ?ps. content_at st (piece * piece_length (smeta st) + k) \<noteq> None" using p by (auto simp: piece_is_def holds_at_def)
    then obtain s where s: "h = Some s" using f d by auto
    obtain xs where xs: "piece_is st piece xs" "digest s = sha1_spec xs" using some [OF s] by blast
    have "xs = bs" using holds_at_unique [of st "piece * piece_length (smeta st)" xs bs] xs(1) p by (simp add: piece_is_def)
    then show r using r s xs(2) e by simp
  qed
qed

lemma hash_matches_iff:
  "hash_matches m piece data \<longleftrightarrow> piece < piece_count m \<and> length data = size_of_piece m piece \<and> sha1_spec data = piece_hashes m ! piece"
  by (auto simp: hash_matches_def digest_update_reset)

subsection \<open>Pieces in memory: the invariant and the view\<close>

definition buf_ok :: "metainfo \<Rightarrow> piece_buffer \<Rightarrow> bool" where
  "buf_ok m b \<longleftrightarrow> buf_index b < piece_count m \<and> length (buf_data b) = size_of_piece m (buf_index b) \<and>
     length (buf_have b) = (size_of_piece m (buf_index b) + kStoreBlock - 1) div kStoreBlock \<and>
     blocks_present b = count_list (buf_have b) True"

definition buffers_ok :: "metainfo \<Rightarrow> piece_buffer list \<Rightarrow> bool" where
  "buffers_ok m bs \<longleftrightarrow> distinct (map buf_index bs) \<and> list_all (buf_ok m) bs \<and>
     (\<Sum>b\<leftarrow>bs. length (buf_data b)) \<le> kBufferBudget"

definition store_ok :: "storage \<Rightarrow> bool" where
  "store_ok st \<longleftrightarrow> slots_ok st \<and> pieces_ok (smeta st) \<and> buffers_ok (smeta st) (buffers st)"

text \<open>What the torrent contains for its readers: the blocks of a piece in memory, over the card.\<close>

definition buf_of :: "piece_buffer list \<Rightarrow> nat \<Rightarrow> piece_buffer option" where
  "buf_of bs p = find (\<lambda>b. buf_index b = p \<and> buf_data b \<noteq> []) bs"

definition view_at :: "storage \<Rightarrow> nat \<Rightarrow> nat \<Rightarrow> byte option" where
  "view_at st p off =
     (if piece_count (smeta st) \<le> p \<or> size_of_piece (smeta st) p \<le> off then None
      else case buf_of (buffers st) p of
        None \<Rightarrow> content_at st (p * piece_length (smeta st) + off)
      | Some b \<Rightarrow>
          if buf_have b ! (off div kStoreBlock) then Some (buf_data b ! off)
          else content_at st (p * piece_length (smeta st) + off))"

lemma find_append: "find P (xs @ ys) = (case find P xs of None \<Rightarrow> find P ys | Some x \<Rightarrow> Some x)"
  by (induction xs) auto

lemma find_buffer_Some: "find_buffer p bs = Some k \<Longrightarrow> k < length bs \<and> buf_index (bs ! k) = p \<and> buf_data (bs ! k) \<noteq> []"
  by (induction bs arbitrary: k) (auto split: if_splits)

lemma find_buffer_None: "find_buffer p bs = None \<longleftrightarrow> buf_of bs p = None"
  by (induction bs) (auto simp: buf_of_def)

lemma find_index_Some: "find_index p bs = Some k \<Longrightarrow> k < length bs \<and> buf_index (bs ! k) = p"
  by (induction bs arbitrary: k) (auto split: if_splits)

lemma find_index_None: "find_index p bs = None \<longleftrightarrow> p \<notin> buf_index ` set bs"
  by (induction bs) auto

lemma find_index_map: "map buf_index xs = map buf_index ys \<Longrightarrow> find_index p xs = find_index p ys"
  by (induction xs ys rule: list_induct2') auto

lemma find_index_find_buffer: "\<forall>b \<in> set bs. buf_data b \<noteq> [] \<Longrightarrow> find_index p bs = find_buffer p bs"
  by (induction bs) auto

lemma buf_ok_data: "pieces_ok m \<Longrightarrow> buf_ok m b \<Longrightarrow> buf_data b \<noteq> []"
  using size_of_piece_bounds [of m "buf_index b"] by (auto simp: buf_ok_def)

lemma buffers_ok_mem: "buffers_ok m bs \<Longrightarrow> b \<in> set bs \<Longrightarrow> buf_ok m b"
  by (simp add: buffers_ok_def list_all_iff)

lemma buffers_ok_nth: "buffers_ok m bs \<Longrightarrow> k < length bs \<Longrightarrow> buf_ok m (bs ! k)"
  using buffers_ok_mem [OF _ nth_mem] by blast

lemma buf_of_Some:
  assumes "pieces_ok m" "buffers_ok m bs"
  shows "buf_of bs p = Some b \<longleftrightarrow> b \<in> set bs \<and> buf_index b = p"
proof
  assume "buf_of bs p = Some b"
  then show "b \<in> set bs \<and> buf_index b = p" by (auto simp: buf_of_def find_Some_iff)
next
  assume b: "b \<in> set bs \<and> buf_index b = p"
  have "buf_of bs p \<noteq> None"
    using b buf_ok_data [OF assms(1) buffers_ok_mem [OF assms(2)]] by (auto simp: buf_of_def find_None_iff)
  then obtain c where c: "buf_of bs p = Some c" by blast
  then have "c \<in> set bs" "buf_index c = p" by (auto simp: buf_of_def find_Some_iff)
  then have "c = b" using b assms(2) by (auto simp: buffers_ok_def distinct_map inj_on_def)
  then show "buf_of bs p = Some b" using c by simp
qed

lemma buf_of_None:
  "pieces_ok m \<Longrightarrow> buffers_ok m bs \<Longrightarrow> buf_of bs p = None \<longleftrightarrow> p \<notin> buf_index ` set bs"
proof -
  assume "pieces_ok m" "buffers_ok m bs"
  then have "(\<exists>b. buf_of bs p = Some b) \<longleftrightarrow> (\<exists>b \<in> set bs. buf_index b = p)" by (simp add: buf_of_Some Bex_def)
  then show "buf_of bs p = None \<longleftrightarrow> p \<notin> buf_index ` set bs" by auto
qed

lemma buffers_ok_distinct: "buffers_ok m bs \<Longrightarrow> distinct bs"
  by (auto simp: buffers_ok_def distinct_map)

lemma option_eqI: "(\<And>c. x = Some c \<longleftrightarrow> y = Some c) \<Longrightarrow> x = y"
  by (cases x) (auto, metis not_None_eq)

lemma sum_update: "k < length xs \<Longrightarrow> f x = f (xs ! k) \<Longrightarrow> (\<Sum>y\<leftarrow>xs[k := x]. f y) = (\<Sum>y\<leftarrow>xs. (f y :: nat))"
proof -
  assume "k < length xs" "f x = f (xs ! k)"
  then have "map f (xs[k := x]) = map f xs" by (simp add: map_update list_update_same_conv)
  then show ?thesis by (rule arg_cong [where f = sum_list])
qed

lemma buffers_ok_update:
  assumes "buffers_ok m bs" "k < length bs" "buf_ok m b" "buf_index b = buf_index (bs ! k)"
  shows "buffers_ok m (bs[k := b])"
proof -
  have "length (buf_data b) = length (buf_data (bs ! k))"
    using buffers_ok_nth [OF assms(1,2)] assms(3,4) by (simp add: buf_ok_def)
  then have "(\<Sum>c\<leftarrow>bs[k := b]. length (buf_data c)) = (\<Sum>c\<leftarrow>bs. length (buf_data c))" using assms(2) by (simp add: sum_update)
  moreover have "map buf_index (bs[k := b]) = map buf_index bs" using assms(2,4) by (simp add: map_update list_update_same_conv)
  moreover have "list_all (buf_ok m) (bs[k := b])"
    using assms(1,3) set_update_subset_insert [of bs k b] by (auto simp: buffers_ok_def list_all_iff)
  ultimately show ?thesis using assms(1) by (simp add: buffers_ok_def)
qed

lemma buf_of_update:
  assumes "pieces_ok m" "buffers_ok m bs" "k < length bs" "buf_ok m b" "buf_index b = buf_index (bs ! k)"
  shows "buf_of (bs[k := b]) p = (if p = buf_index b then Some b else buf_of bs p)"
proof -
  note ok = buffers_ok_update [OF assms(2-5)]
  have set: "set (bs[k := b]) = insert b (set bs - {bs ! k})"
    by (rule set_update_distinct [OF buffers_ok_distinct [OF assms(2)] assms(3)])
  have "p \<noteq> buf_index b \<Longrightarrow> buf_of (bs[k := b]) p = Some c \<longleftrightarrow> buf_of bs p = Some c" for c
    unfolding buf_of_Some [OF assms(1) ok] buf_of_Some [OF assms(1,2)] set using assms(5) by auto
  then have "p \<noteq> buf_index b \<Longrightarrow> buf_of (bs[k := b]) p = buf_of bs p"
    by (cases "buf_of bs p"; cases "buf_of (bs[k := b]) p") auto
  moreover have "buf_of (bs[k := b]) (buf_index b) = Some b"
    unfolding buf_of_Some [OF assms(1) ok] set by simp
  ultimately show ?thesis by simp
qed

lemma set_remove_at: "distinct xs \<Longrightarrow> k < length xs \<Longrightarrow> set (remove_at k xs) = set xs - {xs ! k}"
proof -
  assume d: "distinct xs" and k: "k < length xs"
  have xs: "xs = take k xs @ xs ! k # drop (Suc k) xs" using id_take_nth_drop [OF k] .
  have "distinct (take k xs @ xs ! k # drop (Suc k) xs)" using d xs by simp
  then show ?thesis unfolding remove_at_def by (subst xs) auto
qed

lemma buffers_ok_remove: "buffers_ok m bs \<Longrightarrow> buffers_ok m (remove_at k bs)"
proof -
  assume ok: "buffers_ok m bs"
  have tk: "map f (remove_at k bs) = take k (map f bs) @ drop (Suc k) (map f bs)" for f :: "piece_buffer \<Rightarrow> 'a"
    by (simp add: remove_at_def take_map drop_map)
  have "distinct (map buf_index (remove_at k bs))"
    unfolding tk distinct_append using ok set_take_disj_set_drop_if_distinct [of "map buf_index bs" k "Suc k"]
    by (simp add: buffers_ok_def)
  moreover have "list_all (buf_ok m) (remove_at k bs)"
    using ok by (auto simp: buffers_ok_def list_all_iff remove_at_def dest: in_set_takeD in_set_dropD)
  moreover have "(\<Sum>b\<leftarrow>remove_at k bs. length (buf_data b)) \<le> (\<Sum>b\<leftarrow>bs. length (buf_data b))"
  proof (cases "k < length bs")
    case True
    have "(\<Sum>b\<leftarrow>bs. length (buf_data b)) = (\<Sum>b\<leftarrow>take k bs @ bs ! k # drop (Suc k) bs. length (buf_data b))"
      using id_take_nth_drop [OF True] by simp
    then show ?thesis by (simp add: remove_at_def)
  qed (simp add: remove_at_def)
  ultimately show ?thesis using ok by (simp add: buffers_ok_def)
qed

lemma buf_of_remove:
  assumes "pieces_ok m" "buffers_ok m bs" "k < length bs"
  shows "buf_of (remove_at k bs) p = (if p = buf_index (bs ! k) then None else buf_of bs p)"
proof -
  note ok = buffers_ok_remove [OF assms(2), of k]
  have set: "set (remove_at k bs) = set bs - {bs ! k}"
    by (rule set_remove_at [OF buffers_ok_distinct [OF assms(2)] assms(3)])
  have uniq: "c = bs ! k" if "c \<in> set bs" "buf_index c = buf_index (bs ! k)" for c
    using that assms(2,3) nth_mem [OF assms(3)] unfolding buffers_ok_def distinct_map inj_on_def by blast
  have iff: "buf_of (remove_at k bs) p = Some c \<longleftrightarrow> p \<noteq> buf_index (bs ! k) \<and> buf_of bs p = Some c" for c
    unfolding buf_of_Some [OF assms(1) ok] buf_of_Some [OF assms(1,2)] set using uniq by auto
  show ?thesis
  proof (cases "p = buf_index (bs ! k)")
    case True
    then show ?thesis using iff by (auto intro: option_eqI)
  next
    case False
    then have "buf_of (remove_at k bs) p = buf_of bs p" using iff by (intro option_eqI) simp
    then show ?thesis using False by simp
  qed
qed

text \<open>The blocks of a piece, and the buffers the code creates and marks.\<close>

lemma block_index: "off < n \<Longrightarrow> off div kStoreBlock < (n + kStoreBlock - 1) div kStoreBlock"
proof -
  assume "off < n"
  then have "off div kStoreBlock \<le> (n - 1) div kStoreBlock" by (intro div_le_mono) simp
  moreover have "(n + kStoreBlock - 1) div kStoreBlock = Suc ((n - 1) div kStoreBlock)"
    using \<open>off < n\<close> div_add_self2 [of kStoreBlock "n - 1"] by (simp add: kStoreBlock_def)
  ultimately show ?thesis by simp
qed

lemma mark_blocks_ok:
  "\<forall>j \<in> set js. j < length (buf_have b) \<Longrightarrow>
   buf_index (mark_blocks js b) = buf_index b \<and> buf_data (mark_blocks js b) = buf_data b \<and>
   buf_used (mark_blocks js b) = buf_used b \<and> length (buf_have (mark_blocks js b)) = length (buf_have b) \<and>
   (\<forall>k < length (buf_have b). buf_have (mark_blocks js b) ! k \<longleftrightarrow> buf_have b ! k \<or> k \<in> set js) \<and>
   (blocks_present b = count_list (buf_have b) True \<longrightarrow>
      blocks_present (mark_blocks js b) = count_list (buf_have (mark_blocks js b)) True)"
proof (induction js b rule: mark_blocks.induct)
  case (2 j js b)
  let ?b = "if buf_have b ! j then b else b\<lparr>buf_have := (buf_have b)[j := True], blocks_present := blocks_present b + 1\<rparr>"
  have j: "j < length (buf_have b)" using 2(2) by simp
  have s: "buf_index ?b = buf_index b" "buf_data ?b = buf_data b" "buf_used ?b = buf_used b"
    "length (buf_have ?b) = length (buf_have b)"
    "\<forall>k < length (buf_have b). buf_have ?b ! k \<longleftrightarrow> buf_have b ! k \<or> k = j"
    "blocks_present b = count_list (buf_have b) True \<longrightarrow> blocks_present ?b = count_list (buf_have ?b) True"
    using j count_list_update [OF j, of True True] by (auto simp: nth_list_update)
  have "\<forall>i \<in> set js. i < length (buf_have ?b)" using 2(2) s(4) by simp
  from 2(1) [OF this] show ?case using s by simp
qed simp

lemma buf_ok_touch: "buf_ok m (b\<lparr>buf_used := c\<rparr>) = buf_ok m b"
  by (simp add: buf_ok_def)

lemma store_ok_parts:
  assumes "store_ok st" shows "slots_ok st" "pieces_ok (smeta st)" "buffers_ok (smeta st) (buffers st)"
  using assms by (simp_all add: store_ok_def)

lemma slots_ok_buffers [simp]: "slots_ok (st\<lparr>buffers := bs\<rparr>) = slots_ok st" "slots_ok (st\<lparr>sclock := c\<rparr>) = slots_ok st"
  by (simp_all add: slots_ok_def)

lemma content_at_buffers [simp]: "content_at (st\<lparr>buffers := bs\<rparr>) = content_at st" "content_at (st\<lparr>sclock := c\<rparr>) = content_at st"
  by (simp_all add: content_at_def byte_at_def fun_eq_iff cong: option.case_cong)

lemma disk_serves_buffers [simp]: "disk_serves (st\<lparr>buffers := bs\<rparr>) = disk_serves st" "disk_serves (st\<lparr>sclock := c\<rparr>) = disk_serves st"
  by (simp_all add: disk_serves_def)

lemma view_at_cong:
  "smeta st' = smeta st \<Longrightarrow> content_at st' = content_at st \<Longrightarrow> buf_of (buffers st') p = buf_of (buffers st) p \<Longrightarrow>
   view_at st' p off = view_at st p off"
  by (simp add: view_at_def cong: option.case_cong if_cong)

lemma view_at_card: "p < piece_count (smeta st) \<Longrightarrow> off < size_of_piece (smeta st) p \<Longrightarrow> buf_of (buffers st) p = None \<Longrightarrow>
   view_at st p off = content_at st (p * piece_length (smeta st) + off)"
  by (simp add: view_at_def)

lemma view_at_memory: "p < piece_count (smeta st) \<Longrightarrow> off < size_of_piece (smeta st) p \<Longrightarrow> buf_of (buffers st) p = Some b \<Longrightarrow>
   view_at st p off = (if buf_have b ! (off div kStoreBlock) then Some (buf_data b ! off)
     else content_at st (p * piece_length (smeta st) + off))"
  by (simp add: view_at_def)

lemma view_at_out: "\<not> (p < piece_count (smeta st) \<and> off < size_of_piece (smeta st) p) \<Longrightarrow> view_at st p off = None"
  by (auto simp: view_at_def not_less)

text \<open>\<open>buffer_for\<close> finds the buffer of the piece or makes an empty one within the budget; either way
  the view is the same.\<close>

lemma buffer_for_ok:
  assumes ok: "store_ok st" and p: "p < piece_count (smeta st)" and b: "buffer_for p create st = (st', found)"
  shows "store_ok st'" and "smeta st' = smeta st" and "sdisk st' = sdisk st" and "slots st' = slots st"
    and "content_at st' = content_at st" and "view_at st' = view_at st"
    and "found = None \<Longrightarrow> st' = st \<and> buf_of (buffers st) p = None"
    and "found = Some k \<Longrightarrow> k < length (buffers st') \<and> buf_index (buffers st' ! k) = p \<and> buf_of (buffers st') p = Some (buffers st' ! k)"
    and "\<not> create \<Longrightarrow> found \<noteq> None \<Longrightarrow> buf_of (buffers st) p \<noteq> None"
proof -
  note parts = store_ok_parts [OF ok]
  let ?m = "smeta st"
  have "store_ok st' \<and> smeta st' = smeta st \<and> sdisk st' = sdisk st \<and> slots st' = slots st \<and> content_at st' = content_at st \<and>
    view_at st' = view_at st \<and> (found = None \<longrightarrow> st' = st \<and> buf_of (buffers st) p = None) \<and>
    (\<forall>k. found = Some k \<longrightarrow> k < length (buffers st') \<and> buf_index (buffers st' ! k) = p \<and> buf_of (buffers st') p = Some (buffers st' ! k)) \<and>
    (\<not> create \<longrightarrow> found \<noteq> None \<longrightarrow> buf_of (buffers st) p \<noteq> None)"
  proof (cases "find_buffer p (buffers st)")
    case (Some k)
    define c where "c = (buffers st ! k)\<lparr>buf_used := sclock st + 1\<rparr>"
    have st': "st' = st\<lparr>sclock := sclock st + 1, buffers := (buffers st)[k := c]\<rparr>" "found = Some k"
      using b Some by (simp_all add: buffer_for_def c_def)
    have k: "k < length (buffers st)" "buf_index (buffers st ! k) = p" using find_buffer_Some [OF Some] by simp_all
    have c: "buf_ok ?m c" "buf_index c = buf_index (buffers st ! k)"
      using buffers_ok_nth [OF parts(3) k(1)] by (simp_all add: c_def buf_ok_touch)
    note bu = buffers_ok_update [OF parts(3) k(1) c] and bo = buf_of_update [OF parts(2,3) k(1) c]
    have old: "buf_of (buffers st) p = Some (buffers st ! k)" using buf_of_Some [OF parts(2,3)] k by simp
    have m: "smeta st' = smeta st" "content_at st' = content_at st" by (simp_all add: st')
    have "view_at st' q off = view_at st q off" for q off
    proof (cases "q = p \<and> p < piece_count ?m \<and> off < size_of_piece ?m p")
      case True
      then have "buf_of (buffers st') p = Some c" using bo [of p] k(2) c(2) by (simp add: st')
      then show ?thesis using True old m by (simp add: view_at_memory c_def)
    next
      case False
      then show ?thesis using bo [of q] k(2) c(2) view_at_cong [OF m, of q off] m view_at_out [of q st off] view_at_out [of q st' off]
        by (cases "q = p") (auto simp: st')
    qed
    then have "view_at st' = view_at st" by (simp add: fun_eq_iff)
    then show ?thesis using parts bu bo [of p] k c(2) old by (simp add: st' store_ok_def)
  next
    case None
    then have n: "buf_of (buffers st) p = None" by (simp add: find_buffer_None)
    let ?ps = "size_of_piece ?m p"
    define c where "c = \<lparr>buf_index = p, buf_data = replicate ?ps 0,
      buf_have = replicate ((?ps + kStoreBlock - 1) div kStoreBlock) False, blocks_present = 0, buf_used = sclock st + 1\<rparr>"
    show ?thesis
    proof (cases "create \<and> \<not> (?ps = 0 \<or> kMaxBufferedPiece < ?ps) \<and> \<not> kBufferBudget < (\<Sum>b\<leftarrow>buffers st. length (buf_data b)) + ?ps")
      case False
      then have "st' = st" "found = None" using b None by (auto simp: buffer_for_def Let_def split: if_splits)
      then show ?thesis using ok n by simp
    next
      case True
      have st': "st' = st\<lparr>sclock := sclock st + 1, buffers := buffers st @ [c]\<rparr>" "found = Some (length (buffers st))"
        using b None True by (simp_all add: buffer_for_def c_def Let_def)
      have "buf_ok ?m c" using p count_notin [of True] by (simp add: buf_ok_def c_def in_set_replicate)
      moreover have "p \<notin> buf_index ` set (buffers st)" using n buf_of_None [OF parts(2,3)] by simp
      ultimately have bu: "buffers_ok ?m (buffers st @ [c])" using parts(3) True by (simp add: buffers_ok_def c_def)
      have bo: "buf_of (buffers st @ [c]) q = (if q = p then Some c else buf_of (buffers st) q)" for q
        using n True by (cases "q = p") (auto simp: buf_of_def c_def find_append split: option.splits)
      have m: "smeta st' = smeta st" "content_at st' = content_at st" by (simp_all add: st')
      have "view_at st' q off = view_at st q off" for q off
      proof (cases "q = p \<and> p < piece_count ?m \<and> off < size_of_piece ?m p")
        case True
        then have "buf_of (buffers st') p = Some c" using bo [of p] by (simp add: st')
        then show ?thesis using True n m block_index [of off ?ps] by (simp add: view_at_memory view_at_card c_def)
      next
        case False
        then show ?thesis using bo [of q] view_at_cong [OF m, of q off] m view_at_out [of q st off] view_at_out [of q st' off]
          by (cases "q = p") (auto simp: st')
      qed
      then have "view_at st' = view_at st" by (simp add: fun_eq_iff)
      then show ?thesis using parts bu bo [of p] True by (simp add: st' store_ok_def c_def)
    qed
  qed
  then show "store_ok st'" "smeta st' = smeta st" "sdisk st' = sdisk st" "slots st' = slots st"
    "content_at st' = content_at st" "view_at st' = view_at st" "found = None \<Longrightarrow> st' = st \<and> buf_of (buffers st) p = None"
    "found = Some k \<Longrightarrow> k < length (buffers st') \<and> buf_index (buffers st' ! k) = p \<and> buf_of (buffers st') p = Some (buffers st' ! k)"
    "\<not> create \<Longrightarrow> found \<noteq> None \<Longrightarrow> buf_of (buffers st) p \<noteq> None" by blast+
qed

subsection \<open>Writing a block\<close>

definition view_kept :: "storage \<Rightarrow> storage \<Rightarrow> nat \<Rightarrow> nat \<Rightarrow> nat \<Rightarrow> bool" where
  "view_kept st st' p off n \<longleftrightarrow>
     (\<forall>q k x. \<not> (q = p \<and> off \<le> k \<and> k < off + n) \<longrightarrow> view_at st q k = Some x \<longrightarrow> view_at st' q k = Some x)"

definition view_has :: "storage \<Rightarrow> nat \<Rightarrow> nat \<Rightarrow> bytes \<Rightarrow> bool" where
  "view_has st p off data \<longleftrightarrow> (\<forall>k < length data. view_at st p (off + k) = Some (data ! k))"

lemma piece_position_unique:
  assumes "k < pl" "off + n \<le> pl" "p * pl + off \<le> q * pl + k" "q * pl + k < p * pl + off + n"
  shows "q = p \<and> off \<le> k \<and> k < off + (n :: nat)"
proof -
  have "\<not> q < p"
  proof
    assume "q < p"
    then have "Suc q * pl \<le> p * pl" by (intro mult_le_mono1) simp
    then show False using assms(1,3) by simp
  qed
  moreover have "\<not> p < q"
  proof
    assume "p < q"
    then have "Suc p * pl \<le> q * pl" by (intro mult_le_mono1) simp
    then show False using assms(2,4) by simp
  qed
  ultimately have "q = p" by simp
  then show ?thesis using assms(3,4) by simp
qed

text \<open>A change of the card outside a range, with the pieces in memory as they were, changes the view
  nowhere else.\<close>

lemma view_kept_card:
  assumes ok: "pieces_ok (smeta st)" and p: "p < piece_count (smeta st)" "off + n \<le> size_of_piece (smeta st) p"
    and s: "smeta st' = smeta st" "buffers st' = buffers st"
    and k: "kept st st' (p * piece_length (smeta st) + off) n"
  shows "view_kept st st' p off n"
  unfolding view_kept_def
proof (intro allI impI)
  fix q o' x
  assume out: "\<not> (q = p \<and> off \<le> o' \<and> o' < off + n)" and v: "view_at st q o' = Some x"
  have q: "q < piece_count (smeta st)" "o' < size_of_piece (smeta st) q" using v view_at_out [of q st o'] by fastforce+
  let ?pl = "piece_length (smeta st)"
  have b: "o' < ?pl" "off + n \<le> ?pl"
    using q p size_of_piece_bounds [OF ok q(1)] size_of_piece_bounds [OF ok p(1)] by simp_all
  have c: "content_at st (q * ?pl + o') = Some y \<Longrightarrow> content_at st' (q * ?pl + o') = Some y" for y
    using k out piece_position_unique [OF b, of p q] unfolding kept_def by (meson linorder_not_le)
  show "view_at st' q o' = Some x"
  proof (cases "buf_of (buffers st) q")
    case None
    then show ?thesis using v q s c by (simp add: view_at_card)
  next
    case (Some b)
    then show ?thesis using v q s c by (simp add: view_at_memory split: if_splits)
  qed
qed

lemma write_through_store:
  assumes ok: "store_ok st" and p: "p < piece_count (smeta st)" "off + length data \<le> size_of_piece (smeta st) p"
    and w: "write_through p off data st = (st', r)"
  shows "store_ok st'" and "same_frame st st'" and "kept st st' (p * piece_length (smeta st) + off) (length data)"
    and "view_kept st st' p off (length data)"
    and "r \<Longrightarrow> holds_at st' (p * piece_length (smeta st) + off) data"
    and "r \<Longrightarrow> buf_of (buffers st) p = None \<Longrightarrow> view_has st' p off data"
    and "disk_serves st \<Longrightarrow> r"
proof -
  note parts = store_ok_parts [OF ok]
  let ?a = "p * piece_length (smeta st) + off"
  have a: "abs_position st p off = ?a" "?a + length data \<le> total_size (smeta st)"
    using abs_position_piece [OF parts(1,2) p(1), of off] abs_position_piece(2) [OF parts(1,2) p(1), of "off + length data"] p(2) by simp_all
  have "abs_position st p off + length data < 2 ^ 64"
    using a abs_position_piece(3) [OF parts(1,2) p(1), of 0] by simp
  note t = write_through_ok [OF parts(1) w this, unfolded a(1)]
  show fr: "same_frame st st'" by (rule t(2))
  then have s: "smeta st' = smeta st" "buffers st' = buffers st" by (simp_all add: same_frame_def)
  show "store_ok st'" using t(1) parts s by (simp add: store_ok_def)
  show "kept st st' ?a (length data)" by (rule t(3))
  then show "view_kept st st' p off (length data)" using view_kept_card parts(2) p s by blast
  show h: "r \<Longrightarrow> holds_at st' ?a data" using t(4) by blast
  show "r \<Longrightarrow> buf_of (buffers st) p = None \<Longrightarrow> view_has st' p off data"
    using h p s by (auto simp: view_has_def holds_at_def view_at_card add.assoc)
  show "disk_serves st \<Longrightarrow> r" using t(5) a(2) by blast
qed

text \<open>Whole blocks: the write starts on a block and ends on one or with the piece.  A write that
  does not goes to the card beside a piece that may be in memory.\<close>

definition whole_blocks :: "metainfo \<Rightarrow> nat \<Rightarrow> nat \<Rightarrow> nat \<Rightarrow> bool" where
  "whole_blocks m p off n \<longleftrightarrow> off mod kStoreBlock = 0 \<and> 0 < n \<and> (n mod kStoreBlock = 0 \<or> off + n = size_of_piece m p)"

lemma whole_blocks_within:
  assumes "off mod kStoreBlock = 0" "0 < n" "n mod kStoreBlock = 0 \<or> off + n = e" "k < e"
  shows "(off div kStoreBlock \<le> k div kStoreBlock \<and> k div kStoreBlock \<le> (off + n - 1) div kStoreBlock) \<longleftrightarrow> off \<le> k \<and> k < off + n"
proof -
  obtain q where q: "off = q * kStoreBlock" using assms(1) by (metis mod_0_imp_dvd dvd_def mult.commute)
  have pos: "0 < kStoreBlock" by (simp add: kStoreBlock_def)
  have lo: "off div kStoreBlock \<le> k div kStoreBlock \<longleftrightarrow> off \<le> k"
    using pos q by (simp add: less_eq_div_iff_mult_less_eq)
  have "k div kStoreBlock \<le> (off + n - 1) div kStoreBlock \<longleftrightarrow> k < off + n"
  proof
    assume "k < off + n"
    then show "k div kStoreBlock \<le> (off + n - 1) div kStoreBlock" by (intro div_le_mono) simp
  next
    assume le: "k div kStoreBlock \<le> (off + n - 1) div kStoreBlock"
    show "k < off + n"
    proof (cases "off + n = e")
      case False
      then obtain r where r: "n = r * kStoreBlock" using assms(3) by (metis mod_0_imp_dvd dvd_def mult.commute)
      have "(off + n - 1) div kStoreBlock < q + r"
        using assms(2) q r pos by (simp add: div_less_iff_less_mult algebra_simps)
      then have "k div kStoreBlock < q + r" using le by simp
      then show ?thesis using q r pos by (simp add: div_less_iff_less_mult algebra_simps)
    qed (use assms(4) in simp)
  qed
  then show ?thesis using lo by blast
qed

text \<open>A write into the buffer of its piece.\<close>

lemma buffered_write_ok:
  assumes ok: "store_ok st" and p: "p < piece_count (smeta st)" "off + length data \<le> size_of_piece (smeta st) p"
    and al: "off mod kStoreBlock = 0" "0 < length data"
    and k: "k < length (buffers st)" "buf_index (buffers st ! k) = p"
    and b1: "b1 = (buffers st ! k)\<lparr>buf_data := take off (buf_data (buffers st ! k)) @ data @ drop (off + length data) (buf_data (buffers st ! k))\<rparr>"
    and b2: "b2 = mark_blocks [off div kStoreBlock..<Suc ((off + length data - 1) div kStoreBlock)] b1"
    and st': "st' = st\<lparr>buffers := (buffers st)[k := b2]\<rparr>"
  shows "(off + length data - 1) div kStoreBlock < length (buf_have (buffers st ! k))"
    and "store_ok st'"
    and "whole_blocks (smeta st) p off (length data) \<Longrightarrow> view_kept st st' p off (length data) \<and> view_has st' p off data"
proof -
  let ?m = "smeta st" and ?n = "length data" and ?b = "buffers st ! k"
  note parts = store_ok_parts [OF ok]
  have bof: "buf_of (buffers st) p = Some ?b" using buf_of_Some [OF parts(2,3)] k by simp
  have bok: "buf_ok ?m ?b" by (rule buffers_ok_nth [OF parts(3) k(1)])
  have len: "length (buf_data ?b) = size_of_piece ?m p" "length (buf_have ?b) = (size_of_piece ?m p + kStoreBlock - 1) div kStoreBlock"
    using bok k(2) by (simp_all add: buf_ok_def)
  show last: "(off + ?n - 1) div kStoreBlock < length (buf_have ?b)"
    unfolding len(2) using p(2) al(2) by (intro block_index) linarith
  have "\<forall>j \<in> set [off div kStoreBlock..<Suc ((off + ?n - 1) div kStoreBlock)]. j < length (buf_have b1)"
    using last by (auto simp: b1)
  note mk = mark_blocks_ok [OF this, folded b2]
  have b2s: "buf_index b2 = buf_index ?b" "buf_data b2 = take off (buf_data ?b) @ data @ drop (off + ?n) (buf_data ?b)"
    "length (buf_have b2) = length (buf_have ?b)"
    using mk by (simp_all add: b1)
  have b2have: "buf_have b2 ! j \<longleftrightarrow> buf_have ?b ! j \<or> off div kStoreBlock \<le> j \<and> j \<le> (off + ?n - 1) div kStoreBlock"
    if "j < length (buf_have ?b)" for j
    using mk that by (auto simp: b1 less_Suc_eq_le)
  have b2ok: "buf_ok ?m b2" using bok k(2) mk b2s p(2) len by (simp add: buf_ok_def b1)
  note bu = buffers_ok_update [OF parts(3) k(1) b2ok b2s(1)] and bo = buf_of_update [OF parts(2,3) k(1) b2ok b2s(1)]
  show "store_ok st'" using parts bu by (simp add: st' store_ok_def)
  have fr: "smeta st' = ?m" "content_at st' = content_at st" by (simp_all add: st')
  have other: "view_at st' q o' = view_at st q o'" if "q \<noteq> p" for q o'
    using view_at_cong [OF fr, of q o'] bo [of q] that k(2) b2s(1) by (simp add: st')
  have mine: "view_at st' p o' = (if off \<le> o' \<and> o' < off + ?n then Some (data ! (o' - off)) else view_at st p o')"
    if wb: "whole_blocks ?m p off ?n" and o: "o' < size_of_piece ?m p" for o'
  proof -
    have j: "o' div kStoreBlock < length (buf_have ?b)" unfolding len(2) by (rule block_index [OF o])
    have in_range: "(off div kStoreBlock \<le> o' div kStoreBlock \<and> o' div kStoreBlock \<le> (off + ?n - 1) div kStoreBlock) \<longleftrightarrow>
      off \<le> o' \<and> o' < off + ?n"
      using whole_blocks_within [OF al _ o] wb by (simp add: whole_blocks_def)
    have at: "off \<le> o' \<and> o' < off + ?n \<Longrightarrow> buf_data b2 ! o' = data ! (o' - off)"
      "\<not> (off \<le> o' \<and> o' < off + ?n) \<Longrightarrow> buf_data b2 ! o' = buf_data ?b ! o'"
      unfolding b2s(2) using len(1) p(2) o by (auto simp: nth_append min_def)
    have "view_at st' p o' = (if buf_have b2 ! (o' div kStoreBlock) then Some (buf_data b2 ! o')
        else content_at st (p * piece_length ?m + o'))"
      using view_at_memory [of p st' o' b2] bo [of p] k(2) b2s(1) p(1) o fr by (simp add: st')
    then show ?thesis using view_at_memory [OF p(1) o bof] b2have [OF j] in_range at by simp
  qed
  show "view_kept st st' p off ?n \<and> view_has st' p off data" if wb: "whole_blocks ?m p off ?n"
  proof
    show "view_has st' p off data" using mine [OF wb] p(2) by (simp add: view_has_def)
    show "view_kept st st' p off ?n" unfolding view_kept_def
    proof (intro allI impI)
      fix q o' x
      assume "\<not> (q = p \<and> off \<le> o' \<and> o' < off + ?n)" and v: "view_at st q o' = Some x"
      moreover have "o' < size_of_piece ?m q" using v view_at_out [of q st o'] by fastforce
      ultimately show "view_at st' q o' = Some x" using other [of q o'] mine [OF wb, of o'] by (cases "q = p") auto
    qed
  qed
qed

lemma write_block_ok:
  assumes ok: "store_ok st" and w: "write_block p off data st = (st', r)"
  shows "store_ok st'" and "smeta st' = smeta st"
    and "r \<Longrightarrow> p < piece_count (smeta st) \<and> off + length data \<le> size_of_piece (smeta st) p"
    and "disk_serves st \<Longrightarrow> p < piece_count (smeta st) \<Longrightarrow> off + length data \<le> size_of_piece (smeta st) p \<Longrightarrow> r"
    and "whole_blocks (smeta st) p off (length data) \<Longrightarrow> view_kept st st' p off (length data)"
    and "whole_blocks (smeta st) p off (length data) \<Longrightarrow> r \<Longrightarrow> view_has st' p off data"
proof -
  let ?m = "smeta st" and ?n = "length data"
  have "store_ok st' \<and> smeta st' = ?m \<and> (r \<longrightarrow> p < piece_count ?m \<and> off + ?n \<le> size_of_piece ?m p) \<and>
    (disk_serves st \<longrightarrow> p < piece_count ?m \<longrightarrow> off + ?n \<le> size_of_piece ?m p \<longrightarrow> r) \<and>
    (whole_blocks ?m p off ?n \<longrightarrow> view_kept st st' p off ?n \<and> (r \<longrightarrow> view_has st' p off data))"
  proof (cases "p < piece_count ?m \<and> off + ?n \<le> size_of_piece ?m p")
    case False
    then have "st' = st" "\<not> r" using w by (auto simp: write_block_def Let_def split: if_splits)
    then show ?thesis using ok False by (auto simp: view_kept_def)
  next
    case True
    then have p: "p < piece_count ?m" "off + ?n \<le> size_of_piece ?m p" by simp_all
    have guards: "\<not> piece_count ?m \<le> p" "\<not> (size_of_piece ?m p < off \<or> size_of_piece ?m p - off < ?n)" using p by linarith+
    obtain s1 found where bf: "(if off mod kStoreBlock = 0 \<and> 0 < ?n then buffer_for p True st else (st, None)) = (s1, found)"
      by fastforce
    show ?thesis
    proof (cases found)
      case None
      have s1: "s1 = st" "off mod kStoreBlock = 0 \<and> 0 < ?n \<Longrightarrow> buf_of (buffers st) p = None"
        using bf None buffer_for_ok(7) [OF ok p(1)] by (auto split: if_splits)
      then have wt: "write_through p off data st = (st', r)"
        using w guards bf None by (simp add: write_block_def Let_def)
      note t = write_through_store [OF ok p wt]
      show ?thesis using t p s1(2) by (auto simp: same_frame_def whole_blocks_def)
    next
      case (Some k)
      have al: "off mod kStoreBlock = 0" "0 < ?n" and bf': "buffer_for p True st = (s1, Some k)"
        using bf Some by (simp_all split: if_splits)
      note b = buffer_for_ok [OF ok p(1) bf']
      have p1: "p < piece_count (smeta s1)" "off + ?n \<le> size_of_piece (smeta s1) p" using p b(2) by simp_all
      have k: "k < length (buffers s1)" "buf_index (buffers s1 ! k) = p" using b(8) by blast+
      note bw = buffered_write_ok [OF b(1) p1 al k refl refl refl, unfolded b(2)]
      have "st' = s1\<lparr>buffers := (buffers s1)[k := mark_blocks [off div kStoreBlock..<Suc ((off + ?n - 1) div kStoreBlock)]
          ((buffers s1 ! k)\<lparr>buf_data := take off (buf_data (buffers s1 ! k)) @ data @ drop (off + ?n) (buf_data (buffers s1 ! k))\<rparr>)]\<rparr>" "r"
        using w guards bf Some bw(1) by (simp_all add: write_block_def Let_def)
      then show ?thesis using bw(2,3) p b(2,6) by (simp add: view_kept_def)
    qed
  qed
  then show "store_ok st'" "smeta st' = smeta st" "r \<Longrightarrow> p < piece_count ?m \<and> off + ?n \<le> size_of_piece ?m p"
    "disk_serves st \<Longrightarrow> p < piece_count ?m \<Longrightarrow> off + ?n \<le> size_of_piece ?m p \<Longrightarrow> r"
    "whole_blocks ?m p off ?n \<Longrightarrow> view_kept st st' p off ?n" "whole_blocks ?m p off ?n \<Longrightarrow> r \<Longrightarrow> view_has st' p off data"
    by blast+
qed

subsection \<open>Flushing, committing, verifying\<close>

text \<open>The offsets a list of runs covers.\<close>

definition covered :: "(nat \<times> nat) list \<Rightarrow> nat \<Rightarrow> bool" where
  "covered rs k \<longleftrightarrow> (\<exists>(s, e) \<in> set rs. s \<le> k \<and> k < e)"

lemma covered_simps [simp]: "\<not> covered [] k" "covered ((s, e) # rs) k \<longleftrightarrow> s \<le> k \<and> k < e \<or> covered rs k"
  by (auto simp: covered_def)

lemma runs_ok:
  assumes "\<forall>s. start = Some s \<longrightarrow> s < b * kStoreBlock \<and> s < psize"
    and "hs \<noteq> [] \<Longrightarrow> (b + length hs - 1) * kStoreBlock < psize"
  shows "(\<forall>(s, e) \<in> set (runs hs b start psize). s < e \<and> e \<le> psize) \<and>
    (\<forall>k < psize. covered (runs hs b start psize) k \<longleftrightarrow>
       (\<exists>s. start = Some s \<and> s \<le> k \<and> k < b * kStoreBlock) \<or>
       (b \<le> k div kStoreBlock \<and> k div kStoreBlock < b + length hs \<and> hs ! (k div kStoreBlock - b)))"
  using assms
proof (induction hs b start psize rule: runs.induct)
  case (1 b start psize)
  then show ?case by (cases start) auto
next
  case (2 h hs b start psize)
  have pos: "0 < kStoreBlock" by (simp add: kStoreBlock_def)
  have blk: "k div kStoreBlock = b \<longleftrightarrow> b * kStoreBlock \<le> k \<and> k < Suc b * kStoreBlock"
    "b \<le> k div kStoreBlock \<longleftrightarrow> b * kStoreBlock \<le> k" for k
  proof -
    show le: "b \<le> k div kStoreBlock \<longleftrightarrow> b * kStoreBlock \<le> k" using pos by (simp add: less_eq_div_iff_mult_less_eq)
    have "k div kStoreBlock < Suc b \<longleftrightarrow> k < Suc b * kStoreBlock" using pos by (simp only: div_less_iff_less_mult)
    then show "k div kStoreBlock = b \<longleftrightarrow> b * kStoreBlock \<le> k \<and> k < Suc b * kStoreBlock" using le by linarith
  qed
  have here: "b * kStoreBlock < psize"
  proof -
    have "b * kStoreBlock \<le> (b + length (h # hs) - 1) * kStoreBlock" by (intro mult_le_mono1) simp
    also have "\<dots> < psize" using "2.prems"(2) by blast
    finally show ?thesis .
  qed
  have rest: "hs \<noteq> [] \<Longrightarrow> (Suc b + length hs - 1) * kStoreBlock < psize" using "2.prems"(2) by simp
  have nth: "b \<le> j \<and> j < b + length (h # hs) \<and> (h # hs) ! (j - b) \<longleftrightarrow>
      j = b \<and> h \<or> Suc b \<le> j \<and> j < Suc b + length hs \<and> hs ! (j - Suc b)" for j
    by (cases "j = b") (auto simp: nth_Cons' Suc_diff_le)
  show ?case
  proof (cases start)
    case None
    have "(\<forall>(s, e) \<in> set (runs hs (Suc b) (if h then Some (b * kStoreBlock) else None) psize). s < e \<and> e \<le> psize) \<and>
      (\<forall>k < psize. covered (runs hs (Suc b) (if h then Some (b * kStoreBlock) else None) psize) k \<longleftrightarrow>
       (\<exists>s. (if h then Some (b * kStoreBlock) else None) = Some s \<and> s \<le> k \<and> k < Suc b * kStoreBlock) \<or>
       (Suc b \<le> k div kStoreBlock \<and> k div kStoreBlock < Suc b + length hs \<and> hs ! (k div kStoreBlock - Suc b)))"
      by (rule "2.IH"(1) [OF None]) (use here rest pos in \<open>auto split: if_splits\<close>)
    then show ?thesis unfolding nth using None blk by (simp split: if_splits)
  next
    case (Some s')
    have s': "s' < b * kStoreBlock" "s' < psize" using "2.prems"(1) Some by blast+
    show ?thesis
    proof (cases h)
      case True
      have "(\<forall>(s, e) \<in> set (runs hs (Suc b) start psize). s < e \<and> e \<le> psize) \<and>
        (\<forall>k < psize. covered (runs hs (Suc b) start psize) k \<longleftrightarrow>
         (\<exists>s. start = Some s \<and> s \<le> k \<and> k < Suc b * kStoreBlock) \<or>
         (Suc b \<le> k div kStoreBlock \<and> k div kStoreBlock < Suc b + length hs \<and> hs ! (k div kStoreBlock - Suc b)))"
        by (rule "2.IH"(2) [OF Some True]) (use s' Some rest in auto)
      moreover have "s' \<le> k \<and> k < Suc b * kStoreBlock \<longleftrightarrow> s' \<le> k \<and> k < b * kStoreBlock \<or> k div kStoreBlock = b" for k
      proof -
        have "b * kStoreBlock \<le> Suc b * kStoreBlock" by simp
        then show ?thesis unfolding blk(1) using s'(1) by arith
      qed
      ultimately show ?thesis unfolding nth using Some True by simp
    next
      case False
      have "(\<forall>(s, e) \<in> set (runs hs (Suc b) None psize). s < e \<and> e \<le> psize) \<and>
        (\<forall>k < psize. covered (runs hs (Suc b) None psize) k \<longleftrightarrow>
         (\<exists>s. None = Some s \<and> s \<le> k \<and> k < Suc b * kStoreBlock) \<or>
         (Suc b \<le> k div kStoreBlock \<and> k div kStoreBlock < Suc b + length hs \<and> hs ! (k div kStoreBlock - Suc b)))"
        by (rule "2.IH"(3) [OF Some False]) (use rest in auto)
      then show ?thesis unfolding nth using Some False s' by (auto simp: min_def)
    qed
  qed
qed

lemma write_runs_ok:
  assumes "store_ok st" "p < piece_count (smeta st)" "length data = size_of_piece (smeta st) p"
    and "\<forall>(s, e) \<in> set rs. s < e \<and> e \<le> length data" and "write_runs p data rs st = (st', r)"
  shows "store_ok st' \<and> same_frame st st' \<and>
    (\<forall>pos x. content_at st pos = Some x \<longrightarrow> \<not> (\<exists>k. covered rs k \<and> pos = p * piece_length (smeta st) + k) \<longrightarrow> content_at st' pos = Some x) \<and>
    (r \<longrightarrow> (\<forall>k. covered rs k \<longrightarrow> content_at st' (p * piece_length (smeta st) + k) = Some (data ! k))) \<and>
    (disk_serves st \<longrightarrow> r)"
  using assms
proof (induction p data rs st arbitrary: st' r rule: write_runs.induct)
  case (1 p data st)
  then show ?case by (auto simp: same_frame_refl)
next
  case (2 p data s e rs st)
  let ?d = "take (e - s) (drop s data)" and ?a = "p * piece_length (smeta st)"
  have se: "s < e" "e \<le> length data" using "2.prems"(4) by auto
  then have len: "length ?d = e - s" "s + length ?d \<le> size_of_piece (smeta st) p" using "2.prems"(3) by simp_all
  obtain s1 r1 where w1: "write_through p s ?d st = (s1, r1)" by fastforce
  note t = write_through_store [OF "2.prems"(1,2) len(2) w1]
  have sm: "smeta s1 = smeta st" using t(2) by (simp add: same_frame_def)
  have k1: "content_at s1 pos = Some x" if "content_at st pos = Some x" "\<not> (\<exists>k. s \<le> k \<and> k < e \<and> pos = ?a + k)" for pos x
  proof -
    have "\<not> (?a + s \<le> pos \<and> pos < ?a + s + length ?d)"
    proof
      assume "?a + s \<le> pos \<and> pos < ?a + s + length ?d"
      then have "s \<le> pos - ?a \<and> pos - ?a < e \<and> pos = ?a + (pos - ?a)" using len(1) by linarith
      then show False using that(2) by blast
    qed
    then show ?thesis using t(3) that(1) by (simp add: kept_def)
  qed
  show ?case
  proof (cases r1)
    case False
    then have "st' = s1" "\<not> r" using "2.prems"(5) w1 by simp_all
    moreover have "content_at s1 pos = Some x"
      if x: "content_at st pos = Some x" and nc: "\<not> (\<exists>k. covered ((s, e) # rs) k \<and> pos = ?a + k)" for pos x
      by (rule k1 [OF x]) (use nc in auto)
    ultimately show ?thesis using t(1,2,7) False by blast
  next
    case True
    have h1: "content_at s1 (?a + k) = Some (data ! k)" if k: "s \<le> k" "k < e" for k
    proof -
      obtain j where j: "k = s + j" using le_Suc_ex [OF k(1)] by blast
      then have "content_at s1 (?a + s + j) = Some (?d ! j)" using t(5) [OF True] k(2) len(1) se(2) by (simp add: holds_at_def)
      then show ?thesis using j k(2) se(2) by (simp add: add.assoc)
    qed
    have w2: "write_runs p data rs s1 = (st', r)" using "2.prems"(5) w1 True by simp
    have len2: "length data = size_of_piece (smeta s1) p" "p < piece_count (smeta s1)" using "2.prems"(2,3) sm by simp_all
    have "\<forall>(s, e) \<in> set rs. s < e \<and> e \<le> length data" using "2.prems"(4) by simp
    note ih = "2.IH" [OF w1 [symmetric] refl True t(1) len2(2,1) this w2, unfolded sm]
    have later: "content_at st' (?a + k) = Some (data ! k)" if r "covered ((s, e) # rs) k" for k
    proof (cases "covered rs k")
      case True
      then show ?thesis using ih that(1) by blast
    next
      case False
      then have "content_at s1 (?a + k) = Some (data ! k)" using h1 that(2) by simp
      moreover have "\<not> (\<exists>k'. covered rs k' \<and> ?a + k = ?a + k')" using False by simp
      ultimately show ?thesis using ih by blast
    qed
    have keep: "content_at st' pos = Some x"
      if x: "content_at st pos = Some x" and nc: "\<not> (\<exists>k. covered ((s, e) # rs) k \<and> pos = ?a + k)" for pos x
    proof -
      have "content_at s1 pos = Some x" by (rule k1 [OF x]) (use nc in auto)
      moreover have "\<not> (\<exists>k. covered rs k \<and> pos = ?a + k)" using nc by auto
      ultimately show ?thesis using ih by blast
    qed
    have "store_ok st'" "same_frame st st'" "disk_serves st \<longrightarrow> r"
      using ih same_frame_trans [OF t(2)] disk_serves_frame [OF t(2)] by simp_all
    then show ?thesis using later keep by blast
  qed
qed

text \<open>After a flush the card holds what the view showed of the piece; the view does not change, even
  when the flush fails half-way.\<close>

lemma flush_writes:
  assumes ok: "store_ok st" and b: "buf_of (buffers st) p = Some b"
    and w: "write_runs p (buf_data b) (runs (buf_have b) 0 None (length (buf_data b))) st = (s1, r)"
  shows "store_ok s1" and "same_frame st s1" and "disk_serves st \<Longrightarrow> r"
    and "\<And>q k x. view_at st q k = Some x \<Longrightarrow> view_at s1 q k = Some x"
    and "\<And>k x. r \<Longrightarrow> view_at st p k = Some x \<Longrightarrow> content_at s1 (p * piece_length (smeta st) + k) = Some x"
proof -
  note parts = store_ok_parts [OF ok]
  let ?m = "smeta st" and ?rs = "runs (buf_have b) 0 None (length (buf_data b))" and ?pl = "piece_length (smeta st)"
  have mem: "b \<in> set (buffers st)" "buf_index b = p" using b buf_of_Some [OF parts(2,3)] by simp_all
  have bok: "buf_ok ?m b" by (rule buffers_ok_mem [OF parts(3) mem(1)])
  have p: "p < piece_count ?m" and len: "length (buf_data b) = size_of_piece ?m p"
    "length (buf_have b) = (size_of_piece ?m p + kStoreBlock - 1) div kStoreBlock"
    using bok mem(2) by (simp_all add: buf_ok_def)
  have sz: "0 < size_of_piece ?m p" using size_of_piece_bounds [OF parts(2) p] by simp
  have "(0 + length (buf_have b) - 1) * kStoreBlock < length (buf_data b)"
    using div_ceil_le [of kStoreBlock "size_of_piece ?m p"] sz len by (simp add: kStoreBlock_def algebra_simps diff_mult_distrib2)
  note rn = runs_ok [of None 0 "length (buf_data b)" "buf_have b", simplified, OF this [simplified]]
  have cov: "covered ?rs k \<longleftrightarrow> buf_have b ! (k div kStoreBlock)" if "k < size_of_piece ?m p" for k
    using rn that len(1) block_index [OF that] len(2) by simp
  have bound: "\<forall>(s, e) \<in> set ?rs. s < e \<and> e \<le> length (buf_data b)" using rn by auto
  note wr = write_runs_ok [OF ok p len(1) bound w]
  show "store_ok s1" "same_frame st s1" "disk_serves st \<Longrightarrow> r" using wr by blast+
  then have s: "smeta s1 = smeta st" "buffers s1 = buffers st" by (simp_all add: same_frame_def)
  have kept: "content_at s1 (q * ?pl + k) = Some y"
    if y: "content_at st (q * ?pl + k) = Some y" and q: "q < piece_count ?m" "k < size_of_piece ?m q"
      and nc: "\<not> (q = p \<and> buf_have b ! (k div kStoreBlock))" for q k y
  proof -
    have "\<not> (\<exists>k'. covered ?rs k' \<and> q * ?pl + k = p * ?pl + k')"
    proof
      assume "\<exists>k'. covered ?rs k' \<and> q * ?pl + k = p * ?pl + k'"
      then obtain k' where k': "covered ?rs k'" "q * ?pl + k = p * ?pl + k'" by blast
      have lt: "k' < size_of_piece ?m p" using k'(1) bound len(1) unfolding covered_def by fastforce
      have "k < ?pl" "k' + 1 \<le> ?pl"
        using lt q(2) size_of_piece_bounds [OF parts(2) q(1)] size_of_piece_bounds [OF parts(2) p] by simp_all
      then have "q = p \<and> k' \<le> k \<and> k < k' + 1"
        by (rule piece_position_unique [of k ?pl k' 1 p q]) (use k'(2) in simp_all)
      then have "q = p" "k = k'" by simp_all
      then show False using nc k'(1) cov [OF lt] by simp
    qed
    then show ?thesis using wr y by blast
  qed
  have valid: "q < piece_count ?m \<and> k < size_of_piece ?m q" if "view_at st q k = Some x" for q k x
    using that view_at_out [of q st k] by fastforce
  show "view_at s1 q k = Some x" if v: "view_at st q k = Some x" for q k x
  proof (cases "buf_of (buffers st) q")
    case None
    then have "q \<noteq> p" using b by auto
    then show ?thesis using v valid [OF v] None kept [of q k x] s by (simp add: view_at_card)
  next
    case (Some c)
    then have "q = p \<Longrightarrow> c = b" using b by simp
    then show ?thesis using v valid [OF v] Some kept [of q k x] s by (auto simp: view_at_memory split: if_splits)
  qed
  show "content_at s1 (p * ?pl + k) = Some x" if r and v: "view_at st p k = Some x" for k x
  proof (cases "buf_have b ! (k div kStoreBlock)")
    case True
    then have "content_at s1 (p * ?pl + k) = Some (buf_data b ! k)" using wr that cov valid [OF v] by auto
    then show ?thesis using v True valid [OF v] b by (simp add: view_at_memory)
  next
    case False
    then show ?thesis using v valid [OF v] b kept [of p k x] by (simp add: view_at_memory)
  qed
qed

text \<open>Removing a buffer whose piece is on the card leaves the view; other pieces never change.\<close>

lemma drop_buffer_ok:
  assumes ok: "store_ok st" and k: "k < length (buffers st)"
  shows "store_ok (st\<lparr>buffers := remove_at k (buffers st)\<rparr>)"
    and "q \<noteq> buf_index (buffers st ! k) \<Longrightarrow> view_at (st\<lparr>buffers := remove_at k (buffers st)\<rparr>) q off = view_at st q off"
    and "q = buf_index (buffers st ! k) \<Longrightarrow> q < piece_count (smeta st) \<Longrightarrow> off < size_of_piece (smeta st) q \<Longrightarrow>
      view_at (st\<lparr>buffers := remove_at k (buffers st)\<rparr>) q off = content_at st (q * piece_length (smeta st) + off)"
proof -
  note parts = store_ok_parts [OF ok]
  note bo = buf_of_remove [OF parts(2,3) k]
  show "store_ok (st\<lparr>buffers := remove_at k (buffers st)\<rparr>)"
    using parts buffers_ok_remove [OF parts(3)] by (simp add: store_ok_def)
  show "view_at (st\<lparr>buffers := remove_at k (buffers st)\<rparr>) q off = view_at st q off" if "q \<noteq> buf_index (buffers st ! k)"
    by (rule view_at_cong) (use bo [of q] that in simp_all)
  show "view_at (st\<lparr>buffers := remove_at k (buffers st)\<rparr>) q off = content_at st (q * piece_length (smeta st) + off)"
    if "q = buf_index (buffers st ! k)" "q < piece_count (smeta st)" "off < size_of_piece (smeta st) q"
    using view_at_card [of q "st\<lparr>buffers := remove_at k (buffers st)\<rparr>" off] bo [of q] that by simp
qed

lemma find_buffer_of:
  assumes "store_ok st" "find_buffer p (buffers st) = Some k"
  shows "k < length (buffers st)" "buf_index (buffers st ! k) = p" "buf_of (buffers st) p = Some (buffers st ! k)"
    "buf_ok (smeta st) (buffers st ! k)" "p < piece_count (smeta st)"
proof -
  note parts = store_ok_parts [OF assms(1)]
  show k: "k < length (buffers st)" "buf_index (buffers st ! k) = p" using find_buffer_Some [OF assms(2)] by simp_all
  show "buf_of (buffers st) p = Some (buffers st ! k)" using buf_of_Some [OF parts(2,3)] k by simp
  show b: "buf_ok (smeta st) (buffers st ! k)" by (rule buffers_ok_nth [OF parts(3) k(1)])
  then show "p < piece_count (smeta st)" using k(2) by (simp add: buf_ok_def)
qed

text \<open>A complete buffer shows the whole piece.\<close>

lemma complete_buffer_view:
  assumes ok: "store_ok st" and b: "buf_of (buffers st) p = Some b" "blocks_present b = length (buf_have b)"
  shows "length (buf_data b) = size_of_piece (smeta st) p" and "view_has st p 0 (buf_data b)"
proof -
  note parts = store_ok_parts [OF ok]
  have mem: "b \<in> set (buffers st)" "buf_index b = p" using b buf_of_Some [OF parts(2,3)] by simp_all
  have bok: "buf_ok (smeta st) b" by (rule buffers_ok_mem [OF parts(3) mem(1)])
  then have all: "\<forall>y \<in> set (buf_have b). y" using b(2) count_list_full [of "buf_have b" True] by (simp add: buf_ok_def)
  show len: "length (buf_data b) = size_of_piece (smeta st) p" using bok mem(2) by (simp add: buf_ok_def)
  have "view_at st p k = Some (buf_data b ! k)" if "k < size_of_piece (smeta st) p" for k
  proof -
    have "buf_have b ! (k div kStoreBlock)"
      using all block_index [OF that] bok mem(2) by (auto simp: buf_ok_def)
    then show ?thesis using view_at_memory [of p st k b] that bok mem(2) b(1) by (simp add: buf_ok_def)
  qed
  then show "view_has st p 0 (buf_data b)" using len by (simp add: view_has_def)
qed

definition view_grows :: "storage \<Rightarrow> storage \<Rightarrow> bool" where
  "view_grows st st' \<longleftrightarrow> (\<forall>q k x. view_at st q k = Some x \<longrightarrow> view_at st' q k = Some x)"

lemma view_grows_refl [simp]: "view_grows st st"
  by (simp add: view_grows_def)

lemma view_grows_trans: "view_grows a b \<Longrightarrow> view_grows b c \<Longrightarrow> view_grows a c"
  by (simp add: view_grows_def)

lemma view_grows_has: "view_grows st st' \<Longrightarrow> view_has st p off bs \<Longrightarrow> view_has st' p off bs"
  by (simp add: view_grows_def view_has_def)

lemma view_grows_frame:
  assumes "same_frame st st'" "sdisk st' = sdisk st" shows "view_at st' = view_at st"
proof (intro ext)
  fix p off
  have "content_at st' = content_at st" using content_at_frame [OF assms(1)] assms(2) by simp
  then show "view_at st' p off = view_at st p off" using assms(1) by (intro view_at_cong) (simp_all add: same_frame_def)
qed

text \<open>Flushing one buffer and removing it: the piece moves to the card.\<close>

lemma flush_failed:
  assumes "store_ok st" "find_buffer p (buffers st) = Some k" "flush_buffer k st = (s1, r)" "\<not> r"
  shows "buffers s1 = buffers st"
proof -
  note fb = find_buffer_of [OF assms(1,2)]
  let ?b = "buffers st ! k"
  obtain s0 r0 where w: "write_runs p (buf_data ?b) (runs (buf_have ?b) 0 None (length (buf_data ?b))) st = (s0, r0)" by fastforce
  then have "s1 = s0" using assms(3,4) fb(2) by (auto simp: flush_buffer_def split: if_splits)
  then show ?thesis using flush_writes(2) [OF assms(1) fb(3) w] by (simp add: same_frame_def)
qed

lemma flush_remove_ok:
  assumes ok: "store_ok st" and f: "find_buffer p (buffers st) = Some k" and fl: "flush_buffer k st = (s1, r)"
  shows "\<not> r \<Longrightarrow> store_ok s1 \<and> smeta s1 = smeta st \<and> view_grows st s1"
    and "disk_serves st \<Longrightarrow> r \<and> disk_serves s1"
    and "r \<Longrightarrow> s2 = s1\<lparr>buffers := remove_at k (buffers s1)\<rparr> \<Longrightarrow>
      store_ok s2 \<and> smeta s2 = smeta st \<and> view_grows st s2 \<and> buf_of (buffers s2) p = None"
    and "find_index p (buffers s1) = Some k"
proof -
  note fb = find_buffer_of [OF ok f]
  let ?b = "buffers st ! k"
  obtain s0 r0 where w: "write_runs p (buf_data ?b) (runs (buf_have ?b) 0 None (length (buf_data ?b))) st = (s0, r0)" by fastforce
  note fw = flush_writes [OF ok fb(3) w]
  have s0: "smeta s0 = smeta st" "buffers s0 = buffers st" using fw(2) by (simp_all add: same_frame_def)
  define c where "c = ?b\<lparr>buf_data := [], buf_have := [], blocks_present := 0\<rparr>"
  have res: "r = r0" "s1 = (if r0 then s0\<lparr>buffers := (buffers s0)[k := c]\<rparr> else s0)"
    using fl w s0 fb(2) by (auto simp: flush_buffer_def c_def split: if_splits)
  have grows: "view_grows st s0" using fw(4) by (simp add: view_grows_def)
  show "\<not> r \<Longrightarrow> store_ok s1 \<and> smeta s1 = smeta st \<and> view_grows st s1" using res fw(1) s0 grows by simp
  show "disk_serves st \<Longrightarrow> r \<and> disk_serves s1" using res fw(3) disk_serves_frame [OF fw(2)] by simp
  have "find_index p (buffers s1) = find_index p (buffers st)"
    by (rule find_index_map) (use res(2) s0(2) fb(1) in \<open>simp add: map_update list_update_same_conv c_def\<close>)
  also have "\<dots> = Some k"
  proof -
    have "\<forall>b \<in> set (buffers st). buf_data b \<noteq> []"
      using buf_ok_data [OF store_ok_parts(2) [OF ok]] buffers_ok_mem [OF store_ok_parts(3) [OF ok]] by blast
    then show ?thesis using find_index_find_buffer f by simp
  qed
  finally show "find_index p (buffers s1) = Some k" .
  show "store_ok s2 \<and> smeta s2 = smeta st \<and> view_grows st s2 \<and> buf_of (buffers s2) p = None"
    if r and s2: "s2 = s1\<lparr>buffers := remove_at k (buffers s1)\<rparr>"
  proof -
    have "remove_at k (xs[k := c]) = remove_at k xs" for xs :: "piece_buffer list" by (simp add: remove_at_def)
    then have s2': "s2 = s0\<lparr>buffers := remove_at k (buffers s0)\<rparr>" using res that s2 by simp
    have k0: "k < length (buffers s0)" "buf_index (buffers s0 ! k) = p" using fb s0 by simp_all
    note d = drop_buffer_ok [OF fw(1) k0(1)]
    have "view_at s2 q j = Some x" if v: "view_at st q j = Some x" for q j x
    proof (cases "q = p")
      case True
      then have "j < size_of_piece (smeta st) p" using v view_at_out [of q st j] by fastforce
      then show ?thesis using True d(3) [of q j] k0(2) fb(5) s0(1) fw(5) [of j x] v res(1) \<open>r\<close> by (simp add: s2')
    next
      case False
      then show ?thesis using d(2) [of q j] k0(2) fw(4) [OF v] by (simp add: s2')
    qed
    moreover have "buf_of (buffers s2) p = None"
      using buf_of_remove [OF store_ok_parts(2,3) [OF fw(1)] k0(1), of p] k0(2) by (simp add: s2')
    ultimately show ?thesis using d(1) s0(1) by (simp add: view_grows_def s2')
  qed
qed

lemma find_buffer_at:
  assumes "store_ok st" "k < length (buffers st)" "buf_index (buffers st ! k) = p"
  shows "find_buffer p (buffers st) = Some k"
proof -
  note parts = store_ok_parts [OF assms(1)]
  have "buf_of (buffers st) p \<noteq> None" using buf_of_Some [OF parts(2,3)] assms(2,3) nth_mem by fastforce
  then obtain j where j: "find_buffer p (buffers st) = Some j"
    by (cases "find_buffer p (buffers st)") (simp_all add: find_buffer_None)
  then have "map buf_index (buffers st) ! j = map buf_index (buffers st) ! k" "j < length (buffers st)"
    using find_buffer_Some [OF j] assms by simp_all
  then have "j = k" using parts(3) assms(2) nth_eq_iff_index_eq [of "map buf_index (buffers st)" j k] by (simp add: buffers_ok_def)
  then show ?thesis using j by simp
qed

text \<open>The verdict on a piece: right when the bytes the torrent shows for it hash to the expected value,
  and only then; reaching it may move blocks to the card but loses none.\<close>

lemma verify_from_disk_store:
  assumes ok: "store_ok st" and p: "p < piece_count (smeta st)" "buf_of (buffers st) p = None"
    and v: "verify_from_disk p st = (st', r)"
  shows "store_ok st' \<and> smeta st' = smeta st \<and> view_grows st st' \<and>
    (r \<longrightarrow> (\<exists>bs. length bs = size_of_piece (smeta st) p \<and> view_has st' p 0 bs \<and> sha1_spec bs = piece_hashes (smeta st) ! p)) \<and>
    (\<forall>bs. disk_serves st \<longrightarrow> length bs = size_of_piece (smeta st) p \<longrightarrow> view_has st p 0 bs \<longrightarrow>
       sha1_spec bs = piece_hashes (smeta st) ! p \<longrightarrow> r)"
proof -
  note parts = store_ok_parts [OF ok]
  note d = verify_from_disk_ok [OF parts(1,2) p(1) v]
  have pi: "piece_is st p bs \<longleftrightarrow> length bs = size_of_piece (smeta st) p \<and> view_has st p 0 bs" for bs
    using p by (auto simp: piece_is_def view_has_def holds_at_def view_at_card)
  moreover have "store_ok st'" using d(1,2) parts by (simp add: store_ok_def same_frame_def)
  moreover have vw: "view_at st' = view_at st" by (rule view_grows_frame [OF d(2,3)])
  moreover have "view_has st' p 0 bs = view_has st p 0 bs" for bs using vw by (simp add: view_has_def)
  moreover have "smeta st' = smeta st" using d(2) by (simp add: same_frame_def)
  ultimately show ?thesis using d(4,5) unfolding pi view_grows_def by simp
qed

lemma verify_piece_ok:
  assumes ok: "store_ok st" and v: "verify_piece p st = (st', r)"
  shows "store_ok st' \<and> smeta st' = smeta st \<and> view_grows st st'"
    and "r \<Longrightarrow> \<exists>bs. length bs = size_of_piece (smeta st) p \<and> view_has st' p 0 bs \<and> sha1_spec bs = piece_hashes (smeta st) ! p"
    and "disk_serves st \<Longrightarrow> p < piece_count (smeta st) \<Longrightarrow> length bs = size_of_piece (smeta st) p \<Longrightarrow> view_has st p 0 bs \<Longrightarrow>
      sha1_spec bs = piece_hashes (smeta st) ! p \<Longrightarrow> r"
proof -
  let ?m = "smeta st"
  have all: "store_ok st' \<and> smeta st' = ?m \<and> view_grows st st' \<and>
    (r \<longrightarrow> (\<exists>bs. length bs = size_of_piece ?m p \<and> view_has st' p 0 bs \<and> sha1_spec bs = piece_hashes ?m ! p)) \<and>
    (\<forall>bs. disk_serves st \<longrightarrow> p < piece_count ?m \<longrightarrow> length bs = size_of_piece ?m p \<longrightarrow> view_has st p 0 bs \<longrightarrow>
      sha1_spec bs = piece_hashes ?m ! p \<longrightarrow> r)"
  proof (cases "p < piece_count ?m")
    case False
    then show ?thesis using v ok by (simp add: verify_piece_def)
  next
    case True
    obtain s1 found where bf: "buffer_for p False st = (s1, found)" by fastforce
    note b = buffer_for_ok [OF ok True bf]
    have ds: "disk_serves s1 = disk_serves st" using b(3,4) by (simp add: disk_serves_def)
    show ?thesis
    proof (cases found)
      case None
      then have "verify_from_disk p st = (st', r)" using v True bf b(7) by (simp add: verify_piece_def)
      from verify_from_disk_store [OF ok True conjunct2 [OF b(7) [OF None]] this] show ?thesis by blast
    next
      case (Some k)
      let ?b = "buffers s1 ! k"
      have k: "buf_of (buffers s1) p = Some ?b" "k < length (buffers s1)" "buf_index ?b = p" using b(8) [OF Some] by blast+
      show ?thesis
      proof (cases "blocks_present ?b = length (buf_have ?b)")
        case full: True
        note c = complete_buffer_view [OF b(1) k(1) full, unfolded b(2)]
        have res: "st' = s1" "r \<longleftrightarrow> sha1_spec (buf_data ?b) = piece_hashes ?m ! p"
          using v True bf Some full b(2) c(1) by (auto simp: verify_piece_def Let_def digest_update_reset)
        have "bs = buf_data ?b" if "length bs = size_of_piece ?m p" "view_has st p 0 bs" for bs
          using that c b(6) by (intro nth_equalityI) (auto simp: view_has_def)
        then show ?thesis using res b(1,2,6) c by (auto simp: view_grows_def)
      next
        case False
        obtain s2 ok2 where fl: "flush_buffer k s1 = (s2, ok2)" by fastforce
        note fr = flush_remove_ok [OF b(1) find_buffer_at [OF b(1) k(2,3)] fl, unfolded b(2)]
        show ?thesis
        proof (cases ok2)
          case no: False
          then have "st' = s2" "\<not> r" using v True bf Some False fl by (simp_all add: verify_piece_def Let_def)
          then show ?thesis using fr(1) [OF no] fr(2) ds no b(6) by (auto simp: view_grows_def)
        next
          case yes: True
          define s3 where "s3 = s2\<lparr>buffers := remove_at k (buffers s2)\<rparr>"
          have "discard_piece p s2 = s3" using fr(4) by (simp add: discard_piece_def s3_def)
          then have vd: "verify_from_disk p s3 = (st', r)"
            using v True bf Some False fl yes by (simp add: verify_piece_def Let_def)
          have s3: "store_ok s3" "smeta s3 = ?m" "view_grows s1 s3" "buf_of (buffers s3) p = None"
            using fr(3) [OF yes s3_def] by blast+
          have "p < piece_count (smeta s3)" using True s3(2) by simp
          note d = verify_from_disk_store [OF s3(1) this s3(4) vd, unfolded s3(2)]
          have g: "view_grows st s3" using s3(3) b(6) by (simp add: view_grows_def)
          have "disk_serves st \<Longrightarrow> disk_serves s3" using fr(2) ds by (simp add: s3_def)
          then show ?thesis using d view_grows_trans [OF g] view_grows_has [OF g] by blast
        qed
      qed
    qed
  qed
  show "store_ok st' \<and> smeta st' = smeta st \<and> view_grows st st'" using all by blast
  show "r \<Longrightarrow> \<exists>bs. length bs = size_of_piece (smeta st) p \<and> view_has st' p 0 bs \<and> sha1_spec bs = piece_hashes (smeta st) ! p"
    using all by blast
  show "disk_serves st \<Longrightarrow> p < piece_count (smeta st) \<Longrightarrow> length bs = size_of_piece (smeta st) p \<Longrightarrow> view_has st p 0 bs \<Longrightarrow>
      sha1_spec bs = piece_hashes (smeta st) ! p \<Longrightarrow> r" using all by blast
qed

lemma commit_piece_ok:
  assumes ok: "store_ok st" and c: "commit_piece p st = (st', r)"
  shows "store_ok st'" and "smeta st' = smeta st" and "buf_of (buffers st') p = None" and "disk_serves st \<Longrightarrow> r"
    and "r \<Longrightarrow> view_grows st st'"
    and "r \<Longrightarrow> view_at st p k = Some x \<Longrightarrow> content_at st' (p * piece_length (smeta st) + k) = Some x"
    and "q \<noteq> p \<Longrightarrow> view_at st q k = Some x \<Longrightarrow> view_at st' q k = Some x"
proof -
  have "store_ok st' \<and> smeta st' = smeta st \<and> buf_of (buffers st') p = None \<and> (disk_serves st \<longrightarrow> r) \<and> (r \<longrightarrow> view_grows st st') \<and>
    (\<forall>q k x. q \<noteq> p \<longrightarrow> view_at st q k = Some x \<longrightarrow> view_at st' q k = Some x)"
  proof (cases "find_buffer p (buffers st)")
    case None
    then have "st' = st" "r" using c by (simp_all add: commit_piece_def)
    then show ?thesis using ok None find_buffer_None by simp
  next
    case (Some j)
    obtain s1 r1 where fl: "flush_buffer j st = (s1, r1)" by fastforce
    have res: "st' = s1\<lparr>buffers := remove_at j (buffers s1)\<rparr>" "r = r1" using c Some fl by (simp_all add: commit_piece_def)
    note fr = flush_remove_ok [OF ok Some fl]
    show ?thesis
    proof (cases r1)
      case True
      then show ?thesis using fr(2) fr(3) [OF True res(1)] res(2) by (auto simp: view_grows_def)
    next
      case False
      have s1: "store_ok s1" "smeta s1 = smeta st" "view_grows st s1" "buffers s1 = buffers st"
        using fr(1) [OF False] flush_failed [OF ok Some fl False] by simp_all
      have j: "j < length (buffers s1)" "buf_index (buffers s1 ! j) = p" using find_buffer_Some [OF Some] s1(4) by simp_all
      note d = drop_buffer_ok [OF s1(1) j(1), folded res(1)]
      have "buf_of (buffers st') p = None"
        using buf_of_remove [OF store_ok_parts(2,3) [OF s1(1)] j(1), of p] j(2) by (simp add: res)
      then show ?thesis using d(1,2) j(2) s1(2,3) False res fr(2) by (auto simp: view_grows_def)
    qed
  qed
  then show "store_ok st'" "smeta st' = smeta st" and none: "buf_of (buffers st') p = None" and "disk_serves st \<Longrightarrow> r"
    and g: "r \<Longrightarrow> view_grows st st'" and "q \<noteq> p \<Longrightarrow> view_at st q k = Some x \<Longrightarrow> view_at st' q k = Some x" by blast+
  have "smeta st' = smeta st" by fact
  show "content_at st' (p * piece_length (smeta st) + k) = Some x" if r "view_at st p k = Some x"
  proof -
    have "view_at st' p k = Some x" using g that by (simp add: view_grows_def)
    moreover from this have "p < piece_count (smeta st') \<and> k < size_of_piece (smeta st') p"
      using view_at_out [of p st' k] by fastforce
    ultimately show ?thesis using none \<open>smeta st' = smeta st\<close> by (simp add: view_at_card)
  qed
qed

lemma take_complete_piece_ok:
  assumes ok: "store_ok st" and t: "take_complete_piece p st = (st', r)"
  shows "store_ok st'" and "smeta st' = smeta st" and "sdisk st' = sdisk st" and "q \<noteq> p \<Longrightarrow> view_at st' q k = view_at st q k"
    and "r = Some data \<Longrightarrow> length data = size_of_piece (smeta st) p \<and> view_has st p 0 data \<and> buf_of (buffers st') p = None"
    and "r = None \<Longrightarrow> st' = st"
proof -
  have "store_ok st' \<and> smeta st' = smeta st \<and> sdisk st' = sdisk st \<and> (\<forall>q k. q \<noteq> p \<longrightarrow> view_at st' q k = view_at st q k) \<and>
    (\<forall>data. r = Some data \<longrightarrow> length data = size_of_piece (smeta st) p \<and> view_has st p 0 data \<and> buf_of (buffers st') p = None) \<and>
    (r = None \<longrightarrow> st' = st)"
  proof (cases "find_buffer p (buffers st)")
    case None
    then show ?thesis using t ok by (simp add: take_complete_piece_def)
  next
    case (Some k)
    note f = find_buffer_of [OF ok Some]
    show ?thesis
    proof (cases "blocks_present (buffers st ! k) = length (buf_have (buffers st ! k))")
      case False
      then show ?thesis using t ok Some by (simp add: take_complete_piece_def Let_def)
    next
      case True
      have res: "st' = st\<lparr>buffers := remove_at k (buffers st)\<rparr>" "r = Some (buf_data (buffers st ! k))"
        using t Some True by (simp_all add: take_complete_piece_def Let_def)
      have "buf_of (buffers st') p = None" using buf_of_remove [OF store_ok_parts(2,3) [OF ok] f(1), of p] f(2) by (simp add: res)
      then show ?thesis using drop_buffer_ok(1,2) [OF ok f(1)] f(2) complete_buffer_view [OF ok f(3) True] res by simp
    qed
  qed
  note all = this
  show "store_ok st'" "smeta st' = smeta st" "sdisk st' = sdisk st" using all by simp_all
  show "q \<noteq> p \<Longrightarrow> view_at st' q k = view_at st q k" using all by simp
  show "r = Some data \<Longrightarrow> length data = size_of_piece (smeta st) p \<and> view_has st p 0 data \<and> buf_of (buffers st') p = None"
    using all by simp
  show "r = None \<Longrightarrow> st' = st" using all by simp
qed

lemma discard_piece_ok:
  assumes ok: "store_ok st"
  shows "store_ok (discard_piece p st)" and "smeta (discard_piece p st) = smeta st" and "sdisk (discard_piece p st) = sdisk st"
    and "buf_of (buffers (discard_piece p st)) p = None" and "q \<noteq> p \<Longrightarrow> view_at (discard_piece p st) q k = view_at st q k"
proof -
  have "store_ok (discard_piece p st) \<and> buf_of (buffers (discard_piece p st)) p = None \<and>
    (q \<noteq> p \<longrightarrow> view_at (discard_piece p st) q k = view_at st q k)"
  proof (cases "find_index p (buffers st)")
    case None
    then have "discard_piece p st = st" by (simp add: discard_piece_def)
    then show ?thesis using ok None buf_of_None [OF store_ok_parts(2,3) [OF ok]] find_index_None by simp
  next
    case (Some j)
    then have j: "j < length (buffers st)" "buf_index (buffers st ! j) = p" using find_index_Some by blast+
    show ?thesis using drop_buffer_ok(1,2) [OF ok j(1)] buf_of_remove [OF store_ok_parts(2,3) [OF ok] j(1), of p] j(2) Some
      by (simp add: discard_piece_def)
  qed
  then show "store_ok (discard_piece p st)" "buf_of (buffers (discard_piece p st)) p = None"
    "q \<noteq> p \<Longrightarrow> view_at (discard_piece p st) q k = view_at st q k" by blast+
  show "smeta (discard_piece p st) = smeta st" "sdisk (discard_piece p st) = sdisk st"
    by (simp_all add: discard_piece_def split: option.splits)
qed

text \<open>Writing a whole piece from memory, as the writer's thread does.\<close>

lemma write_piece_ok:
  assumes ok: "store_ok st" and p: "p < piece_count (smeta st)" "length data = size_of_piece (smeta st) p"
    and w: "write_piece p data st = (st', r)"
  shows "store_ok st'" and "same_frame st st'" and "disk_serves st \<Longrightarrow> r"
    and "r \<Longrightarrow> buf_of (buffers st) p = None \<Longrightarrow> view_has st' p 0 data"
    and "q \<noteq> p \<Longrightarrow> view_at st q k = Some x \<Longrightarrow> view_at st' q k = Some x"
proof -
  have "0 + length data \<le> size_of_piece (smeta st) p" using p(2) by simp
  note t = write_through_store [OF ok p(1) this w [unfolded write_piece_def]]
  show "store_ok st'" "same_frame st st'" "disk_serves st \<Longrightarrow> r"
    "r \<Longrightarrow> buf_of (buffers st) p = None \<Longrightarrow> view_has st' p 0 data" using t(1,2,6,7) by blast+
  show "q \<noteq> p \<Longrightarrow> view_at st q k = Some x \<Longrightarrow> view_at st' q k = Some x" using t(4) by (simp add: view_kept_def)
qed

text \<open>The scan at start-up: one verdict per piece, each as the verification gives it.\<close>

lemma scan_pieces_ok:
  assumes "store_ok st" and "scan_pieces go is held st = (st', held', r)" "distinct is" "\<forall>i \<in> set is. i < length held"
  shows "store_ok st' \<and> smeta st' = smeta st \<and> view_grows st st' \<and> length held' = length held \<and>
    (\<forall>i < length held. i \<notin> set is \<longrightarrow> held' ! i = held ! i) \<and>
    (\<forall>i \<in> set is. held' ! i \<longrightarrow> held ! i \<or>
       (\<exists>bs. length bs = size_of_piece (smeta st) i \<and> view_has st' i 0 bs \<and> sha1_spec bs = piece_hashes (smeta st) ! i))"
  using assms
proof (induction go "is" held st arbitrary: st' held' r rule: scan_pieces.induct)
  case (2 go i "is" held st)
  obtain s1 ok1 where v: "verify_piece i st = (s1, ok1)" by fastforce
  note vp = verify_piece_ok [OF "2.prems"(1) v]
  have i: "i < length held" "i \<notin> set is" "\<forall>j \<in> set is. j < length (held[i := ok1])" "distinct is" using "2.prems"(3,4) by auto
  show ?case
  proof (cases "go (i + 1)")
    case False
    then have "st' = s1" "held' = held[i := ok1]" using "2.prems"(2) v by (simp_all add: Let_def)
    then show ?thesis using vp(1,2) i by (auto simp: nth_list_update)
  next
    case True
    then have sc: "scan_pieces go is (held[i := ok1]) s1 = (st', held', r)" using "2.prems"(2) v by (simp add: Let_def)
    have s1: "store_ok s1" "smeta s1 = smeta st" "view_grows st s1" using vp(1) by simp_all
    note ih = "2.IH" [OF v [symmetric] refl refl _ s1(1) sc i(4,3), unfolded s1(2)]
    have ih': "store_ok st'" "smeta st' = smeta st" "view_grows s1 st'" "length held' = length held"
      "\<And>j. j < length held \<Longrightarrow> j \<notin> set is \<Longrightarrow> held' ! j = held[i := ok1] ! j"
      "\<And>j. j \<in> set is \<Longrightarrow> held' ! j \<Longrightarrow> held[i := ok1] ! j \<or>
       (\<exists>bs. length bs = size_of_piece (smeta st) j \<and> view_has st' j 0 bs \<and> sha1_spec bs = piece_hashes (smeta st) ! j)"
      using ih True by simp_all
    have here: "\<exists>bs. length bs = size_of_piece (smeta st) i \<and> view_has st' i 0 bs \<and> sha1_spec bs = piece_hashes (smeta st) ! i"
      if h: "held' ! i"
    proof -
      have ok1 using ih'(5) [OF i(1,2)] i(1) h by simp
      then show ?thesis using vp(2) view_grows_has [OF ih'(3)] by blast
    qed
    have "held' ! j = held ! j" if "j < length held" "j \<notin> set (i # is)" for j
      using ih'(5) [of j] that by simp
    moreover have "held' ! j \<Longrightarrow> held ! j \<or>
       (\<exists>bs. length bs = size_of_piece (smeta st) j \<and> view_has st' j 0 bs \<and> sha1_spec bs = piece_hashes (smeta st) ! j)"
      if "j \<in> set (i # is)" for j
      using here ih'(6) [of j] i(2) that by (cases "j = i") auto
    ultimately show ?thesis using ih'(1,2,4) view_grows_trans [OF s1(3) ih'(3)] by blast
  qed
qed simp

subsection \<open>Opening\<close>

text \<open>Opening touches no other file than the slot's own, and records its size.\<close>

definition slot_ready :: "disk \<Rightarrow> disk \<Rightarrow> file_slot \<Rightarrow> bool" where
  "slot_ready d d' s \<longleftrightarrow> (\<exists>c. contents d' (abs_path s) = Some c \<and> length c = allocated s) \<and>
     (\<forall>q. q \<noteq> abs_path s \<longrightarrow> contents d' q = contents d q)"

lemma can_grow_ok:
  assumes "can_grow_to_full_size probe s d = (d', r)" "contents d (abs_path s) = Some c" "length c = allocated s" "allocated s \<le> slot_length s"
  shows "slot_ready d d' s"
proof (cases probe)
  case None
  show ?thesis
  proof (cases "can_open d (abs_path s) \<and> slot_length s \<le> max_size d (abs_path s)")
    case True
    then show ?thesis using None assms
      by (auto simp: can_grow_to_full_size_def ftruncate_def slot_ready_def)
  next
    case False
    then have "d' = d" using None assms(1,2) by (auto simp: can_grow_to_full_size_def ftruncate_def split: if_splits)
    then show ?thesis using assms(2,3) by (simp add: slot_ready_def)
  qed
qed (use assms in \<open>simp add: can_grow_to_full_size_def slot_ready_def\<close>)

lemma create_large_file_ok:
  assumes "create_large_file probe s d = Some (s', d')"
  shows "slot_ready d d' s' \<and> abs_path s' = abs_path s \<and> slot_offset s' = slot_offset s \<and> slot_length s' = slot_length s \<and>
    opened s' = opened s"
proof -
  have ord: "slot_ready d d1 s1 \<and> abs_path s1 = abs_path s \<and> slot_offset s1 = slot_offset s \<and> slot_length s1 = slot_length s \<and>
      opened s1 = opened s"
    if r: "(case create_file (abs_path s) d0 of None \<Rightarrow> None
       | Some d \<Rightarrow> let slot = s\<lparr>allocated := 0\<rparr>; (d, ok) = can_grow_to_full_size probe slot d in if ok then Some (slot, d) else None) = Some (s1, d1)"
      and d0: "\<forall>q. q \<noteq> abs_path s \<longrightarrow> contents d0 q = contents d q" for d0 s1 d1
  proof -
    obtain d2 where d2: "create_file (abs_path s) d0 = Some d2" using r by (auto split: option.splits)
    obtain d3 ok where g: "can_grow_to_full_size probe (s\<lparr>allocated := 0\<rparr>) d2 = (d3, ok)" by fastforce
    have "slot_ready d2 d3 (s\<lparr>allocated := 0\<rparr>)"
      by (rule can_grow_ok [OF g, of "[]"]) (use d2 in \<open>auto simp: create_file_def split: if_splits\<close>)
    moreover have "s1 = s\<lparr>allocated := 0\<rparr>" "d1 = d3" using r d2 g by (auto split: if_splits)
    moreover have "contents d2 q = contents d0 q" if "q \<noteq> abs_path s" for q
      using d2 that by (auto simp: create_file_def split: if_splits)
    ultimately show ?thesis using d0 by (simp add: slot_ready_def)
  qed
  show ?thesis
  proof (cases "big_file d")
    case None
    then show ?thesis using ord [of d s' d'] assms by (simp add: create_large_file_def Let_def)
  next
    case (Some f)
    show ?thesis
    proof (cases "f (abs_path s) (slot_length s)")
      case True
      then show ?thesis using Some assms by (auto simp: create_large_file_def Let_def slot_ready_def)
    next
      case False
      then show ?thesis using ord [of "d\<lparr>contents := (contents d)(abs_path s := None)\<rparr>" s' d'] Some assms
        by (simp add: create_large_file_def Let_def)
    qed
  qed
qed

lemma file_size_exists: "0 < file_size d p \<Longrightarrow> \<exists>c. contents d p = Some c \<and> length c = file_size d p"
  by (auto simp: file_size_def split: option.splits)

lemma prepare_large_file_ok:
  assumes r: "prepare_large_file probe s d = Some (s', d', again)"
    and s: "allocated s = file_size d (abs_path s)" "0 < slot_length s"
  shows "slot_ready d d' s' \<and> abs_path s' = abs_path s \<and> slot_offset s' = slot_offset s \<and> slot_length s' = slot_length s \<and>
    opened s' = opened s"
proof (cases "slot_length s \<le> allocated s")
  case True
  then have "s' = s" "d' = d" using r by (simp_all add: prepare_large_file_def)
  then show ?thesis using file_size_exists [of d "abs_path s"] s True by (simp add: slot_ready_def)
next
  case small: False
  show ?thesis
  proof (cases "0 < allocated s")
    case False
    then show ?thesis using create_large_file_ok r small by (auto simp: prepare_large_file_def)
  next
    case True
    then obtain c where c: "contents d (abs_path s) = Some c" "length c = allocated s" using file_size_exists s(1) by metis
    obtain d1 ok where g: "can_grow_to_full_size probe s d = (d1, ok)" by fastforce
    have g': "slot_ready d d1 s" by (rule can_grow_ok [OF g c]) (use small in simp)
    show ?thesis
    proof (cases ok)
      case True
      then have "s' = s" "d' = d1" using r small g \<open>0 < allocated s\<close> by (simp_all add: prepare_large_file_def)
      then show ?thesis using g' by simp
    next
      case False
      then have "create_large_file probe (s\<lparr>allocated := 0\<rparr>) d1 = Some (s', d')"
        using r small g \<open>0 < allocated s\<close> by (auto simp: prepare_large_file_def)
      then show ?thesis using create_large_file_ok g' by (fastforce simp: slot_ready_def)
    qed
  qed
qed

lemma open_slot_ok:
  assumes "open_slot root f st = Some st'"
  shows "\<exists>s. slots st' = slots st @ [s] \<and> abs_path s = root @ B CHR ''/'' # fpath f \<and> slot_offset s = foffset f \<and>
    slot_length s = flength f \<and> \<not> opened s \<and> slot_ready (sdisk st) (sdisk st') s \<and>
    smeta st' = smeta st \<and> buffers st' = buffers st \<and> open_handles st' = open_handles st"
proof -
  define p where "p = root @ B CHR ''/'' # fpath f"
  define s0 where "s0 = \<lparr>abs_path = p, slot_offset = foffset f, slot_length = flength f, opened = False,
    slot_used = 0, allocated = file_size (sdisk st) p\<rparr>"
  define st0 where "st0 = (if 0 < allocated s0 then st\<lparr>created_fresh := False\<rparr> else st)"
  have frame: "slots st0 = slots st" "sdisk st0 = sdisk st" "smeta st0 = smeta st" "buffers st0 = buffers st"
    "open_handles st0 = open_handles st" "large_threshold st0 = large_threshold st" "growth_probe st0 = growth_probe st"
    by (simp_all add: st0_def)
  define prep where "prep = (if large_threshold st0 < slot_length s0 then prepare_large_file (growth_probe st0) s0 (sdisk st)
    else if allocated s0 = 0 then map_option (\<lambda>d. (s0, d, False)) (create_file p (sdisk st)) else Some (s0, sdisk st, False))"
  have "(case prep of None \<Rightarrow> None | Some (slot, d, again) \<Rightarrow>
      if \<not> can_open d p then None
      else Some (st0\<lparr>slots := slots st0 @ [slot], sdisk := d, recreated := (recreated st0 \<or> again)\<rparr>)) = Some st'"
    using assms unfolding open_slot_def Let_def p_def [symmetric] s0_def [symmetric] st0_def [symmetric] prep_def
    by (simp split: if_splits)
  then obtain s d again where pr: "prep = Some (s, d, again)"
    and st': "st' = st0\<lparr>slots := slots st0 @ [s], sdisk := d, recreated := (recreated st0 \<or> again)\<rparr>"
    by (auto split: option.splits if_splits)
  have s0: "abs_path s0 = p" "slot_offset s0 = foffset f" "slot_length s0 = flength f" "\<not> opened s0"
    "allocated s0 = file_size (sdisk st) (abs_path s0)" by (simp_all add: s0_def)
  have "slot_ready (sdisk st) d s \<and> abs_path s = abs_path s0 \<and> slot_offset s = slot_offset s0 \<and> slot_length s = slot_length s0 \<and>
    opened s = opened s0"
  proof (cases "large_threshold st0 < slot_length s0")
    case True
    then have "prepare_large_file (growth_probe st0) s0 (sdisk st) = Some (s, d, again)" using pr by (simp add: prep_def)
    from prepare_large_file_ok [OF this s0(5)] True show ?thesis by simp
  next
    case False
    show ?thesis
    proof (cases "allocated s0 = 0")
      case True
      then have "s = s0" "create_file p (sdisk st) = Some d" using pr False by (auto simp: prep_def)
      then show ?thesis using True s0(1) by (auto simp: create_file_def slot_ready_def split: if_splits)
    next
      case existing: False
      then have "s = s0" "d = sdisk st" using pr False by (simp_all add: prep_def)
      then show ?thesis using existing file_size_exists [of "sdisk st" p] s0(1,5) by (simp add: slot_ready_def)
    qed
  qed
  then show ?thesis using s0 frame by (simp add: st' p_def)
qed

lemma slots_tile_append: "slots_tile off (ss @ [s]) e \<longleftrightarrow> slots_tile off ss (slot_offset s) \<and> e = slot_offset s + slot_length s"
  by (induction ss arbitrary: off) auto

text \<open>What holds of the slots opened so far.\<close>

definition opened_upto :: "bytes \<Rightarrow> file_entry list \<Rightarrow> storage \<Rightarrow> bool" where
  "opened_upto root fs st \<longleftrightarrow>
     map (\<lambda>s. (abs_path s, slot_offset s, slot_length s)) (slots st) = map (\<lambda>f. (root @ B CHR ''/'' # fpath f, foffset f, flength f)) fs \<and>
     (\<forall>s \<in> set (slots st). \<not> opened s \<and> (\<exists>c. contents (sdisk st) (abs_path s) = Some c \<and> length c = allocated s))"

lemma opened_upto_paths:
  assumes "opened_upto root fs st"
  shows "map abs_path (slots st) = map (\<lambda>f. root @ B CHR ''/'' # fpath f) fs"
proof -
  have "map (\<lambda>s. (abs_path s, slot_offset s, slot_length s)) (slots st) = map (\<lambda>f. (root @ B CHR ''/'' # fpath f, foffset f, flength f)) fs"
    using assms by (simp add: opened_upto_def)
  from arg_cong [OF this, of "map fst"] show ?thesis by (simp add: comp_def)
qed

lemma open_slots_ok:
  assumes "open_slots root fs st = Some st'" "opened_upto root done st" "distinct (map fpath (done @ fs))"
  shows "opened_upto root (done @ fs) st' \<and> smeta st' = smeta st \<and> buffers st' = buffers st \<and> open_handles st' = open_handles st"
  using assms
proof (induction root fs st arbitrary: "done" rule: open_slots.induct)
  case (2 root f fs st)
  obtain s1 where s1: "open_slot root f st = Some s1" "open_slots root fs s1 = Some st'"
    using "2.prems"(1) by (auto split: option.splits)
  obtain s where s: "slots s1 = slots st @ [s]" "abs_path s = root @ B CHR ''/'' # fpath f" "slot_offset s = foffset f"
    "slot_length s = flength f" "\<not> opened s" "slot_ready (sdisk st) (sdisk s1) s"
    "smeta s1 = smeta st" "buffers s1 = buffers st" "open_handles s1 = open_handles st"
    using open_slot_ok [OF s1(1)] by blast
  have paths: "map abs_path (slots st) = map (\<lambda>f. root @ B CHR ''/'' # fpath f) done"
    by (rule opened_upto_paths [OF "2.prems"(2)])
  have "abs_path t \<noteq> abs_path s" if "t \<in> set (slots st)" for t
  proof -
    have "abs_path t \<in> set (map (\<lambda>f. root @ B CHR ''/'' # fpath f) done)" using that paths [symmetric] by simp
    then show ?thesis using "2.prems"(3) s(2) by auto
  qed
  then have old: "contents (sdisk s1) (abs_path t) = contents (sdisk st) (abs_path t)" if "t \<in> set (slots st)" for t
    using s(6) that unfolding slot_ready_def by blast
  have "\<not> opened t \<and> (\<exists>c. contents (sdisk s1) (abs_path t) = Some c \<and> length c = allocated t)" if "t \<in> set (slots s1)" for t
  proof (cases "t = s")
    case True
    then show ?thesis using s(5,6) by (simp add: slot_ready_def)
  next
    case False
    then have t: "t \<in> set (slots st)" using that s(1) by simp
    then show ?thesis unfolding old [OF t] using "2.prems"(2) unfolding opened_upto_def by blast
  qed
  then have "opened_upto root (done @ [f]) s1"
    using "2.prems"(2) s(1-4) unfolding opened_upto_def by simp
  then show ?case using "2.IH" [OF s1 _ , of "done @ [f]"] "2.prems"(3) s by simp
qed simp

lemma slots_tile_files:
  "map (\<lambda>s. (abs_path s, slot_offset s, slot_length s)) ss = map (\<lambda>f. (g f, foffset f, flength f)) fs \<Longrightarrow>
   slots_tile off ss e = tiles off fs e"
proof (induction fs arbitrary: ss off)
  case (Cons f fs)
  then obtain s rest where "ss = s # rest" "slot_offset s = foffset f" "slot_length s = flength f"
    "map (\<lambda>s. (abs_path s, slot_offset s, slot_length s)) rest = map (\<lambda>f. (g f, foffset f, flength f)) fs"
    by (cases ss) auto
  then show ?case using Cons.IH by simp
qed simp

lemma open_storage_store:
  assumes o: "open_storage m dir free st = Some st'"
    and m: "pieces_ok m" "tiles 0 (files m) (total_size m)" "distinct (map fpath (files m))"
  shows "store_ok st' \<and> smeta st' = m \<and> buffers st' = [] \<and> open_handles st' = 0 \<and> (free = 0 \<or> total_size m \<le> free) \<and>
    length (slots st') = length (files m)"
proof -
  define dir' where "dir' = (if dir \<noteq> [] \<and> last dir = B CHR ''/'' then butlast dir else dir)"
  define root where "root = (if single_file m then dir' else dir' @ B CHR ''/'' # mname m)"
  define st0 where "st0 = (close_storage st)\<lparr>smeta := m, base_dir := dir'\<rparr>"
  have os: "open_slots root (files m) st0 = Some st'" and fr: "free = 0 \<or> total_size m \<le> free"
    using o unfolding open_storage_def Let_def dir'_def [symmetric] root_def [symmetric] st0_def [symmetric]
    by (auto split: if_splits)
  have st0: "slots st0 = []" "buffers st0 = []" "open_handles st0 = 0" "smeta st0 = m"
    by (simp_all add: st0_def close_storage_def close_handles_def)
  have "opened_upto root [] st0" using st0 by (simp add: opened_upto_def)
  from open_slots_ok [OF os this] m(3) st0
  have up: "opened_upto root (files m) st'" "smeta st' = m" "buffers st' = []" "open_handles st' = 0" by simp_all
  have len: "length (slots st') = length (files m)" using up(1) map_eq_imp_length_eq unfolding opened_upto_def by blast
  have "map abs_path (slots st') = map (\<lambda>f. root @ B CHR ''/'' # fpath f) (files m)"
    by (rule opened_upto_paths [OF up(1)])
  moreover have "distinct (map (\<lambda>f. root @ B CHR ''/'' # fpath f) (files m))" using m(3) by (simp add: distinct_map inj_on_def)
  ultimately have "distinct (map abs_path (slots st'))" by simp
  moreover have "slots_tile 0 (slots st') (total_size m)" using slots_tile_files [OF conjunct1 [OF up(1) [unfolded opened_upto_def]]] m(2) by simp
  moreover have "total_size m < 2 ^ 63" using pieces_ok_total [OF m(1)] by simp
  moreover have "count_list (map opened (slots st')) True = 0"
    using up(1) by (auto simp: opened_upto_def count_list_0_iff)
  ultimately have "slots_ok st'" using up by (simp add: slots_ok_def opened_upto_def kMaxOpenHandles_def)
  then show ?thesis using up m(1) fr len by (simp add: store_ok_def buffers_ok_def)
qed

subsection \<open>Steps\<close>

text \<open>The calls the rest of the program makes on an open storage; indices, offsets and lengths are
  32-bit as in the code.\<close>

inductive storage_step :: "storage \<Rightarrow> storage \<Rightarrow> bool" where
  write_block: "write_block p off data st = (st', r) \<Longrightarrow> storage_step st st'"
| read_block: "p < 2 ^ 32 \<Longrightarrow> off < 2 ^ 32 \<Longrightarrow> n < 2 ^ 32 \<Longrightarrow> read_block p off n st = (st', bs) \<Longrightarrow> storage_step st st'"
| verify_piece: "verify_piece p st = (st', r) \<Longrightarrow> storage_step st st'"
| commit_piece: "commit_piece p st = (st', r) \<Longrightarrow> storage_step st st'"
| take_complete_piece: "take_complete_piece p st = (st', bs) \<Longrightarrow> storage_step st st'"
| discard_piece: "storage_step st (discard_piece p st)"
| write_piece: "hash_matches (smeta st) p data \<Longrightarrow> write_piece p data st = (st', r) \<Longrightarrow> storage_step st st'"
| scan_existing: "scan_existing go st = (st', held, r) \<Longrightarrow> storage_step st st'"

inductive_cases storage_stepE: "storage_step st st'"

lemma read_block_store:
  assumes ok: "store_ok st" and n: "p < 2 ^ 32" "off < 2 ^ 32" "n < 2 ^ 32" and r: "read_block p off n st = (st', bs)"
  shows "store_ok st' \<and> smeta st' = smeta st"
proof -
  note parts = store_ok_parts [OF ok]
  have "piece_length (smeta st) \<le> 2 ^ 28" using parts(2) by (simp add: pieces_ok_def)
  then have "p * piece_length (smeta st) \<le> 2 ^ 32 * 2 ^ 28" using n(1) by (intro mult_le_mono) simp_all
  then have s: "p * piece_length (smeta st) + off + n < 2 ^ 64" using n(2,3) by simp
  then have "abs_position st p off = p * piece_length (smeta st) + off" by (simp add: abs_position_def u64_id)
  then have "abs_position st p off + n < 2 ^ 64" using s by simp
  from read_block_ok(1,2) [OF parts(1) r this] show ?thesis using parts by (simp add: store_ok_def same_frame_def)
qed

lemma scan_existing_ok:
  assumes "store_ok st" "scan_existing go st = (st', held, r)"
  shows "store_ok st' \<and> smeta st' = smeta st \<and> view_grows st st' \<and> length held = piece_count (smeta st) \<and>
    (\<forall>i < piece_count (smeta st). held ! i \<longrightarrow>
       (\<exists>bs. length bs = size_of_piece (smeta st) i \<and> view_has st' i 0 bs \<and> sha1_spec bs = piece_hashes (smeta st) ! i))"
  using scan_pieces_ok [OF assms(1) assms(2) [unfolded scan_existing_def]] by auto

lemma storage_step_ok: "storage_step st st' \<Longrightarrow> store_ok st \<Longrightarrow> store_ok st' \<and> smeta st' = smeta st"
proof (induction rule: storage_step.induct)
  case (write_block p off data st st' r)
  then show ?case using write_block_ok(1,2) by blast
next
  case (read_block p off n st st' bs)
  then show ?case using read_block_store by blast
next
  case (write_piece st p data st' r)
  then show ?case using write_piece_ok(1,2) [of st p data st' r] by (simp add: hash_matches_iff same_frame_def)
next
  case (scan_existing go st st' held r)
  then show ?case using scan_existing_ok by blast
next
  case (verify_piece p st st' r)
  then show ?case using verify_piece_ok(1) by blast
next
  case (commit_piece p st st' r)
  then show ?case using commit_piece_ok(1,2) by blast
next
  case (take_complete_piece p st st' bs)
  then show ?case using take_complete_piece_ok(1,2) by blast
next
  case (discard_piece p st)
  then show ?case using discard_piece_ok(1,2) by simp
qed

lemma storage_steps_ok: "storage_step\<^sup>*\<^sup>* st st' \<Longrightarrow> store_ok st \<Longrightarrow> store_ok st' \<and> smeta st' = smeta st"
  by (induction rule: rtranclp_induct) (auto dest: storage_step_ok)

subsection \<open>A concrete store\<close>

definition sample_meta :: metainfo where
  "sample_meta = empty_meta\<lparr>mname := ascii ''a'', piece_length := 16384, piece_hashes := [sha1_spec [1, 2, 3]],
     files := [\<lparr>fpath = ascii ''a'', flength = 3, foffset = 0\<rparr>], total_size := 3, single_file := True\<rparr>"

definition sample_disk :: disk where
  "sample_disk = \<lparr>contents = (\<lambda>p. None), openable = (\<lambda>p. True), max_size = (\<lambda>p. 2 ^ 32), dir_ok = (\<lambda>p. True), big_file = None\<rparr>"

definition sample_with :: "bytes \<Rightarrow> storage" where
  "sample_with c = (new_storage (sample_disk\<lparr>contents := [ascii ''/a'' \<mapsto> c]\<rparr>))\<lparr>smeta := sample_meta,
     slots := [\<lparr>abs_path = ascii ''/a'', slot_offset = 0, slot_length = 3, opened = False, slot_used = 0, allocated = length c\<rparr>]\<rparr>"

abbreviation sample_store :: storage where
  "sample_store \<equiv> sample_with []"

lemma length_sha1_spec: "length (sha1_spec m) = 20"
  using length_sha1_of [of m] by (simp add: sha1_of_spec)

lemma sample_meta_ok: "pieces_ok sample_meta" "piece_count sample_meta = 1" "size_of_piece sample_meta 0 = 3"
  by (simp_all add: pieces_ok_def sample_meta_def length_sha1_spec piece_count_def size_of_piece_def u32_def u64_def sub64_def)

lemma sample_store_ok: "store_ok (sample_with c)" "disk_serves (sample_with c)" "smeta (sample_with c) = sample_meta"
  using sample_meta_ok(1)
  by (simp_all add: store_ok_def slots_ok_def buffers_ok_def disk_serves_def sample_with_def new_storage_def sample_disk_def
      kMaxOpenHandles_def) (simp_all add: sample_meta_def)

lemma sample_whole: "whole_blocks sample_meta 0 0 (length [1, 2, 3 :: byte])"
  by (simp add: whole_blocks_def sample_meta_ok)

lemma sample_write: "\<exists>st'. write_block 0 0 [1, 2, 3] sample_store = (st', True)"
proof -
  obtain st' r where w: "write_block 0 0 [1, 2, 3] sample_store = (st', r)" by fastforce
  have r using write_block_ok(4) [OF sample_store_ok(1) w] sample_store_ok(2,3) sample_meta_ok by simp
  then show ?thesis using w by auto
qed

lemma sample_view: "view_has (sample_with [1, 2, 3]) 0 0 [1, 2, 3]"
proof -
  let ?st = "sample_with [1, 2, 3]"
  have "content_at ?st k = Some ([1, 2, 3] ! k)" if "k < 3" for k
    using content_at_slot [OF store_ok_parts(1) [OF sample_store_ok(1)], of 0 "[1, 2, 3]" k] that
    by (simp add: sample_with_def byte_at_def new_storage_def)
  moreover have "buf_of (buffers ?st) 0 = None" by (simp add: buf_of_def sample_with_def new_storage_def)
  ultimately show ?thesis by (simp add: view_has_def view_at_def sample_store_ok(3) sample_meta_ok)
qed

subsection \<open>Properties\<close>

text \<open>C24: writing a block refines updating the torrent's content: on whole blocks, a success makes the
  view show the bytes written and every byte outside the range stays as it was, whether the block went
  to a piece in memory or through to the files it spans; a write outside the piece is refused, and on a
  disk that serves the files no other write is.\<close>

theorem write_block_refines:
  assumes "store_ok st" and "write_block p off data st = (st', r)" and "whole_blocks (smeta st) p off (length data)"
  shows "store_ok st' \<and> view_kept st st' p off (length data) \<and>
    (r \<longrightarrow> p < piece_count (smeta st) \<and> off + length data \<le> size_of_piece (smeta st) p \<and> view_has st' p off data) \<and>
    (disk_serves st \<and> p < piece_count (smeta st) \<and> off + length data \<le> size_of_piece (smeta st) p \<longrightarrow> r)"
  using write_block_ok [OF assms(1,2)] assms(3) by blast

theorem write_block_refines_witness:
  "\<exists>st'. write_block 0 0 [1, 2, 3] sample_store = (st', True) \<and> view_has st' 0 0 [1, 2, 3]"
proof -
  obtain st' where w: "write_block 0 0 [1, 2, 3] sample_store = (st', True)" using sample_write by blast
  have "whole_blocks (smeta sample_store) 0 0 (length [1, 2, 3 :: byte])" using sample_whole sample_store_ok(3) by simp
  from write_block_refines [OF sample_store_ok(1) w this] show ?thesis using w by simp
qed

text \<open>Bytes written through to the files come back when read: after a successful write inside a
  piece, reading the same range returns exactly the bytes, across the files it spans.\<close>

theorem write_then_read:
  assumes "store_ok st" and "disk_serves st" and "p < piece_count (smeta st)"
    and "off + length data \<le> size_of_piece (smeta st) p"
  shows "\<exists>st'. write_through p off data st = (st', True) \<and> snd (read_block p off (length data) st') = Some data"
proof -
  obtain st' r where w: "write_through p off data st = (st', r)" by fastforce
  note t = write_through_store [OF assms(1,3,4) w]
  have r: r using t(7) assms(2) by simp
  have m: "smeta st' = smeta st" using t(2) by (simp add: same_frame_def)
  let ?a = "p * piece_length (smeta st) + off"
  note parts = store_ok_parts [OF t(1)]
  have a: "abs_position st' p off = ?a" "?a + length data \<le> total_size (smeta st)" "total_size (smeta st) < 2 ^ 63"
    using abs_position_piece [OF parts(1,2), of p off] abs_position_piece(2) [OF parts(1,2), of p "off + length data"]
      assms(3,4) m by (simp_all add: add.assoc)
  obtain st2 x where rd: "read_block p off (length data) st' = (st2, x)" by fastforce
  have "abs_position st' p off + length data < 2 ^ 64" using a by simp
  note b = read_block_ok [OF parts(1) rd this, unfolded a(1) m]
  have h: "holds_at st' ?a data" using t(5) r by simp
  have "x \<noteq> None" using b(5) disk_serves_frame [OF t(2)] assms(2) a(2) h by (simp add: holds_at_def)
  then obtain y where "x = Some y" by blast
  then have "x = Some data" using b(4) holds_at_unique [OF _ h] by blast
  then show ?thesis using w r rd by simp
qed

theorem write_then_read_witness:
  "\<exists>st'. write_through 0 0 [1, 2, 3] sample_store = (st', True) \<and> snd (read_block 0 0 3 st') = Some [1, 2, 3]"
  using write_then_read [OF sample_store_ok(1,2), of 0 "[]" 0 "[1, 2, 3]"] sample_store_ok(3) sample_meta_ok
  by (simp add: numeral_3_eq_3)

text \<open>C25: a piece passes verification only if the bytes the torrent shows for it hash to the
  value of the metadata, and does pass when they do and the disk serves; checking may move blocks from
  memory to the card but no byte is lost or altered.\<close>

theorem verify_piece_sound:
  assumes "store_ok st" and "verify_piece p st = (st', r)"
  shows "store_ok st' \<and> view_grows st st' \<and>
    (r \<longrightarrow> (\<exists>bs. length bs = size_of_piece (smeta st) p \<and> view_has st' p 0 bs \<and> sha1_spec bs = piece_hashes (smeta st) ! p)) \<and>
    (\<forall>bs. disk_serves st \<and> p < piece_count (smeta st) \<and> length bs = size_of_piece (smeta st) p \<and> view_has st p 0 bs \<and>
       sha1_spec bs = piece_hashes (smeta st) ! p \<longrightarrow> r)"
  using verify_piece_ok [OF assms] by blast

theorem verify_piece_sound_witness: "snd (verify_piece 0 (sample_with [1, 2, 3]))"
proof -
  obtain st' r where v: "verify_piece 0 (sample_with [1, 2, 3]) = (st', r)" by fastforce
  have "length [1, 2, 3 :: byte] = size_of_piece sample_meta 0" "sha1_spec [1, 2, 3] = piece_hashes sample_meta ! 0"
    by (simp add: sample_meta_ok) (simp add: sample_meta_def)
  then have r using verify_piece_sound [OF sample_store_ok(1) v] sample_store_ok(2,3) sample_meta_ok(2) sample_view by auto
  then show ?thesis using v by simp
qed

text \<open>Committing a piece moves it to the card: after a success the files hold every byte the view
  showed of it and its memory is free; a failure still frees the memory and harms no other piece.\<close>

theorem commit_piece_stores:
  assumes "store_ok st" and "commit_piece p st = (st', r)"
  shows "store_ok st' \<and> buf_of (buffers st') p = None \<and>
    (r \<longrightarrow> (\<forall>k x. view_at st p k = Some x \<longrightarrow> content_at st' (p * piece_length (smeta st) + k) = Some x)) \<and>
    (\<forall>q k x. q \<noteq> p \<longrightarrow> view_at st q k = Some x \<longrightarrow> view_at st' q k = Some x)"
  using commit_piece_ok [OF assms] by blast

theorem commit_piece_stores_witness:
  "\<exists>st st'. view_has st 0 0 [1, 2, 3] \<and> commit_piece 0 st = (st', True) \<and> content_at st' 0 = Some 1"
proof -
  obtain st' r where c: "commit_piece 0 (sample_with [1, 2, 3]) = (st', r)" by fastforce
  have r using commit_piece_ok(4) [OF sample_store_ok(1) c] sample_store_ok(2) by simp
  moreover have "view_at (sample_with [1, 2, 3]) 0 0 = Some 1" using sample_view by (simp add: view_has_def)
  ultimately have "content_at st' 0 = Some 1"
    using commit_piece_stores [OF sample_store_ok(1) c] by fastforce
  then show ?thesis using c \<open>r\<close> sample_view by (intro exI [of _ "sample_with [1, 2, 3]"] exI [of _ st']) simp
qed

text \<open>Opening a torrent whose files lie end to end under distinct paths gives a store that
  satisfies the invariant: one closed slot per file, nothing in memory, each recorded size the size
  on the card, and, when the free space is known, room for the whole torrent.\<close>

theorem open_storage_sound:
  assumes "pieces_ok m" and "tiles 0 (files m) (total_size m)" and "distinct (map fpath (files m))"
    and "open_storage m dir free st = Some st'"
  shows "store_ok st' \<and> smeta st' = m \<and> buffers st' = [] \<and> open_handles st' = 0 \<and>
    length (slots st') = length (files m) \<and> (0 < free \<longrightarrow> total_size m \<le> free)"
  using open_storage_store [OF assms(4,1,2,3)] by auto

theorem open_storage_sound_witness:
  "\<exists>st'. open_storage sample_meta (ascii ''/'') 0 (new_storage sample_disk) = Some st' \<and> store_ok st'"
proof -
  have "open_storage sample_meta (ascii ''/'') 0 (new_storage sample_disk) \<noteq> None"
    by (simp add: open_storage_def sample_meta_def empty_meta_def meta_valid_def close_storage_def close_handles_def new_storage_def
        open_slot_def ensure_directories_def sample_disk_def list_all_iff Let_def file_size_def kFat32FileLimit_def
        create_file_def can_open_def)
  then obtain st' where st': "open_storage sample_meta (ascii ''/'') 0 (new_storage sample_disk) = Some st'" by blast
  from open_storage_sound [OF sample_meta_ok(1) _ _ st'] have "store_ok st'" by (simp add: sample_meta_def)
  then show ?thesis using st' by blast
qed

text \<open>C26: whatever sequence of calls is made on an open store, the invariant holds: the slots tile the
  torrent and each recorded size is the file's, the handle count is the number of open files and at
  most 8, there is one buffer per piece, well-formed, and the pieces in memory stay within 48 MiB.\<close>

theorem storage_limits:
  assumes "store_ok st" and "storage_step\<^sup>*\<^sup>* st st'"
  shows "store_ok st' \<and> open_handles st' = count_list (map opened (slots st')) True \<and> open_handles st' \<le> kMaxOpenHandles \<and>
    distinct (map buf_index (buffers st')) \<and> (\<Sum>b\<leftarrow>buffers st'. length (buf_data b)) \<le> kBufferBudget"
proof -
  have "store_ok st'" using storage_steps_ok [OF assms(2,1)] by blast
  then show ?thesis by (simp add: store_ok_def slots_ok_def buffers_ok_def)
qed

theorem storage_limits_witness:
  "\<exists>st'. storage_step\<^sup>*\<^sup>* sample_store st' \<and> write_block 0 0 [1, 2, 3] sample_store = (st', True) \<and> open_handles st' \<le> kMaxOpenHandles"
proof -
  obtain st' where w: "write_block 0 0 [1, 2, 3] sample_store = (st', True)" using sample_write by blast
  have s: "storage_step\<^sup>*\<^sup>* sample_store st'" using storage_step.write_block [OF w] by blast
  show ?thesis using storage_limits [OF sample_store_ok(1) s] s w by blast
qed

text \<open>The start-up scan never claims a piece that is not there: each piece it marks held
  has bytes that hash to the expected value, and the scan loses nothing.\<close>

theorem scan_existing_sound:
  assumes "store_ok st" and "scan_existing go st = (st', held, r)"
  shows "store_ok st' \<and> view_grows st st' \<and> length held = piece_count (smeta st) \<and>
    (\<forall>i < piece_count (smeta st). held ! i \<longrightarrow>
       (\<exists>bs. length bs = size_of_piece (smeta st) i \<and> view_has st' i 0 bs \<and> sha1_spec bs = piece_hashes (smeta st) ! i))"
  using scan_existing_ok [OF assms] by blast

theorem scan_existing_sound_witness:
  "\<exists>st' held r. scan_existing (\<lambda>i. True) (sample_with [1, 2, 3]) = (st', held, r) \<and> length held = 1 \<and> store_ok st'"
proof -
  obtain st' held r where s: "scan_existing (\<lambda>i. True) (sample_with [1, 2, 3]) = (st', held, r)" using prod_cases3 by blast
  show ?thesis using scan_existing_sound [OF sample_store_ok(1) s] s sample_store_ok(3) sample_meta_ok(2) by auto
qed

end
