(* ===== verification/Writer.thy ===== *)
theory Writer
  imports StoragePieces
begin

text \<open>
  The thread that checks and writes pieces (\<open>source/bt/piece_writer.cpp\<close>,
  \<open>include/bt/piece_writer.hpp\<close>): the bounded queue between the engine and the card.

  Each section the code runs under a lock is one function on the record \<open>writer\<close>; the two threads are
  the interleavings of these sections, with the engine's own calls to the storage in between.  A wait
  on a condition variable is a guard: \<open>submit\<close> and \<open>stop_join\<close> yield None while they would block.  The
  ghost fields of \<open>wsystem\<close> record what was submitted and what was collected.

  Results: every job accepted is answered exactly once and in order; only data with the right hash is
  written; the queue accounts for its bytes and holds at most its budget or a single job; stopping
  ends and finishes every queued job first.
\<close>

record wresult =
  res_piece :: nat
  res_ok :: bool
  res_hash_failed :: bool

record writer =
  w_running :: bool
  w_thread :: bool
  w_jobs :: "(nat \<times> bytes) list"
  w_queued :: nat
  w_hand :: "(nat \<times> bytes) option"
  w_results :: "wresult list"

definition kQueueBudget :: nat where
  "kQueueBudget = 96 * 1024 * 1024"

definition new_writer :: writer where
  "new_writer = \<lparr>w_running = False, w_thread = False, w_jobs = [], w_queued = 0, w_hand = None, w_results = []\<rparr>"

definition writer_start :: "writer \<Rightarrow> writer" where
  "writer_start w = (if w_running w then w else w\<lparr>w_running := True, w_thread := True\<rparr>)"

definition submit :: "nat \<Rightarrow> bytes \<Rightarrow> writer \<Rightarrow> writer option" where
  "submit piece data w =
     (let n = length data
      in if w_running w \<and> kQueueBudget < u64 (w_queued w + n) \<and> w_jobs w \<noteq> [] then None
         else if \<not> w_running w then Some w
         else Some (w\<lparr>w_queued := u64 (w_queued w + n), w_jobs := w_jobs w @ [(piece, data)]\<rparr>))"

definition take_results :: "writer \<Rightarrow> writer \<times> wresult list" where
  "take_results w = (w\<lparr>w_results := []\<rparr>, w_results w)"

text \<open>The first half of a turn of \<open>loop\<close>: wait for work, then take the oldest job or end.\<close>

definition worker_take :: "writer \<Rightarrow> writer" where
  "worker_take w =
     (case w_jobs w of
        [] \<Rightarrow> if w_running w then w else w\<lparr>w_thread := False\<rparr>
      | (piece, data) # rest \<Rightarrow>
          w\<lparr>w_jobs := rest, w_queued := sub64 (w_queued w) (length data), w_hand := Some (piece, data)\<rparr>)"

definition process_job :: "nat \<Rightarrow> bytes \<Rightarrow> storage \<Rightarrow> storage \<times> wresult" where
  "process_job piece data st =
     (if \<not> hash_matches (smeta st) piece data
      then (st, \<lparr>res_piece = piece, res_ok = False, res_hash_failed = True\<rparr>)
      else
        let (st, ok) = write_piece piece data st
        in (st, \<lparr>res_piece = piece, res_ok = ok, res_hash_failed = False\<rparr>))"

definition worker_step :: "writer \<times> storage \<Rightarrow> writer \<times> storage" where
  "worker_step ws =
     (let (w, st) = ws
      in if \<not> w_thread w then (w, st)
         else case w_hand w of
           None \<Rightarrow> (worker_take w, st)
         | Some (piece, data) \<Rightarrow>
             let (st, res) = process_job piece data st
             in (w\<lparr>w_hand := None, w_results := w_results w @ [res]\<rparr>, st))"

definition stop_signal :: "writer \<Rightarrow> writer" where
  "stop_signal w = w\<lparr>w_running := False\<rparr>"

text \<open>What follows the join; the number is that of the pieces it reports as not written.\<close>

definition stop_join :: "writer \<Rightarrow> (writer \<times> nat) option" where
  "stop_join w =
     (if w_thread w then None
      else if w_jobs w = [] then Some (w, 0)
      else Some (w\<lparr>w_jobs := [], w_queued := 0\<rparr>, length (w_jobs w)))"

subsection \<open>The two threads\<close>

record wsystem =
  sys_writer :: writer
  sys_store :: storage
  sys_submitted :: "(nat \<times> bytes) list"
  sys_taken :: "wresult list"

inductive writer_event :: "wsystem \<Rightarrow> wsystem \<Rightarrow> bool" where
  start: "\<not> w_thread (sys_writer s) \<Longrightarrow> writer_event s (s\<lparr>sys_writer := writer_start (sys_writer s)\<rparr>)"
| submit: "length data < 2 ^ 32 \<Longrightarrow> submit piece data (sys_writer s) = Some w \<Longrightarrow>
    writer_event s (s\<lparr>sys_writer := w,
      sys_submitted := sys_submitted s @ (if w_running (sys_writer s) then [(piece, data)] else [])\<rparr>)"
| work: "worker_step (sys_writer s, sys_store s) = (w, st) \<Longrightarrow> writer_event s (s\<lparr>sys_writer := w, sys_store := st\<rparr>)"
| take: "take_results (sys_writer s) = (w, rs) \<Longrightarrow> writer_event s (s\<lparr>sys_writer := w, sys_taken := sys_taken s @ rs\<rparr>)"
| stop: "writer_event s (s\<lparr>sys_writer := stop_signal (sys_writer s)\<rparr>)"
| join: "stop_join (sys_writer s) = Some (w, n) \<Longrightarrow> writer_event s (s\<lparr>sys_writer := w\<rparr>)"
| engine: "storage_step (sys_store s) st \<Longrightarrow> writer_event s (s\<lparr>sys_store := st\<rparr>)"

definition writer_system :: "storage \<Rightarrow> wsystem" where
  "writer_system st = \<lparr>sys_writer = new_writer, sys_store = st, sys_submitted = [], sys_taken = []\<rparr>"

subsection \<open>The invariant\<close>

definition answers :: "metainfo \<Rightarrow> nat \<times> bytes \<Rightarrow> wresult \<Rightarrow> bool" where
  "answers m job res \<longleftrightarrow> res_piece res = fst job \<and> res_hash_failed res = (\<not> hash_matches m (fst job) (snd job)) \<and>
     (res_hash_failed res \<longrightarrow> \<not> res_ok res)"

definition queue_ok :: "writer \<Rightarrow> bool" where
  "queue_ok w \<longleftrightarrow> w_queued w = (\<Sum>j\<leftarrow>w_jobs w. length (snd j)) \<and> (\<forall>j \<in> set (w_jobs w). length (snd j) < 2 ^ 32) \<and>
     (w_queued w \<le> kQueueBudget \<or> length (w_jobs w) \<le> 1) \<and> (w_running w \<longrightarrow> w_thread w) \<and>
     (\<not> w_thread w \<longrightarrow> w_jobs w = [] \<and> w_hand w = None)"

definition system_ok :: "metainfo \<Rightarrow> wsystem \<Rightarrow> bool" where
  "system_ok m s \<longleftrightarrow> store_ok (sys_store s) \<and> smeta (sys_store s) = m \<and> queue_ok (sys_writer s) \<and>
     (\<exists>dn. sys_submitted s = dn @ (case w_hand (sys_writer s) of None \<Rightarrow> [] | Some j \<Rightarrow> [j]) @ w_jobs (sys_writer s) \<and>
        list_all2 (answers m) dn (sys_taken s @ w_results (sys_writer s)))"

lemma queued_small:
  assumes "queue_ok w" shows "w_queued w < 2 ^ 33"
proof (cases "w_queued w \<le> kQueueBudget")
  case True
  then show ?thesis by (simp add: kQueueBudget_def)
next
  case False
  then have "length (w_jobs w) \<le> 1" "w_queued w = (\<Sum>j\<leftarrow>w_jobs w. length (snd j))" "\<forall>j \<in> set (w_jobs w). length (snd j) < 2 ^ 32"
    using assms by (auto simp: queue_ok_def)
  then show ?thesis by (cases "w_jobs w") auto
qed

lemma queue_ok_hand: "queue_ok w \<Longrightarrow> w_thread w \<Longrightarrow> queue_ok (w\<lparr>w_hand := h, w_results := rs\<rparr>)"
  unfolding queue_ok_def by (elim conjE, intro conjI) simp_all

lemma submit_ok:
  assumes "queue_ok w" "length data < 2 ^ 32" "submit piece data w = Some w'"
  shows "queue_ok w'" and "w_hand w' = w_hand w" "w_results w' = w_results w" "w_running w' = w_running w"
    and "w_jobs w' = w_jobs w @ (if w_running w then [(piece, data)] else [])"
proof -
  have u: "u64 (w_queued w + length data) = w_queued w + length data"
    using queued_small [OF assms(1)] assms(2) by (intro u64_id) simp
  have w': "w' = (if w_running w then w\<lparr>w_queued := w_queued w + length data, w_jobs := w_jobs w @ [(piece, data)]\<rparr> else w)"
    and room: "w_running w \<Longrightarrow> w_queued w + length data \<le> kQueueBudget \<or> w_jobs w = []"
    using assms(3) u by (auto simp: submit_def Let_def not_less split: if_splits)
  show "w_hand w' = w_hand w" "w_results w' = w_results w" "w_running w' = w_running w"
    "w_jobs w' = w_jobs w @ (if w_running w then [(piece, data)] else [])" by (simp_all add: w')
  show "queue_ok w'" using assms(1,2) room by (auto simp: w' queue_ok_def)
qed

lemma worker_take_ok:
  assumes "queue_ok w" "w_thread w" "w_hand w = None"
  shows "queue_ok (worker_take w)" and "w_results (worker_take w) = w_results w"
    and "(case w_hand (worker_take w) of None \<Rightarrow> [] | Some j \<Rightarrow> [j]) @ w_jobs (worker_take w) = w_jobs w"
proof -
  have "queue_ok (worker_take w) \<and> w_results (worker_take w) = w_results w \<and>
    (case w_hand (worker_take w) of None \<Rightarrow> [] | Some j \<Rightarrow> [j]) @ w_jobs (worker_take w) = w_jobs w"
  proof (cases "w_jobs w")
    case Nil
    then show ?thesis using assms by (auto simp: worker_take_def queue_ok_def)
  next
    case (Cons j rest)
    obtain piece data where j: "j = (piece, data)" by fastforce
    have "sub64 (w_queued w) (length data) = w_queued w - length data"
      using queued_small [OF assms(1)] assms(1) Cons j by (intro sub64_id) (auto simp: queue_ok_def)
    then show ?thesis using assms Cons j by (auto simp: worker_take_def queue_ok_def)
  qed
  then show "queue_ok (worker_take w)" "w_results (worker_take w) = w_results w"
    "(case w_hand (worker_take w) of None \<Rightarrow> [] | Some j \<Rightarrow> [j]) @ w_jobs (worker_take w) = w_jobs w" by blast+
qed

lemma process_job_ok:
  assumes ok: "store_ok st" and pr: "process_job p d st = (st', res)"
  shows "store_ok st'" and "smeta st' = smeta st" and "answers (smeta st) (p, d) res"
    and "res_hash_failed res \<Longrightarrow> st' = st"
    and "res_ok res \<Longrightarrow> buf_of (buffers st) p = None \<Longrightarrow> view_has st' p 0 d"
    and "q \<noteq> p \<Longrightarrow> view_has st q off e \<Longrightarrow> view_has st' q off e"
    and "disk_serves st \<Longrightarrow> hash_matches (smeta st) p d \<Longrightarrow> res_ok res"
    and "same_frame st st'"
proof -
  have "store_ok st' \<and> same_frame st st' \<and> answers (smeta st) (p, d) res \<and> (res_hash_failed res \<longrightarrow> st' = st) \<and>
    (res_ok res \<longrightarrow> buf_of (buffers st) p = None \<longrightarrow> view_has st' p 0 d) \<and>
    (\<forall>q off e. q \<noteq> p \<longrightarrow> view_has st q off e \<longrightarrow> view_has st' q off e) \<and>
    (disk_serves st \<longrightarrow> hash_matches (smeta st) p d \<longrightarrow> res_ok res)"
  proof (cases "hash_matches (smeta st) p d")
    case False
    then show ?thesis using pr ok by (auto simp: process_job_def answers_def same_frame_refl)
  next
    case True
    obtain s1 r where w: "write_piece p d st = (s1, r)" by fastforce
    have res: "st' = s1" "res = \<lparr>res_piece = p, res_ok = r, res_hash_failed = False\<rparr>"
      using pr True w by (simp_all add: process_job_def)
    have h: "p < piece_count (smeta st)" "length d = size_of_piece (smeta st) p" using True by (simp_all add: hash_matches_iff)
    note wp = write_piece_ok [OF ok h w]
    show ?thesis using wp True by (simp add: res answers_def view_has_def)
  qed
  note all = this
  show "store_ok st'" "smeta st' = smeta st" "answers (smeta st) (p, d) res" "same_frame st st'"
    using all by (simp_all add: same_frame_def)
  show "res_hash_failed res \<Longrightarrow> st' = st" "res_ok res \<Longrightarrow> buf_of (buffers st) p = None \<Longrightarrow> view_has st' p 0 d"
    "q \<noteq> p \<Longrightarrow> view_has st q off e \<Longrightarrow> view_has st' q off e"
    "disk_serves st \<Longrightarrow> hash_matches (smeta st) p d \<Longrightarrow> res_ok res" using all by simp_all
qed

lemma take_results_ok:
  "take_results w = (w', rs) \<Longrightarrow> rs = w_results w \<and> w_results w' = [] \<and> w_jobs w' = w_jobs w \<and> w_hand w' = w_hand w \<and>
    (queue_ok w \<longrightarrow> queue_ok w')"
  by (auto simp: take_results_def queue_ok_def)

lemma stop_join_ok:
  assumes "queue_ok w" "stop_join w = Some (w', n)" shows "w' = w \<and> n = 0"
  using assms by (auto simp: stop_join_def queue_ok_def split: if_splits)

lemma system_okI:
  "store_ok (sys_store s) \<Longrightarrow> smeta (sys_store s) = m \<Longrightarrow> queue_ok (sys_writer s) \<Longrightarrow>
   sys_submitted s = dn @ (case w_hand (sys_writer s) of None \<Rightarrow> [] | Some j \<Rightarrow> [j]) @ w_jobs (sys_writer s) \<Longrightarrow>
   list_all2 (answers m) dn (sys_taken s @ w_results (sys_writer s)) \<Longrightarrow> system_ok m s"
  unfolding system_ok_def by blast

lemma writer_work_ok:
  assumes ok: "system_ok m s" and w: "worker_step (sys_writer s, sys_store s) = (w, st)"
  shows "system_ok m (s\<lparr>sys_writer := w, sys_store := st\<rparr>)"
proof -
  let ?w = "sys_writer s" and ?st = "sys_store s"
  obtain dn where st: "store_ok ?st" "smeta ?st = m" and q: "queue_ok ?w"
    and sub: "sys_submitted s = dn @ (case w_hand ?w of None \<Rightarrow> [] | Some j \<Rightarrow> [j]) @ w_jobs ?w"
    and an: "list_all2 (answers m) dn (sys_taken s @ w_results ?w)"
    using ok by (auto simp: system_ok_def)
  show ?thesis
  proof (cases "w_thread ?w")
    case False
    then have "w = ?w" "st = ?st" using w by (simp_all add: worker_step_def)
    then show ?thesis using ok by (simp add: system_ok_def)
  next
    case alive: True
    show ?thesis
    proof (cases "w_hand ?w")
      case None
      then have "w = worker_take ?w" "st = ?st" using w alive by (simp_all add: worker_step_def)
      then show ?thesis using worker_take_ok [OF q alive None] st sub an None by (intro system_okI [of _ m dn]) simp_all
    next
      case (Some j)
      obtain p d where j: "j = (p, d)" by fastforce
      obtain s1 res where pr: "process_job p d ?st = (s1, res)" by fastforce
      have "w = ?w\<lparr>w_hand := None, w_results := w_results ?w @ [res]\<rparr>" "st = s1"
        using w alive Some j pr by (simp_all add: worker_step_def)
      moreover have "list_all2 (answers m) (dn @ [j]) (sys_taken s @ w_results ?w @ [res])"
        using list_all2_appendI [OF an, of "[j]" "[res]"] process_job_ok(3) [OF st(1) pr] st(2) j by simp
      moreover have "queue_ok (?w\<lparr>w_hand := None, w_results := w_results ?w @ [res]\<rparr>)"
        using queue_ok_hand [OF q alive] .
      ultimately show ?thesis using process_job_ok(1,2) [OF st(1) pr] st(2) sub Some
        by (intro system_okI [of _ m "dn @ [j]"]) simp_all
    qed
  qed
qed

lemma writer_event_ok: "writer_event s s' \<Longrightarrow> system_ok m s \<Longrightarrow> system_ok m s'"
proof (induction rule: writer_event.induct)
  case (start s)
  then show ?case by (fastforce simp: system_ok_def writer_start_def queue_ok_def split: if_splits)
next
  case (submit data piece s w)
  then have "queue_ok (sys_writer s)" by (simp add: system_ok_def)
  from submit_ok [OF this submit(1,2)] submit(3) show ?case by (auto simp: system_ok_def)
next
  case (work s w st)
  then show ?case using writer_work_ok by blast
next
  case (take s w rs)
  then show ?case using take_results_ok [OF take(1)] by (auto simp: system_ok_def)
next
  case (stop s)
  then show ?case by (auto simp: system_ok_def stop_signal_def queue_ok_def)
next
  case (join s w n)
  then have "w = sys_writer s" using stop_join_ok by (auto simp: system_ok_def)
  then show ?case using join(2) by (simp add: system_ok_def)
next
  case (engine s st)
  then show ?case using storage_step_ok by (auto simp: system_ok_def)
qed

lemma writer_events_ok: "writer_event\<^sup>*\<^sup>* s s' \<Longrightarrow> system_ok m s \<Longrightarrow> system_ok m s'"
  by (induction rule: rtranclp_induct) (auto dest: writer_event_ok)

lemma writer_system_ok: "store_ok st \<Longrightarrow> system_ok (smeta st) (writer_system st)"
  by (simp add: system_ok_def writer_system_def new_writer_def queue_ok_def)

subsection \<open>A sink of pieces\<close>

text \<open>
  What the thread needs of a store: whether it accepts data for a piece, writing it, and what it then
  shows.  Processing a list of jobs answers each of them, and whatever it reports as written is shown at
  the end when no piece is submitted twice.
\<close>

fun put_all :: "(nat \<Rightarrow> bytes \<Rightarrow> 's \<Rightarrow> 's \<times> 'r) \<Rightarrow> (nat \<times> bytes) list \<Rightarrow> 's \<Rightarrow> 's \<times> 'r list" where
  "put_all put [] s = (s, [])"
| "put_all put ((p, d) # js) s = (let (s, r) = put p d s; (s, rs) = put_all put js s in (s, r # rs))"

abbreviation run_jobs :: "(nat \<times> bytes) list \<Rightarrow> storage \<Rightarrow> storage \<times> wresult list" where
  "run_jobs \<equiv> put_all process_job"

locale piece_sink =
  fixes good :: "'s \<Rightarrow> bool"
    and shows_piece :: "'s \<Rightarrow> nat \<Rightarrow> bytes \<Rightarrow> bool"
    and free_piece :: "'s \<Rightarrow> nat \<Rightarrow> bool"
    and put :: "nat \<Rightarrow> bytes \<Rightarrow> 's \<Rightarrow> 's \<times> 'r"
    and success :: "'r \<Rightarrow> bool"
  assumes put_good: "good s \<Longrightarrow> put p d s = (s', r) \<Longrightarrow> good s'"
    and put_free: "good s \<Longrightarrow> put p d s = (s', r) \<Longrightarrow> free_piece s' q = free_piece s q"
    and put_shows: "good s \<Longrightarrow> put p d s = (s', r) \<Longrightarrow> success r \<Longrightarrow> free_piece s p \<Longrightarrow> shows_piece s' p d"
    and put_keeps: "good s \<Longrightarrow> put p d s = (s', r) \<Longrightarrow> q \<noteq> p \<Longrightarrow> shows_piece s q e \<Longrightarrow> shows_piece s' q e"
begin

lemma put_all_keeps:
  "good s \<Longrightarrow> put_all put js s = (s', rs) \<Longrightarrow> q \<notin> fst ` set js \<Longrightarrow> shows_piece s q e \<Longrightarrow> shows_piece s' q e"
proof (induction js arbitrary: s s' rs)
  case (Cons j js)
  obtain p d where j: "j = (p, d)" by fastforce
  obtain s1 r where p: "put p d s = (s1, r)" by fastforce
  obtain s2 rs2 where rest: "put_all put js s1 = (s2, rs2)" by fastforce
  have "shows_piece s1 q e" by (rule put_keeps [OF Cons.prems(1) p]) (use Cons.prems j in auto)
  then show ?case using Cons.IH [OF put_good [OF Cons.prems(1) p] rest] Cons.prems(2,3) p rest j by simp
qed simp

lemma put_all_shows:
  "good s \<Longrightarrow> put_all put js s = (s', rs) \<Longrightarrow> distinct (map fst js) \<Longrightarrow> \<forall>j \<in> set js. free_piece s (fst j) \<Longrightarrow>
   good s' \<and> length rs = length js \<and> (\<forall>i < length js. success (rs ! i) \<longrightarrow> shows_piece s' (fst (js ! i)) (snd (js ! i)))"
proof (induction js arbitrary: s s' rs)
  case (Cons j js)
  obtain p d where j: "j = (p, d)" by fastforce
  obtain s1 r where p: "put p d s = (s1, r)" by fastforce
  obtain s2 rs2 where rest: "put_all put js s1 = (s2, rs2)" by fastforce
  have res: "s' = s2" "rs = r # rs2" using Cons.prems(2) p rest j by simp_all
  have g1: "good s1" by (rule put_good [OF Cons.prems(1) p])
  have free1: "\<forall>j \<in> set js. free_piece s1 (fst j)" using Cons.prems(4) put_free [OF Cons.prems(1) p] by simp
  have dj: "distinct (map fst js)" "p \<notin> fst ` set js" using Cons.prems(3) j by auto
  note ih = Cons.IH [OF g1 rest dj(1) free1]
  have "shows_piece s2 p d" if "success r"
    by (rule put_all_keeps [OF g1 rest dj(2)]) (use put_shows [OF Cons.prems(1) p that] Cons.prems(4) j in simp)
  then show ?case using ih res j by (auto simp: nth_Cons split: nat.splits)
qed simp

end

interpretation store_sink: piece_sink store_ok "\<lambda>st p d. view_has st p 0 d" "\<lambda>st p. buf_of (buffers st) p = None" process_job res_ok
proof unfold_locales
  fix s p d s' r
  assume "store_ok s" "process_job p d s = (s', r)"
  note pr = process_job_ok [OF this]
  show "store_ok s'" by (rule pr(1))
  show "(buf_of (buffers s') q = None) = (buf_of (buffers s) q = None)" for q using pr(8) by (simp add: same_frame_def)
  show "res_ok r \<Longrightarrow> buf_of (buffers s) p = None \<Longrightarrow> view_has s' p 0 d" by (rule pr(5))
  show "q \<noteq> p \<Longrightarrow> view_has s q 0 e \<Longrightarrow> view_has s' q 0 e" for q e by (rule pr(6))
qed

lemma run_jobs_ok:
  assumes "store_ok st" "run_jobs js st = (st', rs)"
  shows "store_ok st' \<and> smeta st' = smeta st \<and> list_all2 (answers (smeta st)) js rs"
  using assms
proof (induction js arbitrary: st st' rs)
  case (Cons j js)
  obtain p d where j: "j = (p, d)" by fastforce
  obtain s1 r where p: "process_job p d st = (s1, r)" by fastforce
  obtain s2 rs2 where rest: "run_jobs js s1 = (s2, rs2)" by fastforce
  have res: "st' = s2" "rs = r # rs2" using Cons.prems(2) p rest j by simp_all
  note pr = process_job_ok(1-3) [OF Cons.prems(1) p]
  show ?case using Cons.IH [OF pr(1) rest] pr res j by simp
qed simp

subsection \<open>Stopping\<close>

text \<open>Once told to stop, the thread left to itself processes what it holds and what is queued, then ends.\<close>

definition pending_jobs :: "writer \<Rightarrow> (nat \<times> bytes) list" where
  "pending_jobs w = (case w_hand w of None \<Rightarrow> [] | Some j \<Rightarrow> [j]) @ w_jobs w"

lemma worker_step_hand:
  assumes "w_thread w" "w_hand w = Some (p, d)" "process_job p d st = (st', res)"
  shows "worker_step (w, st) = (w\<lparr>w_hand := None, w_results := w_results w @ [res]\<rparr>, st')"
  using assms by (simp add: worker_step_def)

lemma worker_step_take:
  "w_thread w \<Longrightarrow> w_hand w = None \<Longrightarrow> worker_step (w, st) = (worker_take w, st)"
  by (simp add: worker_step_def)

lemma funpow_two: "(f ^^ (2 * Suc n + k)) x = (f ^^ (2 * n + k)) (f (f x))"
  by (simp add: funpow_swap1)

lemma worker_drains_idle:
  assumes "w_thread w" "\<not> w_running w" "w_hand w = None"
  shows "\<exists>w' st' rs. (worker_step ^^ (2 * length (w_jobs w) + 1)) (w, st) = (w', st') \<and>
    run_jobs (w_jobs w) st = (st', rs) \<and> \<not> w_thread w' \<and> \<not> w_running w' \<and> w_jobs w' = [] \<and> w_results w' = w_results w @ rs"
  using assms
proof (induction "w_jobs w" arbitrary: w st)
  case Nil
  then show ?case by (simp add: worker_step_take worker_take_def)
next
  case (Cons j js)
  obtain p d where j: "j = (p, d)" by fastforce
  have jobs: "w_jobs w = (p, d) # js" using Cons.hyps(2) j by simp
  obtain st1 r where pr: "process_job p d st = (st1, r)" by fastforce
  define w1 where "w1 = w\<lparr>w_jobs := js, w_queued := sub64 (w_queued w) (length d), w_hand := Some (p, d)\<rparr>"
  define w2 where "w2 = w1\<lparr>w_hand := None, w_results := w_results w1 @ [r]\<rparr>"
  have "worker_step (w, st) = (w1, st)"
    using Cons.prems jobs by (simp add: worker_step_take worker_take_def w1_def)
  moreover have "worker_step (w1, st) = (w2, st1)"
    using worker_step_hand [of w1 p d st st1 r] Cons.prems(1) pr by (simp add: w1_def w2_def)
  ultimately have two: "worker_step (worker_step (w, st)) = (w2, st1)" by simp
  have w2: "js = w_jobs w2" "w_thread w2" "\<not> w_running w2" "w_hand w2 = None" "w_results w2 = w_results w @ [r]"
    using Cons.prems by (simp_all add: w1_def w2_def)
  from Cons.hyps(1) [OF w2(1-4), of st1] obtain w' st' rs where
    "(worker_step ^^ (2 * length js + 1)) (w2, st1) = (w', st')" "run_jobs js st1 = (st', rs)"
    "\<not> w_thread w'" "\<not> w_running w'" "w_jobs w' = []" "w_results w' = w_results w @ [r] @ rs"
    using w2(1,5) by auto
  moreover have "length (w_jobs w) = Suc (length js)" using jobs by simp
  ultimately show ?case using two pr jobs by (simp only: funpow_two) simp
qed

lemma worker_drains:
  assumes "w_thread w" "\<not> w_running w"
  shows "\<exists>w' st' rs. (worker_step ^^ (2 * length (pending_jobs w) + (if w_hand w = None then 1 else 0))) (w, st) = (w', st') \<and>
    run_jobs (pending_jobs w) st = (st', rs) \<and> \<not> w_thread w' \<and> \<not> w_running w' \<and> w_jobs w' = [] \<and> w_results w' = w_results w @ rs"
proof (cases "w_hand w")
  case None
  then show ?thesis using worker_drains_idle [OF assms None, of st] by (simp add: pending_jobs_def)
next
  case (Some j)
  obtain p d where j: "j = (p, d)" by fastforce
  obtain st1 r where pr: "process_job p d st = (st1, r)" by fastforce
  define w1 where "w1 = w\<lparr>w_hand := None, w_results := w_results w @ [r]\<rparr>"
  have step: "worker_step (w, st) = (w1, st1)" using worker_step_hand [OF assms(1) _ pr] Some j by (simp add: w1_def)
  have w1: "w_thread w1" "\<not> w_running w1" "w_hand w1 = None" "w_jobs w1 = w_jobs w" using assms by (simp_all add: w1_def)
  have n: "2 * length (pending_jobs w) + (if w_hand w = None then 1 else 0) = Suc (2 * length (w_jobs w1) + 1)"
    using Some w1(4) by (simp add: pending_jobs_def)
  have "pending_jobs w = (p, d) # w_jobs w" using Some j by (simp add: pending_jobs_def)
  then show ?thesis using worker_drains_idle [OF w1(1-3), of st1] w1(4) step pr
    unfolding n funpow_Suc_right comp_def by (auto simp: w1_def)
qed

subsection \<open>Properties\<close>



text \<open>Stopping loses nothing: once told to stop, the thread ends after at most two steps per
  pending job and one more, having processed every pending job in order, and the join then finds an
  empty queue and drops no piece.\<close>

theorem stop_drains:
  assumes "store_ok st" and "writer_event\<^sup>*\<^sup>* (writer_system st) s" and "w_thread (sys_writer s)"
  shows "\<exists>n w' st' rs. n \<le> 2 * length (pending_jobs (sys_writer s)) + 1 \<and>
    (worker_step ^^ n) (stop_signal (sys_writer s), sys_store s) = (w', st') \<and>
    run_jobs (pending_jobs (sys_writer s)) (sys_store s) = (st', rs) \<and>
    list_all2 (answers (smeta st)) (pending_jobs (sys_writer s)) rs \<and>
    w_results w' = w_results (sys_writer s) @ rs \<and> stop_join w' = Some (w', 0)"
proof -
  let ?w = "stop_signal (sys_writer s)"
  have ok: "store_ok (sys_store s)" "smeta (sys_store s) = smeta st"
    using writer_events_ok [OF assms(2) writer_system_ok [OF assms(1)]] by (simp_all add: system_ok_def)
  have w: "w_thread ?w" "\<not> w_running ?w" "pending_jobs ?w = pending_jobs (sys_writer s)" "w_hand ?w = w_hand (sys_writer s)"
    "w_results ?w = w_results (sys_writer s)"
    using assms(3) by (simp_all add: stop_signal_def pending_jobs_def)
  from worker_drains [OF w(1,2), of "sys_store s"] obtain w' st' rs where
    d: "(worker_step ^^ (2 * length (pending_jobs (sys_writer s)) + (if w_hand (sys_writer s) = None then 1 else 0))) (?w, sys_store s) = (w', st')"
    "run_jobs (pending_jobs (sys_writer s)) (sys_store s) = (st', rs)" "\<not> w_thread w'" "w_jobs w' = []"
    "w_results w' = w_results (sys_writer s) @ rs"
    unfolding w(3-5) by blast
  have "list_all2 (answers (smeta st)) (pending_jobs (sys_writer s)) rs" using run_jobs_ok [OF ok(1) d(2)] ok(2) by simp
  moreover have "stop_join w' = Some (w', 0)" using d(3,4) by (simp add: stop_join_def)
  moreover have "2 * length (pending_jobs (sys_writer s)) + (if w_hand (sys_writer s) = None then 1 else 0)
      \<le> 2 * length (pending_jobs (sys_writer s)) + (1 :: nat)" by simp
  ultimately show ?thesis using d by blast
qed

theorem stop_drains_witness:
  "\<exists>s n w' st'. writer_event\<^sup>*\<^sup>* (writer_system sample_store) s \<and> w_thread (sys_writer s) \<and>
    (worker_step ^^ n) (stop_signal (sys_writer s), sys_store s) = (w', st') \<and> stop_join w' = Some (w', 0)"
proof -
  let ?s = "(writer_system sample_store)\<lparr>sys_writer := writer_start new_writer\<rparr>"
  have "writer_event (writer_system sample_store) ?s"
    using writer_event.start [of "writer_system sample_store"] by (simp add: writer_system_def new_writer_def)
  then have r: "writer_event\<^sup>*\<^sup>* (writer_system sample_store) ?s" by blast
  have t: "w_thread (sys_writer ?s)" by (simp add: writer_start_def new_writer_def)
  from stop_drains [OF sample_store_ok(1) r t] r t show ?thesis by blast
qed

text \<open>What the writing thread reports as written is there: after any list of jobs for distinct
  pieces, none of which is also being assembled in memory, every piece whose answer is a success shows
  exactly the submitted bytes, and every job with a wrong hash is answered as such.\<close>

theorem written_jobs_show:
  assumes "store_ok st" and "distinct (map fst js)" and "\<forall>j \<in> set js. buf_of (buffers st) (fst j) = None"
    and "run_jobs js st = (st', rs)"
  shows "store_ok st' \<and> list_all2 (answers (smeta st)) js rs \<and>
    (\<forall>i < length js. res_ok (rs ! i) \<longrightarrow> view_has st' (fst (js ! i)) 0 (snd (js ! i)))"
  using store_sink.put_all_shows [OF assms(1,4,2,3)] run_jobs_ok [OF assms(1,4)] by blast

theorem written_jobs_show_witness:
  "\<exists>st' rs. run_jobs [(0, [1, 2, 3])] sample_store = (st', rs) \<and> store_ok st' \<and> length rs = 1"
proof -
  obtain st' rs where r: "run_jobs [(0, [1, 2, 3])] sample_store = (st', rs)" by fastforce
  have "buf_of (buffers sample_store) 0 = None" by (simp add: buf_of_def sample_with_def new_storage_def)
  then have "store_ok st'" "list_all2 (answers (smeta sample_store)) [(0, [1, 2, 3])] rs"
    using written_jobs_show [OF sample_store_ok(1) _ _ r] by simp_all
  then show ?thesis using r list_all2_lengthD by force
qed

end
