(* ===== verification/Net.thy ===== *)
theory Net
  imports Bytes
begin

text \<open>
  What the protocols share of the network (\<open>include/net/transport.hpp\<close>): endpoints, and the compact
  form in which trackers, peers and DHT nodes send them, six bytes each, address then port, both
  big-endian.  An endpoint with a zero address or a zero port is not valid and is never kept.
\<close>

record endpoint =
  ipv4 :: "32 word"
  port :: "16 word"

definition endpoint_valid :: "endpoint \<Rightarrow> bool" where
  "endpoint_valid e \<longleftrightarrow> ipv4 e \<noteq> 0 \<and> port e \<noteq> 0"

definition endpoint_at :: "bytes \<Rightarrow> endpoint" where
  "endpoint_at p = \<lparr>ipv4 = rd_be32 p, port = rd_be16 (drop 4 p)\<rparr>"

text \<open>The loop over the blocks of six bytes; an incomplete block at the end is ignored.\<close>

definition compact_endpoints :: "bytes \<Rightarrow> endpoint list" where
  "compact_endpoints raw =
     filter endpoint_valid (map (\<lambda>i. endpoint_at (drop (i * 6) raw)) [0..<length raw div 6])"

definition compact_of :: "endpoint \<Rightarrow> bytes" where
  "compact_of e = wr_be32 (ipv4 e) @ wr_be16 (port e)"

lemma endpoint_at_compact [simp]: "endpoint_at (compact_of e @ rest) = e"
  by (simp add: endpoint_at_def compact_of_def)

lemma length_compact_of [simp]: "length (compact_of e) = 6"
  by (simp add: compact_of_def)

lemma length_concat_compact: "length (concat (map compact_of es)) = 6 * length es"
  by (induction es) simp_all

lemma drop_concat_compact: "i \<le> length es \<Longrightarrow> drop (i * 6) (concat (map compact_of es)) = concat (map compact_of (drop i es))"
proof (induction i arbitrary: es)
  case (Suc i)
  then show ?case by (cases es) simp_all
qed simp

lemma compact_endpoints_of:
  assumes "length rest < 6"
  shows "compact_endpoints (concat (map compact_of es) @ rest) = filter endpoint_valid es"
proof -
  let ?raw = "concat (map compact_of es) @ rest"
  have n: "length ?raw div 6 = length es" using assms by (simp add: length_concat_compact)
  have all: "map (\<lambda>i. endpoint_at (drop (i * 6) ?raw)) [0..<length es] = es"
  proof (rule nth_equalityI)
    fix i assume "i < length (map (\<lambda>i. endpoint_at (drop (i * 6) ?raw)) [0..<length es])"
    then have i: "i < length es" by simp
    have "drop (i * 6) ?raw = concat (map compact_of (drop i es)) @ rest"
      using i by (simp add: drop_concat_compact length_concat_compact)
    also have "drop i es = es ! i # drop (Suc i) es" using Cons_nth_drop_Suc [OF i] by simp
    finally have "drop (i * 6) ?raw = compact_of (es ! i) @ (concat (map compact_of (drop (Suc i) es)) @ rest)" by simp
    then show "map (\<lambda>i. endpoint_at (drop (i * 6) ?raw)) [0..<length es] ! i = es ! i" using i by simp
  qed simp
  show ?thesis unfolding compact_endpoints_def n all ..
qed

lemma compact_endpoints_valid: "e \<in> set (compact_endpoints raw) \<Longrightarrow> endpoint_valid e"
  by (auto simp: compact_endpoints_def)

end
