(* ===== verification/Peer.thy ===== *)
theory Peer
  imports Bencode Picker Net
begin

text \<open>
  The connection to a peer (\<open>source/bt/peer.cpp\<close>, \<open>include/bt/peer.hpp\<close>): the wire protocol with its
  handshake, the framing of messages, the extension messages, what the connection remembers of the
  peer, and its time-outs.

  The socket is a script of what it answers: what each call of \<open>recv\<close> and \<open>send\<close> returns, with the
  bytes it accepted so far.  The callbacks of \<open>PeerHandler\<close> are a function \<open>h\<close> applied to the event and
  the connection, and are also logged; a callback may call every public method of the connection, and
  as none of them touches the input buffer, that buffer is kept across the call.  \<open>clk\<close> is the reading of
  the clock where the code takes it itself.

  The properties are in \<open>PeerWire\<close>.
\<close>

datatype peer_state = Connecting | Handshaking | Ready | Closed

datatype close_reason = SendFailed | UnknownProtocol | WrongInfoHash | BadBitfield | OversizeMessage
  | SocketError | ConnectRefused | InputFull | Disconnected | ReadError | ConnectTimeout
  | HandshakeTimeout | IdleTimeout | OwnerReason bytes

datatype peer_event = EvReady | EvBitfield | EvHave nat | EvChoke bool | EvBlock nat nat bytes
  | EvMetadataSize nat | EvMetadataPiece nat bytes | EvRequest nat nat nat | EvPeers "endpoint list"
  | EvClosed close_reason

datatype recv_result = Received bytes | WouldBlock | PeerClosed | RecvError

record tcp_socket =
  sk_rx :: "recv_result list"
  sk_tx :: "int list"
  sk_sent :: bytes
  sk_finish :: bool

record peer =
  p_endpoint :: endpoint
  p_info_hash :: bytes
  p_my_id :: bytes
  p_advertise_pex :: bool
  p_their_id :: bytes
  p_sock :: "tcp_socket option"
  p_state :: peer_state
  p_in :: bytes
  p_in_pos :: nat
  p_out :: bytes
  p_out_pos :: nat
  p_pieces :: bitfield
  p_pending :: bytes
  p_piece_count :: nat
  p_peer_choking :: bool
  p_choked_since :: nat
  p_am_interested :: bool
  p_am_choking :: bool
  p_peer_interested :: bool
  p_ut_metadata_id :: nat
  p_ut_pex_id :: nat
  p_metadata_size :: nat
  p_client_name :: bytes
  p_requested :: "(block_request \<times> nat) list"
  p_bytes_down :: nat
  p_bytes_up :: nat
  p_last_rate_sample :: nat
  p_bytes_at_sample :: nat
  p_rate_down :: nat
  p_connected_at :: nat
  p_last_activity :: nat
  p_last_keepalive :: nat
  p_events :: "peer_event list"

type_synonym peer_handler = "peer_event \<Rightarrow> peer \<Rightarrow> peer"

definition kProtocol :: bytes where
  "kProtocol = ascii ''BitTorrent protocol''"

definition kProtocolLen :: nat where
  "kProtocolLen = 19"

definition kHandshakeLen :: nat where
  "kHandshakeLen = 68"

definition kMaxMessageLen :: nat where
  "kMaxMessageLen = 64 * 1024"

definition kKeepAliveMs :: nat where
  "kKeepAliveMs = 100 * 1000"

definition kIdleTimeoutMs :: nat where
  "kIdleTimeoutMs = 180 * 1000"

definition kHandshakeTimeoutMs :: nat where
  "kHandshakeTimeoutMs = 20 * 1000"

definition kConnectTimeoutMs :: nat where
  "kConnectTimeoutMs = 7 * 1000"

definition kBlockTimeoutMs :: nat where
  "kBlockTimeoutMs = 45 * 1000"

definition kExtMetadata :: nat where
  "kExtMetadata = 1"

definition kExtPex :: nat where
  "kExtPex = 2"

definition new_peer :: "endpoint \<Rightarrow> bytes \<Rightarrow> bytes \<Rightarrow> bool \<Rightarrow> peer" where
  "new_peer ep hash my_id pex =
     \<lparr>p_endpoint = ep, p_info_hash = hash, p_my_id = my_id, p_advertise_pex = pex, p_their_id = replicate 20 0,
      p_sock = None, p_state = Connecting, p_in = [], p_in_pos = 0, p_out = [], p_out_pos = 0, p_pieces = bf_empty,
      p_pending = [], p_piece_count = 0, p_peer_choking = True, p_choked_since = 0, p_am_interested = False,
      p_am_choking = True, p_peer_interested = False, p_ut_metadata_id = 0, p_ut_pex_id = 0, p_metadata_size = 0,
      p_client_name = [], p_requested = [], p_bytes_down = 0, p_bytes_up = 0, p_last_rate_sample = 0,
      p_bytes_at_sample = 0, p_rate_down = 0, p_connected_at = 0, p_last_activity = 0, p_last_keepalive = 0,
      p_events = []\<rparr>"

subsection \<open>Callbacks and closing\<close>

definition notify :: "peer_handler \<Rightarrow> peer_event \<Rightarrow> peer \<Rightarrow> peer" where
  "notify h ev p = (h ev (p\<lparr>p_events := p_events p @ [ev]\<rparr>))\<lparr>p_in := p_in p, p_in_pos := p_in_pos p\<rparr>"

definition close_peer :: "peer_handler \<Rightarrow> close_reason \<Rightarrow> peer \<Rightarrow> peer" where
  "close_peer h reason p =
     (if p_state p = Closed then p else notify h (EvClosed reason) (p\<lparr>p_state := Closed, p_sock := None\<rparr>))"

text \<open>\<open>transport\<close> is None when the transport is not ready or gives no socket; the flag is what
  \<open>start_connect\<close> answers.\<close>

definition start_peer :: "(tcp_socket \<times> bool) option \<Rightarrow> nat \<Rightarrow> peer \<Rightarrow> peer \<times> bool" where
  "start_peer transport clk p =
     (case transport of
        None \<Rightarrow> (p, False)
      | Some (sock, False) \<Rightarrow> (p\<lparr>p_sock := None\<rparr>, False)
      | Some (sock, True) \<Rightarrow>
          (p\<lparr>p_sock := Some sock, p_state := Connecting, p_connected_at := clk, p_last_activity := clk,
             p_last_keepalive := clk\<rparr>, True))"

subsection \<open>Emission\<close>

definition queue_bytes :: "bytes \<Rightarrow> peer \<Rightarrow> peer" where
  "queue_bytes data p = p\<lparr>p_out := p_out p @ data\<rparr>"

definition message :: "nat \<Rightarrow> bytes \<Rightarrow> bytes" where
  "message mid payload = wr32 (u32 (length payload + 1)) @ of_nat mid # payload"

definition queue_message :: "nat \<Rightarrow> bytes \<Rightarrow> peer \<Rightarrow> peer" where
  "queue_message mid payload = queue_bytes (message mid payload)"

text \<open>The loop of \<open>send\<close> calls: a positive result is a number of bytes accepted, -1 asks to wait and any
  other result is a failure.  An exhausted script blocks.\<close>

fun send_loop :: "int list \<Rightarrow> bytes \<Rightarrow> nat \<Rightarrow> bytes \<Rightarrow> int list \<times> nat \<times> bytes \<times> bool" where
  "send_loop [] out pos sent = ([], pos, sent, True)"
| "send_loop (r # rs) out pos sent =
     (if length out \<le> pos then (r # rs, pos, sent, True)
      else if 0 < r then send_loop rs out (pos + nat r) (sent @ take (nat r) (drop pos out))
      else if r = -1 then (rs, pos, sent, True)
      else (rs, pos, sent, False))"

definition flush_out :: "peer_handler \<Rightarrow> peer \<Rightarrow> peer" where
  "flush_out h p =
     (case p_sock p of
        None \<Rightarrow> p
      | Some sk \<Rightarrow>
          if length (p_out p) \<le> p_out_pos p then p
          else
            let (rs, pos, sent, ok) = send_loop (sk_tx sk) (p_out p) (p_out_pos p) (sk_sent sk);
                p = p\<lparr>p_sock := Some (sk\<lparr>sk_tx := rs, sk_sent := sent\<rparr>), p_out_pos := pos\<rparr>
            in if \<not> ok then close_peer h SendFailed p
               else if length (p_out p) \<le> pos then p\<lparr>p_out := [], p_out_pos := 0\<rparr>
               else if 64 * 1024 < pos then p\<lparr>p_out := drop pos (p_out p), p_out_pos := 0\<rparr>
               else p)"

definition handshake_bytes :: "peer \<Rightarrow> bytes" where
  "handshake_bytes p =
     of_nat kProtocolLen # kProtocol @ [0, 0, 0, 0, 0, 0x10, 0, 0] @ p_info_hash p @ p_my_id p"

definition send_handshake :: "peer \<Rightarrow> peer" where
  "send_handshake p = queue_bytes (handshake_bytes p) p"

definition extended_payload :: "bool \<Rightarrow> bytes" where
  "extended_payload pex =
     (let m = emplace (ascii ''ut_metadata'') (from_int (int kExtMetadata)) [];
          m = (if pex then emplace (ascii ''ut_pex'') (from_int (int kExtPex)) m else m);
          root = emplace (ascii ''m'') (BDict (0, 0) m) [];
          root = emplace (ascii ''v'') (from_str (ascii ''Torfoil 0.1'')) root;
          root = emplace (ascii ''reqq'') (from_int 250) root
      in bencode (BDict (0, 0) root))"

definition send_extended_handshake :: "peer \<Rightarrow> peer" where
  "send_extended_handshake p = queue_message 20 (0 # extended_payload (p_advertise_pex p)) p"

definition send_interested :: "peer_handler \<Rightarrow> bool \<Rightarrow> peer \<Rightarrow> peer" where
  "send_interested h yes p =
     (if p_am_interested p = yes then p
      else flush_out h (queue_message (if yes then 2 else 3) [] (p\<lparr>p_am_interested := yes\<rparr>)))"

definition request_payload :: "block_request \<Rightarrow> bytes" where
  "request_payload req = wr32 (rpiece req) @ wr32 (roffset req) @ wr32 (rlength req)"

definition send_request :: "peer_handler \<Rightarrow> nat \<Rightarrow> block_request \<Rightarrow> peer \<Rightarrow> peer" where
  "send_request h clk req p =
     flush_out h ((queue_message 6 (request_payload req) p)\<lparr>p_requested := p_requested p @ [(req, clk)]\<rparr>)"

definition outstanding :: "peer \<Rightarrow> block_request list" where
  "outstanding p = map fst (p_requested p)"

text \<open>Forgetting the requests for a block, as \<open>remove_if\<close> with the piece and the offset.\<close>

definition forget :: "nat \<Rightarrow> nat \<Rightarrow> (block_request \<times> nat) list \<Rightarrow> (block_request \<times> nat) list" where
  "forget piece off rs = filter (\<lambda>(r, t). \<not> (rpiece r = piece \<and> roffset r = off)) rs"

definition send_cancel :: "peer_handler \<Rightarrow> block_request \<Rightarrow> peer \<Rightarrow> peer" where
  "send_cancel h req p =
     flush_out h ((queue_message 8 (request_payload req) p)\<lparr>p_requested := forget (rpiece req) (roffset req) (p_requested p)\<rparr>)"

definition send_have :: "peer_handler \<Rightarrow> nat \<Rightarrow> peer \<Rightarrow> peer" where
  "send_have h piece p = flush_out h (queue_message 4 (wr32 piece) p)"

definition send_bitfield :: "peer_handler \<Rightarrow> bitfield \<Rightarrow> peer \<Rightarrow> peer" where
  "send_bitfield h bf p = (if bits bf = 0 then p else flush_out h (queue_message 5 (bdata bf) p))"

definition send_choke :: "peer_handler \<Rightarrow> bool \<Rightarrow> peer \<Rightarrow> peer" where
  "send_choke h choked p =
     (if p_am_choking p = choked then p
      else flush_out h (queue_message (if choked then 0 else 1) [] (p\<lparr>p_am_choking := choked\<rparr>)))"

definition send_block :: "peer_handler \<Rightarrow> nat \<Rightarrow> nat \<Rightarrow> bytes \<Rightarrow> peer \<Rightarrow> peer" where
  "send_block h piece off data p =
     flush_out h ((queue_message 7 (wr32 piece @ wr32 off @ data) p)\<lparr>p_bytes_up := u64 (p_bytes_up p + length data)\<rparr>)"

definition metadata_request :: "nat \<Rightarrow> bytes" where
  "metadata_request index =
     bencode (BDict (0, 0) (emplace (ascii ''piece'') (from_int (int index))
       (emplace (ascii ''msg_type'') (from_int 0) [])))"

definition request_metadata_piece :: "peer_handler \<Rightarrow> nat \<Rightarrow> peer \<Rightarrow> peer" where
  "request_metadata_piece h index p =
     (if p_ut_metadata_id p = 0 then p
      else flush_out h (queue_message 20 (of_nat (p_ut_metadata_id p) # metadata_request index) p))"

subsection \<open>Reception\<close>

definition compact_in :: "peer \<Rightarrow> peer" where
  "compact_in p =
     (if p_in_pos p = 0 then p
      else if length (p_in p) \<le> p_in_pos p then p\<lparr>p_in := [], p_in_pos := 0\<rparr>
      else if 32 * 1024 < p_in_pos p then p\<lparr>p_in := drop (p_in_pos p) (p_in p), p_in_pos := 0\<rparr>
      else p)"

definition consume_handshake :: "peer_handler \<Rightarrow> nat \<Rightarrow> peer \<Rightarrow> peer \<times> bool" where
  "consume_handshake h clk p =
     (if length (p_in p) - p_in_pos p < kHandshakeLen then (p, False)
      else
        let hs = drop (p_in_pos p) (p_in p)
        in if hs ! 0 \<noteq> of_nat kProtocolLen \<or> take kProtocolLen (drop 1 hs) \<noteq> kProtocol
           then (close_peer h UnknownProtocol p, False)
           else if take 20 (drop 28 hs) \<noteq> p_info_hash p then (close_peer h WrongInfoHash p, False)
           else
             let extended = (hs ! 25 AND 0x10 \<noteq> 0);
                 p = p\<lparr>p_their_id := take 20 (drop 48 hs), p_in_pos := p_in_pos p + kHandshakeLen, p_state := Ready,
                       p_choked_since := clk\<rparr>;
                 p = (if extended then send_extended_handshake p else p);
                 p = flush_out h p
             in (notify h EvReady p, True))"

definition learn_ids :: "bvalue \<Rightarrow> peer \<Rightarrow> peer" where
  "learn_ids m p =
     (let p = (case find_int m (ascii ''ut_metadata'') of None \<Rightarrow> p | Some i \<Rightarrow> p\<lparr>p_ut_metadata_id := cast_u8 i\<rparr>)
      in case find_int m (ascii ''ut_pex'') of None \<Rightarrow> p | Some i \<Rightarrow> p\<lparr>p_ut_pex_id := cast_u8 i\<rparr>)"

definition learn_size :: "peer_handler \<Rightarrow> bvalue \<Rightarrow> peer \<Rightarrow> peer" where
  "learn_size h root p =
     (case find_int root (ascii ''metadata_size'') of
        None \<Rightarrow> p
      | Some i \<Rightarrow>
          if 0 < i \<and> i < 16 * 1024 * 1024
          then notify h (EvMetadataSize (cast_u32 i)) (p\<lparr>p_metadata_size := cast_u32 i\<rparr>) else p)"

definition learn_name :: "bvalue \<Rightarrow> peer \<Rightarrow> peer" where
  "learn_name root p = (case find_str root (ascii ''v'') of None \<Rightarrow> p | Some v \<Rightarrow> p\<lparr>p_client_name := v\<rparr>)"

definition handle_ext_handshake :: "peer_handler \<Rightarrow> bvalue \<Rightarrow> peer \<Rightarrow> peer" where
  "handle_ext_handshake h root p =
     learn_name root (learn_size h root (case find_dict root (ascii ''m'') of None \<Rightarrow> p | Some m \<Rightarrow> learn_ids m p))"

definition handle_pex :: "peer_handler \<Rightarrow> bvalue \<Rightarrow> peer \<Rightarrow> peer" where
  "handle_pex h dict p =
     (case find_str dict (ascii ''added'') of
        None \<Rightarrow> p
      | Some added \<Rightarrow>
          let found = compact_endpoints added
          in if found = [] then p else notify h (EvPeers found) p)"

definition learn_total :: "peer_handler \<Rightarrow> bvalue \<Rightarrow> peer \<Rightarrow> peer" where
  "learn_total h dict p =
     (case find_int dict (ascii ''total_size'') of
        None \<Rightarrow> p
      | Some n \<Rightarrow>
          if 0 < n \<and> p_metadata_size p = 0
          then notify h (EvMetadataSize (cast_u32 n)) (p\<lparr>p_metadata_size := cast_u32 n\<rparr>) else p)"

definition handle_ut_metadata :: "peer_handler \<Rightarrow> bvalue \<Rightarrow> bytes \<Rightarrow> peer \<Rightarrow> peer" where
  "handle_ut_metadata h dict payload p =
     (let msg_type = int_or dict (ascii ''msg_type'') (-1);
          piece = int_or dict (ascii ''piece'') (-1);
          header_len = snd (raw dict) - fst (raw dict)
      in if piece < 0 \<or> msg_type \<noteq> 1 \<or> length payload \<le> header_len then p
         else notify h (EvMetadataPiece (cast_u32 piece) (drop header_len payload)) (learn_total h dict p))"

definition handle_extended :: "peer_handler \<Rightarrow> bytes \<Rightarrow> peer \<Rightarrow> peer" where
  "handle_extended h data p =
     (case data of
        [] \<Rightarrow> p
      | eid # payload \<Rightarrow>
          let ext_id = unat eid
          in if ext_id \<noteq> 0 \<and> ext_id \<noteq> kExtPex \<and> ext_id \<noteq> kExtMetadata then p
             else case bdecode payload of
               Inl e \<Rightarrow> p
             | Inr dict \<Rightarrow>
                 if \<not> is_dict dict then p
                 else if ext_id = 0 then handle_ext_handshake h dict p
                 else if ext_id = kExtPex then handle_pex h dict p
                 else handle_ut_metadata h dict payload p)"

text \<open>\<open>have\<close> before the number of pieces is known: a bit of the raw bitfield, which grows as needed.\<close>

definition pending_have :: "nat \<Rightarrow> bytes \<Rightarrow> bytes" where
  "pending_have piece pend =
     (let byte = piece div 8
      in if byte < 1024 * 1024 then
           (let bs = (if length pend \<le> byte then pend @ replicate (byte + 1 - length pend) 0 else pend)
            in bs[byte := bs ! byte OR bit_mask piece])
         else pend)"

definition handle_choke :: "peer_handler \<Rightarrow> nat \<Rightarrow> peer \<Rightarrow> peer" where
  "handle_choke h now p =
     (notify h (EvChoke True) (p\<lparr>p_choked_since := (if p_peer_choking p then p_choked_since p else now), p_peer_choking := True\<rparr>))
       \<lparr>p_requested := []\<rparr>"

definition handle_have :: "peer_handler \<Rightarrow> bytes \<Rightarrow> peer \<Rightarrow> peer" where
  "handle_have h payload p =
     (if length payload < 4 then p
      else
        let piece = rd32 payload
        in notify h (EvHave piece)
             (if p_piece_count p = 0 then p\<lparr>p_pending := pending_have piece (p_pending p)\<rparr>
              else p\<lparr>p_pieces := bf_set (p_pieces p) piece True\<rparr>))"

definition handle_bitfield :: "peer_handler \<Rightarrow> bytes \<Rightarrow> peer \<Rightarrow> peer" where
  "handle_bitfield h payload p =
     (if p_piece_count p = 0 then notify h EvBitfield (p\<lparr>p_pending := payload\<rparr>)
      else case bf_from_bytes payload (p_piece_count p) of
             None \<Rightarrow> close_peer h BadBitfield p
           | Some bf \<Rightarrow> notify h EvBitfield (p\<lparr>p_pieces := bf\<rparr>))"

definition handle_request :: "peer_handler \<Rightarrow> bytes \<Rightarrow> peer \<Rightarrow> peer" where
  "handle_request h payload p =
     (if length payload < 12 then p
      else notify h (EvRequest (rd32 payload) (rd32 (drop 4 payload)) (rd32 (drop 8 payload))) p)"

definition handle_piece :: "peer_handler \<Rightarrow> bytes \<Rightarrow> peer \<Rightarrow> peer" where
  "handle_piece h payload p =
     (if length payload < 8 then p
      else
        let piece = rd32 payload; off = rd32 (drop 4 payload)
        in notify h (EvBlock piece off (drop 8 payload))
             (p\<lparr>p_requested := forget piece off (p_requested p), p_bytes_down := u64 (p_bytes_down p + (length payload - 8))\<rparr>))"

text \<open>Messages 8 (cancel), 9 (port) and unknown ones are ignored, as is the empty message.\<close>

definition handle_message :: "peer_handler \<Rightarrow> bytes \<Rightarrow> nat \<Rightarrow> peer \<Rightarrow> peer" where
  "handle_message h data now p =
     (case data of
        [] \<Rightarrow> p
      | mid # payload \<Rightarrow>
          (if mid = 0 then handle_choke h now p
           else if mid = 1 then notify h (EvChoke False) (p\<lparr>p_peer_choking := False, p_choked_since := 0\<rparr>)
           else if mid = 2 then p\<lparr>p_peer_interested := True\<rparr>
           else if mid = 3 then p\<lparr>p_peer_interested := False\<rparr>
           else if mid = 4 then handle_have h payload p
           else if mid = 5 then handle_bitfield h payload p
           else if mid = 6 then handle_request h payload p
           else if mid = 7 then handle_piece h payload p
           else if mid = 20 then handle_extended h payload p
           else p))"

lemma notify_in [simp]: "p_in (notify h ev p) = p_in p" "p_in_pos (notify h ev p) = p_in_pos p"
  by (simp_all add: notify_def)

lemma close_peer_in [simp]: "p_in (close_peer h r p) = p_in p" "p_in_pos (close_peer h r p) = p_in_pos p"
  by (simp_all add: close_peer_def)

definition input :: "peer \<Rightarrow> bytes \<times> nat" where
  "input p = (p_in p, p_in_pos p)"

lemma input_notify [simp]: "input (notify h ev p) = input p"
  by (simp add: input_def)

lemma input_close [simp]: "input (close_peer h r p) = input p"
  by (simp add: input_def)

lemma input_learn [simp]: "input (learn_ids m p) = input p" "input (learn_size h root p) = input p"
  "input (learn_name root p) = input p" "input (learn_total h root p) = input p"
  by (simp_all add: learn_ids_def learn_size_def learn_name_def learn_total_def split: option.split)
     (simp_all add: input_def)

lemma input_extended [simp]: "input (handle_extended h data p) = input p"
  by (simp add: handle_extended_def handle_ext_handshake_def handle_pex_def handle_ut_metadata_def Let_def
      split: list.split sum.split option.split)

lemma input_messages [simp]: "input (handle_choke h now p) = input p" "input (handle_have h payload p) = input p"
  "input (handle_bitfield h payload p) = input p" "input (handle_request h payload p) = input p"
  "input (handle_piece h payload p) = input p"
proof -
  have u: "input (q\<lparr>p_requested := rs\<rparr>) = input q" "input (q\<lparr>p_choked_since := n, p_peer_choking := c\<rparr>) = input q"
    "input (q\<lparr>p_pending := bs\<rparr>) = input q" "input (q\<lparr>p_pieces := bf\<rparr>) = input q"
    "input (q\<lparr>p_requested := rs, p_bytes_down := n\<rparr>) = input q" for q rs n c bs bf
    by (simp_all add: input_def)
  show "input (handle_choke h now p) = input p" "input (handle_have h payload p) = input p"
    "input (handle_bitfield h payload p) = input p" "input (handle_request h payload p) = input p"
    "input (handle_piece h payload p) = input p"
    by (simp_all add: handle_choke_def handle_have_def handle_bitfield_def handle_request_def handle_piece_def u Let_def
        split: option.split)
qed

lemma input_handle_message [simp]: "input (handle_message h data now p) = input p"
  by (cases data) (simp_all add: handle_message_def, simp_all add: input_def)

lemma handle_message_in [simp]:
  "p_in (handle_message h data now p) = p_in p" "p_in_pos (handle_message h data now p) = p_in_pos p"
  using input_handle_message [of h data now p] by (simp_all add: input_def)

lemma compact_in_rest:
  "p_in_pos p \<le> length (p_in p) \<Longrightarrow> length (p_in (compact_in p)) - p_in_pos (compact_in p) = length (p_in p) - p_in_pos p"
  by (simp add: compact_in_def)

function consume_messages :: "peer_handler \<Rightarrow> nat \<Rightarrow> peer \<Rightarrow> peer \<times> bool" where
  "consume_messages h now p =
     (let available = length (p_in p) - p_in_pos p
      in if available < 4 then (p, True)
         else
           let msg_len = rd32 (drop (p_in_pos p) (p_in p))
           in if kMaxMessageLen < msg_len then (close_peer h OversizeMessage p, False)
              else if available < 4 + msg_len then (p, True)
              else
                let q = handle_message h (take msg_len (drop (p_in_pos p + 4) (p_in p))) now p
                in if p_state q = Closed then (q, False)
                   else consume_messages h now (compact_in (q\<lparr>p_in_pos := p_in_pos q + 4 + msg_len\<rparr>)))"
  by pat_completeness auto
termination
  by (relation "measure (\<lambda>(h, now, p). length (p_in p) - p_in_pos p)") (auto simp: compact_in_rest)

declare consume_messages.simps [simp del]

subsection \<open>The loop\<close>

definition fill_poll :: "peer \<Rightarrow> (bool \<times> bool) option" where
  "fill_poll p = (if p_sock p = None then None
     else Some (p_state p \<noteq> Connecting, p_state p = Connecting \<or> p_out_pos p < length (p_out p)))"

fun recv_loop :: "peer_handler \<Rightarrow> nat \<Rightarrow> nat \<Rightarrow> peer \<Rightarrow> peer \<times> bool" where
  "recv_loop h 0 now p = (p, True)"
| "recv_loop h (Suc n) now p =
     (case p_sock p of
        None \<Rightarrow> (p, True)
      | Some sk \<Rightarrow>
          (case sk_rx sk of
             [] \<Rightarrow> (p, True)
           | r # rs \<Rightarrow>
               let p = p\<lparr>p_sock := Some (sk\<lparr>sk_rx := rs\<rparr>)\<rparr>
               in case r of
                    Received bs \<Rightarrow>
                      if bs = [] then (close_peer h ReadError p, False)
                      else
                        let p = p\<lparr>p_in := p_in p @ bs, p_last_activity := now\<rparr>
                        in if 4 * 1024 * 1024 < length (p_in p) then (close_peer h InputFull p, False)
                           else recv_loop h n now p
                  | WouldBlock \<Rightarrow> (p, True)
                  | PeerClosed \<Rightarrow> (close_peer h Disconnected p, False)
                  | RecvError \<Rightarrow> (close_peer h ReadError p, False)))"

text \<open>What a poll reported: an error, that reading is possible, that writing is.\<close>

definition on_poll :: "peer_handler \<Rightarrow> bool \<Rightarrow> bool \<Rightarrow> bool \<Rightarrow> nat \<Rightarrow> nat \<Rightarrow> peer \<Rightarrow> peer" where
  "on_poll h has_error can_read can_write now clk p =
     (case p_sock p of
        None \<Rightarrow> p
      | Some sk \<Rightarrow>
          if p_state p = Closed then p
          else if has_error then close_peer h SocketError p
          else if p_state p = Connecting then
            (if \<not> can_write then p
             else if \<not> sk_finish sk then close_peer h ConnectRefused p
             else (flush_out h (send_handshake (p\<lparr>p_state := Handshaking\<rparr>)))\<lparr>p_last_activity := now\<rparr>)
          else
            let p = (if can_write then flush_out h p else p)
            in if p_state p = Closed \<or> \<not> can_read then p
               else
                 let (p, ok) = recv_loop h 8 now p
                 in if \<not> ok then p
                    else
                      let (p, go) = (if p_state p = Handshaking then consume_handshake h clk p else (p, True))
                      in if go \<and> p_state p = Ready then fst (consume_messages h now p) else p)"

definition sample_rate :: "nat \<Rightarrow> peer \<Rightarrow> peer" where
  "sample_rate now p =
     (if p_last_rate_sample p = 0 then p\<lparr>p_last_rate_sample := now, p_bytes_at_sample := p_bytes_down p\<rparr>
      else if 1000 \<le> sub64 now (p_last_rate_sample p) then
        (let delta = sub64 (p_bytes_down p) (p_bytes_at_sample p);
             span = sub64 now (p_last_rate_sample p)
         in p\<lparr>p_rate_down := u32 (u64 (delta * 1000) div span), p_last_rate_sample := now, p_bytes_at_sample := p_bytes_down p\<rparr>)
      else p)"

definition tick :: "peer_handler \<Rightarrow> nat \<Rightarrow> peer \<Rightarrow> peer" where
  "tick h now p =
     (if p_state p = Closed then p
      else if p_state p = Connecting \<and> kConnectTimeoutMs < sub64 now (p_connected_at p) then close_peer h ConnectTimeout p
      else if p_state p \<noteq> Ready \<and> kHandshakeTimeoutMs < sub64 now (p_connected_at p) then close_peer h HandshakeTimeout p
      else if p_state p = Ready \<and> kIdleTimeoutMs < sub64 now (p_last_activity p) then close_peer h IdleTimeout p
      else
        let p = p\<lparr>p_requested := filter (\<lambda>(r, t). \<not> kBlockTimeoutMs < sub64 now t) (p_requested p)\<rparr>;
            p = (if p_state p = Ready \<and> kKeepAliveMs < sub64 now (p_last_keepalive p)
                 then (flush_out h (queue_bytes [0, 0, 0, 0] p))\<lparr>p_last_keepalive := now\<rparr> else p)
        in sample_rate now p)"

definition set_piece_count :: "peer_handler \<Rightarrow> nat \<Rightarrow> peer \<Rightarrow> peer" where
  "set_piece_count h count p =
     (if count = 0 \<or> p_piece_count p = count then p
      else
        let p = p\<lparr>p_piece_count := count, p_pieces := bf_resize count\<rparr>
        in if p_pending p = [] then p
           else
             let n = u32 (count + 7) div 8;
                 pend = take n (p_pending p) @ replicate (n - length (p_pending p)) 0;
                 p = p\<lparr>p_pieces := (case bf_from_bytes pend count of None \<Rightarrow> bf_resize count | Some bf \<Rightarrow> bf), p_pending := []\<rparr>
             in notify h EvBitfield p)"

definition has_piece :: "peer \<Rightarrow> nat \<Rightarrow> bool" where
  "has_piece p index = bf_get (p_pieces p) index"

end
