(* ===== verification/PeerWire.thy ===== *)
theory PeerWire
  imports Peer
begin

text \<open>
  The connection to a peer, continued: the properties of the wire protocol modelled in \<open>Peer\<close>.

  Results: whatever way the bytes arrive, the messages handled are those that were sent, in order; what
  is queued for emission reaches the socket in order; a handshake is accepted exactly when both sides
  want the same torrent; pieces announced before the metadata are those announced after.
\<close>

subsection \<open>Framing\<close>

text \<open>A handler that does not look at the input buffer, which is private to the connection.\<close>

definition strip :: "peer \<Rightarrow> peer" where
  "strip p = p\<lparr>p_in := [], p_in_pos := 0\<rparr>"

definition blind :: "peer_handler \<Rightarrow> bool" where
  "blind h \<longleftrightarrow> (\<forall>ev p i n. strip (h ev (p\<lparr>p_in := i, p_in_pos := n\<rparr>)) = strip (h ev p))"

definition inbuf :: "peer \<Rightarrow> bytes" where
  "inbuf p = drop (p_in_pos p) (p_in p)"

lemma strip_sel [simp]:
  "p_state (strip p) = p_state p" "p_piece_count (strip p) = p_piece_count p" "p_pending (strip p) = p_pending p"
  "p_pieces (strip p) = p_pieces p" "p_requested (strip p) = p_requested p" "p_bytes_down (strip p) = p_bytes_down p"
  "p_peer_choking (strip p) = p_peer_choking p" "p_choked_since (strip p) = p_choked_since p"
  "p_metadata_size (strip p) = p_metadata_size p" "p_events (strip p) = p_events p"
  "p_in (strip p) = []" "p_in_pos (strip p) = 0"
  by (simp_all add: strip_def)

lemma strip_input: "strip (p\<lparr>p_in := i\<rparr>) = strip p" "strip (p\<lparr>p_in_pos := n\<rparr>) = strip p" "strip (compact_in p) = strip p"
  by (simp_all add: strip_def compact_in_def)

lemma notify_strip: "blind h \<Longrightarrow> strip (notify h ev p) = notify h ev (strip p)"
proof -
  assume b: "blind h"
  let ?p = "p\<lparr>p_events := p_events p @ [ev]\<rparr>"
  have eq: "(strip p)\<lparr>p_events := p_events (strip p) @ [ev]\<rparr> = ?p\<lparr>p_in := [], p_in_pos := 0\<rparr>" by (simp add: strip_def)
  have "notify h ev (strip p) = strip (h ev (?p\<lparr>p_in := [], p_in_pos := 0\<rparr>))"
    unfolding notify_def eq by (simp add: strip_def [symmetric])
  also have "\<dots> = strip (h ev ?p)" using b unfolding blind_def by blast
  also have "\<dots> = strip (notify h ev p)" unfolding notify_def by (simp add: strip_def)
  finally show ?thesis by simp
qed

lemma strip_update:
  "strip (p\<lparr>p_requested := rs\<rparr>) = (strip p)\<lparr>p_requested := rs\<rparr>"
  "strip (p\<lparr>p_choked_since := n, p_peer_choking := c\<rparr>) = (strip p)\<lparr>p_choked_since := n, p_peer_choking := c\<rparr>"
  "strip (p\<lparr>p_peer_choking := c, p_choked_since := n\<rparr>) = (strip p)\<lparr>p_peer_choking := c, p_choked_since := n\<rparr>"
  "strip (p\<lparr>p_peer_interested := c\<rparr>) = (strip p)\<lparr>p_peer_interested := c\<rparr>"
  "strip (p\<lparr>p_pending := bs\<rparr>) = (strip p)\<lparr>p_pending := bs\<rparr>"
  "strip (p\<lparr>p_pieces := bf\<rparr>) = (strip p)\<lparr>p_pieces := bf\<rparr>"
  "strip (p\<lparr>p_requested := rs, p_bytes_down := n\<rparr>) = (strip p)\<lparr>p_requested := rs, p_bytes_down := n\<rparr>"
  "strip (p\<lparr>p_ut_metadata_id := n\<rparr>) = (strip p)\<lparr>p_ut_metadata_id := n\<rparr>"
  "strip (p\<lparr>p_ut_pex_id := n\<rparr>) = (strip p)\<lparr>p_ut_pex_id := n\<rparr>"
  "strip (p\<lparr>p_metadata_size := n\<rparr>) = (strip p)\<lparr>p_metadata_size := n\<rparr>"
  "strip (p\<lparr>p_client_name := bs\<rparr>) = (strip p)\<lparr>p_client_name := bs\<rparr>"
  "strip (p\<lparr>p_state := s, p_sock := k\<rparr>) = (strip p)\<lparr>p_state := s, p_sock := k\<rparr>"
  by (simp_all add: strip_def)

lemma close_strip: "blind h \<Longrightarrow> strip (close_peer h r p) = close_peer h r (strip p)"
  by (cases "p_state p = Closed") (simp_all add: close_peer_def notify_strip strip_update)

lemma learn_strip:
  "strip (learn_ids m p) = learn_ids m (strip p)" "strip (learn_name root p) = learn_name root (strip p)"
  "blind h \<Longrightarrow> strip (learn_size h root p) = learn_size h root (strip p)"
  "blind h \<Longrightarrow> strip (learn_total h root p) = learn_total h root (strip p)"
  by (simp_all add: learn_ids_def learn_size_def learn_name_def learn_total_def notify_strip strip_update split: option.split)

lemma extended_strip: "blind h \<Longrightarrow> strip (handle_extended h data p) = handle_extended h data (strip p)"
  by (simp add: handle_extended_def handle_ext_handshake_def handle_pex_def handle_ut_metadata_def Let_def
      notify_strip learn_strip split: list.split sum.split option.split)

lemma handlers_strip:
  assumes "blind h"
  shows "strip (handle_choke h now p) = handle_choke h now (strip p)"
    "strip (handle_have h payload p) = handle_have h payload (strip p)"
    "strip (handle_bitfield h payload p) = handle_bitfield h payload (strip p)"
    "strip (handle_request h payload p) = handle_request h payload (strip p)"
    "strip (handle_piece h payload p) = handle_piece h payload (strip p)"
  using assms
  by (simp_all add: handle_choke_def handle_have_def handle_bitfield_def handle_request_def handle_piece_def Let_def
      notify_strip close_strip strip_update split: option.split)

lemma handle_strip:
  assumes "blind h"
  shows "strip (handle_message h data now p) = handle_message h data now (strip p)"
proof (cases data)
  case (Cons mid payload)
  have "strip (p\<lparr>p_peer_choking := False, p_choked_since := 0\<rparr>) = (strip p)\<lparr>p_peer_choking := False, p_choked_since := 0\<rparr>"
    "strip (p\<lparr>p_peer_interested := c\<rparr>) = (strip p)\<lparr>p_peer_interested := c\<rparr>" for c
    by (simp_all add: strip_def)
  then show ?thesis
    unfolding handle_message_def Cons list.case if_distrib [of strip]
    by (simp only: handlers_strip [OF assms] extended_strip [OF assms] notify_strip [OF assms])
qed (simp add: handle_message_def)

text \<open>The bytes of a sequence of messages, and handling them one after the other.\<close>

definition wire :: "bytes list \<Rightarrow> bytes" where
  "wire ms = concat (map (\<lambda>m. wr32 (length m) @ m) ms)"

fun handle_all :: "peer_handler \<Rightarrow> nat \<Rightarrow> bytes list \<Rightarrow> peer \<Rightarrow> peer" where
  "handle_all h now [] p = p"
| "handle_all h now (m # ms) p =
     (let p = handle_message h m now p in if p_state p = Closed then p else handle_all h now ms p)"

text \<open>The beginning of a message that has not arrived in full.\<close>

definition incomplete :: "bytes \<Rightarrow> bool" where
  "incomplete r \<longleftrightarrow> length r < 4 \<or> rd32 r \<le> kMaxMessageLen \<and> length r < 4 + rd32 r"

lemma wire_simps [simp]: "wire [] = []" "wire (m # ms) = wr32 (length m) @ m @ wire ms" "wire (xs @ ys) = wire xs @ wire ys"
  by (simp_all add: wire_def)

lemma inbuf_length: "p_in_pos p \<le> length (p_in p) \<Longrightarrow> length (inbuf p) = length (p_in p) - p_in_pos p"
  by (simp add: inbuf_def)

lemma compact_in_inbuf: "inbuf (compact_in p) = inbuf p"
  "p_in_pos p \<le> length (p_in p) \<Longrightarrow> p_in_pos (compact_in p) \<le> length (p_in (compact_in p))"
  by (simp_all add: inbuf_def compact_in_def)

lemma consume_incomplete:
  assumes "p_in_pos p \<le> length (p_in p)" "incomplete (inbuf p)"
  shows "consume_messages h now p = (p, True)"
  using assms(2) inbuf_length [OF assms(1)]
  by (subst consume_messages.simps) (auto simp: incomplete_def inbuf_def Let_def not_less)

lemma consume_frame:
  assumes pos: "p_in_pos p \<le> length (p_in p)" and m: "inbuf p = wr32 (length m) @ m @ rest" "length m \<le> kMaxMessageLen"
    and b: "blind h"
  shows "\<exists>q. consume_messages h now p = (if p_state (handle_message h m now (strip p)) = Closed then (q, False) else consume_messages h now q) \<and>
    strip q = handle_message h m now (strip p) \<and>
    (p_state q \<noteq> Closed \<longrightarrow> p_in_pos q \<le> length (p_in q) \<and> inbuf q = rest)"
proof -
  have len: "rd32 (inbuf p) = length m" using m by (simp add: kMaxMessageLen_def)
  have tk: "take (length m) (drop (p_in_pos p + 4) (p_in p)) = m"
  proof -
    have "drop (p_in_pos p + 4) (p_in p) = drop 4 (inbuf p)" by (simp add: inbuf_def add.commute)
    then show ?thesis by (simp add: m(1))
  qed
  define q1 where "q1 = handle_message h m now p"
  have avail: "length (p_in p) - p_in_pos p = 4 + length m + length rest" using inbuf_length [OF pos] m(1) by simp
  have c: "consume_messages h now p = (if p_state q1 = Closed then (q1, False)
      else consume_messages h now (compact_in (q1\<lparr>p_in_pos := p_in_pos q1 + 4 + length m\<rparr>)))"
    using m(2) len tk avail by (subst consume_messages.simps) (simp add: Let_def inbuf_def q1_def)
  have s: "strip q1 = handle_message h m now (strip p)" using handle_strip [OF b] by (simp add: q1_def)
  then have st: "p_state (handle_message h m now (strip p)) = p_state q1" by (metis strip_sel(1))
  show ?thesis
  proof (cases "p_state q1 = Closed")
    case True
    then show ?thesis using c s st by auto
  next
    case False
    let ?q = "q1\<lparr>p_in_pos := p_in_pos q1 + 4 + length m\<rparr>"
    have "p_in_pos ?q \<le> length (p_in ?q)" using avail pos by (simp add: q1_def)
    moreover have "inbuf ?q = rest"
    proof -
      have "inbuf ?q = drop (4 + length m) (inbuf p)" by (simp add: inbuf_def q1_def add.commute add.left_commute)
      then show ?thesis by (simp add: m(1))
    qed
    ultimately have "inbuf (compact_in ?q) = rest" "p_in_pos (compact_in ?q) \<le> length (p_in (compact_in ?q))"
      using compact_in_inbuf by simp_all
    moreover have "strip (compact_in ?q) = handle_message h m now (strip p)" using s by (simp add: strip_input)
    ultimately show ?thesis using c st False by (intro exI [of _ "compact_in ?q"]) simp
  qed
qed

lemma consume_wire:
  assumes "p_in_pos p \<le> length (p_in p)" "inbuf p = wire ms @ rest" "\<forall>m \<in> set ms. length m \<le> kMaxMessageLen"
    and "incomplete rest" "blind h" "p_state p \<noteq> Closed"
  shows "\<exists>q. consume_messages h now p = (q, p_state q \<noteq> Closed) \<and> strip q = handle_all h now ms (strip p) \<and>
    (p_state q \<noteq> Closed \<longrightarrow> p_in_pos q \<le> length (p_in q) \<and> inbuf q = rest)"
  using assms
proof (induction ms arbitrary: p)
  case Nil
  then show ?case using consume_incomplete by simp
next
  case (Cons m ms)
  have "inbuf p = wr32 (length m) @ m @ (wire ms @ rest)" "length m \<le> kMaxMessageLen" using Cons.prems by simp_all
  from consume_frame [OF Cons.prems(1) this Cons.prems(5), of now] obtain q where
    q: "consume_messages h now p = (if p_state (handle_message h m now (strip p)) = Closed then (q, False) else consume_messages h now q)"
    "strip q = handle_message h m now (strip p)"
    "p_state q \<noteq> Closed \<Longrightarrow> p_in_pos q \<le> length (p_in q) \<and> inbuf q = wire ms @ rest" by blast
  have st: "p_state (handle_message h m now (strip p)) = p_state q" using q(2) by (metis strip_sel(1))
  show ?case
  proof (cases "p_state q = Closed")
    case True
    then show ?thesis using q st by (intro exI [of _ q]) (simp add: Let_def)
  next
    case False
    then obtain r where "consume_messages h now q = (r, p_state r \<noteq> Closed)" "strip r = handle_all h now ms (strip q)"
      "p_state r \<noteq> Closed \<longrightarrow> p_in_pos r \<le> length (p_in r) \<and> inbuf r = rest"
      using Cons.IH [of q] q(3) Cons.prems(3-5) by auto
    then show ?thesis using q False st by (intro exI [of _ r]) (simp add: Let_def)
  qed
qed

subsection \<open>The stream in chunks\<close>

lemma wire_incomplete: "\<forall>m \<in> set ms. length m \<le> kMaxMessageLen \<Longrightarrow> incomplete (wire ms) \<Longrightarrow> ms = []"
  by (cases ms) (auto simp: incomplete_def kMaxMessageLen_def)

text \<open>A beginning of the stream is some whole messages and the beginning of the next one.\<close>

lemma wire_split:
  assumes "wire ms = bs @ after" "\<forall>m \<in> set ms. length m \<le> kMaxMessageLen"
  shows "\<exists>xs ys rest. ms = xs @ ys \<and> bs = wire xs @ rest \<and> incomplete rest \<and> rest @ after = wire ys"
  using assms
proof (induction ms arbitrary: bs)
  case Nil
  then show ?case by (simp add: incomplete_def)
next
  case (Cons m ms)
  have len: "length m < 2 ^ 32" using Cons.prems(2) by (simp add: kMaxMessageLen_def)
  show ?case
  proof (cases "length bs < 4 + length m")
    case True
    have "rd32 bs = length m" if "4 \<le> length bs"
    proof -
      have "take 4 bs = take 4 (wire (m # ms))" using that Cons.prems(1) by simp
      then have "bs = wr32 (length m) @ drop 4 bs" by (metis append_take_drop_id append_eq_conv_conj length_wr32 wire_simps(2))
      then show ?thesis using len by (metis rd32_wr32)
    qed
    then have "incomplete bs" using True Cons.prems(2) unfolding incomplete_def by (cases "length bs < 4") simp_all
    then show ?thesis using Cons.prems(1) by (intro exI [of _ "[]"] exI [of _ "m # ms"] exI [of _ bs]) simp
  next
    case False
    define tl where "tl = drop (4 + length m) bs"
    have "take (4 + length m) bs = take (4 + length m) (wire (m # ms))" using False Cons.prems(1) by simp
    also have "\<dots> = wr32 (length m) @ m" by simp
    finally have bs: "bs = wr32 (length m) @ m @ tl" by (metis append_assoc append_take_drop_id tl_def)
    then have "wire ms = tl @ after" using Cons.prems(1) by simp
    then obtain xs ys rest where "ms = xs @ ys" "tl = wire xs @ rest" "incomplete rest" "rest @ after = wire ys"
      using Cons.IH [of tl] Cons.prems(2) by auto
    then show ?thesis using bs by (intro exI [of _ "m # xs"] exI [of _ ys] exI [of _ rest]) simp
  qed
qed

lemma handle_all_append:
  "p_state p \<noteq> Closed \<Longrightarrow> handle_all h now (xs @ ys) p =
     (let q = handle_all h now xs p in if p_state q = Closed then q else handle_all h now ys q)"
  by (induction xs arbitrary: p) (simp_all add: Let_def)

text \<open>What the loop does with the bytes received by successive reads.\<close>

fun feed :: "peer_handler \<Rightarrow> nat \<Rightarrow> bytes list \<Rightarrow> peer \<Rightarrow> peer" where
  "feed h now [] p = p"
| "feed h now (c # cs) p =
     (let (p, go) = consume_messages h now (p\<lparr>p_in := p_in p @ c\<rparr>) in if go then feed h now cs p else p)"

lemma feed_wire:
  assumes "blind h" "p_in_pos p \<le> length (p_in p)" "incomplete (inbuf p)" "inbuf p @ concat cs = wire ms"
    and "\<forall>m \<in> set ms. length m \<le> kMaxMessageLen" "p_state p \<noteq> Closed"
  shows "strip (feed h now cs p) = handle_all h now ms (strip p)"
  using assms(2-)
proof (induction cs arbitrary: p ms)
  case Nil
  then show ?case using wire_incomplete [of ms] by simp
next
  case (Cons c cs)
  let ?p = "p\<lparr>p_in := p_in p @ c\<rparr>"
  have "wire ms = (inbuf p @ c) @ concat cs" using Cons.prems(3) by simp
  from wire_split [OF this Cons.prems(4)] obtain xs ys rest where
    s: "ms = xs @ ys" "inbuf p @ c = wire xs @ rest" "incomplete rest" "rest @ concat cs = wire ys" by blast
  have "inbuf ?p = wire xs @ rest" "p_in_pos ?p \<le> length (p_in ?p)"
    using Cons.prems(1) s(2) by (simp_all add: inbuf_def)
  from consume_wire [OF this(2,1) _ s(3) assms(1), of now] Cons.prems(4,5) s(1) obtain q where
    q: "consume_messages h now ?p = (q, p_state q \<noteq> Closed)" "strip q = handle_all h now xs (strip ?p)"
    "p_state q \<noteq> Closed \<longrightarrow> p_in_pos q \<le> length (p_in q) \<and> inbuf q = rest" by auto
  have e: "handle_all h now ms (strip p) =
      (if p_state q = Closed then strip q else handle_all h now ys (strip q))"
    using handle_all_append [of "strip p" h now xs ys] q(2) s(1) Cons.prems(5) strip_sel(1) [of q]
    by (simp add: strip_input Let_def)
  show ?case
  proof (cases "p_state q = Closed")
    case True
    then show ?thesis using q(1) e by simp
  next
    case False
    then have "strip (feed h now cs q) = handle_all h now ys (strip q)"
      using q(3) s(1,3,4) Cons.prems(4) by (intro Cons.IH) simp_all
    then show ?thesis using q(1) e False by simp
  qed
qed

lemma out_messages:
  "p_out (foldl (\<lambda>p (mid, payload). queue_message mid payload p) a ms) = p_out a @ wire (map (\<lambda>(mid, payload). of_nat mid # payload) ms)"
  if "\<forall>(mid, payload) \<in> set ms. length payload < kMaxMessageLen"
  using that
proof (induction ms arbitrary: a)
  case (Cons m ms)
  then show ?case
    by (cases m) (simp add: queue_message_def queue_bytes_def message_def kMaxMessageLen_def u32_id)
qed simp

lemma wire_fits: "\<forall>(mid, payload) \<in> set ms. length payload < kMaxMessageLen \<Longrightarrow>
    m \<in> set (map (\<lambda>(mid, payload). of_nat mid # payload) ms) \<Longrightarrow> length m \<le> kMaxMessageLen"
  by auto

text \<open>C34: whatever messages one side queues and however the stream is cut into reads, the other side
  handles exactly these messages, in their order, each once (or stops at the one that made it close):
  the framing loses, duplicates, merges and reorders nothing.\<close>

theorem messages_arrive:
  assumes "blind h" "p_out a = []" "\<forall>(mid, payload) \<in> set ms. length payload < kMaxMessageLen"
    and "concat chunks = p_out (foldl (\<lambda>p (mid, payload). queue_message mid payload p) a ms)"
    and "p_in b = []" "p_in_pos b = 0" "p_state b \<noteq> Closed"
  shows "strip (feed h now chunks b) = handle_all h now (map (\<lambda>(mid, payload). of_nat mid # payload) ms) b"
proof -
  have "strip b = b" using assms(5,6) by (simp add: strip_def)
  moreover have "inbuf b @ concat chunks = wire (map (\<lambda>(mid, payload). of_nat mid # payload) ms)"
    using out_messages [OF assms(3), of a] assms(2,4,5) by (simp add: inbuf_def)
  ultimately show ?thesis
    using feed_wire [of h b chunks] wire_fits [OF assms(3)] assms(1,5-7) by (simp add: inbuf_def incomplete_def)
qed

theorem messages_arrive_witness:
  "\<exists>h (a :: peer) chunks (b :: peer). length chunks = 2 \<and> p_peer_interested (feed h 0 chunks b) \<and> \<not> p_peer_interested b \<and>
     p_events (feed h 0 chunks b) = [EvHave 7] \<and> p_out a = []"
proof -
  let ?h = "\<lambda>ev p :: peer. p"
  let ?a = "new_peer \<lparr>ipv4 = 0, port = 0\<rparr> [] [] False"
  let ?cs = "[[0, 0, 0, 1, 2, 0], [0, 0, 5, 4, 0, 0, 0, 7]] :: bytes list"
  have b: "blind ?h" by (simp add: blind_def strip_def)
  have w: "wr32 7 = [0, 0, 0, 7]" "wr32 5 = [0, 0, 0, 5]" "wr32 1 = [0, 0, 0, 1]" by (code_simp, code_simp, code_simp)
  have w': "wr32 (Suc 0) = [0, 0, 0, 1]" "wr32 (Suc (Suc (Suc (Suc (Suc 0))))) = [0, 0, 0, 5]"
    using w by (simp_all add: eval_nat_numeral)
  have "strip (feed ?h 0 ?cs ?a) = handle_all ?h 0 (map (\<lambda>(mid, payload). of_nat mid # payload) [(2, []), (4, wr32 7)]) ?a"
    by (rule messages_arrive [OF b, of ?a])
       (simp_all add: new_peer_def kMaxMessageLen_def queue_message_def queue_bytes_def message_def u32_id w w')
  also have "\<dots> = ?a\<lparr>p_peer_interested := True, p_pending := pending_have 7 [], p_events := [EvHave 7]\<rparr>"
    using rd32_wr32 [of 7 "[]"] by (simp add: handle_message_def handle_have_def notify_def new_peer_def Let_def)
  finally have e: "strip (feed ?h 0 ?cs ?a) = ?a\<lparr>p_peer_interested := True, p_pending := pending_have 7 [], p_events := [EvHave 7]\<rparr>" .
  have "p_peer_interested (feed ?h 0 ?cs ?a)" "p_events (feed ?h 0 ?cs ?a) = [EvHave 7]"
    using arg_cong [OF e, of p_peer_interested] arg_cong [OF e, of p_events] unfolding strip_def by simp_all
  moreover have "\<not> p_peer_interested ?a" "p_out ?a = []" by (simp_all add: new_peer_def)
  ultimately show ?thesis
    by (intro exI [of _ ?h] exI [of _ ?a] exI [of _ ?cs] exI [of _ ?a]) (simp del: feed.simps)
qed

subsection \<open>Emission\<close>

lemma send_loop_stream:
  "\<forall>r \<in> set rs. 0 < r \<or> r = -1 \<Longrightarrow> send_loop rs out pos sent = (rs', pos', sent', ok) \<Longrightarrow>
     ok \<and> sent' @ drop pos' out = sent @ drop pos out \<and> pos \<le> pos'"
proof (induction rs out pos sent arbitrary: rs' pos' sent' ok rule: send_loop.induct)
  case (2 r rs out pos sent)
  show ?case
  proof (cases "\<not> length out \<le> pos \<and> 0 < r")
    case True
    then have "ok \<and> sent' @ drop pos' out = (sent @ take (nat r) (drop pos out)) @ drop (pos + nat r) out \<and> pos + nat r \<le> pos'"
      using 2 by simp
    moreover have "take (nat r) (drop pos out) @ drop (pos + nat r) out = drop pos out"
      by (metis add.commute append_take_drop_id drop_drop)
    ultimately show ?thesis by (metis add_leD1 append_assoc)
  next
    case False
    then show ?thesis using 2 by (auto split: if_splits)
  qed
qed simp

text \<open>C35: whatever the socket accepts of each call, in pieces or not at all for now, what it has
  received followed by what is still queued is what it had received followed by what was queued: no
  byte is lost, repeated or moved, through the reset and the compaction of the buffer too.  Nothing else
  of the connection changes.\<close>

theorem emission_stream:
  assumes "p_sock p = Some sk" "\<forall>r \<in> set (sk_tx sk). 0 < r \<or> r = -1"
  shows "\<exists>sk' q. flush_out h (queue_bytes data p) = q \<and> p_sock q = Some sk' \<and>
    sk_sent sk' @ drop (p_out_pos q) (p_out q) = sk_sent sk @ drop (p_out_pos p) (p_out p @ data) \<and>
    q = (queue_bytes data p)\<lparr>p_sock := Some sk', p_out := p_out q, p_out_pos := p_out_pos q\<rparr>"
proof (cases "length (p_out p @ data) \<le> p_out_pos p")
  case True
  then show ?thesis using assms(1)
    by (intro exI [of _ sk] exI [of _ "queue_bytes data p"]) (simp add: flush_out_def queue_bytes_def)
next
  case False
  obtain rs pos sent ok where l: "send_loop (sk_tx sk) (p_out p @ data) (p_out_pos p) (sk_sent sk) = (rs, pos, sent, ok)"
    using prod_cases4 by blast
  note st = send_loop_stream [OF assms(2) l]
  define q where "q = flush_out h (queue_bytes data p)"
  let ?sk = "sk\<lparr>sk_tx := rs, sk_sent := sent\<rparr>"
  have e: "q = (if length (p_out p @ data) \<le> pos then p\<lparr>p_sock := Some ?sk, p_out := [], p_out_pos := 0\<rparr>
      else if 64 * 1024 < pos then p\<lparr>p_sock := Some ?sk, p_out := drop pos (p_out p @ data), p_out_pos := 0\<rparr>
      else p\<lparr>p_sock := Some ?sk, p_out := p_out p @ data, p_out_pos := pos\<rparr>)"
    using assms(1) False l st by (simp add: q_def flush_out_def queue_bytes_def Let_def)
  have "p_sock q = Some ?sk" "q = (queue_bytes data p)\<lparr>p_sock := Some ?sk, p_out := p_out q, p_out_pos := p_out_pos q\<rparr>"
    unfolding e queue_bytes_def by simp_all
  moreover have "sk_sent ?sk @ drop (p_out_pos q) (p_out q) = sk_sent sk @ drop (p_out_pos p) (p_out p @ data)"
    using st unfolding e by (cases "length (p_out p @ data) \<le> pos") simp_all
  ultimately show ?thesis unfolding q_def by blast
qed

theorem emission_stream_witness:
  "\<exists>sk' q. flush_out (\<lambda>ev p. p) (queue_bytes [1, 2, 3] ((new_peer \<lparr>ipv4 = 0, port = 0\<rparr> [] [] False)\<lparr>p_sock := Some \<lparr>sk_rx = [], sk_tx = [2, -1], sk_sent = [], sk_finish = True\<rparr>\<rparr>)) = q \<and>
     p_sock q = Some sk' \<and> sk_sent sk' @ drop (p_out_pos q) (p_out q) = [1, 2, 3]"
  using emission_stream [of "(new_peer \<lparr>ipv4 = 0, port = 0\<rparr> [] [] False)\<lparr>p_sock := Some \<lparr>sk_rx = [], sk_tx = [2, -1], sk_sent = [], sk_finish = True\<rparr>\<rparr>"
      "\<lparr>sk_rx = [], sk_tx = [2, -1], sk_sent = [], sk_finish = True\<rparr>" "\<lambda>ev p. p" "[1, 2, 3]"]
  by (auto simp: new_peer_def)

subsection \<open>The handshake\<close>

lemma handshake_fields:
  assumes "length (p_info_hash a) = 20" "length (p_my_id a) = 20"
  shows "length (handshake_bytes a) = kHandshakeLen"
    "handshake_bytes a ! 0 = of_nat kProtocolLen" "take kProtocolLen (drop 1 (handshake_bytes a)) = kProtocol"
    "handshake_bytes a ! 25 = 0x10" "take 20 (drop 28 (handshake_bytes a)) = p_info_hash a"
    "take 20 (drop 48 (handshake_bytes a)) = p_my_id a"
proof -
  have l: "length kProtocol = kProtocolLen" "kProtocolLen = 19" by code_simp+
  have e: "handshake_bytes a = ([of_nat kProtocolLen] @ kProtocol @ [0, 0, 0, 0, 0, 0x10, 0, 0]) @ p_info_hash a @ p_my_id a"
    (is "_ = ?h @ _") by (simp add: handshake_bytes_def)
  have h: "length ?h = 28" using l by simp
  show "length (handshake_bytes a) = kHandshakeLen" unfolding e using h assms by (simp add: kHandshakeLen_def)
  show "handshake_bytes a ! 0 = of_nat kProtocolLen" by (simp add: handshake_bytes_def)
  show "take kProtocolLen (drop 1 (handshake_bytes a)) = kProtocol" using l by (simp add: handshake_bytes_def)
  show "take 20 (drop 28 (handshake_bytes a)) = p_info_hash a" unfolding e using h assms by simp
  have "drop 48 (handshake_bytes a) = p_my_id a" unfolding e using h assms by simp
  then show "take 20 (drop 48 (handshake_bytes a)) = p_my_id a" using assms by simp
  show "handshake_bytes a ! 25 = 0x10" using l by (simp add: handshake_bytes_def nth_append)
qed

text \<open>The handshake one side writes is accepted by the other exactly when both want the same torrent;
  it then knows the sender's identifier, has consumed the 68 bytes and no more, answers with its
  extended handshake and reports that the connection is ready.  Otherwise the connection is closed.\<close>

theorem handshake_agreement:
  assumes "length (p_info_hash a) = 20" "length (p_my_id a) = 20"
    and "p_in b = handshake_bytes a @ rest" "p_in_pos b = 0"
  shows "consume_handshake h clk b =
    (if p_info_hash b = p_info_hash a
     then (notify h EvReady (flush_out h (send_extended_handshake (b\<lparr>p_their_id := p_my_id a, p_in_pos := 68, p_state := Ready, p_choked_since := clk\<rparr>))), True)
     else (close_peer h WrongInfoHash b, False))"
proof -
  note f = handshake_fields [OF assms(1,2)]
  have l: "length (handshake_bytes a) = 68" "kProtocolLen = 19" using f(1) by (simp_all add: kHandshakeLen_def kProtocolLen_def)
  have g: "p_in b ! 0 = of_nat kProtocolLen" "take kProtocolLen (drop 1 (p_in b)) = kProtocol" "p_in b ! 25 AND 0x10 \<noteq> 0"
    "take 20 (drop 28 (p_in b)) = p_info_hash a" "take 20 (drop 48 (p_in b)) = p_my_id a"
    using f(2-) l assms(2,3) by (simp_all add: nth_append_left)
  show ?thesis
    unfolding consume_handshake_def Let_def using g assms(2-4) l by (simp add: kHandshakeLen_def)
qed

theorem handshake_agreement_witness:
  "\<exists>(a :: peer) (b :: peer). p_info_hash b \<noteq> p_info_hash a \<and> p_state b = Handshaking \<and> p_state (fst (consume_handshake (\<lambda>ev p. p) 0 b)) = Closed"
proof -
  let ?a = "new_peer \<lparr>ipv4 = 0, port = 0\<rparr> (replicate 20 1) (replicate 20 7) False"
  let ?b = "(new_peer \<lparr>ipv4 = 0, port = 0\<rparr> (replicate 20 2) (replicate 20 9) False)\<lparr>p_state := Handshaking, p_in := handshake_bytes ?a\<rparr>"
  have "(replicate 20 2 :: bytes) \<noteq> replicate 20 1" by simp
  then have "p_state (fst (consume_handshake (\<lambda>ev p. p) 0 ?b)) = Closed"
    using handshake_agreement [of ?a ?b "[]" "\<lambda>ev p. p" 0] by (simp add: new_peer_def close_peer_def notify_def)
  then show ?thesis by (intro exI [of _ ?a] exI [of _ ?b]) (simp add: new_peer_def)
qed

subsection \<open>Pieces announced before the metadata\<close>

text \<open>A handler that leaves what is known of the peer's pieces alone.\<close>

definition keeps_pieces :: "peer_handler \<Rightarrow> bool" where
  "keeps_pieces h \<longleftrightarrow> (\<forall>ev p. p_pieces (h ev p) = p_pieces p \<and> p_pending (h ev p) = p_pending p \<and> p_piece_count (h ev p) = p_piece_count p)"

lemma notify_pieces:
  assumes "keeps_pieces h"
  shows "p_pieces (notify h ev p) = p_pieces p" "p_pending (notify h ev p) = p_pending p"
    "p_piece_count (notify h ev p) = p_piece_count p"
  using assms by (simp_all add: keeps_pieces_def notify_def)

text \<open>The indices whose bit is set in a raw bitfield.\<close>

definition raw_set :: "bytes \<Rightarrow> nat set" where
  "raw_set bs = {i. i div 8 < length bs \<and> bit_at bs i}"

lemma raw_set_zeros: "raw_set (bs @ replicate k 0) = raw_set bs"
proof (intro set_eqI)
  fix i
  show "i \<in> raw_set (bs @ replicate k 0) \<longleftrightarrow> i \<in> raw_set bs"
    by (cases "i div 8 < length bs"; cases "i div 8 - length bs < k") (auto simp: raw_set_def bit_at_def nth_append)
qed

lemma raw_set_or:
  assumes "piece div 8 < length bs"
  shows "raw_set (bs[piece div 8 := bs ! (piece div 8) OR bit_mask piece]) = insert piece (raw_set bs)"
proof (intro set_eqI)
  fix i
  show "i \<in> raw_set (bs[piece div 8 := bs ! (piece div 8) OR bit_mask piece]) \<longleftrightarrow> i \<in> insert piece (raw_set bs)"
  proof (cases "i div 8 = piece div 8")
    case True
    then show ?thesis using assms same_index [of i piece] by (auto simp: raw_set_def bit_at_def bit_or_mask)
  next
    case False
    then show ?thesis by (auto simp: raw_set_def bit_at_def)
  qed
qed

lemma raw_set_have:
  assumes "piece < 8 * (1024 * 1024)"
  shows "raw_set (pending_have piece bs) = insert piece (raw_set bs)"
proof -
  let ?b = "if length bs \<le> piece div 8 then bs @ replicate (piece div 8 + 1 - length bs) 0 else bs"
  have "piece div 8 < length ?b" by simp
  moreover have "piece div 8 < 1024 * 1024" using assms by (simp add: less_mult_imp_div_less)
  ultimately have "raw_set (pending_have piece bs) = insert piece (raw_set ?b)"
    using raw_set_or [of piece ?b] by (simp add: pending_have_def Let_def)
  also have "raw_set ?b = raw_set bs" by (simp add: raw_set_zeros)
  finally show ?thesis .
qed

lemma raw_set_fit:
  assumes "raw_set bs \<subseteq> {..<n}"
  shows "raw_set (take ((n + 7) div 8) bs @ replicate ((n + 7) div 8 - length bs) 0) = raw_set bs"
proof -
  have "i div 8 < (n + 7) div 8" if "i \<in> raw_set bs" for i using that assms index_byte by auto
  then show ?thesis unfolding raw_set_zeros by (auto simp: raw_set_def bit_at_def)
qed

lemma raw_pad: "raw_set bs \<subseteq> {..<n} \<longleftrightarrow> pad_ok bs n"
  by (auto simp: raw_set_def pad_ok_def not_less [symmetric] subset_iff)

lemma from_bytes_raw:
  assumes "n \<le> 2 ^ 32 - 8" "length bs = (n + 7) div 8" "raw_set bs \<subseteq> {..<n}"
  shows "\<exists>bf. bf_from_bytes bs n = Some bf \<and> bf_ok bf \<and> {i. bf_get bf i} = raw_set bs"
proof -
  obtain bf where bf: "bf_from_bytes bs n = Some bf"
    using assms raw_pad bf_from_bytes_iff [OF assms(1), of bs] by simp
  note ok = bf_from_bytes_ok [OF assms(1) bf]
  have "bf_get bf i \<longleftrightarrow> i \<in> raw_set bs" for i
    using ok(2,3) assms(2,3) index_byte [of i n] by (auto simp: bf_get_bit raw_set_def)
  then show ?thesis using bf ok(1) by auto
qed

lemma set_piece_count_pieces:
  assumes "keeps_pieces h" "p_piece_count p = 0" "0 < n" "n \<le> 2 ^ 32 - 8" "raw_set (p_pending p) \<subseteq> {..<n}"
  shows "bf_ok (p_pieces (set_piece_count h n p)) \<and> {i. has_piece (set_piece_count h n p) i} = raw_set (p_pending p) \<and>
    p_piece_count (set_piece_count h n p) = n \<and> bits (p_pieces (set_piece_count h n p)) = n"
proof (cases "p_pending p = []")
  case True
  then show ?thesis using assms bf_ok_resize [OF assms(4)]
    by (simp add: set_piece_count_def has_piece_def raw_set_def)
next
  case False
  let ?pend = "take ((n + 7) div 8) (p_pending p) @ replicate ((n + 7) div 8 - length (p_pending p)) 0"
  have "length ?pend = (n + 7) div 8" by (simp add: min_def)
  from from_bytes_raw [OF assms(4) this] raw_set_fit [OF assms(5)] assms(5)
  obtain bf where bf: "bf_from_bytes ?pend n = Some bf" "bf_ok bf" "{i. bf_get bf i} = raw_set ?pend" by auto
  then show ?thesis
    using assms False raw_set_fit [OF assms(5)] u32_round_up [OF assms(4)] bf_from_bytes_ok(2) [OF assms(4) bf(1)]
    by (simp add: set_piece_count_def Let_def notify_pieces has_piece_def)
qed

lemma bitfield_early: "keeps_pieces h \<Longrightarrow> p_piece_count p = 0 \<Longrightarrow>
    p_pending (handle_bitfield h payload p) = payload \<and> p_piece_count (handle_bitfield h payload p) = 0"
  by (simp add: handle_bitfield_def notify_pieces)

lemma haves_early:
  assumes "keeps_pieces h" "p_piece_count p = 0" "\<forall>x \<in> set xs. x < 8 * (1024 * 1024)"
  shows "raw_set (p_pending (fold (\<lambda>x. handle_have h (wr32 x)) xs p)) = set xs \<union> raw_set (p_pending p) \<and>
    p_piece_count (fold (\<lambda>x. handle_have h (wr32 x)) xs p) = 0"
  using assms(2,3)
proof (induction xs arbitrary: p)
  case (Cons x xs)
  let ?q = "handle_have h (wr32 x) p"
  have "rd32 (wr32 x) = x" using Cons.prems(2) rd32_wr32 [of x "[]"] by simp
  then have "p_piece_count ?q = 0" "raw_set (p_pending ?q) = insert x (raw_set (p_pending p))"
    using Cons.prems raw_set_have [of x] by (simp_all add: handle_have_def Let_def notify_pieces [OF assms(1)])
  then show ?case using Cons.IH [of ?q] Cons.prems(2) by auto
qed simp

lemma haves_late:
  assumes "keeps_pieces h" "0 < n" "p_piece_count p = n" "bf_ok (p_pieces p)" "bits (p_pieces p) = n" "\<forall>x \<in> set xs. x < n"
  shows "bf_ok (p_pieces (fold (\<lambda>x. handle_have h (wr32 x)) xs p)) \<and>
    {i. has_piece (fold (\<lambda>x. handle_have h (wr32 x)) xs p) i} = set xs \<union> {i. has_piece p i}"
  using assms(3-)
proof (induction xs arbitrary: p)
  case (Cons x xs)
  let ?q = "handle_have h (wr32 x) p"
  have n: "n \<le> 2 ^ 32 - 8" using Cons.prems(2,3) by (simp add: bf_ok_def)
  then have "rd32 (wr32 x) = x" using Cons.prems(4) rd32_wr32 [of x "[]"] by simp
  then have q: "p_pieces ?q = bf_set (p_pieces p) x True" "p_piece_count ?q = n"
    using Cons.prems(1) assms(2) by (simp_all add: handle_have_def Let_def notify_pieces [OF assms(1)])
  have "{i. has_piece ?q i} = insert x {i. has_piece p i}"
    using q(1) Cons.prems(3,4) bf_get_set [of "p_pieces p" x True] Cons.prems(2) by (auto simp: has_piece_def bf_ok_def)
  then show ?case using Cons.IH [of ?q] q bf_ok_set [OF Cons.prems(2), of x True] Cons.prems(3,4) by auto
qed simp

text \<open>Learning the metadata after the peer has announced its pieces is the same as before: the bitfield
  and the announcements received while the number of pieces was unknown give, once it is known, the
  pieces and the count that the same messages give when it is known from the start.\<close>

theorem metadata_order:
  assumes "keeps_pieces h" "p_piece_count p = 0" "p_pending p = []" "0 < n" "n \<le> 8 * (1024 * 1024)"
    and "bf_from_bytes payload n \<noteq> None" "\<forall>x \<in> set xs. x < n"
    and "early = set_piece_count h n (fold (\<lambda>x. handle_have h (wr32 x)) xs (handle_bitfield h payload p))"
    and "late = fold (\<lambda>x. handle_have h (wr32 x)) xs (handle_bitfield h payload (set_piece_count h n p))"
  shows "has_piece early i = has_piece late i \<and> bcount (p_pieces early) = bcount (p_pieces late) \<and>
    (has_piece early i \<longleftrightarrow> i \<in> set xs \<or> i < n \<and> bit_at payload i)"
proof -
  have n: "n \<le> 2 ^ 32 - 8" using assms(5) by simp
  have len: "length payload = (n + 7) div 8" and pad: "raw_set payload \<subseteq> {..<n}"
    using assms(6) bf_from_bytes_iff [OF n] raw_pad by (simp_all split: if_splits)
  from from_bytes_raw [OF n len pad] obtain bf where bf: "bf_from_bytes payload n = Some bf" "bf_ok bf" "{i. bf_get bf i} = raw_set payload"
    by blast
  note e0 = bitfield_early [OF assms(1,2), of payload]
  have e1: "raw_set (p_pending (fold (\<lambda>x. handle_have h (wr32 x)) xs (handle_bitfield h payload p))) = set xs \<union> raw_set payload"
    "p_piece_count (fold (\<lambda>x. handle_have h (wr32 x)) xs (handle_bitfield h payload p)) = 0"
    using haves_early [OF assms(1), of "handle_bitfield h payload p" xs] e0 assms(5,7) by fastforce+
  have early: "bf_ok (p_pieces early)" "{i. has_piece early i} = set xs \<union> raw_set payload"
    using set_piece_count_pieces [OF assms(1) e1(2) assms(4) n] e1(1) pad assms(7,8) by auto
  let ?q = "handle_bitfield h payload (set_piece_count h n p)"
  have "p_piece_count (set_piece_count h n p) = n"
    using set_piece_count_pieces [OF assms(1,2,4) n] assms(3) by (simp add: raw_set_def)
  then have "p_piece_count ?q = n" "p_pieces ?q = bf"
    using bf(1) assms(4) by (simp_all add: handle_bitfield_def notify_pieces [OF assms(1)])
  then have late: "bf_ok (p_pieces late)" "{i. has_piece late i} = set xs \<union> raw_set payload"
    using haves_late [OF assms(1,4), of ?q xs] bf bf_from_bytes_ok(2) [OF n bf(1)] assms(7,9) by (simp_all add: has_piece_def)
  have "{i. bf_get (p_pieces early) i} = {i. bf_get (p_pieces late) i}" using early(2) late(2) by (simp add: has_piece_def)
  then have "bcount (p_pieces early) = bcount (p_pieces late)" using early(1) late(1) by (simp add: bf_ok_def)
  moreover have "i \<in> raw_set payload \<longleftrightarrow> i < n \<and> bit_at payload i"
    using pad len index_byte [of i n] by (auto simp: raw_set_def)
  ultimately show ?thesis using early(2) late(2) by blast
qed

theorem metadata_order_witness:
  "has_piece (set_piece_count (\<lambda>ev p. p) 9 (handle_have (\<lambda>ev p. p) (wr32 8) (handle_bitfield (\<lambda>ev p. p) [0x80, 0] (new_peer \<lparr>ipv4 = 0, port = 0\<rparr> [] [] False)))) 8"
proof -
  let ?p = "new_peer \<lparr>ipv4 = 0, port = 0\<rparr> [] [] False"
  have k: "keeps_pieces (\<lambda>ev p. p)" by (simp add: keeps_pieces_def)
  have "\<not> bit_at [0x80, 0] i" if "9 \<le> i" "i div 8 < 2" for i
  proof -
    have "i div 8 = Suc 0" using that by simp
    then show ?thesis by (simp add: bit_at_def)
  qed
  moreover have pr: "p_piece_count ?p = 0" "p_pending ?p = []" by (simp_all add: new_peer_def)
  ultimately have f: "bf_from_bytes [0x80, 0] 9 \<noteq> None" by (simp add: bf_from_bytes_iff pad_ok_def)
  show ?thesis
    using metadata_order [OF k pr _ _ f _ refl refl, of "[8]" 8, THEN conjunct2, THEN conjunct2] by simp
qed

end
