(* ===== verification/Dht.thy ===== *)
theory Dht
  imports Bencode Net
begin

text \<open>
  The search for peers in the distributed hash table (\<open>source/bt/dht.cpp\<close>, \<open>include/bt/dht.hpp\<close>).

  The transport is what it answers at the time of a call: whether it is ready, the socket it opens and
  the addresses it resolves.  The socket is the datagrams it will deliver (None when there is nothing
  more to read for now) and those it was given to send.  \<open>searches_\<close> is the association list sorted by
  key in which the code iterates over its \<open>std::map\<close>; \<open>pending_\<close>, whose order does not matter, is a
  map.  \<open>std::sort\<close> is the argument \<open>srt\<close>, as it leaves the order of equivalent elements open; all that
  is used of it is \<open>sorts\<close>.  \<open>clk\<close> is the reading of the clock where the code takes it itself.

  Results: the comparison of distances is a strict weak order; the invariant of the table and of the
  searches in every state (at most 400 contacts, distinct and valid, at most 123 queries by search);
  only the answer to one of our queries has an effect, once; the queries are well-formed and canonical
  bencode; a step of a search queries the closest contacts not yet queried.
\<close>

record dht_socket =
  ds_rx :: "(endpoint \<times> bytes) option list"
  ds_sent :: "(endpoint \<times> bytes) list"

record dht_net =
  net_ready :: bool
  net_udp :: "dht_socket option"
  net_resolve :: "bytes \<Rightarrow> 32 word option"

record dht_stats =
  queries_sent :: nat
  datagrams_in :: nat
  replies_matched :: nat
  replies_unknown_tid :: nat
  errors_in :: nat
  nodes_returned :: nat
  nodes_kept :: nat
  peers_returned :: nat

record dnode =
  dn_id :: bytes
  dn_endpoint :: endpoint
  dn_seen :: nat

record dsearch =
  ds_target :: bytes
  ds_started :: nat
  ds_last_step :: nat
  ds_queried :: "32 word list"
  ds_candidates :: "dnode list"
  ds_found :: "endpoint list"
  ds_active :: bool

record dquery =
  dq_query :: bytes
  dq_target :: bytes
  dq_sent :: nat

record dht =
  d_transport :: bool
  d_sock :: "dht_socket option"
  d_port :: nat
  d_my_id :: bytes
  d_nodes :: "dnode list"
  d_searches :: "(bytes \<times> dsearch) list"
  d_pending :: "bytes \<rightharpoonup> dquery"
  d_next_tid :: nat
  d_last_bootstrap :: nat
  d_bootstrap_index :: nat
  d_stats :: dht_stats
  d_results :: "(bytes \<times> endpoint list) list"

definition kBootstrap :: "(bytes \<times> 16 word) list" where
  "kBootstrap = [(ascii ''router.bittorrent.com'', 6881), (ascii ''dht.transmissionbt.com'', 6881),
     (ascii ''router.utorrent.com'', 6881), (ascii ''dht.libtorrent.org'', 25401)]"

definition kMaxNodes :: nat where
  "kMaxNodes = 400"

definition kMinNodes :: nat where
  "kMinNodes = 16"

definition kMaxQueriedPerSearch :: nat where
  "kMaxQueriedPerSearch = 120"

definition kSearchStepMs :: nat where
  "kSearchStepMs = 900"

definition kSearchLifetimeMs :: nat where
  "kSearchLifetimeMs = 90000"

definition kBootstrapRetryMs :: nat where
  "kBootstrapRetryMs = 2500"

definition kPendingTimeoutMs :: nat where
  "kPendingTimeoutMs = 12000"

fun compare_distance :: "bytes \<Rightarrow> bytes \<Rightarrow> bytes \<Rightarrow> int" where
  "compare_distance (a # as) (b # bs) (t # ts) =
     (let da = a XOR t; db = b XOR t
      in if da \<noteq> db then (if da < db then -1 else 1) else compare_distance as bs ts)"
| "compare_distance _ _ _ = 0"

definition string_to_hash :: "bytes \<Rightarrow> bytes option" where
  "string_to_hash s = (if length s \<noteq> 20 then None else Some s)"

definition no_stats :: dht_stats where
  "no_stats = \<lparr>queries_sent = 0, datagrams_in = 0, replies_matched = 0, replies_unknown_tid = 0, errors_in = 0,
     nodes_returned = 0, nodes_kept = 0, peers_returned = 0\<rparr>"

definition new_dht :: "bytes \<Rightarrow> dht" where
  "new_dht random_id =
     \<lparr>d_transport = False, d_sock = None, d_port = 0, d_my_id = random_id, d_nodes = [], d_searches = [],
      d_pending = Map.empty, d_next_tid = 1, d_last_bootstrap = 0, d_bootstrap_index = 0, d_stats = no_stats,
      d_results = []\<rparr>"

definition new_search :: dsearch where
  "new_search = \<lparr>ds_target = replicate 20 0, ds_started = 0, ds_last_step = 0, ds_queried = [], ds_candidates = [],
     ds_found = [], ds_active = False\<rparr>"

subsection \<open>The searches\<close>

text \<open>Assignment through \<open>std::map::operator[]\<close>: the keys stay sorted.\<close>

fun put_search :: "bytes \<Rightarrow> dsearch \<Rightarrow> (bytes \<times> dsearch) list \<Rightarrow> (bytes \<times> dsearch) list" where
  "put_search k s [] = [(k, s)]"
| "put_search k s ((k', s') # m) =
     (if k < k' then (k, s) # (k', s') # m
      else if k = k' then (k, s) # m
      else (k', s') # put_search k s m)"

definition set_search :: "bytes \<Rightarrow> dsearch \<Rightarrow> dht \<Rightarrow> dht" where
  "set_search k s d = d\<lparr>d_searches := put_search k s (d_searches d)\<rparr>"

definition set_transport :: "dht_net option \<Rightarrow> dht \<Rightarrow> dht" where
  "set_transport transport d =
     (let d = d\<lparr>d_transport := (transport \<noteq> None), d_sock := None, d_nodes := [], d_pending := Map.empty,
           d_last_bootstrap := 0,
           d_searches := map (\<lambda>(k, s). (k, s\<lparr>ds_queried := [], ds_candidates := []\<rparr>)) (d_searches d)\<rparr>
      in case transport of
           None \<Rightarrow> d
         | Some net \<Rightarrow>
             if \<not> net_ready net then d
             else (case net_udp net of None \<Rightarrow> d | Some sock \<Rightarrow> d\<lparr>d_sock := Some sock, d_port := 6881\<rparr>))"

definition find_peers :: "bytes \<Rightarrow> nat \<Rightarrow> dht \<Rightarrow> dht" where
  "find_peers hash clk d =
     (let key = to_hex hash;
          s = (case map_of (d_searches d) key of None \<Rightarrow> new_search | Some s \<Rightarrow> s)
      in if ds_active s \<and> ds_target s = hash then set_search key s d
         else set_search key (s\<lparr>ds_target := hash, ds_started := clk, ds_last_step := 0, ds_queried := [],
                ds_candidates := [], ds_active := True\<rparr>) d)"

definition forget_search :: "bytes \<Rightarrow> dht \<Rightarrow> dht" where
  "forget_search hash d = d\<lparr>d_searches := filter (\<lambda>(k, s). k \<noteq> to_hex hash) (d_searches d)\<rparr>"

definition dht_results :: "dht \<Rightarrow> dht \<times> (bytes \<times> endpoint list) list" where
  "dht_results d = (d\<lparr>d_results := []\<rparr>, d_results d)"

subsection \<open>Queries\<close>

definition next_tid :: "dht \<Rightarrow> bytes" where
  "next_tid d = [of_nat (d_next_tid d), of_nat (d_next_tid d div 256)]"

text \<open>What the two functions that send a query share: the datagram is sent, counted, and remembered
  under its transaction identifier.\<close>

definition emit_query :: "endpoint \<Rightarrow> bytes \<Rightarrow> bytes \<Rightarrow> bytes \<Rightarrow> nat \<Rightarrow> dht \<Rightarrow> dht" where
  "emit_query ep message query target clk d =
     (case d_sock d of
        None \<Rightarrow> d
      | Some sk \<Rightarrow>
          d\<lparr>d_sock := Some (sk\<lparr>ds_sent := ds_sent sk @ [(ep, message)]\<rparr>),
            d_pending := (d_pending d)(next_tid d \<mapsto> \<lparr>dq_query = query, dq_target = target, dq_sent = clk\<rparr>),
            d_next_tid := u32 (d_next_tid d + 1),
            d_stats := (d_stats d)\<lparr>queries_sent := u32 (queries_sent (d_stats d) + 1)\<rparr>\<rparr>)"

definition query_message :: "bytes \<Rightarrow> bytes \<Rightarrow> bytes \<Rightarrow> bytes" where
  "query_message args query tid =
     ascii ''d1:ad'' @ args @ ascii ''e1:q'' @ dec_nat (length query) @ ascii '':'' @ query @ ascii ''1:t2:'' @ tid @ ascii ''1:y1:qe''"

definition send_query :: "endpoint \<Rightarrow> bytes \<Rightarrow> bytes \<Rightarrow> nat \<Rightarrow> dht \<Rightarrow> dht" where
  "send_query ep query args clk d = emit_query ep (query_message args query (next_tid d)) query (replicate 20 0) clk d"

definition ping_args :: "bytes \<Rightarrow> bytes" where
  "ping_args my_id = ascii ''2:id20:'' @ my_id"

definition send_ping :: "endpoint \<Rightarrow> nat \<Rightarrow> dht \<Rightarrow> dht" where
  "send_ping ep clk d = send_query ep (ascii ''ping'') (ping_args (d_my_id d)) clk d"

definition get_peers_message :: "bytes \<Rightarrow> bytes \<Rightarrow> bytes \<Rightarrow> bytes" where
  "get_peers_message my_id target tid =
     (let args = ascii ''2:id20:'' @ my_id @ ascii ''9:info_hash20:'' @ target
      in ascii ''d1:ad'' @ args @ ascii ''e1:q9:get_peers1:t2:'' @ tid @ ascii ''1:y1:qe'')"

definition send_get_peers :: "endpoint \<Rightarrow> bytes \<Rightarrow> nat \<Rightarrow> dht \<Rightarrow> dht" where
  "send_get_peers ep target clk d =
     emit_query ep (get_peers_message (d_my_id d) target (next_tid d)) (ascii ''get_peers'') target clk d"

definition bootstrap :: "dht_net \<Rightarrow> nat \<Rightarrow> nat \<Rightarrow> dht \<Rightarrow> dht" where
  "bootstrap net now clk d =
     (let d = d\<lparr>d_last_bootstrap := now\<rparr>
      in if \<not> d_transport d then d
         else
           let entry = kBootstrap ! (d_bootstrap_index d mod length kBootstrap);
               d = d\<lparr>d_bootstrap_index := u64 (d_bootstrap_index d + 1)\<rparr>
           in case net_resolve net (fst entry) of
                None \<Rightarrow> d
              | Some ip \<Rightarrow>
                  if ip = 0 then d
                  else
                    let ep = \<lparr>ipv4 = ip, port = snd entry\<rparr>
                    in fold (\<lambda>(k, s) d. if ds_active s then send_get_peers ep (ds_target s) clk d else d)
                         (d_searches d) (send_ping ep clk d))"

subsection \<open>The table of contacts\<close>

fun oldest_node :: "nat \<Rightarrow> nat \<Rightarrow> nat \<Rightarrow> dnode list \<Rightarrow> nat" where
  "oldest_node best seen i [] = best"
| "oldest_node best seen i (n # ns) =
     (if dn_seen n < seen then oldest_node i (dn_seen n) (Suc i) ns else oldest_node best seen (Suc i) ns)"

fun touch_node :: "endpoint \<Rightarrow> nat \<Rightarrow> dnode list \<Rightarrow> dnode list option" where
  "touch_node ep now [] = None"
| "touch_node ep now (n # ns) =
     (if dn_endpoint n = ep then Some (n\<lparr>dn_seen := now\<rparr> # ns) else map_option ((#) n) (touch_node ep now ns))"

definition remember_node :: "bytes \<Rightarrow> endpoint \<Rightarrow> nat \<Rightarrow> dnode list \<Rightarrow> dnode list" where
  "remember_node nid ep now ns =
     (if \<not> endpoint_valid ep then ns
      else case touch_node ep now ns of
             Some ns' \<Rightarrow> ns'
           | None \<Rightarrow>
               let n = \<lparr>dn_id = nid, dn_endpoint = ep, dn_seen = now\<rparr>
               in if kMaxNodes \<le> length ns then ns[oldest_node 0 (dn_seen (ns ! 0)) 1 (tl ns) := n]
                  else ns @ [n])"

subsection \<open>Replies\<close>

fun value_endpoints :: "bvalue list \<Rightarrow> endpoint list" where
  "value_endpoints [] = []"
| "value_endpoints (v # vs) =
     (case v of
        BStr r s \<Rightarrow> if length s = 6 \<and> endpoint_valid (endpoint_at s) then endpoint_at s # value_endpoints vs
                   else value_endpoints vs
      | _ \<Rightarrow> value_endpoints vs)"

definition add_found :: "bytes \<Rightarrow> endpoint list \<Rightarrow> (bytes \<times> dsearch) list \<Rightarrow> (bytes \<times> dsearch) list" where
  "add_found key eps ss =
     (case map_of ss key of None \<Rightarrow> ss | Some s \<Rightarrow> put_search key (s\<lparr>ds_found := ds_found s @ eps\<rparr>) ss)"

definition take_values :: "dquery \<Rightarrow> bvalue \<Rightarrow> dht \<Rightarrow> dht" where
  "take_values info values d =
     (let found = (case values of BList r l \<Rightarrow> value_endpoints l | _ \<Rightarrow> [])
      in if found = [] then d
         else d\<lparr>d_stats := (d_stats d)\<lparr>peers_returned := u32 (peers_returned (d_stats d) + length found)\<rparr>,
                d_results := d_results d @ [(dq_target info, found)],
                d_searches := add_found (to_hex (dq_target info)) found (d_searches d)\<rparr>)"

definition node_at :: "bytes \<Rightarrow> nat \<Rightarrow> dnode" where
  "node_at p now = \<lparr>dn_id = take 20 p, dn_endpoint = endpoint_at (drop 20 p), dn_seen = now\<rparr>"

definition take_node :: "bytes \<Rightarrow> nat \<Rightarrow> dnode \<Rightarrow> dht \<Rightarrow> dht" where
  "take_node key now n d =
     (if \<not> endpoint_valid (dn_endpoint n) then d
      else d\<lparr>d_stats := (d_stats d)\<lparr>nodes_kept := u32 (nodes_kept (d_stats d) + 1)\<rparr>,
             d_nodes := remember_node (dn_id n) (dn_endpoint n) now (d_nodes d),
             d_searches := (case map_of (d_searches d) key of
                None \<Rightarrow> d_searches d
              | Some s \<Rightarrow> put_search key (s\<lparr>ds_candidates := ds_candidates s @ [n]\<rparr>) (d_searches d))\<rparr>)"

definition take_nodes :: "dquery \<Rightarrow> bytes \<Rightarrow> nat \<Rightarrow> dht \<Rightarrow> dht" where
  "take_nodes info nodes now d =
     (let n = length nodes div 26;
          d = d\<lparr>d_stats := (d_stats d)\<lparr>nodes_returned := u32 (nodes_returned (d_stats d) + n)\<rparr>\<rparr>
      in fold (\<lambda>i. take_node (to_hex (dq_target info)) now (node_at (drop (i * 26) nodes) now)) [0..<n] d)"

definition handle_reply :: "endpoint \<Rightarrow> bvalue \<Rightarrow> dquery \<Rightarrow> nat \<Rightarrow> dht \<Rightarrow> dht" where
  "handle_reply sender root info now d =
     (case find_dict root (ascii ''r'') of
        None \<Rightarrow> d
      | Some body \<Rightarrow>
          let their_id = (case find_str body (ascii ''id'') of None \<Rightarrow> replicate 20 0
                | Some i \<Rightarrow> (case string_to_hash i of None \<Rightarrow> replicate 20 0 | Some i \<Rightarrow> i));
              d = d\<lparr>d_nodes := remember_node their_id sender now (d_nodes d)\<rparr>
          in if dq_query info \<noteq> ascii ''get_peers'' then d
             else
               let d = (case find_key body (ascii ''values'') of None \<Rightarrow> d | Some values \<Rightarrow> take_values info values d)
               in case find_str body (ascii ''nodes'') of None \<Rightarrow> d | Some nodes \<Rightarrow> take_nodes info nodes now d)"

definition handle_datagram :: "endpoint \<Rightarrow> bytes \<Rightarrow> nat \<Rightarrow> dht \<Rightarrow> dht" where
  "handle_datagram sender data now d =
     (case bdecode data of
        Inl e \<Rightarrow> d
      | Inr root \<Rightarrow>
          (case find_str root (ascii ''y'') of
             None \<Rightarrow> d
           | Some type \<Rightarrow>
               if type \<noteq> ascii ''r'' then
                 (if type = ascii ''e'' then d\<lparr>d_stats := (d_stats d)\<lparr>errors_in := u32 (errors_in (d_stats d) + 1)\<rparr>\<rparr> else d)
               else (case find_str root (ascii ''t'') of
                  None \<Rightarrow> d
                | Some t \<Rightarrow>
                    (case d_pending d t of
                       None \<Rightarrow> d\<lparr>d_stats := (d_stats d)\<lparr>replies_unknown_tid := u32 (replies_unknown_tid (d_stats d) + 1)\<rparr>\<rparr>
                     | Some info \<Rightarrow>
                         handle_reply sender root info now
                           (d\<lparr>d_stats := (d_stats d)\<lparr>replies_matched := u32 (replies_matched (d_stats d) + 1)\<rparr>,
                              d_pending := (d_pending d)(t := None)\<rparr>)))))"

text \<open>Up to 32 datagrams by call, each read in a buffer of 2048 bytes.\<close>

fun dht_poll :: "nat \<Rightarrow> nat \<Rightarrow> dht \<Rightarrow> dht" where
  "dht_poll 0 now d = d"
| "dht_poll (Suc n) now d =
     (case d_sock d of
        None \<Rightarrow> d
      | Some sk \<Rightarrow>
          (case ds_rx sk of
             [] \<Rightarrow> d
           | m # ms \<Rightarrow>
               let d = d\<lparr>d_sock := Some (sk\<lparr>ds_rx := ms\<rparr>)\<rparr>
               in case m of
                    None \<Rightarrow> d
                  | Some (sender, data) \<Rightarrow>
                      if data = [] then d
                      else dht_poll n now (handle_datagram sender (take 2048 data) now
                             (d\<lparr>d_stats := (d_stats d)\<lparr>datagrams_in := u32 (datagrams_in (d_stats d) + 1)\<rparr>\<rparr>))))"

definition dht_on_poll :: "bool \<Rightarrow> nat \<Rightarrow> dht \<Rightarrow> dht" where
  "dht_on_poll can_read now d = (if d_sock d = None \<or> \<not> can_read then d else dht_poll 32 now d)"

subsection \<open>A step of a search\<close>

type_synonym sorter = "(dnode \<Rightarrow> dnode \<Rightarrow> bool) \<Rightarrow> dnode list \<Rightarrow> dnode list"

definition closer :: "bytes \<Rightarrow> dnode \<Rightarrow> dnode \<Rightarrow> bool" where
  "closer target a b \<longleftrightarrow> compare_distance (dn_id a) (dn_id b) target < 0"

fun add_known :: "dnode list \<Rightarrow> dnode list \<Rightarrow> dnode list" where
  "add_known [] cs = cs"
| "add_known (n # ns) cs =
     add_known ns (if (\<exists>c \<in> set cs. dn_endpoint c = dn_endpoint n) then cs else cs @ [n])"

fun query_nodes :: "dnode list \<Rightarrow> bytes \<Rightarrow> nat \<Rightarrow> nat \<Rightarrow> 32 word list \<Rightarrow> dht \<Rightarrow> nat \<times> 32 word list \<times> dht" where
  "query_nodes [] target clk sent queried d = (sent, queried, d)"
| "query_nodes (n # ns) target clk sent queried d =
     (if 4 \<le> sent then (sent, queried, d)
      else if ipv4 (dn_endpoint n) \<in> set queried then query_nodes ns target clk sent queried d
      else query_nodes ns target clk (Suc sent) (queried @ [ipv4 (dn_endpoint n)])
             (send_get_peers (dn_endpoint n) target clk d))"

definition step_search :: "sorter \<Rightarrow> dht_net \<Rightarrow> nat \<Rightarrow> nat \<Rightarrow> bytes \<Rightarrow> dsearch \<Rightarrow> dht \<Rightarrow> dht" where
  "step_search srt net now clk key s d =
     (if kMaxQueriedPerSearch \<le> length (ds_queried s) then set_search key (s\<lparr>ds_active := False\<rparr>) d
      else
        let cands = add_known (d_nodes d) (ds_candidates s)
        in if cands = [] then
             (let d = set_search key (s\<lparr>ds_candidates := []\<rparr>) d
              in if kBootstrapRetryMs < sub64 now (d_last_bootstrap d) then bootstrap net now clk d else d)
           else
             let cands = srt (closer (ds_target s)) cands;
                 (sent, queried, d) = query_nodes cands (ds_target s) clk 0 (ds_queried s) d
             in set_search key (s\<lparr>ds_queried := queried, ds_candidates := take 256 cands,
                  ds_active := (ds_active s \<and> sent \<noteq> 0)\<rparr>) d)"

text \<open>One search of the loop of \<open>tick\<close>, then the loop over the keys.\<close>

definition tick_search :: "sorter \<Rightarrow> dht_net \<Rightarrow> nat \<Rightarrow> nat \<Rightarrow> bytes \<Rightarrow> dht \<Rightarrow> dht" where
  "tick_search srt net now clk key d =
     (case map_of (d_searches d) key of
        None \<Rightarrow> d
      | Some s \<Rightarrow>
          if \<not> ds_active s then d
          else if kSearchLifetimeMs < sub64 now (ds_started s) then set_search key (s\<lparr>ds_active := False\<rparr>) d
          else if sub64 now (ds_last_step s) < kSearchStepMs then d
          else
            let s = s\<lparr>ds_last_step := now\<rparr>
            in step_search srt net now clk key s (set_search key s d))"

definition tick_dht :: "sorter \<Rightarrow> dht_net \<Rightarrow> nat \<Rightarrow> nat \<Rightarrow> dht \<Rightarrow> dht" where
  "tick_dht srt net now clk d =
     (if d_sock d = None then (if d_transport d \<and> net_ready net then set_transport (Some net) d else d)
      else
        let d = d\<lparr>d_pending := (\<lambda>t. case d_pending d t of None \<Rightarrow> None
              | Some q \<Rightarrow> if kPendingTimeoutMs < sub64 now (dq_sent q) then None else Some q)\<rparr>;
            d = (if length (d_nodes d) < kMinNodes \<and> kBootstrapRetryMs < sub64 now (d_last_bootstrap d)
                 then bootstrap net now clk d else d)
        in fold (tick_search srt net now clk) (map fst (d_searches d)) d)"

end
