(* ===== verification/DhtSearch.thy ===== *)
theory DhtSearch
  imports Dht "HOL-Library.Multiset"
begin

text \<open>
  The search for peers in the distributed hash table, continued: the properties of the operations
  modelled in \<open>Dht\<close>.
\<close>

subsection \<open>The order of distances\<close>

text \<open>What \<open>std::sort\<close> asks of a comparison, and what it then promises.\<close>

definition strict_weak :: "('a \<Rightarrow> 'a \<Rightarrow> bool) \<Rightarrow> 'a set \<Rightarrow> bool" where
  "strict_weak lt S \<longleftrightarrow> (\<forall>a \<in> S. \<not> lt a a) \<and> (\<forall>a \<in> S. \<forall>b \<in> S. \<forall>c \<in> S. lt a b \<longrightarrow> lt b c \<longrightarrow> lt a c) \<and>
     (\<forall>a \<in> S. \<forall>b \<in> S. \<forall>c \<in> S. \<not> lt a b \<longrightarrow> \<not> lt b c \<longrightarrow> \<not> lt a c)"

definition sorts :: "sorter \<Rightarrow> bool" where
  "sorts srt \<longleftrightarrow> (\<forall>lt ns. strict_weak lt (set ns) \<longrightarrow>
     mset (srt lt ns) = mset ns \<and> sorted_wrt (\<lambda>a b. \<not> lt b a) (srt lt ns))"

lemma strict_weak_mono: "strict_weak lt T \<Longrightarrow> S \<subseteq> T \<Longrightarrow> strict_weak lt S"
  unfolding strict_weak_def by (intro conjI ballI impI) (meson subsetD)+

fun insert_by :: "('a \<Rightarrow> 'a \<Rightarrow> bool) \<Rightarrow> 'a \<Rightarrow> 'a list \<Rightarrow> 'a list" where
  "insert_by lt x [] = [x]"
| "insert_by lt x (y # ys) = (if lt y x then y # insert_by lt x ys else x # y # ys)"

lemma insert_by_mset: "mset (insert_by lt x ys) = add_mset x (mset ys)"
  by (induction ys) auto

lemma insert_by_sorted:
  "strict_weak lt (insert x (set ys)) \<Longrightarrow> sorted_wrt (\<lambda>a b. \<not> lt b a) ys \<Longrightarrow> sorted_wrt (\<lambda>a b. \<not> lt b a) (insert_by lt x ys)"
proof (induction ys)
  case (Cons y ys)
  have w: "strict_weak lt (insert x (set ys))" by (rule strict_weak_mono [OF Cons.prems(1)]) auto
  have s: "set (insert_by lt x ys) = insert x (set ys)" using insert_by_mset [of lt x ys] by (metis set_mset_add_mset_insert set_mset_mset)
  show ?case
  proof (cases "lt y x")
    case True
    then have "\<not> lt x y" using Cons.prems(1) unfolding strict_weak_def by (meson insertCI list.set_intros(1))
    then show ?thesis using True Cons.IH [OF w] Cons.prems(2) s by auto
  next
    case False
    have "\<not> lt z x" if "z \<in> set ys" for z
    proof -
      have "\<not> lt z y" using Cons.prems(2) that by simp
      then show ?thesis using False Cons.prems(1) that unfolding strict_weak_def by (meson insertCI list.set_intros)
    qed
    then show ?thesis using False Cons.prems(2) by simp
  qed
qed simp

lemma insertion_sorts: "sorts (\<lambda>lt ns. foldr (insert_by lt) ns [])"
proof -
  have "strict_weak lt (set ns) \<Longrightarrow> mset (foldr (insert_by lt) ns []) = mset ns \<and>
      sorted_wrt (\<lambda>a b. \<not> lt b a) (foldr (insert_by lt) ns [])" for lt :: "dnode \<Rightarrow> dnode \<Rightarrow> bool" and ns
  proof (induction ns)
    case (Cons n ns)
    have "strict_weak lt (set ns)" by (rule strict_weak_mono [OF Cons.prems]) auto
    moreover from this Cons.IH have "set (foldr (insert_by lt) ns []) = set ns" by (metis set_mset_mset)
    ultimately show ?case using Cons by (simp add: insert_by_mset insert_by_sorted)
  qed simp
  then show ?thesis by (simp add: sorts_def)
qed

text \<open>The comparison is the order of the distances read as lists of bytes.\<close>

lemma compare_distance_less:
  "length a = length t \<Longrightarrow> length b = length t \<Longrightarrow>
     compare_distance a b t < 0 \<longleftrightarrow> map2 (XOR) a t < map2 (XOR) b t"
proof (induction a b t rule: compare_distance.induct)
  case (1 a as b bs t ts)
  then show ?case by (auto simp: Let_def)
qed auto

lemma compare_distance_sym:
  "length a = length t \<Longrightarrow> length b = length t \<Longrightarrow> compare_distance b a t = - compare_distance a b t"
proof (induction a b t rule: compare_distance.induct)
  case (1 a as b bs t ts)
  then show ?case by (auto simp: Let_def)
qed auto

lemma closer_strict_weak:
  assumes "\<forall>n \<in> S. length (dn_id n) = length target"
  shows "strict_weak (closer target) S"
proof -
  let ?k = "\<lambda>n. map2 (XOR) (dn_id n) target"
  have "closer target a b \<longleftrightarrow> ?k a < ?k b" if "a \<in> S" "b \<in> S" for a b
    using that assms compare_distance_less by (simp add: closer_def)
  then show ?thesis unfolding strict_weak_def by (auto simp: not_less)
qed

subsection \<open>The invariant\<close>

definition node_ok :: "dnode \<Rightarrow> bool" where
  "node_ok n \<longleftrightarrow> length (dn_id n) = 20 \<and> endpoint_valid (dn_endpoint n)"

definition nodes_ok :: "dnode list \<Rightarrow> bool" where
  "nodes_ok ns \<longleftrightarrow> length ns \<le> kMaxNodes \<and> distinct (map dn_endpoint ns) \<and> (\<forall>n \<in> set ns. node_ok n)"

definition search_ok :: "bytes \<times> dsearch \<Rightarrow> bool" where
  "search_ok ks \<longleftrightarrow> fst ks = to_hex (ds_target (snd ks)) \<and> length (ds_target (snd ks)) = 20 \<and>
     distinct (ds_queried (snd ks)) \<and> length (ds_queried (snd ks)) < kMaxQueriedPerSearch + 4 \<and>
     (\<forall>n \<in> set (ds_candidates (snd ks)). node_ok n)"

definition searches_ok :: "(bytes \<times> dsearch) list \<Rightarrow> bool" where
  "searches_ok m \<longleftrightarrow> sorted_wrt (<) (map fst m) \<and> (\<forall>ks \<in> set m. search_ok ks)"

definition pending_ok :: "(bytes \<rightharpoonup> dquery) \<Rightarrow> bool" where
  "pending_ok m \<longleftrightarrow> (\<forall>t q. m t = Some q \<longrightarrow> length t = 2 \<and> length (dq_target q) = 20)"

definition results_ok :: "(bytes \<times> endpoint list) list \<Rightarrow> bool" where
  "results_ok rs \<longleftrightarrow> (\<forall>(target, eps) \<in> set rs. length target = 20 \<and> eps \<noteq> [] \<and> (\<forall>e \<in> set eps. endpoint_valid e))"

definition dht_ok :: "dht \<Rightarrow> bool" where
  "dht_ok d \<longleftrightarrow> length (d_my_id d) = 20 \<and> nodes_ok (d_nodes d) \<and> searches_ok (d_searches d) \<and>
     pending_ok (d_pending d) \<and> results_ok (d_results d)"

lemma put_search_set: "ks \<in> set (put_search k s m) \<Longrightarrow> ks = (k, s) \<or> ks \<in> set m"
  by (induction k s m rule: put_search.induct) (auto split: if_splits)

lemma put_search_keys: "set (map fst (put_search k s m)) = insert k (set (map fst m))"
  by (induction k s m rule: put_search.induct) auto

lemma put_search_sorted: "sorted_wrt (<) (map fst m) \<Longrightarrow> sorted_wrt (<) (map fst (put_search k s m))"
proof (induction k s m rule: put_search.induct)
  case (2 k s k' s' m)
  have "\<forall>x \<in> set (map fst (put_search k s m)). k' < x" if "k' < k"
    using put_search_keys [of k s m] that "2.prems" by auto
  moreover have "k' < k" if "\<not> k < k'" "k \<noteq> k'" using that by auto
  ultimately show ?case using 2 by (auto intro: less_trans)
qed simp

lemma map_of_put: "sorted_wrt (<) (map fst m) \<Longrightarrow> map_of (put_search k s m) = (map_of m)(k \<mapsto> s)"
proof (induction k s m rule: put_search.induct)
  case (2 k s k' s' m)
  consider "k < k'" | "k = k'" | "k' < k" by fastforce
  then show ?case
  proof cases
    case 1
    then show ?thesis by auto
  next
    case 2
    then show ?thesis by auto
  next
    case 3
    then show ?thesis using 2 by (auto simp: fun_eq_iff)
  qed
qed (auto simp: fun_eq_iff)

lemma put_search_ok: "searches_ok m \<Longrightarrow> search_ok (k, s) \<Longrightarrow> searches_ok (put_search k s m)"
  using put_search_set [of _ k s m] put_search_sorted [of m k s] by (auto simp: searches_ok_def)

lemma searches_ok_of: "searches_ok m \<Longrightarrow> map_of m k = Some s \<Longrightarrow> search_ok (k, s)"
  by (auto simp: searches_ok_def dest: map_of_SomeD)

lemma dht_ok_search: "dht_ok d \<Longrightarrow> map_of (d_searches d) k = Some s \<Longrightarrow> search_ok (k, s)"
  unfolding dht_ok_def using searches_ok_of by blast

lemma set_search_ok: "dht_ok d \<Longrightarrow> search_ok (k, s) \<Longrightarrow> dht_ok (set_search k s d)"
  by (simp add: dht_ok_def set_search_def put_search_ok)

lemma touch_node_frame:
  "touch_node ep now ns = Some ns' \<Longrightarrow> map dn_endpoint ns' = map dn_endpoint ns \<and> map dn_id ns' = map dn_id ns"
  by (induction ns arbitrary: ns') (auto split: if_splits)

lemma touch_node_None: "touch_node ep now ns = None \<Longrightarrow> ep \<notin> dn_endpoint ` set ns"
  by (induction ns) (auto split: if_splits)

lemma oldest_node_less: "best < n \<Longrightarrow> i + length ns \<le> n \<Longrightarrow> oldest_node best seen i ns < n"
  by (induction best seen i ns rule: oldest_node.induct) auto

lemma node_ok_frame: "map dn_endpoint ns' = map dn_endpoint ns \<Longrightarrow> map dn_id ns' = map dn_id ns \<Longrightarrow>
    (\<forall>n \<in> set ns. node_ok n) \<Longrightarrow> (\<forall>n \<in> set ns'. node_ok n)"
proof -
  assume a: "map dn_endpoint ns' = map dn_endpoint ns" "map dn_id ns' = map dn_id ns" "\<forall>n \<in> set ns. node_ok n"
  then have len: "length ns' = length ns" by (metis length_map)
  have "node_ok (ns' ! i)" if "i < length ns'" for i
  proof -
    have "dn_endpoint (ns' ! i) = dn_endpoint (ns ! i)" "dn_id (ns' ! i) = dn_id (ns ! i)"
      using a(1,2) that len by (metis nth_map)+
    then show ?thesis using a(3) that len by (simp add: node_ok_def)
  qed
  then show ?thesis by (metis in_set_conv_nth)
qed

lemma remember_node_ok:
  assumes "nodes_ok ns" "length nid = 20"
  shows "nodes_ok (remember_node nid ep now ns)"
proof (cases "endpoint_valid ep")
  case valid: True
  show ?thesis
  proof (cases "touch_node ep now ns")
    case None
    let ?n = "\<lparr>dn_id = nid, dn_endpoint = ep, dn_seen = now\<rparr>" and ?i = "oldest_node 0 (dn_seen (ns ! 0)) 1 (tl ns)"
    have n: "node_ok ?n" using valid assms(2) by (simp add: node_ok_def)
    note fresh = touch_node_None [OF None]
    show ?thesis
    proof (cases "kMaxNodes \<le> length ns")
      case True
      then have "0 < length ns" by (cases ns) (simp_all add: kMaxNodes_def)
      then have i: "?i < length ns" by (intro oldest_node_less) simp_all
      have "distinct ((map dn_endpoint ns)[?i := ep])" using assms(1) fresh
        by (intro distinct_list_update) (auto simp: nodes_ok_def)
      moreover have "\<forall>m \<in> set (ns[?i := ?n]). node_ok m"
        using n assms(1) set_update_subset_insert [of ns ?i ?n] by (auto simp: nodes_ok_def)
      ultimately show ?thesis using valid None True assms(1)
        by (simp add: remember_node_def nodes_ok_def Let_def map_update)
    next
      case False
      then show ?thesis using valid None n assms(1) fresh by (auto simp: remember_node_def nodes_ok_def Let_def)
    qed
  next
    case (Some ns')
    note f = touch_node_frame [OF Some]
    then have "length ns' = length ns" by (metis length_map)
    moreover have "\<forall>n \<in> set ns'. node_ok n" using node_ok_frame [of ns' ns] f assms(1) by (simp add: nodes_ok_def)
    ultimately show ?thesis using valid Some f assms(1) by (simp add: remember_node_def nodes_ok_def)
  qed
qed (simp add: remember_node_def assms)

lemma nodes_update_ok: "dht_ok d \<Longrightarrow> length nid = 20 \<Longrightarrow> dht_ok (d\<lparr>d_nodes := remember_node nid ep now (d_nodes d)\<rparr>)"
  by (simp add: dht_ok_def remember_node_ok)

lemma frame_ok: "dht_ok d \<Longrightarrow> dht_ok (d\<lparr>d_stats := st\<rparr>)" "dht_ok d \<Longrightarrow> dht_ok (d\<lparr>d_sock := sk\<rparr>)"
  "dht_ok d \<Longrightarrow> dht_ok (d\<lparr>d_last_bootstrap := n\<rparr>)" "dht_ok d \<Longrightarrow> dht_ok (d\<lparr>d_bootstrap_index := n\<rparr>)"
  by (simp_all add: dht_ok_def)

subsection \<open>Sending\<close>

lemma emit_frame [simp]:
  "d_searches (emit_query ep m q t clk d) = d_searches d" "d_nodes (emit_query ep m q t clk d) = d_nodes d"
  "d_results (emit_query ep m q t clk d) = d_results d" "d_my_id (emit_query ep m q t clk d) = d_my_id d"
  "d_last_bootstrap (emit_query ep m q t clk d) = d_last_bootstrap d"
  by (simp_all add: emit_query_def split: option.split)

lemma emit_ok: "dht_ok d \<Longrightarrow> length t = 20 \<Longrightarrow> dht_ok (emit_query ep m q t clk d)"
  by (auto simp: dht_ok_def pending_ok_def emit_query_def next_tid_def split: option.split)

lemma get_peers_frame [simp]:
  "d_searches (send_get_peers ep t clk d) = d_searches d" "d_nodes (send_get_peers ep t clk d) = d_nodes d"
  by (simp_all add: send_get_peers_def)

lemma send_get_peers_ok: "dht_ok d \<Longrightarrow> length t = 20 \<Longrightarrow> dht_ok (send_get_peers ep t clk d)"
  by (simp add: send_get_peers_def emit_ok)

lemma send_ping_ok: "dht_ok d \<Longrightarrow> dht_ok (send_ping ep clk d)"
  by (simp add: send_ping_def send_query_def emit_ok)

lemma query_all_ok:
  "dht_ok d \<Longrightarrow> (\<forall>ks \<in> set m. search_ok ks) \<Longrightarrow>
     dht_ok (fold (\<lambda>(k, s) d. if ds_active s then send_get_peers ep (ds_target s) clk d else d) m d) \<and>
     d_searches (fold (\<lambda>(k, s) d. if ds_active s then send_get_peers ep (ds_target s) clk d else d) m d) = d_searches d"
proof (induction m arbitrary: d)
  case (Cons ks m)
  obtain k s where ks: "ks = (k, s)" by (cases ks)
  let ?d = "if ds_active s then send_get_peers ep (ds_target s) clk d else d"
  have "dht_ok ?d" "d_searches ?d = d_searches d" using Cons.prems ks send_get_peers_ok by (simp_all add: search_ok_def)
  then show ?case using Cons.IH [of ?d] Cons.prems ks by simp
qed simp

lemma bootstrap_ok: "dht_ok d \<Longrightarrow> dht_ok (bootstrap net now clk d) \<and> d_searches (bootstrap net now clk d) = d_searches d"
proof -
  assume d: "dht_ok d"
  let ?d = "d\<lparr>d_last_bootstrap := now, d_bootstrap_index := u64 (d_bootstrap_index d + 1)\<rparr>"
  have o: "dht_ok ?d" "dht_ok (d\<lparr>d_last_bootstrap := now\<rparr>)" using d by (simp_all add: dht_ok_def)
  have m: "\<forall>ks \<in> set (d_searches d). search_ok ks" using d by (simp add: dht_ok_def searches_ok_def)
  have p: "d_searches (send_ping ep clk ?d) = d_searches d" for ep by (simp add: send_ping_def send_query_def)
  show ?thesis
    using o query_all_ok [OF send_ping_ok [OF o(1)] m] p by (auto simp: bootstrap_def Let_def split: option.split)
qed

subsection \<open>Replies\<close>

lemma value_endpoints_valid: "\<forall>e \<in> set (value_endpoints vs). endpoint_valid e"
  by (induction vs) (auto split: bvalue.split)

lemma take_values_ok: "dht_ok d \<Longrightarrow> length (dq_target info) = 20 \<Longrightarrow> dht_ok (take_values info values d)"
proof -
  assume a: "dht_ok d" "length (dq_target info) = 20"
  have "searches_ok (add_found k eps (d_searches d))" for k eps
  proof (cases "map_of (d_searches d) k")
    case (Some s)
    moreover from Some a have "search_ok (k, s)" using dht_ok_search by blast
    ultimately show ?thesis using a by (simp add: add_found_def dht_ok_def put_search_ok search_ok_def)
  qed (use a in \<open>simp add: add_found_def dht_ok_def\<close>)
  moreover have "\<forall>e \<in> set (case values of BList r l \<Rightarrow> value_endpoints l | _ \<Rightarrow> []). endpoint_valid e"
    by (cases "values") (simp_all add: value_endpoints_valid)
  ultimately show ?thesis using a by (simp add: take_values_def Let_def dht_ok_def results_ok_def)
qed

lemma take_node_ok: "dht_ok d \<Longrightarrow> length (dn_id n) = 20 \<Longrightarrow> dht_ok (take_node key now n d)"
proof -
  assume a: "dht_ok d" "length (dn_id n) = 20"
  show ?thesis
  proof (cases "endpoint_valid (dn_endpoint n)")
    case True
    then have n: "node_ok n" using a by (simp add: node_ok_def)
    have "searches_ok (case map_of (d_searches d) key of None \<Rightarrow> d_searches d
        | Some s \<Rightarrow> put_search key (s\<lparr>ds_candidates := ds_candidates s @ [n]\<rparr>) (d_searches d))"
    proof (cases "map_of (d_searches d) key")
      case (Some s)
      moreover from Some a have "search_ok (key, s)" using dht_ok_search by blast
      ultimately show ?thesis using a n by (auto simp: dht_ok_def search_ok_def intro!: put_search_ok)
    qed (use a in \<open>simp add: dht_ok_def\<close>)
    then show ?thesis using a True remember_node_ok by (simp add: take_node_def dht_ok_def)
  qed (use a in \<open>simp add: take_node_def\<close>)
qed

lemma take_nodes_ok: "dht_ok d \<Longrightarrow> dht_ok (take_nodes info nodes now d)"
proof -
  have "dht_ok d \<Longrightarrow> (\<forall>i \<in> set js. i < length nodes div 26) \<Longrightarrow>
      dht_ok (fold (\<lambda>i. take_node key now (node_at (drop (i * 26) nodes) now)) js d)" for js key d
  proof (induction js arbitrary: d)
    case (Cons i js)
    have "Suc i \<le> length nodes div 26" using Cons.prems(2) by (simp add: Suc_le_eq)
    then have "Suc i * 26 \<le> length nodes" by (metis div_times_less_eq_dividend le_trans mult_le_mono1)
    then have "length (dn_id (node_at (drop (i * 26) nodes) now)) = 20" by (simp add: node_at_def)
    then show ?case using Cons take_node_ok by simp
  qed simp
  then show "dht_ok d \<Longrightarrow> dht_ok (take_nodes info nodes now d)" by (simp add: take_nodes_def Let_def frame_ok)
qed

lemma handle_reply_ok: "dht_ok d \<Longrightarrow> length (dq_target info) = 20 \<Longrightarrow> dht_ok (handle_reply sender root info now d)"
proof -
  assume a: "dht_ok d" "length (dq_target info) = 20"
  have "dht_ok (d\<lparr>d_nodes := remember_node (case i of None \<Rightarrow> replicate 20 0
      | Some i \<Rightarrow> case string_to_hash i of None \<Rightarrow> replicate 20 0 | Some i \<Rightarrow> i) sender now (d_nodes d)\<rparr>)" for i
    using a(1) by (intro nodes_update_ok) (auto simp: string_to_hash_def split: option.split)
  then show ?thesis
    using a take_values_ok take_nodes_ok by (simp add: handle_reply_def Let_def split: option.split)
qed

lemma handle_datagram_ok: "dht_ok d \<Longrightarrow> dht_ok (handle_datagram sender data now d)"
proof -
  assume a: "dht_ok d"
  have "dht_ok (d\<lparr>d_stats := st, d_pending := (d_pending d)(t := None)\<rparr>) \<and> length (dq_target info) = 20"
    if "d_pending d t = Some info" for st t info
    using a that by (auto simp: dht_ok_def pending_ok_def)
  then show ?thesis
    using a handle_reply_ok by (auto simp: handle_datagram_def frame_ok split: sum.split option.split)
qed

lemma dht_poll_ok: "dht_ok d \<Longrightarrow> dht_ok (dht_poll n now d)"
proof (induction n arbitrary: d)
  case (Suc n)
  have "dht_ok (d\<lparr>d_sock := sk, d_stats := st\<rparr>)" "dht_ok (d\<lparr>d_sock := sk\<rparr>)" for sk st
    using Suc.prems by (simp_all add: dht_ok_def)
  then show ?case
    using Suc handle_datagram_ok by (simp add: Let_def split: option.split list.split)
qed simp

subsection \<open>Steps of a search\<close>

lemma add_known_set: "set (add_known ns cs) \<subseteq> set ns \<union> set cs \<and> set cs \<subseteq> set (add_known ns cs)"
  by (induction ns cs rule: add_known.induct) (auto split: if_splits)

lemma add_known_Nil: "add_known ns cs = [] \<Longrightarrow> cs = []"
  using add_known_set [of ns cs] by auto

lemma query_nodes_ok:
  "query_nodes ns target clk sent queried d = (sent', queried', d') \<Longrightarrow> dht_ok d \<Longrightarrow> length target = 20 \<Longrightarrow>
     distinct queried \<Longrightarrow> sent \<le> 4 \<Longrightarrow>
     dht_ok d' \<and> d_searches d' = d_searches d \<and> distinct queried' \<and> sent' \<le> 4 \<and> length queried' + sent = length queried + sent'"
proof (induction ns target clk sent queried d rule: query_nodes.induct)
  case (2 n ns target clk sent queried d)
  consider "4 \<le> sent" | "sent < 4" "ipv4 (dn_endpoint n) \<in> set queried" | "sent < 4" "ipv4 (dn_endpoint n) \<notin> set queried"
    by linarith
  then show ?case
  proof cases
    case 1
    then show ?thesis using 2 by simp
  next
    case 2
    then show ?thesis using "2.IH"(1) "2.prems" by simp
  next
    case 3
    let ?d = "send_get_peers (dn_endpoint n) target clk d"
    have "dht_ok d' \<and> d_searches d' = d_searches ?d \<and> distinct queried' \<and> sent' \<le> 4 \<and>
        length queried' + Suc sent = length (queried @ [ipv4 (dn_endpoint n)]) + sent'"
      using 3 "2.IH"(2) [OF _ 3(2)] "2.prems" send_get_peers_ok [of d target] by simp
    then show ?thesis by simp
  qed
qed simp

lemma sorts_closer:
  assumes "sorts srt" "\<forall>n \<in> set ns. node_ok n" "length target = 20"
  shows "mset (srt (closer target) ns) = mset ns" "set (srt (closer target) ns) = set ns"
    "sorted_wrt (\<lambda>a b. \<not> closer target b a) (srt (closer target) ns)"
proof -
  have "strict_weak (closer target) (set ns)" using assms(2,3) by (intro closer_strict_weak) (simp add: node_ok_def)
  then show "mset (srt (closer target) ns) = mset ns" "sorted_wrt (\<lambda>a b. \<not> closer target b a) (srt (closer target) ns)"
    using assms(1) by (simp_all add: sorts_def)
  then show "set (srt (closer target) ns) = set ns" by (metis set_mset_mset)
qed

lemma step_search_ok:
  assumes "sorts srt" "dht_ok d" "search_ok (key, s)"
  shows "dht_ok (step_search srt net now clk key s d)"
proof -
  let ?cs = "add_known (d_nodes d) (ds_candidates s)"
  have t: "length (ds_target s) = 20" using assms(3) by (simp add: search_ok_def)
  have cs: "\<forall>n \<in> set ?cs. node_ok n"
    using add_known_set [of "d_nodes d" "ds_candidates s"] assms(2,3) by (auto simp: dht_ok_def nodes_ok_def search_ok_def)
  consider "kMaxQueriedPerSearch \<le> length (ds_queried s)" | "length (ds_queried s) < kMaxQueriedPerSearch" "?cs = []"
    | "length (ds_queried s) < kMaxQueriedPerSearch" "?cs \<noteq> []" by linarith
  then show ?thesis
  proof cases
    case 1
    then show ?thesis using assms(2,3) by (simp add: step_search_def set_search_ok search_ok_def)
  next
    case 2
    have "dht_ok (set_search key (s\<lparr>ds_candidates := []\<rparr>) d)"
      using assms(2,3) by (simp add: set_search_ok search_ok_def)
    then show ?thesis using 2 bootstrap_ok by (simp add: step_search_def Let_def)
  next
    case 3
    let ?sorted = "srt (closer (ds_target s)) ?cs"
    obtain sent queried d' where q: "query_nodes ?sorted (ds_target s) clk 0 (ds_queried s) d = (sent, queried, d')"
      using prod_cases3 by blast
    have "dht_ok d' \<and> distinct queried \<and> length queried \<le> length (ds_queried s) + 4"
      using query_nodes_ok [OF q assms(2) t] assms(3) by (simp add: search_ok_def)
    moreover have "\<forall>n \<in> set (take 256 ?sorted). node_ok n"
      using cs sorts_closer(2) [OF assms(1) cs t] by (auto dest: in_set_takeD)
    ultimately show ?thesis using 3 q assms(3) by (auto simp: step_search_def Let_def search_ok_def intro!: set_search_ok)
  qed
qed

lemma tick_search_ok:
  assumes "sorts srt" "dht_ok d"
  shows "dht_ok (tick_search srt net now clk key d)"
proof (cases "map_of (d_searches d) key")
  case (Some s)
  then have "search_ok (key, s)" using dht_ok_search assms(2) by blast
  then have "search_ok (key, s\<lparr>ds_active := False\<rparr>)" "search_ok (key, s\<lparr>ds_last_step := now\<rparr>)"
    by (simp_all add: search_ok_def)
  then show ?thesis
    using Some assms by (simp add: tick_search_def Let_def set_search_ok step_search_ok)
qed (simp add: tick_search_def assms)

lemma set_transport_ok: "dht_ok d \<Longrightarrow> dht_ok (set_transport transport d)"
proof -
  assume d: "dht_ok d"
  let ?m = "map (\<lambda>(k, s). (k, s\<lparr>ds_queried := [], ds_candidates := []\<rparr>)) (d_searches d)"
  have "searches_ok ?m"
    using d by (auto simp: dht_ok_def searches_ok_def search_ok_def kMaxQueriedPerSearch_def comp_def case_prod_unfold)
  then show ?thesis
    using d by (auto simp: set_transport_def Let_def dht_ok_def nodes_ok_def pending_ok_def split: option.split)
qed

lemma find_peers_ok:
  assumes "dht_ok d" "length hash = 20"
  shows "dht_ok (find_peers hash clk d)"
proof -
  define s where "s = (case map_of (d_searches d) (to_hex hash) of None \<Rightarrow> new_search | Some s \<Rightarrow> s)"
  have e: "find_peers hash clk d = (if ds_active s \<and> ds_target s = hash then set_search (to_hex hash) s d
      else set_search (to_hex hash) (s\<lparr>ds_target := hash, ds_started := clk, ds_last_step := 0, ds_queried := [],
        ds_candidates := [], ds_active := True\<rparr>) d)"
    unfolding find_peers_def Let_def s_def ..
  have "search_ok (to_hex hash, s)" if "ds_active s"
    using that dht_ok_search [OF assms(1), of "to_hex hash"] by (simp add: s_def new_search_def split: option.splits)
  moreover have "search_ok (to_hex hash, s\<lparr>ds_target := hash, ds_started := clk, ds_last_step := 0, ds_queried := [],
        ds_candidates := [], ds_active := True\<rparr>)"
    using assms(2) by (simp add: search_ok_def kMaxQueriedPerSearch_def)
  ultimately show ?thesis using assms(1) unfolding e by (simp add: set_search_ok)
qed

lemma tick_dht_ok:
  assumes "sorts srt" "dht_ok d"
  shows "dht_ok (tick_dht srt net now clk d)"
proof -
  have f: "dht_ok e \<Longrightarrow> dht_ok (fold (tick_search srt net now clk) ks e)" for ks e
    by (induction ks arbitrary: e) (simp_all add: tick_search_ok [OF assms(1)])
  let ?d = "d\<lparr>d_pending := (\<lambda>t. case d_pending d t of None \<Rightarrow> None
      | Some q \<Rightarrow> if kPendingTimeoutMs < sub64 now (dq_sent q) then None else Some q)\<rparr>"
  have "dht_ok ?d" using assms(2) by (auto simp: dht_ok_def pending_ok_def split: option.splits if_splits)
  then show ?thesis
    using f bootstrap_ok [of ?d] set_transport_ok assms(2) by (simp add: tick_dht_def Let_def)
qed

text \<open>The calls the session makes, in any order, with any answers of the network.\<close>

inductive dht_step :: "dht \<Rightarrow> dht \<Rightarrow> bool" where
  transport: "dht_step d (set_transport transport d)"
| find: "length hash = 20 \<Longrightarrow> dht_step d (find_peers hash clk d)"
| forget: "dht_step d (forget_search hash d)"
| poll: "dht_step d (dht_on_poll can_read now d)"
| tick: "sorts srt \<Longrightarrow> dht_step d (tick_dht srt net now clk d)"
| results: "dht_results d = (d', rs) \<Longrightarrow> dht_step d d'"

lemma dht_step_ok: "dht_step d d' \<Longrightarrow> dht_ok d \<Longrightarrow> dht_ok d'"
proof (induction rule: dht_step.induct)
  case (forget d hash)
  have "sorted_wrt (<) (map fst (filter (\<lambda>(k, s). k \<noteq> to_hex hash) (d_searches d)))"
    using forget by (auto simp: dht_ok_def searches_ok_def sorted_wrt_map sorted_wrt_filter)
  then show ?case using forget by (simp add: dht_ok_def forget_search_def searches_ok_def)
next
  case (results d d' rs)
  then show ?case by (auto simp: dht_results_def dht_ok_def results_ok_def)
qed (simp_all add: set_transport_ok find_peers_ok dht_on_poll_def dht_poll_ok tick_dht_ok)

lemma dht_reach_ok: "dht_step\<^sup>*\<^sup>* d d' \<Longrightarrow> dht_ok d \<Longrightarrow> dht_ok d'"
  by (induction rule: rtranclp_induct) (auto intro: dht_step_ok)

lemma new_dht_ok: "length rid = 20 \<Longrightarrow> dht_ok (new_dht rid)"
  by (simp add: dht_ok_def new_dht_def nodes_ok_def searches_ok_def pending_ok_def results_ok_def)

text \<open>C36: in every state the calls of the session can lead to, whatever the network answers: at most 400
  contacts, of distinct and valid addresses; each search is filed under the hash it is for and has
  queried each address at most once and at most 123 of them, so that it ends; the peers reported are
  valid addresses.\<close>

theorem dht_limits:
  assumes "dht_step\<^sup>*\<^sup>* (new_dht rid) d" "length rid = 20"
  shows "length (d_nodes d) \<le> 400 \<and> distinct (map dn_endpoint (d_nodes d)) \<and>
    list_all (\<lambda>n. endpoint_valid (dn_endpoint n)) (d_nodes d) \<and> distinct (map fst (d_searches d)) \<and>
    list_all (\<lambda>(key, s). key = to_hex (ds_target s) \<and> distinct (ds_queried s) \<and> length (ds_queried s) \<le> 123) (d_searches d) \<and>
    list_all (\<lambda>(target, eps). eps \<noteq> [] \<and> list_all endpoint_valid eps) (d_results d)"
proof -
  have d: "dht_ok d" using dht_reach_ok [OF assms(1) new_dht_ok [OF assms(2)]] .
  have "distinct (map fst (d_searches d))"
    using d by (simp add: dht_ok_def searches_ok_def strict_sorted_iff)
  then show ?thesis
    using d unfolding dht_ok_def nodes_ok_def searches_ok_def results_ok_def node_ok_def search_ok_def
    by (auto simp: list_all_iff kMaxNodes_def kMaxQueriedPerSearch_def)
qed

theorem dht_limits_witness:
  "\<exists>d. dht_step\<^sup>*\<^sup>* (new_dht (replicate 20 7)) d \<and> length (d_searches d) = 1 \<and> distinct (map fst (d_searches d)) \<and>
     length (d_nodes d) \<le> 400"
proof -
  let ?d = "find_peers (replicate 20 1) 5 (new_dht (replicate 20 7))"
  have r: "dht_step\<^sup>*\<^sup>* (new_dht (replicate 20 7)) ?d" by (rule r_into_rtranclp) (rule dht_step.find, simp)
  have "length (d_searches ?d) = 1"
    by (simp add: find_peers_def new_dht_def Let_def set_search_def new_search_def)
  then show ?thesis using dht_limits [OF r] r by (intro exI [of _ ?d]) simp
qed

subsection \<open>Answers count once\<close>

text \<open>What a datagram can change besides the counters and the queries awaiting an answer.\<close>

definition knowledge :: "dht \<Rightarrow> dnode list \<times> (bytes \<times> dsearch) list \<times> (bytes \<times> endpoint list) list" where
  "knowledge d = (d_nodes d, d_searches d, d_results d)"

definition reply_tid :: "bytes \<Rightarrow> bytes option" where
  "reply_tid data = (case bdecode data of Inl e \<Rightarrow> None
     | Inr root \<Rightarrow> if find_str root (ascii ''y'') = Some (ascii ''r'') then find_str root (ascii ''t'') else None)"

lemma datagram_unmatched:
  "(\<forall>t. reply_tid data = Some t \<longrightarrow> d_pending d t = None) \<Longrightarrow>
     knowledge (handle_datagram sender data now d) = knowledge d \<and> d_pending (handle_datagram sender data now d) = d_pending d"
  by (auto simp: reply_tid_def handle_datagram_def knowledge_def split: sum.splits option.splits if_splits)

lemma take_node_frame:
  "d_pending (fold (\<lambda>i. take_node key now (node_at (drop (i * 26) nodes) now)) js d) = d_pending d"
  "d_results (fold (\<lambda>i. take_node key now (node_at (drop (i * 26) nodes) now)) js d) = d_results d"
  by (induction js arbitrary: d) (simp_all add: take_node_def)

lemma take_frame:
  "d_pending (take_values info v d) = d_pending d" "d_pending (take_nodes info nodes now d) = d_pending d"
  "d_results (take_nodes info nodes now d) = d_results d"
  by (simp_all add: take_values_def take_nodes_def Let_def take_node_frame)

lemma datagram_matched:
  assumes "reply_tid data = Some t" "d_pending d t = Some info"
  shows "\<exists>root st. handle_datagram sender data now d =
    handle_reply sender root info now (d\<lparr>d_stats := st, d_pending := (d_pending d)(t := None)\<rparr>)"
proof -
  obtain root where r: "bdecode data = Inr root" "find_str root (ascii ''y'') = Some (ascii ''r'')" "find_str root (ascii ''t'') = Some t"
    using assms(1) by (auto simp: reply_tid_def split: sum.splits if_splits)
  then have "handle_datagram sender data now d = handle_reply sender root info now
      (d\<lparr>d_stats := (d_stats d)\<lparr>replies_matched := u32 (replies_matched (d_stats d) + 1)\<rparr>, d_pending := (d_pending d)(t := None)\<rparr>)"
    using assms(2) by (simp add: handle_datagram_def)
  then show ?thesis by blast
qed

lemma reply_pending: "d_pending (handle_reply sender root info now d) = d_pending d"
  by (simp add: handle_reply_def Let_def take_frame split: option.split)

lemma reply_results:
  "d_results (handle_reply sender root info now d) = d_results d \<or>
   (\<exists>eps. dq_query info = ascii ''get_peers'' \<and> eps \<noteq> [] \<and> (\<forall>e \<in> set eps. endpoint_valid e) \<and>
      d_results (handle_reply sender root info now d) = d_results d @ [(dq_target info, eps)])"
proof -
  have v: "d_results (take_values info v e) = d_results e \<or>
    (\<exists>eps. eps \<noteq> [] \<and> (\<forall>e \<in> set eps. endpoint_valid e) \<and> d_results (take_values info v e) = d_results e @ [(dq_target info, eps)])" for v e
    by (cases v) (auto simp: take_values_def Let_def value_endpoints_valid)
  have n: "d_results (case x of None \<Rightarrow> e | Some nodes \<Rightarrow> take_nodes info nodes now e) = d_results e" for x e
    by (simp add: take_frame split: option.split)
  show ?thesis
  proof (cases "find_dict root (ascii ''r'')")
    case (Some body)
    let ?e = "d\<lparr>d_nodes := remember_node (case find_str body (ascii ''id'') of None \<Rightarrow> replicate 20 0
      | Some i \<Rightarrow> (case string_to_hash i of None \<Rightarrow> replicate 20 0 | Some i \<Rightarrow> i)) sender now (d_nodes d)\<rparr>"
    show ?thesis
    proof (cases "dq_query info = ascii ''get_peers''")
      case True
      then have "d_results (handle_reply sender root info now d) =
          d_results (case find_key body (ascii ''values'') of None \<Rightarrow> ?e | Some values \<Rightarrow> take_values info values ?e)"
        using Some unfolding handle_reply_def Let_def by (simp add: n)
      then show ?thesis using v [of _ ?e] True by (cases "find_key body (ascii ''values'')") auto
    next
      case False
      then show ?thesis using Some by (simp add: handle_reply_def Let_def)
    qed
  qed (simp add: handle_reply_def)
qed

text \<open>C37: a datagram has an effect beyond the counters only when it answers, by its transaction identifier,
  a query of ours still waiting, and then only once: received again, from the same sender or another,
  it changes neither the contacts nor the searches nor the results.  The peers it reports are valid
  addresses, filed under the target of the query it answers.\<close>

theorem replies_count_once:
  "knowledge (handle_datagram sender2 data now2 (handle_datagram sender data now d)) =
     knowledge (handle_datagram sender data now d) \<and>
   ((\<exists>t q. reply_tid data = Some t \<and> d_pending d t = Some q \<and> d_pending (handle_datagram sender data now d) t = None \<and>
       (d_results (handle_datagram sender data now d) = d_results d \<or>
        (\<exists>eps. dq_query q = ascii ''get_peers'' \<and> eps \<noteq> [] \<and> list_all endpoint_valid eps \<and>
           d_results (handle_datagram sender data now d) = d_results d @ [(dq_target q, eps)])))
    \<or> knowledge (handle_datagram sender data now d) = knowledge d)"
proof (cases "\<exists>t q. reply_tid data = Some t \<and> d_pending d t = Some q")
  case True
  then obtain t q where t: "reply_tid data = Some t" "d_pending d t = Some q" by blast
  from datagram_matched [OF this, of sender now] obtain root st where
    h: "handle_datagram sender data now d = handle_reply sender root q now (d\<lparr>d_stats := st, d_pending := (d_pending d)(t := None)\<rparr>)"
    by blast
  have p: "d_pending (handle_datagram sender data now d) t = None" unfolding h reply_pending by simp
  then have "knowledge (handle_datagram sender2 data now2 (handle_datagram sender data now d)) =
     knowledge (handle_datagram sender data now d)"
    using datagram_unmatched [of data "handle_datagram sender data now d"] t(1) by simp
  moreover have "d_results (handle_datagram sender data now d) = d_results d \<or>
      (\<exists>eps. dq_query q = ascii ''get_peers'' \<and> eps \<noteq> [] \<and> list_all endpoint_valid eps \<and>
         d_results (handle_datagram sender data now d) = d_results d @ [(dq_target q, eps)])"
    using reply_results [of sender root q now "d\<lparr>d_stats := st, d_pending := (d_pending d)(t := None)\<rparr>"]
    unfolding h by (simp add: list_all_iff)
  ultimately show ?thesis using t p by blast
next
  case False
  then have u: "\<forall>t. reply_tid data = Some t \<longrightarrow> d_pending d t = None" by auto
  note a = datagram_unmatched [OF u, of sender now]
  have "\<forall>t. reply_tid data = Some t \<longrightarrow> d_pending (handle_datagram sender data now d) t = None" using u a by simp
  from datagram_unmatched [OF this, of sender2 now2] a show ?thesis by simp
qed

subsection \<open>Queries are canonical bencode\<close>

lemma find_erase: "find_str (erase v) k = find_str v k" "find_dict (erase v) k = map_option erase (find_dict v k)"
proof -
  have m: "map_of (map (\<lambda>(k, v). (k, erase v)) d) k = map_option erase (map_of d k)" for d
    by (induction d) auto
  have k: "find_key (erase v) k = map_option erase (find_key v k)" by (cases v) (simp_all add: find_key_def m)
  show "find_str (erase v) k = find_str v k"
  proof (cases "find_key v k")
    case (Some w)
    then show ?thesis using k by (cases w) (simp_all add: find_str_def)
  qed (simp add: find_str_def k)
  show "find_dict (erase v) k = map_option erase (find_dict v k)"
  proof (cases "find_key v k")
    case (Some w)
    then show ?thesis using k by (cases w) (simp_all add: find_dict_def is_dict_def)
  qed (simp add: find_dict_def k)
qed

lemma dec_small: "dec_nat 20 = ascii ''20''" "dec_nat 2 = ascii ''2''" "dec_nat (Suc 0) = ascii ''1''" "dec_nat 9 = ascii ''9''"
  "dec_nat 4 = ascii ''4''"
  by (code_simp, code_simp, code_simp, code_simp, code_simp)

definition query_value :: "(bytes \<times> bvalue) list \<Rightarrow> bytes \<Rightarrow> bytes \<Rightarrow> bvalue" where
  "query_value args query tid = BDict (0, 0) [(ascii ''a'', BDict (0, 0) args), (ascii ''q'', BStr (0, 0) query),
     (ascii ''t'', BStr (0, 0) tid), (ascii ''y'', BStr (0, 0) (ascii ''q''))]"

lemma query_decodes:
  assumes "bwf (query_value args query tid)" "nesting (query_value args query tid) \<le> kMaxDepth"
    and "m = bencode (query_value args query tid)"
  shows "\<exists>v a. bdecode m = Inr v \<and> find_str v (ascii ''y'') = Some (ascii ''q'') \<and> find_str v (ascii ''q'') = Some query \<and>
    find_str v (ascii ''t'') = Some tid \<and> find_dict v (ascii ''a'') = Some a \<and>
    (\<forall>k. find_str a k = find_str (BDict (0, 0) args) k)"
proof -
  obtain v where v: "bdecode m = Inr v" "erase v = erase (query_value args query tid)"
    using bdecode_bencode_append [OF assms(1,2), of "[]"] assms(3) by auto
  have f: "find_str v k = find_str (query_value args query tid) k" for k using v(2) find_erase(1) by metis
  have "map_option erase (find_dict v (ascii ''a'')) = map_option erase (find_dict (query_value args query tid) (ascii ''a''))"
    using v(2) find_erase(2) by metis
  also have "find_dict (query_value args query tid) (ascii ''a'') = Some (BDict (0, 0) args)"
    by (simp add: query_value_def find_dict_def find_key_def is_dict_def)
  finally obtain a where a: "find_dict v (ascii ''a'') = Some a" "erase a = erase (BDict (0, 0) args)" by auto
  then have "find_str a k = find_str (BDict (0, 0) args) k" for k using find_erase(1) by metis
  moreover have "find_str v (ascii ''y'') = Some (ascii ''q'')" "find_str v (ascii ''q'') = Some query" "find_str v (ascii ''t'') = Some tid"
    unfolding f by (simp_all add: query_value_def find_str_def find_key_def)
  ultimately show ?thesis using v(1) a(1) by blast
qed

lemma messages_bencode:
  assumes "length my_id = 20" "length target = 20" "length tid = 2"
  shows "get_peers_message my_id target tid =
      bencode (query_value [(ascii ''id'', BStr (0, 0) my_id), (ascii ''info_hash'', BStr (0, 0) target)] (ascii ''get_peers'') tid)"
    and "query_message (ping_args my_id) (ascii ''ping'') tid = bencode (query_value [(ascii ''id'', BStr (0, 0) my_id)] (ascii ''ping'') tid)"
  using assms dec_small
  by (simp_all add: get_peers_message_def query_message_def ping_args_def query_value_def encode_str_def Let_def eval_nat_numeral)

text \<open>The datagrams, which the code assembles by hand, are the canonical bencoding of the query they
  mean: a \<open>get_peers\<close> decodes to a dictionary of type q with our identifier, the target and the
  transaction identifier by which the answer will be matched, and a ping likewise.\<close>

theorem queries_decode:
  assumes "length my_id = 20" "length target = 20" "length tid = 2"
  shows "(\<exists>v a. bdecode (get_peers_message my_id target tid) = Inr v \<and> find_str v (ascii ''y'') = Some (ascii ''q'') \<and>
      find_str v (ascii ''q'') = Some (ascii ''get_peers'') \<and> find_str v (ascii ''t'') = Some tid \<and>
      find_dict v (ascii ''a'') = Some a \<and> find_str a (ascii ''id'') = Some my_id \<and> find_str a (ascii ''info_hash'') = Some target) \<and>
    (\<exists>v a. bdecode (query_message (ping_args my_id) (ascii ''ping'') tid) = Inr v \<and> find_str v (ascii ''y'') = Some (ascii ''q'') \<and>
      find_str v (ascii ''q'') = Some (ascii ''ping'') \<and> find_str v (ascii ''t'') = Some tid \<and>
      find_dict v (ascii ''a'') = Some a \<and> find_str a (ascii ''id'') = Some my_id)"
proof
  let ?g = "[(ascii ''id'', BStr (0, 0) my_id), (ascii ''info_hash'', BStr (0, 0) target)]" and ?p = "[(ascii ''id'', BStr (0, 0) my_id)]"
  have w: "bwf (query_value ?g (ascii ''get_peers'') tid)" "nesting (query_value ?g (ascii ''get_peers'') tid) \<le> kMaxDepth"
    "bwf (query_value ?p (ascii ''ping'') tid)" "nesting (query_value ?p (ascii ''ping'') tid) \<le> kMaxDepth"
    using assms by (simp_all add: query_value_def kMaxStringLen_def kMaxDepth_def)
  show "\<exists>v a. bdecode (get_peers_message my_id target tid) = Inr v \<and> find_str v (ascii ''y'') = Some (ascii ''q'') \<and>
      find_str v (ascii ''q'') = Some (ascii ''get_peers'') \<and> find_str v (ascii ''t'') = Some tid \<and>
      find_dict v (ascii ''a'') = Some a \<and> find_str a (ascii ''id'') = Some my_id \<and> find_str a (ascii ''info_hash'') = Some target"
    using query_decodes [OF w(1,2) messages_bencode(1) [OF assms]] by (fastforce simp: find_str_def find_key_def)
  show "\<exists>v a. bdecode (query_message (ping_args my_id) (ascii ''ping'') tid) = Inr v \<and> find_str v (ascii ''y'') = Some (ascii ''q'') \<and>
      find_str v (ascii ''q'') = Some (ascii ''ping'') \<and> find_str v (ascii ''t'') = Some tid \<and>
      find_dict v (ascii ''a'') = Some a \<and> find_str a (ascii ''id'') = Some my_id"
    using query_decodes [OF w(3,4) messages_bencode(2) [OF assms]] by (fastforce simp: find_str_def find_key_def)
qed

theorem queries_decode_witness:
  "\<exists>v. bdecode (get_peers_message (replicate 20 7) (replicate 20 9) [1, 0]) = Inr v \<and> find_str v (ascii ''t'') = Some [1, 0]"
  using queries_decode [of "replicate 20 7" "replicate 20 9" "[1, 0]"] by auto

subsection \<open>The contacts a step queries\<close>

definition sent_to :: "dht \<Rightarrow> endpoint list" where
  "sent_to d = (case d_sock d of None \<Rightarrow> [] | Some sk \<Rightarrow> map fst (ds_sent sk))"

lemma sent_to_get_peers: "d_sock d \<noteq> None \<Longrightarrow> sent_to (send_get_peers ep t clk d) = sent_to d @ [ep] \<and> d_sock (send_get_peers ep t clk d) \<noteq> None"
  by (auto simp: sent_to_def send_get_peers_def emit_query_def)

lemma query_nodes_chosen:
  "query_nodes ns target clk sent queried d = (sent', queried', d') \<Longrightarrow> sorted_wrt (\<lambda>a b. \<not> closer target b a) ns \<Longrightarrow>
     d_sock d \<noteq> None \<Longrightarrow>
   \<exists>cs. queried' = queried @ map (\<lambda>n. ipv4 (dn_endpoint n)) cs \<and> sent' = sent + length cs \<and> set cs \<subseteq> set ns \<and>
     sent_to d' = sent_to d @ map dn_endpoint cs \<and>
     (\<forall>n \<in> set ns. ipv4 (dn_endpoint n) \<notin> set queried' \<longrightarrow> 4 \<le> sent' \<and> (\<forall>c \<in> set cs. \<not> closer target n c))"
proof (induction ns target clk sent queried d rule: query_nodes.induct)
  case (2 n ns target clk sent queried d)
  consider "4 \<le> sent" | "sent < 4" "ipv4 (dn_endpoint n) \<in> set queried" | "sent < 4" "ipv4 (dn_endpoint n) \<notin> set queried"
    by linarith
  then show ?case
  proof cases
    case 1
    then show ?thesis using 2 by simp
  next
    case 2
    then have "query_nodes ns target clk sent queried d = (sent', queried', d')" using "2.prems"(1) by simp
    then obtain cs where cs: "queried' = queried @ map (\<lambda>n. ipv4 (dn_endpoint n)) cs" "sent' = sent + length cs" "set cs \<subseteq> set ns"
      "sent_to d' = sent_to d @ map dn_endpoint cs"
      "\<forall>n \<in> set ns. ipv4 (dn_endpoint n) \<notin> set queried' \<longrightarrow> 4 \<le> sent' \<and> (\<forall>c \<in> set cs. \<not> closer target n c)"
      using "2.IH"(1) 2 "2.prems"(2,3) by auto
    then show ?thesis using 2 by (intro exI [of _ cs]) auto
  next
    case 3
    let ?d = "send_get_peers (dn_endpoint n) target clk d"
    have q: "query_nodes ns target clk (Suc sent) (queried @ [ipv4 (dn_endpoint n)]) ?d = (sent', queried', d')"
      using "2.prems"(1) 3 by simp
    have "sorted_wrt (\<lambda>a b. \<not> closer target b a) ns" "d_sock ?d \<noteq> None"
      using "2.prems"(2,3) sent_to_get_peers by simp_all
    with "2.IH"(2) [OF _ 3(2) q] 3(1) obtain cs where
      cs: "queried' = (queried @ [ipv4 (dn_endpoint n)]) @ map (\<lambda>n. ipv4 (dn_endpoint n)) cs" "sent' = Suc sent + length cs"
      "set cs \<subseteq> set ns" "sent_to d' = sent_to ?d @ map dn_endpoint cs"
      "\<forall>n \<in> set ns. ipv4 (dn_endpoint n) \<notin> set queried' \<longrightarrow> 4 \<le> sent' \<and> (\<forall>c \<in> set cs. \<not> closer target n c)"
      by auto
    have "\<not> closer target m n" if "m \<in> set ns" for m using "2.prems"(2) that by simp
    then show ?thesis using cs sent_to_get_peers [OF "2.prems"(3)] by (intro exI [of _ "n # cs"]) auto
  qed
qed simp

text \<open>A step of a search that has candidates queries, among its candidates and the contacts of the
  table, up to four whose address it has not queried, the closest to the target: when one is left out,
  four were queried and none of them is farther than it.  Each is remembered as queried, so that it is
  not queried again, and the search goes to sleep exactly when there was none.\<close>

theorem step_queries_closest:
  assumes "sorts srt" "dht_ok d" "search_ok (key, s)" "d_sock d \<noteq> None" "ds_active s"
    and "length (ds_queried s) < kMaxQueriedPerSearch" "d_nodes d \<noteq> []"
    and "d' = step_search srt net now clk key s d"
  shows "\<exists>cs s'. map_of (d_searches d') key = Some s' \<and> ds_queried s' = ds_queried s @ map (\<lambda>n. ipv4 (dn_endpoint n)) cs \<and>
    length cs \<le> 4 \<and> set cs \<subseteq> set (d_nodes d) \<union> set (ds_candidates s) \<and> sent_to d' = sent_to d @ map dn_endpoint cs \<and>
    (ds_active s' \<longleftrightarrow> cs \<noteq> []) \<and>
    (\<forall>n \<in> set (add_known (d_nodes d) (ds_candidates s)). ipv4 (dn_endpoint n) \<notin> set (ds_queried s') \<longrightarrow>
       length cs = 4 \<and> (\<forall>c \<in> set cs. compare_distance (dn_id c) (dn_id n) (ds_target s) \<le> 0))"
proof -
  let ?cs = "add_known (d_nodes d) (ds_candidates s)" and ?t = "ds_target s"
  have t: "length ?t = 20" using assms(3) by (simp add: search_ok_def)
  have sub: "set ?cs \<subseteq> set (d_nodes d) \<union> set (ds_candidates s)" by (simp add: add_known_set)
  have ok: "\<forall>n \<in> set ?cs. node_ok n" using sub assms(2,3) by (auto simp: dht_ok_def nodes_ok_def search_ok_def)
  have ne: "?cs \<noteq> []"
  proof -
    obtain n ns where n: "d_nodes d = n # ns" using assms(7) by (cases "d_nodes d") auto
    show ?thesis
      unfolding n add_known.simps(2) by (auto dest: add_known_Nil split: if_splits)
  qed
  note srt = sorts_closer [OF assms(1) ok t]
  obtain sent queried e where q: "query_nodes (srt (closer ?t) ?cs) ?t clk 0 (ds_queried s) d = (sent, queried, e)"
    using prod_cases3 by blast
  note qok = query_nodes_ok [OF q assms(2) t]
  obtain cs where cs: "queried = ds_queried s @ map (\<lambda>n. ipv4 (dn_endpoint n)) cs" "sent = length cs" "set cs \<subseteq> set ?cs"
    "sent_to e = sent_to d @ map dn_endpoint cs"
    "\<forall>n \<in> set ?cs. ipv4 (dn_endpoint n) \<notin> set queried \<longrightarrow> 4 \<le> sent \<and> (\<forall>c \<in> set cs. \<not> closer ?t n c)"
    using query_nodes_chosen [OF q srt(3) assms(4)] srt(2) by auto
  let ?s = "s\<lparr>ds_queried := queried, ds_candidates := take 256 (srt (closer ?t) ?cs), ds_active := (ds_active s \<and> sent \<noteq> 0)\<rparr>"
  have d': "d' = set_search key ?s e" using assms(6,8) ne q by (simp add: step_search_def Let_def)
  have sent: "sent \<le> 4" "d_searches e = d_searches d" using qok assms(3) by (simp_all add: search_ok_def)
  have "map_of (d_searches d') key = Some ?s"
    using assms(2) sent(2) by (simp add: d' set_search_def map_of_put dht_ok_def searches_ok_def)
  moreover have "compare_distance (dn_id c) (dn_id n) ?t \<le> 0" if "\<not> closer ?t n c" "n \<in> set ?cs" "c \<in> set ?cs" for n c
  proof -
    have "length (dn_id n) = length ?t" "length (dn_id c) = length ?t" using that(2,3) ok t by (simp_all add: node_ok_def)
    then show ?thesis using that(1) compare_distance_sym [of "dn_id c" ?t "dn_id n"] by (simp add: closer_def)
  qed
  moreover have "sent_to d' = sent_to e" by (simp add: d' set_search_def sent_to_def)
  ultimately show ?thesis
    using cs sub sent(1) assms(5) by (intro exI [of _ cs] exI [of _ ?s]) auto
qed

theorem step_queries_closest_witness:
  "\<exists>d net cs s'. map_of (d_searches (step_search (\<lambda>lt ns. foldr (insert_by lt) ns []) net 5 5 (to_hex (replicate 20 1)) (new_search\<lparr>ds_target := replicate 20 1, ds_active := True\<rparr>) d)) (to_hex (replicate 20 1)) = Some s' \<and>
     ds_queried s' = map (\<lambda>n. ipv4 (dn_endpoint n)) cs \<and> cs \<noteq> [] \<and> set cs \<subseteq> set (d_nodes d)"
proof -
  let ?n = "\<lparr>dn_id = replicate 20 3, dn_endpoint = \<lparr>ipv4 = 9, port = 9\<rparr>, dn_seen = 0\<rparr>"
  let ?d = "(new_dht (replicate 20 7))\<lparr>d_nodes := [?n], d_sock := Some \<lparr>ds_rx = [], ds_sent = []\<rparr>\<rparr>"
  let ?s = "new_search\<lparr>ds_target := replicate 20 1, ds_active := True\<rparr>"
  let ?net = "\<lparr>net_ready = True, net_udp = None, net_resolve = Map.empty\<rparr>"
  have n: "endpoint_valid \<lparr>ipv4 = 9, port = 9\<rparr>" by (simp add: endpoint_valid_def)
  have d: "dht_ok ?d" using new_dht_ok [of "replicate 20 7"] n by (simp add: dht_ok_def nodes_ok_def node_ok_def kMaxNodes_def)
  have s: "search_ok (to_hex (replicate 20 1), ?s)" by (simp add: search_ok_def new_search_def kMaxQueriedPerSearch_def)
  have a: "add_known (d_nodes ?d) (ds_candidates ?s) = [?n]" by (simp add: new_search_def)
  have pre: "d_sock ?d \<noteq> None" "ds_active ?s" "length (ds_queried ?s) < kMaxQueriedPerSearch" "d_nodes ?d \<noteq> []"
    by (simp_all add: new_search_def kMaxQueriedPerSearch_def)
  let ?e = "step_search (\<lambda>lt ns. foldr (insert_by lt) ns []) ?net 5 5 (to_hex (replicate 20 1)) ?s ?d"
  from step_queries_closest [OF insertion_sorts d s pre refl, of ?net 5 5] obtain cs s' where
    r: "map_of (d_searches ?e) (to_hex (replicate 20 1)) = Some s'" "ds_queried s' = ds_queried ?s @ map (\<lambda>n. ipv4 (dn_endpoint n)) cs"
    "set cs \<subseteq> set (d_nodes ?d) \<union> set (ds_candidates ?s)"
    "\<forall>n \<in> set (add_known (d_nodes ?d) (ds_candidates ?s)). ipv4 (dn_endpoint n) \<notin> set (ds_queried s') \<longrightarrow> length cs = 4 \<and>
       (\<forall>c \<in> set cs. compare_distance (dn_id c) (dn_id n) (ds_target ?s) \<le> 0)"
    by blast
  have q: "ds_queried s' = map (\<lambda>n. ipv4 (dn_endpoint n)) cs" "set cs \<subseteq> set (d_nodes ?d)"
    using r(2,3) by (simp_all add: new_search_def)
  have "(9 :: 32 word) \<notin> set (ds_queried s') \<longrightarrow> length cs = 4" using r(4) unfolding a by simp
  then have "cs \<noteq> []" using q(1) by auto
  then show ?thesis using r(1) q by blast
qed

end
