(* ===== verification/Url.thy ===== *)
theory Url
  imports Magnet
begin

text \<open>
  URLs and the plain HTTP client (\<open>source/net/io.cpp\<close>, \<open>include/net/io.hpp\<close>).

  What the sockets answer is given as scripts: the results of the calls of \<open>send\<close> and \<open>recv\<close>, and, where
  a call would block, whether the wait that follows ends before its deadline.  An exhausted script waits
  in vain.

  Results: an address written from its parts is parsed back to these parts; what \<open>send_all\<close> reports sent
  has been accepted in full, and what \<open>recv_until_close\<close> returns is what was received.
\<close>

record url =
  u_scheme :: bytes
  u_host :: bytes
  u_path :: bytes
  u_query :: bytes
  u_port :: nat

definition url_secure :: "url \<Rightarrow> bool" where
  "url_secure u \<longleftrightarrow> u_scheme u = ascii ''https''"

text \<open>\<open>std::atoi\<close>, which is \<open>strtol\<close> on 64 bits cut to an \<open>int\<close>.\<close>

definition atoi :: "bytes \<Rightarrow> int" where
  "atoi s = sint (word_of_int (strtoll s) :: 32 word)"

text \<open>The path and the query of what follows the authority.\<close>

definition url_tail :: "bytes option \<Rightarrow> bytes \<times> bytes" where
  "url_tail rest =
     (case rest of
        None \<Rightarrow> (ascii ''/'', [])
      | Some rest \<Rightarrow>
          (case find_byte (B CHR ''?'') rest of
             None \<Rightarrow> (rest, [])
           | Some q \<Rightarrow> (take q rest, drop (q + 1) rest)))"

text \<open>The host and the port of the authority, without the user; no port, or one that is 0 on 16 bits, is 0.\<close>

definition url_authority :: "bytes \<Rightarrow> bytes \<times> nat" where
  "url_authority authority =
     (let authority = (case rfind_byte (B CHR ''@'') authority of None \<Rightarrow> authority | Some i \<Rightarrow> drop (i + 1) authority)
      in case rfind_byte (B CHR '':'') authority of
           None \<Rightarrow> (authority, 0)
         | Some colon \<Rightarrow>
             if find_byte (B CHR '']'') authority = None
             then (take colon authority, cast_u16 (atoi (drop (colon + 1) authority)))
             else (authority, 0))"

definition parse_url :: "bytes \<Rightarrow> url option" where
  "parse_url text =
     (case find_sub (ascii ''://'') text of
        None \<Rightarrow> None
      | Some scheme_end \<Rightarrow>
          let scheme = map to_lower (take scheme_end text);
              after = drop (scheme_end + 3) text;
              path_start = find_byte (B CHR ''/'') after;
              (host, port) = url_authority (case path_start of None \<Rightarrow> after | Some k \<Rightarrow> take k after);
              (path, query) = url_tail (map_option (\<lambda>k. drop k after) path_start);
              port = (if port \<noteq> 0 then port else if scheme = ascii ''http'' then 80 else if scheme = ascii ''https'' then 443 else 0)
          in if port = 0 \<or> host = [] then None
             else Some \<lparr>u_scheme = scheme, u_host = host, u_path = path, u_query = query, u_port = port\<rparr>)"

subsection \<open>Whole transfers\<close>

datatype io_answer = Progress bytes | Wait bool | Ended | Broken

text \<open>\<open>send_all\<close>: a positive answer accepts as many bytes as \<open>Progress\<close> holds; \<open>Wait ok\<close> is a call that would
  block and the wait that follows it.\<close>

fun send_all :: "io_answer list \<Rightarrow> nat \<Rightarrow> nat \<Rightarrow> bool" where
  "send_all as sent len =
     (if len \<le> sent then True
      else case as of
             [] \<Rightarrow> False
           | Progress bs # as \<Rightarrow> (if bs = [] then False else send_all as (sent + length bs) len)
           | Wait ok # as \<Rightarrow> (if ok then send_all as sent len else False)
           | _ \<Rightarrow> False)"

declare send_all.simps [simp del]

text \<open>\<open>recv_wait\<close>: the bytes read, None at the end of the stream, an error otherwise.\<close>

fun recv_wait :: "io_answer list \<Rightarrow> unit + bytes option \<times> io_answer list" where
  "recv_wait [] = Inl ()"
| "recv_wait (a # as) =
     (case a of
        Progress bs \<Rightarrow> (if bs = [] then Inl () else Inr (Some bs, as))
      | Ended \<Rightarrow> Inr (None, as)
      | Wait ok \<Rightarrow> (if ok then recv_wait as else Inl ())
      | Broken \<Rightarrow> Inl ())"

lemma recv_wait_shorter: "recv_wait as = Inr (r, as') \<Longrightarrow> length as' < length as"
proof (induction as)
  case (Cons a as)
  then show ?case by (cases a) (auto split: if_splits)
qed simp

function recv_until_close :: "io_answer list \<Rightarrow> bytes \<Rightarrow> nat \<Rightarrow> bytes option" where
  "recv_until_close as out max_bytes =
     (if max_bytes \<le> length out then Some out
      else case recv_wait as of
             Inl _ \<Rightarrow> None
           | Inr (None, as') \<Rightarrow> Some out
           | Inr (Some bs, as') \<Rightarrow> recv_until_close as' (out @ bs) max_bytes)"
  by pat_completeness auto
termination
  by (relation "measure (\<lambda>(as, out, max_bytes). length as)") (auto dest: recv_wait_shorter)

declare recv_until_close.simps [simp del]

subsection \<open>A request\<close>

record http_response =
  hr_status :: int
  hr_body :: bytes
  hr_type :: bytes

datatype http_error = BadUrl | NotTls | BadHttpScheme | NoTransport | NoHost | NoSocket | NotConnected | NotSent
  | NotReceived | BadResponse | BadStatus

definition get_request :: "url \<Rightarrow> bytes" where
  "get_request u =
     ascii ''GET '' @ u_path u @ (if u_query u \<noteq> [] then B CHR ''?'' # u_query u else []) @ ascii '' HTTP/1.1'' @ [13, 10] @
     ascii ''Host: '' @ u_host u @ [13, 10] @ ascii ''User-Agent: Torfoil/0.1'' @ [13, 10] @ ascii ''Accept: */*'' @ [13, 10] @
     ascii ''Connection: close'' @ [13, 10, 13, 10]"

definition read_response :: "bytes \<Rightarrow> http_error + http_response" where
  "read_response resp =
     (case find_sub [13, 10, 13, 10] resp of
        None \<Rightarrow> Inl BadResponse
      | Some header_end \<Rightarrow>
          let head = take header_end resp;
              body = drop (header_end + 4) resp
          in case find_byte (B CHR '' '') head of
               None \<Rightarrow> Inl BadStatus
             | Some sp \<Rightarrow>
                 let ctype = (case find_sub (ascii ''Content-Type:'') head of
                       None \<Rightarrow> []
                     | Some ct \<Rightarrow>
                         (case find_sub_from [13, 10] head ct of
                            None \<Rightarrow> trim (drop (ct + 13) head)
                          | Some eol \<Rightarrow> trim (substr head (ct + 13) (eol - ct - 13))))
                 in Inr \<lparr>hr_status = atoi (drop (sp + 1) head), hr_body = body, hr_type = ctype\<rparr>)"

record http_net =
  hn_ready :: bool
  hn_resolve :: "bytes \<Rightarrow> 32 word option"
  hn_socket :: bool
  hn_connect :: bool
  hn_send :: "io_answer list"
  hn_recv :: "io_answer list"

definition http_get :: "http_net \<Rightarrow> bytes \<Rightarrow> http_error + http_response" where
  "http_get net url =
     (case parse_url url of
        None \<Rightarrow> Inl BadUrl
      | Some u \<Rightarrow>
          if url_secure u then Inl NotTls
          else if u_scheme u \<noteq> ascii ''http'' then Inl BadHttpScheme
          else if \<not> hn_ready net then Inl NoTransport
          else (case hn_resolve net (u_host u) of
             None \<Rightarrow> Inl NoHost
           | Some ip \<Rightarrow>
               if \<not> hn_socket net then Inl NoSocket
               else if \<not> hn_connect net then Inl NotConnected
               else if \<not> send_all (hn_send net) 0 (length (get_request u)) then Inl NotSent
               else (case recv_until_close (hn_recv net) [] (4 * 1024 * 1024) of
                  None \<Rightarrow> Inl NotReceived
                | Some resp \<Rightarrow> read_response resp)))"

subsection \<open>What transfers deliver\<close>

definition received :: "io_answer list \<Rightarrow> bytes" where
  "received as = concat (map (\<lambda>a. case a of Progress bs \<Rightarrow> bs | _ \<Rightarrow> []) as)"

lemma recv_wait_received: "recv_wait as = Inr (r, as') \<Longrightarrow> received as = (case r of None \<Rightarrow> [] | Some bs \<Rightarrow> bs) @ received as'"
proof (induction as)
  case (Cons a as)
  then show ?case by (cases a) (auto simp: received_def split: if_splits)
qed simp

lemma recv_until_close_received:
  "recv_until_close as out n = Some r \<Longrightarrow> \<exists>rest. out @ received as = r @ rest"
proof (induction as out n rule: recv_until_close.induct)
  case (1 as out n)
  show ?case
  proof (cases "n \<le> length out")
    case True
    then show ?thesis using "1.prems" by (simp add: recv_until_close.simps)
  next
    case False
    then obtain x as' where x: "recv_wait as = Inr (x, as')"
      using "1.prems" by (cases "recv_wait as") (auto simp: recv_until_close.simps)
    note rec = recv_wait_received [OF x]
    show ?thesis
    proof (cases x)
      case None
      then show ?thesis using "1.prems" False x by (simp add: recv_until_close.simps)
    next
      case (Some bs)
      then have "recv_until_close as' (out @ bs) n = Some r" using "1.prems" False x by (simp add: recv_until_close.simps)
      with "1.IH" [OF False x _ Some] show ?thesis using rec Some by simp
    qed
  qed
qed

lemma send_all_accepted: "send_all as sent len \<Longrightarrow> len \<le> sent + length (received as)"
proof (induction as sent len rule: send_all.induct)
  case (1 as sent len)
  show ?case
  proof (cases "len \<le> sent")
    case False
    then show ?thesis
      using 1 by (subst (asm) send_all.simps) (auto simp: received_def split: list.splits io_answer.splits if_splits)
  qed simp
qed

subsection \<open>A URL and its parts\<close>

definition url_text :: "url \<Rightarrow> bytes" where
  "url_text u = u_scheme u @ ascii ''://'' @ u_host u @ ascii '':'' @ dec_nat (u_port u) @ u_path u @
     (if u_query u = [] then [] else B CHR ''?'' # u_query u)"

definition url_ok :: "url \<Rightarrow> bool" where
  "url_ok u \<longleftrightarrow> B CHR '':'' \<notin> set (u_scheme u) \<and> map to_lower (u_scheme u) = u_scheme u \<and>
     u_host u \<noteq> [] \<and> set (u_host u) \<inter> {B CHR '':'', B CHR ''/'', B CHR ''@'', B CHR '']''} = {} \<and>
     0 < u_port u \<and> u_port u < 2 ^ 16 \<and> prefix_of (ascii ''/'') (u_path u) \<and> B CHR ''?'' \<notin> set (u_path u)"

lemma find_sub_here: "p \<noteq> [] \<Longrightarrow> hd p \<notin> set s \<Longrightarrow> find_sub p (s @ p @ rest) = Some (length s)"
proof (induction s)
  case Nil
  then show ?case by (cases p) (simp_all add: prefix_of_append [of "_ # _", simplified])
next
  case (Cons x s)
  then have "\<not> prefix_of p (x # s @ p @ rest)" by (cases p) auto
  then show ?case using Cons by simp
qed

lemma dec_nat_props:
  "is_digit (hd (dec_nat n))" "takeWhile is_digit (dec_nat n) = dec_nat n" "\<not> is_digit c \<Longrightarrow> c \<notin> set (dec_nat n)"
  using dec_nat_digits [of _ n] by (auto simp: takeWhile_eq_all_conv)

lemma digit_plain: "is_digit c \<Longrightarrow> \<not> is_space c \<and> c \<noteq> B CHR ''-'' \<and> c \<noteq> B CHR ''+''"
  by (auto simp: is_digit_def is_space_def word_le_nat_alt)

lemma strtoll_dec_nat: "n < 2 ^ 63 \<Longrightarrow> strtoll (dec_nat n) = int n"
proof -
  assume n: "n < 2 ^ 63"
  have h: "dec_nat n = hd (dec_nat n) # tl (dec_nat n)" by simp
  have d: "dropWhile is_space (dec_nat n) = dec_nat n"
    using digit_plain [OF dec_nat_props(1) [of n]] by (metis dropWhile.simps(2) h)
  have "int n < 2 ^ 63" using n by (metis of_nat_less_iff of_nat_numeral of_nat_power)
  then show ?thesis
    using digit_plain [OF dec_nat_props(1) [of n]] by (simp add: strtoll_def Let_def d dec_nat_props(2))
qed

lemma atoi_dec_nat: "n < 2 ^ 31 \<Longrightarrow> atoi (dec_nat n) = int n"
  by (simp add: atoi_def strtoll_dec_nat signed_of_int signed_take_bit_int_eq_self del: of_int_of_nat_eq)

lemma url_authority_of:
  assumes "set host \<inter> {B CHR '':'', B CHR ''@'', B CHR '']''} = {}" "n < 2 ^ 16"
  shows "url_authority (host @ ascii '':'' @ dec_nat n) = (host, n)"
proof -
  let ?a = "host @ ascii '':'' @ dec_nat n"
  have nd: "\<not> is_digit (B CHR ''@'')" "\<not> is_digit (B CHR '':'')" "\<not> is_digit (B CHR '']'')"
    by (simp_all add: is_digit_def)
  note out = dec_nat_props(3) [OF nd(1), of n] dec_nat_props(3) [OF nd(2), of n] dec_nat_props(3) [OF nd(3), of n]
  have "rfind_byte (B CHR ''@'') ?a = None" using assms(1) out(1) by (auto simp: rfind_byte_def find_byte_None)
  moreover have "rfind_byte (B CHR '':'') ?a = Some (length host)"
  proof -
    have "rev ?a = rev (dec_nat n) @ B CHR '':'' # rev host" by simp
    then have "find_byte (B CHR '':'') (rev ?a) = Some (length (dec_nat n))"
      using find_byte_append [of "B CHR '':''" "rev (dec_nat n)" "rev host"] out(2) by simp
    then show ?thesis unfolding rfind_byte_def by simp
  qed
  moreover have "find_byte (B CHR '']'') ?a = None" using assms(1) out(3) by (auto simp: find_byte_None)
  moreover have "cast_u16 (atoi (dec_nat n)) = n" using assms(2) atoi_dec_nat [of n] by (simp add: cast_u16_def)
  ultimately show ?thesis by (simp add: url_authority_def Let_def)
qed

lemma parse_url_of:
  assumes "url_ok u"
  shows "parse_url (url_text u) = Some u"
proof -
  let ?auth = "u_host u @ ascii '':'' @ dec_nat (u_port u)"
  let ?tail = "u_path u @ (if u_query u = [] then [] else B CHR ''?'' # u_query u)"
  obtain p where p: "u_path u = B CHR ''/'' # p" using assms by (cases "u_path u") (auto simp: url_ok_def)
  have tx: "url_text u = u_scheme u @ ascii ''://'' @ (?auth @ ?tail)" by (simp add: url_text_def)
  have s: "find_sub (ascii ''://'') (url_text u) = Some (length (u_scheme u))"
    unfolding tx using assms by (intro find_sub_here) (simp_all add: url_ok_def)
  have a: "drop (length (u_scheme u) + 3) (url_text u) = ?auth @ ?tail" by (simp add: tx)
  have nd: "\<not> is_digit (B CHR ''/'')" by (simp add: is_digit_def)
  have "B CHR ''/'' \<notin> set ?auth" using assms dec_nat_props(3) [OF nd] by (auto simp: url_ok_def)
  then have k: "find_byte (B CHR ''/'') (?auth @ ?tail) = Some (length ?auth)"
    using find_byte_append [of "B CHR ''/''" ?auth] by (simp add: p)
  have t: "url_tail (Some ?tail) = (u_path u, u_query u)"
    using assms find_byte_append [of "B CHR ''?''" "u_path u" "u_query u"] find_byte_None [of "B CHR ''?''" "u_path u"]
    by (simp add: url_tail_def url_ok_def)
  have au: "url_authority ?auth = (u_host u, u_port u)" using assms by (intro url_authority_of) (auto simp: url_ok_def)
  have tk: "take (length ?auth) (?auth @ ?tail) = ?auth" "drop (length ?auth) (?auth @ ?tail) = ?tail" by simp_all
  have sc: "map to_lower (take (length (u_scheme u)) (url_text u)) = u_scheme u" using assms by (simp add: tx url_ok_def)
  have "parse_url (url_text u) = Some \<lparr>u_scheme = u_scheme u, u_host = u_host u, u_path = u_path u, u_query = u_query u, u_port = u_port u\<rparr>"
    unfolding parse_url_def s option.case Let_def a k option.map tk au t sc prod.case using assms by (simp add: url_ok_def)
  then show ?thesis by simp
qed

text \<open>A URL written from its parts is parsed back to exactly these parts.\<close>

theorem parse_url_parts:
  assumes "url_ok u"
  shows "parse_url (url_text u) = Some u"
  using assms by (rule parse_url_of)

definition sample_url :: url where
  "sample_url = \<lparr>u_scheme = ascii ''udp'', u_host = ascii ''a.b'', u_path = ascii ''/announce'', u_query = ascii ''k=1'', u_port = 6969\<rparr>"

lemma sample_url_ok: "url_ok sample_url"
  by (simp add: url_ok_def sample_url_def to_lower_def is_upper_def word_le_nat_alt)

theorem parse_url_parts_witness: "parse_url (url_text sample_url) = Some sample_url"
  using parse_url_parts sample_url_ok by blast


end
