(* ===== verification/Tracker.thy ===== *)
theory Tracker
  imports Url Net
begin

text \<open>
  Announcing a torrent to its trackers (\<open>source/bt/tracker.cpp\<close>, \<open>include/bt/tracker.hpp\<close>), over HTTP
  and over UDP.

  The HTTP exchange is the argument \<open>fetch\<close> (the plain client of \<open>Url\<close> or the TLS one), the resolver an
  argument too.  For UDP the network is the sequence of what the waits give: a datagram and its sender,
  or nothing until the deadline (also when the sequence is exhausted), and whether each emission
  succeeds.

  Results: a UDP announce is accepted only on answers of the tracker itself, with our transaction
  identifier, and its result is read from them; the request has the layout of BEP 15; the interval is
  never under a minute and the peers are valid addresses, whatever the tracker sends; a URL written from
  its parts is parsed back to them.
\<close>

datatype announce_event = EvNone | EvStarted | EvCompleted | EvStopped

record announce_request =
  aq_info_hash :: bytes
  aq_peer_id :: bytes
  aq_port :: nat
  aq_uploaded :: nat
  aq_downloaded :: nat
  aq_left :: nat
  aq_event :: announce_event
  aq_num_want :: nat
  aq_key :: nat

record announce_result =
  ar_interval :: nat
  ar_seeders :: nat
  ar_leechers :: nat
  ar_peers :: "endpoint list"

datatype tracker_error = NetworkDown | SchemeUnknown bytes | FetchFailed bytes | HttpStatus int | AnswerUnreadable berr
  | TrackerRefused bytes | UdpUrlBad | UdpNoHost | UdpNoSocket | UdpNotSent | UdpSilent | UdpTruncated

definition event_name :: "announce_event \<Rightarrow> bytes" where
  "event_name e =
     (case e of
        EvStarted \<Rightarrow> ascii ''started''
      | EvCompleted \<Rightarrow> ascii ''completed''
      | EvStopped \<Rightarrow> ascii ''stopped''
      | EvNone \<Rightarrow> [])"

definition event_code :: "announce_event \<Rightarrow> nat" where
  "event_code e = (case e of EvCompleted \<Rightarrow> 1 | EvStarted \<Rightarrow> 2 | EvStopped \<Rightarrow> 3 | EvNone \<Rightarrow> 0)"

text \<open>\<open>parse_compact_peers\<close>: as long as six bytes are left.\<close>

function parse_compact_peers :: "bytes \<Rightarrow> endpoint list" where
  "parse_compact_peers blob =
     (if length blob < 6 then []
      else (if endpoint_valid (endpoint_at blob) then [endpoint_at blob] else []) @ parse_compact_peers (drop 6 blob))"
  by pat_completeness auto
termination by (relation "measure length") auto

declare parse_compact_peers.simps [simp del]

definition make_peer_id :: "bytes \<Rightarrow> bytes" where
  "make_peer_id random =
     ascii ''-TF0100-'' @
     map (\<lambda>r. let c = B CHR ''0'' + r mod 36 in if B CHR ''9'' < c then B CHR ''a'' + (c - B CHR ''9'' - 1) else c)
       (take 12 random)"

subsection \<open>HTTP\<close>

definition announce_url :: "bytes \<Rightarrow> announce_request \<Rightarrow> bytes" where
  "announce_url url req =
     url @ [if find_byte (B CHR ''?'') url = None then B CHR ''?'' else B CHR ''&''] @
     ascii ''info_hash='' @ url_encode (aq_info_hash req) @
     ascii ''&peer_id='' @ url_encode (aq_peer_id req) @
     ascii ''&port='' @ dec_nat (aq_port req) @
     ascii ''&uploaded='' @ dec_nat (aq_uploaded req) @
     ascii ''&downloaded='' @ dec_nat (aq_downloaded req) @
     ascii ''&left='' @ dec_nat (aq_left req) @
     ascii ''&numwant='' @ dec_nat (aq_num_want req) @
     ascii ''&key='' @ dec_nat (aq_key req) @
     ascii ''&compact=1&no_peer_id=1'' @
     (if event_name (aq_event req) \<noteq> [] then ascii ''&event='' @ event_name (aq_event req) else [])"

fun listed_peers :: "(bytes \<Rightarrow> 32 word option) \<Rightarrow> bvalue list \<Rightarrow> endpoint list" where
  "listed_peers resolve [] = []"
| "listed_peers resolve (p # ps) =
     (case (find_str p (ascii ''ip''), find_int p (ascii ''port'')) of
        (Some ip, Some n) \<Rightarrow>
          (case resolve ip of
             None \<Rightarrow> listed_peers resolve ps
           | Some addr \<Rightarrow>
               let ep = \<lparr>ipv4 = addr, port = word_of_int n\<rparr>
               in if endpoint_valid ep then ep # listed_peers resolve ps else listed_peers resolve ps)
      | _ \<Rightarrow> listed_peers resolve ps)"

definition answer_peers :: "(bytes \<Rightarrow> 32 word option) \<Rightarrow> bvalue \<Rightarrow> endpoint list" where
  "answer_peers resolve root =
     (case find_key root (ascii ''peers'') of
        Some (BStr r s) \<Rightarrow> parse_compact_peers s
      | Some (BList r l) \<Rightarrow> listed_peers resolve l
      | _ \<Rightarrow> [])"

definition read_answer :: "(bytes \<Rightarrow> 32 word option) \<Rightarrow> bytes \<Rightarrow> tracker_error + announce_result" where
  "read_answer resolve body =
     (case bdecode body of
        Inl e \<Rightarrow> Inl (AnswerUnreadable e)
      | Inr root \<Rightarrow>
          (case find_str root (ascii ''failure reason'') of
             Some msg \<Rightarrow> Inl (TrackerRefused msg)
           | None \<Rightarrow>
               let interval = cast_u32 (int_or root (ascii ''interval'') 1800)
               in Inr \<lparr>ar_interval = (if interval < 60 then 60 else interval),
                       ar_seeders = cast_u32 (int_or root (ascii ''complete'') 0),
                       ar_leechers = cast_u32 (int_or root (ascii ''incomplete'') 0),
                       ar_peers = answer_peers resolve root\<rparr>))"

definition announce_http :: "(bool \<Rightarrow> bytes \<Rightarrow> bytes + int \<times> bytes) \<Rightarrow> (bytes \<Rightarrow> 32 word option) \<Rightarrow> bytes \<Rightarrow>
    announce_request \<Rightarrow> tracker_error + announce_result" where
  "announce_http fetch resolve url req =
     (case fetch (prefix_of (ascii ''https://'') url) (announce_url url req) of
        Inl err \<Rightarrow> Inl (FetchFailed err)
      | Inr (status, body) \<Rightarrow> if status \<noteq> 200 then Inl (HttpStatus status) else read_answer resolve body)"

subsection \<open>UDP\<close>

datatype udp_event = Datagram endpoint bytes | Silence

definition matches :: "endpoint \<Rightarrow> 32 word \<Rightarrow> 32 word \<Rightarrow> endpoint \<Rightarrow> bytes \<Rightarrow> bool" where
  "matches tracker tid action sender buf \<longleftrightarrow>
     16 \<le> length buf \<and> ipv4 sender = ipv4 tracker \<and> rd_be32 buf = action \<and> rd_be32 (drop 4 buf) = tid"

fun await_reply :: "endpoint \<Rightarrow> 32 word \<Rightarrow> 32 word \<Rightarrow> udp_event list \<Rightarrow> bytes option \<times> udp_event list" where
  "await_reply tracker tid action [] = (None, [])"
| "await_reply tracker tid action (Silence # evs) = (None, evs)"
| "await_reply tracker tid action (Datagram sender data # evs) =
     (if matches tracker tid action sender (take 2048 data) then (Some (take 2048 data), evs)
      else await_reply tracker tid action evs)"

definition connect_request :: "32 word \<Rightarrow> bytes" where
  "connect_request tid = wr_be64 0x41727101980 @ wr_be32 0 @ wr_be32 tid"

text \<open>
  The attempts to connect.  \<open>out\<close> is what left for the network so far, with its destination; the
  number of packets in it is the number of the next emission, since a failed one ends the exchange.
\<close>

type_synonym udp_out = "(endpoint \<times> bytes) list"

fun connect_attempts :: "nat \<Rightarrow> endpoint \<Rightarrow> 32 word \<Rightarrow> (nat \<Rightarrow> bool) \<Rightarrow> udp_out \<Rightarrow> udp_event list \<Rightarrow>
    (tracker_error + 64 word \<times> udp_event list) \<times> udp_out" where
  "connect_attempts 0 tracker tid sent out evs = (Inl UdpSilent, out)"
| "connect_attempts (Suc n) tracker tid sent out evs =
     (if \<not> sent (length out) then (Inl UdpNotSent, out)
      else let out = out @ [(tracker, connect_request tid)]
           in case await_reply tracker tid 0 evs of
                (Some reply, evs) \<Rightarrow> (Inr (rd_be64 (drop 8 reply), evs), out)
              | (None, evs) \<Rightarrow> connect_attempts n tracker tid sent out evs)"

definition announce_packet :: "64 word \<Rightarrow> 32 word \<Rightarrow> announce_request \<Rightarrow> bytes" where
  "announce_packet connection_id tid req =
     wr_be64 connection_id @ wr_be32 1 @ wr_be32 tid @ aq_info_hash req @ aq_peer_id req @
     wr_be64 (of_nat (aq_downloaded req)) @ wr_be64 (of_nat (aq_left req)) @ wr_be64 (of_nat (aq_uploaded req)) @
     wr_be32 (of_nat (event_code (aq_event req))) @ wr_be32 0 @ wr_be32 (of_nat (aq_key req)) @
     wr_be32 (of_nat (aq_num_want req)) @ wr_be16 (of_nat (aq_port req))"

definition read_reply :: "bytes \<Rightarrow> announce_result" where
  "read_reply reply =
     (let interval = rd32 (drop 8 reply)
      in \<lparr>ar_interval = (if interval < 60 then 60 else interval), ar_seeders = rd32 (drop 16 reply),
          ar_leechers = rd32 (drop 12 reply), ar_peers = parse_compact_peers (drop 20 reply)\<rparr>)"

definition announce_udp :: "(bytes \<Rightarrow> 32 word option) \<Rightarrow> bool \<Rightarrow> 32 word \<Rightarrow> (nat \<Rightarrow> bool) \<Rightarrow> udp_event list \<Rightarrow>
    bytes \<Rightarrow> announce_request \<Rightarrow> (tracker_error + announce_result) \<times> udp_out" where
  "announce_udp resolve has_socket tid sent evs url req =
     (case parse_url url of
        None \<Rightarrow> (Inl UdpUrlBad, [])
      | Some u \<Rightarrow>
          if u_port u = 0 then (Inl UdpUrlBad, [])
          else (case resolve (u_host u) of
             None \<Rightarrow> (Inl UdpNoHost, [])
           | Some ip \<Rightarrow>
               let tracker = \<lparr>ipv4 = ip, port = of_nat (u_port u)\<rparr>
               in if \<not> has_socket then (Inl UdpNoSocket, [])
                  else (case connect_attempts 2 tracker tid sent [] evs of
                     (Inl e, out) \<Rightarrow> (Inl e, out)
                   | (Inr (connection_id, evs), out) \<Rightarrow>
                       if \<not> sent (length out) then (Inl UdpNotSent, out)
                       else let out = out @ [(tracker, announce_packet connection_id tid req)]
                            in (case await_reply tracker tid 1 evs of
                               (Some reply, evs) \<Rightarrow>
                                 (if length reply < 20 then Inl UdpTruncated else Inr (read_reply reply), out)
                             | (None, evs) \<Rightarrow> (Inl UdpTruncated, out)))))"

definition announce :: "bool \<Rightarrow> (bool \<Rightarrow> bytes \<Rightarrow> bytes + int \<times> bytes) \<Rightarrow> (bytes \<Rightarrow> 32 word option) \<Rightarrow> bool \<Rightarrow> 32 word \<Rightarrow>
    (nat \<Rightarrow> bool) \<Rightarrow> udp_event list \<Rightarrow> bytes \<Rightarrow> announce_request \<Rightarrow> (tracker_error + announce_result) \<times> udp_out" where
  "announce ready fetch resolve has_socket tid sent evs url req =
     (if \<not> ready then (Inl NetworkDown, [])
      else if prefix_of (ascii ''udp://'') url then announce_udp resolve has_socket tid sent evs url req
      else if prefix_of (ascii ''http://'') url \<or> prefix_of (ascii ''https://'') url
      then (announce_http fetch resolve url req, [])
      else (Inl (SchemeUnknown (take 12 url)), []))"

subsection \<open>What is accepted\<close>

lemma parse_compact_peers_valid: "\<forall>e \<in> set (parse_compact_peers blob). endpoint_valid e"
proof (induction blob rule: parse_compact_peers.induct)
  case (1 blob)
  then show ?case by (subst parse_compact_peers.simps) auto
qed

lemma parse_compact_peers_of:
  "length rest < 6 \<Longrightarrow> parse_compact_peers (concat (map compact_of es) @ rest) = filter endpoint_valid es"
proof (induction es)
  case Nil
  then show ?case by (simp add: parse_compact_peers.simps)
next
  case (Cons e es)
  then show ?case by (subst parse_compact_peers.simps) (simp add: endpoint_at_compact)
qed

lemma listed_peers_valid: "\<forall>e \<in> set (listed_peers resolve ps). endpoint_valid e"
  by (induction ps) (auto simp: Let_def split: option.splits)

lemma answer_peers_valid: "\<forall>e \<in> set (answer_peers resolve root). endpoint_valid e"
proof (cases "find_key root (ascii ''peers'')")
  case (Some v)
  then show ?thesis by (cases v) (simp_all add: answer_peers_def parse_compact_peers_valid listed_peers_valid)
qed (simp add: answer_peers_def)

text \<open>
  A fitting answer comes from the address of the tracker and carries the action and the transaction
  identifier; what comes before it in the sequence is passed over.
\<close>

lemma matches_bytes:
  "matches tracker tid action sender buf \<longleftrightarrow>
     16 \<le> length buf \<and> ipv4 sender = ipv4 tracker \<and> be_num (take 4 buf) = unat action \<and>
     be_num (take 4 (drop 4 buf)) = unat tid"
  by (auto simp: matches_def rd_be32_take [symmetric] word_unat_eq_iff)

lemma matches_cut:
  assumes "matches tracker tid action sender (take 2048 data)"
  shows "16 \<le> length data" "ipv4 sender = ipv4 tracker" "be_num (take 4 data) = unat action"
    "be_num (take 4 (drop 4 data)) = unat tid"
  using assms unfolding matches_bytes by (simp_all add: drop_take)

lemma await_reply_from:
  "await_reply tracker tid action evs = (Some reply, evs') \<Longrightarrow>
     \<exists>before sender data. evs = before @ Datagram sender data # evs' \<and> reply = take 2048 data \<and>
       matches tracker tid action sender reply"
proof (induction tracker tid action evs rule: await_reply.induct)
  case (3 tracker tid action sender data evs)
  show ?case
  proof (cases "matches tracker tid action sender (take 2048 data)")
    case True
    with "3.prems" show ?thesis by (intro exI [of _ "[]"]) simp
  next
    case False
    with 3 obtain before s d where "evs = before @ Datagram s d # evs'" "reply = take 2048 d"
      "matches tracker tid action s reply" by auto
    then show ?thesis by (intro exI [of _ "Datagram sender data # before"]) auto
  qed
qed auto

lemma await_reply_rest: "await_reply tracker tid action evs = (r, evs') \<Longrightarrow> \<exists>before. evs = before @ evs'"
proof (induction tracker tid action evs rule: await_reply.induct)
  case (3 tracker tid action sender data evs)
  show ?case
  proof (cases "matches tracker tid action sender (take 2048 data)")
    case True
    with "3.prems" show ?thesis by (intro exI [of _ "[Datagram sender data]"]) simp
  next
    case False
    with 3 obtain before where "evs = before @ evs'" by auto
    then show ?thesis by (intro exI [of _ "Datagram sender data # before"]) simp
  qed
qed auto

lemma connect_attempts_from:
  "connect_attempts n tracker tid sent out evs = (Inr (cid, evs'), out') \<Longrightarrow>
     \<exists>before sender data j. evs = before @ Datagram sender data # evs' \<and> matches tracker tid 0 sender (take 2048 data) \<and>
        cid = rd_be64 (drop 8 (take 2048 data)) \<and> 0 < j \<and> j \<le> n \<and>
        out' = out @ replicate j (tracker, connect_request tid)"
proof (induction n arbitrary: out evs)
  case (Suc n)
  let ?out = "out @ [(tracker, connect_request tid)]"
  obtain r evs2 where a: "await_reply tracker tid 0 evs = (r, evs2)" by fastforce
  show ?case
  proof (cases r)
    case None
    then have "connect_attempts n tracker tid sent ?out evs2 = (Inr (cid, evs'), out')"
      using Suc.prems a by (simp split: if_splits)
    from Suc.IH [OF this] obtain before sender data j where f:
      "evs2 = before @ Datagram sender data # evs'" "matches tracker tid 0 sender (take 2048 data)"
      "cid = rd_be64 (drop 8 (take 2048 data))" "j \<le> n" "out' = ?out @ replicate j (tracker, connect_request tid)" by blast
    obtain b where "evs = b @ evs2" using await_reply_rest [OF a] by blast
    with f(1) have "evs = (b @ before) @ Datagram sender data # evs'" by simp
    moreover have "out' = out @ replicate (Suc j) (tracker, connect_request tid)" using f(5) by simp
    moreover have "0 < Suc j" "Suc j \<le> Suc n" using f(4) by simp_all
    ultimately show ?thesis using f(2,3) by blast
  next
    case (Some reply)
    then have o: "out' = out @ replicate 1 (tracker, connect_request tid)" "cid = rd_be64 (drop 8 reply)" "evs2 = evs'"
      using Suc.prems a by (auto split: if_splits)
    from await_reply_from [OF a [unfolded Some]] o(2,3) obtain before sender data where
      "evs = before @ Datagram sender data # evs'" "cid = rd_be64 (drop 8 (take 2048 data))"
      "matches tracker tid 0 sender (take 2048 data)" by auto
    moreover have "0 < (1 :: nat)" "1 \<le> Suc n" by simp_all
    ultimately show ?thesis using o(1) by blast
  qed
qed simp

text \<open>The requests as BEP 15 lays them out.\<close>

definition bep15_connect :: "nat \<Rightarrow> bytes" where
  "bep15_connect tid = num_be 8 0x41727101980 @ num_be 4 0 @ num_be 4 tid"

definition bep15_announce :: "bytes \<Rightarrow> nat \<Rightarrow> announce_request \<Rightarrow> bytes" where
  "bep15_announce connection_id tid req =
     connection_id @ num_be 4 1 @ num_be 4 tid @ aq_info_hash req @ aq_peer_id req @
     num_be 8 (aq_downloaded req) @ num_be 8 (aq_left req) @ num_be 8 (aq_uploaded req) @
     num_be 4 (case aq_event req of EvNone \<Rightarrow> 0 | EvCompleted \<Rightarrow> 1 | EvStarted \<Rightarrow> 2 | EvStopped \<Rightarrow> 3) @
     num_be 4 0 @ num_be 4 (aq_key req) @ num_be 4 (aq_num_want req) @ num_be 2 (aq_port req)"

lemma connect_request_bep15: "connect_request tid = bep15_connect (unat tid)"
  using wr_be64_of_nat [of "0x41727101980"] wr_be32_of_nat [of 0]
  by (simp add: connect_request_def bep15_connect_def wr_be32_num)

lemma announce_packet_bep15:
  "8 \<le> length cid \<Longrightarrow> announce_packet (rd_be64 cid) tid req = bep15_announce (take 8 cid) (unat tid) req"
  using wr_be32_of_nat [of 0] wr_be32_of_nat [of 1]
  by (simp add: announce_packet_def bep15_announce_def wr_rd_be64 wr_be32_num [of tid] wr_be64_of_nat wr_be32_of_nat
      wr_be16_of_nat event_code_def cong: announce_event.case_cong)

text \<open>The peers listed from an offset on, six bytes each.\<close>

definition peer_at :: "bytes \<Rightarrow> nat \<Rightarrow> endpoint" where
  "peer_at data k = \<lparr>ipv4 = of_nat (be_num (take 4 (drop k data))), port = of_nat (be_num (take 2 (drop (k + 4) data)))\<rparr>"

lemma endpoint_at_peer: "k + 6 \<le> length data \<Longrightarrow> endpoint_at (drop k data) = peer_at data k"
proof -
  assume len: "k + 6 \<le> length data"
  then have "unat (rd_be32 (drop k data)) = be_num (take 4 (drop k data))"
    "unat (rd_be16 (drop (k + 4) data)) = be_num (take 2 (drop (k + 4) data))"
    by (simp_all add: rd_be32_take rd_be16_take)
  then have "rd_be32 (drop k data) = of_nat (be_num (take 4 (drop k data)))"
    "rd_be16 (drop (k + 4) data) = of_nat (be_num (take 2 (drop (k + 4) data)))"
    by (metis of_nat_unat ucast_id)+
  then show ?thesis by (simp add: endpoint_at_def peer_at_def add.commute)
qed

lemma parse_compact_peers_at:
  "k \<le> length data \<Longrightarrow> parse_compact_peers (drop k data) =
     filter endpoint_valid (map (\<lambda>i. peer_at data (k + 6 * i)) [0..<(length data - k) div 6])"
proof (induction "(length data - k) div 6" arbitrary: k)
  case 0
  then show ?case by (subst parse_compact_peers.simps) auto
next
  case (Suc n)
  then have len: "k + 6 \<le> length data" by linarith
  then have n: "(length data - (k + 6)) div 6 = n" using Suc.hyps(2) by linarith
  have "parse_compact_peers (drop k data) =
      (if endpoint_valid (peer_at data k) then [peer_at data k] else []) @ parse_compact_peers (drop (k + 6) data)"
  proof -
    have "\<not> length (drop k data) < 6" using len by simp
    then show ?thesis
      by (subst parse_compact_peers.simps) (simp add: endpoint_at_peer [OF len] add.commute)
  qed
  also have "parse_compact_peers (drop (k + 6) data) =
      filter endpoint_valid (map (\<lambda>i. peer_at data (k + 6 + 6 * i)) [0..<n])"
    using Suc.hyps(1) [of "k + 6"] len n by simp
  also have "map (\<lambda>i. peer_at data (k + 6 + 6 * i)) [0..<n] = map (\<lambda>i. peer_at data (k + 6 * i)) (map Suc [0..<n])"
    by (simp add: add.assoc)
  finally show ?case
    unfolding Suc.hyps(2) [symmetric] upt_conv_Cons [OF zero_less_Suc] map_Suc_upt by simp
qed

lemma read_reply_fields:
  assumes "20 \<le> length data"
  shows "ar_interval (read_reply (take 2048 data)) = max 60 (be_num (take 4 (drop 8 data)))"
    "ar_leechers (read_reply (take 2048 data)) = be_num (take 4 (drop 12 data))"
    "ar_seeders (read_reply (take 2048 data)) = be_num (take 4 (drop 16 data))"
    "ar_peers (read_reply (take 2048 data)) = filter (\<lambda>e. ipv4 e \<noteq> 0 \<and> port e \<noteq> 0)
      (map (\<lambda>i. peer_at data (20 + 6 * i)) [0..<(min 2048 (length data) - 20) div 6])"
proof -
  have f: "rd32 (drop k (take 2048 data)) = be_num (take 4 (drop k data))" if "k \<le> 16" for k
  proof -
    have "4 \<le> length (drop k (take 2048 data))" using assms that by auto
    then show ?thesis using that by (simp add: rd32_def rd_be32_take drop_take min_def)
  qed
  show "ar_interval (read_reply (take 2048 data)) = max 60 (be_num (take 4 (drop 8 data)))"
    "ar_leechers (read_reply (take 2048 data)) = be_num (take 4 (drop 12 data))"
    "ar_seeders (read_reply (take 2048 data)) = be_num (take 4 (drop 16 data))"
    using f [of 8] f [of 12] f [of 16] by (simp_all add: read_reply_def Let_def max_def)
  have at: "peer_at (take 2048 data) k = peer_at data k" if "k + 6 \<le> min 2048 (length data)" for k
  proof -
    have "k + 6 \<le> 2048" using that by simp
    then show ?thesis by (simp add: peer_at_def drop_take min_def)
  qed
  have "ar_peers (read_reply (take 2048 data)) = filter endpoint_valid
      (map (\<lambda>i. peer_at (take 2048 data) (20 + 6 * i)) [0..<(min 2048 (length data) - 20) div 6])"
    using assms parse_compact_peers_at [of 20 "take 2048 data"] by (simp add: read_reply_def Let_def min.commute)
  also have "map (\<lambda>i. peer_at (take 2048 data) (20 + 6 * i)) [0..<(min 2048 (length data) - 20) div 6] =
      map (\<lambda>i. peer_at data (20 + 6 * i)) [0..<(min 2048 (length data) - 20) div 6]"
  proof (rule map_cong [OF refl])
    fix i
    assume "i \<in> set [0..<(min 2048 (length data) - 20) div 6]"
    then have "i < (min 2048 (length data) - 20) div 6" by simp
    then have "20 + 6 * i + 6 \<le> min 2048 (length data)" using assms by linarith
    then show "peer_at (take 2048 data) (20 + 6 * i) = peer_at data (20 + 6 * i)" by (rule at)
  qed
  finally show "ar_peers (read_reply (take 2048 data)) = filter (\<lambda>e. ipv4 e \<noteq> 0 \<and> port e \<noteq> 0)
      (map (\<lambda>i. peer_at data (20 + 6 * i)) [0..<(min 2048 (length data) - 20) div 6])"
    unfolding endpoint_valid_def .
qed

text \<open>C38: a UDP announce succeeds only on an exchange with the tracker itself, as BEP 15 has it.  Two
  datagrams from the address its name resolves to were received, in this order: one with action 0 and
  the transaction identifier drawn for this exchange, and one of at least 20 bytes with action 1 and the
  same identifier.  What left was one or two connection requests and then one announce, whose first
  eight bytes, the connection identifier, are bytes 8 to 15 of the first answer, followed by the fields
  of the request at their places.  The result is read from the second answer: the interval at byte 8,
  raised to a minute when it is under one, the leechers at 12, the seeders at 16, and the valid ones of
  the endpoints listed from byte 20 on.  (At most 2048 bytes of a datagram are read.)\<close>

theorem announce_udp_authentic:
  assumes "announce_udp resolve has_socket tid sent evs url req = (Inr res, out)"
  shows "\<exists>u ip n sender0 data0 sender data before between later tracker.
    parse_url url = Some u \<and> resolve (u_host u) = Some ip \<and> tracker = \<lparr>ipv4 = ip, port = of_nat (u_port u)\<rparr> \<and>
    evs = before @ Datagram sender0 data0 # between @ Datagram sender data # later \<and>
    ipv4 sender0 = ip \<and> 16 \<le> length data0 \<and>
    be_num (take 4 data0) = 0 \<and> be_num (take 4 (drop 4 data0)) = unat tid \<and>
    ipv4 sender = ip \<and> 20 \<le> length data \<and>
    be_num (take 4 data) = 1 \<and> be_num (take 4 (drop 4 data)) = unat tid \<and>
    n \<in> {1, 2} \<and>
    out = replicate n (tracker, bep15_connect (unat tid)) @
          [(tracker, bep15_announce (take 8 (drop 8 data0)) (unat tid) req)] \<and>
    ar_interval res = max 60 (be_num (take 4 (drop 8 data))) \<and>
    ar_leechers res = be_num (take 4 (drop 12 data)) \<and>
    ar_seeders res = be_num (take 4 (drop 16 data)) \<and>
    ar_peers res = filter (\<lambda>e. ipv4 e \<noteq> 0 \<and> port e \<noteq> 0)
      (map (\<lambda>i. peer_at data (20 + 6 * i)) [0..<(min 2048 (length data) - 20) div 6])"
proof -
  obtain u where u: "parse_url url = Some u" "u_port u \<noteq> 0"
    using assms by (auto simp: announce_udp_def split: option.splits if_splits)
  obtain ip where ip: "resolve (u_host u) = Some ip"
    using assms u by (auto simp: announce_udp_def split: option.splits)
  let ?t = "\<lparr>ipv4 = ip, port = of_nat (u_port u)\<rparr> :: endpoint"
  obtain cid evs1 out1 where c: "connect_attempts 2 ?t tid sent [] evs = (Inr (cid, evs1), out1)"
    using assms u ip by (auto simp: announce_udp_def Let_def split: if_splits sum.splits prod.splits)
  obtain r evs2 where a: "await_reply ?t tid 1 evs1 = (r, evs2)" by fastforce
  with assms u ip c obtain reply where r: "r = Some reply" "20 \<le> length reply" "res = read_reply reply"
    "out = out1 @ [(?t, announce_packet cid tid req)]"
    by (auto simp: announce_udp_def Let_def split: if_splits option.splits)
  obtain between sender data where d: "evs1 = between @ Datagram sender data # evs2" "reply = take 2048 data"
    "matches ?t tid 1 sender reply" using await_reply_from [OF a [unfolded r(1)]] by blast
  obtain before sender0 data0 n where e: "evs = before @ Datagram sender0 data0 # evs1"
    "matches ?t tid 0 sender0 (take 2048 data0)" "cid = rd_be64 (drop 8 (take 2048 data0))" "0 < n" "n \<le> 2"
    "out1 = replicate n (?t, connect_request tid)" using connect_attempts_from [OF c] by auto
  have n: "n \<in> {1, 2}" using e(4,5) by auto
  have m0: "16 \<le> length data0" "ipv4 sender0 = ip" "be_num (take 4 data0) = 0" "be_num (take 4 (drop 4 data0)) = unat tid"
    using matches_cut [OF e(2)] by simp_all
  have m1: "ipv4 sender = ip" "be_num (take 4 data) = 1" "be_num (take 4 (drop 4 data)) = unat tid"
    using matches_cut [OF d(3) [unfolded d(2)]] by simp_all
  have len: "20 \<le> length data" using r(2) d(2) by simp
  have packet: "announce_packet cid tid req = bep15_announce (take 8 (drop 8 data0)) (unat tid) req"
    unfolding e(3) using m0(1) by (subst announce_packet_bep15) (auto simp: drop_take min_def)
  have evs: "evs = before @ Datagram sender0 data0 # between @ Datagram sender data # evs2"
    by (simp only: e(1) d(1))
  have out: "out = replicate n (?t, bep15_connect (unat tid)) @
      [(?t, bep15_announce (take 8 (drop 8 data0)) (unat tid) req)]"
    by (simp only: r(4) e(6) packet connect_request_bep15)
  note fields = read_reply_fields [OF len, folded d(2), folded r(3)]
  show ?thesis
    by (rule exI [of _ u], rule exI [of _ ip], rule exI [of _ n], rule exI [of _ sender0], rule exI [of _ data0],
        rule exI [of _ sender], rule exI [of _ data], rule exI [of _ before], rule exI [of _ between],
        rule exI [of _ evs2], rule exI [of _ ?t], intro conjI)
      (fact u(1) ip refl evs m0 m1 len n out fields)+
qed

subsection \<open>An exchange\<close>

definition sample_events :: "udp_event list" where
  "sample_events =
     [Datagram \<lparr>ipv4 = 8, port = 1\<rparr> (wr_be32 0 @ wr_be32 5 @ wr_be64 1),
      Datagram \<lparr>ipv4 = 7, port = 1\<rparr> (wr_be32 0 @ wr_be32 5 @ wr_be64 9),
      Datagram \<lparr>ipv4 = 7, port = 1\<rparr> (wr_be32 1 @ wr_be32 5 @ wr_be32 0 @ wr_be32 2 @ wr_be32 3)]"

lemma sample_announce:
  "announce_udp (\<lambda>h. Some 7) True 5 (\<lambda>k. True) sample_events (url_text sample_url) req =
     (Inr (read_reply (wr_be32 1 @ wr_be32 5 @ wr_be32 0 @ wr_be32 2 @ wr_be32 3)),
      [(\<lparr>ipv4 = 7, port = of_nat (u_port sample_url)\<rparr>, connect_request 5),
       (\<lparr>ipv4 = 7, port = of_nat (u_port sample_url)\<rparr>, announce_packet 9 5 req)])"
proof -
  have p: "parse_url (url_text sample_url) = Some sample_url" using parse_url_of sample_url_ok by blast
  have port: "u_port sample_url \<noteq> 0" by (simp add: sample_url_def)
  show ?thesis
    unfolding announce_udp_def p sample_events_def Let_def
    using port rd_wr_be64 [of 9 "[]"] by (simp add: matches_def numeral_2_eq_2)
qed

theorem announce_udp_authentic_witness:
  "\<forall>req. \<exists>res out sender data.
     announce_udp (\<lambda>h. Some 7) True 5 (\<lambda>k. True) sample_events (url_text sample_url) req = (Inr res, out) \<and>
     Datagram sender data \<in> set sample_events \<and> ipv4 sender = 7 \<and> be_num (take 4 data) = 1 \<and>
     ar_interval res = max 60 (be_num (take 4 (drop 8 data))) \<and> ar_seeders res = be_num (take 4 (drop 16 data))"
proof
  fix req
  note run = sample_announce [of req]
  let ?ok = "\<lambda>sender data. Datagram sender data \<in> set sample_events \<and> ipv4 sender = 7 \<and> be_num (take 4 data) = 1 \<and>
     ar_interval (read_reply (wr_be32 1 @ wr_be32 5 @ wr_be32 0 @ wr_be32 2 @ wr_be32 3)) = max 60 (be_num (take 4 (drop 8 data))) \<and>
     ar_seeders (read_reply (wr_be32 1 @ wr_be32 5 @ wr_be32 0 @ wr_be32 2 @ wr_be32 3)) = be_num (take 4 (drop 16 data))"
  have "\<exists>sender data. ?ok sender data"
  proof -
    have "Datagram s d \<in> set sample_events" if "sample_events = b @ Datagram s0 d0 # m @ Datagram s d # l"
      for s s0 d d0 b m l unfolding that by simp
    then show ?thesis using announce_udp_authentic [OF run] by blast
  qed
  with run show "\<exists>res out sender data.
     announce_udp (\<lambda>h. Some 7) True 5 (\<lambda>k. True) sample_events (url_text sample_url) req = (Inr res, out) \<and>
     Datagram sender data \<in> set sample_events \<and> ipv4 sender = 7 \<and> be_num (take 4 data) = 1 \<and>
     ar_interval res = max 60 (be_num (take 4 (drop 8 data))) \<and> ar_seeders res = be_num (take 4 (drop 16 data))"
    by blast
qed

end
