(* ===== verification/Torrent.thy ===== *)
theory Torrent
  imports Writer Peer Tracker
begin

text \<open>
  One torrent of the session (class \<open>Torrent\<close> of \<open>source/bt/session.cpp\<close>): the engine's thread composes
  the metadata, the storage, the writing thread, the picker and the connections.

  The record has the members of the class.  A call to a connection may call back: \<open>poke\<close> applies the
  operation to connection number \<open>i\<close> and then runs the callbacks it logged, which is their order since
  these calls notify last.  The card is the disk of the storage; the resume file, which the storage does
  not know, is \<open>t_resume\<close>.  Choices the code leaves to its environment are arguments: the outcome of an
  attempt to connect (\<open>dial\<close>), the iteration order of the picker's hash tables (\<open>ord\<close>), whether an
  interactive check goes on.

  \<open>TorrentLaws\<close> proves the properties.
\<close>

datatype torrent_state = FetchingMetadata | Checking | Downloading | Seeding | Paused | Queued | Completed | Failed

datatype torrent_message = NoMessage | VpnMissing | TrackerFailed tracker_error | StorageFailed | WriteFailed
  | CorruptPiece nat | Finished | Resumed | Recreated | MetadataRejected merr | CheckingCard nat

record privacy =
  require_vpn :: bool
  https_trackers_only :: bool
  enable_dht :: bool
  enable_pex :: bool
  no_upload :: bool

record torrent =
  t_meta :: metainfo
  t_meta_complete :: bool
  t_checked :: bool
  t_user_paused :: bool
  t_queued :: bool
  t_hash_hex :: bytes
  t_name :: bytes
  t_dir :: bytes
  t_primary_file :: bytes
  t_message :: torrent_message
  t_storage :: storage
  t_writer :: writer
  t_picker :: picker
  t_state :: torrent_state
  t_peers :: "peer list"
  t_known :: "endpoint list"
  t_ceiling :: nat
  t_ceiling_retry :: nat
  t_failed :: "32 word \<rightharpoonup> nat"
  t_next_peer :: nat
  t_md_buf :: bytes
  t_md_have :: "bool list"
  t_md_size :: nat
  t_last_md :: nat
  t_uploaded :: nat
  t_down_sample :: nat
  t_up_sample :: nat
  t_last_rate :: nat
  t_rate_down :: nat
  t_rate_up :: nat
  t_seeders :: nat
  t_leechers :: nat
  t_corrupt :: nat
  t_announce_key :: nat
  t_next_announce :: nat
  t_announce_started :: bool
  t_completed_announced :: bool
  t_last_save :: nat
  t_resume :: "bytes option"
  t_resume_writable :: bool

definition kMaxPeersPerTorrent :: nat where
  "kMaxPeersPerTorrent = 60"

definition kMaxRequestsInFlight :: nat where
  "kMaxRequestsInFlight = 64"

definition kSessionBlockTimeoutMs :: nat where
  "kSessionBlockTimeoutMs = 45 * 1000"

definition kMetadataRetryMs :: nat where
  "kMetadataRetryMs = 8 * 1000"

definition kPeerRetryCooldownMs :: nat where
  "kPeerRetryCooldownMs = 120 * 1000"

definition kChokeGiveUpMs :: nat where
  "kChokeGiveUpMs = 40 * 1000"

definition kCeilingProbeMs :: nat where
  "kCeilingProbeMs = 20 * 1000"

definition kResumeSaveIntervalMs :: nat where
  "kResumeSaveIntervalMs = 10 * 1000"

definition kResumeMagic :: nat where
  "kResumeMagic = 0x54465231"

definition kMetadataPieceSize :: nat where
  "kMetadataPieceSize = 16 * 1024"

definition new_torrent :: "metainfo \<Rightarrow> bool \<Rightarrow> disk \<Rightarrow> bytes option \<Rightarrow> torrent" where
  "new_torrent meta complete disk0 resume =
     (let hex = to_hex (info_hash meta)
      in \<lparr>t_meta = meta, t_meta_complete = complete, t_checked = False, t_user_paused = False, t_queued = False,
          t_hash_hex = hex, t_name = (if mname meta = [] then take 16 hex else mname meta), t_dir = [], t_primary_file = [],
          t_message = NoMessage, t_storage = new_storage disk0, t_writer = new_writer, t_picker = picker_init empty_meta,
          t_state = (if complete then Checking else FetchingMetadata), t_peers = [], t_known = [],
          t_ceiling = kMaxPeersPerTorrent, t_ceiling_retry = 0, t_failed = Map.empty, t_next_peer = 0, t_md_buf = [],
          t_md_have = [], t_md_size = 0, t_last_md = 0, t_uploaded = 0, t_down_sample = 0, t_up_sample = 0, t_last_rate = 0,
          t_rate_down = 0, t_rate_up = 0, t_seeders = 0, t_leechers = 0, t_corrupt = 0, t_announce_key = 0,
          t_next_announce = 0, t_announce_started = False, t_completed_announced = False, t_last_save = 0,
          t_resume = resume, t_resume_writable = True\<rparr>)"

subsection \<open>The connections\<close>

text \<open>The handler under which an operation of a connection only logs its callbacks.\<close>

definition quiet :: peer_handler where
  "quiet ev p = p"

definition drop_requests :: "block_request list \<Rightarrow> picker \<Rightarrow> picker" where
  "drop_requests rs pk = fold (\<lambda>r. on_request_dropped (rpiece r) (roffset r)) rs pk"

definition drop_all_peers :: "torrent \<Rightarrow> torrent" where
  "drop_all_peers t =
     (if t_peers t = [] then t
      else t\<lparr>t_picker := (if t_meta_complete t
               then fold (\<lambda>p pk. let pk = drop_requests (outstanding p) pk
                    in if 0 < bits (p_pieces p) then peer_removed (p_pieces p) pk else pk) (t_peers t) (t_picker t)
               else t_picker t),
             t_peers := []\<rparr>)"

definition on_peer_bitfield :: "peer \<Rightarrow> torrent \<Rightarrow> torrent" where
  "on_peer_bitfield p t =
     (if \<not> t_meta_complete t then t else t\<lparr>t_picker := peer_added (p_pieces p) (t_picker t)\<rparr>)"

definition on_peer_have :: "nat \<Rightarrow> torrent \<Rightarrow> torrent" where
  "on_peer_have piece t =
     (if \<not> t_meta_complete t then t else t\<lparr>t_picker := peer_has piece (t_picker t)\<rparr>)"

definition on_peer_closed :: "peer \<Rightarrow> torrent \<Rightarrow> torrent" where
  "on_peer_closed p t =
     (if \<not> t_meta_complete t then t
      else
        let pk = (if 0 < bits (p_pieces p) then peer_removed (p_pieces p) (t_picker t) else t_picker t)
        in t\<lparr>t_picker := drop_requests (outstanding p) pk\<rparr>)"

text \<open>The callbacks of the calls the torrent makes to a connection: sending may close it, giving it the
  number of pieces may reveal its bitfield.\<close>

definition react :: "peer \<Rightarrow> peer_event \<Rightarrow> torrent \<Rightarrow> torrent" where
  "react p ev t =
     (case ev of
        EvClosed reason \<Rightarrow> on_peer_closed p t
      | EvBitfield \<Rightarrow> on_peer_bitfield p t
      | _ \<Rightarrow> t)"

definition poke :: "nat \<Rightarrow> (peer \<Rightarrow> peer) \<Rightarrow> torrent \<Rightarrow> torrent" where
  "poke i f t =
     (let p = t_peers t ! i;
          q = f p
      in fold (react q) (drop (length (p_events p)) (p_events q)) (t\<lparr>t_peers := (t_peers t)[i := q]\<rparr>))"

definition poke_all :: "(peer \<Rightarrow> bool) \<Rightarrow> (peer \<Rightarrow> peer) \<Rightarrow> torrent \<Rightarrow> torrent" where
  "poke_all P f t = fold (\<lambda>i t. if P (t_peers t ! i) then poke i f t else t) [0..<length (t_peers t)] t"

definition is_ready :: "peer \<Rightarrow> bool" where
  "is_ready p \<longleftrightarrow> p_state p = Ready"

subsection \<open>Pausing and queueing\<close>

definition apply_gate :: "torrent \<Rightarrow> torrent" where
  "apply_gate t =
     (if t_state t = Failed then t
      else if t_user_paused t then
        (if t_state t \<noteq> Paused then drop_all_peers t else t)\<lparr>t_state := Paused\<rparr>
      else if t_state t = Checking then t
      else if t_queued t then
        (if t_state t \<noteq> Queued then drop_all_peers t else t)\<lparr>t_state := Queued\<rparr>
      else if t_state t \<noteq> Paused \<and> t_state t \<noteq> Queued then t
      else t\<lparr>t_state :=
             (if \<not> t_meta_complete t then FetchingMetadata
              else if \<not> t_checked t then Checking
              else if is_complete (t_picker t) then Seeding else Downloading)\<rparr>)"

definition set_paused :: "bool \<Rightarrow> torrent \<Rightarrow> torrent" where
  "set_paused paused t = apply_gate (t\<lparr>t_user_paused := paused\<rparr>)"

definition set_queued :: "bool \<Rightarrow> torrent \<Rightarrow> torrent" where
  "set_queued queued t = apply_gate (t\<lparr>t_queued := queued\<rparr>)"

definition holds_slot :: "torrent \<Rightarrow> bool" where
  "holds_slot t \<longleftrightarrow> t_state t = Downloading \<or> t_state t = FetchingMetadata"

definition waiting_in_queue :: "torrent \<Rightarrow> bool" where
  "waiting_in_queue t \<longleftrightarrow> t_state t = Queued"

subsection \<open>The resume file\<close>

definition resume_bytes :: "metainfo \<Rightarrow> bitfield \<Rightarrow> bytes" where
  "resume_bytes m have =
     wr32 kResumeMagic @ wr32 (piece_count m) @ info_hash m @ wr32 (u32 (length (bdata have))) @ bdata have"

definition save_resume :: "torrent \<Rightarrow> torrent" where
  "save_resume t =
     (if \<not> t_meta_complete t \<or> \<not> t_resume_writable t then t
      else t\<lparr>t_resume := Some (resume_bytes (t_meta t) (have_bits (t_picker t)))\<rparr>)"

text \<open>What the file says is held, when it is for this torrent and well formed.\<close>

definition read_resume :: "metainfo \<Rightarrow> bytes \<Rightarrow> bitfield option" where
  "read_resume m file =
     (if length file < 32 then None
      else if rd32 file \<noteq> kResumeMagic \<or> rd32 (drop 4 file) \<noteq> piece_count m \<or> take 20 (drop 8 file) \<noteq> info_hash m then None
      else
        let len = rd32 (drop 28 file);
            data = take len (drop 32 file)
        in if length data \<noteq> len then None else bf_from_bytes data (piece_count m))"

definition set_all :: "(nat \<Rightarrow> bool) \<Rightarrow> nat \<Rightarrow> picker \<Rightarrow> picker" where
  "set_all held n pk = fold (\<lambda>i pk. if held i then set_have i pk else pk) [0..<n] pk"

definition load_resume :: "torrent \<Rightarrow> torrent \<times> bool" where
  "load_resume t =
     (case t_resume t of
        None \<Rightarrow> (t, False)
      | Some file \<Rightarrow>
          (case read_resume (t_meta t) file of
             None \<Rightarrow> (t, False)
           | Some have \<Rightarrow> (t\<lparr>t_picker := set_all (bf_get have) (piece_count (t_meta t)) (t_picker t)\<rparr>, True)))"

subsection \<open>Opening and checking the content\<close>

definition prepare_storage :: "bytes \<Rightarrow> nat \<Rightarrow> torrent \<Rightarrow> torrent \<times> bool" where
  "prepare_storage dir free_bytes t =
     (case open_storage (t_meta t) dir free_bytes (t_storage t) of
        None \<Rightarrow> (t\<lparr>t_dir := dir, t_state := Failed, t_message := StorageFailed\<rparr>, False)
      | Some st \<Rightarrow>
          let t = t\<lparr>t_dir := dir, t_storage := st, t_picker := picker_init (t_meta t),
                t_primary_file := largest_file_path st, t_writer := writer_start (t_writer t)\<rparr>
          in (if created_fresh st \<and> t_resume t = None then save_resume t else t, True))"

definition content_path :: "torrent \<Rightarrow> file_entry \<Rightarrow> bytes" where
  "content_path t f =
     (if single_file (t_meta t) then t_dir t else t_dir t @ B CHR ''/'' # mname (t_meta t)) @ B CHR ''/'' # fpath f"

definition resume_path :: "torrent \<Rightarrow> bytes" where
  "resume_path t = t_dir t @ ascii ''/.'' @ take 16 (t_hash_hex t) @ ascii ''.torfoil''"

text \<open>\<open>delete_files\<close>: the content is closed, then these paths are removed.\<close>

definition delete_files :: "torrent \<Rightarrow> torrent \<times> bytes list" where
  "delete_files t =
     (t\<lparr>t_storage := close_storage (t_storage t), t_resume := None\<rparr>,
      map (content_path t) (files (t_meta t)) @ [resume_path t])"

definition any_data_on_disk :: "torrent \<Rightarrow> bool" where
  "any_data_on_disk t \<longleftrightarrow> (\<exists>f \<in> set (files (t_meta t)). 0 < file_size (sdisk (t_storage t)) (content_path t f))"

definition scan_card :: "(nat \<Rightarrow> bool) \<Rightarrow> torrent \<Rightarrow> torrent" where
  "scan_card keep_going t =
     (let (st, held, complete) = scan_existing keep_going (t_storage t)
      in save_resume (t\<lparr>t_storage := st, t_picker := set_all (\<lambda>i. held ! i) (length held) (t_picker t)\<rparr>))"

definition run_check :: "(nat \<Rightarrow> bool) \<Rightarrow> torrent \<Rightarrow> torrent" where
  "run_check keep_going t =
     (if recreated (t_storage t) then
        apply_gate (t\<lparr>t_resume := None, t_message := Recreated, t_checked := True, t_state := Downloading\<rparr>)
      else
        let (t, loaded) = load_resume t;
            t = (if loaded then t\<lparr>t_message := Resumed\<rparr>
                 else if \<not> created_fresh (t_storage t) \<and> any_data_on_disk t then scan_card keep_going t
                 else t);
            complete = is_complete (t_picker t)
        in apply_gate (t\<lparr>t_checked := True, t_state := (if complete then Seeding else Downloading),
             t_message := (if complete then Finished else t_message t)\<rparr>))"

subsection \<open>Trackers\<close>

definition wants_announce :: "nat \<Rightarrow> torrent \<Rightarrow> bool" where
  "wants_announce now t \<longleftrightarrow> t_state t \<noteq> Paused \<and> t_state t \<noteq> Queued \<and> t_state t \<noteq> Failed \<and> t_next_announce t \<le> now"

definition mark_announced :: "nat \<Rightarrow> nat \<Rightarrow> torrent \<Rightarrow> torrent" where
  "mark_announced now interval t = t\<lparr>t_next_announce := u64 (now + interval * 1000)\<rparr>"

definition next_event :: "torrent \<Rightarrow> announce_event" where
  "next_event t =
     (if \<not> t_announce_started t then EvStarted
      else if t_meta_complete t \<and> is_complete (t_picker t) \<and> \<not> t_completed_announced t then EvCompleted
      else EvNone)"

definition note_event_sent :: "announce_event \<Rightarrow> torrent \<Rightarrow> torrent" where
  "note_event_sent ev t =
     (let t = (if ev = EvStarted then t\<lparr>t_announce_started := True\<rparr> else t)
      in if ev = EvCompleted then t\<lparr>t_completed_announced := True\<rparr> else t)"

definition make_request :: "bytes \<Rightarrow> announce_event \<Rightarrow> torrent \<Rightarrow> announce_request" where
  "make_request peer_id ev t =
     \<lparr>aq_info_hash = info_hash (t_meta t), aq_peer_id = peer_id, aq_port = 6881, aq_uploaded = t_uploaded t,
      aq_downloaded = bytes_done (t_picker t),
      aq_left = (if t_meta_complete t then sub64 (total_size (t_meta t)) (bytes_done (t_picker t)) else 0),
      aq_event = ev, aq_num_want = 60, aq_key = t_announce_key t\<rparr>"

fun add_new :: "endpoint list \<Rightarrow> endpoint list \<Rightarrow> endpoint list" where
  "add_new [] known = known"
| "add_new (ep # eps) known =
     add_new eps (if endpoint_valid ep \<and> ep \<notin> set known then known @ [ep] else known)"

definition add_peers :: "endpoint list \<Rightarrow> torrent \<Rightarrow> torrent" where
  "add_peers found t =
     t\<lparr>t_message := (if found \<noteq> [] then NoMessage else t_message t), t_known := add_new found (t_known t)\<rparr>"

definition apply_announce :: "tracker_error + announce_result \<Rightarrow> nat \<Rightarrow> torrent \<Rightarrow> torrent" where
  "apply_announce result now t =
     (case result of
        Inl e \<Rightarrow> if t_known t = [] then t\<lparr>t_message := TrackerFailed e\<rparr> else t
      | Inr r \<Rightarrow>
          add_peers (ar_peers r)
            (t\<lparr>t_message := NoMessage, t_seeders := max (t_seeders t) (ar_seeders r),
               t_leechers := max (t_leechers t) (ar_leechers r),
               t_next_announce := u64 (now + max 60 (ar_interval r) * 1000)\<rparr>))"

definition on_peers_discovered :: "privacy \<Rightarrow> endpoint list \<Rightarrow> torrent \<Rightarrow> torrent" where
  "on_peers_discovered rules found t =
     (if \<not> enable_pex rules \<or> is_private (t_meta t) then t else add_peers found t)"

definition needs_peers :: "torrent \<Rightarrow> bool" where
  "needs_peers t \<longleftrightarrow> length (t_known t) < 60"

subsection \<open>Pieces\<close>

definition finish_piece :: "nat \<Rightarrow> bool \<Rightarrow> bool \<Rightarrow> bool \<Rightarrow> torrent \<Rightarrow> torrent" where
  "finish_piece piece hash_ok commit_needed write_failed t =
     (if write_failed then t\<lparr>t_state := Failed, t_message := WriteFailed\<rparr>
      else
        let t = t\<lparr>t_picker := on_piece_verified piece hash_ok (t_picker t)\<rparr>
        in if \<not> hash_ok then
             t\<lparr>t_storage := discard_piece piece (t_storage t), t_corrupt := u32 (t_corrupt t + 1),
               t_message := CorruptPiece (u32 (t_corrupt t + 1))\<rparr>
           else
             let (st, ok) = (if commit_needed then commit_piece piece (t_storage t) else (t_storage t, True));
                 t = t\<lparr>t_storage := st\<rparr>
             in if \<not> ok then t\<lparr>t_state := Failed, t_message := WriteFailed\<rparr>
                else
                  let t = poke_all is_ready (send_have quiet piece) t
                  in if \<not> is_complete (t_picker t) then t
                     else poke_all (\<lambda>p. True) (send_interested quiet False)
                            ((save_resume t)\<lparr>t_state := Seeding, t_message := Finished\<rparr>))"

text \<open>Handing a piece to the writing thread, which goes on while the engine waits for room.\<close>

fun submit_wait :: "nat \<Rightarrow> nat \<Rightarrow> bytes \<Rightarrow> writer \<times> storage \<Rightarrow> writer \<times> storage" where
  "submit_wait 0 piece data ws = ws"
| "submit_wait (Suc n) piece data ws =
     (case submit piece data (fst ws) of
        Some w \<Rightarrow> (w, snd ws)
      | None \<Rightarrow> submit_wait n piece data (worker_step ws))"

definition submit_fuel :: "writer \<Rightarrow> nat" where
  "submit_fuel w = 2 * length (w_jobs w) + 2"

definition on_peer_block :: "nat \<Rightarrow> nat \<Rightarrow> bytes \<Rightarrow> torrent \<Rightarrow> torrent" where
  "on_peer_block piece off data t =
     (if \<not> t_meta_complete t \<or> t_state t = Paused \<or> t_state t = Queued then t
      else if piece_count (t_meta t) \<le> piece \<or> data = [] then t
      else
        let (st, ok) = write_block piece off data (t_storage t);
            t = t\<lparr>t_storage := st\<rparr>
        in if \<not> ok then t\<lparr>t_state := Failed, t_message := WriteFailed\<rparr>
           else
             let (pk, whole_piece) = on_block_received piece off (t_picker t);
                 t = t\<lparr>t_down_sample := u64 (t_down_sample t + length data), t_picker := pk\<rparr>
             in if \<not> whole_piece then t
                else
                  let (st, whole) = (if w_running (t_writer t) then take_complete_piece piece (t_storage t) else (t_storage t, None));
                      t = t\<lparr>t_storage := st\<rparr>
                  in case whole of
                       Some bs \<Rightarrow>
                         let (w, st) = submit_wait (submit_fuel (t_writer t)) piece bs (t_writer t, t_storage t)
                         in t\<lparr>t_writer := w, t_storage := st\<rparr>
                     | None \<Rightarrow>
                         let (st, good) = verify_piece piece (t_storage t)
                         in finish_piece piece good True False (t\<lparr>t_storage := st\<rparr>))"

text \<open>A result with neither a wrong hash nor a success carries the error message of the write.\<close>

definition collect_written_pieces :: "torrent \<Rightarrow> torrent" where
  "collect_written_pieces t =
     (let (w, results) = take_results (t_writer t)
      in fold (\<lambda>r. finish_piece (res_piece r) (\<not> res_hash_failed r) False (\<not> res_ok r \<and> \<not> res_hash_failed r))
           results (t\<lparr>t_writer := w\<rparr>))"

definition on_peer_request :: "privacy \<Rightarrow> nat \<Rightarrow> nat \<Rightarrow> nat \<Rightarrow> nat \<Rightarrow> torrent \<Rightarrow> torrent" where
  "on_peer_request rules i piece off len t =
     (if no_upload rules then t
      else if \<not> t_meta_complete t \<or> len = 0 \<or> 32 * 1024 < len then t
      else if piece_count (t_meta t) \<le> piece \<or> \<not> bf_get (have_bits (t_picker t)) piece then t
      else
        let (st, data) = read_block piece off len (t_storage t);
            t = t\<lparr>t_storage := st\<rparr>
        in case data of
             None \<Rightarrow> t
           | Some bs \<Rightarrow>
               (poke i (send_block quiet piece off bs) t)
                 \<lparr>t_uploaded := u64 (t_uploaded t + len), t_up_sample := u64 (t_up_sample t + len)\<rparr>)"

subsection \<open>Metadata from the peers\<close>

definition on_peer_metadata_size :: "nat \<Rightarrow> torrent \<Rightarrow> torrent" where
  "on_peer_metadata_size n t =
     (if t_meta_complete t \<or> n = 0 \<or> t_md_size t \<noteq> 0 then t
      else t\<lparr>t_md_size := n, t_md_buf := replicate n 0,
             t_md_have := replicate (u32 (n + kMetadataPieceSize - 1) div kMetadataPieceSize) False\<rparr>)"

definition finish_metadata :: "nat \<Rightarrow> torrent \<Rightarrow> torrent" where
  "finish_metadata free_bytes t =
     (case parse_info_dict (t_md_buf t) (info_hash (t_meta t)) empty_meta of
        Inl e \<Rightarrow> t\<lparr>t_message := MetadataRejected e, t_md_size := 0, t_md_buf := [], t_md_have := []\<rparr>
      | Inr parsed \<Rightarrow>
          let t = t\<lparr>t_meta := parsed\<lparr>trackers := trackers (t_meta t)\<rparr>, t_meta_complete := True, t_name := mname parsed\<rparr>;
              (t, ok) = prepare_storage (t_dir t) free_bytes t
          in if \<not> ok then t
             else
               let t = poke_all (\<lambda>p. True) (\<lambda>p. send_interested quiet True (set_piece_count quiet (piece_count (t_meta t)) p)) t
               in apply_gate (t\<lparr>t_checked := False, t_state := Checking\<rparr>))"

definition on_peer_metadata_piece :: "nat \<Rightarrow> nat \<Rightarrow> bytes \<Rightarrow> torrent \<Rightarrow> torrent" where
  "on_peer_metadata_piece free_bytes index data t =
     (if t_meta_complete t \<or> t_md_size t = 0 then t
      else if length (t_md_have t) \<le> index \<or> t_md_have t ! index then t
      else
        let off = index * kMetadataPieceSize
        in if t_md_size t < off + length data then t
           else
             let t = t\<lparr>t_md_buf := take off (t_md_buf t) @ data @ drop (off + length data) (t_md_buf t),
                   t_md_have := (t_md_have t)[index := True]\<rparr>
             in if list_all id (t_md_have t) then finish_metadata free_bytes t else t)"

definition supports_metadata :: "peer \<Rightarrow> bool" where
  "supports_metadata p \<longleftrightarrow> p_ut_metadata_id p \<noteq> 0"

fun first_index :: "('a \<Rightarrow> bool) \<Rightarrow> 'a list \<Rightarrow> nat option" where
  "first_index P [] = None"
| "first_index P (x # xs) = (if P x then Some 0 else map_option Suc (first_index P xs))"

definition drive_metadata :: "nat \<Rightarrow> torrent \<Rightarrow> torrent" where
  "drive_metadata now t =
     (if t_md_size t = 0 \<or> sub64 now (t_last_md t) < kMetadataRetryMs then t
      else fold (\<lambda>i t. if t_md_have t ! i then t
                else case first_index (\<lambda>p. is_ready p \<and> supports_metadata p) (t_peers t) of
                       None \<Rightarrow> t
                     | Some j \<Rightarrow> poke j (request_metadata_piece quiet i) t)
             [0..<length (t_md_have t)] (t\<lparr>t_last_md := now\<rparr>))"

subsection \<open>Connecting\<close>

text \<open>\<open>start\<close> gives a socket, meets the limit of the system, or fails for this address.\<close>

datatype dialed = Dialed tcp_socket | NoSocketsLeft | Unreachable

fun connect_loop :: "nat \<Rightarrow> nat \<Rightarrow> privacy \<Rightarrow> bytes \<Rightarrow> (endpoint \<Rightarrow> dialed) \<Rightarrow> nat \<Rightarrow> nat \<Rightarrow> torrent \<Rightarrow> torrent" where
  "connect_loop 0 cap rules my_id dial now clk t = t"
| "connect_loop (Suc n) cap rules my_id dial now clk t =
     (if cap \<le> length (t_peers t) then t
      else
        let ep = t_known t ! (t_next_peer t mod length (t_known t));
            t = t\<lparr>t_next_peer := u64 (t_next_peer t + 1)\<rparr>
        in if (\<exists>p \<in> set (t_peers t). p_endpoint p = ep) then connect_loop n cap rules my_id dial now clk t
           else if (case t_failed t (ipv4 ep) of None \<Rightarrow> False | Some until \<Rightarrow> now < until)
           then connect_loop n cap rules my_id dial now clk t
           else
             case dial ep of
               Dialed sock \<Rightarrow>
                 let p = fst (start_peer (Some (sock, True)) clk
                           (new_peer ep (info_hash (t_meta t)) my_id (enable_pex rules \<and> \<not> is_private (t_meta t))))
                 in connect_loop n cap rules my_id dial now clk (t\<lparr>t_peers := t_peers t @ [p]\<rparr>)
             | NoSocketsLeft \<Rightarrow>
                 t\<lparr>t_ceiling := max 8 (length (t_peers t)), t_ceiling_retry := u64 (now + kCeilingProbeMs)\<rparr>
             | Unreachable \<Rightarrow>
                 connect_loop n cap rules my_id dial now clk
                   (t\<lparr>t_failed := (t_failed t)(ipv4 ep \<mapsto> u64 (now + kPeerRetryCooldownMs))\<rparr>))"

definition connect_more :: "privacy \<Rightarrow> bytes \<Rightarrow> (endpoint \<Rightarrow> dialed) \<Rightarrow> nat \<Rightarrow> nat \<Rightarrow> torrent \<Rightarrow> torrent" where
  "connect_more rules my_id dial now clk t =
     (let t = (if t_ceiling t < kMaxPeersPerTorrent \<and> t_ceiling_retry t \<le> now
               then t\<lparr>t_ceiling := min kMaxPeersPerTorrent (t_ceiling t + 8), t_ceiling_retry := u64 (now + kCeilingProbeMs)\<rparr>
               else t);
          cap = min kMaxPeersPerTorrent (t_ceiling t)
      in if cap \<le> length (t_peers t) \<or> t_known t = [] then t
         else connect_loop (length (t_known t)) cap rules my_id dial now clk t)"

subsection \<open>The other callbacks\<close>

definition on_peer_ready :: "privacy \<Rightarrow> nat \<Rightarrow> torrent \<Rightarrow> torrent" where
  "on_peer_ready rules i t =
     (let t = (if \<not> t_meta_complete t then t
               else
                 let t = poke i (set_piece_count quiet (piece_count (t_meta t))) t;
                     have = have_bits (t_picker t);
                     t = (if 0 < bcount have then poke i (send_bitfield quiet have) t else t)
                 in poke i (send_interested quiet (\<not> is_complete (t_picker t))) t)
      in poke i (send_choke quiet (no_upload rules)) t)"

definition on_peer_choke :: "nat \<Rightarrow> bool \<Rightarrow> torrent \<Rightarrow> torrent" where
  "on_peer_choke i choked t =
     (if \<not> choked \<or> \<not> t_meta_complete t then t
      else t\<lparr>t_picker := drop_requests (outstanding (t_peers t ! i)) (t_picker t)\<rparr>)"

definition on_event :: "privacy \<Rightarrow> nat \<Rightarrow> nat \<Rightarrow> peer_event \<Rightarrow> torrent \<Rightarrow> torrent" where
  "on_event rules free_bytes i ev t =
     (case ev of
        EvReady \<Rightarrow> on_peer_ready rules i t
      | EvBitfield \<Rightarrow> on_peer_bitfield (t_peers t ! i) t
      | EvHave piece \<Rightarrow> on_peer_have piece t
      | EvChoke choked \<Rightarrow> on_peer_choke i choked t
      | EvBlock piece off data \<Rightarrow> on_peer_block piece off data t
      | EvMetadataSize n \<Rightarrow> on_peer_metadata_size n t
      | EvMetadataPiece index data \<Rightarrow> on_peer_metadata_piece free_bytes index data t
      | EvRequest piece off len \<Rightarrow> on_peer_request rules i piece off len t
      | EvPeers found \<Rightarrow> on_peers_discovered rules found t
      | EvClosed reason \<Rightarrow> on_peer_closed (t_peers t ! i) t)"

text \<open>A message received by connection \<open>i\<close>: the connection's own change, then its callbacks.  The callback
  of a choke still sees the requests in flight, which the connection forgets after it.\<close>

definition deliver :: "privacy \<Rightarrow> nat \<Rightarrow> nat \<Rightarrow> bytes \<Rightarrow> nat \<Rightarrow> torrent \<Rightarrow> torrent" where
  "deliver rules free_bytes i data now t =
     (let p = t_peers t ! i;
          q = handle_message quiet data now p;
          evs = drop (length (p_events p)) (p_events q);
          choked = (EvChoke True \<in> set evs);
          t = fold (on_event rules free_bytes i) evs
                (t\<lparr>t_peers := (t_peers t)[i := (if choked then q\<lparr>p_requested := p_requested p\<rparr> else q)]\<rparr>)
      in if choked then t\<lparr>t_peers := (t_peers t)[i := (t_peers t ! i)\<lparr>p_requested := []\<rparr>]\<rparr> else t)"

subsection \<open>A turn of the engine\<close>

text \<open>\<open>ord\<close> is the order in which the picker's table of begun pieces is gone through.\<close>

definition request_blocks :: "(picker \<Rightarrow> nat list) \<Rightarrow> nat \<Rightarrow> nat \<Rightarrow> nat \<Rightarrow> torrent \<Rightarrow> torrent" where
  "request_blocks ord now clk i t =
     (if is_complete (t_picker t) \<or> p_peer_choking (t_peers t ! i) then t
      else
        let t = poke i (send_interested quiet True) t;
            in_flight = length (p_requested (t_peers t ! i))
        in if kMaxRequestsInFlight \<le> in_flight then t
           else
             let (pk, picks) = pick (t_picker t) (ord (t_picker t)) (p_pieces (t_peers t ! i)) (kMaxRequestsInFlight - in_flight) now
             in fold (\<lambda>r. poke i (send_request quiet clk r)) picks (t\<lparr>t_picker := pk\<rparr>))"

definition update_rates :: "nat \<Rightarrow> torrent \<Rightarrow> torrent" where
  "update_rates now t =
     (if t_last_rate t = 0 then t\<lparr>t_last_rate := now\<rparr>
      else
        let span = sub64 now (t_last_rate t)
        in if span < 1000 then t
           else t\<lparr>t_rate_down := u32 (u64 (t_down_sample t * 1000) div span), t_rate_up := u32 (u64 (t_up_sample t * 1000) div span),
                  t_down_sample := 0, t_up_sample := 0, t_last_rate := now\<rparr>)"

definition useless :: "nat \<Rightarrow> peer \<Rightarrow> bool" where
  "useless now p \<longleftrightarrow> p_state p = Ready \<and> p_peer_choking p \<and> p_bytes_down p = 0 \<and> p_choked_since p \<noteq> 0 \<and>
     kChokeGiveUpMs < sub64 now (p_choked_since p)"

definition torrent_tick :: "privacy \<Rightarrow> bool \<Rightarrow> bytes \<Rightarrow> (endpoint \<Rightarrow> dialed) \<Rightarrow> (picker \<Rightarrow> nat list) \<Rightarrow> (picker \<Rightarrow> nat list) \<Rightarrow>
    nat \<Rightarrow> nat \<Rightarrow> torrent \<Rightarrow> torrent" where
  "torrent_tick rules network my_id dial ord ord_req now clk t =
     (if t_state t = Paused \<or> t_state t = Queued \<or> t_state t = Failed then t
      else if \<not> network then
        (let t = drop_all_peers t
         in if require_vpn rules \<and> t_message t = NoMessage then t\<lparr>t_message := VpnMissing\<rparr> else t)
      else
        let t = t\<lparr>t_peers := filter (\<lambda>p. p_state p \<noteq> Closed) (t_peers t)\<rparr>;
            t = poke_all (\<lambda>p. True) (tick quiet now) t;
            t = poke_all (useless now) (close_peer quiet (OwnerReason [])) t;
            t = connect_more rules my_id dial now clk t
        in if \<not> t_meta_complete t then drive_metadata now t
           else if t_state t = Checking then t
           else
             let t = collect_written_pieces t
             in if t_state t = Failed then t
                else
                  let t = t\<lparr>t_picker := fst (expire_requests (ord_req (t_picker t)) now kSessionBlockTimeoutMs (t_picker t))\<rparr>;
                      t = fold (\<lambda>i t. if is_ready (t_peers t ! i) then request_blocks ord now clk i t else t)
                            [0..<length (t_peers t)] t;
                      t = (if kResumeSaveIntervalMs < sub64 now (t_last_save t) then (save_resume t)\<lparr>t_last_save := now\<rparr> else t)
                  in update_rates now t)"

subsection \<open>A poll\<close>

text \<open>\<open>PeerConnection::on_poll\<close> up to its messages; the flag says that they are to be read.\<close>

definition poll_head :: "peer_handler \<Rightarrow> bool \<Rightarrow> bool \<Rightarrow> bool \<Rightarrow> nat \<Rightarrow> nat \<Rightarrow> peer \<Rightarrow> peer \<times> bool" where
  "poll_head h has_error can_read can_write now clk p =
     (case p_sock p of
        None \<Rightarrow> (p, False)
      | Some sk \<Rightarrow>
          if p_state p = Closed then (p, False)
          else if has_error then (close_peer h SocketError p, False)
          else if p_state p = Connecting then
            (if \<not> can_write then p
             else if \<not> sk_finish sk then close_peer h ConnectRefused p
             else (flush_out h (send_handshake (p\<lparr>p_state := Handshaking\<rparr>)))\<lparr>p_last_activity := now\<rparr>, False)
          else
            let p = (if can_write then flush_out h p else p)
            in if p_state p = Closed \<or> \<not> can_read then (p, False)
               else
                 let (p, ok) = recv_loop h 8 now p
                 in if \<not> ok then (p, False)
                    else if p_state p = Handshaking then consume_handshake h clk p else (p, True))"

lemma on_poll_head:
  "on_poll h e r w now clk p =
     (let (q, go) = poll_head h e r w now clk p
      in if go \<and> p_state q = Ready then fst (consume_messages h now q) else q)"
proof (cases "p_sock p")
  case (Some sk)
  show ?thesis
  proof (cases "p_state p = Closed \<or> e \<or> p_state p = Connecting")
    case True
    then show ?thesis unfolding on_poll_def poll_head_def Some option.case Let_def by (elim disjE) (simp_all split: if_splits)
  next
    case False
    let ?p = "if w then flush_out h p else p"
    obtain a ok where a: "recv_loop h 8 now ?p = (a, ok)" by fastforce
    show ?thesis unfolding on_poll_def poll_head_def Some option.case Let_def a prod.case using False by (simp split: prod.split)
  qed
qed (simp add: on_poll_def poll_head_def)

text \<open>\<open>consume_messages\<close>, with the callbacks of each message before the next one is read.  A message
  consumes four bytes at least, which bounds the recursion by the bytes received.\<close>

fun poll_messages :: "nat \<Rightarrow> privacy \<Rightarrow> nat \<Rightarrow> nat \<Rightarrow> nat \<Rightarrow> torrent \<Rightarrow> torrent" where
  "poll_messages 0 rules free_bytes i now t = t"
| "poll_messages (Suc n) rules free_bytes i now t =
     (let p = t_peers t ! i;
          available = length (p_in p) - p_in_pos p;
          msg_len = rd32 (drop (p_in_pos p) (p_in p))
      in if length (t_peers t) \<le> i \<or> available < 4 then t
         else if kMaxMessageLen < msg_len then poke i (close_peer quiet OversizeMessage) t
         else if available < 4 + msg_len then t
         else
           let t = deliver rules free_bytes i (take msg_len (drop (p_in_pos p + 4) (p_in p))) now t;
               q = t_peers t ! i
           in if length (t_peers t) \<le> i \<or> p_state q = Closed then t
              else poll_messages n rules free_bytes i now
                     (t\<lparr>t_peers := (t_peers t)[i := compact_in (q\<lparr>p_in_pos := p_in_pos q + 4 + msg_len\<rparr>)]\<rparr>))"

text \<open>What a poll answers for a connection: an error, that reading is possible, that writing is.\<close>

definition poll_peer :: "privacy \<Rightarrow> nat \<Rightarrow> nat \<Rightarrow> bool \<times> bool \<times> bool \<Rightarrow> nat \<Rightarrow> nat \<Rightarrow> torrent \<Rightarrow> torrent" where
  "poll_peer rules free_bytes i answer now clk t =
     (let (e, r, w) = answer;
          p = t_peers t ! i;
          (q, go) = poll_head quiet e r w now clk p;
          t = fold (on_event rules free_bytes i) (drop (length (p_events p)) (p_events q)) (t\<lparr>t_peers := (t_peers t)[i := q]\<rparr>)
      in if go \<and> i < length (t_peers t) \<and> p_state (t_peers t ! i) = Ready
         then poll_messages (length (p_in (t_peers t ! i))) rules free_bytes i now t else t)"

text \<open>\<open>gather_poll\<close>: the connections the poll is asked about.\<close>

definition gather_poll :: "torrent \<Rightarrow> nat list" where
  "gather_poll t = filter (\<lambda>i. p_state (t_peers t ! i) \<noteq> Closed \<and> fill_poll (t_peers t ! i) \<noteq> None) [0..<length (t_peers t)]"

definition poll_torrent :: "privacy \<Rightarrow> nat \<Rightarrow> (nat \<Rightarrow> bool \<times> bool \<times> bool) \<Rightarrow> nat \<Rightarrow> nat \<Rightarrow> torrent \<Rightarrow> torrent" where
  "poll_torrent rules free_bytes reports now clk t =
     fold (\<lambda>i. poll_peer rules free_bytes i (reports i) now clk) (gather_poll t) t"

text \<open>A step of the writing thread.\<close>

definition writer_turn :: "torrent \<Rightarrow> torrent" where
  "writer_turn t = (let (w, st) = worker_step (t_writer t, t_storage t) in t\<lparr>t_writer := w, t_storage := st\<rparr>)"

end
