(* ===== verification/Session.thy ===== *)
theory Session
  imports Torrent Magnet Dht
begin

text \<open>
  The session (class \<open>Session\<close> of \<open>source/bt/session.cpp\<close>, \<open>include/bt/session.hpp\<close>): the torrents, the
  commands of the interface, the queue that bounds the torrents downloading at once, the engine's turn
  and the thread that announces to the trackers.

  A transport is what the session looks at: whether its name says it is direct, whether it is ready, and
  what it answers to the DHT.  What a turn takes from outside is the record \<open>env\<close>: the file
  system and the random key for a new torrent (each torrent sees the card through its own storage), the
  connections that can be opened, the iteration order of the hash tables, the sort of the DHT, the
  answers of the poll and the clock, read once.  The paths a removal deletes are logged in
  \<open>ss_removed\<close>.  \<open>session_step\<close> interleaves the interface, the engine, the announcing
  thread and the writing threads.
\<close>

record session_transport =
  tp_id :: nat
  tp_direct :: bool
  tp_ready :: bool
  tp_dht :: dht_net

record torrent_status =
  st_hash :: bytes
  st_name :: bytes
  st_state :: torrent_state
  st_total :: nat
  st_downloaded :: nat
  st_uploaded :: nat
  st_rate_down :: nat
  st_rate_up :: nat
  st_connected :: nat
  st_known :: nat
  st_choking :: nat
  st_in_flight :: nat
  st_seeders :: nat
  st_leechers :: nat
  st_eta :: nat
  st_message :: torrent_message
  st_save_path :: bytes
  st_content_root :: bytes
  st_primary :: bytes
  st_pieces_total :: nat
  st_pieces_done :: nat
  st_rejected :: nat
  st_piece_length :: nat
  st_file_count :: nat
  st_private :: bool
  st_magnet :: bytes
  st_trackers :: "bytes list"

datatype command = AddTorrent bytes metainfo bool | PauseTorrent bytes | ResumeTorrent bytes | RemoveTorrent bytes bool
  | SetTransport

record announce_job =
  aj_hash :: bytes
  aj_url :: bytes
  aj_request :: announce_request

record announce_reply =
  ay_hash :: bytes
  ay_url :: bytes
  ay_result :: "tracker_error + announce_result"

record session =
  ss_dir :: bytes
  ss_peer_id :: bytes
  ss_torrents :: "torrent list"
  ss_transport :: "session_transport option"
  ss_privacy :: privacy
  ss_dht :: dht
  ss_dht_transport :: "nat option"
  ss_commands :: "command list"
  ss_status :: "torrent_status list"
  ss_jobs :: "announce_job list"
  ss_replies :: "announce_reply list"
  ss_max_active :: int
  ss_rate_down :: nat
  ss_rate_up :: nat
  ss_magnets :: "bytes \<rightharpoonup> bytes"
  ss_removed :: "bytes list"
  ss_last_publish :: nat
  ss_running :: bool

record env =
  env_disk :: disk
  env_resume :: "bytes \<Rightarrow> bytes option"
  env_free :: nat
  env_key :: nat
  env_go_on :: "nat \<Rightarrow> bool"
  env_dial :: "endpoint \<Rightarrow> dialed"
  env_begun :: "picker \<Rightarrow> nat list"
  env_requests :: "picker \<Rightarrow> nat list"
  env_sort :: sorter
  env_poll :: "nat \<Rightarrow> nat \<Rightarrow> bool \<times> bool \<times> bool"
  env_poll_dht :: bool
  env_now :: nat

datatype add_error = LinkBad magnet_err | FileMissing | TorrentBad merr | AlreadyPresent

subsection \<open>What the interface sees\<close>

definition status :: "torrent \<Rightarrow> torrent_status" where
  "status t =
     (let m = t_meta t;
          complete = t_meta_complete t;
          ready = filter is_ready (t_peers t);
          all = (if complete then total_size m else 0);
          got = (if complete then bytes_done (t_picker t) else 0)
      in \<lparr>st_hash = t_hash_hex t, st_name = t_name t, st_state = t_state t, st_total = all, st_downloaded = got,
          st_uploaded = t_uploaded t, st_rate_down = t_rate_down t, st_rate_up = t_rate_up t,
          st_connected = length ready, st_known = u32 (length (t_known t)),
          st_choking = length (filter p_peer_choking ready),
          st_in_flight = u32 (sum_list (map (\<lambda>p. length (p_requested p)) ready)),
          st_seeders = t_seeders t, st_leechers = t_leechers t,
          st_eta = (if 0 < t_rate_down t \<and> complete \<and> got < all then (all - got) div t_rate_down t else 0),
          st_message = t_message t, st_save_path = t_dir t,
          st_content_root = (if mname m = [] then [] else t_dir t @ B CHR ''/'' # mname m), st_primary = t_primary_file t,
          st_pieces_total = (if complete then piece_count m else 0),
          st_pieces_done = (if complete then bcount (have_bits (t_picker t)) else 0), st_rejected = t_corrupt t,
          st_piece_length = (if complete then piece_length m else 0),
          st_file_count = (if complete then u32 (length (files m)) else 0), st_private = is_private m,
          st_magnet = (if complete then magnet_for m else []), st_trackers = trackers m\<rparr>)"

definition publish_status :: "session \<Rightarrow> session" where
  "publish_status s =
     (let fresh = map status (ss_torrents s)
      in s\<lparr>ss_status := fresh, ss_rate_down := u32 (sum_list (map st_rate_down fresh)),
           ss_rate_up := u32 (sum_list (map st_rate_up fresh))\<rparr>)"

definition find_torrent :: "bytes \<Rightarrow> torrent list \<Rightarrow> nat option" where
  "find_torrent hex ts = first_index (\<lambda>t. t_hash_hex t = hex) ts"

text \<open>\<open>has_torrent\<close>: the last command about it decides, then the published state.\<close>

fun last_word :: "bytes \<Rightarrow> command list \<Rightarrow> bool option" where
  "last_word hex [] = None"
| "last_word hex (c # cs) =
     (case c of
        AddTorrent h m complete \<Rightarrow> if h = hex then Some True else last_word hex cs
      | RemoveTorrent h del \<Rightarrow> if h = hex then Some False else last_word hex cs
      | _ \<Rightarrow> last_word hex cs)"

definition has_torrent :: "bytes \<Rightarrow> session \<Rightarrow> bool" where
  "has_torrent hex s =
     (case last_word hex (rev (ss_commands s)) of
        Some b \<Rightarrow> b
      | None \<Rightarrow> (\<exists>st \<in> set (ss_status s). st_hash st = hex))"

subsection \<open>Commands\<close>

definition push_command :: "command \<Rightarrow> session \<Rightarrow> session" where
  "push_command c s = s\<lparr>ss_commands := ss_commands s @ [c]\<rparr>"

definition remember_magnet :: "bytes \<Rightarrow> bytes \<Rightarrow> session \<Rightarrow> session" where
  "remember_magnet hex uri s = s\<lparr>ss_magnets := (ss_magnets s)(magnet_path (ss_dir s) hex \<mapsto> uri @ [10])\<rparr>"

definition magnet_meta :: "magnet_link \<Rightarrow> metainfo" where
  "magnet_meta link =
     empty_meta\<lparr>info_hash := link_hash link,
       mname := (if display_name link = [] then take 16 (to_hex (link_hash link)) else sanitize_filename (display_name link)),
       trackers := link_trackers link\<rparr>"

definition add_magnet :: "bytes \<Rightarrow> session \<Rightarrow> add_error + session" where
  "add_magnet uri s =
     (case parse_magnet uri empty_link of
        Inl e \<Rightarrow> Inl (LinkBad e)
      | Inr link \<Rightarrow>
          let hex = to_hex (link_hash link)
          in if has_torrent hex s then Inl AlreadyPresent
             else Inr (push_command (AddTorrent hex (magnet_meta link) False) (remember_magnet hex uri s)))"

text \<open>The content of the file, None when it cannot be opened.\<close>

definition add_torrent_file :: "bytes option \<Rightarrow> session \<Rightarrow> add_error + session" where
  "add_torrent_file blob s =
     (case blob of
        None \<Rightarrow> Inl FileMissing
      | Some b \<Rightarrow>
          (case parse_torrent b empty_meta of
             Inl e \<Rightarrow> Inl (TorrentBad e)
           | Inr meta \<Rightarrow>
               let hex = to_hex (info_hash meta)
               in if has_torrent hex s then Inl AlreadyPresent
                  else Inr (push_command (AddTorrent hex meta True) (remember_magnet hex (magnet_for meta) s))))"

text \<open>A link as it is read back from its file: the first line, cut to the buffer, without its end.\<close>

definition stored_link :: "bytes \<Rightarrow> bytes option" where
  "stored_link file =
     (let line = take 2047 (case find_byte 10 file of None \<Rightarrow> file | Some i \<Rightarrow> take (i + 1) file);
          line = takeWhile (\<lambda>b. b \<noteq> 0) line;
          uri = rev (dropWhile (\<lambda>b. b = 10 \<or> b = 13) (rev line))
      in if uri = [] then None else Some uri)"

definition restore_torrents :: "bytes list \<Rightarrow> session \<Rightarrow> session \<times> nat" where
  "restore_torrents magnet_files s =
     fold (\<lambda>uri (s, n). case add_magnet uri s of Inl e \<Rightarrow> (s, n) | Inr s \<Rightarrow> (s, n + 1))
       (List.map_filter stored_link magnet_files) (s, 0)"

definition pause :: "bytes \<Rightarrow> session \<Rightarrow> session" where
  "pause hex = push_command (PauseTorrent hex)"

definition resume :: "bytes \<Rightarrow> session \<Rightarrow> session" where
  "resume hex = push_command (ResumeTorrent hex)"

definition remove_torrent :: "bytes \<Rightarrow> bool \<Rightarrow> session \<Rightarrow> session" where
  "remove_torrent hex del = push_command (RemoveTorrent hex del)"

definition set_session_transport :: "session_transport option \<Rightarrow> session \<Rightarrow> session" where
  "set_session_transport transport s = push_command SetTransport (s\<lparr>ss_transport := transport\<rparr>)"

definition update_torrent :: "nat option \<Rightarrow> (torrent \<Rightarrow> torrent) \<Rightarrow> session \<Rightarrow> session" where
  "update_torrent i f s =
     (case i of None \<Rightarrow> s | Some i \<Rightarrow> s\<lparr>ss_torrents := (ss_torrents s)[i := f (ss_torrents s ! i)]\<rparr>)"

definition process_command :: "env \<Rightarrow> command \<Rightarrow> session \<Rightarrow> session" where
  "process_command env c s =
     (case c of
        AddTorrent hex meta complete \<Rightarrow>
          if find_torrent hex (ss_torrents s) \<noteq> None then s
          else
            let t = (new_torrent meta complete (env_disk env) (env_resume env hex))
                      \<lparr>t_dir := ss_dir s, t_announce_key := env_key env\<rparr>;
                t = (if complete then fst (prepare_storage (ss_dir s) (env_free env) t) else t)
            in s\<lparr>ss_torrents := ss_torrents s @ [t]\<rparr>
      | PauseTorrent hex \<Rightarrow> update_torrent (find_torrent hex (ss_torrents s)) (set_paused True) s
      | ResumeTorrent hex \<Rightarrow> update_torrent (find_torrent hex (ss_torrents s)) (set_paused False) s
      | RemoveTorrent hex del \<Rightarrow>
          (case find_torrent hex (ss_torrents s) of
             None \<Rightarrow> s
           | Some i \<Rightarrow>
               s\<lparr>ss_removed := ss_removed s @ (if del then snd (delete_files (ss_torrents s ! i)) else []),
                 ss_dht := forget_search (info_hash (t_meta (ss_torrents s ! i))) (ss_dht s),
                 ss_magnets := (ss_magnets s)(magnet_path (ss_dir s) hex := None),
                 ss_torrents := take i (ss_torrents s) @ drop (i + 1) (ss_torrents s)\<rparr>)
      | SetTransport \<Rightarrow> s\<lparr>ss_torrents := map drop_all_peers (ss_torrents s)\<rparr>)"

definition process_commands :: "env \<Rightarrow> session \<Rightarrow> session" where
  "process_commands env s = fold (process_command env) (ss_commands s) (s\<lparr>ss_commands := []\<rparr>)"

subsection \<open>The queue\<close>

definition active_count :: "torrent list \<Rightarrow> nat" where
  "active_count ts = length (filter holds_slot ts)"

text \<open>Promoting in order, then demoting from the end.\<close>

fun promote :: "nat \<Rightarrow> nat \<Rightarrow> torrent list \<Rightarrow> torrent list \<times> nat" where
  "promote limit active [] = ([], active)"
| "promote limit active (t # ts) =
     (if limit \<le> active then (t # ts, active)
      else if \<not> waiting_in_queue t \<or> t_user_paused t then
        (let (ts, active) = promote limit active ts in (t # ts, active))
      else
        let t = set_queued False t;
            (ts, active) = promote limit (if holds_slot t then active + 1 else active) ts
        in (t # ts, active))"

fun demote :: "nat \<Rightarrow> nat \<Rightarrow> torrent list \<Rightarrow> torrent list" where
  "demote limit active [] = []"
| "demote limit active (t # ts) =
     (if active \<le> limit then t # ts
      else if \<not> holds_slot t then t # demote limit active ts
      else set_queued True t # demote limit (active - 1) ts)"

definition update_queue :: "session \<Rightarrow> session" where
  "update_queue s =
     (if ss_max_active s \<le> 0 then
        s\<lparr>ss_torrents := map (\<lambda>t. if waiting_in_queue t then set_queued False t else t) (ss_torrents s)\<rparr>
      else
        let limit = nat (ss_max_active s);
            (ts, active) = promote limit (active_count (ss_torrents s)) (ss_torrents s)
        in s\<lparr>ss_torrents := rev (demote limit active (rev ts))\<rparr>)"

subsection \<open>The engine\<close>

text \<open>The checks of resumed content; the status is published before each of them.\<close>

definition check_torrent :: "(nat \<Rightarrow> bool) \<Rightarrow> nat \<Rightarrow> session \<Rightarrow> session" where
  "check_torrent keep_going i s =
     (if t_state (ss_torrents s ! i) = Checking
      then update_torrent (Some i) (run_check keep_going) (publish_status s) else s)"

definition check_torrents :: "(nat \<Rightarrow> bool) \<Rightarrow> session \<Rightarrow> session" where
  "check_torrents keep_going s = fold (check_torrent keep_going) [0..<length (ss_torrents s)] s"

text \<open>The transport presented to the torrents: none when the VPN is required and the transport is direct.\<close>

definition engine_transport :: "session \<Rightarrow> session_transport option" where
  "engine_transport s =
     (case ss_transport s of
        None \<Rightarrow> None
      | Some tp \<Rightarrow> if require_vpn (ss_privacy s) \<and> tp_direct tp then None else Some tp)"

definition transport_ready :: "session_transport option \<Rightarrow> bool" where
  "transport_ready tp = (case tp of None \<Rightarrow> False | Some tp \<Rightarrow> tp_ready tp)"

definition tick_torrents :: "(endpoint \<Rightarrow> dialed) \<Rightarrow> (picker \<Rightarrow> nat list) \<Rightarrow> (picker \<Rightarrow> nat list) \<Rightarrow> nat \<Rightarrow> session \<Rightarrow> session" where
  "tick_torrents dial ord ord_req now s =
     s\<lparr>ss_torrents := map (torrent_tick (ss_privacy s) (transport_ready (engine_transport s)) (ss_peer_id s) dial ord ord_req now now)
        (ss_torrents s)\<rparr>"

definition deliver_found :: "(bytes \<times> endpoint list) list \<Rightarrow> session \<Rightarrow> session" where
  "deliver_found results s =
     fold (\<lambda>(target, eps) s. update_torrent (find_torrent (to_hex target) (ss_torrents s)) (add_peers eps) s) results s"

definition engine_dht :: "sorter \<Rightarrow> nat \<Rightarrow> session \<Rightarrow> session" where
  "engine_dht srt now s =
     (let tp = engine_transport s;
          s = (if map_option tp_id tp \<noteq> ss_dht_transport s
               then s\<lparr>ss_dht_transport := map_option tp_id tp, ss_dht := set_transport (map_option tp_dht tp) (ss_dht s)\<rparr> else s)
      in if \<not> enable_dht (ss_privacy s) then s
         else
           let wanted = map (\<lambda>t. info_hash (t_meta t))
                 (filter (\<lambda>t. \<not> is_private (t_meta t) \<and> needs_peers t) (ss_torrents s));
               net = (case tp of None \<Rightarrow> \<lparr>net_ready = False, net_udp = None, net_resolve = Map.empty\<rparr> | Some tp \<Rightarrow> tp_dht tp);
               d = tick_dht srt net now now (fold (\<lambda>h. find_peers h now) wanted (ss_dht s));
               (d, results) = dht_results d
           in deliver_found results (s\<lparr>ss_dht := d\<rparr>))"

text \<open>The announces due: one job by tracker, except those the rules exclude.\<close>

definition announce_torrent :: "privacy \<Rightarrow> bytes \<Rightarrow> nat \<Rightarrow> torrent \<Rightarrow> torrent \<times> announce_job list" where
  "announce_torrent rules peer_id now t =
     (if \<not> wants_announce now t then (t, [])
      else if trackers (t_meta t) = [] then (mark_announced now 300 t, [])
      else
        let ev = next_event t;
            urls = filter (\<lambda>url. \<not> (https_trackers_only rules \<and> prefix_of (ascii ''http://'') url)) (trackers (t_meta t));
            jobs = map (\<lambda>url. \<lparr>aj_hash = t_hash_hex t, aj_url = url, aj_request = make_request peer_id ev t\<rparr>) urls;
            t = (if urls \<noteq> [] then note_event_sent ev t else t)
        in (mark_announced now 300 t, jobs))"

definition announce_due :: "nat \<Rightarrow> session \<Rightarrow> session" where
  "announce_due now s =
     (let done = map (announce_torrent (ss_privacy s) (ss_peer_id s) now) (ss_torrents s)
      in s\<lparr>ss_torrents := map fst done, ss_jobs := ss_jobs s @ concat (map snd done)\<rparr>)"

definition take_replies :: "nat \<Rightarrow> session \<Rightarrow> session" where
  "take_replies now s =
     fold (\<lambda>r s. update_torrent (find_torrent (ay_hash r) (ss_torrents s)) (apply_announce (ay_result r) now) s)
       (ss_replies s) (s\<lparr>ss_replies := []\<rparr>)"

text \<open>One poll for the connections of all the torrents and the socket of the DHT, when there is a transport.\<close>

definition engine_poll :: "env \<Rightarrow> session \<Rightarrow> session" where
  "engine_poll env s =
     (if engine_transport s = None then s
      else s\<lparr>ss_torrents := map (\<lambda>(i, t). poll_torrent (ss_privacy s) (env_free env) (env_poll env i) (env_now env) (env_now env) t)
               (enumerate 0 (ss_torrents s)),
             ss_dht := dht_on_poll (env_poll_dht env) (env_now env) (ss_dht s)\<rparr>)"

definition publish_due :: "nat \<Rightarrow> session \<Rightarrow> session" where
  "publish_due now s =
     (if 250 \<le> sub64 now (ss_last_publish s) then (publish_status s)\<lparr>ss_last_publish := now\<rparr> else s)"

definition engine_turn :: "env \<Rightarrow> session \<Rightarrow> session" where
  "engine_turn env s =
     (let now = env_now env;
          s = check_torrents (env_go_on env) (update_queue (process_commands env s));
          s = tick_torrents (env_dial env) (env_begun env) (env_requests env) now s;
          s = take_replies now (announce_due now (engine_dht (env_sort env) now s))
      in publish_due now (engine_poll env s))"

subsection \<open>The announcing thread\<close>

text \<open>One turn: the oldest job goes to its tracker through the transport of the session.  The second
  result is the announce that left, with the transport it left through.\<close>

definition announce_turn :: "(session_transport \<Rightarrow> announce_job \<Rightarrow> tracker_error + announce_result) \<Rightarrow> session \<Rightarrow>
    session \<times> (session_transport \<times> announce_job) option" where
  "announce_turn client s =
     (case ss_jobs s of
        [] \<Rightarrow> (s, None)
      | job # jobs \<Rightarrow>
          let s = s\<lparr>ss_jobs := jobs\<rparr>
          in case ss_transport s of
               None \<Rightarrow> (s, None)
             | Some tp \<Rightarrow>
                 if \<not> tp_ready tp then (s, None)
                 else (s\<lparr>ss_replies := ss_replies s @ [\<lparr>ay_hash = aj_hash job, ay_url = aj_url job, ay_result = client tp job\<rparr>]\<rparr>,
                       Some (tp, job)))"

subsection \<open>Starting, stopping, settings\<close>

text \<open>\<open>bsd\<close> is the transport made when there is none; \<open>accessible\<close> whether the directory can be
  reached once \<open>mkdir\<close> has been tried; the last argument is the content of its \<open>.magnet\<close> files.\<close>

definition start_session :: "bytes \<Rightarrow> (bytes \<Rightarrow> bool) \<Rightarrow> session_transport \<Rightarrow> bytes list \<Rightarrow> session \<Rightarrow> session \<times> bool" where
  "start_session dir accessible bsd magnet_files s =
     (if ss_running s then (s, True)
      else
        let dir = (if dir \<noteq> [] \<and> last dir = B CHR ''/'' then butlast dir else dir);
            s = s\<lparr>ss_dir := dir\<rparr>
        in if \<not> accessible dir then (s, False)
           else
             let s = s\<lparr>ss_transport := Some (case ss_transport s of None \<Rightarrow> bsd | Some tp \<Rightarrow> tp), ss_running := True\<rparr>
             in (fst (restore_torrents magnet_files s), True))"

text \<open>The second result is the resume file each torrent leaves.\<close>

definition stop_session :: "session \<Rightarrow> session \<times> (bytes \<times> bytes option) list" where
  "stop_session s =
     (if \<not> ss_running s then (s, [])
      else (s\<lparr>ss_running := False, ss_torrents := []\<rparr>,
            map (\<lambda>t. (resume_path t, t_resume (save_resume t))) (ss_torrents s)))"

definition set_privacy :: "privacy \<Rightarrow> session \<Rightarrow> session" where
  "set_privacy rules s = s\<lparr>ss_privacy := rules\<rparr>"

definition set_max_active :: "int \<Rightarrow> session \<Rightarrow> session" where
  "set_max_active n s = s\<lparr>ss_max_active := (if n < 0 then 0 else n)\<rparr>"

definition network_ready :: "session \<Rightarrow> bool" where
  "network_ready s = transport_ready (ss_transport s)"

definition default_privacy :: privacy where
  "default_privacy = \<lparr>require_vpn = False, https_trackers_only = False, enable_dht = True, enable_pex = True, no_upload = False\<rparr>"

definition new_session :: "bytes \<Rightarrow> session" where
  "new_session peer_id =
     \<lparr>ss_dir = [], ss_peer_id = peer_id, ss_torrents = [], ss_transport = None, ss_privacy = default_privacy,
      ss_dht = new_dht (replicate 20 0), ss_dht_transport = None, ss_commands = [], ss_status = [], ss_jobs = [], ss_replies = [],
      ss_max_active = 2, ss_rate_down = 0, ss_rate_up = 0, ss_magnets = Map.empty, ss_removed = [], ss_last_publish = 0,
      ss_running = False\<rparr>"

subsection \<open>The threads together\<close>

inductive session_step :: "session \<Rightarrow> session \<Rightarrow> bool" where
  magnet: "add_magnet uri s = Inr s' \<Longrightarrow> session_step s s'"
| torrent_file: "add_torrent_file blob s = Inr s' \<Longrightarrow> session_step s s'"
| pausing: "session_step s (pause hex s)"
| resuming: "session_step s (resume hex s)"
| removing: "session_step s (remove_torrent hex del s)"
| transport: "session_step s (set_session_transport tp s)"
| privacy: "session_step s (set_privacy rules s)"
| max_active: "session_step s (set_max_active n s)"
| starting: "session_step s (fst (start_session dir accessible bsd magnet_files s))"
| stopping: "session_step s (fst (stop_session s))"
| turn: "session_step s (engine_turn env s)"
| announcing: "session_step s (fst (announce_turn client s))"
| writing: "i < length (ss_torrents s) \<Longrightarrow> session_step s (update_torrent (Some i) writer_turn s)"

end
