(* ===== verification/SessionQueue.thy ===== *)
theory SessionQueue
  imports Session
begin

text \<open>
  The queue of the session (\<open>update_queue\<close> of \<open>source/bt/session.cpp\<close>): what promoting and demoting do
  to each torrent, the bound on the torrents downloading at once, and the stability of a pass.
\<close>

subsection \<open>Frames\<close>

named_theorems torrent_frame \<open>what the operations of a torrent leave alone\<close>

lemma drop_all_peers_frame [simp, torrent_frame]:
  "t_state (drop_all_peers t) = t_state t" "t_user_paused (drop_all_peers t) = t_user_paused t"
  "t_queued (drop_all_peers t) = t_queued t" "t_hash_hex (drop_all_peers t) = t_hash_hex t"
  "t_meta (drop_all_peers t) = t_meta t" "t_checked (drop_all_peers t) = t_checked t" "t_meta_complete (drop_all_peers t) = t_meta_complete t"
  "t_peers (drop_all_peers t) = []"
  by (simp_all add: drop_all_peers_def)

lemma apply_gate_frame [torrent_frame]:
  "t_user_paused (apply_gate t) = t_user_paused t" "t_hash_hex (apply_gate t) = t_hash_hex t"
  "t_queued (apply_gate t) = t_queued t" "t_meta (apply_gate t) = t_meta t"
  by (simp_all add: apply_gate_def)

lemma set_queued_frame [simp, torrent_frame]:
  "t_user_paused (set_queued b t) = t_user_paused t" "t_hash_hex (set_queued b t) = t_hash_hex t"
  "t_meta (set_queued b t) = t_meta t"
  by (simp_all add: set_queued_def apply_gate_frame)

subsection \<open>The queue\<close>

lemma queued_releases_slot: "holds_slot t \<Longrightarrow> \<not> holds_slot (set_queued True t)"
  by (auto simp: holds_slot_def set_queued_def apply_gate_def)

lemma released_not_waiting: "waiting_in_queue t \<Longrightarrow> \<not> waiting_in_queue (set_queued False t)"
  by (auto simp: waiting_in_queue_def set_queued_def apply_gate_def)

lemma waiting_no_slot: "waiting_in_queue t \<Longrightarrow> \<not> holds_slot t"
  by (simp add: waiting_in_queue_def holds_slot_def)

lemma active_count_simps [simp]: "active_count [] = 0" "active_count (t # ts) = (if holds_slot t then 1 else 0) + active_count ts"
  "active_count (rev ts) = active_count ts"
  by (simp_all add: active_count_def rev_filter [symmetric])

definition promoted :: "torrent \<Rightarrow> torrent \<Rightarrow> bool" where
  "promoted t t' \<longleftrightarrow> t' = t \<or> waiting_in_queue t \<and> \<not> t_user_paused t \<and> t' = set_queued False t"

definition demoted :: "torrent \<Rightarrow> torrent \<Rightarrow> bool" where
  "demoted t t' \<longleftrightarrow> t' = t \<or> holds_slot t \<and> t' = set_queued True t"

lemma promote_spec:
  "promote limit a ts = (ts', a') \<Longrightarrow>
     list_all2 promoted ts ts' \<and> a' + active_count ts = a + active_count ts' \<and> (a \<le> limit \<longrightarrow> a' \<le> limit) \<and>
     (limit \<le> a \<longrightarrow> ts' = ts \<and> a' = a) \<and> (a' < limit \<longrightarrow> (\<forall>t \<in> set ts'. waiting_in_queue t \<longrightarrow> t_user_paused t))"
proof (induction limit a ts arbitrary: ts' a' rule: promote.induct)
  case (2 limit active t ts)
  consider "limit \<le> active" | "active < limit" "\<not> waiting_in_queue t \<or> t_user_paused t"
    | "active < limit" "waiting_in_queue t" "\<not> t_user_paused t" by linarith
  then show ?case
  proof cases
    case 1
    have "list_all2 promoted (t # ts) (t # ts)" by (rule list_all2_refl) (simp add: promoted_def)
    moreover have "ts' = t # ts" "a' = active" using "2.prems" 1 by simp_all
    ultimately show ?thesis using 1 by simp
  next
    case 2
    obtain ys b where p: "promote limit active ts = (ys, b)" by fastforce
    have "ts' = t # ys" "a' = b" using "2.prems" 2 p by (auto simp: Let_def)
    moreover have "promoted t t" by (simp add: promoted_def)
    ultimately show ?thesis using "2.IH"(1) [OF _ _ p] 2 by (auto simp: waiting_no_slot)
  next
    case 3
    let ?t = "set_queued False t" and ?a = "if holds_slot (set_queued False t) then active + 1 else active"
    obtain ys b where p: "promote limit ?a ts = (ys, b)" by fastforce
    have e: "ts' = ?t # ys" "a' = b" using "2.prems" 3 p by (auto simp: Let_def)
    have "promoted t ?t" using 3 by (simp add: promoted_def)
    moreover have "\<not> holds_slot t" "\<not> waiting_in_queue ?t" using 3 waiting_no_slot released_not_waiting by blast+
    moreover have "list_all2 promoted ts ys \<and> b + active_count ts = ?a + active_count ys \<and> (?a \<le> limit \<longrightarrow> b \<le> limit) \<and>
        (b < limit \<longrightarrow> (\<forall>t \<in> set ys. waiting_in_queue t \<longrightarrow> t_user_paused t))"
      using "2.IH"(2) [OF _ _ refl p] 3 by simp
    ultimately show ?thesis using 3 e by (cases "holds_slot ?t") auto
  qed
qed simp

lemma demote_spec:
  "list_all2 demoted ts (demote limit (active_count ts) ts) \<and>
   active_count (demote limit (active_count ts) ts) = min limit (active_count ts) \<and>
   (active_count ts \<le> limit \<longrightarrow> demote limit (active_count ts) ts = ts)"
proof (induction ts)
  case (Cons t ts)
  consider "active_count (t # ts) \<le> limit" | "limit < active_count (t # ts)" "\<not> holds_slot t"
    | "limit < active_count (t # ts)" "holds_slot t" by linarith
  then show ?case
  proof cases
    case 1
    have "list_all2 demoted (t # ts) (t # ts)" by (rule list_all2_refl) (simp add: demoted_def)
    then show ?thesis using 1 by simp
  next
    case 2
    then show ?thesis using Cons.IH by (simp add: demoted_def)
  next
    case 3
    then show ?thesis using Cons.IH queued_releases_slot [of t] by (simp add: demoted_def)
  qed
qed simp

lemma promote_none: "(\<forall>t \<in> set ts. waiting_in_queue t \<longrightarrow> t_user_paused t) \<Longrightarrow> promote limit a ts = (ts, a)"
  by (induction ts arbitrary: a) auto

text \<open>What a pass of the queue does to one torrent.\<close>

definition requeued :: "torrent \<Rightarrow> torrent \<Rightarrow> bool" where
  "requeued t t' \<longleftrightarrow> (t' = t \<or> t' = set_queued False t \<or> t' = set_queued True t \<or> t' = set_queued True (set_queued False t)) \<and>
     (t_user_paused t \<and> \<not> holds_slot t \<and> \<not> waiting_in_queue t \<longrightarrow> t' = t)"

lemma update_queue_limited:
  assumes "0 < ss_max_active s"
  shows "list_all2 requeued (ss_torrents s) (ss_torrents (update_queue s))"
    "active_count (ss_torrents (update_queue s)) \<le> nat (ss_max_active s)"
    "active_count (ss_torrents (update_queue s)) < nat (ss_max_active s) \<Longrightarrow>
       \<forall>t \<in> set (ss_torrents (update_queue s)). waiting_in_queue t \<longrightarrow> t_user_paused t"
    "update_queue (update_queue s) = update_queue s"
proof -
  let ?l = "nat (ss_max_active s)" and ?ts = "ss_torrents s"
  obtain ts a where p: "promote ?l (active_count ?ts) ?ts = (ts, a)" by fastforce
  note ps = promote_spec [OF p]
  then have a: "a = active_count ts" by simp
  let ?us = "rev (demote ?l a (rev ts))"
  have u: "ss_torrents (update_queue s) = ?us" "update_queue s = s\<lparr>ss_torrents := ?us\<rparr>"
    using assms p by (simp_all add: update_queue_def Let_def)
  have ds: "list_all2 demoted (rev ts) (demote ?l a (rev ts))" "active_count ?us = min ?l a" "a \<le> ?l \<longrightarrow> ?us = ts"
    using demote_spec [of "rev ts" ?l] a by simp_all
  have "list_all2 demoted ts ?us" using ds(1) by (simp add: list_all2_rev1)
  then have "list_all2 (promoted OO demoted) ?ts ?us" using ps by (auto simp: list.rel_compp)
  then show "list_all2 requeued ?ts (ss_torrents (update_queue s))"
    unfolding u(1) by (rule list_all2_mono) (auto simp: promoted_def demoted_def requeued_def)
  show "active_count (ss_torrents (update_queue s)) \<le> ?l" unfolding u(1) using ds(2) by simp
  have n: "active_count ?us < ?l \<longrightarrow> (\<forall>t \<in> set ?us. waiting_in_queue t \<longrightarrow> t_user_paused t)"
    using ds(2,3) ps by (cases "a < ?l") simp_all
  then show "active_count (ss_torrents (update_queue s)) < ?l \<Longrightarrow>
      \<forall>t \<in> set (ss_torrents (update_queue s)). waiting_in_queue t \<longrightarrow> t_user_paused t" unfolding u(1) by blast
  have "promote ?l (active_count ?us) ?us = (?us, active_count ?us)"
  proof (cases "active_count ?us < ?l")
    case True
    then show ?thesis using n promote_none by blast
  next
    case False
    then show ?thesis by (cases ?us) simp_all
  qed
  moreover have "demote ?l (active_count ?us) (rev ?us) = rev ?us"
    using demote_spec [of "rev ?us" ?l] ds(2) by simp
  ultimately show "update_queue (update_queue s) = update_queue s"
    unfolding u using assms by (simp add: update_queue_def)
qed

lemma update_queue_unlimited:
  assumes "ss_max_active s \<le> 0"
  shows "list_all2 requeued (ss_torrents s) (ss_torrents (update_queue s))"
    "\<forall>t \<in> set (ss_torrents (update_queue s)). \<not> waiting_in_queue t" "update_queue (update_queue s) = update_queue s"
proof -
  let ?f = "\<lambda>t. if waiting_in_queue t then set_queued False t else t"
  have u: "update_queue s = s\<lparr>ss_torrents := map ?f (ss_torrents s)\<rparr>" using assms by (simp add: update_queue_def)
  show "list_all2 requeued (ss_torrents s) (ss_torrents (update_queue s))"
    unfolding u by (auto simp: list_all2_conv_all_nth requeued_def)
  show w: "\<forall>t \<in> set (ss_torrents (update_queue s)). \<not> waiting_in_queue t" unfolding u by (auto simp: released_not_waiting)
  then have "map ?f (ss_torrents (update_queue s)) = ss_torrents (update_queue s)" by (intro map_idI) simp
  then show "update_queue (update_queue s) = update_queue s" using assms unfolding u by (simp add: update_queue_def)
qed

text \<open>C23: a pass of the queue leaves at most the allowed number of torrents downloading; a torrent is left
  waiting only when every place is taken (or the user has paused it); torrents the user has paused and
  that neither wait nor hold a place are untouched; and a second pass changes nothing, so that no torrent
  goes to and fro.  Without a limit nothing waits.\<close>

theorem queue_limits_downloads:
  "(0 < ss_max_active s \<longrightarrow> int (active_count (ss_torrents (update_queue s))) \<le> ss_max_active s \<and>
     (int (active_count (ss_torrents (update_queue s))) < ss_max_active s \<longrightarrow>
        (\<forall>t \<in> set (ss_torrents (update_queue s)). waiting_in_queue t \<longrightarrow> t_user_paused t))) \<and>
   (ss_max_active s \<le> 0 \<longrightarrow> (\<forall>t \<in> set (ss_torrents (update_queue s)). \<not> waiting_in_queue t)) \<and>
   list_all2 requeued (ss_torrents s) (ss_torrents (update_queue s)) \<and>
   update_queue (update_queue s) = update_queue s"
proof (cases "0 < ss_max_active s")
  case True
  then show ?thesis using update_queue_limited [OF True] by (simp add: le_nat_iff zless_nat_eq_int_zless)
next
  case False
  then show ?thesis using update_queue_unlimited [of s] by simp
qed


definition no_disk :: disk where
  "no_disk = \<lparr>contents = (\<lambda>p. None), openable = (\<lambda>p. False), max_size = (\<lambda>p. 0), dir_ok = (\<lambda>p. False), big_file = None\<rparr>"

definition two_downloads :: session where
  "two_downloads = (new_session [])\<lparr>ss_max_active := 1, ss_torrents :=
     [new_torrent (empty_meta\<lparr>info_hash := replicate 20 1\<rparr>) False no_disk None,
      new_torrent (empty_meta\<lparr>info_hash := replicate 20 2\<rparr>) False no_disk None]\<rparr>"

theorem queue_limits_downloads_witness:
  "active_count (ss_torrents two_downloads) = 2 \<and> active_count (ss_torrents (update_queue two_downloads)) \<le> 1"
proof -
  have "ss_max_active two_downloads = 1" by (simp add: two_downloads_def)
  moreover have "active_count (ss_torrents two_downloads) = 2"
    by (simp add: two_downloads_def holds_slot_def new_torrent_def Let_def)
  ultimately show ?thesis using queue_limits_downloads [of two_downloads] by linarith
qed

end
