(* ===== verification/SessionInv.thy ===== *)
theory SessionInv
  imports SessionQueue
begin

text \<open>
  What holds of the torrents in every state of the session, whatever its threads do: the core of a torrent
  (its hash, its metadata, the user's pause, its state, whether it has connections) and the operations
  that leave it alone; the invariant of a torrent, kept by every operation; the invariant of the session.
\<close>

subsection \<open>The core of a torrent\<close>

definition core :: "torrent \<Rightarrow> bytes \<times> metainfo \<times> bool \<times> bool \<times> torrent_state \<times> bool" where
  "core t = (t_hash_hex t, t_meta t, t_meta_complete t, t_user_paused t, t_state t, t_peers t = [])"

lemma fold_core: "(\<And>x t. x \<in> set xs \<Longrightarrow> core (f x t) = core t) \<Longrightarrow> core (fold f xs t) = core t"
  by (induction xs arbitrary: t) simp_all

lemma core_update [simp]: "core (t\<lparr>t_picker := pk\<rparr>) = core t" "core (t\<lparr>t_storage := st\<rparr>) = core t" "core (t\<lparr>t_writer := w\<rparr>) = core t"
  "core (t\<lparr>t_message := m\<rparr>) = core t" "core (t\<lparr>t_known := k\<rparr>) = core t" "core (t\<lparr>t_resume := r\<rparr>) = core t"
  "core (t\<lparr>t_last_save := n\<rparr>) = core t" "core (t\<lparr>t_last_md := n\<rparr>) = core t" "core (t\<lparr>t_dir := d\<rparr>) = core t"
  "core (t\<lparr>t_peers := (t_peers t)[i := q]\<rparr>) = core t" "core (t\<lparr>t_next_peer := n\<rparr>) = core t"
  by (simp_all add: core_def)

lemma core_react [simp]: "core (react p ev t) = core t"
  by (simp add: react_def on_peer_closed_def on_peer_bitfield_def Let_def split: peer_event.split)

lemma core_poke [simp]: "core (poke i f t) = core t"
  unfolding poke_def Let_def by (subst fold_core) simp_all

lemma core_poke_all [simp]: "core (poke_all P f t) = core t"
  unfolding poke_all_def by (rule fold_core) simp

lemma core_save_resume [simp]: "core (save_resume t) = core t"
  by (simp add: save_resume_def)

lemma core_add_peers [simp]: "core (add_peers found t) = core t"
  by (simp add: add_peers_def core_def)

lemma core_apply_announce [simp]: "core (apply_announce r now t) = core t"
  by (simp add: apply_announce_def core_def add_peers_def split: sum.split)

lemma core_announce_torrent [simp]: "core (fst (announce_torrent rules pid now t)) = core t"
  by (simp add: announce_torrent_def mark_announced_def note_event_sent_def core_def Let_def)

lemma core_drive_metadata [simp]: "core (drive_metadata now t) = core t"
proof -
  have "core (fold (\<lambda>i t. if t_md_have t ! i then t
                else case first_index (\<lambda>p. is_ready p \<and> supports_metadata p) (t_peers t) of
                       None \<Rightarrow> t | Some j \<Rightarrow> poke j (request_metadata_piece quiet i) t) xs u) = core u" for xs u
    by (rule fold_core) (simp split: option.split)
  then show ?thesis by (simp add: drive_metadata_def)
qed

lemma core_request_blocks [simp]: "core (request_blocks ord now clk i t) = core t"
proof -
  have "core (fold (\<lambda>r. poke i (send_request quiet clk r)) xs u) = core u" for xs u
    by (rule fold_core) simp
  then show ?thesis by (simp add: request_blocks_def Let_def split: prod.split)
qed

lemma core_update_rates [simp]: "core (update_rates now t) = core t"
  by (simp add: update_rates_def core_def Let_def)

lemma core_writer_turn [simp]: "core (writer_turn t) = core t"
  by (simp add: writer_turn_def core_def split: prod.split)

lemma core_on_peer_request [simp]: "core (on_peer_request rules i piece off len t) = core t"
proof -
  have "core ((poke i f u)\<lparr>t_uploaded := n, t_up_sample := m\<rparr>) = core (poke i f u)" for f u n m by (simp add: core_def)
  then show ?thesis by (simp add: on_peer_request_def Let_def split: prod.split option.split)
qed

lemma core_on_peer_ready [simp]: "core (on_peer_ready rules i t) = core t"
  by (simp add: on_peer_ready_def Let_def)

lemma core_on_peer_others [simp]: "core (on_peer_closed p t) = core t" "core (on_peer_bitfield p t) = core t"
  "core (on_peer_have piece t) = core t" "core (on_peer_choke i choked t) = core t" "core (on_peers_discovered rules found t) = core t"
  "core (on_peer_metadata_size n t) = core t"
  by (simp_all add: on_peer_closed_def on_peer_bitfield_def on_peer_have_def on_peer_choke_def on_peers_discovered_def
      on_peer_metadata_size_def Let_def) (simp add: core_def)

subsection \<open>The invariant of a torrent\<close>

text \<open>Before the gate is applied, and after.\<close>

definition almost_ok :: "bytes \<Rightarrow> torrent \<Rightarrow> bool" where
  "almost_ok h t \<longleftrightarrow> t_hash_hex t = h \<and> h = to_hex (info_hash (t_meta t)) \<and>
     (t_state t = Paused \<or> t_state t = Queued \<longrightarrow> t_peers t = []) \<and>
     (t_meta_complete t \<longrightarrow> t_state t \<noteq> FetchingMetadata) \<and>
     (\<not> t_meta_complete t \<longrightarrow> t_state t = FetchingMetadata \<or> t_state t = Paused \<or> t_state t = Queued) \<and>
     t_state t \<noteq> Completed"

definition torrent_ok :: "bytes \<Rightarrow> torrent \<Rightarrow> bool" where
  "torrent_ok h t \<longleftrightarrow> almost_ok h t \<and> (t_state t = Paused \<longrightarrow> t_user_paused t) \<and>
     (t_user_paused t \<longrightarrow> t_state t = Paused \<or> t_state t = Failed \<or> t_state t = Seeding)"

lemma ok_core: "core t' = core t \<Longrightarrow> almost_ok h t' = almost_ok h t" "core t' = core t \<Longrightarrow> torrent_ok h t' = torrent_ok h t"
  by (auto simp: core_def almost_ok_def torrent_ok_def)

lemma ok_keep: "core t' = core t \<Longrightarrow> torrent_ok h t \<Longrightarrow> torrent_ok h t'"
  by (drule ok_core(2) [of _ _ h]) simp

lemma ok_drop_all_peers: "torrent_ok h t \<Longrightarrow> torrent_ok h (drop_all_peers t)"
  by (simp add: torrent_ok_def almost_ok_def)

lemma ok_apply_gate: "almost_ok h t \<Longrightarrow> torrent_ok h (apply_gate t)"
  by (cases "t_state t"; cases "t_user_paused t"; cases "t_queued t"; cases "t_meta_complete t")
     (simp_all add: torrent_ok_def almost_ok_def apply_gate_def)

lemma ok_almost: "torrent_ok h t \<Longrightarrow> almost_ok h t"
  by (simp add: torrent_ok_def)

lemma ok_set_paused: "torrent_ok h t \<Longrightarrow> torrent_ok h (set_paused b t)"
  unfolding set_paused_def by (rule ok_apply_gate) (simp add: torrent_ok_def almost_ok_def)

lemma ok_set_queued: "torrent_ok h t \<Longrightarrow> torrent_ok h (set_queued b t)"
  unfolding set_queued_def by (rule ok_apply_gate) (simp add: torrent_ok_def almost_ok_def)

lemma ok_failed: "torrent_ok h t \<Longrightarrow> t_meta_complete t \<Longrightarrow> torrent_ok h (t\<lparr>t_state := Failed, t_message := m\<rparr>)"
  by (simp add: torrent_ok_def almost_ok_def)

lemma ok_seeding: "torrent_ok h t \<Longrightarrow> t_meta_complete t \<Longrightarrow> torrent_ok h (t\<lparr>t_state := Seeding, t_message := m\<rparr>)"
  by (simp add: torrent_ok_def almost_ok_def)

lemma meta_core: "core t' = core t \<Longrightarrow> t_meta_complete t' = t_meta_complete t"
  by (simp add: core_def)

lemma save_resume_meta [simp]: "t_meta_complete (save_resume t) = t_meta_complete t"
  by (simp add: save_resume_def)

lemma ok_finish_piece:
  assumes "torrent_ok h t" "t_meta_complete t"
  shows "torrent_ok h (finish_piece piece hash_ok commit_needed write_failed t) \<and>
    t_meta_complete (finish_piece piece hash_ok commit_needed write_failed t)"
proof -
  obtain st ok where c: "(if commit_needed then commit_piece piece (t_storage t) else (t_storage t, True)) = (st, ok)" by fastforce
  define u where "u = t\<lparr>t_picker := on_piece_verified piece hash_ok (t_picker t), t_storage := st\<rparr>"
  define v where "v = poke_all is_ready (send_have quiet piece) u"
  have u: "torrent_ok h u" "t_meta_complete u" using assms by (simp_all add: u_def torrent_ok_def almost_ok_def)
  have "core v = core u" by (simp add: v_def)
  from ok_keep [OF this u(1)] meta_core [OF this] u(2) have v: "torrent_ok h v" "t_meta_complete v" by simp_all
  define w where "w = poke_all (\<lambda>p. True) (send_interested quiet False) ((save_resume v)\<lparr>t_state := Seeding, t_message := Finished\<rparr>)"
  have s: "torrent_ok h (save_resume v)" using v(1) core_save_resume ok_keep by blast
  have w: "core w = core ((save_resume v)\<lparr>t_state := Seeding, t_message := Finished\<rparr>)" by (simp add: w_def)
  have "torrent_ok h ((save_resume v)\<lparr>t_state := Seeding, t_message := Finished\<rparr>)"
    using s v(2) by (intro ok_seeding) simp_all
  from ok_keep [OF w this] meta_core [OF w] v(2) have w: "torrent_ok h w" "t_meta_complete w" by simp_all
  show ?thesis
  proof (cases "write_failed \<or> \<not> hash_ok \<or> \<not> ok")
    case True
    have "torrent_ok h (t\<lparr>t_picker := p, t_storage := q, t_corrupt := n, t_message := m\<rparr>)"
      "torrent_ok h (t\<lparr>t_picker := p, t_storage := q, t_state := Failed, t_message := m\<rparr>)"
      "torrent_ok h (t\<lparr>t_state := Failed, t_message := m\<rparr>)" for p q n m
      using assms by (simp_all add: torrent_ok_def almost_ok_def)
    moreover have "commit_needed \<and> commit_piece piece (t_storage t) = (st, False)" if "\<not> ok"
      using c that by (simp split: if_splits)
    ultimately show ?thesis using True assms by (cases "write_failed"; cases hash_ok; cases ok) (simp_all add: finish_piece_def Let_def)
  next
    case False
    then have "finish_piece piece hash_ok commit_needed write_failed t = (if is_complete (t_picker v) then w else v)"
      using c by (cases commit_needed) (auto simp add: finish_piece_def u_def v_def w_def Let_def)
    then show ?thesis using v w by simp
  qed
qed

lemma ok_fold: "(\<And>x t. x \<in> set xs \<Longrightarrow> torrent_ok h t \<Longrightarrow> torrent_ok h (f x t)) \<Longrightarrow> torrent_ok h t \<Longrightarrow> torrent_ok h (fold f xs t)"
  by (induction xs arbitrary: t) simp_all

lemma ok_poke: "torrent_ok h t \<Longrightarrow> torrent_ok h (poke i f t)" "torrent_ok h t \<Longrightarrow> torrent_ok h (poke_all P f t)"
  "torrent_ok h t \<Longrightarrow> torrent_ok h (save_resume t)"
  by (rule ok_keep, simp, assumption)+

lemma ok_update: "torrent_ok h t \<Longrightarrow> torrent_ok h (t\<lparr>t_picker := pk\<rparr>)" "torrent_ok h t \<Longrightarrow> torrent_ok h (t\<lparr>t_storage := st\<rparr>)"
  "torrent_ok h t \<Longrightarrow> torrent_ok h (t\<lparr>t_writer := w\<rparr>)" "torrent_ok h t \<Longrightarrow> torrent_ok h (t\<lparr>t_last_save := n\<rparr>)"
  "torrent_ok h t \<Longrightarrow> torrent_ok h (t\<lparr>t_peers := (t_peers t)[i := q]\<rparr>)"
  by (rule ok_keep, simp, assumption)+

lemma ok_on_peer_block:
  assumes "torrent_ok h t"
  shows "torrent_ok h (on_peer_block piece off data t)"
proof (cases "\<not> t_meta_complete t \<or> t_state t = Paused \<or> t_state t = Queued \<or> piece_count (t_meta t) \<le> piece \<or> data = []")
  case True
  then show ?thesis using assms by (auto simp: on_peer_block_def)
next
  case False
  have "torrent_ok h (t\<lparr>t_storage := st, t_state := Failed, t_message := m\<rparr>)"
    "torrent_ok h (t\<lparr>t_storage := st, t_down_sample := n, t_picker := pk\<rparr>)"
    "torrent_ok h (t\<lparr>t_down_sample := n, t_picker := pk, t_storage := st\<rparr>)"
    "torrent_ok h (t\<lparr>t_storage := st, t_down_sample := n, t_picker := pk, t_writer := w\<rparr>)"
    "torrent_ok h (t\<lparr>t_down_sample := n, t_picker := pk, t_writer := w, t_storage := st\<rparr>)"
    "t_meta_complete (t\<lparr>t_down_sample := n, t_picker := pk, t_storage := st\<rparr>)" for st m n pk w
    using False assms by (simp_all add: torrent_ok_def almost_ok_def)
  then show ?thesis using False ok_finish_piece by (auto simp: on_peer_block_def Let_def split: prod.split option.split)
qed

lemma parse_info_dict_hash:
  assumes "parse_info_dict buf expected empty_meta = Inr m"
  shows "info_hash m = expected"
proof -
  from assms obtain info where i: "bdecode buf = Inr info" "read_info info (empty_meta\<lparr>info_hash := expected\<rparr>) = Inr m"
    by (auto simp: parse_info_dict_def split: if_splits sum.splits)
  have "bwf info" using bdecode_good [OF i(1)] by (simp add: good_def)
  from read_info_ok [OF i(2) this] show ?thesis by (simp add: empty_meta_def)
qed

lemma prepare_storage_meta:
  "t_meta (fst (prepare_storage dir n t)) = t_meta t" "t_meta_complete (fst (prepare_storage dir n t)) = t_meta_complete t"
  "t_hash_hex (fst (prepare_storage dir n t)) = t_hash_hex t" "t_peers (fst (prepare_storage dir n t)) = t_peers t"
  "t_user_paused (fst (prepare_storage dir n t)) = t_user_paused t"
  "t_state (fst (prepare_storage dir n t)) = (if snd (prepare_storage dir n t) then t_state t else Failed)"
  by (simp_all add: prepare_storage_def save_resume_def Let_def split: option.split)

lemma ok_finish_metadata:
  assumes "torrent_ok h t" "\<not> t_meta_complete t"
  shows "torrent_ok h (finish_metadata n t)"
proof (cases "parse_info_dict (t_md_buf t) (info_hash (t_meta t)) empty_meta")
  case (Inl e)
  have "core (t\<lparr>t_message := m, t_md_size := 0, t_md_buf := [], t_md_have := []\<rparr>) = core t" for m by (simp add: core_def)
  with assms(1) Inl show ?thesis by (simp add: finish_metadata_def ok_keep)
next
  case (Inr parsed)
  define t1 where "t1 = t\<lparr>t_meta := parsed\<lparr>trackers := trackers (t_meta t)\<rparr>, t_meta_complete := True, t_name := mname parsed\<rparr>"
  obtain u ok where u: "prepare_storage (t_dir t1) n t1 = (u, ok)" by fastforce
  note p = prepare_storage_meta [of "t_dir t1" n t1, unfolded u fst_conv snd_conv]
  have h: "t_hash_hex u = h" "h = to_hex (info_hash (t_meta u))" "t_meta_complete u"
    using assms(1) parse_info_dict_hash [OF Inr] by (simp_all add: p t1_def torrent_ok_def almost_ok_def)
  define v where "v = poke_all (\<lambda>p. True) (\<lambda>p. send_interested quiet True (set_piece_count quiet (piece_count (t_meta u)) p)) u"
  have "core v = core u" by (simp add: v_def)
  then have v: "t_hash_hex v = h" "h = to_hex (info_hash (t_meta v))" "t_meta_complete v" using h by (simp_all add: core_def)
  have e: "finish_metadata n t = (if \<not> ok then u else apply_gate (v\<lparr>t_checked := False, t_state := Checking\<rparr>))"
    using u by (simp add: finish_metadata_def Inr v_def t1_def)
  show ?thesis
  proof (cases ok)
    case True
    have "almost_ok h (v\<lparr>t_checked := False, t_state := Checking\<rparr>)" using v by (simp add: almost_ok_def)
    with e True show ?thesis by (simp add: ok_apply_gate)
  next
    case False
    then show ?thesis using e h p(6) by (simp add: torrent_ok_def almost_ok_def)
  qed
qed

lemma ok_on_peer_metadata_piece:
  assumes "torrent_ok h t"
  shows "torrent_ok h (on_peer_metadata_piece n index data t)"
proof -
  have "core (t\<lparr>t_md_buf := b, t_md_have := g\<rparr>) = core t" for b g by (simp add: core_def)
  then have "torrent_ok h (t\<lparr>t_md_buf := b, t_md_have := g\<rparr>)" for b g using assms ok_keep by blast
  then show ?thesis using assms ok_finish_metadata by (simp add: on_peer_metadata_piece_def Let_def)
qed

lemma ok_on_event: "torrent_ok h t \<Longrightarrow> torrent_ok h (on_event rules n i ev t)"
  by (cases ev) (auto simp: on_event_def ok_on_peer_block ok_on_peer_metadata_piece intro: ok_keep)

lemma ok_deliver:
  assumes "torrent_ok h t"
  shows "torrent_ok h (deliver rules n i data now t)"
  unfolding deliver_def Let_def using assms by (auto intro!: ok_fold ok_on_event ok_update)

lemma ok_poll_messages: "torrent_ok h t \<Longrightarrow> torrent_ok h (poll_messages k rules n i now t)"
  by (induction k arbitrary: t) (simp_all add: Let_def ok_deliver ok_poke ok_update)

lemma ok_poll_peer: "torrent_ok h t \<Longrightarrow> torrent_ok h (poll_peer rules n i a now clk t)"
  unfolding poll_peer_def Let_def
  by (auto split: prod.split intro!: ok_poll_messages ok_fold ok_on_event ok_update)

lemma ok_poll_torrent: "torrent_ok h t \<Longrightarrow> torrent_ok h (poll_torrent rules n reports now clk t)"
  unfolding poll_torrent_def by (rule ok_fold) (simp_all add: ok_poll_peer)

text \<open>Connecting only adds connections, which is allowed unless the torrent is stopped.\<close>

definition alike :: "torrent \<Rightarrow> torrent \<Rightarrow> bool" where
  "alike t t' \<longleftrightarrow> t_hash_hex t' = t_hash_hex t \<and> t_meta t' = t_meta t \<and> t_meta_complete t' = t_meta_complete t \<and>
     t_user_paused t' = t_user_paused t \<and> t_state t' = t_state t"

lemma alike_connect_loop: "alike t (connect_loop n cap rules my_id dial now clk t)"
  by (induction n cap rules my_id dial now clk t rule: connect_loop.induct)
     (auto simp: alike_def Let_def split: dialed.split)

lemma alike_connect_more: "alike t (connect_more rules my_id dial now clk t)"
proof -
  define u where "u = (if t_ceiling t < kMaxPeersPerTorrent \<and> t_ceiling_retry t \<le> now
               then t\<lparr>t_ceiling := min kMaxPeersPerTorrent (t_ceiling t + 8), t_ceiling_retry := u64 (now + kCeilingProbeMs)\<rparr>
               else t)"
  have "alike t u" by (simp add: u_def alike_def)
  then show ?thesis
    unfolding connect_more_def Let_def u_def [symmetric] using alike_connect_loop [of u] by (simp add: alike_def)
qed

lemma ok_alike: "alike t t' \<Longrightarrow> torrent_ok h t \<Longrightarrow> t_state t \<noteq> Paused \<Longrightarrow> t_state t \<noteq> Queued \<Longrightarrow> torrent_ok h t'"
  by (simp add: alike_def torrent_ok_def almost_ok_def)

lemma ok_collect_written_pieces:
  assumes "torrent_ok h t" "t_meta_complete t"
  shows "torrent_ok h (collect_written_pieces t)"
proof -
  have "torrent_ok h (fold (\<lambda>r. finish_piece (res_piece r) (\<not> res_hash_failed r) False (\<not> res_ok r \<and> \<not> res_hash_failed r)) rs u)"
    if "torrent_ok h u" "t_meta_complete u" for rs :: "wresult list" and u
    using that by (induction rs arbitrary: u) (simp_all add: ok_finish_piece)
  then show ?thesis using assms by (auto simp: collect_written_pieces_def ok_update split: prod.split)
qed

lemma ok_torrent_tick:
  assumes "torrent_ok h t"
  shows "torrent_ok h (torrent_tick rules network my_id dial ord ord_req now clk t)"
proof (cases "t_state t = Paused \<or> t_state t = Queued \<or> t_state t = Failed")
  case True
  then show ?thesis using assms by (auto simp: torrent_tick_def)
next
  case running: False
  show ?thesis
  proof (cases network)
    case False
    have "core (drop_all_peers t) = core (drop_all_peers t\<lparr>t_message := VpnMissing\<rparr>)" by simp
    then show ?thesis using running False ok_drop_all_peers [OF assms] by (auto simp: torrent_tick_def Let_def intro: ok_keep)
  next
    case True
    define a where "a = t\<lparr>t_peers := filter (\<lambda>p. p_state p \<noteq> Closed) (t_peers t)\<rparr>"
    define b where "b = poke_all (useless now) (close_peer quiet (OwnerReason [])) (poke_all (\<lambda>p. True) (tick quiet now) a)"
    define c where "c = connect_more rules my_id dial now clk b"
    define d where "d = collect_written_pieces c"
    define e where "e = d\<lparr>t_picker := fst (expire_requests (ord_req (t_picker d)) now kSessionBlockTimeoutMs (t_picker d))\<rparr>"
    define f where "f = fold (\<lambda>i t. if is_ready (t_peers t ! i) then request_blocks ord now clk i t else t) [0..<length (t_peers e)] e"
    have a: "torrent_ok h a" "alike t a" using assms running by (auto simp: a_def torrent_ok_def almost_ok_def alike_def)
    have "core b = core a" by (simp add: b_def)
    then have b: "torrent_ok h b" "alike t b" using ok_keep [OF _ a(1)] a(2) by (blast, simp add: core_def alike_def)
    have "alike b c" by (simp add: c_def alike_connect_more)
    then have c: "torrent_ok h c" "alike t c" using b running ok_alike [of b c] by (simp_all add: alike_def)
    have "torrent_ok h d" if "t_meta_complete c" using c(1) that by (simp add: d_def ok_collect_written_pieces)
    then have e: "torrent_ok h e" if "t_meta_complete c" using that by (simp add: e_def ok_update)
    have "core f = core e" unfolding f_def by (rule fold_core) simp
    then have f: "torrent_ok h f" if "t_meta_complete c" using e that ok_keep by blast
    have g: "torrent_ok h (update_rates now f)" "torrent_ok h (update_rates now (save_resume f\<lparr>t_last_save := now\<rparr>))" if "t_meta_complete c"
      using f [OF that] by (auto intro: ok_keep)
    have "torrent_tick rules network my_id dial ord ord_req now clk t =
      (if \<not> t_meta_complete c then drive_metadata now c else if t_state c = Checking then c else if t_state d = Failed then d
       else update_rates now (if kResumeSaveIntervalMs < sub64 now (t_last_save f) then (save_resume f)\<lparr>t_last_save := now\<rparr> else f))"
      using running True unfolding torrent_tick_def Let_def a_def b_def c_def d_def e_def f_def by simp
    moreover have "torrent_ok h (drive_metadata now c)" using c(1) by (rule ok_keep [rotated]) simp
    ultimately show ?thesis using c(1) g \<open>t_meta_complete c \<Longrightarrow> torrent_ok h d\<close> by simp
  qed
qed

lemma load_resume_core: "core (fst (load_resume t)) = core t"
  by (simp add: load_resume_def split: option.split)

lemma scan_card_core: "core (scan_card go t) = core t"
  by (simp add: scan_card_def split: prod.split)

lemma ok_run_check:
  assumes "torrent_ok h t" "t_state t = Checking"
  shows "torrent_ok h (run_check go t)"
proof -
  have b: "t_hash_hex t = h" "h = to_hex (info_hash (t_meta t))" "t_meta_complete t" using assms by (auto simp: torrent_ok_def almost_ok_def)
  have base: "torrent_ok h (apply_gate (u\<lparr>t_checked := True, t_state := st, t_message := m\<rparr>))"
    if "core u = core t" "st = Seeding \<or> st = Downloading" for u st m
    using b that by (intro ok_apply_gate) (auto simp: almost_ok_def core_def)
  show ?thesis
  proof (cases "recreated (t_storage t)")
    case True
    have "torrent_ok h (apply_gate (t\<lparr>t_resume := None, t_message := Recreated, t_checked := True, t_state := Downloading\<rparr>))"
      using b by (intro ok_apply_gate) (auto simp: almost_ok_def)
    then show ?thesis using True by (simp add: run_check_def)
  next
    case False
    obtain u loaded where l: "load_resume t = (u, loaded)" by fastforce
    define v where "v = (if loaded then u\<lparr>t_message := Resumed\<rparr> else if \<not> created_fresh (t_storage u) \<and> any_data_on_disk u then scan_card go u else u)"
    have "core v = core t" using load_resume_core [of t] by (simp add: v_def l scan_card_core)
    from base [OF this] show ?thesis unfolding run_check_def Let_def l prod.case using False by (simp add: v_def [symmetric])
  qed
qed

lemma ok_new_torrent: "torrent_ok (to_hex (info_hash m)) ((new_torrent m c dsk r)\<lparr>t_dir := d, t_announce_key := k\<rparr>)"
  by (simp add: new_torrent_def torrent_ok_def almost_ok_def Let_def)

lemma ok_prepare_storage: "torrent_ok h t \<Longrightarrow> t_meta_complete t \<Longrightarrow> torrent_ok h (fst (prepare_storage d n t))"
  by (simp add: torrent_ok_def almost_ok_def prepare_storage_meta)

subsection \<open>The invariant of the session\<close>

definition command_ok :: "command \<Rightarrow> bool" where
  "command_ok c = (case c of AddTorrent hex m complete \<Rightarrow> hex = to_hex (info_hash m) | _ \<Rightarrow> True)"

definition session_ok :: "session \<Rightarrow> bool" where
  "session_ok s \<longleftrightarrow> distinct (map t_hash_hex (ss_torrents s)) \<and> list_all (\<lambda>t. torrent_ok (t_hash_hex t) t) (ss_torrents s) \<and>
     list_all command_ok (ss_commands s)"

lemma first_index_some: "first_index P xs = Some i \<Longrightarrow> i < length xs \<and> P (xs ! i)"
  by (induction xs arbitrary: i) (auto split: if_splits)

lemma first_index_none: "first_index P xs = None \<longleftrightarrow> (\<forall>x \<in> set xs. \<not> P x)"
  by (induction xs) auto

text \<open>Operations on one torrent, or on each: they keep the hashes.\<close>

definition keeps :: "(torrent \<Rightarrow> torrent) \<Rightarrow> bool" where
  "keeps f \<longleftrightarrow> (\<forall>h t. torrent_ok h t \<longrightarrow> torrent_ok h (f t))"

lemma ok_hash: "torrent_ok h t \<Longrightarrow> t_hash_hex t = h"
  by (simp add: torrent_ok_def almost_ok_def)

lemma ok_map_torrents:
  assumes "session_ok s" "list_all2 (\<lambda>t t'. torrent_ok (t_hash_hex t) t') (ss_torrents s) ts"
  shows "session_ok (s\<lparr>ss_torrents := ts\<rparr>)"
proof -
  have "map t_hash_hex ts = map t_hash_hex (ss_torrents s)" using assms(2)
    by (auto simp: list_all2_conv_all_nth list_eq_iff_nth_eq [of "map t_hash_hex ts"] ok_hash)
  moreover have "list_all (\<lambda>t. torrent_ok (t_hash_hex t) t) ts" using assms(2)
    by (auto simp: list_all_length list_all2_conv_all_nth) (metis ok_hash)
  ultimately show ?thesis using assms(1) by (simp add: session_ok_def)
qed

lemma ok_update_torrent:
  assumes "session_ok s" "keeps f" "\<And>j. i = Some j \<Longrightarrow> j < length (ss_torrents s)"
  shows "session_ok (update_torrent i f s)"
proof (cases i)
  case (Some j)
  let ?ts = "ss_torrents s"
  have "torrent_ok (t_hash_hex (?ts ! n)) (?ts[j := f (?ts ! j)] ! n)"
    if "n < length ?ts" for n
    using assms(1,2) that by (cases "n = j") (simp_all add: session_ok_def keeps_def list_all_length)
  then have "list_all2 (\<lambda>t t'. torrent_ok (t_hash_hex t) t') ?ts (?ts[j := f (?ts ! j)])"
    by (simp add: list_all2_conv_all_nth)
  from ok_map_torrents [OF assms(1) this] Some show ?thesis by (simp add: update_torrent_def)
qed (simp add: update_torrent_def assms)

lemma ok_update_found: "session_ok s \<Longrightarrow> keeps f \<Longrightarrow> session_ok (update_torrent (find_torrent hex (ss_torrents s)) f s)"
  by (rule ok_update_torrent) (simp_all add: find_torrent_def first_index_some)

lemma ok_map_keeps: "session_ok s \<Longrightarrow> keeps f \<Longrightarrow> session_ok (s\<lparr>ss_torrents := map f (ss_torrents s)\<rparr>)"
  by (rule ok_map_torrents) (simp_all add: list_all2_conv_all_nth session_ok_def keeps_def list_all_length)

lemma keepsI: "(\<And>t. core (f t) = core t) \<Longrightarrow> keeps f"
  unfolding keeps_def using ok_keep by blast

lemma keeps_gates: "keeps (set_paused b)" "keeps (set_queued b)" "keeps drop_all_peers"
  using ok_set_paused ok_set_queued ok_drop_all_peers by (simp_all add: keeps_def)

lemma ok_update_queue: "session_ok s \<Longrightarrow> session_ok (update_queue s)"
proof -
  assume s: "session_ok s"
  have "\<exists>ts. update_queue s = s\<lparr>ss_torrents := ts\<rparr>" by (auto simp: update_queue_def Let_def split: prod.split)
  then obtain ts where u: "update_queue s = s\<lparr>ss_torrents := ts\<rparr>" by blast
  have "list_all2 requeued (ss_torrents s) (ss_torrents (update_queue s))"
    using update_queue_limited(1) update_queue_unlimited(1) by (cases "0 < ss_max_active s") simp_all
  then have q: "list_all2 requeued (ss_torrents s) ts" by (simp add: u)
  have "torrent_ok (t_hash_hex t) t'" if "torrent_ok (t_hash_hex t) t" "requeued t t'" for t t'
    using that keeps_gates(2) unfolding requeued_def keeps_def by metis
  then have "list_all2 (\<lambda>t t'. torrent_ok (t_hash_hex t) t') (ss_torrents s) ts"
    using q s by (auto simp: list_all2_conv_all_nth session_ok_def list_all_length)
  from ok_map_torrents [OF s this] show ?thesis by (simp add: u)
qed

lemma ok_frame: "ss_torrents s' = ss_torrents s \<Longrightarrow> ss_commands s' = ss_commands s \<Longrightarrow> session_ok s' = session_ok s"
  by (simp add: session_ok_def)

lemma ok_push_command: "session_ok s \<Longrightarrow> command_ok c \<Longrightarrow> session_ok (push_command c s)"
  by (simp add: session_ok_def push_command_def)

lemma ok_remember: "session_ok (remember_magnet hex uri s) = session_ok s"
  by (rule ok_frame) (simp_all add: remember_magnet_def)

lemma ok_add_magnet: "session_ok s \<Longrightarrow> add_magnet uri s = Inr s' \<Longrightarrow> session_ok s'"
  by (auto simp: add_magnet_def Let_def command_ok_def magnet_meta_def ok_remember intro!: ok_push_command split: sum.splits if_splits)

lemma ok_add_torrent_file: "session_ok s \<Longrightarrow> add_torrent_file blob s = Inr s' \<Longrightarrow> session_ok s'"
  by (auto simp: add_torrent_file_def Let_def command_ok_def ok_remember intro!: ok_push_command split: sum.splits if_splits option.splits)

lemma ok_restore: "session_ok s \<Longrightarrow> session_ok (fst (restore_torrents fs s))"
proof -
  have "session_ok (fst (fold (\<lambda>uri (s, n). case add_magnet uri s of Inl e \<Rightarrow> (s, n) | Inr s \<Rightarrow> (s, n + 1)) us (s, n)))"
    if "session_ok s" for us s and n :: nat
    using that by (induction us arbitrary: s n) (auto split: sum.split dest: ok_add_magnet)
  then show "session_ok s \<Longrightarrow> session_ok (fst (restore_torrents fs s))" by (simp add: restore_torrents_def)
qed

lemma new_torrent_hash: "t_hash_hex (new_torrent m c dsk r) = to_hex (info_hash m)"
  by (simp add: new_torrent_def Let_def)

lemma ok_process_command:
  assumes "session_ok s" "command_ok c"
  shows "session_ok (process_command env c s)"
proof (cases c)
  case (AddTorrent hex m complete)
  define t0 where "t0 = (new_torrent m complete (env_disk env) (env_resume env hex))\<lparr>t_dir := ss_dir s, t_announce_key := env_key env\<rparr>"
  define t where "t = (if complete then fst (prepare_storage (ss_dir s) (env_free env) t0) else t0)"
  have "torrent_ok (to_hex (info_hash m)) t0" by (simp add: t0_def ok_new_torrent)
  moreover have "t_meta_complete t0 = complete" by (simp add: t0_def new_torrent_def Let_def)
  ultimately have t: "torrent_ok (to_hex (info_hash m)) t" by (simp add: t_def ok_prepare_storage)
  have "t_hash_hex t0 = hex" using assms(2) AddTorrent by (simp add: command_ok_def t0_def new_torrent_hash)
  then have h: "t_hash_hex t = hex" by (simp add: t_def prepare_storage_meta)
  have "process_command env c s = (if find_torrent hex (ss_torrents s) \<noteq> None then s else s\<lparr>ss_torrents := ss_torrents s @ [t]\<rparr>)"
    by (simp add: process_command_def AddTorrent Let_def t_def t0_def)
  moreover have "session_ok (s\<lparr>ss_torrents := ss_torrents s @ [t]\<rparr>)" if "find_torrent hex (ss_torrents s) = None"
    using assms(1) that t h ok_hash [OF t] by (auto simp: session_ok_def find_torrent_def first_index_none)
  ultimately show ?thesis using assms(1) by simp
next
  case (RemoveTorrent hex del)
  have "session_ok (s\<lparr>ss_removed := r, ss_dht := d, ss_magnets := m, ss_torrents := take i (ss_torrents s) @ drop (i + 1) (ss_torrents s)\<rparr>)"
    for r d m i
    using assms(1) set_take_subset [of i "ss_torrents s"] set_drop_subset [of "i + 1" "ss_torrents s"]
      set_take_disj_set_drop_if_distinct [of "map t_hash_hex (ss_torrents s)" i "i + 1"]
      distinct_take [of "map t_hash_hex (ss_torrents s)" i] distinct_drop [of "map t_hash_hex (ss_torrents s)" "i + 1"]
    by (auto simp: session_ok_def list_all_iff take_map drop_map)
  then show ?thesis using assms(1) RemoveTorrent by (auto simp: process_command_def split: option.split)
next
  case SetTransport
  then show ?thesis using ok_map_keeps [OF assms(1) keeps_gates(3)] by (simp add: process_command_def)
qed (use assms keeps_gates in \<open>simp_all add: process_command_def ok_update_found\<close>)

lemma ok_process_commands: "session_ok s \<Longrightarrow> session_ok (process_commands env s)"
proof -
  have "session_ok (fold (process_command env) cs s)" if "session_ok s" "list_all command_ok cs" for cs s
    using that by (induction cs arbitrary: s) (simp_all add: ok_process_command)
  then show "session_ok s \<Longrightarrow> session_ok (process_commands env s)" unfolding process_commands_def by (simp add: session_ok_def)
qed

lemma keeps_check: "session_ok s \<Longrightarrow> i < length (ss_torrents s) \<Longrightarrow> session_ok (check_torrent go i s)"
proof (cases "t_state (ss_torrents s ! i) = Checking")
  case True
  assume s: "session_ok s" and i: "i < length (ss_torrents s)"
  let ?f = "\<lambda>t. if t_state t = Checking then run_check go t else t"
  have f: "keeps ?f" using ok_run_check by (simp add: keeps_def)
  have "ss_torrents (publish_status s) = ss_torrents s" by (simp add: publish_status_def Let_def)
  moreover have "session_ok (publish_status s) = session_ok s" by (rule ok_frame) (simp_all add: publish_status_def Let_def)
  ultimately have "session_ok (update_torrent (Some i) ?f (publish_status s))"
    using s i f ok_update_torrent [of "publish_status s" ?f "Some i"] by simp
  moreover have "update_torrent (Some i) ?f (publish_status s) = update_torrent (Some i) (run_check go) (publish_status s)"
    using True by (simp add: update_torrent_def publish_status_def Let_def)
  ultimately show ?thesis using True by (simp add: check_torrent_def)
qed (simp add: check_torrent_def)

lemma check_torrent_length [simp]: "length (ss_torrents (check_torrent go i s)) = length (ss_torrents s)"
  by (simp add: check_torrent_def update_torrent_def publish_status_def Let_def)

lemma ok_check_torrents: "session_ok s \<Longrightarrow> session_ok (check_torrents go s)"
proof -
  have "session_ok (fold (check_torrent go) is s)" if "session_ok s" "\<forall>i \<in> set is. i < length (ss_torrents s)" for "is" s
    using that by (induction "is" arbitrary: s) (simp_all add: keeps_check)
  then show "session_ok s \<Longrightarrow> session_ok (check_torrents go s)" by (simp add: check_torrents_def)
qed

lemma keeps_tick: "keeps (torrent_tick rules network my_id dial ord ord_req now clk)"
  by (simp add: keeps_def ok_torrent_tick)

lemma ok_deliver_found: "session_ok s \<Longrightarrow> session_ok (deliver_found rs s)"
proof -
  have "session_ok (fold (\<lambda>(target, eps) s. update_torrent (find_torrent (to_hex target) (ss_torrents s)) (add_peers eps) s) rs s)"
    if "session_ok s" for s
    using that by (induction rs arbitrary: s) (simp_all add: ok_update_found keepsI split: prod.split)
  then show "session_ok s \<Longrightarrow> session_ok (deliver_found rs s)" by (simp add: deliver_found_def)
qed

lemma ok_dht_update: "session_ok (s\<lparr>ss_dht := d\<rparr>) = session_ok s" "session_ok (s\<lparr>ss_dht_transport := t, ss_dht := d\<rparr>) = session_ok s"
  "session_ok (s\<lparr>ss_dht_transport := t\<rparr>) = session_ok s"
  by (rule ok_frame; simp)+

lemma ok_engine_dht: "session_ok s \<Longrightarrow> session_ok (engine_dht srt now s)"
  by (simp add: engine_dht_def Let_def ok_dht_update ok_deliver_found split: prod.split)

lemma ok_announce_due: "session_ok s \<Longrightarrow> session_ok (announce_due now s)"
proof -
  assume s: "session_ok s"
  have "session_ok (s\<lparr>ss_torrents := map (fst \<circ> announce_torrent (ss_privacy s) (ss_peer_id s) now) (ss_torrents s)\<rparr>)"
    by (rule ok_map_keeps [OF s], rule keepsI) simp
  moreover have "session_ok (u\<lparr>ss_torrents := ts, ss_jobs := js\<rparr>) = session_ok (u\<lparr>ss_torrents := ts\<rparr>)" for u ts js
    by (rule ok_frame) simp_all
  ultimately show ?thesis by (simp add: announce_due_def Let_def comp_def)
qed

lemma ok_take_replies: "session_ok s \<Longrightarrow> session_ok (take_replies now s)"
proof -
  have "session_ok (fold (\<lambda>r s. update_torrent (find_torrent (ay_hash r) (ss_torrents s)) (apply_announce (ay_result r) now) s) rs s)"
    if "session_ok s" for rs :: "announce_reply list" and s
    using that by (induction rs arbitrary: s) (simp_all add: ok_update_found keepsI)
  moreover have "session_ok (s\<lparr>ss_replies := []\<rparr>) = session_ok s" by (rule ok_frame) simp_all
  ultimately show "session_ok s \<Longrightarrow> session_ok (take_replies now s)" by (simp add: take_replies_def)
qed

lemma ok_engine_poll: "session_ok s \<Longrightarrow> session_ok (engine_poll env s)"
proof -
  assume s: "session_ok s"
  let ?ts = "map (\<lambda>(i, t). poll_torrent (ss_privacy s) (env_free env) (env_poll env i) (env_now env) (env_now env) t) (enumerate 0 (ss_torrents s))"
  have "list_all2 (\<lambda>t t'. torrent_ok (t_hash_hex t) t') (ss_torrents s) ?ts"
    using s by (auto simp: list_all2_conv_all_nth nth_enumerate_eq session_ok_def list_all_length ok_poll_torrent)
  from ok_map_torrents [OF s this] have "session_ok (s\<lparr>ss_torrents := ?ts\<rparr>)" .
  moreover have "session_ok (s\<lparr>ss_torrents := ?ts, ss_dht := d\<rparr>) = session_ok (s\<lparr>ss_torrents := ?ts\<rparr>)" for d
    by (rule ok_frame) simp_all
  ultimately show "session_ok (engine_poll env s)" using s by (simp add: engine_poll_def)
qed

lemma ok_publish: "session_ok (publish_status s) = session_ok s" "session_ok (publish_due now s) = session_ok s"
  by (rule ok_frame; simp add: publish_status_def publish_due_def Let_def)+

lemma ok_engine_turn: "session_ok s \<Longrightarrow> session_ok (engine_turn env s)"
  unfolding engine_turn_def Let_def ok_publish tick_torrents_def
  by (intro ok_engine_poll ok_take_replies ok_announce_due ok_engine_dht ok_map_keeps keeps_tick ok_check_torrents
      ok_update_queue ok_process_commands)

lemma ok_session_step: "session_step s s' \<Longrightarrow> session_ok s \<Longrightarrow> session_ok s'"
proof (induction rule: session_step.induct)
  case (transport s tp)
  have "session_ok (s\<lparr>ss_transport := tp\<rparr>) = session_ok s" by (rule ok_frame) simp_all
  with transport show ?case by (simp add: set_session_transport_def ok_push_command command_ok_def)
next
  case (privacy s rules)
  have "session_ok (set_privacy rules s) = session_ok s" by (rule ok_frame) (simp_all add: set_privacy_def)
  with privacy show ?case by simp
next
  case (max_active s n)
  have "session_ok (set_max_active n s) = session_ok s" by (rule ok_frame) (simp_all add: set_max_active_def)
  with max_active show ?case by simp
next
  case (starting s dir accessible bsd fs)
  have "session_ok (s\<lparr>ss_dir := d\<rparr>)" "session_ok (s\<lparr>ss_dir := d, ss_transport := tp, ss_running := True\<rparr>)" for d tp
    using starting by (simp_all add: session_ok_def)
  then show ?case using starting ok_restore by (simp add: start_session_def Let_def)
next
  case (stopping s)
  then show ?case by (simp add: stop_session_def session_ok_def)
next
  case (announcing s client)
  have "session_ok (fst (announce_turn client s)) = session_ok s"
    by (rule ok_frame) (simp_all add: announce_turn_def Let_def split: list.split option.split)
  with announcing show ?case by simp
next
  case (writing i s)
  have "session_ok (update_torrent (Some i) writer_turn s)"
    by (rule ok_update_torrent [OF writing(2)]) (use writing(1) in \<open>simp_all add: keepsI\<close>)
  then show ?case .
next
  case (magnet uri s s')
  then show ?case using ok_add_magnet by blast
next
  case (torrent_file blob s s')
  then show ?case using ok_add_torrent_file by blast
next
  case (turn s env)
  then show ?case by (rule ok_engine_turn)
qed (simp_all add: pause_def resume_def remove_torrent_def ok_push_command command_ok_def)

lemma reach_ok: "session_step\<^sup>*\<^sup>* (new_session peer_id) s \<Longrightarrow> session_ok s"
  by (induction rule: rtranclp_induct) (simp add: new_session_def session_ok_def, rule ok_session_step)

text \<open>C1: whatever the interface, the engine, the announcing thread and the writing threads do, in whatever
  order, no torrent is in the session twice, each keeps the hash it was added with (the metadata it
  receives from the peers included), a torrent that is paused is so by the user, a paused or waiting
  torrent has no connection, one the user paused is neither downloading, nor checking, nor waiting, and
  a torrent without metadata is fetching them, paused or waiting.\<close>

theorem session_invariant:
  assumes "session_step\<^sup>*\<^sup>* (new_session peer_id) s"
  shows "distinct (map t_hash_hex (ss_torrents s)) \<and>
    (\<forall>t \<in> set (ss_torrents s). t_hash_hex t = to_hex (info_hash (t_meta t)) \<and>
       (t_state t = Paused \<longrightarrow> t_user_paused t) \<and>
       (t_state t = Paused \<or> t_state t = Queued \<longrightarrow> t_peers t = []) \<and>
       (t_user_paused t \<longrightarrow> t_state t \<in> {Paused, Failed, Seeding}) \<and>
       (\<not> t_meta_complete t \<longrightarrow> t_state t \<in> {FetchingMetadata, Paused, Queued}))"
proof -
  have "session_ok s" using assms by (rule reach_ok)
  then show ?thesis by (auto simp: session_ok_def list_all_iff torrent_ok_def almost_ok_def)
qed

text \<open>A turn adds the torrents its commands ask for, and loses none otherwise.\<close>

lemma length_update_torrent [simp]: "length (ss_torrents (update_torrent i f s)) = length (ss_torrents s)"
  by (simp add: update_torrent_def split: option.split)

lemma length_update_queue [simp]: "length (ss_torrents (update_queue s)) = length (ss_torrents s)"
  using list_all2_lengthD [OF update_queue_limited(1) [of s]] list_all2_lengthD [OF update_queue_unlimited(1) [of s]]
  by (cases "0 < ss_max_active s") simp_all

lemma length_fold: "(\<And>x s. length (ss_torrents (f x s)) = length (ss_torrents s)) \<Longrightarrow>
    length (ss_torrents (fold f xs s)) = length (ss_torrents s)"
  by (induction xs arbitrary: s) simp_all

lemma length_check_torrents [simp]: "length (ss_torrents (check_torrents go s)) = length (ss_torrents s)"
  by (simp add: check_torrents_def length_fold)

lemma length_deliver_found [simp]: "length (ss_torrents (deliver_found rs s)) = length (ss_torrents s)"
  by (simp add: deliver_found_def length_fold split: prod.split)

lemma length_engine_dht [simp]: "length (ss_torrents (engine_dht srt now s)) = length (ss_torrents s)"
  by (simp add: engine_dht_def Let_def split: prod.split)

lemma length_engine_turn [simp]: "length (ss_torrents (engine_turn env s)) = length (ss_torrents (process_commands env s))"
proof -
  have "length (ss_torrents (take_replies now u)) = length (ss_torrents u)" for now u by (simp add: take_replies_def length_fold)
  then show ?thesis
    by (simp add: engine_turn_def Let_def publish_due_def publish_status_def engine_poll_def announce_due_def tick_torrents_def)
qed

definition sample_env :: env where
  "sample_env = \<lparr>env_disk = no_disk, env_resume = (\<lambda>_. None), env_free = 0, env_key = 7, env_go_on = (\<lambda>_. True),
     env_dial = (\<lambda>_. Unreachable), env_begun = (\<lambda>_. []), env_requests = (\<lambda>_. []), env_sort = (\<lambda>_ ns. ns),
     env_poll = (\<lambda>_ _. (False, False, False)), env_poll_dht = False, env_now = 1000\<rparr>"

definition sample_link :: bytes where
  "sample_link = ascii ''magnet:?xt=urn:btih:0000000000000000000000000000000000000000&dn=a''"

lemma sample_link_added:
  "\<exists>s hex m. add_magnet sample_link (new_session []) = Inr s \<and> ss_commands s = [AddTorrent hex m False] \<and> ss_torrents s = []"
proof -
  have "(case add_magnet sample_link (new_session []) of Inl e \<Rightarrow> False
      | Inr s \<Rightarrow> length (ss_commands s) = 1 \<and> (case hd (ss_commands s) of AddTorrent hex m b \<Rightarrow> \<not> b | _ \<Rightarrow> False) \<and>
          ss_torrents s = [])"
    by code_simp
  then show ?thesis by (auto simp: length_Suc_conv split: sum.splits command.splits)
qed

theorem session_invariant_witness:
  "\<exists>s t. session_step\<^sup>*\<^sup>* (new_session []) s \<and> ss_torrents s = [t] \<and> t_hash_hex t = to_hex (info_hash (t_meta t)) \<and>
     (t_state t = Paused \<longrightarrow> t_user_paused t)"
proof -
  from sample_link_added obtain s hex m where s: "add_magnet sample_link (new_session []) = Inr s"
    "ss_commands s = [AddTorrent hex m False]" "ss_torrents s = []" by blast
  have r: "session_step\<^sup>*\<^sup>* (new_session []) (engine_turn sample_env s)"
    using session_step.magnet [OF s(1)] session_step.turn [of s sample_env] by (meson converse_rtranclp_into_rtranclp rtranclp.simps)
  have "length (ss_torrents (engine_turn sample_env s)) = 1"
    using s(2,3) by (simp add: process_commands_def process_command_def find_torrent_def)
  from this [unfolded One_nat_def length_Suc_conv] obtain t where "ss_torrents (engine_turn sample_env s) = [t]" by blast
  then show ?thesis using r session_invariant [OF r] by fastforce
qed

end
