(* ===== verification/SessionPrivacy.thy ===== *)
theory SessionPrivacy
  imports SessionInv DhtSearch
begin

text \<open>
  The privacy rules of the session (\<open>Session::Privacy\<close> of \<open>include/bt/session.hpp\<close>): what the engine does
  when the VPN is required and the transport is direct, what the announcing thread then does, the
  torrents marked private, and the refusal to upload.
\<close>

subsection \<open>No path when the VPN is required and missing\<close>

definition dht_closed :: "dht \<Rightarrow> bool" where
  "dht_closed d \<longleftrightarrow> d_sock d = None \<and> \<not> d_transport d"

text \<open>The DHT has no socket while it follows no transport.\<close>

definition dht_follows :: "session \<Rightarrow> bool" where
  "dht_follows s \<longleftrightarrow> (ss_dht_transport s = None \<longrightarrow> dht_closed (ss_dht s))"

lemma closed_forget [simp]: "dht_closed (forget_search h d) = dht_closed d"
  by (simp add: dht_closed_def forget_search_def)

lemma closed_set_search [simp]: "dht_closed (set_search k v d) = dht_closed d"
  by (simp add: dht_closed_def set_search_def)

lemma closed_find_peers [simp]: "dht_closed (find_peers h clk d) = dht_closed d"
  by (simp add: find_peers_def Let_def)

lemma closed_find_all [simp]: "dht_closed (fold (\<lambda>h. find_peers h clk) hs d) = dht_closed d"
  by (induction hs arbitrary: d) simp_all

lemma closed_results [simp]: "dht_closed (d\<lparr>d_results := rs\<rparr>) = dht_closed d"
  by (simp add: dht_closed_def)

lemma closed_set_transport [simp]: "dht_closed (set_transport None d)"
  by (simp add: dht_closed_def set_transport_def Let_def)

lemma closed_tick: "dht_closed d \<Longrightarrow> tick_dht srt net now clk d = d"
  by (simp add: tick_dht_def dht_closed_def)

lemma closed_poll: "dht_closed d \<Longrightarrow> dht_on_poll r now d = d"
  by (simp add: dht_on_poll_def dht_closed_def)

text \<open>The parts of a session that an operation on its torrents leaves alone.\<close>

definition torrents_only :: "session \<Rightarrow> session \<Rightarrow> bool" where
  "torrents_only s s' \<longleftrightarrow> ss_dht s' = ss_dht s \<and> ss_dht_transport s' = ss_dht_transport s \<and> ss_transport s' = ss_transport s \<and>
     ss_privacy s' = ss_privacy s \<and> ss_jobs s' = ss_jobs s"

lemma torrents_only_trans: "torrents_only s u \<Longrightarrow> torrents_only u v \<Longrightarrow> torrents_only s v"
  by (simp add: torrents_only_def)

lemma torrents_only_fold: "(\<And>x s. torrents_only s (f x s)) \<Longrightarrow> torrents_only s (fold f xs s)"
  by (induction xs arbitrary: s) (simp add: torrents_only_def, force intro: torrents_only_trans)

lemma torrents_only_update [simp]: "torrents_only s (update_torrent i f s)"
  by (simp add: torrents_only_def update_torrent_def split: option.split)

lemma torrents_only_queue [simp]: "torrents_only s (update_queue s)"
  by (simp add: torrents_only_def update_queue_def Let_def split: prod.split)

lemma torrents_only_check [simp]: "torrents_only s (check_torrents go s)"
  unfolding check_torrents_def
  by (rule torrents_only_fold) (simp add: check_torrent_def torrents_only_def update_torrent_def publish_status_def Let_def)

lemma torrents_only_found [simp]: "torrents_only s (deliver_found rs s)"
  unfolding deliver_found_def by (rule torrents_only_fold) (simp split: prod.split)

lemma torrents_only_replies [simp]: "torrents_only s (take_replies now s)"
proof -
  have "torrents_only (s\<lparr>ss_replies := []\<rparr>) (take_replies now s)"
    unfolding take_replies_def by (rule torrents_only_fold) simp
  then show ?thesis by (simp add: torrents_only_def)
qed

lemma torrents_only_tick [simp]: "torrents_only s (tick_torrents dial ord ord_req now s)"
  by (simp add: torrents_only_def tick_torrents_def)

lemma torrents_only_publish [simp]: "torrents_only s (publish_due now s)"
  by (simp add: torrents_only_def publish_due_def publish_status_def Let_def)

lemma follows_only: "torrents_only s s' \<Longrightarrow> dht_follows s \<Longrightarrow> dht_follows s'"
  by (simp add: torrents_only_def dht_follows_def)

lemma process_command_frame:
  "ss_transport (process_command env c s) = ss_transport s" "ss_privacy (process_command env c s) = ss_privacy s"
  "dht_follows s \<Longrightarrow> dht_follows (process_command env c s)"
  by (simp_all add: process_command_def update_torrent_def dht_follows_def Let_def split: command.split option.split)

lemma process_commands_frame:
  "ss_transport (process_commands env s) = ss_transport s" "ss_privacy (process_commands env s) = ss_privacy s"
  "dht_follows s \<Longrightarrow> dht_follows (process_commands env s)"
proof -
  have "ss_transport (fold (process_command env) cs u) = ss_transport u \<and> ss_privacy (fold (process_command env) cs u) = ss_privacy u \<and>
      (dht_follows u \<longrightarrow> dht_follows (fold (process_command env) cs u))" for cs u
    by (induction cs arbitrary: u) (simp_all add: process_command_frame)
  moreover have "dht_follows (s\<lparr>ss_commands := []\<rparr>) = dht_follows s" by (simp add: dht_follows_def)
  ultimately show "ss_transport (process_commands env s) = ss_transport s" "ss_privacy (process_commands env s) = ss_privacy s"
    "dht_follows s \<Longrightarrow> dht_follows (process_commands env s)" by (simp_all add: process_commands_def)
qed

lemma engine_dht_frame:
  "ss_transport (engine_dht srt now s) = ss_transport s" "ss_privacy (engine_dht srt now s) = ss_privacy s"
  "dht_follows s \<Longrightarrow> dht_follows (engine_dht srt now s)"
  "engine_transport s = None \<Longrightarrow> dht_follows s \<Longrightarrow> dht_closed (ss_dht (engine_dht srt now s))"
proof -
  have f: "ss_dht (deliver_found rs u) = ss_dht u" "ss_dht_transport (deliver_found rs u) = ss_dht_transport u"
    "ss_transport (deliver_found rs u) = ss_transport u" "ss_privacy (deliver_found rs u) = ss_privacy u" for rs u
    using torrents_only_found [of u rs] by (simp_all add: torrents_only_def)
  show "ss_transport (engine_dht srt now s) = ss_transport s" "ss_privacy (engine_dht srt now s) = ss_privacy s"
    by (simp_all add: engine_dht_def Let_def f split: prod.split)
  show c: "dht_closed (ss_dht (engine_dht srt now s))" if "engine_transport s = None" "dht_follows s"
    using that
    by (auto simp: engine_dht_def Let_def f dht_follows_def closed_tick dht_results_def split: prod.split)
  show "dht_follows (engine_dht srt now s)" if "dht_follows s"
  proof (cases "engine_transport s")
    case None
    then show ?thesis using c that by (simp add: dht_follows_def)
  next
    case (Some tp)
    have "ss_dht_transport (engine_dht srt now s) = Some (tp_id tp)"
      using Some by (auto simp: engine_dht_def Let_def f split: prod.split)
    then show ?thesis by (simp add: dht_follows_def)
  qed
qed

lemma engine_poll_follows: "dht_follows s \<Longrightarrow> dht_follows (engine_poll env s)"
  by (simp add: engine_poll_def dht_follows_def closed_poll)

lemma announce_due_frame: "ss_dht (announce_due now s) = ss_dht s" "ss_dht_transport (announce_due now s) = ss_dht_transport s"
  "ss_transport (announce_due now s) = ss_transport s" "ss_privacy (announce_due now s) = ss_privacy s"
  by (simp_all add: announce_due_def Let_def)

text \<open>The stages of a turn.\<close>

definition stage_checked :: "env \<Rightarrow> session \<Rightarrow> session" where
  "stage_checked env s = check_torrents (env_go_on env) (update_queue (process_commands env s))"

definition stage_ticked :: "env \<Rightarrow> session \<Rightarrow> session" where
  "stage_ticked env s = tick_torrents (env_dial env) (env_begun env) (env_requests env) (env_now env) (stage_checked env s)"

definition stage_answered :: "env \<Rightarrow> session \<Rightarrow> session" where
  "stage_answered env s = take_replies (env_now env) (announce_due (env_now env) (engine_dht (env_sort env) (env_now env) (stage_ticked env s)))"

lemma engine_turn_stages: "engine_turn env s = publish_due (env_now env) (engine_poll env (stage_answered env s))"
  by (simp add: engine_turn_def stage_answered_def stage_ticked_def stage_checked_def Let_def)

lemma stage_frame:
  "ss_transport (stage_ticked env s) = ss_transport s" "ss_privacy (stage_ticked env s) = ss_privacy s"
  "ss_transport (stage_checked env s) = ss_transport s" "ss_privacy (stage_checked env s) = ss_privacy s"
  "ss_transport (stage_answered env s) = ss_transport s" "ss_privacy (stage_answered env s) = ss_privacy s"
  "dht_follows s \<Longrightarrow> dht_follows (stage_ticked env s)"
  "ss_dht (stage_answered env s) = ss_dht (engine_dht (env_sort env) (env_now env) (stage_ticked env s))"
  "ss_dht_transport (stage_answered env s) = ss_dht_transport (engine_dht (env_sort env) (env_now env) (stage_ticked env s))"
proof -
  let ?p = "process_commands env s"
  have 1: "torrents_only ?p (stage_checked env s)" "torrents_only (stage_checked env s) (stage_ticked env s)"
    unfolding stage_checked_def stage_ticked_def
    using torrents_only_trans [OF torrents_only_queue torrents_only_check] by simp_all
  from 1 show f: "ss_transport (stage_ticked env s) = ss_transport s" "ss_privacy (stage_ticked env s) = ss_privacy s"
    "ss_transport (stage_checked env s) = ss_transport s" "ss_privacy (stage_checked env s) = ss_privacy s"
    by (simp_all add: torrents_only_def process_commands_frame)
  show "dht_follows s \<Longrightarrow> dht_follows (stage_ticked env s)" using 1 follows_only process_commands_frame(3) by blast
  have "torrents_only (announce_due (env_now env) (engine_dht (env_sort env) (env_now env) (stage_ticked env s))) (stage_answered env s)"
    by (simp add: stage_answered_def)
  then show "ss_transport (stage_answered env s) = ss_transport s" "ss_privacy (stage_answered env s) = ss_privacy s"
    "ss_dht (stage_answered env s) = ss_dht (engine_dht (env_sort env) (env_now env) (stage_ticked env s))"
    "ss_dht_transport (stage_answered env s) = ss_dht_transport (engine_dht (env_sort env) (env_now env) (stage_ticked env s))"
    using f by (simp_all add: torrents_only_def announce_due_frame engine_dht_frame)
qed

lemma turn_follows: "dht_follows s \<Longrightarrow> dht_follows (engine_turn env s)"
proof -
  assume "dht_follows s"
  then have "dht_follows (engine_dht (env_sort env) (env_now env) (stage_ticked env s))" by (simp add: stage_frame engine_dht_frame)
  then have "dht_follows (stage_answered env s)" by (simp add: dht_follows_def stage_frame)
  then show "dht_follows (engine_turn env s)" unfolding engine_turn_stages
    by (intro follows_only [OF torrents_only_publish] engine_poll_follows)
qed

lemma follows_frame: "ss_dht s' = ss_dht s \<Longrightarrow> ss_dht_transport s' = ss_dht_transport s \<Longrightarrow> dht_follows s' = dht_follows s"
  by (simp add: dht_follows_def)

lemma adding_frame:
  "add_magnet uri s = Inr s' \<Longrightarrow> ss_dht s' = ss_dht s \<and> ss_dht_transport s' = ss_dht_transport s"
  "add_torrent_file blob s = Inr s' \<Longrightarrow> ss_dht s' = ss_dht s \<and> ss_dht_transport s' = ss_dht_transport s"
  by (auto simp: add_magnet_def add_torrent_file_def Let_def push_command_def remember_magnet_def split: sum.splits if_splits option.splits)

lemma restore_frame: "ss_dht (fst (restore_torrents fs s)) = ss_dht s \<and> ss_dht_transport (fst (restore_torrents fs s)) = ss_dht_transport s"
proof -
  have "ss_dht (fst (fold (\<lambda>uri (s, n). case add_magnet uri s of Inl e \<Rightarrow> (s, n) | Inr s \<Rightarrow> (s, n + 1)) us (s, n))) = ss_dht s \<and>
      ss_dht_transport (fst (fold (\<lambda>uri (s, n). case add_magnet uri s of Inl e \<Rightarrow> (s, n) | Inr s \<Rightarrow> (s, n + 1)) us (s, n))) = ss_dht_transport s"
    for us s and n :: nat
    by (induction us arbitrary: s n) (auto split: sum.split dest: adding_frame)
  then show ?thesis by (simp add: restore_torrents_def)
qed

lemma step_follows: "session_step s s' \<Longrightarrow> dht_follows s \<Longrightarrow> dht_follows s'"
proof (induction rule: session_step.induct)
  case (magnet uri s s')
  then show ?case using adding_frame(1) follows_frame by blast
next
  case (torrent_file blob s s')
  then show ?case using adding_frame(2) follows_frame by blast
next
  case (turn s env)
  then show ?case by (rule turn_follows)
next
  case (starting s dir accessible bsd fs)
  then show ?case by (simp add: start_session_def Let_def dht_follows_def restore_frame)
next
  case (announcing s client)
  have "dht_follows (fst (announce_turn client s)) = dht_follows s"
    by (rule follows_frame) (simp_all add: announce_turn_def Let_def split: list.split option.split)
  with announcing show ?case by simp
next
  case (writing i s)
  then show ?case using follows_only [OF torrents_only_update] by blast
next
  case (stopping s)
  then show ?case by (simp add: stop_session_def dht_follows_def)
qed (simp_all add: dht_follows_def pause_def resume_def remove_torrent_def push_command_def set_session_transport_def
    set_privacy_def set_max_active_def)

lemma reach_follows: "session_step\<^sup>*\<^sup>* (new_session peer_id) s \<Longrightarrow> dht_follows s"
  by (induction rule: rtranclp_induct)
     (simp add: new_session_def dht_follows_def dht_closed_def new_dht_def, rule step_follows)

text \<open>The connections of a torrent are dropped or left as they are.\<close>

definition calm :: "(torrent \<Rightarrow> torrent) \<Rightarrow> bool" where
  "calm f \<longleftrightarrow> (\<forall>t. t_peers (f t) = [] \<or> t_peers (f t) = t_peers t)"

definition conns_of :: "session \<Rightarrow> session \<Rightarrow> bool" where
  "conns_of s0 s \<longleftrightarrow> (\<forall>t \<in> set (ss_torrents s). t_peers t = [] \<or> t_peers t \<in> t_peers ` set (ss_torrents s0))"

lemma calm_gates: "calm apply_gate" "calm (set_paused b)" "calm (set_queued b)" "calm drop_all_peers"
proof -
  show g: "calm apply_gate" by (simp add: calm_def apply_gate_def)
  have "t_peers (t\<lparr>t_user_paused := b\<rparr>) = t_peers t" "t_peers (t\<lparr>t_queued := b\<rparr>) = t_peers t" for t b by simp_all
  then show "calm (set_paused b)" "calm (set_queued b)" using g unfolding calm_def set_paused_def set_queued_def by metis+
  show "calm drop_all_peers" by (simp add: calm_def)
qed

lemma gate_peers: "t_peers (apply_gate t) = [] \<or> t_peers (apply_gate t) = t_peers t"
  using calm_gates(1) by (simp add: calm_def)

lemma calm_run_check: "calm (run_check go)"
  unfolding calm_def
proof
  fix t
  obtain u loaded where l: "load_resume t = (u, loaded)" by fastforce
  define v where "v = (if loaded then u\<lparr>t_message := Resumed\<rparr> else if \<not> created_fresh (t_storage u) \<and> any_data_on_disk u then scan_card go u else u)"
  have "t_peers u = t_peers t" using l by (auto simp: load_resume_def split: option.splits)
  moreover have "t_peers (scan_card go u) = t_peers u" by (simp add: scan_card_def save_resume_def split: prod.split)
  ultimately have v: "t_peers v = t_peers t" by (simp add: v_def)
  have e: "run_check go t = (if recreated (t_storage t)
      then apply_gate (t\<lparr>t_resume := None, t_message := Recreated, t_checked := True, t_state := Downloading\<rparr>)
      else apply_gate (v\<lparr>t_checked := True, t_state := (if is_complete (t_picker v) then Seeding else Downloading),
        t_message := (if is_complete (t_picker v) then Finished else t_message v)\<rparr>))"
    unfolding run_check_def Let_def l prod.case v_def by simp
  show "t_peers (run_check go t) = [] \<or> t_peers (run_check go t) = t_peers t"
    unfolding e
    using gate_peers [of "t\<lparr>t_resume := None, t_message := Recreated, t_checked := True, t_state := Downloading\<rparr>"]
      gate_peers [of "v\<lparr>t_checked := True, t_state := (if is_complete (t_picker v) then Seeding else Downloading),
        t_message := (if is_complete (t_picker v) then Finished else t_message v)\<rparr>"] v by simp
qed

lemma conns_update: "conns_of s0 s \<Longrightarrow> calm f \<Longrightarrow> (\<And>j. i = Some j \<Longrightarrow> j < length (ss_torrents s)) \<Longrightarrow> conns_of s0 (update_torrent i f s)"
  unfolding conns_of_def update_torrent_def calm_def
  by (cases i) (simp_all, metis (no_types, lifting) in_set_conv_nth insertE set_update_subset_insert subsetD)

lemma conns_update_found: "conns_of s0 s \<Longrightarrow> calm f \<Longrightarrow> conns_of s0 (update_torrent (find_torrent hex (ss_torrents s)) f s)"
  by (rule conns_update) (simp_all add: find_torrent_def first_index_some)

lemma conns_process_command: "conns_of s0 s \<Longrightarrow> conns_of s0 (process_command env c s)"
proof (cases c)
  case (AddTorrent hex m complete)
  assume s: "conns_of s0 s"
  have "t_peers (fst (prepare_storage d n ((new_torrent m b dsk r)\<lparr>t_dir := e, t_announce_key := k\<rparr>))) = []"
    "t_peers ((new_torrent m b dsk r)\<lparr>t_dir := e, t_announce_key := k\<rparr>) = []" for b d n dsk r e k
    by (simp_all add: prepare_storage_meta new_torrent_def Let_def)
  then show ?thesis using s AddTorrent by (simp add: conns_of_def process_command_def Let_def)
next
  case (RemoveTorrent hex del)
  assume "conns_of s0 s"
  then show ?thesis using RemoveTorrent
    by (auto simp: conns_of_def process_command_def split: option.split dest: in_set_takeD in_set_dropD)
qed (simp_all add: process_command_def conns_update_found calm_gates, simp add: conns_of_def)

lemma conns_checked: "conns_of s (stage_checked env s)"
proof -
  have "conns_of s (s\<lparr>ss_commands := []\<rparr>)" by (simp add: conns_of_def)
  moreover have "conns_of s0 (fold (process_command env) cs u)" if "conns_of s0 u" for cs s0 u
    using that by (induction cs arbitrary: u) (simp_all add: conns_process_command)
  ultimately have p: "conns_of s (process_commands env s)" by (simp add: process_commands_def)
  have q: "conns_of s (update_queue u)" if "conns_of s u" for u
  proof -
    have l: "list_all2 requeued (ss_torrents u) (ss_torrents (update_queue u))"
      using update_queue_limited(1) update_queue_unlimited(1) by (cases "0 < ss_max_active u") simp_all
    have k: "t_peers t' = [] \<or> t_peers t' = t_peers t" if "requeued t t'" for t t'
      using that calm_gates(3) unfolding requeued_def calm_def by metis
    have r: "\<exists>t \<in> set (ss_torrents u). t_peers t' = [] \<or> t_peers t' = t_peers t"
      if t': "t' \<in> set (ss_torrents (update_queue u))" for t'
    proof -
      from t' obtain i where i: "i < length (ss_torrents (update_queue u))" "t' = ss_torrents (update_queue u) ! i"
        by (auto simp: in_set_conv_nth)
      have "requeued (ss_torrents u ! i) t'" unfolding i(2) by (rule list_all2_nthD2 [OF l i(1)])
      moreover have "ss_torrents u ! i \<in> set (ss_torrents u)" using i(1) by simp
      ultimately show ?thesis using k by blast
    qed
    show ?thesis unfolding conns_of_def
    proof
      fix t' assume "t' \<in> set (ss_torrents (update_queue u))"
      from r [OF this] that show "t_peers t' = [] \<or> t_peers t' \<in> t_peers ` set (ss_torrents s)"
        unfolding conns_of_def by auto
    qed
  qed
  have "conns_of s (check_torrent go i u)" if "conns_of s u" "i < length (ss_torrents u)" for go i u
  proof -
    have "conns_of s (publish_status u)" "length (ss_torrents (publish_status u)) = length (ss_torrents u)"
      using that(1) by (simp_all add: conns_of_def publish_status_def Let_def)
    then have "conns_of s (update_torrent (Some i) (run_check go) (publish_status u))"
      using that(2) by (intro conns_update calm_run_check) simp_all
    then show ?thesis using that(1) by (simp add: check_torrent_def)
  qed
  then have "conns_of s (fold (check_torrent go) is u)" if "conns_of s u" "\<forall>i \<in> set is. i < length (ss_torrents u)" for go "is" u
    using that by (induction "is" arbitrary: u) simp_all
  then show ?thesis using q [OF p] by (simp add: stage_checked_def check_torrents_def)
qed

text \<open>Without a transport a turn leaves a connection only to a torrent that has failed, and as it was.\<close>

lemma ticked_no_network:
  assumes "session_ok s" "engine_transport (stage_checked env s) = None" "t \<in> set (ss_torrents (stage_ticked env s))" "t_peers t \<noteq> []"
  shows "t_state t = Failed \<and> t_peers t \<in> t_peers ` set (ss_torrents s)"
proof -
  let ?s = "stage_checked env s"
  from assms(2,3) obtain u where u: "u \<in> set (ss_torrents ?s)"
    "t = torrent_tick (ss_privacy ?s) False (ss_peer_id ?s) (env_dial env) (env_begun env) (env_requests env) (env_now env) (env_now env) u"
    by (auto simp: stage_ticked_def tick_torrents_def transport_ready_def)
  have "session_ok ?s" unfolding stage_checked_def using assms(1)
    by (intro ok_check_torrents ok_update_queue ok_process_commands)
  then have "t_state u = Paused \<or> t_state u = Queued \<longrightarrow> t_peers u = []"
    using u(1) by (auto simp: session_ok_def list_all_iff torrent_ok_def almost_ok_def)
  then have "t = u \<and> t_state u = Failed" using u(2) assms(4) by (auto simp: torrent_tick_def Let_def split: if_splits)
  moreover have "conns_of s ?s" by (rule conns_checked)
  ultimately show ?thesis using u(1) assms(4) unfolding conns_of_def by metis
qed

text \<open>What follows the tick only touches the known peers, the messages and the dates.\<close>

definition shown :: "torrent \<Rightarrow> torrent_state \<times> peer list" where
  "shown t = (t_state t, t_peers t)"

lemma shown_update: "(\<And>t. shown (f t) = shown t) \<Longrightarrow> map shown (ss_torrents (update_torrent i f s)) = map shown (ss_torrents s)"
proof (cases i)
  case (Some j)
  assume "\<And>t. shown (f t) = shown t"
  then have "map shown ((ss_torrents s)[j := f (ss_torrents s ! j)]) = (map shown (ss_torrents s))[j := shown (ss_torrents s ! j)]"
    by (simp add: map_update)
  also have "\<dots> = map shown (ss_torrents s)" 
    using list_update_id [of "map shown (ss_torrents s)" j] by (cases "j < length (ss_torrents s)") (simp_all add: list_update_beyond)
  finally show ?thesis using Some by (simp add: update_torrent_def)
qed (simp add: update_torrent_def)

lemma shown_fold: "(\<And>x s. map shown (ss_torrents (f x s)) = map shown (ss_torrents s)) \<Longrightarrow>
    map shown (ss_torrents (fold f xs s)) = map shown (ss_torrents s)"
  by (induction xs arbitrary: s) simp_all

lemma shown_add_peers [simp]: "shown (add_peers found t) = shown t" "shown (apply_announce r now t) = shown t"
  by (simp_all add: shown_def add_peers_def apply_announce_def split: sum.split)

lemma shown_announced: "shown (fst (announce_torrent rules pid now t)) = shown t"
  by (simp add: announce_torrent_def mark_announced_def note_event_sent_def shown_def Let_def)

lemma shown_answered: "map shown (ss_torrents (stage_answered env s)) = map shown (ss_torrents (stage_ticked env s))"
proof -
  have r: "map shown (ss_torrents (take_replies now u)) = map shown (ss_torrents u)" for now u
  proof -
    have "map shown (ss_torrents (take_replies now u)) = map shown (ss_torrents (u\<lparr>ss_replies := []\<rparr>))"
      unfolding take_replies_def by (rule shown_fold) (rule shown_update, simp)
    then show ?thesis by simp
  qed
  have d: "map shown (ss_torrents (deliver_found rs u)) = map shown (ss_torrents u)" for rs u
    unfolding deliver_found_def by (rule shown_fold) (simp add: shown_update split: prod.split)
  have a: "map shown (ss_torrents (announce_due now u)) = map shown (ss_torrents u)" for now u
    by (simp add: announce_due_def Let_def shown_announced)
  have "map shown (ss_torrents (engine_dht srt now u)) = map shown (ss_torrents u)" for srt now u
    by (simp add: engine_dht_def Let_def d split: prod.split)
  then show ?thesis by (simp add: stage_answered_def r a)
qed

lemma engine_transport_cong: "ss_transport s' = ss_transport s \<Longrightarrow> ss_privacy s' = ss_privacy s \<Longrightarrow> engine_transport s' = engine_transport s"
  by (simp add: engine_transport_def split: option.split)

text \<open>C2: when the VPN is required and the transport is direct (or there is none), then whatever state the
  session has reached, after a turn of the engine every torrent that has not failed has lost all its
  connections, a failed one keeps at most the connections it had, untouched (nothing was read from them
  or sent), and the DHT has no socket.\<close>

theorem required_vpn_cuts_engine:
  assumes "session_step\<^sup>*\<^sup>* (new_session peer_id) s" and "require_vpn (ss_privacy s)"
    and "\<forall>tp. ss_transport s = Some tp \<longrightarrow> tp_direct tp"
  shows "d_sock (ss_dht (engine_turn env s)) = None \<and>
    (\<forall>t \<in> set (ss_torrents (engine_turn env s)). t_peers t \<noteq> [] \<longrightarrow>
       t_state t = Failed \<and> t_peers t \<in> t_peers ` set (ss_torrents s))"
proof -
  have ok: "session_ok s" using assms(1) by (rule reach_ok)
  have n: "engine_transport s = None" using assms(2,3) by (simp add: engine_transport_def split: option.split)
  then have c: "engine_transport (stage_checked env s) = None" and k: "engine_transport (stage_ticked env s) = None"
    and a: "engine_transport (stage_answered env s) = None"
    using engine_transport_cong stage_frame by metis+
  have "dht_closed (ss_dht (stage_answered env s))"
    using engine_dht_frame(4) [OF k] reach_follows [OF assms(1)] by (simp add: stage_frame)
  moreover have t: "engine_poll env (stage_answered env s) = stage_answered env s" using a by (simp add: engine_poll_def)
  moreover have "ss_dht (publish_due now u) = ss_dht u" "ss_torrents (publish_due now u) = ss_torrents u" for now u
    by (simp_all add: publish_due_def publish_status_def Let_def)
  ultimately have e: "d_sock (ss_dht (engine_turn env s)) = None" "ss_torrents (engine_turn env s) = ss_torrents (stage_answered env s)"
    by (simp_all add: engine_turn_stages dht_closed_def)
  have "t_state t = Failed \<and> t_peers t \<in> t_peers ` set (ss_torrents s)"
    if "t \<in> set (ss_torrents (stage_answered env s))" "t_peers t \<noteq> []" for t
  proof -
    have "shown t \<in> shown ` set (ss_torrents (stage_ticked env s))"
      using that(1) shown_answered [of env s] by (metis image_eqI list.set_map)
    then obtain u where "u \<in> set (ss_torrents (stage_ticked env s))" "t_state u = t_state t" "t_peers u = t_peers t"
      by (auto simp: shown_def)
    then show ?thesis using ticked_no_network [OF ok c] that(2) by metis
  qed
  with e show ?thesis by simp
qed

definition sample_transport :: session_transport where
  "sample_transport = \<lparr>tp_id = 1, tp_direct = True, tp_ready = True,
     tp_dht = \<lparr>net_ready = False, net_udp = None, net_resolve = Map.empty\<rparr>\<rparr>"

definition vpn_rules :: privacy where
  "vpn_rules = default_privacy\<lparr>require_vpn := True\<rparr>"

theorem required_vpn_cuts_engine_witness:
  "\<exists>s. session_step\<^sup>*\<^sup>* (new_session []) s \<and> require_vpn (ss_privacy s) \<and> ss_transport s = Some sample_transport \<and>
     d_sock (ss_dht (engine_turn sample_env s)) = None"
proof -
  let ?s = "set_privacy vpn_rules (set_session_transport (Some sample_transport) (new_session []))"
  have r: "session_step\<^sup>*\<^sup>* (new_session []) ?s"
    using session_step.transport [of "new_session []"] session_step.privacy by (meson converse_rtranclp_into_rtranclp rtranclp.simps)
  have p: "require_vpn (ss_privacy ?s)" "ss_transport ?s = Some sample_transport"
    by (simp_all add: set_privacy_def vpn_rules_def set_session_transport_def push_command_def)
  then have "\<forall>tp. ss_transport ?s = Some tp \<longrightarrow> tp_direct tp" by (simp add: sample_transport_def)
  from required_vpn_cuts_engine [OF r p(1) this] r p show ?thesis by blast
qed

subsection \<open>The announcing thread\<close>

text \<open>C4: the same rules do not hold back the announcing thread: with the VPN required and a direct
  transport, the engine queues the announces that are due, and the thread sends the oldest, with the
  info hash of the torrent, through the direct transport.\<close>

theorem required_vpn_announce_leaves:
  assumes "require_vpn (ss_privacy s)" "\<not> https_trackers_only (ss_privacy s)" "ss_transport s = Some tp" "tp_direct tp" "tp_ready tp"
    and "ss_jobs s = []" "ss_torrents s = t # ts" "wants_announce now t" "trackers (t_meta t) = url # urls"
  shows "\<exists>job. snd (announce_turn client (announce_due now s)) = Some (tp, job) \<and> aj_url job = url \<and>
    aq_info_hash (aj_request job) = info_hash (t_meta t)"
  using assms by (simp add: announce_due_def announce_torrent_def announce_turn_def make_request_def Let_def)

theorem required_vpn_announce_leaves_witness:
  "\<exists>s job. require_vpn (ss_privacy s) \<and> tp_direct sample_transport \<and>
     snd (announce_turn (\<lambda>tp job. Inl NetworkDown) (announce_due 0 s)) = Some (sample_transport, job) \<and>
     aj_url job = ascii ''udp://a'' \<and> aq_info_hash (aj_request job) = replicate 20 1"
proof -
  let ?t = "new_torrent (empty_meta\<lparr>info_hash := replicate 20 1, trackers := [ascii ''udp://a'']\<rparr>) False no_disk None"
  let ?s = "(new_session [])\<lparr>ss_privacy := vpn_rules, ss_transport := Some sample_transport, ss_torrents := [?t]\<rparr>"
  have h: "require_vpn (ss_privacy ?s)" "\<not> https_trackers_only (ss_privacy ?s)" "ss_transport ?s = Some sample_transport"
    "tp_direct sample_transport" "tp_ready sample_transport" "ss_jobs ?s = []" "ss_torrents ?s = ?t # []"
    by (simp_all add: vpn_rules_def default_privacy_def sample_transport_def new_session_def)
  have t: "wants_announce 0 ?t" "trackers (t_meta ?t) = ascii ''udp://a'' # []" "info_hash (t_meta ?t) = replicate 20 1"
    by (simp_all add: new_torrent_def wants_announce_def Let_def)
  from required_vpn_announce_leaves [OF h t(1,2)] t(3) h(1,4) show ?thesis by metis
qed

subsection \<open>Private torrents\<close>

abbreviation searched :: "dht \<Rightarrow> bytes set" where
  "searched d \<equiv> fst ` set (d_searches d)"

lemma searched_set [simp]: "searched (set_search k v d) = insert k (searched d)"
  unfolding set_search_def by (simp add: put_search_keys [simplified])


lemma searches_bootstrap [simp]: "d_searches (bootstrap net now clk d) = d_searches d"
proof -
  have "d_searches (fold (\<lambda>(k, s) d. if ds_active s then send_get_peers ep (ds_target s) clk d else d) m d) = d_searches d"
    for m :: "(bytes \<times> dsearch) list" and ep d
    by (induction m arbitrary: d) (auto split: prod.split)
  then show ?thesis by (simp add: bootstrap_def send_ping_def send_query_def Let_def split: option.split)
qed













end
