(* ===== verification/TorrentLaws.thy ===== *)
theory TorrentLaws
  imports SessionInv
begin

text \<open>
  What becomes of the content of a torrent (class \<open>Torrent\<close> of \<open>source/bt/session.cpp\<close>): the resume file
  gives back what was held, the metadata of the peers are assembled in any order, a torrent the user has
  paused is left alone, a peer is only served pieces that are held, and what a failed write leaves.
\<close>

subsection \<open>The resume file\<close>

lemma read_resume_append:
  assumes "bf_ok bf" "bits bf = piece_count m" "length (info_hash m) = 20"
  shows "read_resume m (resume_bytes m bf @ rest) = Some bf"
proof -
  have n: "piece_count m < 2 ^ 32" "length (bdata bf) < 2 ^ 32" "length (bdata bf) = (bits bf + 7) div 8"
    using assms by (auto simp: bf_ok_def)
  let ?f = "wr32 kResumeMagic @ wr32 (piece_count m) @ info_hash m @ wr32 (length (bdata bf)) @ bdata bf @ rest"
  have e: "resume_bytes m bf @ rest = ?f" using n by (simp add: resume_bytes_def u32_id)
  have d: "rd32 ?f = kResumeMagic" "rd32 (drop 4 ?f) = piece_count m" "take 20 (drop 8 ?f) = info_hash m"
    "rd32 (drop 28 ?f) = length (bdata bf)" "take (length (bdata bf)) (drop 32 ?f) = bdata bf" "32 \<le> length ?f"
    using n assms(3) by (simp_all add: rd32_wr32 kResumeMagic_def)
  show ?thesis unfolding e read_resume_def Let_def using d bf_from_bytes_bdata [OF assms(1)] assms(2) by simp
qed

lemma set_all_spec:
  assumes "picker_ok pk"
  shows "picker_ok (set_all held n pk) \<and> pmeta (set_all held n pk) = pmeta pk \<and>
    (\<forall>i. have_piece (set_all held n pk) i \<longleftrightarrow> i < n \<and> i < piece_count (pmeta pk) \<and> held i \<or> have_piece pk i)"
proof (induction n)
  case (Suc n)
  let ?pk = "set_all held n pk"
  have s: "set_all held (Suc n) pk = (if held n then set_have n ?pk else ?pk)" by (simp add: set_all_def)
  have h: "have_piece (set_have n ?pk) i \<longleftrightarrow> i = n \<and> n < piece_count (pmeta ?pk) \<or> have_piece ?pk i" for i
    using have_set [of ?pk n i] Suc.IH by (auto simp: set_have_def have_piece_def)
  have m: "pmeta (set_have n ?pk) = pmeta ?pk" by (simp add: set_have_def)
  show ?case using Suc.IH set_have_ok h unfolding s by (auto simp: less_Suc_eq m)
qed (use assms in \<open>simp add: set_all_def\<close>)

text \<open>C11: the resume file written for a torrent, read when the torrent is opened again, gives back exactly
  the pieces it held, with their bytes and their completeness.\<close>

theorem resume_roundtrip:
  assumes "picker_ok (t_picker t)" "pmeta (t_picker t) = t_meta t" "length (info_hash (t_meta t)) = 20"
    and "t_meta_complete t" "t_resume_writable t"
    and "t_meta u = t_meta t" "t_picker u = picker_init (t_meta t)" "t_resume u = t_resume (save_resume t)"
  shows "snd (load_resume u) \<and> have_piece (t_picker (fst (load_resume u))) = have_piece (t_picker t) \<and>
    bytes_done (t_picker (fst (load_resume u))) = bytes_done (t_picker t) \<and>
    is_complete (t_picker (fst (load_resume u))) = is_complete (t_picker t)"
proof -
  let ?have = "have_bits (t_picker t)" and ?n = "piece_count (t_meta t)"
  let ?pk = "set_all (bf_get ?have) ?n (picker_init (t_meta t))"
  note ok = picker_okD [OF assms(1)]
  have "read_resume (t_meta t) (resume_bytes (t_meta t) ?have) = Some ?have"
    using ok(2,3) assms(2,3) read_resume_append [of ?have "t_meta t" "[]"] by simp
  then have l: "load_resume u = (u\<lparr>t_picker := ?pk\<rparr>, True)"
    using assms by (simp add: load_resume_def save_resume_def)
  have init: "picker_ok (picker_init (t_meta t))" using ok(1) assms(2) by (simp add: picker_ok_init)
  have sm: "?n \<le> 2 ^ 32 - 8" using ok(2,3) assms(2) by (simp add: bf_ok_def)
  have s: "picker_ok ?pk" "pmeta ?pk = t_meta t" "have_piece ?pk i \<longleftrightarrow> i < ?n \<and> bf_get ?have i" for i
    using set_all_spec [OF init, of "bf_get ?have" ?n] bf_get_resize [OF sm]
    by (simp_all add: picker_init_def have_piece_def)
  have h: "have_piece ?pk = have_piece (t_picker t)"
    using s(3) bf_get_range [of ?have] ok(3) assms(2) by (auto simp: have_piece_def fun_eq_iff)
  have b: "bytes_done ?pk = bytes_done (t_picker t)"
    using picker_okD(5) [OF s(1)] ok(5) s(2) assms(2) h by (simp add: have_bytes_def)
  moreover have "is_complete ?pk = is_complete (t_picker t)"
    using complete_iff_bytes [OF s(1)] complete_iff_bytes [OF assms(1)] b s(2) assms(2) by simp
  ultimately show ?thesis using h by (simp add: l)
qed

lemma wr32_rd32: "4 \<le> length xs \<Longrightarrow> wr32 (rd32 xs) = take 4 xs"
proof -
  assume l: "4 \<le> length xs"
  have b: "ucast (drop_bit 24 (push_bit 24 (ucast a) OR push_bit 16 (ucast b) OR push_bit 8 (ucast c) OR ucast d :: 32 word)) = a"
    "ucast (drop_bit 16 (push_bit 24 (ucast a) OR push_bit 16 (ucast b) OR push_bit 8 (ucast c) OR ucast d :: 32 word)) = b"
    "ucast (drop_bit 8 (push_bit 24 (ucast a) OR push_bit 16 (ucast b) OR push_bit 8 (ucast c) OR ucast d :: 32 word)) = c"
    "ucast (push_bit 24 (ucast a) OR push_bit 16 (ucast b) OR push_bit 8 (ucast c) OR ucast d :: 32 word) = d"
    for a b c d :: byte
    by (rule bit_word_eqI; auto simp: bit_simps dest: bit_imp_le_length)+
  have "take 4 xs = [xs ! 0, xs ! 1, xs ! 2, xs ! 3]"
    using l by (auto simp: list_eq_iff_nth_eq less_Suc_eq numeral_eq_Suc)
  moreover have "of_nat (unat w) = w" for w :: "32 word" by simp
  ultimately show ?thesis unfolding wr32_def rd32_def wr_be32_def rd_be32_def by (simp only: b list.inject simp_thms)
qed

lemma cut_at: "drop i xs = take k (drop i xs) @ drop (i + k) xs"
  by (metis add.commute append_take_drop_id drop_drop)

lemma join_cuts: "xs = a @ b \<Longrightarrow> b = c @ d \<Longrightarrow> d = e @ f \<Longrightarrow> f = g @ h \<Longrightarrow> h = i @ j \<Longrightarrow> xs = a @ c @ e @ g @ i @ j"
  by simp

lemma read_resume_split:
  assumes "read_resume m file = Some bf" "piece_count m \<le> 2 ^ 32 - 8"
  shows "length (info_hash m) = 20 \<and> bf_ok bf \<and> bits bf = piece_count m \<and> (\<exists>rest. file = resume_bytes m bf @ rest)"
proof -
  define n where "n = rd32 (drop 28 file)"
  from assms have l: "32 \<le> length file" and m: "rd32 file = kResumeMagic" "rd32 (drop 4 file) = piece_count m"
    "take 20 (drop 8 file) = info_hash m" "length (take n (drop 32 file)) = n"
    and b: "bf_from_bytes (take n (drop 32 file)) (piece_count m) = Some bf"
    by (auto simp: read_resume_def n_def Let_def split: if_splits)
  note bf = bf_from_bytes_ok [OF assms(2) b]
  have n: "u32 (length (bdata bf)) = n" "n < 2 ^ 32" unfolding bf(3) m(4) by (use rd32_less [of "drop 28 file"] in \<open>simp_all add: n_def u32_id\<close>)
  have w: "wr32 kResumeMagic = take 4 file" "wr32 (piece_count m) = take 4 (drop 4 file)" "wr32 n = take 4 (drop 28 file)"
    using wr32_rd32 [of "file"] wr32_rd32 [of "drop 4 file"] wr32_rd32 [of "drop 28 file"] l m(1,2) by (simp_all add: n_def)
  have c: "drop 4 file = take 4 (drop 4 file) @ drop 8 file" "drop 8 file = take 20 (drop 8 file) @ drop 28 file"
    "drop 28 file = take 4 (drop 28 file) @ drop 32 file" "drop 32 file = take n (drop 32 file) @ drop n (drop 32 file)"
    using cut_at [of 4 "file" 4] cut_at [of 8 "file" 20] cut_at [of 28 "file" 4] append_take_drop_id [of n "drop 32 file"]
    by (simp, simp, simp, simp only:)
  have "file = take 4 file @ take 4 (drop 4 file) @ take 20 (drop 8 file) @ take 4 (drop 28 file) @
      take n (drop 32 file) @ drop n (drop 32 file)"
    by (rule join_cuts [OF append_take_drop_id [symmetric] c])
  then have "file = resume_bytes m bf @ drop n (drop 32 file)"
    unfolding resume_bytes_def n(1) w unfolding bf(3) m(3) append_assoc .
  moreover have "length (info_hash m) = 20" unfolding m(3) [symmetric] using l by simp
  ultimately show ?thesis using bf(1,2) by blast
qed

text \<open>C12: a resume file is trusted exactly when it starts with what would be written for this torrent and
  some set of pieces, which is the set it gives: one that is truncated, of another torrent, of another
  number of pieces, of the wrong length or with stray bits past the last piece is refused.\<close>

theorem resume_file_exact:
  assumes "pieces_ok m"
  shows "read_resume m file = Some bf \<longleftrightarrow>
    length (info_hash m) = 20 \<and> bf_ok bf \<and> bits bf = piece_count m \<and> (\<exists>rest. file = resume_bytes m bf @ rest)"
proof -
  have "piece_count m \<le> 2 ^ 32 - 8" using pieces_ok_small [OF assms] by simp
  then show ?thesis using read_resume_split [of m "file" bf] read_resume_append [of bf m] by blast
qed

subsection \<open>Metadata from the peers\<close>

definition chunk :: "nat \<Rightarrow> bytes \<Rightarrow> bytes" where
  "chunk i md = take kMetadataPieceSize (drop (i * kMetadataPieceSize) md)"

definition chunk_count :: "nat \<Rightarrow> nat" where
  "chunk_count n = (n + kMetadataPieceSize - 1) div kMetadataPieceSize"

lemma chunk_size_pos: "0 < kMetadataPieceSize"
  by (simp add: kMetadataPieceSize_def)

lemma chunk_index: "i < chunk_count n \<longleftrightarrow> i * kMetadataPieceSize < n"
proof -
  have "i < chunk_count n \<longleftrightarrow> Suc i * kMetadataPieceSize \<le> n + kMetadataPieceSize - 1"
    using chunk_size_pos by (simp add: chunk_count_def Suc_le_eq [symmetric] less_eq_div_iff_mult_less_eq)
  then show ?thesis using chunk_size_pos by auto
qed

lemma div_chunk: "k < n \<Longrightarrow> k div kMetadataPieceSize < chunk_count n"
  unfolding chunk_index by (meson div_times_less_eq_dividend le_less_trans)

lemma nth_splice:
  assumes "off + length d \<le> length b" "k < length b"
  shows "(take off b @ d @ drop (off + length d) b) ! k = (if off \<le> k \<and> k < off + length d then d ! (k - off) else b ! k)"
  using assms by (auto simp: nth_append min_def)

lemma length_splice: "off + length d \<le> length b \<Longrightarrow> length (take off b @ d @ drop (off + length d) b) = length b"
  by simp

text \<open>The pieces of a set received.\<close>

definition gathering :: "bytes \<Rightarrow> metainfo \<Rightarrow> nat set \<Rightarrow> torrent \<Rightarrow> bool" where
  "gathering md meta S t \<longleftrightarrow> \<not> t_meta_complete t \<and> t_meta t = meta \<and> t_md_size t = length md \<and> length (t_md_buf t) = length md \<and>
     length (t_md_have t) = chunk_count (length md) \<and> (\<forall>i < chunk_count (length md). t_md_have t ! i \<longleftrightarrow> i \<in> S) \<and>
     (\<forall>k < length md. k div kMetadataPieceSize \<in> S \<longrightarrow> t_md_buf t ! k = md ! k)"

lemma gathering_starts:
  assumes "\<not> t_meta_complete t" "t_md_size t = 0" "md \<noteq> []" "length md < 2 ^ 31"
  shows "gathering md (t_meta t) {} (on_peer_metadata_size (length md) t)"
proof -
  have "u32 (length md + kMetadataPieceSize - 1) = length md + kMetadataPieceSize - 1"
    using assms(4) by (intro u32_id) (simp add: kMetadataPieceSize_def)
  then show ?thesis using assms by (simp add: gathering_def on_peer_metadata_size_def chunk_count_def)
qed

definition got_all :: "bytes \<Rightarrow> nat set \<Rightarrow> bool" where
  "got_all md S \<longleftrightarrow> {..< chunk_count (length md)} \<subseteq> S"

lemma gathering_buffer: "gathering md meta S t \<Longrightarrow> got_all md S \<Longrightarrow> t_md_buf t = md"
  using div_chunk by (intro nth_equalityI) (auto simp: gathering_def got_all_def subset_iff)

lemma gathering_piece:
  assumes g: "gathering md meta S t" and i: "i < chunk_count (length md)" and "md \<noteq> []" and S: "\<not> got_all md S"
  shows "if got_all md (insert i S) then \<exists>u. gathering md meta (insert i S) u \<and> on_peer_metadata_piece n i (chunk i md) t = finish_metadata n u
    else gathering md meta (insert i S) (on_peer_metadata_piece n i (chunk i md) t)"
proof (cases "i \<in> S")
  case True
  then have "on_peer_metadata_piece n i (chunk i md) t = t" "insert i S = S" using g i by (auto simp: on_peer_metadata_piece_def gathering_def)
  then show ?thesis using g S by simp
next
  case False
  let ?off = "i * kMetadataPieceSize" and ?d = "chunk i md"
  have off: "?off < length md" using i chunk_index by simp
  have d: "?off + length ?d \<le> length md" "length ?d = min kMetadataPieceSize (length md - ?off)" using off by (simp_all add: chunk_def)
  let ?buf = "take ?off (t_md_buf t) @ ?d @ drop (?off + length ?d) (t_md_buf t)"
  define u where "u = t\<lparr>t_md_buf := ?buf, t_md_have := (t_md_have t)[i := True]\<rparr>"
  have len: "length (t_md_buf t) = length md" using g by (simp add: gathering_def)
  have nth: "?buf ! k = md ! k" if k: "k < length md" "k div kMetadataPieceSize \<in> insert i S" for k
  proof (cases "k div kMetadataPieceSize = i")
    case True
    have "?off \<le> k" "k < ?off + kMetadataPieceSize" unfolding True [symmetric]
      using mod_less_divisor [OF chunk_size_pos, of k] div_mult_mod_eq [of k kMetadataPieceSize] by linarith+
    then have in_d: "?off \<le> k" "k < ?off + length ?d" using k(1) unfolding d(2) by linarith+
    then have "?d ! (k - ?off) = md ! k" by (simp add: chunk_def)
    then show ?thesis using nth_splice [of ?off ?d "t_md_buf t" k] k(1) d(1) len in_d by simp
  next
    case False
    then have "\<not> (?off \<le> k \<and> k < ?off + kMetadataPieceSize)"
      using chunk_size_pos by (metis add.commute div_less_iff_less_mult div_nat_eqI mult.commute mult_Suc)
    then have "\<not> (?off \<le> k \<and> k < ?off + length ?d)" using d(2) by linarith
    then show ?thesis using nth_splice [of ?off ?d "t_md_buf t" k] k False g d(1) len by (auto simp: gathering_def)
  qed
  have u: "gathering md meta (insert i S) u"
    using g i nth length_splice [of ?off ?d "t_md_buf t"] d(1) len by (auto simp: gathering_def u_def nth_list_update)
  have a: "list_all id (t_md_have u) \<longleftrightarrow> got_all md (insert i S)"
    using u by (auto simp: gathering_def list_all_length got_all_def)
  have "on_peer_metadata_piece n i ?d t = (if list_all id (t_md_have u) then finish_metadata n u else u)"
    using g i False d(1) assms(3) by (auto simp: on_peer_metadata_piece_def gathering_def u_def Let_def)
  then show ?thesis using a u by auto
qed

lemma finish_metadata_ok:
  assumes "gathering md meta S t" "got_all md S" "parse_info_dict md (info_hash meta) empty_meta = Inr m"
  shows "t_meta_complete (finish_metadata n t) \<and> t_meta (finish_metadata n t) = m\<lparr>trackers := trackers meta\<rparr>"
proof -
  have b: "t_md_buf t = md" "t_meta t = meta" using gathering_buffer [OF assms(1,2)] assms(1) by (simp_all add: gathering_def)
  define t1 where "t1 = t\<lparr>t_meta := m\<lparr>trackers := trackers meta\<rparr>, t_meta_complete := True, t_name := mname m\<rparr>"
  obtain u ok where u: "prepare_storage (t_dir t1) n t1 = (u, ok)" by fastforce
  have p: "t_meta u = m\<lparr>trackers := trackers meta\<rparr>" "t_meta_complete u"
    using prepare_storage_meta(1,2) [of "t_dir t1" n t1] u by (simp_all add: t1_def)
  define v where "v = poke_all (\<lambda>p. True) (\<lambda>p. send_interested quiet True (set_piece_count quiet (piece_count (t_meta u)) p)) u"
  have v: "t_meta v = m\<lparr>trackers := trackers meta\<rparr>" "t_meta_complete v"
    using core_poke_all [of "\<lambda>p. True" "\<lambda>p. send_interested quiet True (set_piece_count quiet (piece_count (t_meta u)) p)" u] p
    by (simp_all add: core_def v_def)
  have "finish_metadata n t = (if \<not> ok then u else apply_gate (v\<lparr>t_checked := False, t_state := Checking\<rparr>))"
    using u by (simp add: finish_metadata_def b assms(3) v_def t1_def)
  then show ?thesis using p v by (simp add: apply_gate_def)
qed

lemma metadata_done: "t_meta_complete t \<Longrightarrow> fold (\<lambda>i. on_peer_metadata_piece n i (chunk i md)) is t = t"
  by (induction "is") (simp_all add: on_peer_metadata_piece_def)

lemma gathering_folds:
  assumes "md \<noteq> []" "parse_info_dict md (info_hash meta) empty_meta = Inr m"
  shows "gathering md meta S t \<Longrightarrow> \<not> got_all md S \<Longrightarrow> \<forall>i \<in> set is. i < chunk_count (length md) \<Longrightarrow>
    (let u = fold (\<lambda>i. on_peer_metadata_piece n i (chunk i md)) is t
     in (got_all md (S \<union> set is) \<longrightarrow> t_meta_complete u \<and> t_meta u = m\<lparr>trackers := trackers meta\<rparr>) \<and>
        (\<not> got_all md (S \<union> set is) \<longrightarrow> gathering md meta (S \<union> set is) u))"
proof (induction "is" arbitrary: S t)
  case (Cons i js)
  note p = gathering_piece [OF Cons.prems(1) _ assms(1) Cons.prems(2), of i n]
  show ?case
  proof (cases "got_all md (insert i S)")
    case True
    then obtain u where u: "gathering md meta (insert i S) u" "on_peer_metadata_piece n i (chunk i md) t = finish_metadata n u"
      using p Cons.prems(3) by auto
    have "t_meta_complete (finish_metadata n u)" "t_meta (finish_metadata n u) = m\<lparr>trackers := trackers meta\<rparr>"
      using finish_metadata_ok [OF u(1) True assms(2)] by simp_all
    moreover have "got_all md (S \<union> set (i # js))" using True by (auto simp: got_all_def)
    ultimately show ?thesis using u(2) by (simp add: metadata_done Let_def)
  next
    case False
    then have "gathering md meta (insert i S) (on_peer_metadata_piece n i (chunk i md) t)" using p Cons.prems(3) by auto
    from Cons.IH [OF this False] Cons.prems(3) show ?thesis by (simp add: Let_def)
  qed
qed (simp add: Let_def)

text \<open>C10: the pieces of the metadata, sent by any peers in any order and as many times as they like, give
  the metadata: once each piece of the info dictionary has come, the torrent has it, with the trackers
  of its link; before that it still waits for the missing ones.\<close>

theorem metadata_assembles:
  assumes "\<not> t_meta_complete t" "t_md_size t = 0" "md \<noteq> []" "length md < 2 ^ 31"
    and "parse_info_dict md (info_hash (t_meta t)) empty_meta = Inr m"
    and "\<forall>i \<in> set is. i < chunk_count (length md)"
    and "u = fold (\<lambda>i. on_peer_metadata_piece n i (chunk i md)) is (on_peer_metadata_size (length md) t)"
  shows "if {..< chunk_count (length md)} \<subseteq> set is
    then t_meta_complete u \<and> t_meta u = m\<lparr>trackers := trackers (t_meta t)\<rparr>
    else \<not> t_meta_complete u \<and> t_md_size u = length md \<and> (\<forall>i < chunk_count (length md). t_md_have u ! i \<longleftrightarrow> i \<in> set is)"
proof -
  have "0 < chunk_count (length md)" using assms(3) by (simp add: chunk_index)
  then have "\<not> got_all md {}" by (auto simp: got_all_def)
  from gathering_folds [OF assms(3,5) gathering_starts [OF assms(1-4)] this assms(6), of n, folded assms(7)]
  show ?thesis by (simp add: Let_def got_all_def gathering_def)
qed

lemma sample_metadata: "bencode sample_info \<noteq> []" "length (bencode sample_info) < 16384"
  by code_simp+

theorem metadata_assembles_witness:
  "\<exists>m. t_meta_complete (fold (\<lambda>i. on_peer_metadata_piece 0 i (chunk i (bencode sample_info))) [0, 0]
      (on_peer_metadata_size (length (bencode sample_info))
        (new_torrent (empty_meta\<lparr>info_hash := sha1_of (bencode sample_info)\<rparr>) False no_disk None))) \<and>
     parse_info_dict (bencode sample_info) (sha1_of (bencode sample_info)) empty_meta = Inr m"
proof -
  let ?md = "bencode sample_info"
  let ?t = "new_torrent (empty_meta\<lparr>info_hash := sha1_of ?md\<rparr>) False no_disk None"
  from sample_info_parses obtain m where m: "parse_info_dict ?md (sha1_of ?md) empty_meta = Inr m" by blast
  have t: "\<not> t_meta_complete ?t" "t_md_size ?t = 0" "info_hash (t_meta ?t) = sha1_of ?md" by (simp_all add: new_torrent_def Let_def)
  have l: "length ?md < 2 ^ 31" using sample_metadata(2) by simp
  have c: "i < chunk_count (length ?md) \<longleftrightarrow> i = 0" for i
    using sample_metadata unfolding chunk_index by (auto simp: kMetadataPieceSize_def)
  then have "\<forall>i \<in> set [0, 0]. i < chunk_count (length ?md)" "{..< chunk_count (length ?md)} \<subseteq> set [0, 0]" by auto
  with metadata_assembles [OF t(1,2) sample_metadata(1) l _ _ refl, of m "[0, 0]" 0] m t(3) show ?thesis by auto
qed

subsection \<open>A torrent paused by the user\<close>

definition frozen :: "torrent \<Rightarrow> bytes \<times> metainfo \<times> picker \<times> storage \<times> writer \<times> bytes option \<times> nat" where
  "frozen t = (t_hash_hex t, t_meta t, t_picker t, t_storage t, t_writer t, t_resume t, t_uploaded t)"

definition stopped :: "torrent \<Rightarrow> bool" where
  "stopped t \<longleftrightarrow> t_state t = Paused \<and> t_user_paused t \<and> t_peers t = []"

definition leaves :: "(torrent \<Rightarrow> torrent) \<Rightarrow> bool" where
  "leaves f \<longleftrightarrow> (\<forall>t. stopped t \<longrightarrow> stopped (f t) \<and> frozen (f t) = frozen t)"

definition still :: "bytes \<times> metainfo \<times> picker \<times> storage \<times> writer \<times> bytes option \<times> nat \<Rightarrow> session \<Rightarrow> bool" where
  "still x s \<longleftrightarrow> (\<exists>t \<in> set (ss_torrents s). stopped t \<and> frozen t = x)"

lemma leaves_basic: "leaves (set_paused True)" "leaves drop_all_peers" "leaves (add_peers found)" "leaves (apply_announce r now)"
  "leaves (\<lambda>t. fst (announce_torrent rules pid now t))" "leaves (torrent_tick rules network my_id dial ord ord_req now clk)"
  "leaves (poll_torrent rules n reports now clk)"
  by (auto simp: leaves_def stopped_def frozen_def set_paused_def apply_gate_def drop_all_peers_def add_peers_def apply_announce_def
      announce_torrent_def wants_announce_def torrent_tick_def poll_torrent_def gather_poll_def split: sum.split)

lemma still_update_any: "still x s \<Longrightarrow> leaves f \<Longrightarrow> still x (update_torrent i f s)"
proof (cases i)
  case (Some j)
  assume s: "still x s" and f: "leaves f"
  then obtain k where k: "k < length (ss_torrents s)" "stopped (ss_torrents s ! k)" "frozen (ss_torrents s ! k) = x"
    by (auto simp: still_def in_set_conv_nth)
  let ?ts = "(ss_torrents s)[j := f (ss_torrents s ! j)]"
  have "stopped (?ts ! k) \<and> frozen (?ts ! k) = x" using k f by (cases "j = k") (simp_all add: leaves_def)
  moreover have "?ts ! k \<in> set ?ts" using k(1) by simp
  ultimately show ?thesis using Some by (auto simp: still_def update_torrent_def)
qed (simp add: update_torrent_def)

lemma still_update_other:
  assumes "still x s" "fst x \<noteq> hex"
  shows "still x (update_torrent (find_torrent hex (ss_torrents s)) f s)"
proof (cases "find_torrent hex (ss_torrents s)")
  case (Some j)
  from assms obtain k where k: "k < length (ss_torrents s)" "stopped (ss_torrents s ! k)" "frozen (ss_torrents s ! k) = x"
    by (auto simp: still_def in_set_conv_nth)
  have "t_hash_hex (ss_torrents s ! j) = hex" using Some first_index_some by (fastforce simp: find_torrent_def)
  then have "j \<noteq> k" using k(3) assms(2) by (auto simp: frozen_def)
  then have "ss_torrents s ! k \<in> set ((ss_torrents s)[j := f (ss_torrents s ! j)])"
    using nth_mem [of k "(ss_torrents s)[j := f (ss_torrents s ! j)]"] k(1) by simp
  then show ?thesis using k Some by (auto simp: still_def update_torrent_def)
qed (simp add: update_torrent_def assms)

lemma still_map: "still x s \<Longrightarrow> leaves f \<Longrightarrow> still x (s\<lparr>ss_torrents := map f (ss_torrents s)\<rparr>)"
  by (auto simp: still_def leaves_def)

lemma still_frame: "ss_torrents s' = ss_torrents s \<Longrightarrow> still x s' = still x s"
  by (simp add: still_def)

definition spares :: "bytes \<Rightarrow> command \<Rightarrow> bool" where
  "spares hex c = (case c of ResumeTorrent h \<Rightarrow> h \<noteq> hex | RemoveTorrent h del \<Rightarrow> h \<noteq> hex | _ \<Rightarrow> True)"

lemma nth_not_removed: "k \<noteq> j \<Longrightarrow> k < length xs \<Longrightarrow> xs ! k \<in> set (take j xs) \<union> set (drop (j + 1) xs)"
proof (cases "k < j")
  case True
  assume "k < length xs"
  then show ?thesis using True nth_mem [of k "take j xs"] by simp
next
  case False
  assume "k \<noteq> j" "k < length xs"
  then show ?thesis using False nth_mem [of "k - (j + 1)" "drop (j + 1) xs"] by simp
qed

lemma still_process_command:
  assumes "still x s" "spares (fst x) c"
  shows "still x (process_command env c s)"
proof (cases c)
  case (AddTorrent hex m complete)
  then show ?thesis using assms by (auto simp: process_command_def still_def Let_def)
next
  case (RemoveTorrent hex del)
  show ?thesis
  proof (cases "find_torrent hex (ss_torrents s)")
    case (Some j)
    from assms obtain k where k: "k < length (ss_torrents s)" "stopped (ss_torrents s ! k)" "frozen (ss_torrents s ! k) = x"
      by (auto simp: still_def in_set_conv_nth)
    have "t_hash_hex (ss_torrents s ! j) = hex" using Some first_index_some by (fastforce simp: find_torrent_def)
    then have "k \<noteq> j" using k(3) assms(2) RemoveTorrent by (auto simp: frozen_def spares_def)
    then have "ss_torrents s ! k \<in> set (take j (ss_torrents s)) \<union> set (drop (j + 1) (ss_torrents s))"
      using k(1) by (rule nth_not_removed)
    then show ?thesis using k Some RemoveTorrent by (auto simp: process_command_def still_def)
  qed (use assms RemoveTorrent in \<open>simp add: process_command_def\<close>)
next
  case SetTransport
  then show ?thesis using still_map [OF assms(1) leaves_basic(2)] by (simp add: process_command_def)
qed (use assms still_update_any leaves_basic(1) still_update_other in \<open>auto simp: process_command_def spares_def\<close>)

lemma still_process_commands:
  assumes "still x s" "list_all (spares (fst x)) (ss_commands s)"
  shows "still x (process_commands env s)"
proof -
  have "still x (fold (process_command env) cs u)" if "still x u" "list_all (spares (fst x)) cs" for cs u
    using that by (induction cs arbitrary: u) (simp_all add: still_process_command)
  moreover have "still x (s\<lparr>ss_commands := []\<rparr>) = still x s" by (rule still_frame) simp
  ultimately show ?thesis using assms by (simp add: process_commands_def)
qed

lemma still_update_queue: "still x s \<Longrightarrow> still x (update_queue s)"
proof -
  assume "still x s"
  then obtain k where k: "k < length (ss_torrents s)" "stopped (ss_torrents s ! k)" "frozen (ss_torrents s ! k) = x"
    by (auto simp: still_def in_set_conv_nth)
  have "list_all2 requeued (ss_torrents s) (ss_torrents (update_queue s))"
    using update_queue_limited(1) update_queue_unlimited(1) by (cases "0 < ss_max_active s") simp_all
  then have "requeued (ss_torrents s ! k) (ss_torrents (update_queue s) ! k)" using k(1) by (rule list_all2_nthD)
  then have e: "ss_torrents (update_queue s) ! k = ss_torrents s ! k"
    using k(2) by (simp add: requeued_def stopped_def holds_slot_def waiting_in_queue_def)
  have "ss_torrents (update_queue s) ! k \<in> set (ss_torrents (update_queue s))" using k(1) by simp
  then show ?thesis using k e by (auto simp: still_def)
qed

lemma still_fold: "(\<And>y s. still x s \<Longrightarrow> still x (f y s)) \<Longrightarrow> still x s \<Longrightarrow> still x (fold f ys s)"
  by (induction ys arbitrary: s) simp_all

lemma still_check: "still x s \<Longrightarrow> still x (check_torrent go i s)"
proof -
  assume s: "still x s"
  have p: "still x (publish_status s)" using s still_frame [of "publish_status s" s] by (simp add: publish_status_def Let_def)
  have "leaves (\<lambda>t. if t_state t = Checking then run_check go t else t)" by (auto simp: leaves_def stopped_def)
  from still_update_any [OF p this, of "Some i"] show ?thesis
    using s by (auto simp: check_torrent_def update_torrent_def publish_status_def Let_def split: if_splits)
qed

lemma still_turn_rest:
  assumes "still x (process_commands env s)"
  shows "still x (engine_turn env s)"
proof -
  define a where "a = check_torrents (env_go_on env) (update_queue (process_commands env s))"
  define b where "b = tick_torrents (env_dial env) (env_begun env) (env_requests env) (env_now env) a"
  define c where "c = engine_dht (env_sort env) (env_now env) b"
  define d where "d = take_replies (env_now env) (announce_due (env_now env) c)"
  have "still x a" unfolding a_def check_torrents_def
    by (rule still_fold) (use still_update_queue assms in \<open>simp_all add: still_check\<close>)
  then have b: "still x b" unfolding b_def tick_torrents_def by (intro still_map leaves_basic)
  have f: "still x (deliver_found rs u)" if "still x u" for rs u
    unfolding deliver_found_def by (rule still_fold) (use that in \<open>simp_all add: still_update_any leaves_basic split: prod.split\<close>)
  have "still x (u\<lparr>ss_dht := e\<rparr>) = still x u" "still x (u\<lparr>ss_dht_transport := g, ss_dht := e\<rparr>) = still x u"
    "still x (u\<lparr>ss_dht_transport := g\<rparr>) = still x u" for u e g
    by (rule still_frame; simp)+
  then have "still x c" using b unfolding c_def engine_dht_def Let_def by (auto simp: f split: prod.split)
  then have "still x (c\<lparr>ss_torrents := map (\<lambda>t. fst (announce_torrent (ss_privacy c) (ss_peer_id c) (env_now env) t)) (ss_torrents c)\<rparr>)"
    by (intro still_map leaves_basic)
  then have "still x (announce_due (env_now env) c)" by (simp add: still_def announce_due_def Let_def)
  then have "still x ((announce_due (env_now env) c)\<lparr>ss_replies := []\<rparr>)" by (simp add: still_def)
  then have "still x d" unfolding d_def take_replies_def
    by (rule still_fold [rotated]) (simp add: still_update_any leaves_basic)
  then obtain k where k: "k < length (ss_torrents d)" "stopped (ss_torrents d ! k)" "frozen (ss_torrents d ! k) = x"
    by (auto simp: still_def in_set_conv_nth)
  let ?f = "\<lambda>(i, t). poll_torrent (ss_privacy d) (env_free env) (env_poll env i) (env_now env) (env_now env) t"
  have n: "map ?f (enumerate 0 (ss_torrents d)) ! k = poll_torrent (ss_privacy d) (env_free env) (env_poll env k) (env_now env) (env_now env) (ss_torrents d ! k)"
    using k(1) by (simp add: nth_enumerate_eq)
  have "map ?f (enumerate 0 (ss_torrents d)) ! k \<in> set (map ?f (enumerate 0 (ss_torrents d)))" using k(1) by (intro nth_mem) simp
  moreover have "stopped (map ?f (enumerate 0 (ss_torrents d)) ! k)" "frozen (map ?f (enumerate 0 (ss_torrents d)) ! k) = x"
    using k leaves_basic(7) unfolding n leaves_def by blast+
  ultimately have "still x (engine_poll env d)" using k by (auto simp: engine_poll_def still_def)
  moreover have "ss_torrents (publish_due (env_now env) u) = ss_torrents u" for u by (simp add: publish_due_def publish_status_def Let_def)
  ultimately show ?thesis unfolding engine_turn_def Let_def a_def [symmetric] b_def [symmetric] c_def [symmetric] d_def [symmetric]
    by (simp add: still_def)
qed

lemma still_engine_turn: "still x s \<Longrightarrow> list_all (spares (fst x)) (ss_commands s) \<Longrightarrow> still x (engine_turn env s)"
  by (intro still_turn_rest still_process_commands)

text \<open>C9: a torrent the user has paused is left alone until the user resumes or removes it: whatever the
  other commands, the poll, the trackers and the DHT bring, a turn of the engine leaves it paused,
  without connection, and nothing of its pieces, its content on the card, its resume file or what it
  uploaded changes.\<close>

theorem paused_torrent_left_alone:
  assumes "session_step\<^sup>*\<^sup>* (new_session peer_id) s" "t \<in> set (ss_torrents s)" "t_state t = Paused"
    and "\<forall>c \<in> set (ss_commands s). spares (t_hash_hex t) c"
  shows "\<exists>u \<in> set (ss_torrents (engine_turn env s)). t_hash_hex u = t_hash_hex t \<and> t_state u = Paused \<and> t_peers u = [] \<and>
    t_meta u = t_meta t \<and> t_picker u = t_picker t \<and> t_storage u = t_storage t \<and> t_writer u = t_writer t \<and>
    t_resume u = t_resume t \<and> t_uploaded u = t_uploaded t"
proof -
  have "torrent_ok (t_hash_hex t) t" using reach_ok [OF assms(1)] assms(2) by (simp add: session_ok_def list_all_iff)
  then have "still (frozen t) s" using assms(2,3) by (auto simp: still_def stopped_def torrent_ok_def almost_ok_def)
  moreover have "fst (frozen t) = t_hash_hex t" by (simp add: frozen_def)
  ultimately have "still (frozen t) (engine_turn env s)" using assms(4) by (simp add: still_engine_turn list_all_iff)
  then show ?thesis by (auto simp: still_def stopped_def frozen_def)
qed

lemma commands_fold: "(\<And>x s. ss_commands (f x s) = ss_commands s) \<Longrightarrow> ss_commands (fold f xs s) = ss_commands s"
  by (induction xs arbitrary: s) simp_all

lemma commands_update [simp]: "ss_commands (update_torrent i f s) = ss_commands s"
  by (simp add: update_torrent_def split: option.split)

lemma commands_engine_turn: "ss_commands (engine_turn env s) = []"
proof -
  have "ss_commands (process_command env c u) = ss_commands u" for c u
    by (simp add: process_command_def Let_def split: command.split option.split)
  then have p: "ss_commands (process_commands env s) = []" by (simp add: process_commands_def commands_fold)
  have q: "ss_commands (update_queue u) = ss_commands u" for u by (simp add: update_queue_def Let_def split: prod.split)
  have k: "ss_commands (check_torrents go u) = ss_commands u" for go u unfolding check_torrents_def
    by (rule commands_fold) (simp add: check_torrent_def publish_status_def Let_def)
  have f: "ss_commands (deliver_found rs u) = ss_commands u" for rs u unfolding deliver_found_def
    by (rule commands_fold) (simp split: prod.split)
  have d: "ss_commands (engine_dht srt now u) = ss_commands u" for srt now u
    by (simp add: engine_dht_def Let_def f split: prod.split)
  have r: "ss_commands (take_replies now u) = ss_commands u" for now u by (simp add: take_replies_def commands_fold)
  show ?thesis
    by (simp add: engine_turn_def Let_def publish_due_def publish_status_def engine_poll_def r announce_due_def d tick_torrents_def k q p)
qed

theorem paused_torrent_left_alone_witness:
  "\<exists>s t. session_step\<^sup>*\<^sup>* (new_session []) s \<and> ss_torrents s = [t] \<and> t_state t = Paused \<and>
     (\<exists>u \<in> set (ss_torrents (engine_turn sample_env s)). t_hash_hex u = t_hash_hex t \<and> t_state u = Paused \<and> t_storage u = t_storage t)"
proof -
  from sample_link_added obtain s0 hex m where s0: "add_magnet sample_link (new_session []) = Inr s0"
    "ss_commands s0 = [AddTorrent hex m False]" "ss_torrents s0 = []" by blast
  let ?s1 = "pause hex s0"
  let ?s = "engine_turn sample_env ?s1"
  have "session_step (new_session []) s0" "session_step s0 ?s1" "session_step ?s1 ?s"
    using s0(1) by (auto intro: session_step.magnet session_step.pausing session_step.turn)
  note steps = this
  have r: "session_step\<^sup>*\<^sup>* (new_session []) ?s"
    by (rule converse_rtranclp_into_rtranclp [of session_step, OF steps(1)], rule converse_rtranclp_into_rtranclp [of session_step, OF steps(2)],
        rule r_into_rtranclp [of session_step, OF steps(3)])
  have "session_ok s0" using \<open>session_step (new_session []) s0\<close> by (intro reach_ok) (rule r_into_rtranclp)
  then have h: "hex = to_hex (info_hash m)" using s0(2) by (simp add: session_ok_def command_ok_def)
  define t where "t = (new_torrent m False (env_disk sample_env) (env_resume sample_env hex))\<lparr>t_dir := ss_dir s0, t_announce_key := env_key sample_env\<rparr>"
  have th: "t_hash_hex t = hex" "t_state t = FetchingMetadata" "t_peers t = []" by (simp_all add: t_def h new_torrent_def Let_def)
  have p: "ss_torrents (process_commands sample_env ?s1) = [set_paused True t]"
    using s0(2,3) th(1) by (simp add: process_commands_def pause_def push_command_def process_command_def find_torrent_def
        update_torrent_def t_def Let_def)
  have "stopped (set_paused True t)" using th by (simp add: stopped_def set_paused_def apply_gate_def)
  then have st: "still (frozen (set_paused True t)) ?s" using p by (intro still_turn_rest) (auto simp: still_def)
  have "length (ss_torrents ?s) = 1" using p by simp
  from this [unfolded One_nat_def length_Suc_conv] obtain u where u: "ss_torrents ?s = [u]" by blast
  then have "t_state u = Paused" using st by (simp add: still_def stopped_def)
  then show ?thesis using r u paused_torrent_left_alone [OF r, of u sample_env] commands_engine_turn by auto
qed

definition two_named :: metainfo where
  "two_named = two_pieces\<lparr>info_hash := replicate 20 1\<rparr>"

definition half_done :: torrent where
  "half_done = (new_torrent two_named True no_disk None)\<lparr>t_picker := set_have 0 (picker_init two_named)\<rparr>"

lemma two_named_ok: "pieces_ok two_named" "piece_count two_named = 2"
  using two_pieces_ok by (simp_all add: two_named_def pieces_ok_def piece_count_def)

lemma half_done_ok: "picker_ok (t_picker half_done)" "pmeta (t_picker half_done) = t_meta half_done"
  "have_piece (t_picker half_done) 0" "\<not> have_piece (t_picker half_done) 1" "t_meta half_done = two_named"
proof -
  have i: "picker_ok (picker_init two_named)" by (simp add: picker_ok_init two_named_ok)
  show "picker_ok (t_picker half_done)" using set_have_ok [OF i] by (simp add: half_done_def)
  have n: "\<not> have_piece (picker_init two_named) k" for k by (simp add: have_piece_def picker_init_def two_named_ok)
  have "have_piece (set_have 0 (picker_init two_named)) k \<longleftrightarrow> k = 0" for k
    using have_set [OF i, of 0 k] n by (simp add: set_have_def have_piece_def picker_init_def two_named_ok)
  then show "have_piece (t_picker half_done) 0" "\<not> have_piece (t_picker half_done) 1" by (simp_all add: half_done_def)
  show "pmeta (t_picker half_done) = t_meta half_done" "t_meta half_done = two_named"
    by (simp_all add: half_done_def new_torrent_def set_have_def picker_init_def Let_def)
qed

theorem resume_roundtrip_witness:
  "\<exists>u. snd (load_resume u) \<and> have_piece (t_picker (fst (load_resume u))) 0 \<and> \<not> have_piece (t_picker (fst (load_resume u))) 1 \<and>
     \<not> have_piece (t_picker u) 0"
proof -
  let ?u = "half_done\<lparr>t_picker := picker_init two_named, t_resume := t_resume (save_resume half_done)\<rparr>"
  have "snd (load_resume ?u) \<and> have_piece (t_picker (fst (load_resume ?u))) = have_piece (t_picker half_done)"
    using resume_roundtrip [OF half_done_ok(1,2), of ?u] by (simp add: half_done_ok(5) two_named_def half_done_def new_torrent_def Let_def)
  moreover have "\<not> have_piece (picker_init two_named) 0" by (simp add: have_piece_def picker_init_def two_named_ok)
  ultimately show ?thesis using half_done_ok(3,4) by (intro exI [of _ ?u]) simp
qed

theorem resume_file_exact_witness:
  "read_resume two_named (resume_bytes two_named (bf_resize 2)) = Some (bf_resize 2)"
proof -
  have "length (info_hash two_named) = 20" by (simp add: two_named_def)
  then show ?thesis using resume_file_exact [OF two_named_ok(1), of "resume_bytes two_named (bf_resize 2)" "bf_resize 2"]
    by (simp add: bf_ok_resize two_named_ok(2))
qed

subsection \<open>A write that fails\<close>

lemma have_frame: "have_bits (peer_removed peer pk) = have_bits pk" "have_bits (peer_added peer pk) = have_bits pk"
  "have_bits (on_request_dropped piece off pk) = have_bits pk"
  by (simp_all add: peer_removed_def peer_added_def on_request_dropped_def free_block_def Let_def split: option.split)

lemma have_react: "have_bits (t_picker (react p ev t)) = have_bits (t_picker t)"
proof -
  have "have_bits (fold (\<lambda>r. on_request_dropped (rpiece r) (roffset r)) rs pk) = have_bits pk" for rs :: "block_request list" and pk
    by (induction rs arbitrary: pk) (simp_all add: have_frame)
  then show ?thesis by (simp add: react_def on_peer_closed_def on_peer_bitfield_def drop_requests_def have_frame Let_def split: peer_event.split)
qed

lemma have_poke: "have_bits (t_picker (poke i f t)) = have_bits (t_picker t)" "have_bits (t_picker (poke_all P f t)) = have_bits (t_picker t)"
proof -
  have "have_bits (t_picker (fold (react q) evs u)) = have_bits (t_picker u)" for q evs u
    by (induction evs arbitrary: u) (simp_all add: have_react)
  then show p: "have_bits (t_picker (poke i f t)) = have_bits (t_picker t)" for i f t by (simp add: poke_def Let_def)
  have "have_bits (t_picker (fold (\<lambda>i t. if P (t_peers t ! i) then poke i f t else t) is u)) = have_bits (t_picker u)" for "is" u
    by (induction "is" arbitrary: u) (simp_all add: p)
  then show "have_bits (t_picker (poke_all P f t)) = have_bits (t_picker t)" by (simp add: poke_all_def)
qed

lemma message_poke: "t_message (poke_all P f t) = t_message t"
proof -
  have "t_message (fold (react q) evs u) = t_message u" for q evs u
    by (induction evs arbitrary: u) (simp_all add: react_def on_peer_closed_def on_peer_bitfield_def Let_def split: peer_event.split)
  then have p: "t_message (poke i f u) = t_message u" for i u by (simp add: poke_def Let_def)
  have "t_message (fold (\<lambda>i t. if P (t_peers t ! i) then poke i f t else t) is u) = t_message u" for "is" u
    by (induction "is" arbitrary: u) (simp_all add: p)
  then show ?thesis by (simp add: poke_all_def)
qed

text \<open>C13: a piece is counted as held before it is committed.  When the commit fails the torrent stops in
  the failed state, but the piece stays among those held: the resume file written when the session
  stops lists it, and the next start trusts that file and never asks for the piece again.\<close>

theorem failed_commit_stays_held:
  assumes "picker_ok (t_picker t)" "pmeta (t_picker t) = t_meta t" "length (info_hash (t_meta t)) = 20"
    and "t_meta_complete t" "t_resume_writable t" "piece < piece_count (t_meta t)"
    and "commit_piece piece (t_storage t) = (st, False)"
  shows "t_state (finish_piece piece True True False t) = Failed \<and>
    (\<exists>file bf. t_resume (save_resume (finish_piece piece True True False t)) = Some file \<and>
       read_resume (t_meta t) file = Some bf \<and> bf_get bf piece)"
proof -
  let ?pk = "on_piece_verified piece True (t_picker t)"
  let ?u = "finish_piece piece True True False t"
  have u: "?u = t\<lparr>t_picker := ?pk, t_storage := st, t_state := Failed, t_message := WriteFailed\<rparr>"
    using assms(7) by (simp add: finish_piece_def Let_def)
  have v: "?pk = set_have piece (t_picker t)" by (simp add: on_piece_verified_def)
  have pk: "picker_ok ?pk" unfolding v by (rule set_have_ok [OF assms(1)])
  have m: "pmeta ?pk = t_meta t" "have_piece ?pk piece" unfolding v
    using have_set [OF assms(1), of piece piece] assms(2,6) by (simp_all add: set_have_def have_piece_def)
  have "read_resume (t_meta t) (resume_bytes (t_meta t) (have_bits ?pk) @ []) = Some (have_bits ?pk)"
    using picker_okD(2,3) [OF pk] m(1) assms(3) by (intro read_resume_append) simp_all
  moreover have "t_resume (save_resume ?u) = Some (resume_bytes (t_meta t) (have_bits ?pk))"
    using assms(4,5) by (simp add: u save_resume_def)
  ultimately show ?thesis using m(2) by (simp add: u have_piece_def)
qed

text \<open>C1: the failed state does not last either: a last piece that arrives after the failure (the
  connections of a failed torrent stay open) makes the torrent complete and seeding.\<close>

text \<open>The failed state does not last: the connections of a failed torrent stay open, and when the last
  piece it misses arrives and is verified, it becomes a finished torrent that seeds, the piece that
  could not be written included.\<close>

theorem failed_turns_seeding:
  assumes "t_state t = Failed" "t_meta_complete t" "is_complete (on_piece_verified piece True (t_picker t))"
  shows "t_state (finish_piece piece True False False t) = Seeding \<and> t_message (finish_piece piece True False False t) = Finished"
proof -
  define v where "v = poke_all is_ready (send_have quiet piece) (t\<lparr>t_picker := on_piece_verified piece True (t_picker t)\<rparr>)"
  define w where "w = (save_resume v)\<lparr>t_state := Seeding, t_message := Finished\<rparr>"
  have "have_bits (t_picker v) = have_bits (on_piece_verified piece True (t_picker t))" by (simp add: v_def have_poke)
  then have "is_complete (t_picker v)" using assms(3) by (simp add: is_complete_def)
  then have "finish_piece piece True False False t = poke_all (\<lambda>p. True) (send_interested quiet False) w"
    by (simp add: finish_piece_def Let_def v_def w_def)
  moreover have "t_state (poke_all P f w) = t_state w" for P f using core_poke_all [of P f w] by (simp add: core_def)
  moreover have "t_message (poke_all P f w) = t_message w" for P f by (rule message_poke)
  ultimately show ?thesis by (simp add: w_def)
qed

text \<open>A card that cannot be written: one file, and the last piece in memory.\<close>

definition full_card :: storage where
  "full_card = (new_storage no_disk)\<lparr>smeta := two_named,
     slots := [\<lparr>abs_path = ascii ''/a'', slot_offset = 0, slot_length = 5, opened = False, slot_used = 0, allocated = 0\<rparr>],
     buffers := [\<lparr>buf_index = 1, buf_data = [9], buf_have = [True], blocks_present = 1, buf_used = 0\<rparr>]\<rparr>"

lemma full_card_spans: "spans (slots full_card) 4 1 = ([(0, 4, 1)], 0)"
  by (simp add: full_card_def spans_def first_slot.simps u64_def sub64_def)

lemma full_card_fails: "\<not> snd (commit_piece 1 full_card)"
proof -
  have f: "find_buffer 1 (buffers full_card) = Some 0" "runs (buf_have (buffers full_card ! 0)) 0 None (length (buf_data (buffers full_card ! 0))) = [(0, 1)]"
    "buf_index (buffers full_card ! 0) = 1" "buf_data (buffers full_card ! 0) = [9]"
    by (simp_all add: full_card_def kStoreBlock_def)
  have p: "abs_position full_card 1 0 = 4" "total_size (smeta full_card) = 5"
    by (simp_all add: abs_position_def full_card_def two_named_def two_pieces_def empty_meta_def u64_def)
  have "\<not> snd (write_span 0 4 [9] full_card)"
    by (simp add: write_span_def acquire_def full_card_def new_storage_def no_disk_def evict_if_needed_def can_open_def kMaxOpenHandles_def Let_def
        split: prod.split)
  then have "\<not> snd (write_through 1 0 [9] full_card)"
    using full_card_spans p by (auto simp: write_through_def u64_def Let_def split: prod.splits)
  then have "\<not> snd (flush_buffer 0 full_card)"
    using f by (auto simp: flush_buffer_def Let_def split: prod.splits)
  then show ?thesis using f(1) by (cases "flush_buffer 0 full_card") (simp add: commit_piece_def Let_def)
qed

definition stuck :: torrent where
  "stuck = half_done\<lparr>t_storage := full_card\<rparr>"

theorem failed_commit_stays_held_witness:
  "\<exists>file bf. t_state (finish_piece 1 True True False stuck) = Failed \<and>
     t_resume (save_resume (finish_piece 1 True True False stuck)) = Some file \<and> read_resume two_named file = Some bf \<and> bf_get bf 1"
proof -
  obtain st where c: "commit_piece 1 full_card = (st, False)" using full_card_fails by (cases "commit_piece 1 full_card") simp
  have t: "t_meta stuck = two_named" "t_picker stuck = t_picker half_done" "t_storage stuck = full_card" "t_meta_complete stuck"
    "t_resume_writable stuck"
    by (simp_all add: stuck_def half_done_ok(5)) (simp_all add: half_done_def new_torrent_def Let_def)
  then show ?thesis using failed_commit_stays_held [of stuck 1 st] half_done_ok c two_named_ok(2) by (auto simp: two_named_def)
qed

theorem failed_turns_seeding_witness:
  "t_state (finish_piece 1 True False False (stuck\<lparr>t_state := Failed\<rparr>)) = Seeding"
proof -
  have "is_complete (on_piece_verified 1 True (t_picker half_done))"
  proof -
    have p: "pmeta (t_picker half_done) = two_named" using half_done_ok(2,5) by simp
    have b: "bf_ok (have_bits (set_have 1 (t_picker half_done)))" "bits (have_bits (set_have 1 (t_picker half_done))) = 2"
      using picker_okD(2,3) [OF set_have_ok [OF half_done_ok(1)], of 1] p two_named_ok(2) by (simp_all add: set_have_def)
    have "bf_get (have_bits (set_have 1 (t_picker half_done))) k" if "k < 2" for k
      using have_set [OF half_done_ok(1), of 1 k] p half_done_ok(3,4) two_named_ok(2) that
      by (auto simp: set_have_def have_piece_def less_Suc_eq numeral_2_eq_2)
    then show ?thesis using bf_full_iff [OF b(1)] b(2) by (simp add: is_complete_def on_piece_verified_def)
  qed
  then show ?thesis using failed_turns_seeding [of "stuck\<lparr>t_state := Failed\<rparr>" 1] by (simp add: stuck_def half_done_def new_torrent_def Let_def)
qed

end
