(* ===== verification/Blake2s.thy ===== *)
theory Blake2s
  imports Sha1
begin

text \<open>
  BLAKE2s as \<open>source/net/wg/blake2s.c\<close> computes it (the hash of the WireGuard handshake).
  \<open>blake2s_state\<close> is the C struct: the chaining words \<open>h\<close>, the byte counter in two words
  \<open>t\<close>, the finalisation flags \<open>f\<close>, the first \<open>buf_len\<close> bytes of \<open>buf\<close> (the rest of the
  array is never read before it is overwritten) and the output length.  The code holds back the
  last full block so that it can be compressed with the finalisation flag.  The reference
  \<open>blake2s_spec\<close> is RFC 7693 written out without the code's definitions; the lemmas show that the
  two agree however the data is fed.
\<close>

subsection \<open>Little-endian words\<close>

definition load32 :: "bytes \<Rightarrow> 32 word" where
  "load32 p = ucast (p ! 0) OR push_bit 8 (ucast (p ! 1)) OR push_bit 16 (ucast (p ! 2)) OR
     push_bit 24 (ucast (p ! 3))"

definition store32 :: "32 word \<Rightarrow> bytes" where
  "store32 v = [ucast v, ucast (drop_bit 8 v), ucast (drop_bit 16 v), ucast (drop_bit 24 v)]"

definition rotr32 :: "32 word \<Rightarrow> nat \<Rightarrow> 32 word" where
  "rotr32 x n = drop_bit n x OR push_bit (32 - n) x"

subsection \<open>The state and the compression function\<close>

record blake2s_state =
  b_h :: "32 word list"
  b_t0 :: "32 word"
  b_t1 :: "32 word"
  b_f0 :: "32 word"
  b_f1 :: "32 word"
  b_buf :: bytes
  b_out_len :: nat

definition kIv :: "32 word list" where
  "kIv = [0x6A09E667, 0xBB67AE85, 0x3C6EF372, 0xA54FF53A, 0x510E527F, 0x9B05688C, 0x1F83D9AB, 0x5BE0CD19]"

definition kSigma :: "nat list list" where
  "kSigma =
     [[0, 1, 2, 3, 4, 5, 6, 7, 8, 9, 10, 11, 12, 13, 14, 15],
      [14, 10, 4, 8, 9, 15, 13, 6, 1, 12, 0, 2, 11, 7, 5, 3],
      [11, 8, 12, 0, 5, 2, 15, 13, 10, 14, 3, 6, 7, 1, 9, 4],
      [7, 9, 3, 1, 13, 12, 11, 14, 2, 6, 5, 10, 4, 0, 15, 8],
      [9, 0, 5, 7, 2, 4, 10, 15, 14, 1, 11, 12, 6, 8, 3, 13],
      [2, 12, 6, 10, 0, 11, 8, 3, 4, 13, 7, 5, 15, 14, 1, 9],
      [12, 5, 1, 15, 14, 13, 4, 10, 0, 7, 6, 3, 9, 2, 8, 11],
      [13, 11, 7, 14, 12, 1, 3, 9, 5, 0, 15, 4, 8, 6, 2, 10],
      [6, 15, 14, 9, 11, 3, 0, 8, 12, 2, 13, 7, 1, 4, 10, 5],
      [10, 2, 8, 4, 7, 6, 1, 5, 15, 11, 9, 14, 3, 12, 13, 0]]"

text \<open>The macro \<open>G(r, i, a, b, c, d)\<close>; the four working words are given by their index in \<open>v\<close>.\<close>

definition G_mix :: "32 word list \<Rightarrow> nat \<Rightarrow> nat \<Rightarrow> nat \<times> nat \<times> nat \<times> nat \<Rightarrow> 32 word list \<Rightarrow> 32 word list" where
  "G_mix m r i ix v =
     (let (ia, ib, ic, id) = ix;
          a = v ! ia; b = v ! ib; c = v ! ic; d = v ! id;
          a = a + b + m ! (kSigma ! r ! (2 * i));
          d = rotr32 (d XOR a) 16;
          c = c + d;
          b = rotr32 (b XOR c) 12;
          a = a + b + m ! (kSigma ! r ! (2 * i + 1));
          d = rotr32 (d XOR a) 8;
          c = c + d;
          b = rotr32 (b XOR c) 7
      in v[ia := a, ib := b, ic := c, id := d])"

definition blake_round :: "32 word list \<Rightarrow> nat \<Rightarrow> 32 word list \<Rightarrow> 32 word list" where
  "blake_round m r v =
     (let v = G_mix m r 0 (0, 4, 8, 12) v;
          v = G_mix m r 1 (1, 5, 9, 13) v;
          v = G_mix m r 2 (2, 6, 10, 14) v;
          v = G_mix m r 3 (3, 7, 11, 15) v;
          v = G_mix m r 4 (0, 5, 10, 15) v;
          v = G_mix m r 5 (1, 6, 11, 12) v;
          v = G_mix m r 6 (2, 7, 8, 13) v
      in G_mix m r 7 (3, 4, 9, 14) v)"

definition compress_words ::
  "32 word list \<Rightarrow> 32 word \<Rightarrow> 32 word \<Rightarrow> 32 word \<Rightarrow> 32 word \<Rightarrow> bytes \<Rightarrow> 32 word list" where
  "compress_words h t0 t1 f0 f1 block =
     (let m = map (\<lambda>i. load32 (drop (i * 4) block)) [0..<16];
          v = map (\<lambda>i. h ! i) [0..<8] @
              [kIv ! 0, kIv ! 1, kIv ! 2, kIv ! 3, t0 XOR kIv ! 4, t1 XOR kIv ! 5, f0 XOR kIv ! 6, f1 XOR kIv ! 7];
          v = fold (blake_round m) [0..<10] v
      in map (\<lambda>i. h ! i XOR (v ! i XOR v ! (i + 8))) [0..<8])"

definition blake2s_compress :: "blake2s_state \<Rightarrow> bytes \<Rightarrow> blake2s_state" where
  "blake2s_compress s block =
     s\<lparr>b_h := compress_words (b_h s) (b_t0 s) (b_t1 s) (b_f0 s) (b_f1 s) block\<rparr>"

definition increment_counter :: "nat \<Rightarrow> blake2s_state \<Rightarrow> blake2s_state" where
  "increment_counter inc s =
     (let t0 = b_t0 s + of_nat inc
      in s\<lparr>b_t0 := t0, b_t1 := (if t0 < of_nat inc then b_t1 s + 1 else b_t1 s)\<rparr>)"

subsection \<open>Feeding data\<close>

text \<open>The \<open>while (len > BLAKE2S_BLOCK_SIZE)\<close> loop: at least one byte is always kept back.\<close>

function blake_blocks :: "blake2s_state \<Rightarrow> bytes \<Rightarrow> blake2s_state \<times> bytes" where
  "blake_blocks s data =
     (if 64 < length data
      then blake_blocks (blake2s_compress (increment_counter 64 s) (take 64 data)) (drop 64 data)
      else (s, data))"
  by pat_completeness auto
termination
  by (relation "measure (\<lambda>(s, data). length data)") auto

declare blake_blocks.simps [simp del]

definition blake2s_update :: "blake2s_state \<Rightarrow> bytes \<Rightarrow> blake2s_state" where
  "blake2s_update s data =
     (if data = [] then s
      else let left = length (b_buf s); fill = 64 - left
           in if fill < length data then
                let block = b_buf s @ take fill data;
                    s = blake2s_compress (increment_counter 64 (s\<lparr>b_buf := []\<rparr>)) block;
                    (s, rest) = blake_blocks s (drop fill data)
                in s\<lparr>b_buf := rest\<rparr>
              else s\<lparr>b_buf := b_buf s @ data\<rparr>)"

definition param_word :: "nat \<Rightarrow> nat \<Rightarrow> 32 word" where
  "param_word out_len key_len = 0x01010000 XOR push_bit 8 (of_nat key_len) XOR of_nat out_len"

definition blake2s_init_key :: "nat \<Rightarrow> bytes \<Rightarrow> blake2s_state" where
  "blake2s_init_key out_len key =
     (let s = \<lparr>b_h = kIv[0 := kIv ! 0 XOR param_word out_len (length key)], b_t0 = 0, b_t1 = 0, b_f0 = 0, b_f1 = 0,
               b_buf = [], b_out_len = out_len\<rparr>
      in if 0 < length key then blake2s_update s (key @ replicate (64 - length key) 0) else s)"

definition blake2s_init :: "nat \<Rightarrow> blake2s_state" where
  "blake2s_init out_len = blake2s_init_key out_len []"

definition store_words :: "32 word list \<Rightarrow> bytes" where
  "store_words h = concat (map (\<lambda>i. store32 (h ! i)) [0..<8])"

definition blake2s_final :: "blake2s_state \<Rightarrow> bytes" where
  "blake2s_final s =
     (let s = increment_counter (length (b_buf s)) s;
          s = s\<lparr>b_f0 := 0xFFFFFFFF\<rparr>;
          s = blake2s_compress s (b_buf s @ replicate (64 - length (b_buf s)) 0)
      in take (b_out_len s) (store_words (b_h s)))"

definition blake2s :: "nat \<Rightarrow> bytes \<Rightarrow> bytes \<Rightarrow> bytes" where
  "blake2s out_len key data = blake2s_final (blake2s_update (blake2s_init_key out_len key) data)"

subsection \<open>HMAC on top of it\<close>

definition hmac_block :: "bytes \<Rightarrow> bytes" where
  "hmac_block key =
     (let k = (if 64 < length key then blake2s 32 [] key else key)
      in k @ replicate (64 - length k) 0)"

definition blake2s_hmac :: "bytes \<Rightarrow> bytes \<Rightarrow> bytes" where
  "blake2s_hmac key data =
     (let block = map (\<lambda>b. b XOR 0x36) (hmac_block key);
          inner = blake2s_final (blake2s_update (blake2s_update (blake2s_init 32) block) data);
          block = map (\<lambda>b. b XOR (0x36 XOR 0x5c)) block
      in blake2s_final (blake2s_update (blake2s_update (blake2s_init 32) block) inner))"


subsection \<open>The reference: the whole message cut at once\<close>

text \<open>RFC 7693: every block but the last is compressed with the number of bytes up to its end, the
  last one, padded with zeros, with the number of message bytes and the finalisation flag.  The
  counter is one number; its two 32-bit words are what \<open>compress_words\<close> takes.\<close>

definition blake_F :: "32 word list \<Rightarrow> nat \<Rightarrow> 32 word \<Rightarrow> bytes \<Rightarrow> 32 word list" where
  "blake_F h n f block = compress_words h (of_nat n) (of_nat (n div 2 ^ 32)) f 0 block"

function blake_ref :: "32 word list \<Rightarrow> nat \<Rightarrow> bytes \<Rightarrow> 32 word list" where
  "blake_ref h n data =
     (if 64 < length data then blake_ref (blake_F h (n + 64) 0 (take 64 data)) (n + 64) (drop 64 data)
      else blake_F h (n + length data) 0xFFFFFFFF (data @ replicate (64 - length data) 0))"
  by pat_completeness auto
termination
  by (relation "measure (\<lambda>(h, n, data). length data)") auto

declare blake_ref.simps [simp del]

text \<open>A key is the first block of the message, padded with zeros.\<close>

definition key_block :: "bytes \<Rightarrow> bytes" where
  "key_block key = (if key = [] then [] else key @ replicate (64 - length key) 0)"

subsection \<open>The reference: RFC 7693\<close>

text \<open>
  BLAKE2s as the RFC writes it, without a definition of the code: the mixing function \<open>G\<close> on the
  sixteen working words (section 3.1, rotations 16, 12, 8 and 7), the initialisation vector (2.6),
  the message schedule (2.7), the compression \<open>F\<close> with its counter and flag as a number and a
  truth value (3.2), and the hash of the data cut into zero-padded blocks (3.3).  HMAC is that of
  RFC 2104.
\<close>

definition rfc_G :: "32 word list \<Rightarrow> nat \<Rightarrow> nat \<Rightarrow> nat \<Rightarrow> nat \<Rightarrow> 32 word \<Rightarrow> 32 word \<Rightarrow> 32 word list" where
  "rfc_G v a b c d x y =
     (let v = v[a := v ! a + v ! b + x];
          v = v[d := word_rotr 16 (v ! d XOR v ! a)];
          v = v[c := v ! c + v ! d];
          v = v[b := word_rotr 12 (v ! b XOR v ! c)];
          v = v[a := v ! a + v ! b + y];
          v = v[d := word_rotr 8 (v ! d XOR v ! a)];
          v = v[c := v ! c + v ! d]
      in v[b := word_rotr 7 (v ! b XOR v ! c)])"

definition rfc_IV :: "nat list" where
  "rfc_IV = [1779033703, 3144134277, 1013904242, 2773480762, 1359893119, 2600822924, 528734635, 1541459225]"

text \<open>Word \<open>i\<close> is the fraction of the square root of the \<open>i\<close>-th prime, cut to 32 bits.\<close>

lemma rfc_IV_roots:
  "list_all2 (\<lambda>w (p, r). (r * 2 ^ 32 + w) ^ 2 \<le> p * 2 ^ 64 \<and> p * 2 ^ 64 < (r * 2 ^ 32 + w + 1) ^ 2)
     rfc_IV [(2, 1), (3, 1), (5, 2), (7, 2), (11, 3), (13, 3), (17, 4), (19, 4)]"
  by (simp add: rfc_IV_def power2_eq_square)

definition rfc_SIGMA :: "nat \<Rightarrow> nat list" where
  "rfc_SIGMA i =
     (if i = 0 then [0, 1, 2, 3, 4, 5, 6, 7, 8, 9, 10, 11, 12, 13, 14, 15]
      else if i = 1 then [14, 10, 4, 8, 9, 15, 13, 6, 1, 12, 0, 2, 11, 7, 5, 3]
      else if i = 2 then [11, 8, 12, 0, 5, 2, 15, 13, 10, 14, 3, 6, 7, 1, 9, 4]
      else if i = 3 then [7, 9, 3, 1, 13, 12, 11, 14, 2, 6, 5, 10, 4, 0, 15, 8]
      else if i = 4 then [9, 0, 5, 7, 2, 4, 10, 15, 14, 1, 11, 12, 6, 8, 3, 13]
      else if i = 5 then [2, 12, 6, 10, 0, 11, 8, 3, 4, 13, 7, 5, 15, 14, 1, 9]
      else if i = 6 then [12, 5, 1, 15, 14, 13, 4, 10, 0, 7, 6, 3, 9, 2, 8, 11]
      else if i = 7 then [13, 11, 7, 14, 12, 1, 3, 9, 5, 0, 15, 4, 8, 6, 2, 10]
      else if i = 8 then [6, 15, 14, 9, 11, 3, 0, 8, 12, 2, 13, 7, 1, 4, 10, 5]
      else [10, 2, 8, 4, 7, 6, 1, 5, 15, 11, 9, 14, 3, 12, 13, 0])"

definition rfc_round :: "32 word list \<Rightarrow> nat \<Rightarrow> 32 word list \<Rightarrow> 32 word list" where
  "rfc_round m i v =
     (let s = rfc_SIGMA i;
          v = rfc_G v 0 4 8 12 (m ! (s ! 0)) (m ! (s ! 1));
          v = rfc_G v 1 5 9 13 (m ! (s ! 2)) (m ! (s ! 3));
          v = rfc_G v 2 6 10 14 (m ! (s ! 4)) (m ! (s ! 5));
          v = rfc_G v 3 7 11 15 (m ! (s ! 6)) (m ! (s ! 7));
          v = rfc_G v 0 5 10 15 (m ! (s ! 8)) (m ! (s ! 9));
          v = rfc_G v 1 6 11 12 (m ! (s ! 10)) (m ! (s ! 11));
          v = rfc_G v 2 7 8 13 (m ! (s ! 12)) (m ! (s ! 13))
      in rfc_G v 3 4 9 14 (m ! (s ! 14)) (m ! (s ! 15)))"

definition rfc_F :: "32 word list \<Rightarrow> bytes \<Rightarrow> nat \<Rightarrow> bool \<Rightarrow> 32 word list" where
  "rfc_F h d t f =
     (let m = map (\<lambda>i. of_nat (le_num [d ! (4 * i), d ! (4 * i + 1), d ! (4 * i + 2), d ! (4 * i + 3)])) [0..<16];
          v = h @ map of_nat rfc_IV;
          v = v[12 := v ! 12 XOR of_nat (t mod 2 ^ 32)];
          v = v[13 := v ! 13 XOR of_nat (t div 2 ^ 32)];
          v = (if f then v[14 := NOT (v ! 14)] else v);
          v = fold (rfc_round m) [0..<10] v
      in map (\<lambda>i. h ! i XOR v ! i XOR v ! (i + 8)) [0..<8])"

text \<open>Block \<open>i\<close> of the data, completed with zeros, and the number of blocks (one for empty data).\<close>

definition rfc_block :: "bytes \<Rightarrow> nat \<Rightarrow> bytes" where
  "rfc_block msg i = map (\<lambda>j. if 64 * i + j < length msg then msg ! (64 * i + j) else 0) [0..<64]"

definition rfc_dd :: "bytes \<Rightarrow> nat" where
  "rfc_dd msg = max 1 ((length msg + 63) div 64)"

definition rfc_h0 :: "nat \<Rightarrow> nat \<Rightarrow> 32 word list" where
  "rfc_h0 kk nn = (let h = map of_nat rfc_IV in h[0 := h ! 0 XOR 0x01010000 XOR of_nat (kk * 2 ^ 8) XOR of_nat nn])"

definition blake2s_spec :: "nat \<Rightarrow> bytes \<Rightarrow> bytes \<Rightarrow> bytes" where
  "blake2s_spec nn key m =
     (let msg = key_block key @ m;
          h = fold (\<lambda>i h. rfc_F h (rfc_block msg i) (64 * (i + 1)) False) [0..<rfc_dd msg - 1] (rfc_h0 (length key) nn);
          h = rfc_F h (rfc_block msg (rfc_dd msg - 1)) (length msg) True
      in take nn (concat (map (\<lambda>w. num_le 4 (unat w)) h)))"

definition hmac_spec :: "bytes \<Rightarrow> bytes \<Rightarrow> bytes" where
  "hmac_spec key m =
     (let k = (if 64 < length key then blake2s_spec 32 [] key else key);
          k = k @ replicate (64 - length k) 0
      in blake2s_spec 32 [] (map (\<lambda>b. b XOR 0x5c) k @ blake2s_spec 32 [] (map (\<lambda>b. b XOR 0x36) k @ m)))"

subsection \<open>The compression function is the RFC's\<close>

lemma rotr32_word_rotr:
  assumes "0 < n" "n < 32"
  shows "rotr32 v n = word_rotr n v"
proof (rule bit_word_eqI)
  fix k :: nat
  assume "k < LENGTH(32)"
  then have k: "k < 32" by simp
  have "bit (word_rotr n v) k = bit v ((k + n) mod 32)"
    using k assms by (simp add: bit_word_rotr_iff)
  also have "\<dots> = (if k + n < 32 then bit v (k + n) else bit v (k + n - 32))"
    using k assms by (simp add: mod_if)
  also have "\<dots> = bit (rotr32 v n) k"
    using k assms by (auto simp: rotr32_def bit_simps add.commute dest: bit_imp_le_length)
  finally show "bit (rotr32 v n) k = bit (word_rotr n v) k" by simp
qed

lemma G_mix_rfc:
  assumes "distinct [a, b, c, d]" "a < length v" "b < length v" "c < length v" "d < length v"
  shows "G_mix m r i (a, b, c, d) v = rfc_G v a b c d (m ! (kSigma ! r ! (2 * i))) (m ! (kSigma ! r ! (2 * i + 1)))"
proof -
  have swap: "v[a := x, b := y] = v[b := y, a := x]" "v[a := x, c := y] = v[c := y, a := x]"
    "v[a := x, d := y] = v[d := y, a := x]" "v[b := x, c := y] = v[c := y, b := x]"
    "v[b := x, d := y] = v[d := y, b := x]" "v[c := x, d := y] = v[d := y, c := x]"
    for v :: "32 word list" and x y
    using assms(1) by (simp_all add: list_update_swap)
  show ?thesis
    using assms by (simp add: G_mix_def rfc_G_def Let_def rotr32_word_rotr swap(1-3)) (simp add: swap)
qed

lemma length_rfc_G [simp]: "length (rfc_G v a b c d x y) = length v"
  by (simp add: rfc_G_def Let_def)

lemma length_rfc_round [simp]: "length (rfc_round m i v) = length v"
  by (simp add: rfc_round_def Let_def)

lemma kSigma_rfc: "i < 10 \<Longrightarrow> kSigma ! i = rfc_SIGMA i"
proof -
  assume "i < 10"
  then have "i \<in> set [0, 1, 2, 3, 4, 5, 6, 7, 8, 9]" by auto
  then show ?thesis by (auto simp: kSigma_def rfc_SIGMA_def)
qed

lemma blake_round_rfc:
  assumes "length v = 16" "i < 10"
  shows "blake_round m i v = rfc_round m i v"
  using assms by (simp add: blake_round_def rfc_round_def Let_def G_mix_rfc kSigma_rfc)

lemma blake_rounds_rfc:
  "length v = 16 \<Longrightarrow> k \<le> 10 \<Longrightarrow>
   fold (blake_round m) [0..<k] v = fold (rfc_round m) [0..<k] v \<and> length (fold (rfc_round m) [0..<k] v) = 16"
  by (induction k) (auto simp: blake_round_rfc)

lemma load32_num: "unat (load32 p) = le_num [p ! 0, p ! 1, p ! 2, p ! 3]"
  unfolding load32_def by (rule four_bytes)

lemma store32_num: "store32 v = num_le 4 (unat v)"
proof -
  have "num_le 4 n = [of_nat n, of_nat (n div 2 ^ 8), of_nat (n div 2 ^ 16), of_nat (n div 2 ^ 24)]" for n
    by (simp add: num_le_def upt_conv_Cons)
  moreover have "(ucast (drop_bit k v) :: byte) = of_nat (unat v div 2 ^ k)" for k
    by (metis drop_bit_eq_div of_nat_unat unat_drop_bit_eq)
  moreover have "(ucast v :: byte) = of_nat (unat v)" by simp
  ultimately show ?thesis by (simp only: store32_def)
qed

lemma kIv_rfc: "kIv = map of_nat rfc_IV"
  by (simp add: kIv_def rfc_IV_def)

lemma message_words:
  assumes "length d = 64"
  shows "map (\<lambda>i. load32 (drop (i * 4) d)) [0..<16] =
    map (\<lambda>i. of_nat (le_num [d ! (4 * i), d ! (4 * i + 1), d ! (4 * i + 2), d ! (4 * i + 3)])) [0..<16]"
proof (rule map_cong [OF refl])
  fix i :: nat
  assume "i \<in> set [0..<16]"
  then have "drop (i * 4) d ! k = d ! (4 * i + k)" if "k < 4" for k
    using assms that by (simp add: mult.commute del: upt_rec_numeral)
  then have "unat (load32 (drop (i * 4) d)) = le_num [d ! (4 * i), d ! (4 * i + 1), d ! (4 * i + 2), d ! (4 * i + 3)]"
    unfolding load32_num by simp
  then show "load32 (drop (i * 4) d) = of_nat (le_num [d ! (4 * i), d ! (4 * i + 1), d ! (4 * i + 2), d ! (4 * i + 3)])"
    by (metis of_nat_unat ucast_id)
qed

text \<open>The working words before the rounds: the code lists them, the RFC edits the vector.\<close>

lemma working_words:
  assumes "length h = 8"
  shows "map (\<lambda>i. h ! i) [0..<8] @ [kIv ! 0, kIv ! 1, kIv ! 2, kIv ! 3,
      of_nat t XOR kIv ! 4, of_nat (t div 2 ^ 32) XOR kIv ! 5,
      (if f then 0xFFFFFFFF else 0) XOR kIv ! 6, 0 XOR kIv ! 7] =
    (let v = h @ map of_nat rfc_IV;
         v = v[12 := v ! 12 XOR of_nat (t mod 2 ^ 32)];
         v = v[13 := v ! 13 XOR of_nat (t div 2 ^ 32)]
     in if f then v[14 := NOT (v ! 14)] else v)"
proof -
  have h: "map (\<lambda>i. h ! i) [0..<8] = h" using map_nth [of h] assms by (simp only:)
  have t: "(of_nat (t mod 2 ^ 32) :: 32 word) = of_nat t"
  proof -
    have "unat (of_nat t :: 32 word) = t mod 2 ^ 32" by (simp add: unsigned_of_nat take_bit_eq_mod)
    then show ?thesis by (metis of_nat_unat ucast_id)
  qed
  have neg: "(0xFFFFFFFF :: 32 word) = - 1" by simp
  have iv: "map of_nat rfc_IV = [kIv ! 0, kIv ! 1, kIv ! 2, kIv ! 3, kIv ! 4, kIv ! 5, kIv ! 6, kIv ! 7]"
    by (simp add: kIv_def rfc_IV_def)
  show ?thesis
    unfolding h t iv neg
    by (simp add: Let_def nth_append list_update_append assms xor.commute)
qed

definition flag_word :: "bool \<Rightarrow> 32 word" where
  "flag_word f = (if f then 0xFFFFFFFF else 0)"

lemma blake_F_rfc:
  assumes "length h = 8" "length d = 64"
  shows "blake_F h t (flag_word f) d = rfc_F h d t f"
proof -
  let ?m = "map (\<lambda>i. load32 (drop (i * 4) d)) [0..<16]"
  define v where "v = map (\<lambda>i. h ! i) [0..<8] @ [kIv ! 0, kIv ! 1, kIv ! 2, kIv ! 3,
      of_nat t XOR kIv ! 4, of_nat (t div 2 ^ 32) XOR kIv ! 5, flag_word f XOR kIv ! 6, 0 XOR kIv ! 7]"
  have len: "length v = 16" unfolding v_def by simp
  have "blake_F h t (flag_word f) d =
      (let w = fold (blake_round ?m) [0..<10] v in map (\<lambda>i. h ! i XOR (w ! i XOR w ! (i + 8))) [0..<8])"
    by (simp only: blake_F_def compress_words_def Let_def v_def)
  also have "\<dots> = (let w = fold (rfc_round ?m) [0..<10] v in map (\<lambda>i. h ! i XOR w ! i XOR w ! (i + 8)) [0..<8])"
    using blake_rounds_rfc [OF len, of 10] by (simp only: Let_def xor.assoc)
  also have "\<dots> = rfc_F h d t f"
    unfolding v_def flag_word_def working_words [OF assms(1)] message_words [OF assms(2)]
    by (simp only: rfc_F_def Let_def)
  finally show ?thesis .
qed

lemma length_rfc_F [simp]: "length (rfc_F h d t f) = 8"
  by (simp add: rfc_F_def Let_def)

lemma length_rfc_block [simp]: "length (rfc_block msg i) = 64"
  by (simp add: rfc_block_def)

lemma rfc_block_full: "64 * (i + 1) \<le> length msg \<Longrightarrow> rfc_block msg i = take 64 (drop (64 * i) msg)"
  by (rule nth_equalityI) (auto simp: rfc_block_def simp del: upt_rec_numeral)

lemma rfc_block_last:
  "length msg \<le> 64 * (i + 1) \<Longrightarrow>
   rfc_block msg i = drop (64 * i) msg @ replicate (64 - length (drop (64 * i) msg)) 0"
  by (rule nth_equalityI) (auto simp: rfc_block_def nth_append simp del: upt_rec_numeral)

text \<open>The code holds back the last block; the RFC counts the blocks beforehand.\<close>

lemma rfc_dd_more: "64 * (k + 1) < length msg \<longleftrightarrow> k < rfc_dd msg - 1"
proof -
  have "k + 2 \<le> (length msg + 63) div 64 \<longleftrightarrow> (k + 2) * 64 \<le> length msg + 63"
    by (simp only: less_eq_div_iff_mult_less_eq)
  then have "64 * (k + 1) < length msg \<longleftrightarrow> k + 1 < (length msg + 63) div 64" by auto
  then show ?thesis by (auto simp: rfc_dd_def)
qed

lemma blake_ref_rfc:
  "length h = 8 \<Longrightarrow> k \<le> rfc_dd msg - 1 \<Longrightarrow>
   blake_ref h (64 * k) (drop (64 * k) msg) =
     rfc_F (fold (\<lambda>i h. rfc_F h (rfc_block msg i) (64 * (i + 1)) False) [k..<rfc_dd msg - 1] h)
       (rfc_block msg (rfc_dd msg - 1)) (length msg) True"
proof (induction "rfc_dd msg - 1 - k" arbitrary: h k)
  case 0
  then have k: "k = rfc_dd msg - 1" by simp
  then have small: "length msg \<le> 64 * (k + 1)" using rfc_dd_more [of k msg] by linarith
  have le: "64 * k \<le> length msg"
    using rfc_dd_more [of "k - 1" msg] k by (cases k) (auto simp: not_less)
  have "blake_ref h (64 * k) (drop (64 * k) msg) =
      blake_F h (64 * k + length (drop (64 * k) msg)) (flag_word True) (rfc_block msg k)"
  proof -
    have "\<not> 64 < length (drop (64 * k) msg)" using small by simp
    then show ?thesis
      unfolding rfc_block_last [OF small] flag_word_def by (subst blake_ref.simps) (simp only: if_False if_True)
  qed
  also have "\<dots> = rfc_F h (rfc_block msg k) (length msg) True"
    using le by (simp add: blake_F_rfc [OF "0.prems"(1) length_rfc_block] del: upt_rec_numeral)
  finally show ?case by (simp add: k)
next
  case (Suc n)
  then have k: "k < rfc_dd msg - 1" by simp
  then have more: "64 * (k + 1) < length msg" by (simp only: rfc_dd_more)
  let ?h = "rfc_F h (rfc_block msg k) (64 * (k + 1)) False"
  have full: "take 64 (drop (64 * k) msg) = rfc_block msg k" using more by (simp add: rfc_block_full)
  have "blake_ref h (64 * k) (drop (64 * k) msg) =
      blake_ref (blake_F h (64 * k + 64) 0 (rfc_block msg k)) (64 * k + 64) (drop 64 (drop (64 * k) msg))"
  proof -
    have "64 < length (drop (64 * k) msg)" using more by simp
    then show ?thesis by (subst blake_ref.simps) (simp only: if_True full)
  qed
  also have "blake_F h (64 * k + 64) 0 (rfc_block msg k) = ?h"
    using blake_F_rfc [of h "rfc_block msg k" "64 * (k + 1)" False] Suc.prems
    by (simp add: flag_word_def add.commute)
  also have "blake_ref ?h (64 * k + 64) (drop 64 (drop (64 * k) msg)) = blake_ref ?h (64 * Suc k) (drop (64 * Suc k) msg)"
    by (simp add: add.commute)
  also have "\<dots> = rfc_F (fold (\<lambda>i h. rfc_F h (rfc_block msg i) (64 * (i + 1)) False) [Suc k..<rfc_dd msg - 1] ?h)
       (rfc_block msg (rfc_dd msg - 1)) (length msg) True"
    by (rule Suc.hyps(1)) (use Suc in auto)
  finally show ?case by (simp only: upt_conv_Cons [OF k] fold_simps comp_apply)
qed

lemma store_words_num: "length h = 8 \<Longrightarrow> store_words h = concat (map (\<lambda>w. num_le 4 (unat w)) h)"
proof -
  assume len: "length h = 8"
  have "map (\<lambda>i. store32 (h ! i)) [0..<8] = map store32 (map (\<lambda>i. h ! i) [0..<length h])"
    by (simp only: len map_map comp_def)
  then show ?thesis by (simp only: store_words_def map_nth store32_num [abs_def])
qed

lemma start_words: "kIv[0 := kIv ! 0 XOR param_word nn kk] = rfc_h0 kk nn"
  by (simp add: rfc_h0_def param_word_def kIv_rfc Let_def xor.assoc push_bit_eq_mult mult.commute)

lemma blake2s_spec_ref:
  "blake2s_spec nn key m =
     take nn (store_words (blake_ref (kIv[0 := kIv ! 0 XOR param_word nn (length key)]) 0 (key_block key @ m)))"
  unfolding start_words blake2s_spec_def Let_def
  using blake_ref_rfc [of "rfc_h0 (length key) nn" 0 "key_block key @ m"]
  by (subst store_words_num) (simp_all add: rfc_h0_def rfc_IV_def Let_def)

subsection \<open>Buffering\<close>

definition blake_ok :: "blake2s_state \<Rightarrow> bool" where
  "blake_ok s \<longleftrightarrow> length (b_buf s) \<le> 64"

lemma blake_step_buf [simp]:
  "b_buf (blake2s_compress s block) = b_buf s" "b_buf (increment_counter k s) = b_buf s"
  "b_out_len (blake2s_compress s block) = b_out_len s" "b_out_len (increment_counter k s) = b_out_len s"
  by (simp_all add: blake2s_compress_def increment_counter_def Let_def)

lemma blake_blocks_short: "length data \<le> 64 \<Longrightarrow> blake_blocks s data = (s, data)"
  by (simp add: blake_blocks.simps)

lemma blake_blocks_rest: "length (snd (blake_blocks s data)) \<le> 64"
  by (induction s data rule: blake_blocks.induct) (simp add: blake_blocks.simps)

lemma blake_blocks_buf [simp]:
  "b_buf (fst (blake_blocks s data)) = b_buf s" "b_out_len (fst (blake_blocks s data)) = b_out_len s"
  by (induction s data rule: blake_blocks.induct) (simp_all add: blake_blocks.simps)

lemma blake_blocks_append:
  "blake_blocks s (a @ b) = (case blake_blocks s a of (s', r) \<Rightarrow> blake_blocks s' (r @ b))"
proof (induction s a rule: blake_blocks.induct)
  case (1 s a)
  show ?case
  proof (cases "64 < length a")
    case True
    with 1 show ?thesis by (simp add: blake_blocks.simps [of s a] blake_blocks.simps [of s "a @ b"])
  next
    case False
    then show ?thesis by (simp add: blake_blocks_short)
  qed
qed

text \<open>Both branches of \<open>update\<close> are one loop over the buffered bytes followed by the new ones.\<close>

lemma blake2s_update_blocks:
  assumes "blake_ok s"
  shows "blake2s_update s data =
    (case blake_blocks (s\<lparr>b_buf := []\<rparr>) (b_buf s @ data) of (s', rest) \<Rightarrow> s'\<lparr>b_buf := rest\<rparr>)"
proof -
  let ?fill = "64 - length (b_buf s)"
  have le: "length (b_buf s) \<le> 64" using assms by (simp add: blake_ok_def)
  show ?thesis
  proof (cases "?fill < length data")
    case True
    then have gt: "64 < length (b_buf s @ data)" using le by simp
    from True have "data \<noteq> []" by auto
    with True show ?thesis
      using gt le by (simp add: blake2s_update_def blake_blocks.simps [of "s\<lparr>b_buf := []\<rparr>" "b_buf s @ data"] Let_def)
  next
    case False
    then have "length (b_buf s @ data) \<le> 64" using le by simp
    with False show ?thesis by (cases s) (auto simp: blake2s_update_def blake_blocks_short Let_def)
  qed
qed

lemma blake_ok_update: "blake_ok s \<Longrightarrow> blake_ok (blake2s_update s data)"
  using blake_blocks_rest [of "s\<lparr>b_buf := []\<rparr>" "b_buf s @ data"]
  by (auto simp: blake2s_update_blocks blake_ok_def split: prod.splits)

lemma blake2s_update_Nil: "blake2s_update s [] = s"
  by (simp add: blake2s_update_def)

lemma blake2s_update_update:
  assumes "blake_ok s"
  shows "blake2s_update (blake2s_update s a) b = blake2s_update s (a @ b)"
proof -
  obtain s' r where run: "blake_blocks (s\<lparr>b_buf := []\<rparr>) (b_buf s @ a) = (s', r)" by fastforce
  from blake_blocks_buf(1) [of "s\<lparr>b_buf := []\<rparr>" "b_buf s @ a"] run have "b_buf s' = []" by simp
  then have same: "s'\<lparr>b_buf := []\<rparr> = s'" by (cases s') simp
  have "blake2s_update s a = s'\<lparr>b_buf := r\<rparr>" using assms run by (simp add: blake2s_update_blocks)
  moreover have "blake_ok (blake2s_update s a)" by (rule blake_ok_update [OF assms])
  ultimately have "blake2s_update (blake2s_update s a) b =
      (case blake_blocks s' (r @ b) of (s', rest) \<Rightarrow> s'\<lparr>b_buf := rest\<rparr>)"
    by (simp add: blake2s_update_blocks same)
  then show ?thesis
    using assms run blake_blocks_append [of "s\<lparr>b_buf := []\<rparr>" "b_buf s @ a" b]
    by (simp add: blake2s_update_blocks)
qed


interpretation blake: incremental_hash "blake2s_init n" blake2s_update blake_ok
proof unfold_locales
  show "blake_ok (blake2s_init n)"
    by (simp add: blake_ok_def blake2s_init_def blake2s_init_key_def)
qed (simp_all add: blake_ok_update blake2s_update_Nil blake2s_update_update)

subsection \<open>The counter\<close>

definition counts :: "blake2s_state \<Rightarrow> nat \<Rightarrow> bool" where
  "counts s n \<longleftrightarrow> b_t0 s = of_nat n \<and> b_t1 s = of_nat (n div 2 ^ 32) \<and> b_f0 s = 0 \<and> b_f1 s = 0"

lemma carry_mod: "a < m \<Longrightarrow> inc < m \<Longrightarrow> (a + inc) mod m < inc \<longleftrightarrow> m \<le> a + (inc :: nat)"
  by (cases "m \<le> a + inc") (auto simp: mod_if [of "a + inc"])

lemma carry_div: "inc < m \<Longrightarrow> (n + inc) div m = n div m + (if m \<le> n mod m + inc then 1 else (0 :: nat))"
proof -
  assume inc: "inc < m"
  have "a < m \<Longrightarrow> m \<le> a + inc \<Longrightarrow> (a + inc) div m = 1" for a
    using inc by (intro div_nat_eqI) auto
  moreover have "n mod m < m" using inc by simp
  ultimately have "(n mod m + inc) div m = (if m \<le> n mod m + inc then 1 else 0)"
    by auto
  moreover have "(n + inc) div m = n div m + (n mod m + inc) div m"
    using div_add1_eq [of n inc m] inc by simp
  ultimately show ?thesis by simp
qed

lemma carry_word:
  assumes "inc < 2 ^ 32"
  shows "(of_nat n + of_nat inc :: 32 word) < of_nat inc \<longleftrightarrow> 2 ^ 32 \<le> n mod 2 ^ 32 + inc"
proof -
  have "unat (of_nat n + of_nat inc :: 32 word) = (n mod 2 ^ 32 + inc) mod 2 ^ 32"
    by (simp add: unat_word_ariths unat_of_nat take_bit_eq_mod mod_simps)
  moreover have "unat (of_nat inc :: 32 word) = inc"
    using assms by (simp add: unat_of_nat take_bit_eq_mod)
  ultimately show ?thesis
    using carry_mod [of "n mod 2 ^ 32" "2 ^ 32" inc] assms by (simp add: word_less_nat_alt)
qed

lemma counts_increment:
  assumes "counts s n" "inc < 2 ^ 32"
  shows "counts (increment_counter inc s) (n + inc)"
  using assms carry_word [of inc n] carry_div [of inc "2 ^ 32" n]
  by (simp add: counts_def increment_counter_def Let_def add.commute)

lemma increment_h [simp]: "b_h (increment_counter k s) = b_h s"
  by (simp add: increment_counter_def Let_def)

lemma counts_compress [simp]: "counts (blake2s_compress s block) n = counts s n"
  by (simp add: counts_def blake2s_compress_def)

lemma counts_buf [simp]: "counts (s\<lparr>b_buf := x\<rparr>) n = counts s n"
  by (simp add: counts_def)

lemma compress_F: "counts s n \<Longrightarrow> b_h (blake2s_compress s block) = blake_F (b_h s) n 0 block"
  by (simp add: counts_def blake2s_compress_def blake_F_def)

text \<open>Running the loop over a prefix of the message leaves the reference with the rest of it.\<close>

lemma blake_blocks_ref:
  "counts s n \<Longrightarrow> \<exists>k. counts (fst (blake_blocks s data)) k \<and>
     blake_ref (b_h s) n (data @ tail) =
     blake_ref (b_h (fst (blake_blocks s data))) k (snd (blake_blocks s data) @ tail)"
proof (induction s data arbitrary: n rule: blake_blocks.induct)
  case (1 s data)
  show ?case
  proof (cases "64 < length data")
    case True
    let ?s = "blake2s_compress (increment_counter 64 s) (take 64 data)"
    have "counts (increment_counter 64 s) (n + 64)" using "1.prems" by (simp add: counts_increment)
    then have c: "counts ?s (n + 64)" and h: "b_h ?s = blake_F (b_h s) (n + 64) 0 (take 64 data)"
      by (simp_all add: compress_F)
    have "blake_ref (b_h s) n (data @ tail) = blake_ref (b_h ?s) (n + 64) (drop 64 data @ tail)"
      using True by (simp add: h blake_ref.simps [of "b_h s" n])
    with "1.IH" [OF True c] True show ?thesis by (simp add: blake_blocks.simps [of s data])
  next
    case False
    with "1.prems" show ?thesis by (auto simp: blake_blocks_short)
  qed
qed

lemma blake2s_final_ref:
  assumes "counts s n" "blake_ok s"
  shows "blake2s_final s = take (b_out_len s) (store_words (blake_ref (b_h s) n (b_buf s)))"
proof -
  have le: "length (b_buf s) \<le> 64" using assms(2) by (simp add: blake_ok_def)
  have "counts (increment_counter (length (b_buf s)) s) (n + length (b_buf s))"
    using assms(1) le by (simp add: counts_increment)
  then show ?thesis
    using le by (simp add: blake2s_final_def Let_def counts_def blake2s_compress_def blake_ref.simps blake_F_def)
qed

lemma blake2s_stream:
  assumes "counts s n" "blake_ok s"
  shows "blake2s_final (blake2s_update s data) =
    take (b_out_len s) (store_words (blake_ref (b_h s) n (b_buf s @ data)))"
proof -
  obtain s' r where run: "blake_blocks (s\<lparr>b_buf := []\<rparr>) (b_buf s @ data) = (s', r)" by fastforce
  have upd: "blake2s_update s data = s'\<lparr>b_buf := r\<rparr>" using assms(2) run by (simp add: blake2s_update_blocks)
  have out: "b_out_len s' = b_out_len s" using run blake_blocks_buf(2) [of "s\<lparr>b_buf := []\<rparr>" "b_buf s @ data"] by simp
  have "counts (s\<lparr>b_buf := []\<rparr>) n" using assms(1) by simp
  from blake_blocks_ref [OF this, of "b_buf s @ data" "[]"] run
  obtain k where "counts s' k" "blake_ref (b_h s) n (b_buf s @ data) = blake_ref (b_h s') k r" by auto
  moreover have "blake_ok (s'\<lparr>b_buf := r\<rparr>)" using blake_ok_update [OF assms(2), of data] upd by simp
  ultimately show ?thesis by (simp add: upd blake2s_final_ref out)
qed

lemma key_state:
  "blake2s_init_key n key = blake2s_update
     \<lparr>b_h = kIv[0 := kIv ! 0 XOR param_word n (length key)], b_t0 = 0, b_t1 = 0, b_f0 = 0, b_f1 = 0,
      b_buf = [], b_out_len = n\<rparr> (key_block key)"
  by (simp add: blake2s_init_key_def key_block_def blake2s_update_Nil Let_def)

lemma blake2s_key_stream:
  "blake2s_final (blake2s_update (blake2s_init_key n key) data) = blake2s_spec n key data"
proof -
  let ?s = "\<lparr>b_h = kIv[0 := kIv ! 0 XOR param_word n (length key)], b_t0 = 0, b_t1 = 0, b_f0 = 0, b_f1 = 0,
      b_buf = [], b_out_len = n\<rparr>"
  have ok: "blake_ok ?s" "counts ?s 0" by (simp_all add: blake_ok_def counts_def)
  then show ?thesis
    by (simp add: key_state blake2s_update_update blake2s_stream blake2s_spec_ref)
qed

lemma blake2s_eq_spec: "blake2s n key data = blake2s_spec n key data"
  by (simp add: blake2s_def blake2s_key_stream)

lemma blake2s_two_updates:
  "blake2s_final (blake2s_update (blake2s_update (blake2s_init n) a) b) = blake2s_spec n [] (a @ b)"
  using blake.feed_feed [OF blake.ok_init] blake2s_key_stream [of n "[]"] by (simp add: blake2s_init_def)

lemma xor_pads: "(b XOR x) XOR (x XOR y) = (b XOR y :: byte)"
  by (metis xor.assoc xor.left_neutral xor_self_eq)

lemma blake2s_hmac_spec: "blake2s_hmac key data = hmac_spec key data"
proof -
  have "map (\<lambda>b. b XOR (0x36 XOR 0x5c)) (map (\<lambda>b. b XOR 0x36) k) = map (\<lambda>b. b XOR 0x5c) k" for k :: bytes
    by (simp only: map_map o_def xor_pads)
  then show ?thesis
    by (simp only: blake2s_hmac_def hmac_spec_def hmac_block_def blake2s_eq_spec blake2s_two_updates Let_def)
qed

lemma length_store_words [simp]: "length (store_words h) = 32"
  by (simp add: store_words_def store32_def length_concat sum_list_triv o_def)

lemma length_blake2s_spec: "n \<le> 32 \<Longrightarrow> length (blake2s_spec n key m) = n"
  by (simp add: blake2s_spec_ref)

lemma length_hmac [simp]: "length (blake2s_hmac key data) = 32"
  by (simp add: blake2s_hmac_spec hmac_spec_def length_blake2s_spec Let_def)


subsection \<open>Properties\<close>

text \<open>C17: the BLAKE2s object of the code computes RFC 7693, here written out on its own (mixing
  function, initialisation vector, message schedule, parameter block, counter, last-block flag):
  fed any sequence of pieces, empty ones included, and finalised, it gives the RFC's hash of their
  concatenation.  So the compression, the block held back, the carry between the two counter words
  and the key block are right for every length; and the HMAC of the handshake is that of RFC 2104
  over this hash.\<close>

theorem blake2s_is_rfc7693:
  "blake2s_final (fold (\<lambda>d s. blake2s_update s d) ds (blake2s_init n)) = blake2s_spec n [] (concat ds) \<and>
   blake2s n key m = blake2s_spec n key m \<and> blake2s_hmac key m = hmac_spec key m"
  using blake.feed_all_init [of ds] blake2s_key_stream [of n "[]" "concat ds"]
  by (simp add: blake2s_init_def blake2s_eq_spec blake2s_hmac_spec)

end
