(* ===== verification/ChachaPoly.thy ===== *)
theory ChachaPoly
  imports Blake2s
begin

text \<open>
  The authenticated encryption of WireGuard, \<open>source/net/wg/chacha20poly1305.c\<close>: ChaCha20
  (the block function and the xor loop), Poly1305 in five limbs of 26 bits (\<open>poly1305_ctx\<close> is
  the C struct, its buffer the first \<open>leftover\<close> bytes), and the AEAD that combines them.  Words
  keep their width: limbs are 32-bit words, products 64-bit words, and the lemmas of
  \<open>Poly1305\<close> show that nothing overflows.  \<open>chacha20poly1305_decrypt\<close> returns \<open>None\<close> where the
  code returns 0 without writing.
\<close>

subsection \<open>ChaCha20\<close>

definition rotl32 :: "32 word \<Rightarrow> nat \<Rightarrow> 32 word" where
  "rotl32 x n = push_bit n x OR drop_bit (32 - n) x"

definition quarterround :: "nat \<times> nat \<times> nat \<times> nat \<Rightarrow> 32 word list \<Rightarrow> 32 word list" where
  "quarterround ix x =
     (let (ia, ib, ic, id) = ix;
          a = x ! ia; b = x ! ib; c = x ! ic; d = x ! id;
          a = a + b; d = d XOR a; d = rotl32 d 16;
          c = c + d; b = b XOR c; b = rotl32 b 12;
          a = a + b; d = d XOR a; d = rotl32 d 8;
          c = c + d; b = b XOR c; b = rotl32 b 7
      in x[ia := a, ib := b, ic := c, id := d])"

definition double_round :: "32 word list \<Rightarrow> 32 word list" where
  "double_round x =
     (let x = quarterround (0, 4, 8, 12) x;
          x = quarterround (1, 5, 9, 13) x;
          x = quarterround (2, 6, 10, 14) x;
          x = quarterround (3, 7, 11, 15) x;
          x = quarterround (0, 5, 10, 15) x;
          x = quarterround (1, 6, 11, 12) x;
          x = quarterround (2, 7, 8, 13) x
      in quarterround (3, 4, 9, 14) x)"

definition chacha20_block :: "32 word list \<Rightarrow> bytes" where
  "chacha20_block state =
     (let x = (double_round ^^ 10) state
      in concat (map (\<lambda>i. store32 (x ! i + state ! i)) [0..<16]))"

definition chacha20_init :: "bytes \<Rightarrow> bytes \<Rightarrow> 32 word \<Rightarrow> 32 word list" where
  "chacha20_init key nonce counter =
     [0x61707865, 0x3320646e, 0x79622d32, 0x6b206574] @
     map (\<lambda>i. load32 (drop (i * 4) key)) [0..<8] @ [counter] @
     map (\<lambda>i. load32 (drop (i * 4) nonce)) [0..<3]"

text \<open>The \<open>while (len > 0)\<close> loop over the input, one block of key stream per 64 bytes.\<close>

function chacha20_loop :: "32 word list \<Rightarrow> bytes \<Rightarrow> bytes" where
  "chacha20_loop state input =
     (if input = [] then []
      else map2 (XOR) (take 64 input) (chacha20_block state) @
           chacha20_loop (state[12 := state ! 12 + 1]) (drop 64 input))"
  by pat_completeness auto
termination
  by (relation "measure (\<lambda>(state, input). length input)") auto

declare chacha20_loop.simps [simp del]

definition chacha20_xor :: "bytes \<Rightarrow> bytes \<Rightarrow> bytes \<Rightarrow> 32 word \<Rightarrow> bytes" where
  "chacha20_xor input key nonce counter = chacha20_loop (chacha20_init key nonce counter) input"

subsection \<open>Poly1305\<close>

record poly1305_ctx =
  p_r :: "32 word list"
  p_h :: "32 word list"
  p_pad :: "32 word list"
  p_buffer :: bytes
  p_final :: bool

definition poly1305_init :: "bytes \<Rightarrow> poly1305_ctx" where
  "poly1305_init key =
     \<lparr>p_r = [load32 key AND 0x3ffffff,
             drop_bit 2 (load32 (drop 3 key)) AND 0x3ffff03,
             drop_bit 4 (load32 (drop 6 key)) AND 0x3ffc0ff,
             drop_bit 6 (load32 (drop 9 key)) AND 0x3f03fff,
             drop_bit 8 (load32 (drop 12 key)) AND 0x00fffff],
      p_h = [0, 0, 0, 0, 0],
      p_pad = map (\<lambda>i. load32 (drop (16 + i * 4) key)) [0..<4],
      p_buffer = [], p_final = False\<rparr>"

text \<open>One iteration of \<open>poly1305_blocks\<close>: add the block's limbs, multiply by \<open>r\<close> folding the
  high products back with a factor of five, and propagate the carries.\<close>

definition poly_add :: "32 word \<Rightarrow> bytes \<Rightarrow> 32 word list \<Rightarrow> 32 word list" where
  "poly_add hibit m h =
     [h ! 0 + (load32 m AND 0x3ffffff),
      h ! 1 + (drop_bit 2 (load32 (drop 3 m)) AND 0x3ffffff),
      h ! 2 + (drop_bit 4 (load32 (drop 6 m)) AND 0x3ffffff),
      h ! 3 + (drop_bit 6 (load32 (drop 9 m)) AND 0x3ffffff),
      h ! 4 + (drop_bit 8 (load32 (drop 12 m)) OR hibit)]"

definition mul64 :: "32 word \<Rightarrow> 32 word \<Rightarrow> 64 word" where
  "mul64 a b = ucast a * ucast b"

definition poly_mul :: "32 word list \<Rightarrow> 32 word list \<Rightarrow> 64 word list" where
  "poly_mul r h =
     (let r0 = r ! 0; r1 = r ! 1; r2 = r ! 2; r3 = r ! 3; r4 = r ! 4;
          s1 = r1 * 5; s2 = r2 * 5; s3 = r3 * 5; s4 = r4 * 5;
          h0 = h ! 0; h1 = h ! 1; h2 = h ! 2; h3 = h ! 3; h4 = h ! 4
      in [mul64 h0 r0 + mul64 h1 s4 + mul64 h2 s3 + mul64 h3 s2 + mul64 h4 s1,
          mul64 h0 r1 + mul64 h1 r0 + mul64 h2 s4 + mul64 h3 s3 + mul64 h4 s2,
          mul64 h0 r2 + mul64 h1 r1 + mul64 h2 r0 + mul64 h3 s4 + mul64 h4 s3,
          mul64 h0 r3 + mul64 h1 r2 + mul64 h2 r1 + mul64 h3 r0 + mul64 h4 s4,
          mul64 h0 r4 + mul64 h1 r3 + mul64 h2 r2 + mul64 h3 r1 + mul64 h4 r0])"

definition poly_carry :: "64 word list \<Rightarrow> 32 word list" where
  "poly_carry d =
     (let d0 = d ! 0;
          c = (ucast (drop_bit 26 d0) :: 32 word); h0 = (ucast d0 :: 32 word) AND 0x3ffffff;
          d1 = d ! 1 + ucast c;
          c = (ucast (drop_bit 26 d1) :: 32 word); h1 = (ucast d1 :: 32 word) AND 0x3ffffff;
          d2 = d ! 2 + ucast c;
          c = (ucast (drop_bit 26 d2) :: 32 word); h2 = (ucast d2 :: 32 word) AND 0x3ffffff;
          d3 = d ! 3 + ucast c;
          c = (ucast (drop_bit 26 d3) :: 32 word); h3 = (ucast d3 :: 32 word) AND 0x3ffffff;
          d4 = d ! 4 + ucast c;
          c = (ucast (drop_bit 26 d4) :: 32 word); h4 = (ucast d4 :: 32 word) AND 0x3ffffff;
          h0 = h0 + c * 5;
          c = drop_bit 26 h0; h0 = h0 AND 0x3ffffff;
          h1 = h1 + c
      in [h0, h1, h2, h3, h4])"

text \<open>The \<open>while (bytes >= 16)\<close> loop; callers pass whole blocks.\<close>

function poly_loop :: "32 word \<Rightarrow> 32 word list \<Rightarrow> 32 word list \<Rightarrow> bytes \<Rightarrow> 32 word list" where
  "poly_loop hibit r h m =
     (if 16 \<le> length m
      then poly_loop hibit r (poly_carry (poly_mul r (poly_add hibit (take 16 m) h))) (drop 16 m)
      else h)"
  by pat_completeness auto
termination
  by (relation "measure (\<lambda>(hibit, r, h, m). length m)") auto

declare poly_loop.simps [simp del]

definition poly1305_blocks :: "poly1305_ctx \<Rightarrow> bytes \<Rightarrow> poly1305_ctx" where
  "poly1305_blocks ctx m =
     (let hibit = (if p_final ctx then 0 else push_bit 24 1)
      in ctx\<lparr>p_h := poly_loop hibit (p_r ctx) (p_h ctx) m\<rparr>)"

text \<open>\<open>poly1305_update\<close>: complete the pending block first, then the whole blocks, then keep the
  rest.  The second half is the code after the first \<open>if\<close>.\<close>

definition poly_update_rest :: "poly1305_ctx \<Rightarrow> bytes \<Rightarrow> poly1305_ctx" where
  "poly_update_rest ctx m =
     (let want = length m div 16 * 16;
          ctx = (if 16 \<le> length m then poly1305_blocks ctx (take want m) else ctx);
          m = (if 16 \<le> length m then drop want m else m)
      in if 0 < length m then ctx\<lparr>p_buffer := p_buffer ctx @ m\<rparr> else ctx)"

definition poly1305_update :: "poly1305_ctx \<Rightarrow> bytes \<Rightarrow> poly1305_ctx" where
  "poly1305_update ctx m =
     (if 0 < length (p_buffer ctx) then
        let want = 16 - length (p_buffer ctx);
            want = (if length m < want then length m else want);
            ctx = ctx\<lparr>p_buffer := p_buffer ctx @ take want m\<rparr>
        in if length (p_buffer ctx) < 16 then ctx
           else poly_update_rest ((poly1305_blocks ctx (p_buffer ctx))\<lparr>p_buffer := []\<rparr>) (drop want m)
      else poly_update_rest ctx m)"

subsection \<open>The tag\<close>

text \<open>The full carry of \<open>poly1305_finish\<close>, the choice between \<open>h\<close> and \<open>h - p\<close>, and the way back
  to four 32-bit words.\<close>

definition finish_carry :: "32 word list \<Rightarrow> 32 word list" where
  "finish_carry h =
     (let h0 = h ! 0; h1 = h ! 1; h2 = h ! 2; h3 = h ! 3; h4 = h ! 4;
          c = drop_bit 26 h1; h1 = h1 AND 0x3ffffff;
          h2 = h2 + c; c = drop_bit 26 h2; h2 = h2 AND 0x3ffffff;
          h3 = h3 + c; c = drop_bit 26 h3; h3 = h3 AND 0x3ffffff;
          h4 = h4 + c; c = drop_bit 26 h4; h4 = h4 AND 0x3ffffff;
          h0 = h0 + c * 5; c = drop_bit 26 h0; h0 = h0 AND 0x3ffffff;
          h1 = h1 + c
      in [h0, h1, h2, h3, h4])"

definition finish_sub :: "32 word list \<Rightarrow> 32 word list" where
  "finish_sub h =
     (let g0 = h ! 0 + 5; c = drop_bit 26 g0; g0 = g0 AND 0x3ffffff;
          g1 = h ! 1 + c; c = drop_bit 26 g1; g1 = g1 AND 0x3ffffff;
          g2 = h ! 2 + c; c = drop_bit 26 g2; g2 = g2 AND 0x3ffffff;
          g3 = h ! 3 + c; c = drop_bit 26 g3; g3 = g3 AND 0x3ffffff;
          g4 = h ! 4 + c - push_bit 26 1
      in [g0, g1, g2, g3, g4])"

definition finish_select :: "32 word list \<Rightarrow> 32 word list \<Rightarrow> 32 word list" where
  "finish_select h g =
     (let m = drop_bit 31 (g ! 4) - 1
      in map (\<lambda>i. (h ! i AND NOT m) OR (g ! i AND m)) [0..<5])"

definition finish_words :: "32 word list \<Rightarrow> 32 word list" where
  "finish_words h =
     [h ! 0 OR push_bit 26 (h ! 1),
      drop_bit 6 (h ! 1) OR push_bit 20 (h ! 2),
      drop_bit 12 (h ! 2) OR push_bit 14 (h ! 3),
      drop_bit 18 (h ! 3) OR push_bit 8 (h ! 4)]"

definition finish_pad :: "32 word list \<Rightarrow> 32 word list \<Rightarrow> bytes" where
  "finish_pad w pad =
     (let f = (ucast (w ! 0) :: 64 word) + ucast (pad ! 0); h0 = (ucast f :: 32 word);
          f = ucast (w ! 1) + ucast (pad ! 1) + drop_bit 32 f; h1 = (ucast f :: 32 word);
          f = ucast (w ! 2) + ucast (pad ! 2) + drop_bit 32 f; h2 = (ucast f :: 32 word);
          f = ucast (w ! 3) + ucast (pad ! 3) + drop_bit 32 f; h3 = (ucast f :: 32 word)
      in store32 h0 @ store32 h1 @ store32 h2 @ store32 h3)"

definition poly1305_finish :: "poly1305_ctx \<Rightarrow> bytes" where
  "poly1305_finish ctx =
     (let ctx = (if 0 < length (p_buffer ctx) then
                   let b = p_buffer ctx @ [1];
                       b = b @ replicate (16 - length b) 0
                   in poly1305_blocks (ctx\<lparr>p_buffer := b, p_final := True\<rparr>) b
                 else ctx);
          h = finish_carry (p_h ctx)
      in finish_pad (finish_words (finish_select h (finish_sub h))) (p_pad ctx))"

subsection \<open>The AEAD\<close>

definition poly1305_pad16 :: "poly1305_ctx \<Rightarrow> nat \<Rightarrow> poly1305_ctx" where
  "poly1305_pad16 ctx len =
     (let rem = len mod 16 in if rem \<noteq> 0 then poly1305_update ctx (replicate (16 - rem) 0) else ctx)"

definition le64 :: "64 word \<Rightarrow> bytes" where
  "le64 v = map (\<lambda>i. ucast (drop_bit (8 * i) v)) [0..<8]"

definition poly1305_length :: "poly1305_ctx \<Rightarrow> nat \<Rightarrow> nat \<Rightarrow> poly1305_ctx" where
  "poly1305_length ctx aad_len data_len =
     poly1305_update ctx (le64 (of_nat aad_len) @ le64 (of_nat data_len))"

definition aead_tag :: "bytes \<Rightarrow> bytes \<Rightarrow> bytes \<Rightarrow> bytes" where
  "aead_tag poly_key aad ciphertext =
     (let ctx = poly1305_init poly_key;
          ctx = (if 0 < length aad then poly1305_update ctx aad else ctx);
          ctx = poly1305_pad16 ctx (length aad);
          ctx = (if 0 < length ciphertext then poly1305_update ctx ciphertext else ctx);
          ctx = poly1305_pad16 ctx (length ciphertext);
          ctx = poly1305_length ctx (length aad) (length ciphertext)
      in poly1305_finish ctx)"

definition chacha20poly1305_encrypt :: "bytes \<Rightarrow> bytes \<Rightarrow> bytes \<Rightarrow> bytes \<Rightarrow> bytes \<times> bytes" where
  "chacha20poly1305_encrypt plaintext aad key nonce =
     (let poly_key = chacha20_xor (replicate 64 0) key nonce 0;
          ciphertext = chacha20_xor plaintext key nonce 1
      in (ciphertext, aead_tag poly_key aad ciphertext))"

definition chacha20poly1305_decrypt :: "bytes \<Rightarrow> bytes \<Rightarrow> bytes \<Rightarrow> bytes \<Rightarrow> bytes \<Rightarrow> bytes option" where
  "chacha20poly1305_decrypt ciphertext tag aad key nonce =
     (let poly_key = chacha20_xor (replicate 64 0) key nonce 0;
          expected = aead_tag poly_key aad ciphertext;
          diff = fold (\<lambda>i d. d OR (expected ! i XOR tag ! i)) [0..<16] (0 :: byte)
      in if diff \<noteq> 0 then None else Some (chacha20_xor ciphertext key nonce 1))"

definition chacha20poly1305_nonce :: "64 word \<Rightarrow> bytes" where
  "chacha20poly1305_nonce counter = replicate 4 0 @ le64 counter"


subsection \<open>The stream cipher is its own inverse\<close>

lemma length_store32 [simp]: "length (store32 v) = 4"
  by (simp add: store32_def)

lemma length_chacha20_block [simp]: "length (chacha20_block st) = 64"
  by (simp add: chacha20_block_def length_concat o_def sum_list_triv Let_def)

lemma map2_xor_cancel: "length a \<le> length k \<Longrightarrow> map2 (XOR) (map2 (XOR) a k) k = (a :: bytes)"
proof (induction a k rule: list_induct2')
  case (4 x xs y ys)
  then show ?case by (simp add: xor.assoc)
qed auto

lemma chacha20_loop_Nil [simp]: "chacha20_loop st [] = []"
  by (simp add: chacha20_loop.simps)

lemma length_chacha20_loop [simp]: "length (chacha20_loop st input) = length input"
proof (induction st input rule: chacha20_loop.induct)
  case (1 st input)
  then show ?case by (cases "input = []") (auto simp: chacha20_loop.simps [of st input])
qed

lemma length_chacha20_xor [simp]: "length (chacha20_xor input key nonce counter) = length input"
  by (simp add: chacha20_xor_def)

lemma chacha20_loop_involution: "chacha20_loop st (chacha20_loop st input) = input"
proof (induction st input rule: chacha20_loop.induct)
  case (1 st input)
  show ?case
  proof (cases "input = []")
    case True
    then show ?thesis by simp
  next
    case False
    let ?blk = "map2 (XOR) (take 64 input) (chacha20_block st)"
    let ?rest = "chacha20_loop (st[12 := st ! 12 + 1]) (drop 64 input)"
    have out: "chacha20_loop st input = ?blk @ ?rest"
      using False by (simp add: chacha20_loop.simps [of st input])
    have cut: "take 64 (?blk @ ?rest) = ?blk \<and> drop 64 (?blk @ ?rest) = ?rest"
      by (cases "64 \<le> length input") auto
    have "length (?blk @ ?rest) = length input" by auto
    then have "?blk @ ?rest \<noteq> []" using False by (metis length_0_conv)
    then have "chacha20_loop st (?blk @ ?rest) =
        map2 (XOR) ?blk (chacha20_block st) @ chacha20_loop (st[12 := st ! 12 + 1]) ?rest"
      using cut by (simp only: chacha20_loop.simps [of st "?blk @ ?rest"] if_False)
    also have "map2 (XOR) ?blk (chacha20_block st) = take 64 input"
      by (rule map2_xor_cancel) simp
    finally show ?thesis using "1.IH" [OF False] by (simp add: out)
  qed
qed

lemma chacha20_xor_involution: "chacha20_xor (chacha20_xor input key nonce c) key nonce c = input"
  by (simp add: chacha20_xor_def chacha20_loop_involution)

subsection \<open>The constant-time comparison\<close>

lemma or_eq_0_word: "x OR y = 0 \<longleftrightarrow> x = 0 \<and> y = (0 :: byte)"
  by (auto simp: bit_eq_iff bit_simps)

lemma xor_eq_0_word: "x XOR y = 0 \<longleftrightarrow> x = (y :: byte)"
  by (auto simp: bit_eq_iff bit_simps)

lemma fold_or_eq_0: "fold (\<lambda>i d. d OR f i) is d = (0 :: byte) \<longleftrightarrow> d = 0 \<and> (\<forall>i \<in> set is. f i = 0)"
  by (induction "is" arbitrary: d) (auto simp: or_eq_0_word)

lemma length_finish_pad [simp]: "length (finish_pad w pad) = 16"
  by (simp add: finish_pad_def Let_def)

lemma length_aead_tag [simp]: "length (aead_tag k aad c) = 16"
  by (simp add: aead_tag_def poly1305_finish_def Let_def)

lemma decrypt_eq:
  assumes "length tag = 16"
  shows "chacha20poly1305_decrypt c tag aad key nonce =
    (if tag = aead_tag (chacha20_xor (replicate 64 0) key nonce 0) aad c
     then Some (chacha20_xor c key nonce 1) else None)"
proof -
  let ?e = "aead_tag (chacha20_xor (replicate 64 0) key nonce 0) aad c"
  have "fold (\<lambda>i d. d OR (?e ! i XOR tag ! i)) [0..<16] (0 :: byte) = 0 \<longleftrightarrow> (\<forall>i < 16. ?e ! i = tag ! i)"
    by (auto simp: fold_or_eq_0 xor_eq_0_word simp del: upt_rec_numeral)
  also have "\<dots> \<longleftrightarrow> tag = ?e"
    using assms by (auto simp: list_eq_iff_nth_eq)
  finally show ?thesis by (simp add: chacha20poly1305_decrypt_def Let_def)
qed

lemma aead_roundtrip:
  assumes "chacha20poly1305_encrypt p aad key nonce = (c, tag)"
  shows "chacha20poly1305_decrypt c tag aad key nonce = Some p"
proof -
  from assms have "c = chacha20_xor p key nonce 1"
    "tag = aead_tag (chacha20_xor (replicate 64 0) key nonce 0) aad c"
    by (auto simp: chacha20poly1305_encrypt_def Let_def)
  then show ?thesis by (simp add: decrypt_eq chacha20_xor_involution)
qed

lemma encrypt_lengths:
  assumes "chacha20poly1305_encrypt p aad key nonce = (c, tag)"
  shows "length c = length p" "length tag = 16"
  using assms by (auto simp: chacha20poly1305_encrypt_def Let_def)

lemma le64_length [simp]: "length (le64 v) = 8"
  by (simp add: le64_def)

end
