(* ===== verification/Poly1305.thy ===== *)
theory Poly1305
  imports ChachaPoly
begin

text \<open>
  Poly1305 against its specification.  \<open>poly1305_spec\<close> is RFC 8439 over the natural numbers: an
  accumulator modulo \<open>2^130 - 5\<close>, one multiplication per 16-byte block, and the addition of the
  second half of the key modulo \<open>2^128\<close>.  The lemmas read the five limbs of the code back as one
  number (\<open>limbs\<close>), show that no 32-bit or 64-bit operation overflows under the bounds every
  iteration restores (\<open>h_ok\<close>), and end with \<open>poly1305_eq_spec\<close>: the code's tag is the
  specified one, whatever the pieces the data arrives in.
\<close>

subsection \<open>The specification\<close>

abbreviation P1305 :: nat where
  "P1305 \<equiv> 2 ^ 130 - 5"

definition clamp_r :: "nat \<Rightarrow> nat" where
  "clamp_r r = r AND 0x0ffffffc0ffffffc0ffffffc0fffffff"

function poly_acc :: "nat \<Rightarrow> nat \<Rightarrow> bytes \<Rightarrow> nat" where
  "poly_acc r acc m =
     (if m = [] then acc else poly_acc r ((acc + le_num (take 16 m @ [1])) * r mod P1305) (drop 16 m))"
  by pat_completeness auto
termination
  by (relation "measure (\<lambda>(r, acc, m). length m)") auto

declare poly_acc.simps [simp del]

definition poly1305_spec :: "bytes \<Rightarrow> bytes \<Rightarrow> bytes" where
  "poly1305_spec key m =
     num_le 16 (poly_acc (clamp_r (le_num (take 16 key))) 0 m + le_num (take 16 (drop 16 key)))"

subsection \<open>The words of a block\<close>

lemma bit_load32:
  assumes "k + 4 \<le> length m"
  shows "bit (load32 (drop k m)) n \<longleftrightarrow> n < 32 \<and> bit (le_num m) (8 * k + n)"
proof (cases "n < 32")
  case True
  have nth: "drop k m ! i = m ! (k + i)" for i using assms by simp
  from True consider "n < 8" | "8 \<le> n" "n < 16" | "16 \<le> n" "n < 24" | "24 \<le> n" "n < 32" by linarith
  then have "bit (load32 (drop k m)) n \<longleftrightarrow> bit (m ! (k + n div 8)) (n mod 8)"
  proof cases
    case 1
    then show ?thesis by (auto simp: load32_def nth bit_simps)
  next
    case 2
    then have "n div 8 = 1" "n mod 8 = n - 8" by (auto simp: div_if mod_if)
    with 2 show ?thesis using bit_imp_le_length [of "m ! k" n] by (auto simp: load32_def nth bit_simps)
  next
    case 3
    then have "n div 8 = 2" "n mod 8 = n - 16" by (auto simp: div_if mod_if)
    with 3 show ?thesis by (auto simp: load32_def nth bit_simps dest: bit_imp_le_length)
  next
    case 4
    then have "n div 8 = 3" "n mod 8 = n - 24" by (auto simp: div_if mod_if)
    with 4 show ?thesis by (auto simp: load32_def nth bit_simps dest: bit_imp_le_length)
  qed
  moreover have "8 * k + n < 8 * length m" using True assms by simp
  ultimately show ?thesis using True by (simp add: bit_le_num)
next
  case False
  then show ?thesis using bit_imp_le_length [of "load32 (drop k m)" n] by auto
qed

lemma unat_load32: "k + 4 \<le> length m \<Longrightarrow> unat (load32 (drop k m)) = take_bit 32 (drop_bit (8 * k) (le_num m))"
  by (rule bit_eqI) (simp add: bit_unsigned_iff bit_load32 bit_take_bit_iff bit_drop_bit_eq)

subsection \<open>Limbs\<close>

definition limbs :: "32 word list \<Rightarrow> nat" where
  "limbs h = unat (h ! 0) + 2 ^ 26 * (unat (h ! 1) + 2 ^ 26 * (unat (h ! 2) + 2 ^ 26 * (unat (h ! 3) + 2 ^ 26 * unat (h ! 4))))"

definition chunk :: "nat \<Rightarrow> nat \<Rightarrow> nat" where
  "chunk i n = take_bit 26 (drop_bit (26 * i) n)"

lemma chunk_less: "chunk i n < 2 ^ 26"
  using take_bit_nat_less_exp [of 26] by (simp add: chunk_def)

lemma split_chunks: "n = chunk 0 n + 2 ^ 26 * (chunk 1 n + 2 ^ 26 * (chunk 2 n + 2 ^ 26 * (chunk 3 n + 2 ^ 26 * drop_bit 104 n)))"
proof -
  have step: "drop_bit k n = take_bit 26 (drop_bit k n) + 2 ^ 26 * drop_bit (26 + k) n" for k
    by (simp add: take_bit_eq_mod drop_bit_eq_div power_add div_mult2_eq mult.commute)
  show ?thesis
    using step [of 0] step [of 26] step [of 52] step [of 78] by (simp add: chunk_def)
qed

lemma word_limb:
  assumes "k + 4 \<le> length m" "8 * k + s = 26 * i" "unat c < 2 ^ b" "s + b \<le> 32" "b \<le> 26"
  shows "unat (drop_bit s (load32 (drop k m)) AND c) = chunk i (le_num m) AND unat c"
proof (rule bit_eqI)
  fix n
  have "bit c n \<Longrightarrow> n < b" using less_exp_bit [OF assms(3), of n] by (simp add: bit_unsigned_iff)
  moreover have "bit (le_num m) (8 * k + (s + n)) = bit (le_num m) (26 * i + n)"
    using assms(2) by (metis add.assoc)
  ultimately show "bit (unat (drop_bit s (load32 (drop k m)) AND c)) n = bit (chunk i (le_num m) AND unat c) n"
    using assms(1,4,5) by (auto simp: bit_unsigned_iff bit_and_iff bit_drop_bit_eq bit_take_bit_iff bit_load32 chunk_def)
qed


definition h_ok :: "32 word list \<Rightarrow> bool" where
  "h_ok h \<longleftrightarrow> length h = 5 \<and> unat (h ! 0) < 2 ^ 26 \<and> unat (h ! 1) < 2 ^ 26 + 64 \<and> unat (h ! 2) < 2 ^ 26 \<and>
     unat (h ! 3) < 2 ^ 26 \<and> unat (h ! 4) < 2 ^ 26"

definition r_ok :: "32 word list \<Rightarrow> bool" where
  "r_ok r \<longleftrightarrow> unat (r ! 0) < 2 ^ 26 \<and> unat (r ! 1) < 2 ^ 26 \<and> unat (r ! 2) < 2 ^ 26 \<and>
     unat (r ! 3) < 2 ^ 26 \<and> unat (r ! 4) < 2 ^ 20"

text \<open>A block is added without overflow; the padding bit is the 129th bit.\<close>

definition a_ok :: "32 word list \<Rightarrow> bool" where
  "a_ok h \<longleftrightarrow> unat (h ! 0) < 2 ^ 27 \<and> unat (h ! 1) < 2 ^ 27 + 64 \<and> unat (h ! 2) < 2 ^ 27 \<and>
     unat (h ! 3) < 2 ^ 27 \<and> unat (h ! 4) < 2 ^ 26 + 2 ^ 25"

lemma unat_add32: "unat a + unat b < 2 ^ 32 \<Longrightarrow> unat (a + b :: 32 word) = unat a + unat b"
  using unat_add_lem [of a b] by simp

lemma chunk_all: "chunk i n AND unat (0x3ffffff :: 32 word) = chunk i n"
proof -
  have "chunk i n AND unat (0x3ffffff :: 32 word) = chunk i n AND mask 26"
    by (simp add: mask_eq_exp_minus_1)
  also have "\<dots> = chunk i n" by (simp add: chunk_def take_bit_eq_mask [symmetric] flip: take_bit_eq_mask)
  finally show ?thesis .
qed

lemma top_limb:
  assumes "length m = 16" "hibit = 0 \<or> hibit = push_bit 24 1"
  shows "unat (drop_bit 8 (load32 (drop 12 m)) OR hibit) = drop_bit 104 (le_num m) + unat (hibit :: 32 word)"
    "drop_bit 104 (le_num m) < 2 ^ 24"
proof -
  have le: "le_num m < 2 ^ 128" using le_num_less [of m] assms(1) by simp
  then show top: "drop_bit 104 (le_num m) < 2 ^ 24"
    by (simp add: drop_bit_eq_div less_mult_imp_div_less)
  have small: "n < 24" if "bit (le_num m) (n + 104)" for n
    using less_exp_bit [OF le that] by simp
  have "unat (drop_bit 8 (load32 (drop 12 m))) = drop_bit 104 (le_num m)"
    using assms(1) small
    by (intro bit_eqI) (auto simp: bit_unsigned_iff bit_drop_bit_eq bit_load32 add.commute)
  moreover have "bit (push_bit 24 1 :: 32 word) n \<Longrightarrow> n = 24" for n
    by (simp only: bit_push_bit_iff bit_1_iff) simp
  then have only: "bit hibit n \<Longrightarrow> n = 24" for n using assms(2) by auto
  have "drop_bit 8 w OR hibit = drop_bit 8 w + hibit" for w :: "32 word"
  proof (rule disjunctive_add [symmetric])
    fix n
    have "\<not> bit w 32" using bit_imp_le_length [of w 32] by auto
    then show "\<not> bit (drop_bit 8 w) n \<or> \<not> bit hibit n"
      using only [of n] by (cases "n = 24") (auto simp: bit_drop_bit_eq)
  qed
  ultimately show "unat (drop_bit 8 (load32 (drop 12 m)) OR hibit) = drop_bit 104 (le_num m) + unat hibit"
    using top assms(2) by (subst \<open>\<And>w. drop_bit 8 w OR hibit = drop_bit 8 w + hibit\<close>) (auto simp: unat_add32)
qed

lemma poly_add_value:
  assumes "h_ok h" "length m = 16" "hibit = 0 \<or> hibit = push_bit 24 1"
  shows "a_ok (poly_add hibit m h)"
    "limbs (poly_add hibit m h) = limbs h + le_num m + 2 ^ 104 * unat hibit"
proof -
  let ?a = "poly_add hibit m h" and ?n = "le_num m"
  note l = word_limb [where m = m and c = "0x3ffffff" and b = 26, unfolded chunk_all]
  have lim: "unat (load32 m AND 0x3ffffff) = chunk 0 ?n"
    "unat (drop_bit 2 (load32 (drop 3 m)) AND 0x3ffffff) = chunk 1 ?n"
    "unat (drop_bit 4 (load32 (drop 6 m)) AND 0x3ffffff) = chunk 2 ?n"
    "unat (drop_bit 6 (load32 (drop 9 m)) AND 0x3ffffff) = chunk 3 ?n"
    using l [of 0 0 0] l [of 3 2 1] l [of 6 4 2] l [of 9 6 3] assms(2) by simp_all
  have hib: "unat hibit \<le> 2 ^ 24" using assms(3) by auto
  have v: "unat (?a ! 0) = unat (h ! 0) + chunk 0 ?n" "unat (?a ! 1) = unat (h ! 1) + chunk 1 ?n"
    "unat (?a ! 2) = unat (h ! 2) + chunk 2 ?n" "unat (?a ! 3) = unat (h ! 3) + chunk 3 ?n"
    "unat (?a ! 4) = unat (h ! 4) + (drop_bit 104 ?n + unat hibit)"
    using assms(1) chunk_less [of 0 ?n] chunk_less [of 1 ?n] chunk_less [of 2 ?n] chunk_less [of 3 ?n]
      top_limb [OF assms(2,3)] hib
    by (simp_all add: poly_add_def unat_add32 lim h_ok_def)
  then show "a_ok ?a"
    using assms(1) chunk_less [of 0 ?n] chunk_less [of 1 ?n] chunk_less [of 2 ?n] chunk_less [of 3 ?n]
      top_limb(2) [OF assms(2,3)] hib
    by (simp add: a_ok_def h_ok_def)
  show "limbs ?a = limbs h + ?n + 2 ^ 104 * unat hibit"
    using split_chunks [of ?n] by (simp add: limbs_def v del: One_nat_def)
qed


subsection \<open>The multiplication\<close>

lemma unat_mul64: "unat (mul64 a b) = unat a * unat b"
proof -
  have le: "unat a < 2 ^ 32" "unat b < 2 ^ 32" using unsigned_less [of a] unsigned_less [of b] by simp_all
  then have "unat (ucast a :: 64 word) = unat a" "unat (ucast b :: 64 word) = unat b"
    by (simp_all add: unsigned_ucast_eq take_bit_nat_eq_self_iff)
  moreover have "unat a * unat b < 2 ^ 32 * 2 ^ 32" using le by (intro mult_strict_mono) auto
  ultimately show ?thesis by (simp add: mul64_def unat_word_ariths)
qed

lemma unat_times5: "unat a < 2 ^ 26 \<Longrightarrow> unat (a * 5 :: 32 word) = 5 * unat a"
  by (simp add: unat_word_ariths)

lemma unat_add64: "unat a + unat b < 2 ^ 64 \<Longrightarrow> unat (a + b :: 64 word) = unat a + unat b"
  using unat_add_lem [of a b] by simp

lemma unat_sum5:
  "unat a + unat b + unat c + unat d + unat e < 2 ^ 64 \<Longrightarrow>
   unat (a + b + c + d + e :: 64 word) = unat a + unat b + unat c + unat d + unat e"
  by (simp add: unat_add64)

definition wide :: "64 word list \<Rightarrow> nat" where
  "wide d = unat (d ! 0) + 2 ^ 26 * (unat (d ! 1) + 2 ^ 26 * (unat (d ! 2) + 2 ^ 26 * (unat (d ! 3) + 2 ^ 26 * unat (d ! 4))))"

definition d_ok :: "64 word list \<Rightarrow> bool" where
  "d_ok d \<longleftrightarrow> unat (d ! 0) < 2 ^ 58 - 2 ^ 32 \<and> unat (d ! 1) < 2 ^ 58 - 2 ^ 32 \<and> unat (d ! 2) < 2 ^ 58 - 2 ^ 32 \<and>
     unat (d ! 3) < 2 ^ 58 - 2 ^ 32 \<and> unat (d ! 4) < 2 ^ 55"

lemma times_bound: "a < A \<Longrightarrow> b < C \<Longrightarrow> a * b \<le> A * (C :: nat)"
  by (rule mult_mono) auto

lemma poly_mul_value:
  assumes "a_ok h" "r_ok r"
  defines "a \<equiv> \<lambda>i. unat (h ! i)" and "b \<equiv> \<lambda>i. unat (r ! i)"
  shows "unat (poly_mul r h ! 0) = a 0 * b 0 + a 1 * (5 * b 4) + a 2 * (5 * b 3) + a 3 * (5 * b 2) + a 4 * (5 * b 1)"
    "unat (poly_mul r h ! 1) = a 0 * b 1 + a 1 * b 0 + a 2 * (5 * b 4) + a 3 * (5 * b 3) + a 4 * (5 * b 2)"
    "unat (poly_mul r h ! 2) = a 0 * b 2 + a 1 * b 1 + a 2 * b 0 + a 3 * (5 * b 4) + a 4 * (5 * b 3)"
    "unat (poly_mul r h ! 3) = a 0 * b 3 + a 1 * b 2 + a 2 * b 1 + a 3 * b 0 + a 4 * (5 * b 4)"
    "unat (poly_mul r h ! 4) = a 0 * b 4 + a 1 * b 3 + a 2 * b 2 + a 3 * b 1 + a 4 * b 0"
    "d_ok (poly_mul r h)"
proof -
  have A: "a 0 < 2 ^ 27 + 64" "a 1 < 2 ^ 27 + 64" "a 2 < 2 ^ 27 + 64" "a 3 < 2 ^ 27 + 64" "a 4 < 2 ^ 26 + 2 ^ 25"
    and B: "b 0 < 2 ^ 26" "b 1 < 2 ^ 26" "b 2 < 2 ^ 26" "b 3 < 2 ^ 26" "b 4 < 2 ^ 20"
    using assms(1,2) by (auto simp: a_ok_def r_ok_def a_def b_def)
  note five = unat_times5 [of "r ! 1"] unat_times5 [of "r ! 2"] unat_times5 [of "r ! 3"] unat_times5 [of "r ! 4"]
  have s: "unat (r ! 1 * 5) = 5 * b 1" "unat (r ! 2 * 5) = 5 * b 2" "unat (r ! 3 * 5) = 5 * b 3" "unat (r ! 4 * 5) = 5 * b 4"
    using five B by (simp_all add: b_def)
  have A': "a i < 2 ^ 27 + 64" if "i \<in> {0, 1, 2, 3, 4}" for i using that A by auto
  have B': "b i < 2 ^ 26" if "i \<in> {0, 1, 2, 3, 4}" for i using that B by auto
  have p: "a i * b j \<le> (2 ^ 27 + 64) * 2 ^ 26" if "i \<in> {0, 1, 2, 3, 4}" "j \<in> {0, 1, 2, 3, 4}" for i j
    by (rule times_bound [OF A' [OF that(1)] B' [OF that(2)]])
  note m = poly_mul_def Let_def unat_mul64 s a_def [symmetric] b_def [symmetric]
  show d0: "unat (poly_mul r h ! 0) = a 0 * b 0 + a 1 * (5 * b 4) + a 2 * (5 * b 3) + a 3 * (5 * b 2) + a 4 * (5 * b 1)"
    using p [of 0 0] p [of 1 4] p [of 2 3] p [of 3 2] p [of 4 1]
    by (simp add: m del: One_nat_def, subst unat_sum5) (simp_all add: unat_mul64 s a_def b_def del: One_nat_def)
  show d1: "unat (poly_mul r h ! 1) = a 0 * b 1 + a 1 * b 0 + a 2 * (5 * b 4) + a 3 * (5 * b 3) + a 4 * (5 * b 2)"
    using p [of 0 1] p [of 1 0] p [of 2 4] p [of 3 3] p [of 4 2]
    by (simp add: m del: One_nat_def, subst unat_sum5) (simp_all add: unat_mul64 s a_def b_def del: One_nat_def)
  show d2: "unat (poly_mul r h ! 2) = a 0 * b 2 + a 1 * b 1 + a 2 * b 0 + a 3 * (5 * b 4) + a 4 * (5 * b 3)"
    using p [of 0 2] p [of 1 1] p [of 2 0] p [of 3 4] p [of 4 3]
    by (simp add: m del: One_nat_def, subst unat_sum5) (simp_all add: unat_mul64 s a_def b_def del: One_nat_def)
  show d3: "unat (poly_mul r h ! 3) = a 0 * b 3 + a 1 * b 2 + a 2 * b 1 + a 3 * b 0 + a 4 * (5 * b 4)"
    using p [of 0 3] p [of 1 2] p [of 2 1] p [of 3 0] p [of 4 4]
    by (simp add: m del: One_nat_def, subst unat_sum5) (simp_all add: unat_mul64 s a_def b_def del: One_nat_def)
  show d4: "unat (poly_mul r h ! 4) = a 0 * b 4 + a 1 * b 3 + a 2 * b 2 + a 3 * b 1 + a 4 * b 0"
    using p [of 0 4] p [of 1 3] p [of 2 2] p [of 3 1] p [of 4 0]
    by (simp add: m del: One_nat_def, subst unat_sum5) (simp_all add: unat_mul64 s a_def b_def del: One_nat_def)
  have "a 0 * b 4 \<le> (2 ^ 27 + 64) * 2 ^ 20" by (rule times_bound [OF A(1) B(5)])
  moreover have "a 4 * b 0 \<le> (2 ^ 26 + 2 ^ 25) * 2 ^ 26" by (rule times_bound [OF A(5) B(1)])
  ultimately have "unat (poly_mul r h ! 4) < 2 ^ 55"
    unfolding d4 using p [of 1 3] p [of 2 2] p [of 3 1] by (simp del: One_nat_def)
  moreover have "unat (poly_mul r h ! 0) < 2 ^ 58 - 2 ^ 32"
    unfolding d0 using p [of 0 0] p [of 1 4] p [of 2 3] p [of 3 2] p [of 4 1] by (simp del: One_nat_def)
  moreover have "unat (poly_mul r h ! 1) < 2 ^ 58 - 2 ^ 32"
    unfolding d1 using p [of 0 1] p [of 1 0] p [of 2 4] p [of 3 3] p [of 4 2] by (simp del: One_nat_def)
  moreover have "unat (poly_mul r h ! 2) < 2 ^ 58 - 2 ^ 32"
    unfolding d2 using p [of 0 2] p [of 1 1] p [of 2 0] p [of 3 4] p [of 4 3] by (simp del: One_nat_def)
  moreover have "unat (poly_mul r h ! 3) < 2 ^ 58 - 2 ^ 32"
    unfolding d3 using p [of 0 3] p [of 1 2] p [of 2 1] p [of 3 0] p [of 4 4] by (simp del: One_nat_def)
  ultimately show "d_ok (poly_mul r h)" by (simp add: d_ok_def)
qed


text \<open>Modulo \<open>2^130 - 5\<close> the five column sums are the product.\<close>

lemma wide_mod:
  fixes a0 a1 a2 a3 a4 b0 b1 b2 b3 b4 :: nat
  shows "(a0 + 2^26 * (a1 + 2^26 * (a2 + 2^26 * (a3 + 2^26 * a4)))) * (b0 + 2^26 * (b1 + 2^26 * (b2 + 2^26 * (b3 + 2^26 * b4)))) =
   (a0 * b0 + a1 * (5 * b4) + a2 * (5 * b3) + a3 * (5 * b2) + a4 * (5 * b1)) +
   2^26 * ((a0 * b1 + a1 * b0 + a2 * (5 * b4) + a3 * (5 * b3) + a4 * (5 * b2)) +
   2^26 * ((a0 * b2 + a1 * b1 + a2 * b0 + a3 * (5 * b4) + a4 * (5 * b3)) +
   2^26 * ((a0 * b3 + a1 * b2 + a2 * b1 + a3 * b0 + a4 * (5 * b4)) +
   2^26 * (a0 * b4 + a1 * b3 + a2 * b2 + a3 * b1 + a4 * b0)))) +
   P1305 * ((a1 * b4 + a2 * b3 + a3 * b2 + a4 * b1) + 2^26 * ((a2 * b4 + a3 * b3 + a4 * b2) +
     2^26 * ((a3 * b4 + a4 * b3) + 2^26 * (a4 * b4))))"
  by (simp add: algebra_simps)

lemma poly_mul_mod:
  assumes "a_ok h" "r_ok r"
  shows "wide (poly_mul r h) mod P1305 = limbs h * limbs r mod P1305"
proof -
  have mod_drop: "x = y + P1305 * k \<Longrightarrow> y mod P1305 = x mod P1305" for x y k :: nat
    by (metis mod_mult_self2)
  show ?thesis
    unfolding wide_def limbs_def poly_mul_value(1-5) [OF assms] by (rule mod_drop [OF wide_mod])
qed

lemma low26: "w AND 0x3ffffff = take_bit 26 (w :: 32 word)"
  by (simp only: take_bit_eq_mask) (simp add: mask_eq_exp_minus_1)

lemma unat_take26: "unat (take_bit 26 w) = unat (w :: 32 word) mod 2 ^ 26"
  by (simp only: unsigned_take_bit_eq) (simp only: take_bit_eq_mod)

lemma unat_low26_32: "unat (w AND 0x3ffffff) = unat (w :: 32 word) mod 2 ^ 26"
  by (simp only: low26 unat_take26)

lemma unat_low26: "unat ((ucast d :: 32 word) AND 0x3ffffff) = unat (d :: 64 word) mod 2 ^ 26"
proof -
  have "unat (ucast d :: 32 word) = unat d mod 2 ^ 32" by (simp add: unsigned_ucast_eq take_bit_eq_mod)
  then show ?thesis by (simp only: unat_low26_32) (simp add: mod_mod_cancel)
qed

lemma unat_high26_32: "unat (drop_bit 26 w) = unat (w :: 32 word) div 2 ^ 26"
  by (simp add: drop_bit_eq_div unat_div_distrib)

lemma unat_high26: "unat d < 2 ^ 58 \<Longrightarrow> unat (ucast (drop_bit 26 d) :: 32 word) = unat (d :: 64 word) div 2 ^ 26"
  by (simp add: unsigned_ucast_eq drop_bit_eq_div unat_div_distrib take_bit_nat_eq_self_iff less_mult_imp_div_less)

lemma unat_less32: "unat (c :: 32 word) < 2 ^ 32"
  using unsigned_less [of c] by simp

lemma unat_up: "unat (ucast (c :: 32 word) :: 64 word) = unat c"
  using unat_less32 [of c] by (simp add: unsigned_ucast_eq take_bit_nat_eq_self_iff)

lemma carry_add:
  assumes "unat d < 2 ^ 58 - 2 ^ 32"
  shows "unat (d + ucast (c :: 32 word) :: 64 word) = unat d + unat c" "unat (d + ucast c) < 2 ^ 58"
proof -
  note unat_less32 [of c]
  then show "unat (d + ucast c) = unat d + unat c" "unat (d + ucast c) < 2 ^ 58"
    using assms by (simp_all add: unat_add64 unat_up)
qed


lemma div_mod_26: "(n :: nat) = n mod 2 ^ 26 + 2 ^ 26 * (n div 2 ^ 26)" "n mod 2 ^ 26 < 2 ^ 26"
  by simp_all

lemma carry_sum:
  fixes x0 :: nat
  assumes "x0 = m0 + 2 ^ 26 * c0" "x1 + c0 = m1 + 2 ^ 26 * c1" "x2 + c1 = m2 + 2 ^ 26 * c2"
    "x3 + c2 = m3 + 2 ^ 26 * c3" "x4 + c3 = m4 + 2 ^ 26 * c4" "m0 + 5 * c4 = n0 + 2 ^ 26 * t"
  shows "x0 + 2 ^ 26 * (x1 + 2 ^ 26 * (x2 + 2 ^ 26 * (x3 + 2 ^ 26 * x4))) =
    n0 + 2 ^ 26 * ((m1 + t) + 2 ^ 26 * (m2 + 2 ^ 26 * (m3 + 2 ^ 26 * m4))) + P1305 * c4"
  using assms by simp

lemma poly_carry_value:
  assumes "d_ok d"
  shows "h_ok (poly_carry d)" "limbs (poly_carry d) mod P1305 = wide d mod P1305"
proof -
  define c0 :: "32 word" where "c0 = ucast (drop_bit 26 (d ! 0))"
  define d1 where "d1 = d ! 1 + ucast c0"
  define c1 :: "32 word" where "c1 = ucast (drop_bit 26 d1)"
  define d2 where "d2 = d ! 2 + ucast c1"
  define c2 :: "32 word" where "c2 = ucast (drop_bit 26 d2)"
  define d3 where "d3 = d ! 3 + ucast c2"
  define c3 :: "32 word" where "c3 = ucast (drop_bit 26 d3)"
  define d4 where "d4 = d ! 4 + ucast c3"
  define c4 :: "32 word" where "c4 = ucast (drop_bit 26 d4)"
  define e0 where "e0 = ((ucast (d ! 0) :: 32 word) AND 0x3ffffff) + c4 * 5"
  have eq: "poly_carry d = [e0 AND 0x3ffffff, ((ucast d1 :: 32 word) AND 0x3ffffff) + drop_bit 26 e0,
      ucast d2 AND 0x3ffffff, ucast d3 AND 0x3ffffff, ucast d4 AND 0x3ffffff]"
    by (simp add: poly_carry_def Let_def c0_def d1_def c1_def d2_def c2_def d3_def c3_def d4_def c4_def e0_def)
  have b: "unat (d ! 0) < 2 ^ 58" "unat (d ! 1) < 2 ^ 58 - 2 ^ 32" "unat (d ! 2) < 2 ^ 58 - 2 ^ 32"
    "unat (d ! 3) < 2 ^ 58 - 2 ^ 32" "unat (d ! 4) < 2 ^ 58 - 2 ^ 32" "unat (d ! 4) < 2 ^ 55"
    using assms by (auto simp: d_ok_def)
  note add = carry_add [OF b(2), of c0] carry_add [OF b(3), of c1] carry_add [OF b(4), of c2] carry_add [OF b(5), of c3]
  have u: "unat d1 = unat (d ! 1) + unat c0" "unat d2 = unat (d ! 2) + unat c1" "unat d3 = unat (d ! 3) + unat c2"
    "unat d4 = unat (d ! 4) + unat c3" "unat d1 < 2 ^ 58" "unat d2 < 2 ^ 58" "unat d3 < 2 ^ 58" "unat d4 < 2 ^ 58"
    using add by (simp_all add: d1_def d2_def d3_def d4_def)
  have c: "unat c0 = unat (d ! 0) div 2 ^ 26" "unat c1 = unat d1 div 2 ^ 26" "unat c2 = unat d2 div 2 ^ 26"
    "unat c3 = unat d3 div 2 ^ 26" "unat c4 = unat d4 div 2 ^ 26"
    using b(1) u(5-8) by (simp_all only: c0_def c1_def c2_def c3_def c4_def unat_high26)
  have small: "unat c4 \<le> 2 ^ 29 + 64"
    using u(4) b(6) unat_less32 [of c3] unfolding c(5) by simp
  then have five: "unat (c4 * 5) = 5 * unat c4" by (simp add: unat_word_ariths)
  have e0: "unat e0 = unat (d ! 0) mod 2 ^ 26 + 5 * unat c4"
    using small by (simp add: e0_def unat_add32 unat_low26 five)
  have top: "unat e0 div 2 ^ 26 < 64" using unat_less32 [of e0] by (simp add: less_mult_imp_div_less)
  have h1: "unat (((ucast d1 :: 32 word) AND 0x3ffffff) + drop_bit 26 e0) = unat d1 mod 2 ^ 26 + unat e0 div 2 ^ 26"
    using top by (simp add: unat_add32 unat_low26 unat_high26_32)
  show "h_ok (poly_carry d)"
    using top by (simp add: h_ok_def eq unat_low26 unat_low26_32 h1)
  have "limbs (poly_carry d) = unat e0 mod 2 ^ 26 + 2 ^ 26 * ((unat d1 mod 2 ^ 26 + unat e0 div 2 ^ 26) +
      2 ^ 26 * (unat d2 mod 2 ^ 26 + 2 ^ 26 * (unat d3 mod 2 ^ 26 + 2 ^ 26 * (unat d4 mod 2 ^ 26))))"
    by (simp add: limbs_def eq unat_low26 unat_low26_32 [of e0] h1)
  then have "wide d = limbs (poly_carry d) + P1305 * unat c4"
    unfolding wide_def
    using carry_sum [OF div_mod_26(1) [of "unat (d ! 0)", folded c(1)] trans [OF u(1) [symmetric] div_mod_26(1) [of "unat d1", folded c(2)]]
        trans [OF u(2) [symmetric] div_mod_26(1) [of "unat d2", folded c(3)]]
        trans [OF u(3) [symmetric] div_mod_26(1) [of "unat d3", folded c(4)]]
        trans [OF u(4) [symmetric] div_mod_26(1) [of "unat d4", folded c(5)]]
        trans [OF e0 [symmetric] div_mod_26(1) [of "unat e0"]]]
    by (simp only:)
  then show "limbs (poly_carry d) mod P1305 = wide d mod P1305" by (metis mod_mult_self2)
qed


lemma poly_step:
  assumes "h_ok h" "r_ok r" "length m = 16" "hibit = 0 \<or> hibit = push_bit 24 1"
  shows "h_ok (poly_carry (poly_mul r (poly_add hibit m h)))"
    "limbs (poly_carry (poly_mul r (poly_add hibit m h))) mod P1305 =
      (limbs h + le_num m + 2 ^ 104 * unat hibit) * limbs r mod P1305"
proof -
  note a = poly_add_value [OF assms(1,3,4)]
  note d = poly_mul_value(6) [OF a(1) assms(2)]
  show "h_ok (poly_carry (poly_mul r (poly_add hibit m h)))" by (rule poly_carry_value(1) [OF d])
  show "limbs (poly_carry (poly_mul r (poly_add hibit m h))) mod P1305 =
      (limbs h + le_num m + 2 ^ 104 * unat hibit) * limbs r mod P1305"
    unfolding poly_carry_value(2) [OF d] poly_mul_mod [OF a(1) assms(2)] a(2) by (rule refl)
qed

subsection \<open>Blocks and pieces\<close>

lemma poly_loop_short: "length m < 16 \<Longrightarrow> poly_loop hibit r h m = h"
  by (simp add: poly_loop.simps)

lemma whole16: "16 \<le> (n :: nat) \<Longrightarrow> n div 16 * 16 = 16 + (n - 16) div 16 * 16"
  by (simp add: le_div_geq)

lemma poly_loop_take: "poly_loop hibit r h (take (length m div 16 * 16) m) = poly_loop hibit r h m"
proof (induction hibit r h m rule: poly_loop.induct)
  case (1 hibit r h m)
  show ?case
  proof (cases "16 \<le> length m")
    case True
    then have n: "length m div 16 * 16 = 16 + length (drop 16 m) div 16 * 16" by (simp add: whole16)
    then have "16 \<le> length (take (length m div 16 * 16) m)" using True by simp
    moreover have "take 16 (take (length m div 16 * 16) m) = take 16 m" using n by simp
    moreover have "drop 16 (take (length m div 16 * 16) m) = take (length (drop 16 m) div 16 * 16) (drop 16 m)"
      using n by (simp add: drop_take)
    ultimately show ?thesis
      using "1.IH" [OF True] True by (simp only: poly_loop.simps [of hibit r h] if_True)
  qed (simp add: poly_loop_short)
qed

lemma poly_loop_append:
  "16 dvd length a \<Longrightarrow> poly_loop hibit r h (a @ b) = poly_loop hibit r (poly_loop hibit r h a) b"
proof (induction hibit r h a rule: poly_loop.induct)
  case (1 hibit r h a)
  show ?case
  proof (cases "16 \<le> length a")
    case True
    then show ?thesis
      using "1.IH" [OF True] "1.prems"
      by (simp add: poly_loop.simps [of hibit r h a] poly_loop.simps [of hibit r h "a @ b"] dvd_minus_self)
  next
    case False
    with "1.prems" have "length a = 0" using dvd_imp_le [of 16 "length a"] by linarith
    then show ?thesis by (simp add: poly_loop_short)
  qed
qed

text \<open>What a context has read: the blocks it folded, then the bytes it still holds.\<close>

definition ctx_ok :: "poly1305_ctx \<Rightarrow> bool" where
  "ctx_ok ctx \<longleftrightarrow> length (p_buffer ctx) < 16 \<and> \<not> p_final ctx"

definition feed_ctx :: "poly1305_ctx \<Rightarrow> bytes \<Rightarrow> poly1305_ctx" where
  "feed_ctx ctx m =
     ctx\<lparr>p_h := poly_loop (push_bit 24 1) (p_r ctx) (p_h ctx) (p_buffer ctx @ m),
         p_buffer := drop (length (p_buffer ctx @ m) div 16 * 16) (p_buffer ctx @ m)\<rparr>"

lemma update_rest_feed:
  assumes "ctx_ok ctx" "p_buffer ctx = []"
  shows "poly_update_rest ctx m = feed_ctx ctx m"
proof (cases "16 \<le> length m")
  case True
  then show ?thesis
    using assms poly_loop_take [of "push_bit 24 1" "p_r ctx" "p_h ctx" m]
    by (cases ctx) (auto simp: poly_update_rest_def feed_ctx_def poly1305_blocks_def ctx_ok_def Let_def)
next
  case False
  then show ?thesis using assms
    by (cases ctx) (auto simp: poly_update_rest_def feed_ctx_def poly_loop_short Let_def)
qed

lemma update_feed:
  assumes "ctx_ok ctx"
  shows "poly1305_update ctx m = feed_ctx ctx m"
proof (cases "p_buffer ctx = []")
  case True
  with assms show ?thesis by (simp add: poly1305_update_def update_rest_feed)
next
  case False
  let ?b = "p_buffer ctx" and ?w = "16 - length (p_buffer ctx)"
  have lt: "length ?b < 16" "\<not> p_final ctx" using assms by (auto simp: ctx_ok_def)
  show ?thesis
  proof (cases "length m < ?w")
    case True
    with False lt show ?thesis
      by (cases ctx) (simp add: poly1305_update_def feed_ctx_def poly_loop_short Let_def)
  next
    case nl: False
    let ?blk = "?b @ take ?w m"
    let ?c = "(poly1305_blocks (ctx\<lparr>p_buffer := ?blk\<rparr>) ?blk)\<lparr>p_buffer := []\<rparr>"
    have len: "length ?blk = 16" using nl lt by simp
    have "poly1305_update ctx m = poly_update_rest ?c (drop ?w m)"
      using False nl len by (simp add: poly1305_update_def Let_def min_def)
    also have "\<dots> = feed_ctx ?c (drop ?w m)"
      by (rule update_rest_feed) (simp_all add: ctx_ok_def poly1305_blocks_def lt)
    also have "\<dots> = feed_ctx ctx m"
    proof -
      have split: "?b @ m = ?blk @ drop ?w m" by simp
      have "length (?b @ m) div 16 * 16 = 16 + length (drop ?w m) div 16 * 16"
        using nl lt whole16 [of "length (?b @ m)"] by simp
      then have "drop (length (?b @ m) div 16 * 16) (?b @ m) = drop (length (drop ?w m) div 16 * 16) (drop ?w m)"
        using len by (subst (2) split) (simp del: append_assoc append_take_drop_id)
      moreover have "poly_loop (push_bit 24 1) r h (?b @ m) =
          poly_loop (push_bit 24 1) r (poly_loop (push_bit 24 1) r h ?blk) (drop ?w m)" for r h
        using len by (subst split, subst poly_loop_append) (simp_all del: append_assoc append_take_drop_id)
      ultimately show ?thesis
        using lt by (cases ctx) (simp add: feed_ctx_def poly1305_blocks_def Let_def)
    qed
    finally show ?thesis .
  qed
qed


definition rest16 :: "bytes \<Rightarrow> bytes" where
  "rest16 m = drop (length m div 16 * 16) m"

lemma rest16_append: "16 dvd length a \<Longrightarrow> rest16 (a @ b) = rest16 b"
  by (auto simp: rest16_def elim!: dvdE)

lemma rest16_length: "length (rest16 m) < 16"
  by (simp add: rest16_def minus_div_mult_eq_mod)

lemma rest16_short: "length m < 16 \<Longrightarrow> rest16 m = m"
  by (simp add: rest16_def)

lemma rest16_split: "\<exists>a. m = a @ rest16 m \<and> 16 dvd length a"
proof (intro exI conjI)
  show "m = take (length m div 16 * 16) m @ rest16 m" by (simp add: rest16_def)
  have "length m div 16 * 16 \<le> length m" by simp
  then show "16 dvd length (take (length m div 16 * 16) m)" by (simp only: length_take min_absorb2) simp
qed

lemma feed_ctx_rest:
  "feed_ctx ctx m = ctx\<lparr>p_h := poly_loop (push_bit 24 1) (p_r ctx) (p_h ctx) (p_buffer ctx @ m),
     p_buffer := rest16 (p_buffer ctx @ m)\<rparr>"
  by (simp add: feed_ctx_def rest16_def)

lemma ctx_ok_feed: "ctx_ok ctx \<Longrightarrow> ctx_ok (feed_ctx ctx m)"
  by (simp add: ctx_ok_def feed_ctx_rest rest16_length)

lemma poly_loop_rest: "poly_loop hibit r h (m @ n) = poly_loop hibit r (poly_loop hibit r h m) (rest16 m @ n)"
proof -
  obtain a where a: "m = a @ rest16 m" "16 dvd length a" using rest16_split by blast
  have "poly_loop hibit r h m = poly_loop hibit r (poly_loop hibit r h a) (rest16 m)"
    using poly_loop_append [OF a(2), of hibit r h "rest16 m"] a(1) by simp
  also have "\<dots> = poly_loop hibit r h a" by (rule poly_loop_short [OF rest16_length])
  finally show ?thesis
    using poly_loop_append [OF a(2), of hibit r h "rest16 m @ n"] a(1) by (metis append_assoc)
qed

lemma rest16_rest: "rest16 (rest16 m @ n) = rest16 (m @ n)"
  using rest16_split [of m] rest16_append by (metis append_assoc)

lemma feed_ctx_feed: "feed_ctx (feed_ctx ctx a) b = feed_ctx ctx (a @ b)"
  using poly_loop_rest [of "push_bit 24 1" "p_r ctx" "p_h ctx" "p_buffer ctx @ a" b]
    rest16_rest [of "p_buffer ctx @ a" b]
  by (simp add: feed_ctx_rest)

lemma feed_ctx_Nil: "ctx_ok ctx \<Longrightarrow> feed_ctx ctx [] = ctx"
  by (cases ctx) (simp add: ctx_ok_def feed_ctx_rest rest16_short poly_loop_short)

interpretation poly: incremental_hash "poly1305_init key" poly1305_update ctx_ok
proof unfold_locales
  show "ctx_ok (poly1305_init key)" by (simp add: ctx_ok_def poly1305_init_def)
qed (simp_all add: update_feed ctx_ok_feed feed_ctx_feed feed_ctx_Nil)

subsection \<open>The accumulator\<close>

lemma poly_acc_Nil [simp]: "poly_acc r acc [] = acc"
  by (simp add: poly_acc.simps)

lemma one_bit_block: "length m = 16 \<Longrightarrow> le_num (m @ [1]) = le_num m + 2 ^ 104 * unat (push_bit 24 1 :: 32 word)"
  by (simp add: le_num_append)

lemma acc_mod: "(a mod p + n) * r mod p = (a + n) * r mod (p :: nat)"
  by (metis mod_add_left_eq mod_mult_left_eq)

lemma poly_loop_acc:
  assumes "r_ok r"
  shows "h_ok h \<Longrightarrow> h_ok (poly_loop (push_bit 24 1) r h m) \<and>
    poly_acc (limbs r) (limbs h mod P1305) m =
    poly_acc (limbs r) (limbs (poly_loop (push_bit 24 1) r h m) mod P1305) (rest16 m)"
proof (induction "length m" arbitrary: m h rule: less_induct)
  case less
  let ?h = "poly_carry (poly_mul r (poly_add (push_bit 24 1) (take 16 m) h))"
  show ?case
  proof (cases "16 \<le> length m")
    case True
    then have len: "length (take 16 m) = 16" by simp
    note step = poly_step [OF less.prems assms len, of "push_bit 24 1", simplified]
    have loop: "poly_loop (push_bit 24 1) r h m = poly_loop (push_bit 24 1) r ?h (drop 16 m)"
      using True by (simp add: poly_loop.simps [of _ r h m])
    have rest: "rest16 (drop 16 m) = rest16 m"
      using rest16_append [of "take 16 m" "drop 16 m"] len by simp
    have "(limbs h mod P1305 + le_num (take 16 m @ [1])) * limbs r mod P1305 = limbs ?h mod P1305"
      using step(2) one_bit_block [OF len] by (simp add: acc_mod add.assoc)
    then have "poly_acc (limbs r) (limbs h mod P1305) m = poly_acc (limbs r) (limbs ?h mod P1305) (drop 16 m)"
      using True by (subst poly_acc.simps) auto
    with less.hyps [of "drop 16 m" ?h] True step(1) show ?thesis
      unfolding loop by (simp add: rest)
  qed (simp add: poly_loop_short rest16_short less.prems)
qed

lemma feed_acc:
  assumes "r_ok (p_r ctx)" "h_ok (p_h ctx)"
  shows "h_ok (p_h (feed_ctx ctx m))"
    "poly_acc (limbs (p_r ctx)) (limbs (p_h ctx) mod P1305) (p_buffer ctx @ m) =
     poly_acc (limbs (p_r ctx)) (limbs (p_h (feed_ctx ctx m)) mod P1305) (p_buffer (feed_ctx ctx m))"
  using poly_loop_acc [OF assms, of "p_buffer ctx @ m"] by (simp_all add: feed_ctx_rest)

text \<open>The last, partial block: a one byte, zeros, and no 129th bit.\<close>

lemma last_block:
  assumes "r_ok r" "h_ok h" "b \<noteq> []" "length b < 16"
  defines "h' \<equiv> poly_loop 0 r h (b @ 1 # replicate (15 - length b) 0)"
  shows "h_ok h'" "limbs h' mod P1305 = poly_acc (limbs r) (limbs h mod P1305) b"
proof -
  let ?m = "b @ 1 # replicate (15 - length b) 0"
  have len: "length ?m = 16" using assms(4) by simp
  have h': "h' = poly_carry (poly_mul r (poly_add 0 ?m h))"
    unfolding h'_def using len by (simp add: poly_loop.simps [of 0 r h] poly_loop_short)
  note step = poly_step [OF assms(2,1) len, of 0, simplified]
  show "h_ok h'" using step(1) by (simp add: h')
  have "le_num ?m = le_num (b @ [1])" by (simp add: le_num_append)
  moreover have "poly_acc (limbs r) (limbs h mod P1305) b = (limbs h mod P1305 + le_num (b @ [1])) * limbs r mod P1305"
    using assms(3,4) by (subst poly_acc.simps) simp
  ultimately show "limbs h' mod P1305 = poly_acc (limbs r) (limbs h mod P1305) b"
    using step(2) by (simp add: h' acc_mod)
qed


subsection \<open>The tag\<close>

lemma carried:
  fixes h0 :: nat
  assumes "h0 < 2 ^ 26" "h1 < 2 ^ 26 + 64" "h2 < 2 ^ 26" "h3 < 2 ^ 26" "h4 < 2 ^ 26"
  defines "c1 \<equiv> h1 div 2 ^ 26" and "m1 \<equiv> h1 mod 2 ^ 26"
  defines "c2 \<equiv> (h2 + c1) div 2 ^ 26" and "m2 \<equiv> (h2 + c1) mod 2 ^ 26"
  defines "c3 \<equiv> (h3 + c2) div 2 ^ 26" and "m3 \<equiv> (h3 + c2) mod 2 ^ 26"
  defines "c4 \<equiv> (h4 + c3) div 2 ^ 26" and "m4 \<equiv> (h4 + c3) mod 2 ^ 26"
  defines "t \<equiv> (h0 + c4 * 5) div 2 ^ 26" and "m0 \<equiv> (h0 + c4 * 5) mod 2 ^ 26"
  shows "c1 \<le> 1" "c2 \<le> 1" "c3 \<le> 1" "c4 \<le> 1" "t \<le> 1" "m1 + t < 2 ^ 26"
    "h0 + 2 ^ 26 * (h1 + 2 ^ 26 * (h2 + 2 ^ 26 * (h3 + 2 ^ 26 * h4))) =
     m0 + 2 ^ 26 * ((m1 + t) + 2 ^ 26 * (m2 + 2 ^ 26 * (m3 + 2 ^ 26 * m4))) + P1305 * c4"
proof -
  have le: "n div 2 ^ 26 \<le> 1" if "n < 2 ^ 27" for n :: nat
    using that less_mult_imp_div_less [of n 2 "2 ^ 26"] by simp
  show c1: "c1 \<le> 1" unfolding c1_def by (rule le) (use assms(2) in simp)
  show c2: "c2 \<le> 1" unfolding c2_def by (rule le) (use assms(3) c1 in simp)
  show c3: "c3 \<le> 1" unfolding c3_def by (rule le) (use assms(4) c2 in simp)
  show c4: "c4 \<le> 1" unfolding c4_def by (rule le) (use assms(5) c3 in simp)
  show t: "t \<le> 1" unfolding t_def by (rule le) (use assms(1) c4 in simp)
  have e: "h1 = m1 + 2 ^ 26 * c1" "h2 + c1 = m2 + 2 ^ 26 * c2" "h3 + c2 = m3 + 2 ^ 26 * c3"
    "h4 + c3 = m4 + 2 ^ 26 * c4" "h0 + 5 * c4 = m0 + 2 ^ 26 * t"
    unfolding c1_def m1_def c2_def m2_def c3_def m3_def c4_def m4_def t_def m0_def by simp_all
  have m: "m0 < 2 ^ 26" "m1 < 2 ^ 26" "m2 < 2 ^ 26" "m3 < 2 ^ 26" "m4 < 2 ^ 26"
    unfolding m0_def m1_def m2_def m3_def m4_def by simp_all
  show "m1 + t < 2 ^ 26"
  proof (cases "c4 = 0")
    case True
    with e(5) assms(1) have "t = 0" by (cases "t = 0") auto
    with m(2) show ?thesis by simp
  next
    case False
    with e(4) assms(5) have "c3 \<noteq> 0" by (cases "c3 = 0") auto
    with e(3) assms(4) have "c2 \<noteq> 0" by (cases "c2 = 0") auto
    with e(2) assms(3) have "c1 \<noteq> 0" by (cases "c1 = 0") auto
    with e(1) assms(2) have "m1 < 64" by (cases "c1 = 0") auto
    with t show ?thesis by simp
  qed
  show "h0 + 2 ^ 26 * (h1 + 2 ^ 26 * (h2 + 2 ^ 26 * (h3 + 2 ^ 26 * h4))) =
     m0 + 2 ^ 26 * ((m1 + t) + 2 ^ 26 * (m2 + 2 ^ 26 * (m3 + 2 ^ 26 * m4))) + P1305 * c4"
    using e by simp
qed


definition f_ok :: "32 word list \<Rightarrow> bool" where
  "f_ok h \<longleftrightarrow> length h = 5 \<and> unat (h ! 0) < 2 ^ 26 \<and> unat (h ! 1) < 2 ^ 26 \<and> unat (h ! 2) < 2 ^ 26 \<and>
     unat (h ! 3) < 2 ^ 26 \<and> unat (h ! 4) < 2 ^ 26"

lemma finish_carry_value:
  assumes "h_ok h"
  shows "f_ok (finish_carry h)" "limbs (finish_carry h) mod P1305 = limbs h mod P1305"
proof -
  have b: "unat (h ! 0) < 2 ^ 26" "unat (h ! 1) < 2 ^ 26 + 64" "unat (h ! 2) < 2 ^ 26" "unat (h ! 3) < 2 ^ 26" "unat (h ! 4) < 2 ^ 26"
    using assms by (auto simp: h_ok_def)
  define c1 where "c1 = drop_bit 26 (h ! 1)"
  define c2 where "c2 = drop_bit 26 (h ! 2 + c1)"
  define c3 where "c3 = drop_bit 26 (h ! 3 + c2)"
  define c4 where "c4 = drop_bit 26 (h ! 4 + c3)"
  define t where "t = drop_bit 26 (h ! 0 + c4 * 5)"
  have eq: "finish_carry h = [(h ! 0 + c4 * 5) AND 0x3ffffff, (h ! 1 AND 0x3ffffff) + t,
      (h ! 2 + c1) AND 0x3ffffff, (h ! 3 + c2) AND 0x3ffffff, (h ! 4 + c3) AND 0x3ffffff]"
    by (simp add: finish_carry_def Let_def c1_def c2_def c3_def c4_def t_def)
  note c = carried [OF b]
  have u1: "unat c1 = unat (h ! 1) div 2 ^ 26" by (simp only: c1_def unat_high26_32)
  have a2: "unat (h ! 2 + c1) = unat (h ! 2) + unat (h ! 1) div 2 ^ 26"
    using b(3) c(1) by (simp add: unat_add32 u1)
  have u2: "unat c2 = (unat (h ! 2) + unat (h ! 1) div 2 ^ 26) div 2 ^ 26" by (simp only: c2_def unat_high26_32 a2)
  have a3: "unat (h ! 3 + c2) = unat (h ! 3) + unat c2" using b(4) c(2) by (simp add: unat_add32 u2)
  have u3: "unat c3 = (unat (h ! 3) + unat c2) div 2 ^ 26" by (simp only: c3_def unat_high26_32 a3)
  have a4: "unat (h ! 4 + c3) = unat (h ! 4) + unat c3" using b(5) c(3) by (simp add: unat_add32 u3 u2)
  have u4: "unat c4 = (unat (h ! 4) + unat c3) div 2 ^ 26" by (simp only: c4_def unat_high26_32 a4)
  have c4: "unat c4 \<le> 1" using c(4) by (simp only: u4 u3 u2)
  then have five: "unat (c4 * 5) = unat c4 * 5" by (simp add: unat_word_ariths)
  have a0: "unat (h ! 0 + c4 * 5) = unat (h ! 0) + unat c4 * 5" using b(1) c4 by (simp add: unat_add32 five)
  have ut: "unat t = (unat (h ! 0) + unat c4 * 5) div 2 ^ 26" by (simp only: t_def unat_high26_32 a0)
  note down = u4 u3 u2
  have a1: "unat ((h ! 1 AND 0x3ffffff) + t) = unat (h ! 1) mod 2 ^ 26 + unat t"
    "unat (h ! 1) mod 2 ^ 26 + unat t < 2 ^ 26"
    using c(6) by (simp_all add: unat_add32 unat_low26_32 ut down)
  show "f_ok (finish_carry h)"
    using a1 by (simp add: f_ok_def eq unat_low26_32)
  have "limbs h = limbs (finish_carry h) + P1305 * unat c4"
    unfolding limbs_def eq using c(7) by (simp add: unat_low26_32 a0 a1(1) a2 a3 a4 ut down del: One_nat_def)
  then show "limbs (finish_carry h) mod P1305 = limbs h mod P1305" by (metis mod_mult_self2)
qed


text \<open>Subtracting \<open>p\<close>: the carry out of the top limb of \<open>h + 5\<close> decides.\<close>

lemma sub_sum:
  fixes h0 :: nat
  assumes "h0 < 2 ^ 26" "h1 < 2 ^ 26" "h2 < 2 ^ 26" "h3 < 2 ^ 26"
  defines "c0 \<equiv> (h0 + 5) div 2 ^ 26" and "n0 \<equiv> (h0 + 5) mod 2 ^ 26"
  defines "c1 \<equiv> (h1 + c0) div 2 ^ 26" and "n1 \<equiv> (h1 + c0) mod 2 ^ 26"
  defines "c2 \<equiv> (h2 + c1) div 2 ^ 26" and "n2 \<equiv> (h2 + c1) mod 2 ^ 26"
  defines "c3 \<equiv> (h3 + c2) div 2 ^ 26" and "n3 \<equiv> (h3 + c2) mod 2 ^ 26"
  shows "c0 \<le> 1" "c1 \<le> 1" "c2 \<le> 1" "c3 \<le> 1"
    "h0 + 2 ^ 26 * (h1 + 2 ^ 26 * (h2 + 2 ^ 26 * (h3 + 2 ^ 26 * h4))) + 5 =
     n0 + 2 ^ 26 * (n1 + 2 ^ 26 * (n2 + 2 ^ 26 * (n3 + 2 ^ 26 * (h4 + c3))))"
proof -
  have le: "n div 2 ^ 26 \<le> 1" if "n < 2 ^ 27" for n :: nat
    using that less_mult_imp_div_less [of n 2 "2 ^ 26"] by simp
  show c0: "c0 \<le> 1" unfolding c0_def by (rule le) (use assms(1) in simp)
  show c1: "c1 \<le> 1" unfolding c1_def by (rule le) (use assms(2) c0 in simp)
  show c2: "c2 \<le> 1" unfolding c2_def by (rule le) (use assms(3) c1 in simp)
  show "c3 \<le> 1" unfolding c3_def by (rule le) (use assms(4) c2 in simp)
  have "h0 + 5 = n0 + 2 ^ 26 * c0" "h1 + c0 = n1 + 2 ^ 26 * c1" "h2 + c1 = n2 + 2 ^ 26 * c2" "h3 + c2 = n3 + 2 ^ 26 * c3"
    unfolding c0_def n0_def c1_def n1_def c2_def n2_def c3_def n3_def by simp_all
  then show "h0 + 2 ^ 26 * (h1 + 2 ^ 26 * (h2 + 2 ^ 26 * (h3 + 2 ^ 26 * h4))) + 5 =
     n0 + 2 ^ 26 * (n1 + 2 ^ 26 * (n2 + 2 ^ 26 * (n3 + 2 ^ 26 * (h4 + c3))))" by simp
qed

lemma limbs_less: "f_ok h \<Longrightarrow> limbs h < 2 ^ 130"
  by (simp add: f_ok_def limbs_def)

lemma top_mask:
  assumes "unat x \<le> 2 ^ 26"
  shows "drop_bit 31 (x - push_bit 26 1) - 1 = (if unat x = 2 ^ 26 then NOT 0 else (0 :: 32 word))"
proof (cases "unat x = 2 ^ 26")
  case True
  then have "x = push_bit 26 1" by (simp add: word_unat_eq_iff)
  then show ?thesis by simp
next
  case False
  with assms have lt: "unat x < 2 ^ 26" by simp
  then have "unat (x - push_bit 26 1) = 2 ^ 32 - 2 ^ 26 + unat x"
    by (simp add: unat_sub_if_size word_size)
  then have "unat (drop_bit 31 (x - push_bit 26 1)) = (2 ^ 32 - 2 ^ 26 + unat x) div 2 ^ 31"
    by (simp only: drop_bit_eq_div) (simp add: unat_div_distrib)
  also have "\<dots> = 1" using lt by (intro div_nat_eqI) auto
  finally have "drop_bit 31 (x - push_bit 26 1) = 1" by (simp add: word_unat_eq_iff)
  with False show ?thesis by simp
qed

lemma finish_select_value:
  assumes "f_ok h"
  shows "limbs (finish_select h (finish_sub h)) = limbs h mod P1305"
    "f_ok (finish_select h (finish_sub h))"
proof -
  have b: "unat (h ! 0) < 2 ^ 26" "unat (h ! 1) < 2 ^ 26" "unat (h ! 2) < 2 ^ 26" "unat (h ! 3) < 2 ^ 26" "unat (h ! 4) < 2 ^ 26"
    using assms by (auto simp: f_ok_def)
  define c0 where "c0 = drop_bit 26 (h ! 0 + 5)"
  define c1 where "c1 = drop_bit 26 (h ! 1 + c0)"
  define c2 where "c2 = drop_bit 26 (h ! 2 + c1)"
  define c3 where "c3 = drop_bit 26 (h ! 3 + c2)"
  let ?g = "[(h ! 0 + 5) AND 0x3ffffff, (h ! 1 + c0) AND 0x3ffffff, (h ! 2 + c1) AND 0x3ffffff,
      (h ! 3 + c2) AND 0x3ffffff, h ! 4 + c3 - push_bit 26 1]"
  have eq: "finish_sub h = ?g"
    by (simp add: finish_sub_def Let_def c0_def c1_def c2_def c3_def)
  note c = sub_sum [OF b(1-4)]
  have a0: "unat (h ! 0 + 5) = unat (h ! 0) + 5" using b(1) by (simp add: unat_add32)
  have u0: "unat c0 = (unat (h ! 0) + 5) div 2 ^ 26" by (simp only: c0_def unat_high26_32 a0)
  have a1: "unat (h ! 1 + c0) = unat (h ! 1) + unat c0" using b(2) c(1) by (simp add: unat_add32 u0)
  have u1: "unat c1 = (unat (h ! 1) + unat c0) div 2 ^ 26" by (simp only: c1_def unat_high26_32 a1)
  have a2: "unat (h ! 2 + c1) = unat (h ! 2) + unat c1" using b(3) c(2) by (simp add: unat_add32 u1 u0)
  have u2: "unat c2 = (unat (h ! 2) + unat c1) div 2 ^ 26" by (simp only: c2_def unat_high26_32 a2)
  have a3: "unat (h ! 3 + c2) = unat (h ! 3) + unat c2" using b(4) c(3) by (simp add: unat_add32 u2 u1 u0)
  have u3: "unat c3 = (unat (h ! 3) + unat c2) div 2 ^ 26" by (simp only: c3_def unat_high26_32 a3)
  have c3: "unat c3 \<le> 1" using c(4) by (simp only: u3 u2 u1 u0)
  have a4: "unat (h ! 4 + c3) = unat (h ! 4) + unat c3" using b(5) c3 by (simp add: unat_add32)
  have sum: "limbs h + 5 = unat (?g ! 0) + 2 ^ 26 * (unat (?g ! 1) + 2 ^ 26 * (unat (?g ! 2) + 2 ^ 26 *
      (unat (?g ! 3) + 2 ^ 26 * unat (h ! 4 + c3))))"
    unfolding limbs_def c(5) by (simp add: unat_low26_32 a0 a1 a2 a3 a4 u3 u2 u1 u0 del: One_nat_def)
  have glt: "unat (?g ! 0) < 2 ^ 26" "unat (?g ! 1) < 2 ^ 26" "unat (?g ! 2) < 2 ^ 26" "unat (?g ! 3) < 2 ^ 26"
    by (simp_all add: unat_low26_32)
  have le: "unat (h ! 4 + c3) \<le> 2 ^ 26" using b(5) c3 a4 by simp
  note mask = top_mask [OF le]
  have g4: "?g ! 4 = h ! 4 + c3 - push_bit 26 1" by simp
  have up: "[0..<5] = [0, 1, 2, 3, 4 :: nat]" by (simp add: upt_rec)
  have sel: "finish_select h (finish_sub h) =
      (if unat (h ! 4 + c3) = 2 ^ 26 then ?g else [h ! 0, h ! 1, h ! 2, h ! 3, h ! 4])"
    unfolding finish_select_def eq Let_def g4 mask up by (cases "unat (h ! 4 + c3) = 2 ^ 26") (simp_all del: One_nat_def)
  show "limbs (finish_select h (finish_sub h)) = limbs h mod P1305"
  proof (cases "unat (h ! 4 + c3) = 2 ^ 26")
    case True
    then have "h ! 4 + c3 = push_bit 26 1" by (simp add: word_unat_eq_iff)
    then have "unat (?g ! 4) = 0" by simp
    then have "limbs h = limbs ?g + P1305"
      using sum True by (simp add: limbs_def del: One_nat_def)
    moreover have "limbs h < 2 ^ 130" by (rule limbs_less [OF assms])
    ultimately show ?thesis using True by (simp add: sel mod_if)
  next
    case False
    with le have "unat (h ! 4 + c3) < 2 ^ 26" by simp
    then have "limbs h < P1305" using sum glt by simp
    with False show ?thesis by (simp add: sel limbs_def)
  qed
  show "f_ok (finish_select h (finish_sub h))"
  proof (cases "unat (h ! 4 + c3) = 2 ^ 26")
    case True
    then have "h ! 4 + c3 = push_bit 26 1" by (simp add: word_unat_eq_iff)
    with True glt show ?thesis by (simp add: sel f_ok_def del: One_nat_def)
  next
    case False
    with assms show ?thesis by (simp add: sel f_ok_def)
  qed
qed


subsection \<open>Back to bytes\<close>

lemma bit_limbs:
  assumes "f_ok h"
  shows "bit (limbs h) n \<longleftrightarrow> (if n < 26 then bit (h ! 0) n else if n < 52 then bit (h ! 1) (n - 26)
     else if n < 78 then bit (h ! 2) (n - 52) else if n < 104 then bit (h ! 3) (n - 78) else bit (h ! 4) (n - 104))"
proof -
  have b: "unat (h ! 0) < 2 ^ 26" "unat (h ! 1) < 2 ^ 26" "unat (h ! 2) < 2 ^ 26" "unat (h ! 3) < 2 ^ 26"
    using assms by (auto simp: f_ok_def)
  show ?thesis
    unfolding limbs_def bit_add_shift [OF b(1)] bit_add_shift [OF b(2)] bit_add_shift [OF b(3)]
      bit_add_shift [OF b(4)] bit_unsigned_iff
    using bit_imp_le_length [of "h ! 4" "n - 104"] by (auto simp del: One_nat_def)
qed

lemma f_ok_bits:
  assumes "f_ok h"
  shows "bit (h ! 0) n \<Longrightarrow> n < 26" "bit (h ! 1) n \<Longrightarrow> n < 26" "bit (h ! 2) n \<Longrightarrow> n < 26" "bit (h ! 3) n \<Longrightarrow> n < 26"
  using assms less_exp_bit [of "unat (h ! 0)" 26 n] less_exp_bit [of "unat (h ! 1)" 26 n]
    less_exp_bit [of "unat (h ! 2)" 26 n] less_exp_bit [of "unat (h ! 3)" 26 n]
  by (simp_all add: f_ok_def bit_unsigned_iff)

lemma nat_bits32: "(\<And>n. n < 32 \<Longrightarrow> bit w n \<longleftrightarrow> bit x (k + n)) \<Longrightarrow> unat (w :: 32 word) = take_bit 32 (drop_bit k x)"
proof (rule bit_eqI)
  fix n
  assume "\<And>n. n < 32 \<Longrightarrow> bit w n \<longleftrightarrow> bit x (k + n)"
  moreover have "bit w n \<Longrightarrow> n < 32" using bit_imp_le_length [of w n] by simp
  ultimately show "bit (unat w) n = bit (take_bit 32 (drop_bit k x)) n"
    by (auto simp: bit_unsigned_iff bit_take_bit_iff bit_drop_bit_eq)
qed

lemma finish_words_value:
  assumes "f_ok h"
  shows "unat (finish_words h ! 0) = take_bit 32 (limbs h)"
    "unat (finish_words h ! 1) = take_bit 32 (drop_bit 32 (limbs h))"
    "unat (finish_words h ! 2) = take_bit 32 (drop_bit 64 (limbs h))"
    "unat (finish_words h ! 3) = take_bit 32 (drop_bit 96 (limbs h))"
proof -
  note f = f_ok_bits [OF assms]
  have "unat (finish_words h ! 0) = take_bit 32 (drop_bit 0 (limbs h))"
    by (rule nat_bits32) (auto simp: finish_words_def bit_limbs [OF assms] bit_simps dest: f [unfolded One_nat_def])
  then show "unat (finish_words h ! 0) = take_bit 32 (limbs h)" by simp
  show "unat (finish_words h ! 1) = take_bit 32 (drop_bit 32 (limbs h))"
    by (rule nat_bits32) (auto simp: finish_words_def bit_limbs [OF assms] bit_simps dest: f [unfolded One_nat_def])
  show "unat (finish_words h ! 2) = take_bit 32 (drop_bit 64 (limbs h))"
    by (rule nat_bits32) (auto simp: finish_words_def bit_limbs [OF assms] bit_simps dest: f [unfolded One_nat_def])
  show "unat (finish_words h ! 3) = take_bit 32 (drop_bit 96 (limbs h))"
    by (rule nat_bits32) (auto simp: finish_words_def bit_limbs [OF assms] bit_simps dest: f [unfolded One_nat_def])
qed


lemma load_store32 [simp]: "load32 (store32 v @ rest) = v"
proof (rule bit_word_eqI)
  fix n :: nat
  assume n: "n < LENGTH(32)"
  then consider "n < 8" | "8 \<le> n" "n < 16" | "16 \<le> n" "n < 24" | "24 \<le> n" by linarith
  then show "bit (load32 (store32 v @ rest)) n = bit v n"
    by cases (use n in \<open>auto simp: load32_def store32_def bit_simps\<close>)
qed

lemma le_num_store32 [simp]: "le_num (store32 v) = unat v"
proof -
  have "unat v = take_bit 32 (le_num (store32 v))"
    using unat_load32 [of 0 "store32 v"] load_store32 [of v "[]"] by (simp del: load_store32)
  moreover have "le_num (store32 v) < 2 ^ 32" using le_num_less [of "store32 v"] by simp
  ultimately show ?thesis by (simp only: take_bit_nat_eq_self)
qed

definition words4 :: "nat \<Rightarrow> nat \<Rightarrow> nat \<Rightarrow> nat \<Rightarrow> nat" where
  "words4 a b c d = a + 2 ^ 32 * (b + 2 ^ 32 * (c + 2 ^ 32 * d))"

lemma words4_bits:
  "words4 (take_bit 32 n) (take_bit 32 (drop_bit 32 n)) (take_bit 32 (drop_bit 64 n)) (take_bit 32 (drop_bit 96 n)) =
   take_bit 128 n"
proof -
  have step: "take_bit (32 + k) m = take_bit 32 m + 2 ^ 32 * take_bit k (drop_bit 32 m)" for k and m :: nat
    by (simp only: take_bit_eq_mod drop_bit_eq_div power_add mod_mult2_eq)
  have d: "drop_bit 32 (drop_bit 32 n) = drop_bit 64 n" "drop_bit 32 (drop_bit 64 n) = drop_bit 96 n"
    by (simp_all add: drop_bit_drop_bit)
  show ?thesis using step [of 96 n] step [of 64 "drop_bit 32 n"] step [of 32 "drop_bit 64 n"] by (simp add: words4_def d)
qed

lemma num_le_take: "num_le k (take_bit (8 * k) n) = num_le k n"
proof -
  have "(of_nat (take_bit (8 * k) n div 256 ^ i) :: byte) = of_nat (n div 256 ^ i)" if "i < k" for i
  proof (rule bit_word_eqI)
    fix j :: nat
    assume "j < LENGTH(8)"
    then have "8 * i + j < 8 * k" using that by simp
    moreover have pw: "256 ^ i = (2 ^ (8 * i) :: nat)" by (simp add: power_mult)
    ultimately show "bit (of_nat (take_bit (8 * k) n div 256 ^ i) :: byte) j = bit (of_nat (n div 256 ^ i) :: byte) j"
      by (simp add: pw drop_bit_eq_div [symmetric] bit_drop_bit_eq bit_of_nat_iff_bit bit_simps)
  qed
  then show ?thesis by (simp add: num_le_def)
qed

lemma unat_low32: "unat (ucast f :: 32 word) = unat (f :: 64 word) mod 2 ^ 32"
  by (simp add: unsigned_ucast_eq take_bit_eq_mod)

lemma unat_high32: "unat (drop_bit 32 f) = unat (f :: 64 word) div 2 ^ 32"
  by (simp add: drop_bit_eq_div unat_div_distrib)

lemma pad_sum:
  fixes a0 :: nat
  assumes "a0 + b0 = m0 + 2 ^ 32 * q0" "a1 + b1 + q0 = m1 + 2 ^ 32 * q1" "a2 + b2 + q1 = m2 + 2 ^ 32 * q2"
    "a3 + b3 + q2 = m3 + 2 ^ 32 * q3"
  shows "words4 a0 a1 a2 a3 + words4 b0 b1 b2 b3 = words4 m0 m1 m2 m3 + 2 ^ 128 * q3"
  using assms by (simp add: words4_def)

lemma finish_pad_value:
  "finish_pad w pad = num_le 16 (words4 (unat (w ! 0)) (unat (w ! 1)) (unat (w ! 2)) (unat (w ! 3)) +
     words4 (unat (pad ! 0)) (unat (pad ! 1)) (unat (pad ! 2)) (unat (pad ! 3)))"
proof -
  define f0 :: "64 word" where "f0 = ucast (w ! 0) + ucast (pad ! 0)"
  define f1 :: "64 word" where "f1 = ucast (w ! 1) + ucast (pad ! 1) + drop_bit 32 f0"
  define f2 :: "64 word" where "f2 = ucast (w ! 2) + ucast (pad ! 2) + drop_bit 32 f1"
  define f3 :: "64 word" where "f3 = ucast (w ! 3) + ucast (pad ! 3) + drop_bit 32 f2"
  have eq: "finish_pad w pad = store32 (ucast f0) @ store32 (ucast f1) @ store32 (ucast f2) @ store32 (ucast f3)"
    by (simp add: finish_pad_def Let_def f0_def f1_def f2_def f3_def)
  note l = unat_less32 [of "w ! 0"] unat_less32 [of "pad ! 0"] unat_less32 [of "w ! 1"] unat_less32 [of "pad ! 1"]
    unat_less32 [of "w ! 2"] unat_less32 [of "pad ! 2"] unat_less32 [of "w ! 3"] unat_less32 [of "pad ! 3"]
  have q: "unat f div 2 ^ 32 < 2 ^ 32" for f :: "64 word"
  proof -
    have "unat f < 2 ^ 64" using unsigned_less [of f] by simp
    then show ?thesis by (simp add: less_mult_imp_div_less)
  qed
  note add = unat_add64 unat_up unat_high32
  have u: "unat f0 = unat (w ! 0) + unat (pad ! 0)" "unat f1 = unat (w ! 1) + unat (pad ! 1) + unat f0 div 2 ^ 32"
    "unat f2 = unat (w ! 2) + unat (pad ! 2) + unat f1 div 2 ^ 32" "unat f3 = unat (w ! 3) + unat (pad ! 3) + unat f2 div 2 ^ 32"
    using l q [of f0] q [of f1] q [of f2] by (simp_all add: f0_def f1_def f2_def f3_def add)
  let ?s = "words4 (unat (w ! 0)) (unat (w ! 1)) (unat (w ! 2)) (unat (w ! 3)) +
     words4 (unat (pad ! 0)) (unat (pad ! 1)) (unat (pad ! 2)) (unat (pad ! 3))"
  have le: "le_num (finish_pad w pad) = words4 (unat f0 mod 2 ^ 32) (unat f1 mod 2 ^ 32) (unat f2 mod 2 ^ 32) (unat f3 mod 2 ^ 32)"
    by (simp add: eq le_num_append words4_def unat_low32)
  have split: "n = n mod 2 ^ 32 + 2 ^ 32 * (n div 2 ^ 32)" for n :: nat by simp
  have "?s = le_num (finish_pad w pad) + 2 ^ 128 * (unat f3 div 2 ^ 32)"
    unfolding le
    by (rule pad_sum [OF trans [OF u(1) [symmetric] split] trans [OF u(2) [symmetric] split]
          trans [OF u(3) [symmetric] split] trans [OF u(4) [symmetric] split]])
  moreover have "le_num (finish_pad w pad) < 2 ^ 128" using le_num_less [of "finish_pad w pad"] by simp
  ultimately have "take_bit (8 * 16) ?s = le_num (finish_pad w pad)" by (simp add: take_bit_eq_mod)
  then have "num_le 16 ?s = num_le 16 (le_num (finish_pad w pad))" using num_le_take [of 16 ?s] by simp
  also have "\<dots> = finish_pad w pad" using num_le_le_num [of "finish_pad w pad"] by simp
  finally show ?thesis by simp
qed


subsection \<open>The whole authenticator\<close>

lemma chunk_clamp:
  "chunk i n AND chunk i c = chunk i (n AND c)"
  by (rule bit_eqI) (auto simp: chunk_def bit_simps)

lemma init_value:
  assumes "32 \<le> length key"
  shows "r_ok (p_r (poly1305_init key))"
    "limbs (p_r (poly1305_init key)) = clamp_r (le_num (take 16 key))"
proof -
  let ?C = "0x0ffffffc0ffffffc0ffffffc0fffffff :: nat"
  let ?n = "le_num (take 16 key)"
  let ?r = "p_r (poly1305_init key)"
  have ld: "load32 (drop k key) = load32 (drop k (take 16 key))" if "k + 4 \<le> 16" for k
    using that assms by (simp add: load32_def)
  have mask: "unat (0x3ffffff :: 32 word) = chunk 0 ?C" "unat (0x3ffff03 :: 32 word) = chunk 1 ?C"
    "unat (0x3ffc0ff :: 32 word) = chunk 2 ?C" "unat (0x3f03fff :: 32 word) = chunk 3 ?C" "unat (0x00fffff :: 32 word) = chunk 4 ?C"
    by (simp_all add: chunk_def take_bit_eq_mod drop_bit_eq_div)
  note w = word_limb [where m = "take 16 key"]
  have r: "unat (?r ! 0) = chunk 0 (?n AND ?C)" "unat (?r ! 1) = chunk 1 (?n AND ?C)" "unat (?r ! 2) = chunk 2 (?n AND ?C)"
    "unat (?r ! 3) = chunk 3 (?n AND ?C)" "unat (?r ! 4) = chunk 4 (?n AND ?C)"
    using assms w [of 0 0 0 "0x3ffffff" 26] w [of 3 2 1 "0x3ffff03" 26] w [of 6 4 2 "0x3ffc0ff" 26]
      w [of 9 6 3 "0x3f03fff" 26] w [of 12 8 4 "0x00fffff" 20] ld [of 0] ld [of 3] ld [of 6] ld [of 9] ld [of 12]
    by (simp_all add: poly1305_init_def chunk_clamp [symmetric] mask [symmetric] del: One_nat_def)
  have small: "?n AND ?C < 2 ^ 128"
  proof -
    have "?n < 2 ^ 128" using le_num_less [of "take 16 key"] assms by (simp add: min_def)
    then have "take_bit 128 (?n AND ?C) = ?n AND ?C" by (simp add: take_bit_nat_eq_self)
    then show ?thesis by (simp only: take_bit_nat_eq_self_iff)
  qed
  then have "chunk 4 (?n AND ?C) = drop_bit 104 (?n AND ?C)"
    by (simp add: chunk_def take_bit_nat_eq_self_iff drop_bit_eq_div less_mult_imp_div_less)
  then show "limbs ?r = clamp_r ?n"
    using split_chunks [of "?n AND ?C"] by (simp add: limbs_def r clamp_r_def del: One_nat_def)
  have "chunk 4 (?n AND ?C) = take_bit 20 (chunk 4 ?n)"
    by (simp only: chunk_clamp [symmetric] mask(5) [symmetric] take_bit_eq_mask) (simp add: mask_eq_exp_minus_1)
  then have "chunk 4 (?n AND ?C) < 2 ^ 20" by (simp only: take_bit_nat_less_exp)
  then show "r_ok ?r"
    using chunk_less by (simp add: r_ok_def r del: One_nat_def)
qed


lemma pad_value:
  assumes "32 \<le> length key"
  defines "pad \<equiv> p_pad (poly1305_init key)"
  shows "words4 (unat (pad ! 0)) (unat (pad ! 1)) (unat (pad ! 2)) (unat (pad ! 3)) = le_num (take 16 (drop 16 key))"
proof -
  let ?s = "le_num (take 16 (drop 16 key))"
  have ld: "load32 (drop (16 + i * 4) key) = load32 (drop (i * 4) (take 16 (drop 16 key)))" if "i < 4" for i
    using that assms by (simp add: load32_def add.commute add.left_commute)
  have up: "[0..<4] = [0, 1, 2, 3 :: nat]" by (simp add: upt_rec)
  have "unat (pad ! i) = take_bit 32 (drop_bit (32 * i) ?s)" if "i < 4" for i
    using that assms(1) unat_load32 [of "i * 4" "take 16 (drop 16 key)"] ld [OF that]
    by (simp add: pad_def poly1305_init_def algebra_simps)
  from this [of 0] this [of 1] this [of 2] this [of 3]
  have "words4 (unat (pad ! 0)) (unat (pad ! 1)) (unat (pad ! 2)) (unat (pad ! 3)) = take_bit 128 ?s"
    using words4_bits [of ?s] by (simp del: One_nat_def)
  moreover have "length (take 16 (drop 16 key)) = 16" using assms(1) by simp
  then have "?s < 2 ^ 128" using le_num_less [of "take 16 (drop 16 key)"] by (simp only:) simp
  ultimately show ?thesis by (simp add: take_bit_nat_eq_self)
qed

lemma finish_value:
  assumes "h_ok h" "length pad = 4"
  shows "finish_pad (finish_words (finish_select (finish_carry h) (finish_sub (finish_carry h)))) pad =
    num_le 16 (limbs h mod P1305 + words4 (unat (pad ! 0)) (unat (pad ! 1)) (unat (pad ! 2)) (unat (pad ! 3)))"
proof -
  let ?f = "finish_select (finish_carry h) (finish_sub (finish_carry h))"
  let ?p = "words4 (unat (pad ! 0)) (unat (pad ! 1)) (unat (pad ! 2)) (unat (pad ! 3))"
  note f = finish_select_value [OF finish_carry_value(1) [OF assms(1)]]
  have "finish_pad (finish_words ?f) pad = num_le 16 (take_bit 128 (limbs ?f) + ?p)"
    by (simp only: finish_pad_value finish_words_value [OF f(2)] words4_bits)
  also have "\<dots> = num_le 16 (limbs ?f + ?p)"
    using num_le_take [of 16 "take_bit 128 (limbs ?f) + ?p"] num_le_take [of 16 "limbs ?f + ?p"]
    by (simp add: take_bit_eq_mod mod_simps)
  finally show ?thesis by (simp only: f(1) finish_carry_value(2) [OF assms(1)])
qed

lemma poly1305_eq_spec:
  assumes "32 \<le> length key"
  shows "poly1305_finish (poly1305_update (poly1305_init key) m) = poly1305_spec key m"
proof -
  let ?c = "poly1305_init key"
  let ?d = "feed_ctx ?c m"
  have c: "ctx_ok ?c" "p_buffer ?c = []" "p_h ?c = [0, 0, 0, 0, 0]" "length (p_pad ?c) = 4" "p_r ?d = p_r ?c" "p_pad ?d = p_pad ?c"
    by (simp_all add: ctx_ok_def poly1305_init_def feed_ctx_rest)
  have h0: "h_ok (p_h ?c)" "limbs (p_h ?c) = 0" by (simp_all add: c h_ok_def limbs_def)
  note r = init_value [OF assms]
  note acc = feed_acc [OF r(1) h0(1), of m]
  have ok: "ctx_ok ?d" by (rule ctx_ok_feed [OF c(1)])
  have fin: "poly1305_finish ?d = num_le 16 (limbs h mod P1305 + le_num (take 16 (drop 16 key)))"
    if "h_ok h" "poly1305_finish ?d = finish_pad (finish_words (finish_select (finish_carry h) (finish_sub (finish_carry h)))) (p_pad ?c)" for h
    using that(2) finish_value [OF that(1) c(4)] pad_value [OF assms] by simp
  have spec: "poly1305_spec key m = num_le 16 (poly_acc (limbs (p_r ?c)) (limbs (p_h ?d) mod P1305) (p_buffer ?d) +
      le_num (take 16 (drop 16 key)))"
    using acc(2) by (simp add: poly1305_spec_def r(2) h0(2) c(2))
  have "poly1305_finish ?d = poly1305_spec key m"
  proof (cases "p_buffer ?d = []")
    case True
    then show ?thesis using fin [OF acc(1)] by (simp add: spec poly1305_finish_def Let_def c(6))
  next
    case False
    let ?b = "p_buffer ?d"
    have lt: "length ?b < 16" using ok by (simp add: ctx_ok_def)
    note last = last_block [OF r(1) acc(1) False lt]
    have "poly1305_finish ?d = num_le 16 (limbs (poly_loop 0 (p_r ?c) (p_h ?d) (?b @ 1 # replicate (15 - length ?b) 0)) mod P1305 +
        le_num (take 16 (drop 16 key)))"
      by (rule fin [OF last(1)]) (use False in \<open>simp add: poly1305_finish_def poly1305_blocks_def Let_def c(5,6)\<close>)
    then show ?thesis by (simp only: spec last(2))
  qed
  then show ?thesis by (simp add: update_feed [OF c(1)])
qed

text \<open>Any cut of the data gives the same tag.\<close>

lemma poly1305_chunks:
  "32 \<le> length key \<Longrightarrow>
   poly1305_finish (fold (\<lambda>d c. poly1305_update c d) ds (poly1305_init key)) = poly1305_spec key (concat ds)"
  by (simp add: poly.feed_all_init poly1305_eq_spec)


subsection \<open>The AEAD\<close>

text \<open>The authenticated string of RFC 8439: both parts padded to whole blocks, then their lengths.\<close>

definition zero_pad :: "bytes \<Rightarrow> bytes" where
  "zero_pad m = replicate ((16 - length m mod 16) mod 16) 0"

definition aead_input :: "bytes \<Rightarrow> bytes \<Rightarrow> bytes" where
  "aead_input aad c = aad @ zero_pad aad @ c @ zero_pad c @ le64 (of_nat (length aad)) @ le64 (of_nat (length c))"

lemma feed_if: "ctx_ok ctx \<Longrightarrow> (if 0 < length m then poly1305_update ctx m else ctx) = feed_ctx ctx m"
  by (simp add: update_feed feed_ctx_Nil)

lemma pad16_feed: "ctx_ok ctx \<Longrightarrow> poly1305_pad16 ctx (length m) = feed_ctx ctx (zero_pad m)"
  by (simp add: poly1305_pad16_def zero_pad_def update_feed feed_ctx_Nil Let_def)

lemma aead_tag_spec:
  assumes "32 \<le> length key"
  shows "aead_tag key aad c = poly1305_spec key (aead_input aad c)"
proof -
  have ok: "ctx_ok (poly1305_init key)" by (rule poly.ok_init)
  then have "aead_tag key aad c = poly1305_finish (feed_ctx (poly1305_init key) (aead_input aad c))"
    by (simp add: aead_tag_def Let_def feed_if pad16_feed ctx_ok_feed poly1305_length_def update_feed feed_ctx_feed
        aead_input_def del: length_greater_0_conv)
  then show ?thesis using poly1305_eq_spec [OF assms, of "aead_input aad c"] ok by (simp add: update_feed)
qed

definition poly_key_of :: "bytes \<Rightarrow> bytes \<Rightarrow> bytes" where
  "poly_key_of key nonce = chacha20_xor (replicate 64 0) key nonce 0"

lemma encrypt_spec:
  "chacha20poly1305_encrypt p aad key nonce =
    (chacha20_xor p key nonce 1, poly1305_spec (poly_key_of key nonce) (aead_input aad (chacha20_xor p key nonce 1)))"
  by (simp add: chacha20poly1305_encrypt_def Let_def aead_tag_spec poly_key_of_def)

lemma decrypt_spec:
  "length tag = 16 \<Longrightarrow> chacha20poly1305_decrypt c tag aad key nonce =
    (if tag = poly1305_spec (poly_key_of key nonce) (aead_input aad c) then Some (chacha20_xor c key nonce 1) else None)"
  by (simp add: decrypt_eq aead_tag_spec poly_key_of_def)

subsection \<open>Properties\<close>

text \<open>C15: the Poly1305 of the code is the one of RFC 8439 for every key and every cut of the data:
  with the clamped first half of the key as multiplier, each 16-byte block with a one appended is
  added and multiplied modulo 2^130 - 5, and the second half of the key is added modulo 2^128.  The
  five 26-bit limbs never overflow their 32-bit words nor their sums of products 64 bits, the carry
  passes and the branch-free subtraction of the prime give the canonical residue, and the pending
  block is handled for pieces of any length.\<close>

theorem poly1305_is_rfc8439:
  assumes "length key = 32"
  shows "poly1305_finish (fold (\<lambda>d c. poly1305_update c d) ds (poly1305_init key)) = poly1305_spec key (concat ds)"
  using poly1305_chunks [of key ds] assms by simp

theorem poly1305_is_rfc8439_witness:
  "poly1305_finish (fold (\<lambda>d c. poly1305_update c d) [ascii ''ab'', [], ascii ''c''] (poly1305_init (replicate 32 7))) =
     poly1305_spec (replicate 32 7) (concat [ascii ''ab'', [], ascii ''c''])"
  by (rule poly1305_is_rfc8439) simp

text \<open>C16: the AEAD opens exactly what it sealed: for a 16-byte tag, decryption accepts a ciphertext and
  yields the plaintext p if and only if encrypting p under the same key, nonce and associated data
  gives that ciphertext and that tag, so every message sealed is read back, and a message whose
  tag, data or associated data differ from what the key holder would have produced is refused
  without any plaintext.\<close>

theorem aead_opens_only_its_tag:
  assumes "length tag = 16"
  shows "chacha20poly1305_decrypt c tag aad key nonce = Some p \<longleftrightarrow>
    chacha20poly1305_encrypt p aad key nonce = (c, tag)"
  using assms chacha20_xor_involution [of c key nonce 1] chacha20_xor_involution [of p key nonce 1]
  by (auto simp: decrypt_spec encrypt_spec)

theorem aead_opens_only_its_tag_witness:
  "chacha20poly1305_decrypt (ascii ''torrent'') (replicate 16 0) [] (replicate 32 1) (replicate 12 0) = Some (ascii ''file'') \<longleftrightarrow>
    chacha20poly1305_encrypt (ascii ''file'') [] (replicate 32 1) (replicate 12 0) = (ascii ''torrent'', replicate 16 0)"
  by (rule aead_opens_only_its_tag) simp

end
