(* ===== verification/X25519.thy ===== *)
theory X25519
  imports Poly1305
begin

text \<open>
  X25519 as \<open>source/net/wg/x25519.c\<close> computes it: field elements are sixteen limbs of sixteen
  bits (\<open>gf\<close>, an \<open>int64_t[16]\<close>), the carry pass and the conditional swap have no branch on secret
  data, and the Montgomery ladder runs over the clamped scalar.  Limbs are integers: the bounds
  proved in \<open>X25519Ladder\<close> (\<open>tight\<close>, \<open>loose\<close>) keep every one of them, and every sum of products,
  far inside 64 bits.  An array argument that a C function overwrites is the returned list.
\<close>

type_synonym gf = "int list"

definition k121665 :: gf where
  "k121665 = [0xDB41, 1] @ replicate 14 0"

definition car_step :: "nat \<Rightarrow> gf \<Rightarrow> gf" where
  "car_step i x =
     (let x = x[i := x ! i + push_bit 16 1];
          c = drop_bit 16 (x ! i);
          k = (i + 1) * (if i < 15 then 1 else 0);
          x = x[k := x ! k + (c - 1 + 37 * (c - 1) * (if i = 15 then 1 else 0))]
      in x[i := x ! i - push_bit 16 c])"

definition car25519 :: "gf \<Rightarrow> gf" where
  "car25519 x = fold car_step [0..<16] x"

definition sel25519 :: "gf \<Rightarrow> gf \<Rightarrow> int \<Rightarrow> gf \<times> gf" where
  "sel25519 p q b =
     (let m = NOT (b - 1);
          t = map (\<lambda>i. m AND (p ! i XOR q ! i)) [0..<16]
      in (map (\<lambda>i. p ! i XOR t ! i) [0..<16], map (\<lambda>i. q ! i XOR t ! i) [0..<16]))"

text \<open>One round of the canonical reduction in \<open>pack25519\<close>: \<open>t - p\<close> with borrows, kept when it
  is not negative.\<close>

definition borrow_step :: "gf \<Rightarrow> nat \<Rightarrow> gf \<Rightarrow> gf" where
  "borrow_step t i m =
     (let m = m @ [t ! i - 0xffff - (drop_bit 16 (m ! (i - 1)) AND 1)]
      in m[i - 1 := m ! (i - 1) AND 0xffff])"

definition reduce_once :: "gf \<Rightarrow> gf" where
  "reduce_once t =
     (let m = [t ! 0 - 0xffed];
          m = fold (borrow_step t) [1..<15] m;
          m = m @ [t ! 15 - 0x7fff - (drop_bit 16 (m ! 14) AND 1)];
          b = drop_bit 16 (m ! 15) AND 1;
          m = m[14 := m ! 14 AND 0xffff]
      in fst (sel25519 t m (1 - b)))"

definition pack25519 :: "gf \<Rightarrow> bytes" where
  "pack25519 n =
     (let t = car25519 (car25519 (car25519 n));
          t = (reduce_once ^^ 2) t
      in concat (map (\<lambda>i. [word_of_int (t ! i AND 0xff), word_of_int (drop_bit 8 (t ! i))]) [0..<16]))"

definition unpack25519 :: "bytes \<Rightarrow> gf" where
  "unpack25519 n =
     (let x = map (\<lambda>i. uint (n ! (2 * i)) + push_bit 8 (uint (n ! (2 * i + 1)))) [0..<16]
      in x[15 := x ! 15 AND 0x7fff])"

definition fadd :: "gf \<Rightarrow> gf \<Rightarrow> gf" where
  "fadd a b = map (\<lambda>i. a ! i + b ! i) [0..<16]"

definition fsub :: "gf \<Rightarrow> gf \<Rightarrow> gf" where
  "fsub a b = map (\<lambda>i. a ! i - b ! i) [0..<16]"

definition mul_row :: "gf \<Rightarrow> gf \<Rightarrow> nat \<Rightarrow> gf \<Rightarrow> gf" where
  "mul_row a b i t = fold (\<lambda>j t. t[i + j := t ! (i + j) + a ! i * b ! j]) [0..<16] t"

definition fmul :: "gf \<Rightarrow> gf \<Rightarrow> gf" where
  "fmul a b =
     (let t = fold (mul_row a b) [0..<16] (replicate 31 0);
          t = fold (\<lambda>i t. t[i := t ! i + 38 * t ! (i + 16)]) [0..<15] t
      in car25519 (car25519 (take 16 t)))"

definition fsquare :: "gf \<Rightarrow> gf" where
  "fsquare a = fmul a a"

definition inv_step :: "gf \<Rightarrow> nat \<Rightarrow> gf \<Rightarrow> gf" where
  "inv_step x a c =
     (let c = fsquare c in if a \<noteq> 2 \<and> a \<noteq> 4 then fmul c x else c)"

definition finverse :: "gf \<Rightarrow> gf" where
  "finverse x = fold (inv_step x) (rev [0..<254]) x"

text \<open>The arithmetic of one ladder step, between the two conditional swaps.\<close>

definition ladder_arith :: "gf \<Rightarrow> gf \<times> gf \<times> gf \<times> gf \<Rightarrow> gf \<times> gf \<times> gf \<times> gf" where
  "ladder_arith x s =
     (let (a, b, c, d) = s;
          e = fadd a c; a = fsub a c; c = fadd b d; b = fsub b d;
          d = fsquare e; f = fsquare a; a = fmul c a; c = fmul b e;
          e = fadd a c; a = fsub a c; b = fsquare a; c = fsub d f;
          a = fmul c k121665; a = fadd a d; c = fmul c a; a = fmul d f;
          d = fmul b x; b = fsquare e
      in (a, b, c, d))"

definition ladder_step :: "bytes \<Rightarrow> gf \<Rightarrow> nat \<Rightarrow> gf \<times> gf \<times> gf \<times> gf \<Rightarrow> gf \<times> gf \<times> gf \<times> gf" where
  "ladder_step z x i s =
     (let (a, b, c, d) = s;
          r = uint (drop_bit (i mod 8) (z ! (i div 8)) AND 1);
          (a, b) = sel25519 a b r;
          (c, d) = sel25519 c d r;
          (a, b, c, d) = ladder_arith x (a, b, c, d);
          (a, b) = sel25519 a b r;
          (c, d) = sel25519 c d r
      in (a, b, c, d))"

definition clamp_scalar :: "bytes \<Rightarrow> bytes" where
  "clamp_scalar scalar =
     (let z = take 31 scalar @ [(scalar ! 31 AND 127) OR 64] in z[0 := z ! 0 AND 248])"

definition x25519_scalarmult :: "bytes \<Rightarrow> bytes \<Rightarrow> bytes" where
  "x25519_scalarmult scalar point =
     (let z = clamp_scalar scalar;
          x = unpack25519 point;
          one = 1 # replicate 15 0; zero = replicate 16 0;
          (a, b, c, d) = fold (ladder_step z x) (rev [0..<255]) (one, x, zero, one);
          c = finverse c
      in pack25519 (fmul a c))"

definition x25519_public_key :: "bytes \<Rightarrow> bytes" where
  "x25519_public_key secret = x25519_scalarmult secret (9 # replicate 31 0)"

definition x25519_is_zero :: "bytes \<Rightarrow> bool" where
  "x25519_is_zero v = (fold (\<lambda>i acc. acc OR v ! i) [0..<32] 0 = 0)"

end
