(* ===== verification/X25519Field.thy ===== *)
theory X25519Field
  imports X25519
begin

text \<open>
  The limbs of \<open>x25519.c\<close> as numbers modulo \<open>2^255 - 19\<close>.  \<open>val\<close> reads a limb list back, \<open>fe\<close> is
  its residue.  One carry pass is a run of carries along the list (\<open>carry_run\<close>) whose last carry
  comes back multiplied by 38; from this follow the value and the ranges of \<open>car25519\<close>,
  \<open>fmul\<close> and the canonical form of \<open>pack25519\<close>.  \<open>tight\<close> is the range every product has and
  \<open>loose\<close> the range of a sum or difference of two of them, for which a product cannot overflow.
\<close>

abbreviation P25519 :: int where
  "P25519 \<equiv> 2 ^ 255 - 19"

fun val :: "gf \<Rightarrow> int" where
  "val [] = 0"
| "val (x # xs) = x + 2 ^ 16 * val xs"

definition fe :: "gf \<Rightarrow> int" where
  "fe x = val x mod P25519"

lemma val_append: "val (a @ b) = val a + 2 ^ (16 * length a) * val b"
  by (induction a) (simp_all add: algebra_simps power_add)

lemma val_zero [simp]: "val (replicate n 0) = 0"
  by (induction n) auto

lemma val_update: "k < length t \<Longrightarrow> val (t[k := y]) = val t + (y - t ! k) * 2 ^ (16 * k)"
proof (induction t arbitrary: k)
  case (Cons x xs)
  show ?case
  proof (cases k)
    case (Suc j)
    then show ?thesis using Cons.IH [of j] Cons.prems by (simp add: algebra_simps power_add)
  qed simp
qed simp

subsection \<open>The carry pass\<close>

fun carry_run :: "int \<Rightarrow> gf \<Rightarrow> gf \<times> int" where
  "carry_run c [] = ([], c)"
| "carry_run c (x # xs) =
     (let v = x + c; (r, c') = carry_run (v div 2 ^ 16) xs in (v mod 2 ^ 16 # r, c'))"

abbreviation limb :: "int \<Rightarrow> bool" where
  "limb x \<equiv> 0 \<le> x \<and> x < 2 ^ 16"

lemma carry_run_snoc:
  "carry_run c (xs @ [y]) = (case carry_run c xs of (r, c') \<Rightarrow> (r @ [(y + c') mod 2 ^ 16], (y + c') div 2 ^ 16))"
  by (induction xs arbitrary: c) (auto simp: Let_def split: prod.splits)

lemma carry_run_length: "carry_run c xs = (r, c') \<Longrightarrow> length r = length xs"
  by (induction xs arbitrary: c r) (auto simp: Let_def split: prod.splits)

lemma carry_run_limbs: "carry_run c xs = (r, c') \<Longrightarrow> \<forall>x \<in> set r. limb x"
  by (induction xs arbitrary: c r) (auto simp: Let_def split: prod.splits)

lemma carry_run_val: "carry_run c xs = (r, c') \<Longrightarrow> val r + 2 ^ (16 * length xs) * c' = val xs + c"
proof (induction xs arbitrary: c r c')
  case (Cons x xs)
  obtain r2 c2 where run: "carry_run ((x + c) div 2 ^ 16) xs = (r2, c2)" by fastforce
  with Cons.prems have r: "r = (x + c) mod 2 ^ 16 # r2" "c' = c2" by (auto simp: Let_def)
  have ih: "val r2 + 2 ^ (16 * length xs) * c2 = val xs + (x + c) div 2 ^ 16" by (rule Cons.IH [OF run])
  have "val r + 2 ^ (16 * length (x # xs)) * c' = (x + c) mod 2 ^ 16 + 2 ^ 16 * (val r2 + 2 ^ (16 * length xs) * c2)"
    by (simp add: r algebra_simps power_add)
  also have "\<dots> = (x + c) mod 2 ^ 16 + 2 ^ 16 * (val xs + (x + c) div 2 ^ 16)" by (simp only: ih)
  also have "\<dots> = val (x # xs) + c"
    using mult_div_mod_eq [of "2 ^ 16" "x + c"] by (simp add: distrib_left)
  finally show ?case .
qed simp

lemma carry_run_zero: "\<forall>x \<in> set xs. limb x \<Longrightarrow> carry_run 0 xs = (xs, 0)"
  by (induction xs) (auto simp: Let_def)

lemma div16: "a * 2 ^ 16 \<le> v \<Longrightarrow> v < b * 2 ^ 16 \<Longrightarrow> a \<le> v div 2 ^ 16 \<and> v div 2 ^ 16 < (b :: int)"
proof -
  assume v: "a * 2 ^ 16 \<le> v" "v < b * 2 ^ 16"
  define q m where "q = v div 2 ^ 16" and "m = v mod 2 ^ 16"
  have "v = 65536 * q + m" "0 \<le> m" "m < 65536" by (simp_all add: q_def m_def)
  with v have "a \<le> q \<and> q < b" by simp
  then show ?thesis by (simp only: q_def)
qed

text \<open>How far a carry reaches: a huge one shrinks to one, and a small one keeps its sign.\<close>

lemma carry_run_huge:
  assumes "carry_run c xs = (r, c')" "\<forall>x \<in> set xs. \<bar>x\<bar> < 2 ^ 45" "\<bar>c\<bar> \<le> 2 ^ 30"
  shows "\<bar>c'\<bar> \<le> 2 ^ 30"
  using assms
proof (induction xs arbitrary: c r)
  case (Cons x xs)
  have "- (2 ^ 30) \<le> (x + c) div 2 ^ 16 \<and> (x + c) div 2 ^ 16 < 2 ^ 30"
    using Cons.prems by (intro div16) auto
  then have "\<bar>(x + c) div 2 ^ 16\<bar> \<le> 2 ^ 30" by linarith
  with Cons show ?case by (auto simp: Let_def split: prod.splits)
qed simp

lemma carry_run_up:
  assumes "carry_run c xs = (r, c')" "\<forall>x \<in> set xs. limb x" "0 \<le> c" "c \<le> 1"
  shows "0 \<le> c' \<and> c' \<le> 1"
  using assms
proof (induction xs arbitrary: c r)
  case (Cons x xs)
  have "0 \<le> (x + c) div 2 ^ 16 \<and> (x + c) div 2 ^ 16 < 2" using Cons.prems by (intro div16) auto
  then have "0 \<le> (x + c) div 2 ^ 16 \<and> (x + c) div 2 ^ 16 \<le> 1" by linarith
  with Cons show ?case by (auto simp: Let_def split: prod.splits)
qed simp

lemma carry_run_down:
  assumes "carry_run c xs = (r, c')" "\<forall>x \<in> set xs. limb x" "-1 \<le> c" "c \<le> 0"
  shows "-1 \<le> c' \<and> c' \<le> 0"
  using assms
proof (induction xs arbitrary: c r)
  case (Cons x xs)
  have "-1 \<le> (x + c) div 2 ^ 16 \<and> (x + c) div 2 ^ 16 < 1" using Cons.prems by (intro div16) auto
  then have "-1 \<le> (x + c) div 2 ^ 16 \<and> (x + c) div 2 ^ 16 \<le> 0" by linarith
  with Cons show ?case by (auto simp: Let_def split: prod.splits)
qed simp

lemma carry_step:
  assumes "i < 15" "i < length r" "length r = 16"
  shows "car_step i r = r[i := r ! i mod 2 ^ 16, Suc i := r ! Suc i + r ! i div 2 ^ 16]"
proof -
  have "drop_bit 16 (r ! i + 65536) = r ! i div 65536 + 1" by (simp add: drop_bit_eq_div)
  moreover have "y + 65536 - push_bit 16 (y div 65536 + 1) = y mod 65536" for y :: int
    by (simp add: push_bit_eq_mult minus_div_mult_eq_mod [symmetric])
  ultimately show ?thesis
    using assms by (simp add: car_step_def Let_def nth_list_update list_update_swap)
qed


lemma car_prefix:
  assumes "length x = 16" "j \<le> 15"
  shows "fold car_step [0..<j] x =
    (case carry_run 0 (take j x) of (r, c) \<Rightarrow> r @ (x ! j + c) # drop (Suc j) x)"
  using assms(2)
proof (induction j)
  case 0
  then show ?case using assms(1) by (cases x) auto
next
  case (Suc j)
  obtain r c where run: "carry_run 0 (take j x) = (r, c)" by fastforce
  have len: "length r = j" using carry_run_length [OF run] assms(1) Suc.prems by simp
  have tk: "take (Suc j) x = take j x @ [x ! j]" using assms(1) Suc.prems by (simp add: take_Suc_conv_app_nth)
  have dr: "drop (Suc j) x = x ! Suc j # drop (Suc (Suc j)) x"
    using assms(1) Suc.prems by (simp add: Cons_nth_drop_Suc)
  have "fold car_step [0..<Suc j] x = car_step j (r @ (x ! j + c) # drop (Suc j) x)"
    using Suc.IH Suc.prems run by simp
  also have "\<dots> = r @ [(x ! j + c) mod 2 ^ 16, x ! Suc j + (x ! j + c) div 2 ^ 16] @ drop (Suc (Suc j)) x"
    using carry_step [of j "r @ (x ! j + c) # drop (Suc j) x"] len assms(1) Suc.prems
    by (simp add: nth_append list_update_append dr)
  also have "\<dots> = (case carry_run 0 (take (Suc j) x) of (r, c) \<Rightarrow> r @ (x ! Suc j + c) # drop (Suc (Suc j)) x)"
    by (simp add: tk carry_run_snoc run)
  finally show ?case .
qed

lemma car_eq:
  assumes "length x = 16" "carry_run 0 x = (r, c)"
  shows "car25519 x = r[0 := r ! 0 + 38 * c]"
proof -
  obtain r' c' where run: "carry_run 0 (take 15 x) = (r', c')" by fastforce
  have len: "length r' = 15" using carry_run_length [OF run] assms(1) by simp
  have x: "x = take 15 x @ [x ! 15]"
    using assms(1) by (simp add: take_Suc_conv_app_nth [symmetric] numeral_eq_Suc)
  have rc: "r = r' @ [(x ! 15 + c') mod 2 ^ 16]" "c = (x ! 15 + c') div 2 ^ 16"
    using assms(2) carry_run_snoc [of 0 "take 15 x" "x ! 15"] x run by simp_all
  have "[0..<16] = [0..<15] @ [15 :: nat]" by (simp add: upt_rec)
  then have "car25519 x = car_step 15 (r' @ [x ! 15 + c'])"
    using car_prefix [OF assms(1), of 15] run assms(1) by (simp add: car25519_def del: upt_rec_numeral)
  also have "\<dots> = r[0 := r ! 0 + 38 * c]"
  proof -
    obtain h t where r': "r' = h # t" "length t = 14" using len by (cases r') auto
    have "drop_bit 16 (y + 65536) = y div 65536 + 1" "y + 65536 - push_bit 16 (y div 65536 + 1) = y mod 65536" for y :: int
      by (simp_all add: drop_bit_eq_div push_bit_eq_mult minus_div_mult_eq_mod [symmetric])
    then show ?thesis by (simp add: car_step_def Let_def r' rc nth_append list_update_append)
  qed
  finally show ?thesis .
qed


lemma length_car [simp]: "length x = 16 \<Longrightarrow> length (car25519 x) = 16"
proof -
  assume x: "length x = 16"
  obtain r c where run: "carry_run 0 x = (r, c)" by fastforce
  show ?thesis using car_eq [OF x run] carry_run_length [OF run] x by simp
qed

lemma val_car: "length x = 16 \<Longrightarrow> val (car25519 x) mod P25519 = val x mod P25519"
proof -
  assume x: "length x = 16"
  obtain r c where run: "carry_run 0 x = (r, c)" by fastforce
  have "val (car25519 x) = val r + 38 * c"
    using car_eq [OF x run] carry_run_length [OF run] x by (simp add: val_update)
  also have "\<dots> = val x + P25519 * (- 2 * c)" using carry_run_val [OF run] x by simp
  finally show ?thesis by (simp only: mod_mult_self2)
qed

subsection \<open>Ranges\<close>

definition norm :: "gf \<Rightarrow> bool" where
  "norm x \<longleftrightarrow> length x = 16 \<and> (\<forall>y \<in> set x. limb y)"

definition tight :: "gf \<Rightarrow> bool" where
  "tight x \<longleftrightarrow> length x = 16 \<and> - 38 \<le> hd x \<and> hd x < 2 ^ 16 + 38 \<and> (\<forall>y \<in> set (tl x). limb y)"

definition loose :: "gf \<Rightarrow> bool" where
  "loose x \<longleftrightarrow> length x = 16 \<and> (\<forall>y \<in> set x. \<bar>y\<bar> \<le> 2 ^ 17 + 100)"

lemma norm_tight: "norm x \<Longrightarrow> tight x"
  by (cases x) (auto simp: norm_def tight_def)

lemma tight_loose: "tight x \<Longrightarrow> loose x"
  by (cases x) (fastforce simp: tight_def loose_def)+

lemma tight_length: "tight x \<Longrightarrow> length x = 16" and loose_length: "loose x \<Longrightarrow> length x = 16"
  by (simp_all add: tight_def loose_def)

lemma car_norm: "norm x \<Longrightarrow> car25519 x = x"
  using car_eq [of x x 0] carry_run_zero [of x] by (simp add: norm_def)

lemma car_huge:
  assumes "length x = 16" "\<forall>y \<in> set x. \<bar>y\<bar> < 2 ^ 45"
  shows "\<bar>hd (car25519 x)\<bar> \<le> 2 ^ 37 \<and> (\<forall>y \<in> set (tl (car25519 x)). limb y)"
proof -
  obtain r c where run: "carry_run 0 x = (r, c)" by fastforce
  have "length r = 16" using carry_run_length [OF run] assms(1) by simp
  then obtain h t where r: "r = h # t" by (cases r) auto
  have "\<bar>c\<bar> \<le> 1073741824" using carry_run_huge [OF run assms(2)] by simp
  moreover have h: "limb h" "\<forall>y \<in> set t. limb y" using carry_run_limbs [OF run] r by auto
  ultimately have "\<bar>h + 38 * c\<bar> \<le> 137438953472" by simp linarith
  then show ?thesis using car_eq [OF assms(1) run] h by (simp add: r)
qed

lemma car_second:
  assumes "length x = 16" "\<bar>hd x\<bar> \<le> 2 ^ 37" "\<forall>y \<in> set (tl x). limb y"
  shows "tight (car25519 x)"
proof -
  obtain a b d xs where x: "x = a # b # d # xs" using assms(1) by (auto simp: numeral_eq_Suc length_Suc_conv)
  obtain r c where run: "carry_run 0 x = (r, c)" by fastforce
  have len: "length r = 16" using carry_run_length [OF run] assms(1) by simp
  define c0 where "c0 = a div 2 ^ 16"
  define c1 where "c1 = (b + c0) div 2 ^ 16"
  define c2 where "c2 = (d + c1) div 2 ^ 16"
  have b: "limb b" "limb d" "\<forall>y \<in> set xs. limb y" using assms(3) x by auto
  have "- (2 ^ 21) \<le> c0 \<and> c0 < 2 ^ 21 + 1" unfolding c0_def by (rule div16) (use assms(2) x in auto)
  then have "- (2 ^ 5) \<le> c1 \<and> c1 < 2 ^ 5 + 2" unfolding c1_def by (intro div16) (use b(1) in auto)
  then have "- 1 \<le> c2 \<and> c2 < 2" unfolding c2_def by (intro div16) (use b(2) in auto)
  then have c2: "0 \<le> c2 \<and> c2 \<le> 1 \<or> - 1 \<le> c2 \<and> c2 \<le> 0" by linarith
  obtain r2 where run2: "carry_run c2 xs = (r2, c)"
    using run by (auto simp: x Let_def c0_def c1_def c2_def split: prod.splits)
  have "- 1 \<le> c \<and> c \<le> 1"
    using c2 carry_run_up [OF run2 b(3)] carry_run_down [OF run2 b(3)] by auto
  moreover obtain h t where r: "r = h # t" using len by (cases r) auto
  moreover have "limb h" "\<forall>y \<in> set t. limb y" using carry_run_limbs [OF run] r by auto
  ultimately show ?thesis using car_eq [OF assms(1) run] len by (simp add: tight_def)
qed

lemma car_tight: "tight x \<Longrightarrow> norm (car25519 x)"
proof -
  assume x: "tight x"
  then obtain a xs where xs: "x = a # xs" "length xs = 15" "- 38 \<le> a" "a < 2 ^ 16 + 38" "\<forall>y \<in> set xs. limb y"
    by (cases x) (auto simp: tight_def)
  obtain r2 c where run: "carry_run (a div 2 ^ 16) xs = (r2, c)" by fastforce
  have r: "carry_run 0 x = (a mod 2 ^ 16 # r2, c)" using run by (simp add: xs(1) Let_def)
  note car = car_eq [OF tight_length [OF x] r]
  have lim: "\<forall>y \<in> set r2. limb y" "length r2 = 15"
    using carry_run_limbs [OF run] carry_run_length [OF run] xs(2) by auto
  consider "a < 0" | "0 \<le> a" "a < 2 ^ 16" | "2 ^ 16 \<le> a" by linarith
  then have "limb (a mod 2 ^ 16 + 38 * c)"
  proof cases
    case 1
    then have "a div 2 ^ 16 = - 1" using div16 [of "-1" a 0] xs(3) by simp
    moreover from this have "a mod 2 ^ 16 = a + 2 ^ 16" by (simp add: minus_mult_div_eq_mod [symmetric])
    ultimately show ?thesis using carry_run_down [OF run xs(5)] xs(3) 1 by auto
  next
    case 2
    then show ?thesis using carry_run_up [OF run xs(5)] carry_run_down [OF run xs(5)] by auto
  next
    case 3
    then have "a div 2 ^ 16 = 1" using div16 [of 1 a 2] xs(4) by simp
    moreover from this have "a mod 2 ^ 16 = a - 2 ^ 16" by (simp add: minus_mult_div_eq_mod [symmetric])
    ultimately show ?thesis using carry_run_up [OF run xs(5)] xs(4) 3 by auto
  qed
  then show ?thesis using car lim by (simp add: norm_def)
qed


subsection \<open>The field operations\<close>

lemma gf16: "[0..<16] = [0, 1, 2, 3, 4, 5, 6, 7, 8, 9, 10, 11, 12, 13, 14, 15 :: nat]"
  by (simp add: upt_rec)

lemma val_map_upt: "val (map f [m..<m + n]) = (\<Sum>i<n. f (m + i) * 2 ^ (16 * i))"
proof (induction n arbitrary: m)
  case (Suc n)
  have "[m..<m + Suc n] = m # [Suc m..<Suc m + n]" by (simp add: upt_rec [of m])
  then show ?case using Suc.IH [of "Suc m"]
    by (simp add: sum.lessThan_Suc_shift sum_distrib_left algebra_simps power_add del: sum.lessThan_Suc)
qed simp

lemma val_nth: "val x = (\<Sum>i<length x. x ! i * 2 ^ (16 * i))"
  using val_map_upt [of "\<lambda>i. x ! i" 0 "length x"] by (simp add: map_nth)

lemma length_fadd [simp]: "length (fadd a b) = 16" and length_fsub [simp]: "length (fsub a b) = 16"
  by (simp_all add: fadd_def fsub_def)

lemma val_fadd: "length a = 16 \<Longrightarrow> length b = 16 \<Longrightarrow> val (fadd a b) = val a + val b"
  using val_map_upt [of "\<lambda>i. a ! i + b ! i" 0 16]
  by (simp add: fadd_def val_nth [of a] val_nth [of b] sum.distrib [symmetric] distrib_right)

lemma val_fsub: "length a = 16 \<Longrightarrow> length b = 16 \<Longrightarrow> val (fsub a b) = val a - val b"
  using val_map_upt [of "\<lambda>i. a ! i - b ! i" 0 16]
  by (simp add: fsub_def val_nth [of a] val_nth [of b] sum_subtractf [symmetric] left_diff_distrib)

lemma tight_nth: "tight a \<Longrightarrow> i < 16 \<Longrightarrow> - 38 \<le> a ! i \<and> a ! i < 2 ^ 16 + 38"
proof -
  assume t: "tight a" and i: "i < 16"
  then obtain h xs where a: "a = h # xs" "length xs = 15" by (cases a) (auto simp: tight_def)
  show ?thesis
  proof (cases i)
    case (Suc j)
    then have "xs ! j \<in> set xs" using a(2) i by simp
    then have "limb (xs ! j)" using t a(1) by (simp add: tight_def)
    then show ?thesis by (simp add: a(1) Suc)
  qed (use t a(1) in \<open>simp add: tight_def\<close>)
qed

lemma loose_fadd: "tight a \<Longrightarrow> tight b \<Longrightarrow> loose (fadd a b)"
  using tight_nth [of a] tight_nth [of b] by (fastforce simp: loose_def fadd_def abs_le_iff)

lemma loose_fsub: "tight a \<Longrightarrow> tight b \<Longrightarrow> loose (fsub a b)"
  using tight_nth [of a] tight_nth [of b] by (fastforce simp: loose_def fsub_def abs_le_iff)

text \<open>The schoolbook product: each inner step adds one term of the product, and no entry grows
  beyond sixteen products of loose limbs.\<close>

lemma mul_row_props:
  assumes "length t = 31" "i < 16"
  shows "length (mul_row a b i t) = 31"
    "length b = 16 \<Longrightarrow> val (mul_row a b i t) = val t + a ! i * 2 ^ (16 * i) * val b"
    "\<forall>j < 16. \<bar>a ! i * b ! j\<bar> \<le> K \<Longrightarrow> \<forall>k < 31. \<bar>t ! k\<bar> \<le> M \<Longrightarrow> \<forall>k < 31. \<bar>mul_row a b i t ! k\<bar> \<le> M + K"
proof -
  let ?step = "\<lambda>j t. t[i + j := t ! (i + j) + a ! i * b ! j]"
  have inv: "length (fold ?step [0..<n] t) = 31 \<and>
      val (fold ?step [0..<n] t) = val t + (\<Sum>j<n. a ! i * b ! j * 2 ^ (16 * (i + j))) \<and>
      (\<forall>k. fold ?step [0..<n] t ! k = (if i \<le> k \<and> k < i + n then t ! k + a ! i * b ! (k - i) else t ! k))"
    if "n \<le> 16" for n
    using that
  proof (induction n)
    case 0
    then show ?case using assms(1) by simp
  next
    case (Suc n)
    then show ?case using assms(2) by (auto simp: val_update nth_list_update)
  qed
  from inv [of 16] show "length (mul_row a b i t) = 31" by (simp add: mul_row_def)
  show "val (mul_row a b i t) = val t + a ! i * 2 ^ (16 * i) * val b" if "length b = 16"
    using inv [of 16] that by (simp add: mul_row_def val_nth [of b] sum_distrib_left algebra_simps power_add)
  show "\<forall>k < 31. \<bar>mul_row a b i t ! k\<bar> \<le> M + K"
    if "\<forall>j < 16. \<bar>a ! i * b ! j\<bar> \<le> K" "\<forall>k < 31. \<bar>t ! k\<bar> \<le> M"
  proof (intro allI impI)
    fix k :: nat
    assume k: "k < 31"
    have K: "0 \<le> K" using that(1) by (meson abs_ge_zero order_trans zero_less_numeral)
    show "\<bar>mul_row a b i t ! k\<bar> \<le> M + K"
    proof (cases "i \<le> k \<and> k < i + 16")
      case True
      then have "\<bar>a ! i * b ! (k - i)\<bar> \<le> K" using that(1) by auto
      then have "\<bar>t ! k + a ! i * b ! (k - i)\<bar> \<le> M + K" using that(2) k by (meson abs_triangle_ineq add_mono order_trans)
      then show ?thesis using inv [of 16] True by (simp add: mul_row_def)
    next
      case False
      then show ?thesis using inv [of 16] that(2) k K by (auto simp: mul_row_def intro: order_trans)
    qed
  qed
qed


definition columns :: "gf \<Rightarrow> gf \<Rightarrow> gf" where
  "columns a b = fold (mul_row a b) [0..<16] (replicate 31 0)"

lemma columns_props:
  assumes "length a = 16" "length b = 16"
  shows "length (columns a b) = 31" "val (columns a b) = val a * val b"
    "\<forall>i < 16. \<forall>j < 16. \<bar>a ! i * b ! j\<bar> \<le> K \<Longrightarrow> k < 31 \<Longrightarrow> \<bar>columns a b ! k\<bar> \<le> 16 * K"
proof -
  let ?f = "\<lambda>n. fold (mul_row a b) [0..<n] (replicate 31 0)"
  have inv: "length (?f n) = 31 \<and> val (?f n) = (\<Sum>i<n. a ! i * 2 ^ (16 * i)) * val b" if "n \<le> 16" for n
    using that
  proof (induction n)
    case (Suc n)
    then show ?case
      using mul_row_props(1,2) [where t = "?f n" and i = n and a = a and b = b] assms(2) by (simp add: distrib_right)
  qed simp
  from inv [of 16] show "length (columns a b) = 31" by (simp add: columns_def)
  from inv [of 16] show "val (columns a b) = val a * val b" using assms(1) by (simp add: columns_def val_nth [of a])
  have bound: "\<forall>k < 31. \<bar>?f n ! k\<bar> \<le> int n * K" if "n \<le> 16" "\<forall>i < 16. \<forall>j < 16. \<bar>a ! i * b ! j\<bar> \<le> K" for n
    using that(1)
  proof (induction n)
    case (Suc n)
    then show ?case
      using mul_row_props(3) [where t = "?f n" and i = n and a = a and b = b and K = K and M = "int n * K"] that(2) inv [of n] by (simp add: algebra_simps)
  qed simp
  show "\<bar>columns a b ! k\<bar> \<le> 16 * K"
    if "\<forall>i < 16. \<forall>j < 16. \<bar>a ! i * b ! j\<bar> \<le> K" "k < 31"
    using bound [of 16] that by (simp add: columns_def)
qed

text \<open>Folding the upper columns back, \<open>2^256\<close> being \<open>38\<close>.\<close>

lemma fold_back:
  assumes "length t = 31"
  defines "u \<equiv> take 16 (fold (\<lambda>i t. t[i := t ! i + 38 * t ! (i + 16)]) [0..<15] t)"
  shows "length u = 16" "val u mod P25519 = val t mod P25519"
    "\<forall>k < 31. \<bar>t ! k\<bar> \<le> M \<Longrightarrow> \<forall>y \<in> set u. \<bar>y\<bar> \<le> 39 * M"
proof -
  let ?f = "\<lambda>n. fold (\<lambda>i t. t[i := t ! i + 38 * t ! (i + 16)]) [0..<n] t"
  have inv: "length (?f n) = 31 \<and> (\<forall>k. ?f n ! k = (if k < n then t ! k + 38 * t ! (k + 16) else t ! k))" if "n \<le> 15" for n
    using that
  proof (induction n)
    case (Suc n)
    then show ?case using assms(1) by (auto simp: nth_list_update)
  qed (simp add: assms(1))
  note i15 = inv [of 15, simplified]
  show len: "length u = 16" using i15 by (simp add: u_def)
  have nth: "u ! k = (if k < 15 then t ! k + 38 * t ! (k + 16) else t ! k)" if "k < 16" for k
    using i15 that by (simp add: u_def)
  have "val u = (\<Sum>k<16. u ! k * 2 ^ (16 * k))" using val_nth [of u] len by simp
  also have "\<dots> = (\<Sum>k<16. t ! k * 2 ^ (16 * k)) + 38 * (\<Sum>k<15. t ! (k + 16) * 2 ^ (16 * k))"
  proof -
    have "(\<Sum>k<15. u ! k * 2 ^ (16 * k)) = (\<Sum>k<15. t ! k * 2 ^ (16 * k) + 38 * (t ! (k + 16) * 2 ^ (16 * k)))"
      by (rule sum.cong) (auto simp: nth distrib_right)
    moreover have "{..<16} = insert 15 {..<15 :: nat}" by auto
    ultimately show ?thesis using nth [of 15] by (simp add: sum.distrib sum_distrib_left)
  qed
  finally have vu: "val u = (\<Sum>k<16. t ! k * 2 ^ (16 * k)) + 38 * (\<Sum>k<15. t ! (k + 16) * 2 ^ (16 * k))" .
  have "val t = val (take 16 t) + 2 ^ 256 * val (drop 16 t)"
    using val_append [of "take 16 t" "drop 16 t"] assms(1) by simp
  moreover have "val (take 16 t) = (\<Sum>k<16. t ! k * 2 ^ (16 * k))" "val (drop 16 t) = (\<Sum>k<15. t ! (k + 16) * 2 ^ (16 * k))"
    using assms(1) by (simp_all add: val_nth add.commute)
  ultimately have "val t = val u + P25519 * (2 * val (drop 16 t))" using vu by simp
  then show "val u mod P25519 = val t mod P25519" by (simp only: mod_mult_self2)
  show "\<forall>y \<in> set u. \<bar>y\<bar> \<le> 39 * M" if "\<forall>k < 31. \<bar>t ! k\<bar> \<le> M"
  proof
    fix y
    assume "y \<in> set u"
    then obtain k where k: "k < 16" "y = u ! k" using len by (metis in_set_conv_nth)
    have M: "0 \<le> M" using that [rule_format, of 0] by linarith
    have "\<bar>t ! k\<bar> \<le> M" "k < 15 \<Longrightarrow> \<bar>t ! (k + 16)\<bar> \<le> M" using that k(1) by auto
    then show "\<bar>y\<bar> \<le> 39 * M" using nth [OF k(1)] k(2) M by (cases "k < 15") auto
  qed
qed

lemma fmul_eq: "fmul a b =
    car25519 (car25519 (take 16 (fold (\<lambda>i t. t[i := t ! i + 38 * t ! (i + 16)]) [0..<15] (columns a b))))"
  by (simp add: fmul_def columns_def Let_def)

lemma length_fmul: "length a = 16 \<Longrightarrow> length b = 16 \<Longrightarrow> length (fmul a b) = 16"
  by (simp only: fmul_eq length_car fold_back(1) columns_props(1))

lemma val_fmul:
  assumes "length a = 16" "length b = 16"
  shows "val (fmul a b) mod P25519 = val a * val b mod P25519"
proof -
  note c = columns_props [OF assms]
  note b = fold_back [OF c(1)]
  show ?thesis by (simp only: fmul_eq val_car b(1) length_car b(2) c(2))
qed

text \<open>No \<open>int64_t\<close> overflows, and the product is tight again.\<close>

lemma loose_nth: "loose a \<Longrightarrow> i < 16 \<Longrightarrow> \<bar>a ! i\<bar> \<le> 2 ^ 17 + 100"
  by (simp add: loose_def)

lemma fmul_fits:
  assumes "loose a" "loose b" "k < 31"
  shows "\<bar>columns a b ! k\<bar> \<le> 16 * (2 ^ 17 + 100) ^ 2"
proof (rule columns_props(3) [OF loose_length [OF assms(1)] loose_length [OF assms(2)] _ assms(3)], intro allI impI)
  fix i j :: nat
  assume "i < 16" "j < 16"
  then have "\<bar>a ! i\<bar> * \<bar>b ! j\<bar> \<le> (2 ^ 17 + 100) * (2 ^ 17 + 100)"
    using loose_nth [OF assms(1)] loose_nth [OF assms(2)] by (intro mult_mono) auto
  then show "\<bar>a ! i * b ! j\<bar> \<le> (2 ^ 17 + 100) ^ 2" by (simp add: abs_mult power2_eq_square)
qed

lemma tight_fmul:
  assumes "loose a" "loose b"
  shows "tight (fmul a b)"
proof -
  note l = loose_length [OF assms(1)] loose_length [OF assms(2)]
  note c = columns_props(1) [OF l]
  let ?u = "take 16 (fold (\<lambda>i t. t[i := t ! i + 38 * t ! (i + 16)]) [0..<15] (columns a b))"
  have "\<forall>k < 31. \<bar>columns a b ! k\<bar> \<le> 16 * (2 ^ 17 + 100) ^ 2" using fmul_fits [OF assms] by blast
  from fold_back(3) [OF c this] have "\<forall>y \<in> set ?u. \<bar>y\<bar> < 2 ^ 45" by fastforce
  from car_huge [OF fold_back(1) [OF c] this] show ?thesis
    unfolding fmul_eq using car_second [OF length_car [OF fold_back(1) [OF c]]] by blast
qed


subsection \<open>Residues\<close>

named_theorems fe_simps \<open>field operations on limbs as operations on residues\<close>

lemma fe_range: "0 \<le> fe x \<and> fe x < P25519"
  by (simp add: fe_def)

lemma fe_fadd [fe_simps]: "length a = 16 \<Longrightarrow> length b = 16 \<Longrightarrow> fe (fadd a b) = (fe a + fe b) mod P25519"
  by (simp add: fe_def val_fadd mod_add_eq)

lemma fe_fsub [fe_simps]: "length a = 16 \<Longrightarrow> length b = 16 \<Longrightarrow> fe (fsub a b) = (fe a - fe b) mod P25519"
  by (simp add: fe_def val_fsub mod_diff_eq)

lemma fe_fmul [fe_simps]: "length a = 16 \<Longrightarrow> length b = 16 \<Longrightarrow> fe (fmul a b) = fe a * fe b mod P25519"
  by (simp only: fe_def val_fmul mod_mult_eq)

lemma fe_fsquare [fe_simps]: "length a = 16 \<Longrightarrow> fe (fsquare a) = fe a * fe a mod P25519"
  by (simp only: fsquare_def fe_fmul)

lemma k121665_props [fe_simps]: "tight k121665" "fe k121665 = 121665"
  by (simp_all add: k121665_def tight_def fe_def numeral_eq_Suc)

lemma tight_fsquare: "loose a \<Longrightarrow> tight (fsquare a)"
  by (simp add: fsquare_def tight_fmul)

subsection \<open>The conditional swap\<close>

lemma sel_swap:
  assumes "length p = 16" "length q = 16"
  shows "sel25519 p q 0 = (p, q)" "sel25519 p q 1 = (q, p)"
proof -
  have "a XOR (a XOR b) = b" "b XOR (a XOR b) = a" for a b :: int
    by (metis xor.assoc xor_self_eq xor.left_neutral, metis xor.assoc xor.commute xor_self_eq xor.left_neutral)
  then show "sel25519 p q 1 = (q, p)"
    using assms by (auto simp: sel25519_def Let_def intro!: nth_equalityI simp del: upt_rec_numeral)
  show "sel25519 p q 0 = (p, q)"
    using assms by (auto simp: sel25519_def Let_def intro!: nth_equalityI simp del: upt_rec_numeral)
qed

subsection \<open>The inverse\<close>

lemma inv_step_fe:
  assumes "tight x" "tight c" "fe c = fe x ^ n mod P25519"
  shows "tight (inv_step x a c)"
    "fe (inv_step x a c) = fe x ^ (2 * n + (if a \<noteq> 2 \<and> a \<noteq> 4 then 1 else 0)) mod P25519"
proof -
  note l = tight_length [OF assms(1)] tight_length [OF assms(2)]
  have sq: "tight (fsquare c)" by (rule tight_fsquare [OF tight_loose [OF assms(2)]])
  then show "tight (inv_step x a c)"
    using tight_fmul [OF tight_loose [OF sq] tight_loose [OF assms(1)]] by (simp add: inv_step_def Let_def)
  have e: "fe (fsquare c) = fe x ^ (2 * n) mod P25519"
    by (simp only: fe_fsquare l assms(3) mod_mult_eq mult_2 power_add)
  then have "fe (fmul (fsquare c) x) = fe x ^ (2 * n + 1) mod P25519"
    by (simp only: fe_fmul tight_length [OF sq] l power_add power_one_right mod_mult_left_eq)
  with e show "fe (inv_step x a c) = fe x ^ (2 * n + (if a \<noteq> 2 \<and> a \<noteq> 4 then 1 else 0)) mod P25519"
    by (simp add: inv_step_def Let_def)
qed

definition inv_exponent :: "nat list \<Rightarrow> nat \<Rightarrow> nat" where
  "inv_exponent as n = fold (\<lambda>a n. 2 * n + (if a \<noteq> 2 \<and> a \<noteq> 4 then 1 else 0)) as n"

lemma inv_steps:
  assumes "tight x"
  shows "tight c \<Longrightarrow> fe c = fe x ^ n mod P25519 \<Longrightarrow>
    tight (fold (inv_step x) as c) \<and> fe (fold (inv_step x) as c) = fe x ^ inv_exponent as n mod P25519"
proof (induction as arbitrary: c n)
  case (Cons a as)
  from Cons.IH [OF inv_step_fe(1) [OF assms Cons.prems] inv_step_fe(2) [OF assms Cons.prems]] show ?case
    by (simp add: inv_exponent_def)
qed (simp add: inv_exponent_def)

lemma inv_exponent_ones:
  "\<forall>a \<in> set as. a \<noteq> 2 \<and> a \<noteq> 4 \<Longrightarrow> inv_exponent as n + 1 = (n + 1) * 2 ^ length as"
  by (induction as arbitrary: n) (simp_all add: inv_exponent_def)

lemma inv_exponent_254: "inv_exponent (rev [0..<254]) 1 = 2 ^ 255 - 21"
proof -
  have "[0..<254] = [0..<5] @ [5..<254]" using upt_add_eq_append [of 0 5 249] by (simp del: upt_rec_numeral)
  moreover have "[0..<5] = [0, 1, 2, 3, 4 :: nat]" by (simp add: upt_rec)
  ultimately have split: "inv_exponent (rev [0..<254]) 1 = inv_exponent [4, 3, 2, 1, 0] (inv_exponent (rev [5..<254]) 1)"
    by (simp only: inv_exponent_def rev_append fold_append o_def) simp
  have "inv_exponent (rev [5..<254]) 1 + 1 = (1 + 1) * 2 ^ length (rev [5..<254])"
    by (rule inv_exponent_ones) auto
  then have "inv_exponent (rev [5..<254]) 1 = 2 ^ 250 - 1" by simp
  then show ?thesis by (simp only: split) (simp add: inv_exponent_def)
qed

lemma finverse_fe:
  assumes "tight x"
  shows "tight (finverse x)" "fe (finverse x) = fe x ^ (2 ^ 255 - 21) mod P25519"
proof -
  have one: "fe x = fe x ^ 1 mod P25519" using fe_range [of x] by simp
  note run = inv_steps [OF assms assms one, of "rev [0..<254]", unfolded inv_exponent_254]
  show "tight (finverse x)" using run by (simp add: finverse_def del: upt_rec_numeral)
  show "fe (finverse x) = fe x ^ (2 ^ 255 - 21) mod P25519" using run by (simp only: finverse_def)
qed

subsection \<open>Reading and writing the bytes\<close>

lemma le_num_pairs:
  "val (map (\<lambda>i. uint (n ! (2 * i)) + push_bit 8 (uint (n ! (2 * i + 1)))) [0..<m]) = int (le_num (take (2 * m) n))"
  if "2 * m \<le> length n"
  using that
proof (induction m)
  case (Suc m)
  have "take (2 * Suc m) n = take (2 * m) n @ [n ! (2 * m), n ! (2 * m + 1)]"
    using Suc.prems by (simp add: take_Suc_conv_app_nth)
  moreover have "256 ^ (2 * m) = (2 ^ (16 * m) :: int)" by (simp add: power_mult)
  ultimately show ?case
    using Suc by (simp add: val_append le_num_append push_bit_eq_mult algebra_simps power_mult [symmetric])
qed simp

lemma val_range: "\<forall>y \<in> set x. limb y \<Longrightarrow> 0 \<le> val x \<and> val x < 2 ^ (16 * length x)"
proof (induction x)
  case (Cons a x)
  then have a: "0 \<le> a" "a < 65536" and v: "0 \<le> val x" "val x + 1 \<le> 2 ^ (16 * length x)" by auto
  from mult_left_mono [OF v(2), of 65536] have "65536 * val x + 65536 \<le> 65536 * 2 ^ (16 * length x)" by simp
  with a v(1) show ?case by (simp add: power_add)
qed simp

lemma limb_pair: "limb (uint a + push_bit 8 (uint b))" for a b :: byte
proof -
  have "0 \<le> uint a" "uint a < 256" "0 \<le> uint b" "uint b < 256"
    using uint_bounded [of a] uint_bounded [of b] by simp_all
  then show ?thesis by (simp add: push_bit_eq_mult)
qed

lemma and_7fff: "y AND 0x7fff = y mod 2 ^ 15" for y :: int
proof -
  have "y AND 0x7fff = take_bit 15 y" by (simp only: take_bit_eq_mask) (simp add: mask_eq_exp_minus_1)
  then show ?thesis by (simp add: take_bit_eq_mod)
qed

lemma unpack_props:
  assumes "length n = 32"
  shows "norm (unpack25519 n)" "val (unpack25519 n) = int (le_num n) mod 2 ^ 255"
proof -
  define x where "x = map (\<lambda>i. uint (n ! (2 * i)) + push_bit 8 (uint (n ! (2 * i + 1)))) [0..<16]"
  have eq: "unpack25519 n = x[15 := x ! 15 AND 0x7fff]" by (simp only: unpack25519_def Let_def x_def)
  have len: "length x = 16" by (simp add: x_def)
  have limbs: "\<forall>y \<in> set x. limb y" using limb_pair by (auto simp: x_def simp del: upt_rec_numeral)
  have vx: "val x = int (le_num n)" using le_num_pairs [of 16 n] assms by (simp add: x_def del: upt_rec_numeral)
  obtain a t where x: "x = a @ [t]" "length a = 15" using len by (cases x rule: rev_cases) auto
  have "0 \<le> t mod 2 ^ 15" "t mod 2 ^ 15 < 2 ^ 15" by simp_all
  with limbs x show "norm (unpack25519 n)" by (auto simp: norm_def eq and_7fff nth_append list_update_append)
  have v: "val (unpack25519 n) = val a + 2 ^ 240 * (t mod 2 ^ 15)"
    by (simp add: eq x and_7fff nth_append list_update_append val_append)
  have va: "0 \<le> val a \<and> val a < 2 ^ 240" using val_range [of a] limbs x by simp
  have join: "0 \<le> m \<Longrightarrow> m < 2 ^ 15 \<Longrightarrow> 0 \<le> a' \<and> a' < 2 ^ 240 \<Longrightarrow> 0 \<le> a' + 2 ^ 240 * m \<and> a' + 2 ^ 240 * m < 2 ^ 255" for a' m :: int
    by simp
  have "0 \<le> val (unpack25519 n) \<and> val (unpack25519 n) < 2 ^ 255"
    unfolding v by (rule join [OF \<open>0 \<le> t mod 2 ^ 15\<close> \<open>t mod 2 ^ 15 < 2 ^ 15\<close> va])
  then have "0 \<le> val (unpack25519 n)" "val (unpack25519 n) < 2 ^ 255" by simp_all
  moreover have "int (le_num n) = val (unpack25519 n) + 2 ^ 255 * (t div 2 ^ 15)"
  proof -
    have "2 ^ 240 * (m + 2 ^ 15 * q) = 2 ^ 240 * m + 2 ^ 255 * q" for m q :: int by simp
    from this [of "t mod 2 ^ 15" "t div 2 ^ 15"]
    have "2 ^ 240 * t = 2 ^ 240 * (t mod 2 ^ 15) + 2 ^ 255 * (t div 2 ^ 15)" by (simp only: mod_mult_div_eq)
    then show ?thesis using vx by (simp add: v x val_append)
  qed
  ultimately show "val (unpack25519 n) = int (le_num n) mod 2 ^ 255" by simp
qed

subsection \<open>The canonical form\<close>

definition p_limbs :: gf where
  "p_limbs = 0xffed # replicate 14 0xffff @ [0x7fff]"

lemma borrow_bit: "k \<in> {0, - 1} \<Longrightarrow> y div 2 ^ 16 = k \<Longrightarrow> drop_bit 16 y AND 1 = - (k :: int)"
  by (auto simp: drop_bit_eq_div)


lemma borrow_prefix:
  assumes "norm t" "j \<le> 14"
  shows "\<exists>r c. carry_run 0 (map2 (-) (take j t) (take j p_limbs)) = (r, c) \<and> c \<in> {0, - 1} \<and>
    fold (borrow_step t) [1..<Suc j] [t ! 0 - 0xffed] = r @ [t ! j - p_limbs ! j + c]"
  using assms(2)
proof (induction j)
  case 0
  then show ?case by (simp add: p_limbs_def)
next
  case (Suc j)
  from Suc obtain r c where run: "carry_run 0 (map2 (-) (take j t) (take j p_limbs)) = (r, c)" and c: "c \<in> {0, - 1}"
    and f: "fold (borrow_step t) [1..<Suc j] [t ! 0 - 0xffed] = r @ [t ! j - p_limbs ! j + c]" by auto
  have len: "length t = 16" "length p_limbs = 16" using assms(1) by (simp_all add: norm_def p_limbs_def)
  have rl: "length r = j" using carry_run_length [OF run] len Suc.prems by simp
  let ?v = "t ! j - p_limbs ! j + c"
  have p: "0xffed \<le> p_limbs ! j \<and> p_limbs ! j \<le> 0xffff"
    using Suc.prems by (cases j) (auto simp: p_limbs_def nth_append)
  have "limb (t ! j)" using assms(1) Suc.prems by (simp add: norm_def)
  then have "- 1 \<le> ?v div 2 ^ 16 \<and> ?v div 2 ^ 16 < 1" using p c by (intro div16) auto
  then have c': "?v div 2 ^ 16 \<in> {0, - 1}" by auto
  have pj: "p_limbs ! Suc j = 0xffff" using Suc.prems by (simp add: p_limbs_def nth_append)
  have tk: "map2 (-) (take (Suc j) t) (take (Suc j) p_limbs) = map2 (-) (take j t) (take j p_limbs) @ [t ! j - p_limbs ! j]"
    using len Suc.prems by (simp add: take_Suc_conv_app_nth)
  have up: "[1..<Suc (Suc j)] = [1..<Suc j] @ [Suc j]" by simp
  have and16: "?v AND 0xffff = ?v mod 2 ^ 16"
  proof -
    have "?v AND 0xffff = take_bit 16 ?v" by (simp only: take_bit_eq_mask) (simp add: mask_eq_exp_minus_1)
    then show ?thesis by (simp add: take_bit_eq_mod)
  qed
  have "fold (borrow_step t) [1..<Suc (Suc j)] [t ! 0 - 0xffed] = borrow_step t (Suc j) (r @ [?v])"
    by (simp only: up fold_append o_def f) simp
  also have "\<dots> = (r @ [?v mod 2 ^ 16]) @ [t ! Suc j - p_limbs ! Suc j + ?v div 2 ^ 16]"
    using rl borrow_bit [OF c' refl] by (simp add: borrow_step_def Let_def nth_append list_update_append and16 pj)
  finally show ?case using c' by (simp add: tk carry_run_snoc run)
qed


lemma val_map2_minus: "length a = length b \<Longrightarrow> val (map2 (-) a b) = val a - val b"
  by (induction a b rule: list_induct2) (simp_all add: algebra_simps)

lemma join_top:
  fixes x :: int
  assumes "x + 2 ^ 224 * c = a - (2 ^ 224 - 19)" "2 ^ 16 * q + m = y - 0xffff + c"
  shows "x + 2 ^ 224 * (m + 2 ^ 16 * (z - 0x7fff + q)) = a + 2 ^ 224 * (y + 2 ^ 16 * z) - P25519"
  using assms by simp

text \<open>One round subtracts the prime when it can; two rounds leave the residue.\<close>

lemma reduce_once_value:
  assumes "norm t"
  shows "norm (reduce_once t)" "val (reduce_once t) = (if P25519 \<le> val t then val t - P25519 else val t)"
proof -
  from borrow_prefix [OF assms, of 14] obtain r c where
    run: "carry_run 0 (map2 (-) (take 14 t) (take 14 p_limbs)) = (r, c)" and c: "c \<in> {0, - 1}"
    and f: "fold (borrow_step t) [1..<15] [t ! 0 - 0xffed] = r @ [t ! 14 - p_limbs ! 14 + c]"
    by (auto simp del: upt_rec_numeral upt_Suc)
  have len: "length t = 16" "length p_limbs = 16" using assms by (simp_all add: norm_def p_limbs_def)
  have rl: "length r = 14" using carry_run_length [OF run] len by simp
  have p: "p_limbs ! 14 = 0xffff" "p_limbs ! 15 = 0x7fff" by (simp_all add: p_limbs_def nth_append)
  define v where "v = t ! 14 - 0xffff + c"
  define w where "w = t ! 15 - 0x7fff + v div 2 ^ 16"
  have lim: "limb (t ! 14)" "limb (t ! 15)" using assms by (simp_all add: norm_def)
  then have "- 1 \<le> v div 2 ^ 16 \<and> v div 2 ^ 16 < 1" unfolding v_def using c by (intro div16) auto
  then have c': "v div 2 ^ 16 \<in> {0, - 1}" by auto
  have "- 1 \<le> w div 2 ^ 16 \<and> w div 2 ^ 16 < 1" unfolding w_def using c' lim by (intro div16) auto
  then have cw: "w div 2 ^ 16 \<in> {0, - 1}" by auto
  let ?m = "r @ [v mod 2 ^ 16, w]"
  have and16: "v AND 0xffff = v mod 2 ^ 16"
  proof -
    have "v AND 0xffff = take_bit 16 v" by (simp only: take_bit_eq_mask) (simp add: mask_eq_exp_minus_1)
    then show ?thesis by (simp add: take_bit_eq_mod)
  qed
  have eq: "reduce_once t = fst (sel25519 t ?m (1 + w div 2 ^ 16))"
  proof -
    have "drop_bit 16 v AND 1 = - (v div 2 ^ 16)" "drop_bit 16 w AND 1 = - (w div 2 ^ 16)"
      using borrow_bit [OF c' refl] borrow_bit [OF cw refl] by simp_all
    moreover have "t ! 15 - 32767 + v div 65536 = w" by (simp add: w_def)
    ultimately show ?thesis
      unfolding reduce_once_def Let_def f
      using rl by (simp add: p nth_append list_update_append and16 v_def [symmetric]
          del: upt_rec_numeral)
  qed
  have lm: "length ?m = 16" using rl by simp
  have rlim: "\<forall>y \<in> set (r @ [v mod 2 ^ 16]). limb y" using carry_run_limbs [OF run] by auto
  have t: "t = take 14 t @ [t ! 14, t ! 15]"
    using len(1) append_take_drop_id [of 14 t] by (simp add: Cons_nth_drop_Suc [symmetric])
  have vt: "val t = val (take 14 t) + 2 ^ 224 * (t ! 14 + 2 ^ 16 * t ! 15)"
    using len(1) arg_cong [OF t, of val] by (simp add: val_append)
  have vr: "val r + 2 ^ 224 * c = val (take 14 t) - (2 ^ 224 - 19)"
    using carry_run_val [OF run] len val_map2_minus [of "take 14 t" "take 14 p_limbs"]
    by (simp add: p_limbs_def numeral_eq_Suc)
  have vw: "2 ^ 16 * (v div 2 ^ 16) + v mod 2 ^ 16 = t ! 14 - 0xffff + c" by (simp add: v_def)
  have vm: "val ?m = val t - P25519"
    using join_top [OF vr vw] rl by (simp add: val_append vt w_def)
  have low: "0 \<le> val (r @ [v mod 2 ^ 16]) \<and> val (r @ [v mod 2 ^ 16]) < 2 ^ 240" using val_range [OF rlim] rl by simp
  have "val ?m = val (r @ [v mod 2 ^ 16]) + 2 ^ 240 * w"
    using val_append [of "r @ [v mod 2 ^ 16]" "[w]"] rl by simp
  then have sign: "0 \<le> w \<longleftrightarrow> P25519 \<le> val t"
    using vm low by (cases "0 \<le> w") simp_all
  have wr: "- 1 * 2 ^ 16 \<le> w" "w < 2 ^ 16" using lim(2) c' by (auto simp: w_def)
  show "val (reduce_once t) = (if P25519 \<le> val t then val t - P25519 else val t)"
  proof (cases "0 \<le> w")
    case True
    then have "w div 2 ^ 16 = 0" using wr by simp
    then show ?thesis using True sign vm sel_swap [OF len(1) lm] by (simp add: eq)
  next
    case False
    then have "w div 2 ^ 16 = - 1" using cw div16 [of "-1" w 0] wr by auto
    then show ?thesis using False sign sel_swap [OF len(1) lm] by (simp add: eq)
  qed
  show "norm (reduce_once t)"
  proof (cases "0 \<le> w")
    case True
    then have "w div 2 ^ 16 = 0" using wr by simp
    then show ?thesis using True wr rlim lm sel_swap [OF len(1) lm] by (simp add: eq norm_def)
  next
    case False
    then have "w div 2 ^ 16 = - 1" using cw div16 [of "-1" w 0] wr by auto
    then show ?thesis using assms sel_swap [OF len(1) lm] by (simp add: eq)
  qed
qed


lemma norm_bytes:
  assumes "limb y"
  shows "unat (word_of_int (y AND 0xff) :: byte) + 256 * unat (word_of_int (drop_bit 8 y) :: byte) = nat y"
proof -
  have "y AND 0xff = take_bit 8 y" by (simp only: take_bit_eq_mask) (simp add: mask_eq_exp_minus_1)
  then have lo: "y AND 0xff = y mod 256" by (simp add: take_bit_eq_mod)
  have hi: "drop_bit 8 y = y div 256" by (simp add: drop_bit_eq_div)
  define q m where "q = y div 256" and "m = y mod 256"
  have "y = 256 * q + m" "0 \<le> m" "m < 256" by (simp_all add: q_def m_def)
  with assms have "0 \<le> q" "q < 256" by simp_all
  then have "0 \<le> y div 256" "y div 256 < 256" by (simp_all only: q_def)
  then have "unat (word_of_int (drop_bit 8 y) :: byte) = nat (y div 256)" "unat (word_of_int (y AND 0xff) :: byte) = nat (y mod 256)"
    by (simp_all add: lo hi unsigned_of_int take_bit_int_eq_self)
  moreover have "nat (y mod 256) + 256 * nat (y div 256) = nat y"
    using assms nat_mod_distrib [of y 256] nat_div_distrib [of y 256] by simp
  ultimately show ?thesis by simp
qed

definition gf_bytes :: "gf \<Rightarrow> bytes" where
  "gf_bytes t = concat (map (\<lambda>y. [word_of_int (y AND 0xff), word_of_int (drop_bit 8 y)]) t)"

lemma gf_bytes_num: "\<forall>y \<in> set t. limb y \<Longrightarrow> int (le_num (gf_bytes t)) = val t"
proof (induction t)
  case (Cons y t)
  have "le_num (gf_bytes (y # t)) =
      (unat (word_of_int (y AND 0xff) :: byte) + 256 * unat (word_of_int (drop_bit 8 y) :: byte)) + 2 ^ 16 * le_num (gf_bytes t)"
    by (simp add: gf_bytes_def)
  also have "\<dots> = nat y + 2 ^ 16 * le_num (gf_bytes t)" using norm_bytes [of y] Cons.prems by simp
  finally show ?case using Cons by simp
qed (simp add: gf_bytes_def)

lemma length_gf_bytes: "length (gf_bytes t) = 2 * length t"
  by (induction t) (simp_all add: gf_bytes_def)

lemma two_rounds:
  fixes v :: int
  assumes "0 \<le> v \<and> v < 2 ^ 256"
  shows "(if P25519 \<le> (if P25519 \<le> v then v - P25519 else v) then (if P25519 \<le> v then v - P25519 else v) - P25519
     else (if P25519 \<le> v then v - P25519 else v)) = v mod P25519"
proof -
  have "v mod P25519 = u" if "0 \<le> u" "u < P25519" "v = u + P25519 * k" for u k
    using that by (simp only: mod_mult_self2 mod_pos_pos_trivial)
  from this [of v 0] this [of "v - P25519" 1] this [of "v - P25519 - P25519" 2] show ?thesis using assms by auto
qed

text \<open>A tight element is written as the 32 bytes of its residue.\<close>

lemma pack_value:
  assumes "tight a"
  shows "pack25519 a = num_le 32 (nat (fe a))"
proof -
  let ?t = "car25519 a"
  have n: "norm ?t" by (rule car_tight [OF assms])
  have t3: "car25519 (car25519 ?t) = ?t" by (simp only: car_norm [OF n])
  let ?u = "reduce_once (reduce_once ?t)"
  note r1 = reduce_once_value [OF n]
  note r2 = reduce_once_value [OF r1(1)]
  have "0 \<le> val ?t \<and> val ?t < 2 ^ 256" using n val_range [of ?t] by (simp add: norm_def)
  then have "val ?u = val ?t mod P25519"
    unfolding r2(2) r1(2) by (rule two_rounds)
  then have vu: "val ?u = fe a" using val_car [OF tight_length [OF assms]] by (simp add: fe_def)
  have lim: "\<forall>y \<in> set ?u. limb y" "length ?u = 16" using r2(1) by (simp_all add: norm_def)
  have "pack25519 a = gf_bytes ?u"
  proof -
    have "(reduce_once ^^ 2) ?t = ?u" by (simp add: numeral_2_eq_2)
    then have "pack25519 a = concat (map (\<lambda>i. [word_of_int (?u ! i AND 0xff), word_of_int (drop_bit 8 (?u ! i))]) [0..<16])"
      by (simp only: pack25519_def Let_def t3)
    moreover have "map (\<lambda>i. ?u ! i) [0..<16] = ?u" using map_nth [of ?u] lim(2) by simp
    ultimately show ?thesis
      unfolding gf_bytes_def by (metis (no_types, lifting) map_map comp_apply map_cong)
  qed
  moreover have "le_num (gf_bytes ?u) = nat (fe a)" using gf_bytes_num [OF lim(1)] vu by simp
  ultimately show ?thesis
    using num_le_le_num [of "gf_bytes ?u"] length_gf_bytes [of ?u] lim(2) by simp
qed

end
