(* ===== verification/X25519Ladder.thy ===== *)
theory X25519Ladder
  imports X25519Field
begin

text \<open>
  X25519 against RFC 7748.  \<open>rfc7748\<close> is the Montgomery ladder over residues modulo
  \<open>2^255 - 19\<close>: the bits of the clamped scalar from the top, a differential addition and a
  doubling per bit, and one exponentiation at the end.  \<open>x25519_eq_rfc7748\<close> is the functional
  refinement of the code to it: the limbs, the carries, the branch-free swaps and the canonical
  output stand for exactly these residues.
\<close>

subsection \<open>The specification\<close>

definition mont_double :: "int \<times> int \<Rightarrow> int \<times> int" where
  "mont_double pt =
     (let (x, z) = pt; aa = (x + z) * (x + z); bb = (x - z) * (x - z); e = aa - bb
      in (aa * bb mod P25519, e * (e * 121665 + aa) mod P25519))"

definition mont_add :: "int \<Rightarrow> int \<times> int \<Rightarrow> int \<times> int \<Rightarrow> int \<times> int" where
  "mont_add u p q =
     (let (x2, z2) = p; (x3, z3) = q;
          cb = (x3 + z3) * (x2 - z2); da = (x3 - z3) * (x2 + z2)
      in ((cb + da) * (cb + da) mod P25519, (cb - da) * (cb - da) * u mod P25519))"

definition mont_step :: "nat \<Rightarrow> int \<Rightarrow> nat \<Rightarrow> (int \<times> int) \<times> (int \<times> int) \<Rightarrow> (int \<times> int) \<times> (int \<times> int)" where
  "mont_step k u i s =
     (if bit k i then (mont_add u (snd s) (fst s), mont_double (snd s))
      else (mont_double (fst s), mont_add u (fst s) (snd s)))"

definition clamp_num :: "nat \<Rightarrow> nat" where
  "clamp_num k = (take_bit 255 k AND (2 ^ 255 - 8)) OR 2 ^ 254"

definition rfc7748 :: "nat \<Rightarrow> nat \<Rightarrow> nat" where
  "rfc7748 k u =
     (let u = int u mod 2 ^ 255;
          (x, z) = fst (fold (mont_step (clamp_num k) u) (rev [0..<255]) ((1, 0), (u mod P25519, 1)))
      in nat (x * z ^ (2 ^ 255 - 21) mod P25519))"

subsection \<open>Limbs that stand for a number\<close>

definition T :: "gf \<Rightarrow> int \<Rightarrow> bool" where
  "T a x \<longleftrightarrow> tight a \<and> fe a = x mod P25519"

definition L :: "gf \<Rightarrow> int \<Rightarrow> bool" where
  "L a x \<longleftrightarrow> loose a \<and> fe a = x mod P25519"

lemma T_L: "T a x \<Longrightarrow> L a x"
  by (simp only: T_def L_def tight_loose simp_thms)

lemma L_fadd: "T a x \<Longrightarrow> T b y \<Longrightarrow> L (fadd a b) (x + y)"
  by (simp only: T_def L_def loose_fadd fe_fadd tight_length mod_add_eq simp_thms)

lemma L_fsub: "T a x \<Longrightarrow> T b y \<Longrightarrow> L (fsub a b) (x - y)"
  by (simp only: T_def L_def loose_fsub fe_fsub tight_length mod_diff_eq simp_thms)

lemma T_fmul: "L a x \<Longrightarrow> L b y \<Longrightarrow> T (fmul a b) (x * y)"
  by (simp only: T_def L_def tight_fmul fe_fmul loose_length mod_mult_eq simp_thms)

lemma T_fsquare: "L a x \<Longrightarrow> T (fsquare a) (x * x)"
  by (simp only: fsquare_def T_fmul)

lemma T_k: "T k121665 121665"
  by (simp add: T_def fe_simps)

definition S :: "gf \<times> gf \<times> gf \<times> gf \<Rightarrow> (int \<times> int) \<times> (int \<times> int) \<Rightarrow> bool" where
  "S s p \<longleftrightarrow> (case s of (a, b, c, d) \<Rightarrow>
     T a (fst (fst p)) \<and> T c (snd (fst p)) \<and> T b (fst (snd p)) \<and> T d (snd (snd p)))"

lemma T_mod: "T a x \<Longrightarrow> T a (x mod P25519)"
  by (simp only: T_def mod_mod_trivial)

lemma ladder_arith_refines:
  assumes "S (a, b, c, d) (p, q)" "T x u"
  shows "S (ladder_arith x (a, b, c, d)) (mont_double p, mont_add u p q)"
proof -
  obtain x2 z2 x3 z3 where pq: "p = (x2, z2)" "q = (x3, z3)" by fastforce
  with assms(1) have t: "T a x2" "T c z2" "T b x3" "T d z3" by (simp_all add: S_def)
  define aa bb cb da where "aa = fsquare (fadd a c)" and "bb = fsquare (fsub a c)"
    and "cb = fmul (fadd b d) (fsub a c)" and "da = fmul (fsub b d) (fadd a c)"
  note l = L_fadd [OF t(1,2)] L_fsub [OF t(1,2)] L_fadd [OF t(3,4)] L_fsub [OF t(3,4)]
  have aa: "T aa ((x2 + z2) * (x2 + z2))" unfolding aa_def by (rule T_fsquare [OF l(1)])
  have bb: "T bb ((x2 - z2) * (x2 - z2))" unfolding bb_def by (rule T_fsquare [OF l(2)])
  have cb: "T cb ((x3 + z3) * (x2 - z2))" unfolding cb_def by (rule T_fmul [OF l(3,2)])
  have da: "T da ((x3 - z3) * (x2 + z2))" unfolding da_def by (rule T_fmul [OF l(4,1)])
  let ?e = "fsub aa bb"
  note e = L_fsub [OF aa bb]
  have f: "ladder_arith x (a, b, c, d) = (fmul aa bb, fsquare (fadd cb da),
      fmul ?e (fadd (fmul ?e k121665) aa), fmul (fsquare (fsub cb da)) x)"
    by (simp add: ladder_arith_def Let_def aa_def bb_def cb_def da_def)
  have "T (fmul aa bb) (fst (mont_double p))"
    unfolding mont_double_def pq Let_def prod.case fst_conv by (rule T_mod [OF T_fmul [OF T_L [OF aa] T_L [OF bb]]])
  moreover have "T (fmul ?e (fadd (fmul ?e k121665) aa)) (snd (mont_double p))"
    unfolding mont_double_def pq Let_def prod.case snd_conv
    by (rule T_mod [OF T_fmul [OF e L_fadd [OF T_fmul [OF e T_L [OF T_k]] aa]]])
  moreover have "T (fsquare (fadd cb da)) (fst (mont_add u p q))"
    unfolding mont_add_def pq Let_def prod.case fst_conv by (rule T_mod [OF T_fsquare [OF L_fadd [OF cb da]]])
  moreover have "T (fmul (fsquare (fsub cb da)) x) (snd (mont_add u p q))"
    unfolding mont_add_def pq Let_def prod.case snd_conv
    by (rule T_mod [OF T_fmul [OF T_L [OF T_fsquare [OF L_fsub [OF cb da]]] T_L [OF assms(2)]]])
  ultimately show ?thesis by (simp add: f S_def)
qed

lemma ladder_step_refines:
  assumes "S s p" "T x u" "uint (drop_bit (i mod 8) (z ! (i div 8)) AND 1) = of_bool (bit k i)"
  shows "S (ladder_step z x i s) (mont_step k u i p)"
proof -
  obtain a b c d where s: "s = (a, b, c, d)" by (cases s) auto
  have l: "length a = 16" "length b = 16" "length c = 16" "length d = 16"
    using assms(1) by (simp_all add: s S_def T_def tight_length)
  obtain a' b' c' d' where o: "ladder_arith x (if bit k i then (b, a, d, c) else (a, b, c, d)) = (a', b', c', d')"
    by (metis prod_cases4)
  have sw: "S (if bit k i then (b, a, d, c) else (a, b, c, d)) (if bit k i then (snd p, fst p) else p)"
    using assms(1) by (cases p) (simp add: s S_def)
  have "S (a', b', c', d') (if bit k i then (mont_double (snd p), mont_add u (snd p) (fst p))
      else (mont_double (fst p), mont_add u (fst p) (snd p)))"
    using ladder_arith_refines [where a = b and b = a and c = d and d = c and p = "snd p" and q = "fst p" and x = x and u = u]
      ladder_arith_refines [where a = a and b = b and c = c and d = d and p = "fst p" and q = "snd p" and x = x and u = u]
      sw o assms(2) by (cases "bit k i") simp_all
  moreover from this have "length a' = 16" "length b' = 16" "length c' = 16" "length d' = 16"
    by (simp_all add: S_def T_def tight_length)
  ultimately show ?thesis
    using l o by (cases "bit k i") (simp_all add: s ladder_step_def mont_step_def assms(3) sel_swap S_def)
qed


subsection \<open>The scalar\<close>

lemma clamp_scalar_nth:
  assumes "length s = 32" "j < 32"
  shows "clamp_scalar s ! j = (if j = 0 then s ! 0 AND 248 else if j = 31 then (s ! 31 AND 127) OR 64 else s ! j)"
  using assms by (auto simp: clamp_scalar_def Let_def nth_append nth_list_update)

lemma bit_scalar:
  assumes "length s = 32" "i < 255"
  shows "bit (clamp_scalar s ! (i div 8)) (i mod 8) \<longleftrightarrow> bit (clamp_num (le_num s)) i"
proof -
  have lt: "i div 8 < 32" "i mod 8 < 8" using assms(2) by simp_all
  have b: "bit (le_num s) i \<longleftrightarrow> bit (s ! (i div 8)) (i mod 8)" using assms by (simp add: bit_le_num)
  have c: "bit (clamp_num (le_num s)) i \<longleftrightarrow> bit (le_num s) i \<and> 3 \<le> i \<or> i = 254"
  proof -
    have "2 ^ 255 - 8 = push_bit 3 (mask 252 :: nat)" by (simp add: push_bit_eq_mult mask_eq_exp_minus_1)
    then have "bit (2 ^ 255 - 8 :: nat) i \<longleftrightarrow> 3 \<le> i" using assms(2) by (simp only: bit_push_bit_iff bit_mask_iff) auto
    moreover have "bit (2 ^ 254 :: nat) i \<longleftrightarrow> i = 254" by (simp only: bit_exp_iff) simp
    ultimately show ?thesis using assms(2) by (simp only: clamp_num_def bit_or_iff bit_and_iff bit_take_bit_iff) auto
  qed
  have m: "bit (248 :: byte) n \<longleftrightarrow> 3 \<le> n \<and> n < 8" "bit (127 :: byte) n \<longleftrightarrow> n < 7" "bit (64 :: byte) n \<longleftrightarrow> n = 6" for n
  proof -
    have "(248 :: byte) = push_bit 3 (mask 5)" "(127 :: byte) = mask 7" "(64 :: byte) = push_bit 6 (mask 1)"
      by (simp_all add: push_bit_eq_mult mask_eq_exp_minus_1)
    then show "bit (248 :: byte) n \<longleftrightarrow> 3 \<le> n \<and> n < 8" "bit (127 :: byte) n \<longleftrightarrow> n < 7" "bit (64 :: byte) n \<longleftrightarrow> n = 6"
      by (simp_all only: bit_push_bit_iff bit_mask_iff) auto
  qed
  note nth = clamp_scalar_nth [OF assms(1) lt(1)]
  consider "i div 8 = 0" | "i div 8 = 31" | "i div 8 \<noteq> 0" "i div 8 \<noteq> 31" by blast
  then show ?thesis
  proof cases
    case 1
    then have "i mod 8 = i" by auto
    with 1 show ?thesis using nth lt(2) m(1) [of i] assms(2) by (simp add: b c bit_and_iff)
  next
    case 2
    then have i: "i = 248 + i mod 8" using mult_div_mod_eq [of 8 i] by simp
    then have "i mod 8 < 7" "i = 254 \<longleftrightarrow> i mod 8 = 6" "3 \<le> i" using assms(2) by linarith+
    with 2 show ?thesis using nth m(2,3) [of "i mod 8"] by (auto simp: b c bit_and_iff bit_or_iff)
  next
    case 3
    then have "3 \<le> i" "i \<noteq> 254" by auto
    with 3 show ?thesis using nth by (simp add: b c)
  qed
qed

lemma ladder_bit: "uint (drop_bit n v AND 1) = of_bool (bit (v :: byte) n)"
proof -
  have "drop_bit n v AND 1 = of_bool (bit v n)"
    by (simp add: and_one_eq mod_2_eq_odd bit_iff_odd_drop_bit)
  then show ?thesis by simp
qed

lemma ladder_refines:
  assumes "length s = 32" "T x u" "\<forall>i \<in> set is. i < 255"
  shows "S st p \<Longrightarrow> S (fold (ladder_step (clamp_scalar s) x) is st) (fold (mont_step (clamp_num (le_num s)) u) is p)"
  using assms(3)
proof (induction "is" arbitrary: st p)
  case (Cons i "is")
  have "uint (drop_bit (i mod 8) (clamp_scalar s ! (i div 8)) AND 1) = of_bool (bit (clamp_num (le_num s)) i)"
    using Cons.prems(2) bit_scalar [OF assms(1)] by (simp add: ladder_bit)
  from Cons.IH [OF ladder_step_refines [OF Cons.prems(1) assms(2) this]] Cons.prems(2) show ?case by simp
qed simp

lemma x25519_eq_rfc7748:
  assumes "length scalar = 32" "length point = 32"
  shows "x25519_scalarmult scalar point = num_le 32 (rfc7748 (le_num scalar) (le_num point))"
proof -
  define u where "u = int (le_num point) mod 2 ^ 255"
  define x where "x = unpack25519 point"
  let ?one = "1 # replicate 15 0 :: gf" and ?zero = "replicate 16 0 :: gf"
  have x: "T x u" using unpack_props [OF assms(2)] by (simp only: T_def x_def u_def norm_tight fe_def simp_thms)
  have start: "S (?one, x, ?zero, ?one) ((1, 0), (u mod P25519, 1))"
    using T_mod [OF x] by (simp add: S_def T_def tight_def fe_def numeral_eq_Suc)
  obtain a b c d where run: "fold (ladder_step (clamp_scalar scalar) x) (rev [0..<255]) (?one, x, ?zero, ?one) = (a, b, c, d)"
    by (metis prod_cases4)
  obtain p q where spec: "fst (fold (mont_step (clamp_num (le_num scalar)) u) (rev [0..<255]) ((1, 0), (u mod P25519, 1))) = (p, q)"
    by fastforce
  have lt: "\<forall>i \<in> set (rev [0..<255]). i < 255" by auto
  have "S (a, b, c, d) (fold (mont_step (clamp_num (le_num scalar)) u) (rev [0..<255]) ((1, 0), (u mod P25519, 1)))"
    using ladder_refines [OF assms(1) x lt start] by (simp only: run)
  then have ac: "T a p" "T c q" using spec by (auto simp: S_def)
  have "T (finverse c) (q ^ (2 ^ 255 - 21))"
    using ac(2) finverse_fe [of c] by (simp only: T_def power_mod simp_thms)
  from T_fmul [OF T_L [OF ac(1)] T_L [OF this]]
  have out: "tight (fmul a (finverse c))" "fe (fmul a (finverse c)) = p * q ^ (2 ^ 255 - 21) mod P25519"
    by (simp_all only: T_def)
  have "x25519_scalarmult scalar point = pack25519 (fmul a (finverse c))"
    using run by (simp only: x25519_scalarmult_def Let_def x_def prod.case)
  also have "\<dots> = num_le 32 (rfc7748 (le_num scalar) (le_num point))"
    unfolding pack_value [OF out(1)] out(2) rfc7748_def Let_def u_def [symmetric] spec by simp
  finally show ?thesis .
qed


lemma length_x25519 [simp]: "length (x25519_scalarmult scalar point) = 32"
  by (simp add: x25519_scalarmult_def pack25519_def Let_def length_concat o_def sum_list_triv split: prod.splits del: upt_rec_numeral)

lemma x25519_is_zero_iff: "length v = 32 \<Longrightarrow> x25519_is_zero v \<longleftrightarrow> v = replicate 32 0"
  by (auto simp: x25519_is_zero_def fold_or_eq_0 list_eq_iff_nth_eq simp del: upt_rec_numeral)

subsection \<open>Properties\<close>

text \<open>C18: the X25519 of the code is the one of RFC 7748: for every scalar and every point of 32
  bytes, the limb arithmetic with its carries, the branch-free swaps and the fixed chain of squarings
  give the little-endian canonical bytes of X times Z to the power p - 2 modulo p = 2^255 - 19,
  where (X, Z) is what the Montgomery ladder over residues leaves for the clamped scalar and the
  point with its top bit ignored.\<close>

theorem x25519_is_rfc7748:
  assumes "length scalar = 32" "length point = 32"
  shows "x25519_scalarmult scalar point = num_le 32 (rfc7748 (le_num scalar) (le_num point))"
  by (rule x25519_eq_rfc7748 [OF assms])

theorem x25519_is_rfc7748_witness:
  "x25519_scalarmult (replicate 32 7) (9 # replicate 31 0) =
     num_le 32 (rfc7748 (le_num (replicate 32 7)) (le_num (9 # replicate 31 0)))"
  by (rule x25519_is_rfc7748) simp_all

end
