(* ===== verification/Wireguard.thy ===== *)
theory Wireguard
  imports X25519Ladder
begin

text \<open>
  The WireGuard protocol of \<open>source/net/wg/wireguard.cpp\<close>: \<open>wg_peer\<close> is the class \<open>wg::Peer\<close>,
  and each operation is a function from the peer to the new peer and its result.  Random bytes
  are arguments (the bytes \<open>util::random_bytes\<close> writes), clocks are the 64-bit words the callers
  pass, and \<open>last_error_\<close> is a constructor of \<open>wg_error\<close> per message.  A message that is written
  is returned whole; what a failed \<open>make_initiation\<close> leaves in the output buffer is not
  represented, since its callers discard it.
\<close>

subsection \<open>Hashing and key derivation\<close>

definition kConstruction :: bytes where
  "kConstruction = ascii ''Noise_IKpsk2_25519_ChaChaPoly_BLAKE2s''"

definition kIdentifier :: bytes where
  "kIdentifier = ascii ''WireGuard v1 zx2c4 Jason@zx2c4.com''"

definition kLabelMac1 :: bytes where
  "kLabelMac1 = ascii ''mac1----''"

definition wg_hash :: "bytes \<Rightarrow> bytes \<Rightarrow> bytes" where
  "wg_hash a b =
     (let s = blake2s_init 32;
          s = (if length a \<noteq> 0 then blake2s_update s a else s);
          s = (if length b \<noteq> 0 then blake2s_update s b else s)
      in blake2s_final s)"

definition mix_hash :: "bytes \<Rightarrow> bytes \<Rightarrow> bytes" where
  "mix_hash h data = wg_hash h data"

text \<open>The three outputs of \<open>kdf\<close>; a caller that passes a null pointer ignores that one.\<close>

definition kdf :: "bytes \<Rightarrow> bytes \<Rightarrow> bytes \<times> bytes \<times> bytes" where
  "kdf chaining_key input =
     (let prk = blake2s_hmac chaining_key input;
          t1 = blake2s_hmac prk [1];
          t2 = blake2s_hmac prk (t1 @ [2]);
          t3 = blake2s_hmac prk (t2 @ [3])
      in (t1, t2, t3))"

definition compute_mac1 :: "bytes \<Rightarrow> bytes \<Rightarrow> bytes" where
  "compute_mac1 peer_public msg =
     (let s = blake2s_init 32;
          s = blake2s_update s kLabelMac1;
          s = blake2s_update s peer_public;
          key = blake2s_final s
      in blake2s 16 key msg)"

definition write_le32 :: "32 word \<Rightarrow> bytes" where
  "write_le32 v = [ucast v, ucast (drop_bit 8 v), ucast (drop_bit 16 v), ucast (drop_bit 24 v)]"

definition read_le32 :: "bytes \<Rightarrow> 32 word" where
  "read_le32 p = ucast (p ! 0) OR push_bit 8 (ucast (p ! 1)) OR push_bit 16 (ucast (p ! 2)) OR
     push_bit 24 (ucast (p ! 3))"

definition write_le64 :: "64 word \<Rightarrow> bytes" where
  "write_le64 v = map (\<lambda>i. ucast (drop_bit (8 * i) v)) [0..<8]"

definition read_le64 :: "bytes \<Rightarrow> 64 word" where
  "read_le64 p = fold (\<lambda>i v. push_bit 8 v OR ucast (p ! i)) (rev [0..<8]) 0"

definition tai64n :: "64 word \<Rightarrow> bytes" where
  "tai64n unix_ns =
     wr_be64 (0x400000000000000A + unix_ns div 1000000000) @ wr_be32 (ucast (unix_ns mod 1000000000))"

subsection \<open>Keys\<close>

definition generate_private_key :: "bytes \<Rightarrow> bytes" where
  "generate_private_key rnd =
     (let out = take 32 rnd;
          out = out[0 := out ! 0 AND 248];
          out = out[31 := out ! 31 AND 127]
      in out[31 := out ! 31 OR 64])"

definition derive_public_key :: "bytes \<Rightarrow> bytes" where
  "derive_public_key private = x25519_public_key private"

definition kBase64Alphabet :: bytes where
  "kBase64Alphabet = ascii ''ABCDEFGHIJKLMNOPQRSTUVWXYZabcdefghijklmnopqrstuvwxyz0123456789+/''"

definition base64_group :: "bytes \<Rightarrow> nat \<Rightarrow> bytes" where
  "base64_group key i =
     (let triple = push_bit 16 (ucast (key ! i)) OR
            (if i + 1 < 32 then push_bit 8 (ucast (key ! (i + 1))) else 0) OR
            (if i + 2 < 32 then ucast (key ! (i + 2)) else (0 :: 32 word));
          sym = (\<lambda>s. kBase64Alphabet ! unat (drop_bit s triple AND 0x3f))
      in [sym 18, sym 12, (if i + 1 < 32 then sym 6 else B CHR ''=''),
          (if i + 2 < 32 then sym 0 else B CHR ''='')])"

definition key_to_base64 :: "bytes \<Rightarrow> bytes" where
  "key_to_base64 key = concat (map (\<lambda>k. base64_group key (3 * k)) [0..<11])"

definition base64_value :: "byte \<Rightarrow> nat option" where
  "base64_value c =
     (if is_upper c then Some (unat c - 65)
      else if is_lower c then Some (unat c - 97 + 26)
      else if is_digit c then Some (unat c - 48 + 52)
      else if c = B CHR ''+'' then Some 62
      else if c = B CHR ''/'' then Some 63
      else None)"

text \<open>The loop of \<open>key_from_base64\<close>: the answer, and the bytes written to the output so far.\<close>

fun base64_loop :: "bytes \<Rightarrow> 32 word \<Rightarrow> nat \<Rightarrow> bytes \<Rightarrow> bool \<times> bytes" where
  "base64_loop [] accumulator bits out = (length out = 32, out)"
| "base64_loop (c # text) accumulator bits out =
     (if c = B CHR ''='' \<or> c = 10 \<or> c = 13 \<or> c = 32 then base64_loop text accumulator bits out
      else case base64_value c of
        None \<Rightarrow> (False, out)
      | Some v \<Rightarrow>
          (let accumulator = push_bit 6 accumulator OR of_nat v; bits = bits + 6
           in if 8 \<le> bits then
                (if 32 \<le> length out then (False, out)
                 else base64_loop text accumulator (bits - 8) (out @ [ucast (drop_bit (bits - 8) accumulator)]))
              else base64_loop text accumulator bits out))"

definition key_from_base64 :: "bytes \<Rightarrow> bool \<times> bytes" where
  "key_from_base64 text = base64_loop text 0 0 []"

definition initial_chaining_key :: bytes where
  "initial_chaining_key = wg_hash kConstruction []"

subsection \<open>The peer\<close>

datatype wg_error =
    NoError
  | DegenerateServerKey | DegenerateStaticSecret
  | UnexpectedSize | UnexpectedType | NoInitiation | OtherSession
  | DegenerateEphemeral | DegenerateCrossed | ResponseNotAuthentic
  | NotEstablished | KeysExpired
  | PacketTooOld | PacketReplayed | PacketNotAuthentic

record wg_peer =
  w_static_private :: bytes
  w_static_public :: bytes
  w_peer_public :: bytes
  w_preshared :: bytes
  w_chaining_key :: bytes
  w_hash :: bytes
  w_ephemeral_private :: bytes
  w_ephemeral_public :: bytes
  w_initiator_ephemeral :: bytes
  w_local_index :: "32 word"
  w_remote_index :: "32 word"
  w_send_key :: bytes
  w_recv_key :: bytes
  w_send_counter :: "64 word"
  w_have_recv :: bool
  w_recv_highest :: "64 word"
  w_recv_window :: "64 word"
  w_established :: bool
  w_in_progress :: bool
  w_established_at :: "64 word"
  w_last_send :: "64 word"
  w_last_recv :: "64 word"
  w_last_attempt :: "64 word"
  w_error :: wg_error

definition zero_key :: bytes where
  "zero_key = replicate 32 0"

definition new_wg_peer :: wg_peer where
  "new_wg_peer =
     \<lparr>w_static_private = zero_key, w_static_public = zero_key, w_peer_public = zero_key, w_preshared = zero_key,
      w_chaining_key = zero_key, w_hash = zero_key, w_ephemeral_private = zero_key, w_ephemeral_public = zero_key,
      w_initiator_ephemeral = zero_key, w_local_index = 0, w_remote_index = 0, w_send_key = zero_key,
      w_recv_key = zero_key, w_send_counter = 0, w_have_recv = False, w_recv_highest = 0, w_recv_window = 0,
      w_established = False, w_in_progress = False, w_established_at = 0, w_last_send = 0, w_last_recv = 0,
      w_last_attempt = 0, w_error = NoError\<rparr>"

definition reset_handshake :: "wg_peer \<Rightarrow> wg_peer" where
  "reset_handshake p =
     p\<lparr>w_established := False, w_in_progress := False, w_send_counter := 0, w_have_recv := False,
       w_recv_highest := 0, w_recv_window := 0, w_send_key := zero_key, w_recv_key := zero_key\<rparr>"

definition configure :: "bytes \<Rightarrow> bytes \<Rightarrow> bytes option \<Rightarrow> wg_peer \<Rightarrow> wg_peer" where
  "configure private peer_public psk p =
     reset_handshake (p\<lparr>w_static_private := private, w_static_public := derive_public_key private,
       w_peer_public := peer_public, w_preshared := (case psk of Some k \<Rightarrow> k | None \<Rightarrow> zero_key)\<rparr>)"

subsection \<open>The handshake\<close>

text \<open>The opening of both sides: the transcript up to the responder's static key.\<close>

definition open_transcript :: "bytes \<Rightarrow> wg_peer \<Rightarrow> wg_peer" where
  "open_transcript responder p =
     (let ck = initial_chaining_key
      in p\<lparr>w_chaining_key := ck, w_hash := mix_hash (wg_hash ck kIdentifier) responder\<rparr>)"

text \<open>\<open>kdf(chaining_key_, ...)\<close> in place, and the key it also gives where a key is asked for.\<close>

definition mix_key :: "bytes \<Rightarrow> wg_peer \<Rightarrow> wg_peer" where
  "mix_key input p = p\<lparr>w_chaining_key := fst (kdf (w_chaining_key p) input)\<rparr>"

definition mixed_key :: "bytes \<Rightarrow> wg_peer \<Rightarrow> bytes" where
  "mixed_key input p = fst (snd (kdf (w_chaining_key p) input))"

definition absorb_hash :: "bytes \<Rightarrow> wg_peer \<Rightarrow> wg_peer" where
  "absorb_hash data p = p\<lparr>w_hash := mix_hash (w_hash p) data\<rparr>"

definition make_initiation :: "bytes \<Rightarrow> 32 word \<Rightarrow> 64 word \<Rightarrow> 64 word \<Rightarrow> wg_peer \<Rightarrow> wg_peer \<times> bytes option" where
  "make_initiation rnd index now_ms unix_ns p =
     (let p = open_transcript (w_peer_public p) p;
          priv = generate_private_key rnd;
          p = p\<lparr>w_ephemeral_private := priv, w_ephemeral_public := derive_public_key priv, w_local_index := index\<rparr>;
          out = [1, 0, 0, 0] @ write_le32 (w_local_index p) @ w_ephemeral_public p;
          p = mix_key (w_ephemeral_public p) p;
          p = absorb_hash (w_ephemeral_public p) p;
          shared = x25519_scalarmult (w_ephemeral_private p) (w_peer_public p)
      in if x25519_is_zero shared then (p\<lparr>w_error := DegenerateServerKey\<rparr>, None)
         else
           let key = mixed_key shared p;
               p = mix_key shared p;
               (c, tag) = chacha20poly1305_encrypt (w_static_public p) (w_hash p) key (chacha20poly1305_nonce 0);
               out = out @ c @ tag;
               p = absorb_hash (c @ tag) p;
               shared = x25519_scalarmult (w_static_private p) (w_peer_public p)
           in if x25519_is_zero shared then (p\<lparr>w_error := DegenerateStaticSecret\<rparr>, None)
              else
                let key = mixed_key shared p;
                    p = mix_key shared p;
                    (c, tag) = chacha20poly1305_encrypt (tai64n unix_ns) (w_hash p) key (chacha20poly1305_nonce 0);
                    out = out @ c @ tag;
                    p = absorb_hash (c @ tag) p;
                    out = out @ compute_mac1 (w_peer_public p) out @ replicate 16 0
                in (p\<lparr>w_in_progress := True, w_last_attempt := now_ms\<rparr>, Some out))"

definition derive_transport_keys :: "bool \<Rightarrow> wg_peer \<Rightarrow> wg_peer" where
  "derive_transport_keys initiator p =
     (let (first, second, _) = kdf (w_chaining_key p) [];
          p = (if initiator then p\<lparr>w_send_key := first, w_recv_key := second\<rparr>
               else p\<lparr>w_recv_key := first, w_send_key := second\<rparr>)
      in p\<lparr>w_send_counter := 0, w_have_recv := False, w_recv_highest := 0, w_recv_window := 0,
           w_chaining_key := zero_key, w_ephemeral_private := zero_key\<rparr>)"

definition consume_response :: "bytes \<Rightarrow> 64 word \<Rightarrow> wg_peer \<Rightarrow> wg_peer \<times> bool" where
  "consume_response msg now_ms p =
     (if length msg \<noteq> 92 then (p\<lparr>w_error := UnexpectedSize\<rparr>, False)
      else if msg ! 0 \<noteq> 2 then (p\<lparr>w_error := UnexpectedType\<rparr>, False)
      else if \<not> w_in_progress p then (p\<lparr>w_error := NoInitiation\<rparr>, False)
      else if read_le32 (drop 8 msg) \<noteq> w_local_index p then (p\<lparr>w_error := OtherSession\<rparr>, False)
      else
        let p = p\<lparr>w_remote_index := read_le32 (drop 4 msg)\<rparr>;
            peer_ephemeral = take 32 (drop 12 msg);
            p = mix_key peer_ephemeral p;
            p = absorb_hash peer_ephemeral p;
            shared = x25519_scalarmult (w_ephemeral_private p) peer_ephemeral
        in if x25519_is_zero shared then (p\<lparr>w_error := DegenerateEphemeral\<rparr>, False)
           else
             let p = mix_key shared p;
                 shared = x25519_scalarmult (w_static_private p) peer_ephemeral
             in if x25519_is_zero shared then (p\<lparr>w_error := DegenerateCrossed\<rparr>, False)
                else
                  let p = mix_key shared p;
                      (ck, tau, key) = kdf (w_chaining_key p) (w_preshared p);
                      p = p\<lparr>w_chaining_key := ck\<rparr>;
                      p = absorb_hash tau p;
                      tag = take 16 (drop 44 msg)
                  in case chacha20poly1305_decrypt [] tag (w_hash p) key (chacha20poly1305_nonce 0) of
                       None \<Rightarrow> (p\<lparr>w_error := ResponseNotAuthentic\<rparr>, False)
                     | Some _ \<Rightarrow>
                         let p = absorb_hash tag p;
                             p = derive_transport_keys True p
                         in (p\<lparr>w_established := True, w_in_progress := False, w_established_at := now_ms,
                               w_last_send := now_ms, w_last_recv := now_ms\<rparr>, True))"

definition kRekeyAfterMs :: "64 word" where "kRekeyAfterMs = 120 * 1000"
definition kRejectAfterMs :: "64 word" where "kRejectAfterMs = 180 * 1000"
definition kKeepaliveMs :: "64 word" where "kKeepaliveMs = 25 * 1000"
definition kRekeyTimeoutMs :: "64 word" where "kRekeyTimeoutMs = 5 * 1000"

definition needs_handshake :: "64 word \<Rightarrow> wg_peer \<Rightarrow> bool" where
  "needs_handshake now_ms p =
     (if \<not> w_established p then kRekeyTimeoutMs \<le> now_ms - w_last_attempt p \<or> w_last_attempt p = 0
      else kRekeyAfterMs \<le> now_ms - w_established_at p)"

definition needs_keepalive :: "64 word \<Rightarrow> wg_peer \<Rightarrow> bool" where
  "needs_keepalive now_ms p = (w_established p \<and> kKeepaliveMs \<le> now_ms - w_last_send p)"

definition note_handshake_sent :: "64 word \<Rightarrow> wg_peer \<Rightarrow> wg_peer" where
  "note_handshake_sent now_ms p = p\<lparr>w_last_attempt := now_ms\<rparr>"

subsection \<open>Transport\<close>

definition encapsulate :: "bytes \<Rightarrow> nat \<Rightarrow> 64 word \<Rightarrow> wg_peer \<Rightarrow> wg_peer \<times> bytes option" where
  "encapsulate packet out_capacity now_ms p =
     (if \<not> w_established p then (p\<lparr>w_error := NotEstablished\<rparr>, None)
      else if kRejectAfterMs \<le> now_ms - w_established_at p
        then (p\<lparr>w_error := KeysExpired, w_established := False\<rparr>, None)
      else if out_capacity < 16 + length packet + 16 then (p, None)
      else
        let out = [4, 0, 0, 0] @ write_le32 (w_remote_index p) @ write_le64 (w_send_counter p);
            nonce = chacha20poly1305_nonce (w_send_counter p);
            (c, tag) = chacha20poly1305_encrypt packet [] (w_send_key p) nonce
        in (p\<lparr>w_send_counter := w_send_counter p + 1, w_last_send := now_ms\<rparr>, Some (out @ c @ tag)))"

text \<open>The window: whether a counter is refused before decryption, and its update once the packet is
  authentic.\<close>

definition replay_check :: "64 word \<Rightarrow> wg_peer \<Rightarrow> wg_error option" where
  "replay_check counter p =
     (if w_have_recv p then
        if counter + 64 \<le> w_recv_highest p then Some PacketTooOld
        else if counter \<le> w_recv_highest p then
          let shift = w_recv_highest p - counter
          in if drop_bit (unat shift) (w_recv_window p) AND 1 \<noteq> 0 then Some PacketReplayed else None
        else None
      else None)"

definition accept_counter :: "64 word \<Rightarrow> wg_peer \<Rightarrow> wg_peer" where
  "accept_counter counter p =
     (if \<not> w_have_recv p then p\<lparr>w_have_recv := True, w_recv_highest := counter, w_recv_window := 1\<rparr>
      else if w_recv_highest p < counter then
        let shift = counter - w_recv_highest p
        in p\<lparr>w_recv_window := (if 64 \<le> shift then 1 else push_bit (unat shift) (w_recv_window p) OR 1),
             w_recv_highest := counter\<rparr>
      else p\<lparr>w_recv_window := w_recv_window p OR push_bit (unat (w_recv_highest p - counter)) 1\<rparr>)"

definition decapsulate :: "bytes \<Rightarrow> nat \<Rightarrow> 64 word \<Rightarrow> wg_peer \<Rightarrow> wg_peer \<times> bytes option" where
  "decapsulate msg out_capacity now_ms p =
     (if \<not> w_established p then (p, None)
      else if length msg < 16 + 16 then (p, None)
      else if msg ! 0 \<noteq> 4 then (p, None)
      else
        let counter = read_le64 (drop 8 msg)
        in case replay_check counter p of
             Some e \<Rightarrow> (p\<lparr>w_error := e\<rparr>, None)
           | None \<Rightarrow>
               let payload_len = length msg - 16 - 16
               in if out_capacity < payload_len then (p, None)
                  else case chacha20poly1305_decrypt (take payload_len (drop 16 msg)) (drop (16 + payload_len) msg) []
                              (w_recv_key p) (chacha20poly1305_nonce counter) of
                         None \<Rightarrow> (p\<lparr>w_error := PacketNotAuthentic\<rparr>, None)
                       | Some packet \<Rightarrow> ((accept_counter counter p)\<lparr>w_last_recv := now_ms\<rparr>, Some packet))"

subsection \<open>The responder, used by the cross tests\<close>

definition consume_initiation :: "bytes \<Rightarrow> wg_peer \<Rightarrow> wg_peer \<times> bool" where
  "consume_initiation msg p =
     (if length msg \<noteq> 148 \<or> msg ! 0 \<noteq> 1 then (p, False)
      else
        let p = open_transcript (w_static_public p) p;
            peer_ephemeral = take 32 (drop 8 msg);
            p = p\<lparr>w_initiator_ephemeral := peer_ephemeral\<rparr>;
            p = mix_key peer_ephemeral p;
            p = absorb_hash peer_ephemeral p;
            shared = x25519_scalarmult (w_static_private p) peer_ephemeral;
            key = mixed_key shared p;
            p = mix_key shared p
        in case chacha20poly1305_decrypt (take 32 (drop 40 msg)) (take 16 (drop 72 msg)) (w_hash p) key
                  (chacha20poly1305_nonce 0) of
             None \<Rightarrow> (p, False)
           | Some initiator_static \<Rightarrow>
               let p = absorb_hash (take 48 (drop 40 msg)) p;
                   shared = x25519_scalarmult (w_static_private p) initiator_static;
                   key = mixed_key shared p;
                   p = mix_key shared p
               in case chacha20poly1305_decrypt (take 12 (drop 88 msg)) (take 16 (drop 100 msg)) (w_hash p) key
                         (chacha20poly1305_nonce 0) of
                    None \<Rightarrow> (p, False)
                  | Some timestamp \<Rightarrow>
                      let p = absorb_hash (take 28 (drop 88 msg)) p
                      in (p\<lparr>w_peer_public := initiator_static, w_remote_index := read_le32 (drop 4 msg),
                            w_in_progress := True\<rparr>, True))"

definition make_response :: "bytes \<Rightarrow> 32 word \<Rightarrow> wg_peer \<Rightarrow> wg_peer \<times> bytes option" where
  "make_response rnd index p =
     (if \<not> w_in_progress p then (p, None)
      else
        let priv = generate_private_key rnd;
            p = p\<lparr>w_ephemeral_private := priv, w_ephemeral_public := derive_public_key priv, w_local_index := index\<rparr>;
            out = [2, 0, 0, 0] @ write_le32 (w_local_index p) @ write_le32 (w_remote_index p) @ w_ephemeral_public p;
            p = mix_key (w_ephemeral_public p) p;
            p = absorb_hash (w_ephemeral_public p) p;
            p = mix_key (x25519_scalarmult (w_ephemeral_private p) (w_initiator_ephemeral p)) p;
            p = mix_key (x25519_scalarmult (w_ephemeral_private p) (w_peer_public p)) p;
            (ck, tau, key) = kdf (w_chaining_key p) (w_preshared p);
            p = p\<lparr>w_chaining_key := ck\<rparr>;
            p = absorb_hash tau p;
            (c, tag) = chacha20poly1305_encrypt [] (w_hash p) key (chacha20poly1305_nonce 0);
            out = out @ tag;
            p = absorb_hash tag p;
            out = out @ compute_mac1 (w_peer_public p) out @ replicate 16 0;
            p = derive_transport_keys False p
        in (p\<lparr>w_established := True, w_in_progress := False\<rparr>, Some out))"

end
