(* ===== verification/WireguardData.thy ===== *)
theory WireguardData
  imports Wireguard
begin

text \<open>
  What the transport of \<open>wireguard.cpp\<close> guarantees once two peers share keys: the encodings are
  inverted, the 64-message window (\<open>replay_check\<close>, \<open>accept_counter\<close>) refines the set of counters
  accepted so far (\<open>seen_ok\<close>), a message is accepted only if it is what the holder of the key would
  have sealed, and a run of the transport never repeats a nonce nor accepts a counter twice.
\<close>

subsection \<open>Encodings\<close>

lemma blake2s_out_len [simp]: "b_out_len (blake2s_update s d) = b_out_len s"
proof -
  let ?s = "\<lambda>s. blake2s_compress (increment_counter 64 (s\<lparr>b_buf := []\<rparr>)) (b_buf s @ take (64 - length (b_buf s)) d)"
  obtain s' r where run: "blake_blocks (?s s) (drop (64 - length (b_buf s)) d) = (s', r)" by fastforce
  have "b_out_len s' = b_out_len s"
    using blake_blocks_buf(2) [of "?s s" "drop (64 - length (b_buf s)) d"] run by simp
  then show ?thesis using run by (simp add: blake2s_update_def Let_def)
qed

lemma length_blake2s_final: "length (blake2s_final s) = min 32 (b_out_len s)"
  by (simp add: blake2s_final_def Let_def)

lemma wg_lengths [simp]:
  "length (write_le32 v) = 4" "length (write_le64 w) = 8"
  "length (tai64n t) = 12"  "length (derive_public_key k) = 32"
  "length (fst (kdf ck x)) = 32" "length (fst (snd (kdf ck x))) = 32" "length (snd (snd (kdf ck x))) = 32"
  "length (chacha20poly1305_nonce c) = 12"
  by (simp_all add: write_le32_def write_le64_def tai64n_def derive_public_key_def x25519_public_key_def kdf_def Let_def chacha20poly1305_nonce_def)

lemma wg_hash_lengths [simp]:
 "length (wg_hash a b) = 32" "length (mix_hash a b) = 32" "length (compute_mac1 k m) = 16"
 by (simp_all add: mix_hash_def wg_hash_def compute_mac1_def length_blake2s_final blake2s_init_def blake2s_init_key_def blake2s_eq_spec length_blake2s_spec Let_def)

lemma read_le64_step:
  "j \<le> 8 \<Longrightarrow> bit (fold (\<lambda>i v. push_bit 8 v OR ucast (p ! i)) (rev [j..<8]) (0 :: 64 word)) n \<longleftrightarrow>
    n < 64 - 8 * j \<and> bit (p ! (j + n div 8) :: byte) (n mod 8)"
proof (induction arbitrary: n rule: inc_induct)
  case (step j)
  have "[j..<8] = j # [Suc j..<8]" using step.hyps by (simp add: upt_conv_Cons)
  then have eq: "fold (\<lambda>i v. push_bit 8 v OR ucast (p ! i)) (rev [j..<8]) (0 :: 64 word) =
      push_bit 8 (fold (\<lambda>i v. push_bit 8 v OR ucast (p ! i)) (rev [Suc j..<8]) 0) OR ucast (p ! j)"
    by simp
  show ?case
  proof (cases "n < 8")
    case True
    then show ?thesis unfolding eq using step.hyps by (auto simp: bit_simps simp del: upt_Suc upt_rec_numeral)
  next
    case False
    then have d: "j + n div 8 = Suc (j + (n - 8) div 8)" "n mod 8 = (n - 8) mod 8"
      by (simp_all add: le_div_geq le_mod_geq)
    have "\<not> bit (p ! j) n" using False bit_imp_le_length [of "p ! j" n] by auto
    then show ?thesis unfolding eq using False step.hyps step.IH [of "n - 8"] d
      by (auto simp: bit_simps simp del: upt_Suc upt_rec_numeral)
  qed
qed simp

lemma bit_read_le64: "bit (read_le64 p) n \<longleftrightarrow> n < 64 \<and> bit (p ! (n div 8)) (n mod 8)"
  using read_le64_step [of 0 p n] by (simp add: read_le64_def del: upt_rec_numeral)

lemma read_write_le64 [simp]: "read_le64 (write_le64 v @ rest) = v"
proof (rule bit_word_eqI)
  fix n :: nat
  assume "n < LENGTH(64)"
  then have n: "n < 64" "n div 8 < 8" "8 * (n div 8) + n mod 8 = n" by simp_all
  then show "bit (read_le64 (write_le64 v @ rest)) n = bit v n"
    by (simp add: n(2) bit_read_le64 write_le64_def nth_append bit_simps del: upt_rec_numeral)
qed

lemma read_write_le32 [simp]: "read_le32 (write_le32 v @ rest) = v"
proof -
  have "write_le32 v = store32 v" "read_le32 p = load32 p" for p
    by (simp_all add: write_le32_def store32_def read_le32_def load32_def)
  then show ?thesis by simp
qed

lemma aead_iff:
  "length tag = 16 \<Longrightarrow> chacha20poly1305_decrypt c tag aad key nonce = Some p \<longleftrightarrow>
    chacha20poly1305_encrypt p aad key nonce = (c, tag)"
  using chacha20_xor_involution [of c key nonce 1] chacha20_xor_involution [of p key nonce 1]
  by (auto simp: decrypt_spec encrypt_spec)

subsection \<open>The window\<close>

text \<open>\<open>seen_ok p A\<close>: \<open>A\<close> is the set of counters accepted since the keys were derived; the peer
  remembers the highest and, as bits, which of the 64 counters below it are in \<open>A\<close>.\<close>

definition seen_ok :: "wg_peer \<Rightarrow> nat set \<Rightarrow> bool" where
  "seen_ok p A \<longleftrightarrow>
     (if w_have_recv p then
        unat (w_recv_highest p) \<in> A \<and> (\<forall>c \<in> A. c \<le> unat (w_recv_highest p)) \<and>
        (\<forall>k < 64. bit (w_recv_window p) k \<longleftrightarrow> k \<le> unat (w_recv_highest p) \<and> unat (w_recv_highest p) - k \<in> A)
      else A = {})"

lemma unat_less64: "unat (c :: 64 word) < 2 ^ 64"
  using unsigned_less [of c] by simp

lemma unat_plus64: "unat (c + 64 :: 64 word) = (unat c + 64) mod 2 ^ 64"
  by (simp add: unat_word_ariths)

lemma unat_diff: "b \<le> a \<Longrightarrow> unat (a - b :: 64 word) = unat a - unat b"
  by (simp add: unat_sub_if_size word_le_nat_alt)

lemma window_bit: "drop_bit n w AND 1 = 0 \<longleftrightarrow> \<not> bit (w :: 64 word) n"
  by (simp add: and_one_eq mod_2_eq_odd bit_iff_odd_drop_bit)

lemma near_counter:
  assumes "\<not> c + 64 \<le> h" "c \<le> (h :: 64 word)"
  shows "unat h - unat c < 64"
proof (cases "unat c + 64 < 2 ^ 64")
  case True
  with assms show ?thesis by (simp add: word_le_nat_alt unat_plus64)
next
  case False
  with unat_less64 [of h] show ?thesis by simp
qed

lemma replay_check_fresh:
  assumes "seen_ok p A" "replay_check c p = None"
  shows "unat c \<notin> A"
proof (cases "w_have_recv p \<and> c \<le> w_recv_highest p")
  case True
  let ?h = "w_recv_highest p"
  have near: "unat ?h - unat c < 64"
    using assms(2) True by (intro near_counter) (auto simp: replay_check_def split: if_splits)
  have "\<not> bit (w_recv_window p) (unat ?h - unat c)"
    using assms(2) True by (auto simp: replay_check_def Let_def window_bit unat_diff split: if_splits)
  moreover have "unat ?h - (unat ?h - unat c) = unat c" using True by (simp add: word_le_nat_alt)
  ultimately show ?thesis using assms(1) True near by (auto simp: seen_ok_def)
next
  case False
  then show ?thesis using assms(1) by (auto simp: seen_ok_def word_le_nat_alt split: if_splits)
qed

lemma accept_seen:
  assumes "seen_ok p A" "replay_check c p = None"
  shows "seen_ok (accept_counter c p) (insert (unat c) A)"
proof -
  let ?h = "w_recv_highest p" and ?w = "w_recv_window p" and ?p = "accept_counter c p"
  consider "\<not> w_have_recv p" | "w_have_recv p" "?h < c" | "w_have_recv p" "c \<le> ?h" by fastforce
  then show ?thesis
  proof cases
    case 1
    then show ?thesis using assms(1) by (auto simp: seen_ok_def accept_counter_def bit_1_iff)
  next
    case 2
    have A: "unat ?h \<in> A" "\<forall>a \<in> A. a \<le> unat ?h" "\<forall>k < 64. bit ?w k \<longleftrightarrow> k \<le> unat ?h \<and> unat ?h - k \<in> A"
      using assms(1) 2 by (auto simp: seen_ok_def)
    have gt: "unat ?h < unat c" using 2 by (simp add: word_less_nat_alt)
    let ?s = "unat c - unat ?h"
    have s: "unat (c - ?h) = ?s" using 2 by (intro unat_diff) simp
    have bits: "bit (if 64 \<le> c - ?h then 1 else push_bit (unat (c - ?h)) ?w OR 1) k \<longleftrightarrow>
        k \<le> unat c \<and> unat c - k \<in> insert (unat c) A" if k: "k < 64" for k
    proof -
      have lhs: "bit (if 64 \<le> c - ?h then 1 else push_bit (unat (c - ?h)) ?w OR 1) k \<longleftrightarrow>
          k = 0 \<or> ?s < 64 \<and> ?s \<le> k \<and> bit ?w (k - ?s)"
        using k by (auto simp: word_le_nat_alt s bit_simps)
      have "bit ?w (k - ?s) \<longleftrightarrow> k - ?s \<le> unat ?h \<and> unat ?h - (k - ?s) \<in> A" if "?s \<le> k"
        using A(3) k by simp
      moreover have "unat ?h - (k - ?s) = unat c - k" if "?s \<le> k" using that gt by simp
      moreover have "unat c - k \<notin> A" if "k < ?s" using that A(2) by fastforce
      ultimately show ?thesis unfolding lhs using gt k by (cases "?s \<le> k"; cases "k = 0") auto
    qed
    have "w_have_recv ?p" "w_recv_highest ?p = c"
      "w_recv_window ?p = (if 64 \<le> c - ?h then 1 else push_bit (unat (c - ?h)) ?w OR 1)"
      using 2 by (simp_all add: accept_counter_def Let_def)
    moreover have "\<forall>a \<in> insert (unat c) A. a \<le> unat c" using A(2) gt by auto
    ultimately show ?thesis using bits by (simp add: seen_ok_def)
  next
    case 3
    have A: "unat ?h \<in> A" "\<forall>a \<in> A. a \<le> unat ?h" "\<forall>k < 64. bit ?w k \<longleftrightarrow> k \<le> unat ?h \<and> unat ?h - k \<in> A"
      using assms(1) 3 by (auto simp: seen_ok_def)
    have le: "unat c \<le> unat ?h" using 3 by (simp add: word_le_nat_alt)
    have bits: "bit (?w OR push_bit (unat (?h - c)) 1) k \<longleftrightarrow> k \<le> unat ?h \<and> unat ?h - k \<in> insert (unat c) A"
      if "k < 64" for k
      using that A(3) le unat_diff [OF 3(2)] by (auto simp: bit_simps)
    have "w_have_recv ?p" "w_recv_highest ?p = ?h" "w_recv_window ?p = ?w OR push_bit (unat (?h - c)) 1"
      using 3 leD [OF 3(2)] by (simp_all add: accept_counter_def)
    moreover have "\<forall>a \<in> insert (unat c) A. a \<le> unat ?h" using A(2) le by auto
    ultimately show ?thesis using bits A(1) by (simp add: seen_ok_def)
  qed
qed


text \<open>Below the last 64 counters of the 64-bit range the test is exact: a counter is refused only if
  it was accepted already or lies 64 or more below the highest.\<close>

lemma replay_check_exact:
  assumes "seen_ok p A" "unat c + 64 < 2 ^ 64"
  shows "replay_check c p = None \<longleftrightarrow> unat c \<notin> A \<and> (\<forall>a \<in> A. a < unat c + 64)"
proof (cases "w_have_recv p")
  case False
  then show ?thesis using assms(1) by (simp add: seen_ok_def replay_check_def)
next
  case True
  let ?h = "w_recv_highest p"
  have A: "unat ?h \<in> A" "\<forall>a \<in> A. a \<le> unat ?h" "\<forall>k < 64. bit (w_recv_window p) k \<longleftrightarrow> k \<le> unat ?h \<and> unat ?h - k \<in> A"
    using assms(1) True by (auto simp: seen_ok_def)
  have old: "c + 64 \<le> ?h \<longleftrightarrow> unat c + 64 \<le> unat ?h" using assms(2) by (simp add: word_le_nat_alt unat_plus64)
  have far: "(\<forall>a \<in> A. a < unat c + 64) \<longleftrightarrow> \<not> c + 64 \<le> ?h" using A(1,2) by (auto simp: old)
  have "replay_check c p = None \<longleftrightarrow> \<not> c + 64 \<le> ?h \<and> (c \<le> ?h \<longrightarrow> unat c \<notin> A)"
  proof (cases "c + 64 \<le> ?h \<or> \<not> c \<le> ?h")
    case True
    then show ?thesis using \<open>w_have_recv p\<close> by (auto simp: replay_check_def)
  next
    case False
    then have "unat ?h - unat c < 64" using near_counter [of c ?h] by simp
    moreover have "unat ?h - (unat ?h - unat c) = unat c" using False by (simp add: word_le_nat_alt)
    ultimately have "bit (w_recv_window p) (unat (?h - c)) \<longleftrightarrow> unat c \<in> A" using A(3) False by (simp add: unat_diff)
    then show ?thesis using \<open>w_have_recv p\<close> False by (auto simp: replay_check_def Let_def window_bit)
  qed
  moreover have "\<not> c \<le> ?h \<Longrightarrow> unat c \<notin> A" using A(2) by (auto simp: word_le_nat_alt)
  ultimately show ?thesis using far by blast
qed

subsection \<open>What is accepted\<close>

definition msg_counter :: "bytes \<Rightarrow> 64 word" where
  "msg_counter msg = read_le64 (drop 8 msg)"

lemma decapsulate_accepts:
  assumes "decapsulate msg cap now p = (p', Some packet)"
  shows "w_established p" "replay_check (msg_counter msg) p = None"
    "p' = (accept_counter (msg_counter msg) p)\<lparr>w_last_recv := now\<rparr>" "length packet \<le> cap"
    "msg ! 0 = 4" "length msg = 32 + length packet"
    "drop 16 msg = (case chacha20poly1305_encrypt packet [] (w_recv_key p) (chacha20poly1305_nonce (msg_counter msg)) of (c, tag) \<Rightarrow> c @ tag)"
proof -
  let ?n = "length msg - 16 - 16"
  let ?c = "take ?n (drop 16 msg)" and ?t = "drop (16 + ?n) msg"
  have len: "32 \<le> length msg" and est: "w_established p" "msg ! 0 = 4" and chk: "replay_check (msg_counter msg) p = None"
    and cap: "?n \<le> cap"
    and dec: "chacha20poly1305_decrypt ?c ?t [] (w_recv_key p) (chacha20poly1305_nonce (msg_counter msg)) = Some packet"
    and p': "p' = (accept_counter (msg_counter msg) p)\<lparr>w_last_recv := now\<rparr>"
    using assms by (auto simp: decapsulate_def Let_def msg_counter_def split: if_splits option.splits)
  have "length ?t = 16" using len by simp
  with dec have enc: "chacha20poly1305_encrypt packet [] (w_recv_key p) (chacha20poly1305_nonce (msg_counter msg)) = (?c, ?t)"
    by (simp add: aead_iff)
  then have n: "length packet = ?n" using encrypt_lengths(1) [OF enc] len by simp
  show "w_established p" "replay_check (msg_counter msg) p = None" "length packet \<le> cap" "msg ! 0 = 4"
    "p' = (accept_counter (msg_counter msg) p)\<lparr>w_last_recv := now\<rparr>" "length msg = 32 + length packet"
    using est chk cap n p' len by simp_all
  have "drop 16 msg = ?c @ ?t" using append_take_drop_id [of ?n "drop 16 msg"] by (simp add: add.commute)
  then show "drop 16 msg = (case chacha20poly1305_encrypt packet [] (w_recv_key p) (chacha20poly1305_nonce (msg_counter msg)) of (c, tag) \<Rightarrow> c @ tag)"
    by (simp only: enc prod.case)
qed

lemma decapsulate_refused: "decapsulate msg cap now p = (p', None) \<Longrightarrow> \<exists>e. p' = p\<lparr>w_error := e\<rparr>"
  by (cases p) (auto simp: decapsulate_def Let_def split: if_splits option.splits)

lemma encapsulate_sends:
  assumes "encapsulate packet cap now p = (p', Some msg)"
  shows "w_established p" "now - w_established_at p < kRejectAfterMs"
    "p' = p\<lparr>w_send_counter := w_send_counter p + 1, w_last_send := now\<rparr>"
    "msg_counter msg = w_send_counter p" "msg ! 0 = 4" "length msg = 32 + length packet"
    "drop 16 msg = (case chacha20poly1305_encrypt packet [] (w_send_key p) (chacha20poly1305_nonce (w_send_counter p)) of (c, tag) \<Rightarrow> c @ tag)"
proof -
  obtain c tag where enc: "chacha20poly1305_encrypt packet [] (w_send_key p) (chacha20poly1305_nonce (w_send_counter p)) = (c, tag)"
    by fastforce
  have msg: "msg = [4, 0, 0, 0] @ write_le32 (w_remote_index p) @ write_le64 (w_send_counter p) @ c @ tag"
    and est: "w_established p" "now - w_established_at p < kRejectAfterMs"
    and p': "p' = p\<lparr>w_send_counter := w_send_counter p + 1, w_last_send := now\<rparr>"
    using assms by (auto simp: encapsulate_def Let_def enc split: if_splits)
  show "w_established p" "now - w_established_at p < kRejectAfterMs" "msg ! 0 = 4" "length msg = 32 + length packet"
    "p' = p\<lparr>w_send_counter := w_send_counter p + 1, w_last_send := now\<rparr>"
    using est p' encrypt_lengths [OF enc] by (simp_all add: msg)
  have "drop 8 msg = write_le64 (w_send_counter p) @ c @ tag" by (simp add: msg)
  then show "msg_counter msg = w_send_counter p" by (simp add: msg_counter_def)
  show "drop 16 msg = (case chacha20poly1305_encrypt packet [] (w_send_key p) (chacha20poly1305_nonce (w_send_counter p)) of (c, tag) \<Rightarrow> c @ tag)"
    by (simp add: msg enc)
qed


subsection \<open>Runs of the transport\<close>

text \<open>The calls a tunnel makes between two handshakes, with what was handed to the network (\<open>sent\<close>)
  and what was accepted from it with the packet it gave (\<open>got\<close>).\<close>

datatype transport_event =
    SendPacket bytes nat "64 word"
  | ReceiveMessage bytes nat "64 word"

type_synonym transport_state = "wg_peer \<times> bytes list \<times> (bytes \<times> bytes) list"

fun transport_step :: "transport_event \<Rightarrow> transport_state \<Rightarrow> transport_state" where
  "transport_step (SendPacket packet cap now) (p, sent, got) =
     (case encapsulate packet cap now p of
        (p', Some msg) \<Rightarrow> (p', sent @ [msg], got)
      | (p', None) \<Rightarrow> (p', sent, got))"
| "transport_step (ReceiveMessage msg cap now) (p, sent, got) =
     (case decapsulate msg cap now p of
        (p', Some packet) \<Rightarrow> (p', sent, got @ [(msg, packet)])
      | (p', None) \<Rightarrow> (p', sent, got))"

definition sealed :: "bytes \<Rightarrow> bytes \<Rightarrow> bytes \<Rightarrow> bool" where
  "sealed key msg packet \<longleftrightarrow> length msg = 32 + length packet \<and>
     drop 16 msg = (case chacha20poly1305_encrypt packet [] key (chacha20poly1305_nonce (msg_counter msg)) of (c, tag) \<Rightarrow> c @ tag)"

definition run_ok :: "bytes \<Rightarrow> bytes \<Rightarrow> transport_state \<Rightarrow> bool" where
  "run_ok ks kr st \<longleftrightarrow> (case st of (p, sent, got) \<Rightarrow>
     w_send_key p = ks \<and> w_recv_key p = kr \<and>
     seen_ok p (set (map (\<lambda>g. unat (msg_counter (fst g))) got)) \<and> distinct (map (\<lambda>g. unat (msg_counter (fst g))) got) \<and>
     unat (w_send_counter p) = length sent \<and> map (\<lambda>m. unat (msg_counter m)) sent = [0..<length sent] \<and>
     (\<forall>g \<in> set got. sealed kr (fst g) (snd g)))"

lemma seen_ok_frame:
  "w_have_recv p' = w_have_recv p \<Longrightarrow> w_recv_highest p' = w_recv_highest p \<Longrightarrow> w_recv_window p' = w_recv_window p \<Longrightarrow>
   seen_ok p' A = seen_ok p A"
  by (simp add: seen_ok_def)

lemma accept_counter_frame [simp]:
  "w_send_key (accept_counter c p) = w_send_key p" "w_recv_key (accept_counter c p) = w_recv_key p"
  "w_send_counter (accept_counter c p) = w_send_counter p" "w_established (accept_counter c p) = w_established p"
  "w_established_at (accept_counter c p) = w_established_at p"
  by (simp_all add: accept_counter_def Let_def)

lemma run_ok_frame:
  "run_ok ks kr (p, sent, got) \<Longrightarrow> w_have_recv p' = w_have_recv p \<Longrightarrow> w_recv_highest p' = w_recv_highest p \<Longrightarrow>
   w_recv_window p' = w_recv_window p \<Longrightarrow> w_send_key p' = w_send_key p \<Longrightarrow> w_recv_key p' = w_recv_key p \<Longrightarrow>
   w_send_counter p' = w_send_counter p \<Longrightarrow> run_ok ks kr (p', sent, got)"
  by (simp add: run_ok_def seen_ok_frame [of p' p])

lemma transport_step_ok:
  assumes "run_ok ks kr (p, sent, got)" "length sent < 2 ^ 64 - 1"
  shows "run_ok ks kr (transport_step ev (p, sent, got)) \<and> length (fst (snd (transport_step ev (p, sent, got)))) \<le> Suc (length sent)"
proof (cases ev)
  case (SendPacket packet cap now)
  obtain p' r where e: "encapsulate packet cap now p = (p', r)" by fastforce
  show ?thesis
  proof (cases r)
    case None
    with e have "p' = p \<or> (\<exists>b e. p' = p\<lparr>w_error := e, w_established := b\<rparr>)"
      by (cases p) (auto simp: encapsulate_def Let_def split: if_splits prod.splits)
    then have "run_ok ks kr (p', sent, got)" by (intro run_ok_frame [OF assms(1)]) auto
    then show ?thesis by (simp add: SendPacket e None)
  next
    case (Some msg)
    note s = encapsulate_sends [OF e [unfolded Some]]
    have "unat (w_send_counter p + 1) = Suc (unat (w_send_counter p))"
      using assms by (simp add: run_ok_def unat_word_ariths)
    then show ?thesis
      using assms(1) seen_ok_frame [of p' p] by (simp add: SendPacket e Some run_ok_def s(3,4))
  qed
next
  case (ReceiveMessage msg cap now)
  obtain p' r where d: "decapsulate msg cap now p = (p', r)" by fastforce
  show ?thesis
  proof (cases r)
    case None
    then have "\<exists>e. p' = p\<lparr>w_error := e\<rparr>" using decapsulate_refused [of msg cap now p p'] d by simp
    then have "run_ok ks kr (p', sent, got)" by (intro run_ok_frame [OF assms(1)]) auto
    then show ?thesis by (simp add: ReceiveMessage d None)
  next
    case (Some packet)
    note a = decapsulate_accepts [OF d [unfolded Some]]
    let ?A = "set (map (\<lambda>g. unat (msg_counter (fst g))) got)"
    have seen: "seen_ok p ?A" using assms(1) by (simp add: run_ok_def)
    have "seen_ok p' (insert (unat (msg_counter msg)) ?A)"
      using accept_seen [OF seen a(2)] seen_ok_frame [of p' "accept_counter (msg_counter msg) p"] by (simp add: a(3))
    moreover have "unat (msg_counter msg) \<notin> ?A" by (rule replay_check_fresh [OF seen a(2)])
    ultimately show ?thesis
      using assms(1) a(6,7) by (auto simp: ReceiveMessage d Some run_ok_def a(3) sealed_def)
  qed
qed

lemma transport_run_ok:
  "run_ok ks kr st \<Longrightarrow> length (fst (snd st)) + length evs < 2 ^ 64 \<Longrightarrow> run_ok ks kr (fold transport_step evs st)"
proof (induction evs arbitrary: st)
  case (Cons ev evs)
  obtain p sent got where st: "st = (p, sent, got)" by (cases st) auto
  have "length sent < 2 ^ 64 - 1" using Cons.prems(2) by (simp add: st)
  from transport_step_ok [OF Cons.prems(1) [unfolded st] this, of ev] Cons.prems(2)
  show ?case using Cons.IH [of "transport_step ev st"] by (simp add: st)
qed simp

lemma run_start: "w_send_counter p = 0 \<Longrightarrow> \<not> w_have_recv p \<Longrightarrow> run_ok (w_send_key p) (w_recv_key p) (p, [], [])"
  by (simp add: run_ok_def seen_ok_def)

subsection \<open>Delivery\<close>

definition linked :: "wg_peer \<Rightarrow> wg_peer \<Rightarrow> bool" where
  "linked a b \<longleftrightarrow> w_established a \<and> w_established b \<and> w_send_key a = w_recv_key b \<and>
     (w_have_recv b \<longrightarrow> w_recv_highest b < w_send_counter a)"

lemma delivers:
  assumes link: "linked a b" and alive: "now - w_established_at a < kRejectAfterMs"
    and left: "unat (w_send_counter a) + 64 < 2 ^ 64"
    and room: "32 + length packet \<le> cap" "length packet \<le> cap'"
  shows "\<exists>a' msg b'. encapsulate packet cap now a = (a', Some msg) \<and> decapsulate msg cap' now' b = (b', Some packet) \<and>
    linked a' b' \<and> linked a' b"
proof -
  obtain c tag where enc: "chacha20poly1305_encrypt packet [] (w_send_key a) (chacha20poly1305_nonce (w_send_counter a)) = (c, tag)"
    by fastforce
  note len = encrypt_lengths [OF enc]
  have key: "w_send_key a = w_recv_key b" using link by (simp add: linked_def)
  let ?msg = "[4, 0, 0, 0] @ write_le32 (w_remote_index a) @ write_le64 (w_send_counter a) @ c @ tag"
  let ?a = "a\<lparr>w_send_counter := w_send_counter a + 1, w_last_send := now\<rparr>"
  have sent: "encapsulate packet cap now a = (?a, Some ?msg)"
    using link alive room(1) not_le [of kRejectAfterMs] by (simp add: encapsulate_def linked_def Let_def enc [unfolded key] key)
  have ctr: "msg_counter ?msg = w_send_counter a" by (simp add: msg_counter_def)
  have more: "unat (w_send_counter a + 64) = unat (w_send_counter a) + 64" using left by (simp add: unat_plus64)
  have fresh: "replay_check (w_send_counter a) b = None"
    using link more by (auto simp: linked_def replay_check_def word_le_nat_alt word_less_nat_alt Let_def)
  have dec: "chacha20poly1305_decrypt c tag [] (w_recv_key b) (chacha20poly1305_nonce (w_send_counter a)) = Some packet"
    using aead_iff [of tag c "[]" "w_recv_key b" "chacha20poly1305_nonce (w_send_counter a)" packet] enc len link by (simp add: linked_def)
  let ?b = "(accept_counter (w_send_counter a) b)\<lparr>w_last_recv := now'\<rparr>"
  have cut: "drop (16 + length packet) (4 # 0 # 0 # 0 # write_le32 (w_remote_index a) @ write_le64 (w_send_counter a) @ c @ tag) = tag"
    using len by (simp add: drop_Cons')
  have got: "decapsulate ?msg cap' now' b = (?b, Some packet)"
    using link len room(2) ctr fresh dec by (simp add: cut decapsulate_def linked_def Let_def msg_counter_def)
  have "w_send_counter a < w_send_counter a + 1"
    using left by (simp add: word_less_nat_alt unat_word_ariths)
  then have "linked ?a ?b" "linked ?a b"
    using link by (auto simp: linked_def accept_counter_def Let_def)
  with sent got show ?thesis by blast
qed

subsection \<open>Properties\<close>

text \<open>C19: between two handshakes, whatever is sent and whatever arrives, in any order and however often: no
  two messages handed to the network carry the same counter, so no nonce is used twice under the
  sending key, no counter is accepted twice, so a replayed message never gives its packet again, and
  each accepted message is one that the holder of the receiving key encrypted, giving exactly its packet.\<close>

theorem transport_never_repeats:
  assumes "w_send_counter p = 0" "\<not> w_have_recv p" "length evs < 2 ^ 64"
  shows "case fold transport_step evs (p, [], []) of (p', sent, got) \<Rightarrow>
    distinct (map msg_counter sent) \<and> distinct (map (\<lambda>g. msg_counter (fst g)) got) \<and>
    (\<forall>g \<in> set got. sealed (w_recv_key p) (fst g) (snd g))"
proof -
  obtain p' sent got where f: "fold transport_step evs (p, [], []) = (p', sent, got)" by (cases "fold transport_step evs (p, [], [])") auto
  have ok: "run_ok (w_send_key p) (w_recv_key p) (p', sent, got)"
    using transport_run_ok [OF run_start [OF assms(1,2)], of evs] assms(3) by (simp add: f)
  then have "distinct (map unat (map msg_counter sent))" "distinct (map unat (map (\<lambda>g. msg_counter (fst g)) got))"
    by (simp_all add: run_ok_def o_def)
  then have "distinct (map msg_counter sent)" "distinct (map (\<lambda>g. msg_counter (fst g)) got)"
    by (metis distinct_map)+
  with ok show ?thesis by (simp add: f run_ok_def)
qed

theorem transport_never_repeats_witness:
  "case fold transport_step [SendPacket [1] 1500 0, SendPacket [2] 1500 0, ReceiveMessage (replicate 32 4) 1500 0]
      (new_wg_peer\<lparr>w_established := True\<rparr>, [], []) of (p', sent, got) \<Rightarrow>
    distinct (map msg_counter sent) \<and> distinct (map (\<lambda>g. msg_counter (fst g)) got) \<and>
    (\<forall>g \<in> set got. sealed (w_recv_key (new_wg_peer\<lparr>w_established := True\<rparr>)) (fst g) (snd g))"
  by (rule transport_never_repeats) (simp_all add: new_wg_peer_def)

text \<open>C20: a packet crosses the tunnel: while the keys of one side are less than 180 s old and the other side
  receives with the key it sends with, a packet that fits is encrypted, the other side decrypts the
  message to that packet, and both remain able to exchange the next one, whether this message arrives
  or is lost.\<close>

theorem packets_cross_the_tunnel:
  assumes "linked a b" "now - w_established_at a < kRejectAfterMs" "unat (w_send_counter a) + 64 < 2 ^ 64"
    "32 + length packet \<le> cap" "length packet \<le> cap'"
  shows "\<exists>a' msg b'. encapsulate packet cap now a = (a', Some msg) \<and> decapsulate msg cap' now' b = (b', Some packet) \<and>
    linked a' b' \<and> linked a' b"
  by (rule delivers [OF assms])

theorem packets_cross_the_tunnel_witness:
  "\<exists>a' msg b'. encapsulate [69, 0] 1500 7 (new_wg_peer\<lparr>w_established := True\<rparr>) = (a', Some msg) \<and>
     decapsulate msg 1500 9 (new_wg_peer\<lparr>w_established := True\<rparr>) = (b', Some [69, 0]) \<and>
     linked a' b' \<and> linked a' (new_wg_peer\<lparr>w_established := True\<rparr>)"
  by (rule packets_cross_the_tunnel) (simp_all add: new_wg_peer_def linked_def kRejectAfterMs_def)

end
