(* ===== verification/WireguardKeys.thy ===== *)
theory WireguardKeys
  imports WireguardData
begin

text \<open>
  The text form of a WireGuard key: what \<open>key_to_base64\<close> writes is read back by
  \<open>key_from_base64\<close>, whose accumulator is never cleared (its upper bits are leftovers that the
  narrowing to a byte drops).
\<close>

lemma sextet_mask: "w AND 0x3f = take_bit 6 (w :: 32 word)"
  by (simp only: take_bit_eq_mask) (simp add: mask_eq_exp_minus_1)

lemma alphabet_map: "map base64_value kBase64Alphabet = map Some [0..<64]"
  by (simp add: kBase64Alphabet_def base64_value_def is_upper_def is_lower_def is_digit_def upt_rec)

lemma alphabet_plain: "c \<in> set kBase64Alphabet \<Longrightarrow> \<not> (c = B CHR ''='' \<or> c = 10 \<or> c = 13 \<or> c = 32)"
  by (auto simp: kBase64Alphabet_def)

lemma alphabet_values:
  assumes "n < 64"
  shows "base64_value (kBase64Alphabet ! n) = Some n"
    "\<not> (kBase64Alphabet ! n = B CHR ''='' \<or> kBase64Alphabet ! n = 10 \<or> kBase64Alphabet ! n = 13 \<or> kBase64Alphabet ! n = 32)"
proof -
  have len: "length kBase64Alphabet = 64" using arg_cong [OF alphabet_map, of length] by simp
  show "base64_value (kBase64Alphabet ! n) = Some n"
    using arg_cong [OF alphabet_map, of "\<lambda>l. l ! n"] assms by (simp add: len del: upt_rec_numeral)
  show "\<not> (kBase64Alphabet ! n = B CHR ''='' \<or> kBase64Alphabet ! n = 10 \<or> kBase64Alphabet ! n = 13 \<or> kBase64Alphabet ! n = 32)"
    by (rule alphabet_plain) (simp add: assms len)
qed

definition sextet :: "32 word \<Rightarrow> nat \<Rightarrow> 32 word" where
  "sextet t s = take_bit 6 (drop_bit s t)"

lemma sextet_less: "unat (sextet t s) < 64"
proof -
  have "unat (sextet t s) = take_bit 6 (unat (drop_bit s t))" by (simp only: sextet_def unsigned_take_bit_eq)
  then show ?thesis using take_bit_nat_less_exp [of 6 "unat (drop_bit s t)"] by simp
qed

lemma loop_symbol:
  "base64_loop (kBase64Alphabet ! unat (sextet t s) # rest) acc bits out =
     (let acc = push_bit 6 acc OR sextet t s; bits = bits + 6
      in if 8 \<le> bits then
           (if 32 \<le> length out then (False, out)
            else base64_loop rest acc (bits - 8) (out @ [ucast (drop_bit (bits - 8) acc)]))
         else base64_loop rest acc bits out)"
  using alphabet_values [OF sextet_less [of t s]] by (simp add: Let_def)

definition triple :: "byte \<Rightarrow> byte \<Rightarrow> byte \<Rightarrow> 32 word" where
  "triple a b c = push_bit 16 (ucast a) OR push_bit 8 (ucast b) OR ucast c"

lemma triple_bytes:
  "ucast (drop_bit 4 (push_bit 6 (push_bit 6 acc OR sextet (triple a b c) 18) OR sextet (triple a b c) 12)) = a"
  "ucast (drop_bit 2 (push_bit 6 (push_bit 6 acc' OR sextet (triple a b c) 12) OR sextet (triple a b c) 6)) = b"
  "ucast (push_bit 6 (push_bit 6 acc' OR sextet (triple a b c) 6) OR sextet (triple a b c) 0) = c"
proof -
  have bits: "bit (triple a b c) n \<longleftrightarrow> n < 24 \<and> (if n < 8 then bit c n else if n < 16 then bit b (n - 8) else bit a (n - 16))" for n
    using bit_imp_le_length [of c n] bit_imp_le_length [of b "n - 8"] bit_imp_le_length [of a "n - 16"]
    by (auto simp: triple_def bit_simps)
  have eight: "n = 0 \<or> n = 1 \<or> n = 2 \<or> n = 3 \<or> n = 4 \<or> n = 5 \<or> n = 6 \<or> n = 7" if "n < LENGTH(8)" for n
    using that by auto
  show "ucast (drop_bit 4 (push_bit 6 (push_bit 6 acc OR sextet (triple a b c) 18) OR sextet (triple a b c) 12)) = a"
    by (rule bit_word_eqI, drule eight) (elim disjE, simp_all add: sextet_def bit_simps bits)
  show "ucast (drop_bit 2 (push_bit 6 (push_bit 6 acc' OR sextet (triple a b c) 12) OR sextet (triple a b c) 6)) = b"
    by (rule bit_word_eqI, drule eight) (elim disjE, simp_all add: sextet_def bit_simps bits)
  show "ucast (push_bit 6 (push_bit 6 acc' OR sextet (triple a b c) 6) OR sextet (triple a b c) 0) = c"
    by (rule bit_word_eqI, drule eight) (elim disjE, simp_all add: sextet_def bit_simps bits)
qed

lemma group_full: "i + 2 < 32 \<Longrightarrow> base64_group key i = map (\<lambda>s. kBase64Alphabet ! unat (sextet (triple (key ! i) (key ! (i + 1)) (key ! (i + 2))) s)) [18, 12, 6, 0]"
  by (simp add: base64_group_def Let_def triple_def sextet_def sextet_mask)

lemma group_last: "base64_group key 30 = map (\<lambda>s. kBase64Alphabet ! unat (sextet (triple (key ! 30) (key ! 31) 0) s)) [18, 12, 6] @ [B CHR ''='']"
  by (simp add: base64_group_def Let_def triple_def sextet_def sextet_mask)

lemma loop_from:
  "base64_loop (kBase64Alphabet ! unat (sextet t s) # rest) acc 0 out = base64_loop rest (push_bit 6 acc OR sextet t s) 6 out"
  "length out < 32 \<Longrightarrow> base64_loop (kBase64Alphabet ! unat (sextet t s) # rest) acc 6 out =
     base64_loop rest (push_bit 6 acc OR sextet t s) 4 (out @ [ucast (drop_bit 4 (push_bit 6 acc OR sextet t s))])"
  "length out < 32 \<Longrightarrow> base64_loop (kBase64Alphabet ! unat (sextet t s) # rest) acc 4 out =
     base64_loop rest (push_bit 6 acc OR sextet t s) 2 (out @ [ucast (drop_bit 2 (push_bit 6 acc OR sextet t s))])"
  "length out < 32 \<Longrightarrow> base64_loop (kBase64Alphabet ! unat (sextet t s) # rest) acc 2 out =
     base64_loop rest (push_bit 6 acc OR sextet t s) 0 (out @ [ucast (push_bit 6 acc OR sextet t s)])"
  by (simp_all only: loop_symbol Let_def) simp_all

lemma loop_group:
  assumes "length out + 3 \<le> 32"
  shows "\<exists>acc'. base64_loop (map (\<lambda>s. kBase64Alphabet ! unat (sextet (triple a b c) s)) [18, 12, 6, 0] @ rest) acc 0 out =
    base64_loop rest acc' 0 (out @ [a, b, c])"
proof -
  have l: "length out < 32" "length (out @ [x]) < 32" "length (out @ [x, y]) < 32" for x y using assms by simp_all
  show ?thesis
    by (simp only: list.map append.simps loop_from(1) loop_from(2) [OF l(1)] triple_bytes append_assoc
        loop_from(3) [OF l(2)] loop_from(4) [OF l(3)]) blast
qed

lemma loop_tail:
  assumes "length out = 30"
  shows "base64_loop (map (\<lambda>s. kBase64Alphabet ! unat (sextet (triple a b c) s)) [18, 12, 6] @ [B CHR ''='']) acc 0 out =
    (True, out @ [a, b])"
proof -
  have l: "length out < 32" "length (out @ [x]) < 32" for x using assms by simp_all
  show ?thesis
    unfolding list.map append.simps loop_from(1) loop_from(2) [OF l(1)] triple_bytes append_assoc loop_from(3) [OF l(2)]
    by (simp add: assms)
qed

lemma take_three: "i + 3 \<le> length xs \<Longrightarrow> take (i + 3) xs = take i xs @ [xs ! i, xs ! (i + 1), xs ! (i + 2)]"
  by (simp add: numeral_3_eq_3 take_Suc_conv_app_nth)

lemma loop_groups:
  assumes "length key = 32"
  shows "k \<le> 10 \<Longrightarrow> \<exists>acc'. base64_loop (concat (map (\<lambda>k. base64_group key (3 * k)) [0..<k]) @ rest) acc 0 [] =
    base64_loop rest acc' 0 (take (3 * k) key)"
proof (induction k arbitrary: rest)
  case (Suc k)
  let ?i = "3 * k"
  have len: "length (take ?i key) + 3 \<le> 32" using Suc.prems assms by simp
  have tk: "take (3 * Suc k) key = take ?i key @ [key ! ?i, key ! (?i + 1), key ! (?i + 2)]"
    using take_three [of ?i key] Suc.prems assms by (simp add: add.commute)
  have g: "base64_group key ?i = map (\<lambda>s. kBase64Alphabet ! unat (sextet (triple (key ! ?i) (key ! (?i + 1)) (key ! (?i + 2))) s)) [18, 12, 6, 0]"
    using Suc.prems by (intro group_full) simp
  obtain acc1 where a1: "base64_loop (concat (map (\<lambda>k. base64_group key (3 * k)) [0..<k]) @ base64_group key ?i @ rest) acc 0 [] =
      base64_loop (base64_group key ?i @ rest) acc1 0 (take ?i key)"
    using Suc.IH [of "base64_group key ?i @ rest"] Suc.prems by auto
  obtain acc2 where "base64_loop (base64_group key ?i @ rest) acc1 0 (take ?i key) = base64_loop rest acc2 0 (take (3 * Suc k) key)"
    using loop_group [OF len, of "key ! ?i" "key ! (?i + 1)" "key ! (?i + 2)" rest acc1] unfolding g tk by blast
  with a1 show ?case by auto
qed auto

subsection \<open>Properties\<close>

text \<open>A key survives its text form: reading the base64 text written for 32 bytes succeeds and gives
  these bytes, although the accumulator keeps the bits of the symbols before, and the last group,
  which has only two bytes, is written with one padding character and read back without it.\<close>

theorem key_base64_roundtrip:
  assumes "length key = 32"
  shows "key_from_base64 (key_to_base64 key) = (True, key)"
proof -
  have split: "key_to_base64 key = concat (map (\<lambda>k. base64_group key (3 * k)) [0..<10]) @ base64_group key 30"
    by (simp add: key_to_base64_def upt_rec)
  obtain acc' where "base64_loop (concat (map (\<lambda>k. base64_group key (3 * k)) [0..<10]) @ base64_group key 30) 0 0 [] =
      base64_loop (base64_group key 30) acc' 0 (take 30 key)"
    using loop_groups [OF assms, of 10 "base64_group key 30" 0] by auto
  also have "\<dots> = (True, take 30 key @ [key ! 30, key ! 31])"
    unfolding group_last by (rule loop_tail) (simp add: assms)
  also have "take 30 key @ [key ! 30, key ! 31] = key"
    using assms append_take_drop_id [of 30 key] by (simp add: Cons_nth_drop_Suc [symmetric])
  finally show ?thesis unfolding key_from_base64_def split .
qed

theorem key_base64_roundtrip_witness: "key_from_base64 (key_to_base64 (replicate 32 255)) = (True, replicate 32 255)"
  by (rule key_base64_roundtrip) simp

end
