(* ===== verification/WireguardHandshake.thy ===== *)
theory WireguardHandshake
  imports WireguardData
begin

text \<open>
  The handshake of \<open>wireguard.cpp\<close>.  \<open>first_flight\<close> and \<open>second_flight\<close> are the transcript both sides
  compute, as functions of the public keys and the shared secrets only; each of the four handlers
  is shown to compute them from its own secrets, so that the composition of the four agrees on the
  transport keys.  The commutation of X25519 (\<open>dh_commutes\<close>) is a hypothesis: it is the property of
  the curve the protocol rests on.
\<close>

subsection \<open>The transcript\<close>

lemma mix_simps [simp]:
  "w_chaining_key (mix_key x p) = fst (kdf (w_chaining_key p) x)" "w_hash (mix_key x p) = w_hash p"
  "w_chaining_key (absorb_hash x p) = w_chaining_key p" "w_hash (absorb_hash x p) = mix_hash (w_hash p) x"
  by (simp_all add: mix_key_def absorb_hash_def)

lemma mix_frame [simp]:
  "w_static_private (mix_key x p) = w_static_private p" "w_static_private (absorb_hash x p) = w_static_private p"
  "w_static_public (mix_key x p) = w_static_public p" "w_static_public (absorb_hash x p) = w_static_public p"
  "w_peer_public (mix_key x p) = w_peer_public p" "w_peer_public (absorb_hash x p) = w_peer_public p"
  "w_preshared (mix_key x p) = w_preshared p" "w_preshared (absorb_hash x p) = w_preshared p"
  "w_ephemeral_private (mix_key x p) = w_ephemeral_private p" "w_ephemeral_private (absorb_hash x p) = w_ephemeral_private p"
  "w_ephemeral_public (mix_key x p) = w_ephemeral_public p" "w_ephemeral_public (absorb_hash x p) = w_ephemeral_public p"
  "w_initiator_ephemeral (mix_key x p) = w_initiator_ephemeral p" "w_initiator_ephemeral (absorb_hash x p) = w_initiator_ephemeral p"
  "w_local_index (mix_key x p) = w_local_index p" "w_local_index (absorb_hash x p) = w_local_index p"
  "w_remote_index (mix_key x p) = w_remote_index p" "w_remote_index (absorb_hash x p) = w_remote_index p"
  by (simp_all add: mix_key_def absorb_hash_def)

lemma opened [simp]:
  "w_chaining_key (open_transcript k p) = initial_chaining_key"
  "w_hash (open_transcript k p) = mix_hash (wg_hash initial_chaining_key kIdentifier) k"
  "w_static_private (open_transcript k p) = w_static_private p" "w_static_public (open_transcript k p) = w_static_public p"
  "w_peer_public (open_transcript k p) = w_peer_public p" "w_preshared (open_transcript k p) = w_preshared p"
  by (simp_all add: open_transcript_def Let_def)

definition seal :: "bytes \<Rightarrow> bytes \<Rightarrow> bytes \<Rightarrow> bytes" where
  "seal m ad key = (case chacha20poly1305_encrypt m ad key (chacha20poly1305_nonce 0) of (c, tag) \<Rightarrow> c @ tag)"

definition after_first :: "bytes \<Rightarrow> bytes \<Rightarrow> bytes \<times> bytes" where
  "after_first responder epub =
     (fst (kdf initial_chaining_key epub), mix_hash (mix_hash (wg_hash initial_chaining_key kIdentifier) responder) epub)"

definition first_flight :: "bytes \<Rightarrow> bytes \<Rightarrow> bytes \<Rightarrow> bytes \<Rightarrow> bytes \<Rightarrow> bytes \<Rightarrow> bytes \<times> bytes \<times> bytes \<times> bytes" where
  "first_flight responder epub spub dh1 dh2 stamp =
     (let (ck1, h1) = after_first responder epub;
          (ck2, k2, _) = kdf ck1 dh1;
          a = seal spub h1 k2;
          h2 = mix_hash h1 a;
          (ck3, k3, _) = kdf ck2 dh2;
          b = seal stamp h2 k3
      in (a, b, ck3, mix_hash h2 b))"

definition second_flight :: "bytes \<Rightarrow> bytes \<Rightarrow> bytes \<Rightarrow> bytes \<Rightarrow> bytes \<Rightarrow> bytes \<Rightarrow> bytes \<times> bytes \<times> bytes" where
  "second_flight ck h epub dh1 dh2 psk =
     (let ck1 = fst (kdf ck epub);
          h1 = mix_hash h epub;
          ck2 = fst (kdf ck1 dh1);
          ck3 = fst (kdf ck2 dh2);
          (ck4, tau, key) = kdf ck3 psk;
          h2 = mix_hash h1 tau;
          tag = seal [] h2 key
      in (tag, ck4, mix_hash h2 tag))"

lemma seal_length [simp]: "length (seal m ad key) = length m + 16"
proof -
  obtain c tag where e: "chacha20poly1305_encrypt m ad key (chacha20poly1305_nonce 0) = (c, tag)" by fastforce
  show ?thesis using encrypt_lengths [OF e] by (simp add: seal_def e)
qed

lemma seal_opens:
  assumes "length m = n"
  shows "chacha20poly1305_decrypt (take n (seal m ad key @ rest)) (take 16 (drop n (seal m ad key @ rest))) ad key
    (chacha20poly1305_nonce 0) = Some m"
proof -
  obtain c tag where e: "chacha20poly1305_encrypt m ad key (chacha20poly1305_nonce 0) = (c, tag)" by fastforce
  have l: "length c = n" "length tag = 16" using encrypt_lengths [OF e] assms by simp_all
  then show ?thesis using e by (simp add: seal_def aead_iff)
qed

lemma seal_prod: "chacha20poly1305_encrypt m ad key (chacha20poly1305_nonce 0) = (c, tag) \<Longrightarrow> c @ tag = seal m ad key"
  by (simp add: seal_def)

lemma first_flight_lengths:
  "first_flight r e s d1 d2 t = (a, b, ck, h) \<Longrightarrow> length a = length s + 16 \<and> length b = length t + 16"
  by (auto simp: first_flight_def Let_def split: prod.splits)

subsection \<open>The four handlers\<close>

definition secret1 :: "bytes \<Rightarrow> wg_peer \<Rightarrow> bytes" where
  "secret1 rnd p = x25519_scalarmult (generate_private_key rnd) (w_peer_public p)"

definition secret2 :: "wg_peer \<Rightarrow> bytes" where
  "secret2 p = x25519_scalarmult (w_static_private p) (w_peer_public p)"

lemma make_initiation_flight:
  assumes "first_flight (w_peer_public p) (derive_public_key (generate_private_key rnd)) (w_static_public p)
      (secret1 rnd p) (secret2 p) (tai64n ns) = (a, b, ck, h)"
    "\<not> x25519_is_zero (secret1 rnd p)" "\<not> x25519_is_zero (secret2 p)"
  shows "\<exists>mac. length mac = 32 \<and> make_initiation rnd index now ns p =
    (p\<lparr>w_ephemeral_private := generate_private_key rnd, w_ephemeral_public := derive_public_key (generate_private_key rnd),
       w_local_index := index, w_chaining_key := ck, w_hash := h, w_in_progress := True, w_last_attempt := now\<rparr>,
     Some ([1, 0, 0, 0] @ write_le32 index @ derive_public_key (generate_private_key rnd) @ a @ b @ mac))"
  using assms
  by (auto simp: make_initiation_def first_flight_def after_first_def seal_def secret1_def secret2_def Let_def
    open_transcript_def mix_key_def mixed_key_def absorb_hash_def split: prod.splits)

lemma make_initiation_refused:
  assumes "x25519_is_zero (secret1 rnd p) \<or> x25519_is_zero (secret2 p)"
  shows "\<exists>p'. make_initiation rnd index now ns p = (p', None)"
  using assms by (auto simp: make_initiation_def secret1_def secret2_def Let_def open_transcript_def mix_key_def mixed_key_def absorb_hash_def split: prod.splits)

lemma absorb_first:
  assumes "first_flight r e s d1 d2 t = (a, b, ck, h)"
  shows "h = mix_hash (mix_hash (snd (after_first r e)) a) b"
    "a = seal s (snd (after_first r e)) (fst (snd (kdf (fst (after_first r e)) d1)))"
    "b = seal t (mix_hash (snd (after_first r e)) a) (fst (snd (kdf (fst (kdf (fst (after_first r e)) d1)) d2)))"
    "ck = fst (kdf (fst (kdf (fst (after_first r e)) d1)) d2)"
  using assms by (auto simp: first_flight_def Let_def split: prod.splits)

lemma consume_initiation_flight:
  assumes flight: "first_flight (w_static_public p) epub spub (x25519_scalarmult (w_static_private p) epub)
      (x25519_scalarmult (w_static_private p) spub) stamp = (a, b, ck, h)"
    and len: "length epub = 32" "length spub = 32" "length stamp = 12" "length mac = 32"
  shows "consume_initiation ([1, 0, 0, 0] @ write_le32 index @ epub @ a @ b @ mac) p =
    (p\<lparr>w_initiator_ephemeral := epub, w_chaining_key := ck, w_hash := h, w_peer_public := spub,
       w_remote_index := index, w_in_progress := True\<rparr>, True)"
proof -
  note ab = first_flight_lengths [OF flight]
  define msg where "msg = [1, 0, 0, 0] @ write_le32 index @ epub @ a @ b @ mac"
  define ra rb where "ra = a @ b @ mac" and "rb = b @ mac"
  have part: "length msg = 148" "msg ! 0 = 1" "take 32 (drop 8 msg) = epub" "read_le32 (drop 4 msg) = index"
    "drop 40 msg = ra" "drop 88 msg = rb"
    using ab len by (simp_all add: msg_def ra_def rb_def drop_Cons')
  have drops: "drop 72 msg = drop 32 ra" "drop 100 msg = drop 12 rb"
    using drop_drop [of 32 40 msg] drop_drop [of 12 88 msg] by (simp_all add: part(5,6))
  have takes: "take 48 ra = a" "take 28 rb = b" using ab len by (simp_all add: ra_def rb_def)
  let ?h1 = "snd (after_first (w_static_public p) epub)" and ?ck1 = "fst (after_first (w_static_public p) epub)"
  note f = absorb_first [OF flight]
  let ?k2 = "fst (snd (kdf ?ck1 (x25519_scalarmult (w_static_private p) epub)))"
  have d1: "chacha20poly1305_decrypt (take 32 ra) (take 16 (drop 32 ra)) ?h1 ?k2 (chacha20poly1305_nonce 0) = Some spub"
    using seal_opens [OF len(2), of ?h1 ?k2 "b @ mac"] by (simp only: ra_def f(2))
  have d2: "chacha20poly1305_decrypt (take 12 rb) (take 16 (drop 12 rb)) (mix_hash ?h1 a)
      (fst (snd (kdf (fst (kdf ?ck1 (x25519_scalarmult (w_static_private p) epub))) (x25519_scalarmult (w_static_private p) spub))))
      (chacha20poly1305_nonce 0) = Some stamp"
    using seal_opens [OF len(3)] by (simp only: rb_def f(3))
  show ?thesis
    using d1 d2 unfolding msg_def [symmetric] consume_initiation_def
    by (simp add: part drops takes Let_def after_first_def mixed_key_def f(1,4)
      open_transcript_def mix_key_def absorb_hash_def)
qed

lemma absorb_second:
  assumes "second_flight ck h epub d1 d2 psk = (tag, ck', h')"
  shows "ck' = fst (kdf (fst (kdf (fst (kdf (fst (kdf ck epub)) d1)) d2)) psk)"
    "tag = seal [] (mix_hash (mix_hash h epub) (fst (snd (kdf (fst (kdf (fst (kdf (fst (kdf ck epub)) d1)) d2)) psk))))
       (snd (snd (kdf (fst (kdf (fst (kdf (fst (kdf ck epub)) d1)) d2)) psk)))"
    "h' = mix_hash (mix_hash (mix_hash h epub) (fst (snd (kdf (fst (kdf (fst (kdf (fst (kdf ck epub)) d1)) d2)) psk)))) tag"
    "length tag = 16"
  using assms by (auto simp: second_flight_def Let_def split: prod.splits)

lemma seal_empty: "chacha20poly1305_encrypt [] ad key (chacha20poly1305_nonce 0) = (c, tag) \<Longrightarrow> tag = seal [] ad key"
  using encrypt_lengths(1) [of "[]" ad key "chacha20poly1305_nonce 0" c tag] by (simp add: seal_def)

definition keyed :: "bool \<Rightarrow> bytes \<Rightarrow> bytes \<Rightarrow> wg_peer \<Rightarrow> wg_peer" where
  "keyed initiator ck h p =
     p\<lparr>w_hash := h, w_chaining_key := zero_key, w_ephemeral_private := zero_key,
       w_send_key := (if initiator then fst (kdf ck []) else fst (snd (kdf ck []))),
       w_recv_key := (if initiator then fst (snd (kdf ck [])) else fst (kdf ck [])),
       w_send_counter := 0, w_have_recv := False, w_recv_highest := 0, w_recv_window := 0,
       w_established := True, w_in_progress := False\<rparr>"

lemma make_response_flight:
  assumes flight: "second_flight (w_chaining_key p) (w_hash p) (derive_public_key (generate_private_key rnd))
      (x25519_scalarmult (generate_private_key rnd) (w_initiator_ephemeral p))
      (x25519_scalarmult (generate_private_key rnd) (w_peer_public p)) (w_preshared p) = (tag, ck, h)"
    and go: "w_in_progress p"
  shows "\<exists>mac. length mac = 32 \<and> make_response rnd index p =
    (keyed False ck h (p\<lparr>w_ephemeral_public := derive_public_key (generate_private_key rnd), w_local_index := index\<rparr>),
     Some ([2, 0, 0, 0] @ write_le32 index @ write_le32 (w_remote_index p) @ derive_public_key (generate_private_key rnd) @ tag @ mac))"
proof -
  let ?epub = "derive_public_key (generate_private_key rnd)"
  let ?m = "[2, 0, 0, 0] @ write_le32 index @ write_le32 (w_remote_index p) @ ?epub @ tag"
  let ?mac = "compute_mac1 (w_peer_public p) ?m @ replicate 16 0"
  note f = absorb_second [OF flight]
  have "make_response rnd index p = (keyed False ck h (p\<lparr>w_ephemeral_public := ?epub, w_local_index := index\<rparr>), Some (?m @ ?mac))"
    using go by (cases p) (auto simp: make_response_def Let_def mix_key_def absorb_hash_def f(1,3) derive_transport_keys_def keyed_def
      f(2) dest!: seal_empty split: prod.splits)
  then show ?thesis by (intro exI [of _ ?mac]) simp
qed

lemma consume_response_flight:
  assumes flight: "second_flight (w_chaining_key p) (w_hash p) epub (x25519_scalarmult (w_ephemeral_private p) epub)
      (x25519_scalarmult (w_static_private p) epub) (w_preshared p) = (tag, ck, h)"
    and len: "length epub = 32" "length mac = 32"
    and go: "w_in_progress p" "w_local_index p = receiver"
  shows "consume_response ([2, 0, 0, 0] @ write_le32 sender @ write_le32 receiver @ epub @ tag @ mac) now p =
    (if x25519_is_zero (x25519_scalarmult (w_ephemeral_private p) epub) \<or> x25519_is_zero (x25519_scalarmult (w_static_private p) epub)
     then (fst (consume_response ([2, 0, 0, 0] @ write_le32 sender @ write_le32 receiver @ epub @ tag @ mac) now p), False)
     else (keyed True ck h (p\<lparr>w_remote_index := sender, w_established_at := now, w_last_send := now, w_last_recv := now\<rparr>), True))"
proof -
  note f = absorb_second [OF flight]
  define msg where "msg = [2, 0, 0, 0] @ write_le32 sender @ write_le32 receiver @ epub @ tag @ mac"
  define r where "r = tag @ mac"
  have part: "length msg = 92" "msg ! 0 = 2" "read_le32 (drop 4 msg) = sender" "read_le32 (drop 8 msg) = receiver"
    "take 32 (drop 12 msg) = epub" "drop 44 msg = r"
    using f(4) len by (simp_all add: msg_def r_def drop_Cons')
  have tk: "take 16 r = tag" using f(4) by (simp add: r_def)
  let ?kd = "kdf (fst (kdf (fst (kdf (fst (kdf (w_chaining_key p) epub)) (x25519_scalarmult (w_ephemeral_private p) epub)))
      (x25519_scalarmult (w_static_private p) epub))) (w_preshared p)"
  have dec: "chacha20poly1305_decrypt [] tag (mix_hash (mix_hash (w_hash p) epub) (fst (snd ?kd))) (snd (snd ?kd)) (chacha20poly1305_nonce 0) = Some []"
    using seal_opens [of "[]" 0 "mix_hash (mix_hash (w_hash p) epub) (fst (snd ?kd))" "snd (snd ?kd)" "[]"] f(4)
    by (simp only: f(2) [symmetric]) simp
  obtain c t k where kd: "?kd = (c, t, k)" by (rule prod_cases3)
  have "consume_response msg now p =
    (if x25519_is_zero (x25519_scalarmult (w_ephemeral_private p) epub) \<or> x25519_is_zero (x25519_scalarmult (w_static_private p) epub)
     then (fst (consume_response msg now p), False)
     else (keyed True ck h (p\<lparr>w_remote_index := sender, w_established_at := now, w_last_send := now, w_last_recv := now\<rparr>), True))"
    using dec f(1,3) go kd
    by (cases p) (auto simp: consume_response_def part tk Let_def mix_key_def absorb_hash_def derive_transport_keys_def keyed_def split: prod.splits)
  then show ?thesis by (simp only: msg_def)
qed

subsection \<open>Agreement\<close>

text \<open>The exchange of \<open>wg_test\<close>: the four handlers in the order of the protocol, \<open>None\<close> when one refuses.\<close>

definition run_handshake ::
    "bytes \<Rightarrow> 32 word \<Rightarrow> bytes \<Rightarrow> 32 word \<Rightarrow> 64 word \<Rightarrow> 64 word \<Rightarrow> wg_peer \<Rightarrow> wg_peer \<Rightarrow> (wg_peer \<times> wg_peer) option" where
  "run_handshake rnd_i index_i rnd_r index_r now ns i r =
     (case make_initiation rnd_i index_i now ns i of
        (_, None) \<Rightarrow> None
      | (i, Some m1) \<Rightarrow>
          case consume_initiation m1 r of
            (_, False) \<Rightarrow> None
          | (r, True) \<Rightarrow>
              case make_response rnd_r index_r r of
                (_, None) \<Rightarrow> None
              | (r, Some m2) \<Rightarrow>
                  case consume_response m2 now i of
                    (_, False) \<Rightarrow> None
                  | (i, True) \<Rightarrow> Some (i, r))"

definition dh_commutes :: "bytes \<Rightarrow> bytes \<Rightarrow> bool" where
  "dh_commutes a b \<longleftrightarrow> x25519_scalarmult a (derive_public_key b) = x25519_scalarmult b (derive_public_key a)"

text \<open>What \<open>configure\<close> establishes on both sides of a tunnel.\<close>

definition paired :: "wg_peer \<Rightarrow> wg_peer \<Rightarrow> bool" where
  "paired i r \<longleftrightarrow> w_static_public i = derive_public_key (w_static_private i) \<and>
     w_static_public r = derive_public_key (w_static_private r) \<and>
     w_peer_public i = w_static_public r \<and> w_preshared i = w_preshared r"

lemma keyed_linked:
  "linked (keyed True ck h p) (keyed False ck h q)" "linked (keyed False ck h q) (keyed True ck h p)"
  by (simp_all add: linked_def keyed_def)

lemma linked_frame:
  "linked (keyed True ck h p) (keyed False ck' h' q) = linked (keyed True ck h p') (keyed False ck' h' q')"
  by (simp add: linked_def keyed_def)

lemma handshake_runs:
  fixes i r :: wg_peer and rnd_i rnd_r :: bytes
  defines "ei \<equiv> generate_private_key rnd_i" and "er \<equiv> generate_private_key rnd_r"
  assumes pair: "paired i r"
    and dh: "dh_commutes ei (w_static_private r)" "dh_commutes (w_static_private i) (w_static_private r)"
      "dh_commutes ei er" "dh_commutes (w_static_private i) er"
  shows "if list_ex x25519_is_zero
       [x25519_scalarmult ei (w_peer_public i), x25519_scalarmult (w_static_private i) (w_peer_public i),
        x25519_scalarmult ei (derive_public_key er), x25519_scalarmult (w_static_private i) (derive_public_key er)]
     then run_handshake rnd_i index_i rnd_r index_r now ns i r = None
     else \<exists>ck h i' r'. run_handshake rnd_i index_i rnd_r index_r now ns i r = Some (keyed True ck h i', keyed False ck h r') \<and>
       w_remote_index i' = index_r \<and> w_remote_index r' = index_i \<and> w_peer_public r' = w_static_public i"
proof (cases "x25519_is_zero (secret1 rnd_i i) \<or> x25519_is_zero (secret2 i)")
  case True
  then show ?thesis
    using make_initiation_refused [OF True, of index_i now ns]
    by (auto simp: run_handshake_def secret1_def secret2_def ei_def)
next
  case False
  let ?pi = "derive_public_key ei" and ?pr = "derive_public_key er"
  obtain a b ck h where ff: "first_flight (w_peer_public i) ?pi (w_static_public i) (secret1 rnd_i i) (secret2 i) (tai64n ns) = (a, b, ck, h)"
    by (rule prod_cases4)
  define i1 where "i1 = i\<lparr>w_ephemeral_private := ei, w_ephemeral_public := ?pi, w_local_index := index_i,
    w_chaining_key := ck, w_hash := h, w_in_progress := True, w_last_attempt := now\<rparr>"
  obtain mac where mac: "length mac = 32" and m1: "make_initiation rnd_i index_i now ns i =
      (i1, Some ([1, 0, 0, 0] @ write_le32 index_i @ ?pi @ a @ b @ mac))"
    using make_initiation_flight [OF ff [unfolded ei_def], of index_i now] False unfolding i1_def ei_def by auto
  have s1: "secret1 rnd_i i = x25519_scalarmult (w_static_private r) ?pi"
    and s2: "secret2 i = x25519_scalarmult (w_static_private r) (w_static_public i)"
    using pair dh(1,2) by (simp_all add: secret1_def secret2_def paired_def dh_commutes_def ei_def)
  define r1 where "r1 = r\<lparr>w_initiator_ephemeral := ?pi, w_chaining_key := ck, w_hash := h, w_peer_public := w_static_public i,
       w_remote_index := index_i, w_in_progress := True\<rparr>"
  have m1r: "consume_initiation ([1, 0, 0, 0] @ write_le32 index_i @ ?pi @ a @ b @ mac) r = (r1, True)"
    unfolding r1_def
    by (rule consume_initiation_flight [where stamp = "tai64n ns"]) (use ff pair mac in \<open>simp_all add: s1 s2 paired_def\<close>)
  obtain tag ck' h' where sf: "second_flight ck h ?pr (x25519_scalarmult ei ?pr) (x25519_scalarmult (w_static_private i) ?pr) (w_preshared i) = (tag, ck', h')"
    by (rule prod_cases3)
  have s3: "x25519_scalarmult er (w_initiator_ephemeral r1) = x25519_scalarmult ei ?pr"
    and s4: "x25519_scalarmult er (w_peer_public r1) = x25519_scalarmult (w_static_private i) ?pr"
    using pair dh(3,4) by (simp_all add: r1_def paired_def dh_commutes_def)
  obtain mac' where mac': "length mac' = 32" and m2: "make_response rnd_r index_r r1 =
      (keyed False ck' h' (r1\<lparr>w_ephemeral_public := ?pr, w_local_index := index_r\<rparr>),
       Some ([2, 0, 0, 0] @ write_le32 index_r @ write_le32 index_i @ ?pr @ tag @ mac'))"
    using make_response_flight [of r1 rnd_r tag ck' h' index_r] sf s3 s4 pair
    by (auto simp: r1_def paired_def er_def)
  have m2i: "consume_response ([2, 0, 0, 0] @ write_le32 index_r @ write_le32 index_i @ ?pr @ tag @ mac') now i1 =
    (if x25519_is_zero (x25519_scalarmult ei ?pr) \<or> x25519_is_zero (x25519_scalarmult (w_static_private i) ?pr)
     then (fst (consume_response ([2, 0, 0, 0] @ write_le32 index_r @ write_le32 index_i @ ?pr @ tag @ mac') now i1), False)
     else (keyed True ck' h' (i1\<lparr>w_remote_index := index_r, w_established_at := now, w_last_send := now, w_last_recv := now\<rparr>), True))"
    using consume_response_flight [of i1 ?pr tag ck' h' mac' index_i index_r now] sf mac' by (simp add: i1_def)
  show ?thesis
  proof (cases "x25519_is_zero (x25519_scalarmult ei ?pr) \<or> x25519_is_zero (x25519_scalarmult (w_static_private i) ?pr)")
    case True
    then have "snd (consume_response ([2, 0, 0, 0] @ write_le32 index_r @ write_le32 index_i @ ?pr @ tag @ mac') now i1) = False"
      using m2i by (metis snd_conv)
    then have "run_handshake rnd_i index_i rnd_r index_r now ns i r = None"
      using m1 m1r m2 by (auto simp: run_handshake_def split: prod.splits bool.splits)
    then show ?thesis using True by auto
  next
    case zero: False
    define i2 where "i2 = i1\<lparr>w_remote_index := index_r, w_established_at := now, w_last_send := now, w_last_recv := now\<rparr>"
    define r2 where "r2 = r1\<lparr>w_ephemeral_public := ?pr, w_local_index := index_r\<rparr>"
    have "run_handshake rnd_i index_i rnd_r index_r now ns i r = Some (keyed True ck' h' i2, keyed False ck' h' r2)"
      using m1 m1r m2 m2i zero by (simp add: run_handshake_def i2_def r2_def)
    moreover have "w_remote_index i2 = index_r" "w_remote_index r2 = index_i" "w_peer_public r2 = w_static_public i"
      by (simp_all add: i2_def r2_def r1_def)
    moreover have "\<not> list_ex x25519_is_zero [x25519_scalarmult ei (w_peer_public i), x25519_scalarmult (w_static_private i) (w_peer_public i),
        x25519_scalarmult ei ?pr, x25519_scalarmult (w_static_private i) ?pr]"
      using False zero by (simp add: secret1_def secret2_def ei_def)
    ultimately show ?thesis by auto
  qed
qed

subsection \<open>Attempts and refusals\<close>

lemma make_initiation_frame:
  "w_established (fst (make_initiation rnd index now ns p)) = w_established p"
  "w_established_at (fst (make_initiation rnd index now ns p)) = w_established_at p"
  "w_local_index (fst (make_initiation rnd index now ns p)) = index"
  by (simp_all add: make_initiation_def Let_def open_transcript_def mix_key_def absorb_hash_def split: prod.splits)

lemma needs_handshake_frame:
  "w_established p \<Longrightarrow> w_established q \<Longrightarrow> w_established_at q = w_established_at p \<Longrightarrow> needs_handshake now q = needs_handshake now p"
  by (simp add: needs_handshake_def)

lemma consume_response_other:
  "read_le32 (drop 8 m) \<noteq> w_local_index p \<Longrightarrow> \<exists>e. consume_response m now p = (p\<lparr>w_error := e\<rparr>, False)"
  by (auto simp: consume_response_def)

lemma consume_response_refused:
  assumes "consume_response m now p = (p', False)" "length m = 92" "m ! 0 = 2" "w_in_progress p" "read_le32 (drop 8 m) = w_local_index p"
  shows "w_in_progress p'" "w_local_index p' = w_local_index p" "w_remote_index p' = read_le32 (drop 4 m)"
    "\<exists>inputs. w_chaining_key p' = fold (\<lambda>x ck. fst (kdf ck x)) (take 32 (drop 12 m) # inputs) (w_chaining_key p)"
    "\<exists>inputs. w_hash p' = fold (\<lambda>x h. mix_hash h x) (take 32 (drop 12 m) # inputs) (w_hash p)"
proof -
  let ?e = "take 32 (drop 12 m)"
  let ?d1 = "x25519_scalarmult (w_ephemeral_private p) ?e" and ?d2 = "x25519_scalarmult (w_static_private p) ?e"
  let ?p1 = "p\<lparr>w_remote_index := read_le32 (drop 4 m), w_chaining_key := fst (kdf (w_chaining_key p) ?e), w_hash := mix_hash (w_hash p) ?e\<rparr>"
  have cases: "(\<exists>err. p' = ?p1\<lparr>w_error := err\<rparr>) \<or>
      (\<exists>err. p' = ?p1\<lparr>w_chaining_key := fst (kdf (fst (kdf (w_chaining_key p) ?e)) ?d1), w_error := err\<rparr>) \<or>
      (\<exists>err tau. p' = ?p1\<lparr>w_chaining_key := fst (kdf (fst (kdf (fst (kdf (fst (kdf (w_chaining_key p) ?e)) ?d1)) ?d2)) (w_preshared p)),
         w_hash := mix_hash (mix_hash (w_hash p) ?e) tau, w_error := err\<rparr>)"
    using assms
    by (cases p) (auto simp: consume_response_def Let_def mix_key_def absorb_hash_def split: if_splits prod.splits option.splits)
  show "w_in_progress p'" "w_local_index p' = w_local_index p" "w_remote_index p' = read_le32 (drop 4 m)"
    using cases assms(4) by auto
  show "\<exists>inputs. w_chaining_key p' = fold (\<lambda>x ck. fst (kdf ck x)) (?e # inputs) (w_chaining_key p)"
    using cases
  proof (elim disjE exE)
    fix err assume "p' = ?p1\<lparr>w_error := err\<rparr>"
    then show ?thesis by (intro exI [of _ "[]"]) simp
  next
    fix err assume "p' = ?p1\<lparr>w_chaining_key := fst (kdf (fst (kdf (w_chaining_key p) ?e)) ?d1), w_error := err\<rparr>"
    then show ?thesis by (intro exI [of _ "[?d1]"]) simp
  next
    fix err tau assume "p' = ?p1\<lparr>w_chaining_key := fst (kdf (fst (kdf (fst (kdf (fst (kdf (w_chaining_key p) ?e)) ?d1)) ?d2)) (w_preshared p)),
         w_hash := mix_hash (mix_hash (w_hash p) ?e) tau, w_error := err\<rparr>"
    then show ?thesis by (intro exI [of _ "[?d1, ?d2, w_preshared p]"]) simp
  qed
  show "\<exists>inputs. w_hash p' = fold (\<lambda>x h. mix_hash h x) (?e # inputs) (w_hash p)"
    using cases
  proof (elim disjE exE)
    fix err tau assume "p' = ?p1\<lparr>w_chaining_key := fst (kdf (fst (kdf (fst (kdf (fst (kdf (w_chaining_key p) ?e)) ?d1)) ?d2)) (w_preshared p)),
         w_hash := mix_hash (mix_hash (w_hash p) ?e) tau, w_error := err\<rparr>"
    then show ?thesis by (intro exI [of _ "[tau]"]) simp
  qed (auto intro!: exI [of _ "[]"])
qed

subsection \<open>Properties\<close>

text \<open>C6: the handshake agrees: two peers configured with each other's public keys and the same preshared
  key, over a curve whose secrets commute, complete the four handlers exactly when none of the four
  shared secrets is null; then each receives with the key the other sends with, so packets cross in
  both directions, each knows the index of the other, and the responder has learned the static key of
  the initiator.\<close>

theorem handshake_agrees:
  assumes "paired i r"
    "dh_commutes (generate_private_key rnd_i) (w_static_private r)" "dh_commutes (w_static_private i) (w_static_private r)"
    "dh_commutes (generate_private_key rnd_i) (generate_private_key rnd_r)" "dh_commutes (w_static_private i) (generate_private_key rnd_r)"
  shows "case run_handshake rnd_i index_i rnd_r index_r now ns i r of
      None \<Rightarrow> list_ex (\<lambda>(private, public). x25519_is_zero (x25519_scalarmult private public))
        [(generate_private_key rnd_i, w_peer_public i), (w_static_private i, w_peer_public i),
         (generate_private_key rnd_i, derive_public_key (generate_private_key rnd_r)),
         (w_static_private i, derive_public_key (generate_private_key rnd_r))]
    | Some (i', r') \<Rightarrow>
        list_all (\<lambda>(private, public). \<not> x25519_is_zero (x25519_scalarmult private public))
        [(generate_private_key rnd_i, w_peer_public i), (w_static_private i, w_peer_public i),
         (generate_private_key rnd_i, derive_public_key (generate_private_key rnd_r)),
         (w_static_private i, derive_public_key (generate_private_key rnd_r))] \<and>
        linked i' r' \<and> linked r' i' \<and> w_remote_index i' = index_r \<and> w_remote_index r' = index_i \<and>
        w_peer_public r' = w_static_public i"
  using handshake_runs [OF assms, of index_i index_r now ns]
  by (auto split: if_splits simp: keyed_linked) (simp_all add: keyed_def)

definition test_key :: bytes where
  "test_key = generate_private_key (replicate 32 1)"

definition test_peer :: wg_peer where
  "test_peer = configure test_key (derive_public_key test_key) None new_wg_peer"

theorem handshake_agrees_witness:
  "case run_handshake (replicate 32 1) 1 (replicate 32 1) 2 1000 0 test_peer test_peer of
      None \<Rightarrow> list_ex (\<lambda>(private, public). x25519_is_zero (x25519_scalarmult private public))
        [(generate_private_key (replicate 32 1), w_peer_public test_peer), (w_static_private test_peer, w_peer_public test_peer),
         (generate_private_key (replicate 32 1), derive_public_key (generate_private_key (replicate 32 1))),
         (w_static_private test_peer, derive_public_key (generate_private_key (replicate 32 1)))]
    | Some (i', r') \<Rightarrow>
        list_all (\<lambda>(private, public). \<not> x25519_is_zero (x25519_scalarmult private public))
        [(generate_private_key (replicate 32 1), w_peer_public test_peer), (w_static_private test_peer, w_peer_public test_peer),
         (generate_private_key (replicate 32 1), derive_public_key (generate_private_key (replicate 32 1))),
         (w_static_private test_peer, derive_public_key (generate_private_key (replicate 32 1)))] \<and>
        linked i' r' \<and> linked r' i' \<and> w_remote_index i' = 2 \<and> w_remote_index r' = 1 \<and>
        w_peer_public r' = w_static_public test_peer"
  by (rule handshake_agrees)
    (simp_all add: dh_commutes_def paired_def test_peer_def test_key_def configure_def reset_handshake_def)

text \<open>A refused response is not undone: a message of the size and type of a response that carries the
  index of the session leaves the handshake waiting, whatever the reason of the refusal, but with the
  sender's ephemeral already mixed into the chaining key and the hash and its index taken over, so
  that the genuine response is then checked against another transcript.\<close>

theorem refused_response_spoils_transcript:
  assumes "length m = 92" "m ! 0 = 2" "w_in_progress p" "read_le32 (drop 8 m) = w_local_index p"
  shows "case consume_response m now p of (p', accepted) \<Rightarrow> accepted \<or>
    (w_in_progress p' \<and> w_local_index p' = w_local_index p \<and> w_remote_index p' = read_le32 (drop 4 m) \<and>
     (\<exists>inputs. w_chaining_key p' = fold (\<lambda>x ck. fst (kdf ck x)) (take 32 (drop 12 m) # inputs) (w_chaining_key p)) \<and>
     (\<exists>inputs. w_hash p' = fold (\<lambda>x h. mix_hash h x) (take 32 (drop 12 m) # inputs) (w_hash p)))"
proof -
  obtain p' ok where c: "consume_response m now p = (p', ok)" by fastforce
  show ?thesis
  proof (cases ok)
    case False
    with c have "consume_response m now p = (p', False)" by simp
    from consume_response_refused [OF this assms] show ?thesis by (simp add: c)
  qed (simp add: c)
qed

theorem refused_response_spoils_transcript_witness:
  "case consume_response (2 # replicate 91 0) 5 (new_wg_peer\<lparr>w_in_progress := True\<rparr>) of (p', accepted) \<Rightarrow> accepted \<or>
    (w_in_progress p' \<and> w_local_index p' = w_local_index (new_wg_peer\<lparr>w_in_progress := True\<rparr>) \<and>
     w_remote_index p' = read_le32 (drop 4 (2 # replicate 91 0)) \<and>
     (\<exists>inputs. w_chaining_key p' = fold (\<lambda>x ck. fst (kdf ck x)) (take 32 (drop 12 (2 # replicate 91 0)) # inputs)
        (w_chaining_key (new_wg_peer\<lparr>w_in_progress := True\<rparr>))) \<and>
     (\<exists>inputs. w_hash p' = fold (\<lambda>x h. mix_hash h x) (take 32 (drop 12 (2 # replicate 91 0)) # inputs)
        (w_hash (new_wg_peer\<lparr>w_in_progress := True\<rparr>))))"
  by (rule refused_response_spoils_transcript) (simp_all add: new_wg_peer_def read_le32_def drop_Cons')

end
