(* ===== verification/Tunnel.thy ===== *)
theory Tunnel
  imports WireguardHandshake Net
begin

text \<open>
  The tunnel of \<open>source/net/wg/tunnel.cpp\<close>: \<open>tunnel\<close> is the class \<open>WireGuardTunnel\<close>, \<open>lwip_tcp\<close> and
  \<open>lwip_udp\<close> are its two sockets.  lwIP and the system are what they answer: the result of each of
  their calls is an argument, and what lwIP does while it runs (\<open>reaction\<close>: an IP packet to output, a
  callback of a socket, an answer of its resolver) is a list given with the call during which it
  happens.  \<open>t_log\<close> is what the tunnel shows the outside: the initiations and data messages offered to
  the system socket, the messages whose packet is given to lwIP, and the moments new keys are taken.  The text of the status
  (\<open>status_text\<close>) is not modelled, nor the lock: each call is taken as a whole.
\<close>

subsection \<open>Constants and data\<close>

definition kMaxDatagram :: nat where "kMaxDatagram = 2048"
definition kTunnelMtu :: nat where "kTunnelMtu = 1420"
definition kDrainBudget :: nat where "kDrainBudget = 256"

datatype err_t = ErrOk | ErrMem | ErrConn | ErrIf | ErrOther

record tunnel_config =
  c_endpoint_ip :: "32 word"
  c_endpoint_port :: "16 word"
  c_server_public :: bytes
  c_server_label :: bytes
  c_private_key :: bytes
  c_assigned_ip :: "32 word"
  c_netmask :: "32 word"
  c_dns_ip :: "32 word"

datatype tunnel_state = TunDown | TunHandshaking | TunUp | TunFailed

record lwip_tcp =
  s_pcb :: bool
  s_rx :: bytes
  s_rx_pos :: nat
  s_connected :: bool
  s_remote_closed :: bool
  s_failed :: bool

record lwip_udp =
  u_pcb :: bool
  u_queue :: "(endpoint \<times> bytes) list"

record dns_state =
  d_pending :: bool
  d_done :: bool
  d_ok :: bool
  d_result :: "32 word"

datatype tunnel_output =
    SentInitiation bytes
  | TookKeys bytes bytes
  | SentData bytes
  | Delivered bytes bytes

text \<open>\<open>t_tcps\<close> and \<open>t_udps\<close> are the sockets alive, by address.\<close>

record tunnel =
  t_config :: tunnel_config
  t_peer :: wg_peer
  t_netif_added :: bool
  t_fd :: bool
  t_state :: tunnel_state
  t_error :: wg_error
  t_bytes_sent :: "64 word"
  t_bytes_received :: "64 word"
  t_tx_dropped :: "64 word"
  t_tx_errors :: "64 word"
  t_rx_saturated :: "64 word"
  t_last_handshake :: "64 word"
  t_handshake_started :: "64 word"
  t_dns :: dns_state
  t_tcps :: "nat \<Rightarrow> lwip_tcp option"
  t_udps :: "nat \<Rightarrow> lwip_udp option"
  t_log :: "tunnel_output list"

definition new_lwip_tcp :: lwip_tcp where
  "new_lwip_tcp = \<lparr>s_pcb = False, s_rx = [], s_rx_pos = 0, s_connected = False, s_remote_closed = False, s_failed = False\<rparr>"

definition no_dns :: dns_state where
  "no_dns = \<lparr>d_pending = False, d_done = False, d_ok = False, d_result = 0\<rparr>"

definition new_tunnel :: "tunnel_config \<Rightarrow> tunnel" where
  "new_tunnel config =
     \<lparr>t_config = config, t_peer = new_wg_peer, t_netif_added = False, t_fd = False, t_state = TunDown, t_error = NoError,
      t_bytes_sent = 0, t_bytes_received = 0, t_tx_dropped = 0, t_tx_errors = 0, t_rx_saturated = 0,
      t_last_handshake = 0, t_handshake_started = 0, t_dns = no_dns, t_tcps = Map.empty, t_udps = Map.empty, t_log = []\<rparr>"

subsection \<open>The TCP socket\<close>

definition tcp_on_connected :: "err_t \<Rightarrow> lwip_tcp \<Rightarrow> lwip_tcp" where
  "tcp_on_connected err s = (if err \<noteq> ErrOk then s\<lparr>s_failed := True\<rparr> else s\<lparr>s_connected := True\<rparr>)"

definition tcp_on_recv :: "bytes option \<Rightarrow> err_t \<Rightarrow> lwip_tcp \<Rightarrow> lwip_tcp" where
  "tcp_on_recv p err s =
     (if err \<noteq> ErrOk then s\<lparr>s_failed := True\<rparr>
      else case p of
        None \<Rightarrow> s\<lparr>s_remote_closed := True\<rparr>
      | Some segment \<Rightarrow> s\<lparr>s_rx := s_rx s @ segment\<rparr>)"

definition tcp_on_error :: "lwip_tcp \<Rightarrow> lwip_tcp" where
  "tcp_on_error s = s\<lparr>s_pcb := False, s_failed := True, s_connected := False\<rparr>"

definition tcp_detach :: "lwip_tcp \<Rightarrow> lwip_tcp" where
  "tcp_detach s = s\<lparr>s_pcb := False\<rparr>"

definition tcp_close :: "lwip_tcp \<Rightarrow> lwip_tcp" where
  "tcp_close s = (tcp_detach s)\<lparr>s_rx := [], s_rx_pos := 0, s_connected := False, s_remote_closed := False\<rparr>"

text \<open>\<open>made\<close> is whether \<open>tcp_new\<close> gives a control block, \<open>rc\<close> what \<open>tcp_connect\<close> answers; the third
  component is whether \<open>errno\<close> says that no socket is left (\<open>ENOBUFS\<close>).\<close>

definition tcp_start_connect :: "bool \<Rightarrow> err_t \<Rightarrow> lwip_tcp \<Rightarrow> lwip_tcp \<times> bool \<times> bool" where
  "tcp_start_connect made rc s =
     (let s = tcp_close s
      in if \<not> made then (s, False, True)
         else let s = s\<lparr>s_pcb := True\<rparr>
              in if rc \<noteq> ErrOk then (tcp_detach s, False, rc = ErrMem) else (s, True, False))"

definition tcp_finish_connect :: "lwip_tcp \<Rightarrow> bool" where
  "tcp_finish_connect s = (if s_failed s then False else s_connected s)"

datatype sock_result = SockBytes nat | SockWouldBlock | SockClosed | SockError

text \<open>\<open>room\<close> is \<open>tcp_sndbuf\<close>, \<open>rc\<close> the answer of \<open>tcp_write\<close>; the last component is what lwIP takes.\<close>

definition tcp_send :: "bytes \<Rightarrow> nat \<Rightarrow> err_t \<Rightarrow> lwip_tcp \<Rightarrow> lwip_tcp \<times> sock_result \<times> bytes" where
  "tcp_send data room rc s =
     (if s_failed s \<or> \<not> s_pcb s then (s, SockError, [])
      else if \<not> s_connected s then (s, SockWouldBlock, [])
      else if room = 0 then (s, SockWouldBlock, [])
      else let n = (if length data < room then length data else room)
           in if rc = ErrMem then (s, SockWouldBlock, [])
              else if rc \<noteq> ErrOk then (s\<lparr>s_failed := True\<rparr>, SockError, [])
              else (s, SockBytes n, take n data))"

definition tcp_recv :: "nat \<Rightarrow> lwip_tcp \<Rightarrow> lwip_tcp \<times> sock_result \<times> bytes" where
  "tcp_recv len s =
     (let available = length (s_rx s) - s_rx_pos s
      in if 0 < available then
           let n = (if len < available then len else available);
               data = take n (drop (s_rx_pos s) (s_rx s));
               s = s\<lparr>s_rx_pos := s_rx_pos s + n\<rparr>;
               s = (if s_rx_pos s = length (s_rx s) then s\<lparr>s_rx := [], s_rx_pos := 0\<rparr>
                    else if 64 * 1024 < s_rx_pos s then s\<lparr>s_rx := drop (s_rx_pos s) (s_rx s), s_rx_pos := 0\<rparr>
                    else s)
           in (s, SockBytes n, data)
         else if s_remote_closed s then (s, SockClosed, [])
         else if s_failed s then (s, SockError, [])
         else (s, SockWouldBlock, []))"

definition tcp_is_open :: "lwip_tcp \<Rightarrow> bool" where
  "tcp_is_open s = (s_pcb s \<or> s_rx s \<noteq> [])"

definition tcp_ready_read :: "lwip_tcp \<Rightarrow> bool" where
  "tcp_ready_read s = (s_rx_pos s < length (s_rx s) \<or> s_remote_closed s \<or> s_failed s)"

definition tcp_ready_write :: "lwip_tcp \<Rightarrow> bool" where
  "tcp_ready_write s = (s_connected s \<and> s_pcb s)"

subsection \<open>The UDP socket\<close>

definition udp_on_recv :: "bytes \<Rightarrow> endpoint \<Rightarrow> lwip_udp \<Rightarrow> lwip_udp" where
  "udp_on_recv payload sender u =
     (if length (u_queue u) < 64 \<and> length payload \<le> kMaxDatagram then u\<lparr>u_queue := u_queue u @ [(sender, payload)]\<rparr> else u)"

definition udp_close :: "lwip_udp \<Rightarrow> lwip_udp" where
  "udp_close u = u\<lparr>u_pcb := False, u_queue := []\<rparr>"

definition udp_open :: "bool \<Rightarrow> err_t \<Rightarrow> lwip_udp \<Rightarrow> lwip_udp \<times> bool" where
  "udp_open made rc u =
     (let u = udp_close u
      in if \<not> made then (u, False) else if rc \<noteq> ErrOk then (u, False) else (u\<lparr>u_pcb := True\<rparr>, True))"

text \<open>\<open>room\<close> is whether a buffer is left, \<open>rc\<close> the answer of \<open>udp_sendto\<close>.\<close>

definition udp_send_to :: "bytes \<Rightarrow> bool \<Rightarrow> err_t \<Rightarrow> lwip_udp \<Rightarrow> sock_result" where
  "udp_send_to data room rc u =
     (if \<not> u_pcb u then SockError else if \<not> room then SockWouldBlock
      else if rc \<noteq> ErrOk then SockError else SockBytes (length data))"

definition udp_recv_from :: "nat \<Rightarrow> lwip_udp \<Rightarrow> lwip_udp \<times> (endpoint \<times> bytes) option" where
  "udp_recv_from len u =
     (case u_queue u of
        [] \<Rightarrow> (u, None)
      | (sender, payload) # rest \<Rightarrow> (u\<lparr>u_queue := rest\<rparr>, Some (sender, take len payload)))"

subsection \<open>Sending\<close>

text \<open>The answer of one \<open>sendto\<close>: bytes taken, a refusal worth waiting for (\<open>EAGAIN\<close>, \<open>EWOULDBLOCK\<close>,
  \<open>ENOBUFS\<close>), or another error.\<close>

datatype send_answer = Taken nat | Busy | Refused

fun send_attempts :: "send_answer list \<Rightarrow> tunnel \<Rightarrow> tunnel \<times> err_t" where
  "send_attempts [] t = (t\<lparr>t_tx_dropped := t_tx_dropped t + 1\<rparr>, ErrMem)"
| "send_attempts (answer # answers) t =
     (case answer of
        Taken n \<Rightarrow> (t\<lparr>t_bytes_sent := t_bytes_sent t + of_nat n\<rparr>, ErrOk)
      | Refused \<Rightarrow> (t\<lparr>t_tx_errors := t_tx_errors t + 1\<rparr>, ErrIf)
      | Busy \<Rightarrow> send_attempts answers t)"

text \<open>\<open>answers k\<close> is the answer of the attempt \<open>k\<close>; there are at most four.\<close>

definition output_packet :: "bytes \<Rightarrow> (nat \<Rightarrow> send_answer) \<Rightarrow> 64 word \<Rightarrow> tunnel \<Rightarrow> tunnel \<times> err_t" where
  "output_packet packet answers now t =
     (if t_state t \<noteq> TunUp then (t, ErrConn)
      else if kTunnelMtu < length packet then (t, ErrMem)
      else case encapsulate packet (kTunnelMtu + 64) now (t_peer t) of
        (peer, None) \<Rightarrow> (t\<lparr>t_peer := peer, t_state := TunHandshaking\<rparr>, ErrConn)
      | (peer, Some wire) \<Rightarrow>
          send_attempts (map answers [0..<4]) (t\<lparr>t_peer := peer, t_log := t_log t @ [SentData wire]\<rparr>))"

text \<open>Random bytes, index and wall clock of an initiation.\<close>

record initiation_input =
  i_random :: bytes
  i_index :: "32 word"
  i_unix_ns :: "64 word"

definition tunnel_handshake :: "initiation_input \<Rightarrow> 64 word \<Rightarrow> tunnel \<Rightarrow> tunnel" where
  "tunnel_handshake input now t =
     (case make_initiation (i_random input) (i_index input) now (i_unix_ns input) (t_peer t) of
        (peer, None) \<Rightarrow> t\<lparr>t_peer := peer, t_state := TunFailed, t_error := w_error peer\<rparr>
      | (peer, Some initiation) \<Rightarrow>
          t\<lparr>t_peer := note_handshake_sent now peer, t_log := t_log t @ [SentInitiation initiation],
            t_handshake_started := now\<rparr>)"

definition send_keepalive :: "64 word \<Rightarrow> tunnel \<Rightarrow> tunnel" where
  "send_keepalive now t =
     (case encapsulate [] 64 now (t_peer t) of
        (peer, None) \<Rightarrow> t\<lparr>t_peer := peer\<rparr>
      | (peer, Some wire) \<Rightarrow> t\<lparr>t_peer := peer, t_log := t_log t @ [SentData wire]\<rparr>)"

subsection \<open>What lwIP does while it runs\<close>

datatype reaction =
    Output bytes "nat \<Rightarrow> send_answer" "64 word"
  | TcpConnected nat err_t
  | TcpReceived nat "bytes option" err_t
  | TcpFailed nat
  | UdpReceived nat bytes endpoint
  | DnsFound bytes "32 word option"

definition on_tcp :: "nat \<Rightarrow> (lwip_tcp \<Rightarrow> lwip_tcp) \<Rightarrow> tunnel \<Rightarrow> tunnel" where
  "on_tcp k f t =
     (case t_tcps t k of
        Some s \<Rightarrow> if s_pcb s then t\<lparr>t_tcps := (t_tcps t)(k \<mapsto> f s)\<rparr> else t
      | None \<Rightarrow> t)"

definition dns_found :: "32 word option \<Rightarrow> dns_state \<Rightarrow> dns_state" where
  "dns_found addr d = d\<lparr>d_done := True, d_pending := False, d_ok := (addr \<noteq> None), d_result := (case addr of Some a \<Rightarrow> a | None \<Rightarrow> 0)\<rparr>"

text \<open>A callback reaches a socket only while the socket holds its control block.  The name of a DNS
  answer is not looked at.\<close>

definition react_lwip :: "reaction \<Rightarrow> tunnel \<Rightarrow> tunnel" where
  "react_lwip r t =
     (case r of
        Output packet answers now \<Rightarrow> fst (output_packet packet answers now t)
      | TcpConnected k err \<Rightarrow> on_tcp k (tcp_on_connected err) t
      | TcpReceived k p err \<Rightarrow> on_tcp k (tcp_on_recv p err) t
      | TcpFailed k \<Rightarrow> on_tcp k tcp_on_error t
      | UdpReceived k payload sender \<Rightarrow>
          (case t_udps t k of
             Some u \<Rightarrow> if u_pcb u then t\<lparr>t_udps := (t_udps t)(k \<mapsto> udp_on_recv payload sender u)\<rparr> else t
           | None \<Rightarrow> t)
      | DnsFound name addr \<Rightarrow> t\<lparr>t_dns := dns_found addr (t_dns t)\<rparr>)"

definition react_all :: "reaction list \<Rightarrow> tunnel \<Rightarrow> tunnel" where
  "react_all rs t = fold react_lwip rs t"

subsection \<open>Receiving\<close>

text \<open>\<open>input\<close> is \<open>None\<close> when lwIP has no buffer left, else what it does with the packet.\<close>

definition tunnel_datagram :: "bytes \<Rightarrow> 64 word \<Rightarrow> reaction list option \<Rightarrow> tunnel \<Rightarrow> tunnel" where
  "tunnel_datagram data now input t =
     (if length data < 4 then t
      else if data ! 0 = 2 then
        (case consume_response data now (t_peer t) of
           (peer, True) \<Rightarrow> t\<lparr>t_peer := peer, t_state := TunUp, t_last_handshake := now, t_log := t_log t @ [TookKeys (w_send_key peer) (w_recv_key peer)]\<rparr>
         | (peer, False) \<Rightarrow> t\<lparr>t_peer := peer\<rparr>)
      else if data ! 0 = 4 then
        (case decapsulate data (kTunnelMtu + 64) now (t_peer t) of
           (peer, None) \<Rightarrow> t\<lparr>t_peer := peer\<rparr>
         | (peer, Some packet) \<Rightarrow>
             let t = t\<lparr>t_peer := peer\<rparr>
             in if packet = [] then t
                else case input of
                  None \<Rightarrow> t
                | Some reactions \<Rightarrow> react_all reactions (t\<lparr>t_log := t_log t @ [Delivered data packet]\<rparr>))
      else t)"

text \<open>One answer of \<open>recvfrom\<close>: the sender's address, the bytes, the clock, and lwIP's reactions.\<close>

record arrival =
  a_from :: "32 word"
  a_data :: bytes
  a_now :: "64 word"
  a_input :: "reaction list option"

text \<open>The loop over \<open>recvfrom\<close>, which ends when nothing is left (the end of the list), on an empty
  datagram, or when the budget is used up; the number drained is returned.\<close>

fun drain :: "nat \<Rightarrow> arrival list \<Rightarrow> tunnel \<Rightarrow> nat \<times> tunnel" where
  "drain drained [] t = (drained, t)"
| "drain drained (a # as) t =
     (if kDrainBudget \<le> drained then (drained, t)
      else let data = take kMaxDatagram (a_data a)
           in if data = [] then (drained, t)
              else if a_from a \<noteq> c_endpoint_ip (t_config t) then drain (drained + 1) as t
              else drain (drained + 1) as
                (tunnel_datagram data (a_now a) (a_input a) (t\<lparr>t_bytes_received := t_bytes_received t + of_nat (length data)\<rparr>)))"

text \<open>What one \<open>pump\<close> reads of the world: the clock, what an initiation would use, whether the socket
  can be read and what it holds, the clock of the keepalive, and what lwIP's timers do.\<close>

record pump_input =
  p_now :: "64 word"
  p_initiation :: initiation_input
  p_readable :: bool
  p_arrivals :: "arrival list"
  p_keepalive_now :: "64 word"
  p_keepalive_sent :: "64 word"
  p_timers :: "reaction list"

definition pump :: "pump_input \<Rightarrow> tunnel \<Rightarrow> tunnel" where
  "pump io t =
     (if \<not> t_fd t then t
      else
        let t = (if t_state t \<noteq> TunUp \<and> needs_handshake (p_now io) (t_peer t) then tunnel_handshake (p_initiation io) (p_now io) t
                 else if t_state t = TunUp \<and> needs_handshake (p_now io) (t_peer t) then tunnel_handshake (p_initiation io) (p_now io) t
                 else t);
            t = (if p_readable io then
                   case drain 0 (p_arrivals io) t of
                     (drained, t) \<Rightarrow> if kDrainBudget \<le> drained then t\<lparr>t_rx_saturated := t_rx_saturated t + 1\<rparr> else t
                 else t);
            t = (if t_state t = TunUp \<and> needs_keepalive (p_keepalive_now io) (t_peer t) then send_keepalive (p_keepalive_sent io) t else t)
        in react_all (p_timers io) t)"

subsection \<open>The transport\<close>

text \<open>What \<open>start\<close> meets: another tunnel already active, the answers of \<open>socket\<close> and \<open>netif_add\<close>, the clock.\<close>

record start_input =
  st_other_active :: bool
  st_socket :: bool
  st_netif :: bool
  st_now :: "64 word"
  st_initiation :: initiation_input

datatype start_error = OtherTunnel | Incomplete | NoSocket | NoInterface

definition start_tunnel :: "start_input \<Rightarrow> tunnel \<Rightarrow> tunnel \<times> start_error option" where
  "start_tunnel io t =
     (if st_other_active io then (t, Some OtherTunnel)
      else if c_endpoint_ip (t_config t) = 0 \<or> c_assigned_ip (t_config t) = 0 then (t, Some Incomplete)
      else if \<not> st_socket io then (t\<lparr>t_fd := False\<rparr>, Some NoSocket)
      else
        let t = t\<lparr>t_fd := True,
              t_peer := configure (c_private_key (t_config t)) (c_server_public (t_config t)) None (t_peer t)\<rparr>
        in if \<not> st_netif io then (t\<lparr>t_fd := False\<rparr>, Some NoInterface)
           else
             let t = t\<lparr>t_netif_added := True, t_state := TunHandshaking, t_handshake_started := st_now io\<rparr>
             in (tunnel_handshake (st_initiation io) (st_now io) t, None))"

definition stop_tunnel :: "tunnel \<Rightarrow> tunnel" where
  "stop_tunnel t = t\<lparr>t_netif_added := False, t_fd := False, t_state := TunDown\<rparr>"

definition tunnel_ready :: "tunnel \<Rightarrow> bool" where
  "tunnel_ready t = (t_state t = TunUp)"

definition tunnel_tcp :: "tunnel \<Rightarrow> lwip_tcp option" where
  "tunnel_tcp t = (if t_state t \<noteq> TunUp then None else Some new_lwip_tcp)"

definition tunnel_udp :: "tunnel \<Rightarrow> lwip_udp option" where
  "tunnel_udp t = (if t_state t \<noteq> TunUp then None else Some \<lparr>u_pcb = False, u_queue = []\<rparr>)"

text \<open>The answer of \<open>dns_gethostbyname\<close>, which comes with what lwIP does during the call.\<close>

datatype lookup = Known "32 word" | InProgress | NotFound

text \<open>The wait of \<open>resolve\<close>: one pump per turn until an answer comes or the deadline has passed, which is
  the end of the list.\<close>

fun resolve_wait :: "pump_input list \<Rightarrow> tunnel \<Rightarrow> tunnel" where
  "resolve_wait [] t = t"
| "resolve_wait (io # ios) t = (if d_done (t_dns t) then t else resolve_wait ios (pump io t))"

definition resolve :: "bytes \<Rightarrow> (bytes \<Rightarrow> 32 word option) \<Rightarrow> (bytes \<Rightarrow> lookup \<times> reaction list) \<Rightarrow> pump_input list \<Rightarrow> tunnel \<Rightarrow> tunnel \<times> 32 word option" where
  "resolve host aton gethostbyname ios t =
     (if t_state t \<noteq> TunUp then (t, None)
      else case aton host of
        Some addr \<Rightarrow> (t, Some addr)
      | None \<Rightarrow>
          let (answer, reactions) = gethostbyname host;
              t = react_all reactions (t\<lparr>t_dns := no_dns\<rparr>)
          in case answer of
            Known addr \<Rightarrow> (t, Some addr)
          | NotFound \<Rightarrow> (t, None)
          | InProgress \<Rightarrow>
              let t = t\<lparr>t_dns := (t_dns t)\<lparr>d_pending := True\<rparr>\<rparr>;
                  t = resolve_wait ios t
              in if \<not> d_ok (t_dns t) then (t, None) else (t, Some (d_result (t_dns t))))"

datatype poll_target = NoSocketItem | TcpItem nat | UdpItem nat

record poll_item =
  it_target :: poll_target
  it_want_read :: bool
  it_want_write :: bool
  it_can_read :: bool
  it_can_write :: bool
  it_has_error :: bool

definition poll_item_of :: "tunnel \<Rightarrow> poll_item \<Rightarrow> poll_item" where
  "poll_item_of t item =
     (let item = item\<lparr>it_can_read := False, it_can_write := False, it_has_error := False\<rparr>
      in case it_target item of
        TcpItem k \<Rightarrow>
          (case t_tcps t k of
             Some s \<Rightarrow> item\<lparr>it_can_read := it_want_read item \<and> tcp_ready_read s,
               it_can_write := it_want_write item \<and> tcp_ready_write s, it_has_error := s_failed s\<rparr>
           | None \<Rightarrow> item)
      | UdpItem k \<Rightarrow>
          (case t_udps t k of
             Some u \<Rightarrow> item\<lparr>it_can_read := it_want_read item \<and> u_queue u \<noteq> [], it_can_write := it_want_write item\<rparr>
           | None \<Rightarrow> item)
      | NoSocketItem \<Rightarrow> item)"

definition poll_tunnel :: "pump_input \<Rightarrow> poll_item list \<Rightarrow> tunnel \<Rightarrow> tunnel \<times> poll_item list \<times> nat" where
  "poll_tunnel io items t =
     (let t = pump io t;
          items = map (poll_item_of t) items
      in (t, items, length (filter (\<lambda>i. it_can_read i \<or> it_can_write i \<or> it_has_error i) items)))"

subsection \<open>Everything that can happen to a tunnel\<close>

text \<open>The calls of the tunnel and of its sockets, each whole, with what lwIP does during it.\<close>

datatype tunnel_call =
    Start start_input
  | Stop
  | Pump pump_input
  | Resolve bytes "bytes \<Rightarrow> 32 word option" "bytes \<Rightarrow> lookup \<times> reaction list" "pump_input list"
  | NewTcp nat
  | NewUdp nat
  | TcpConnect nat bool err_t "reaction list"
  | TcpSend nat bytes nat err_t "reaction list"
  | TcpRecv nat nat
  | TcpClose nat "reaction list"
  | UdpOpen nat bool err_t
  | UdpSend nat bytes bool err_t "reaction list"
  | UdpRecv nat nat
  | UdpClose nat

definition put_tcp :: "nat \<Rightarrow> lwip_tcp \<Rightarrow> tunnel \<Rightarrow> tunnel" where
  "put_tcp k s t = t\<lparr>t_tcps := (t_tcps t)(k \<mapsto> s)\<rparr>"

definition put_udp :: "nat \<Rightarrow> lwip_udp \<Rightarrow> tunnel \<Rightarrow> tunnel" where
  "put_udp k u t = t\<lparr>t_udps := (t_udps t)(k \<mapsto> u)\<rparr>"

definition with_tcp :: "nat \<Rightarrow> (lwip_tcp \<Rightarrow> tunnel) \<Rightarrow> tunnel \<Rightarrow> tunnel" where
  "with_tcp k f t = (case t_tcps t k of Some s \<Rightarrow> f s | None \<Rightarrow> t)"

definition with_udp :: "nat \<Rightarrow> (lwip_udp \<Rightarrow> tunnel) \<Rightarrow> tunnel \<Rightarrow> tunnel" where
  "with_udp k f t = (case t_udps t k of Some u \<Rightarrow> f u | None \<Rightarrow> t)"

definition tunnel_step :: "tunnel_call \<Rightarrow> tunnel \<Rightarrow> tunnel" where
  "tunnel_step c t =
     (case c of
        Start io \<Rightarrow> fst (start_tunnel io t)
      | Stop \<Rightarrow> stop_tunnel t
      | Pump io \<Rightarrow> pump io t
      | Resolve host aton gethostbyname ios \<Rightarrow> fst (resolve host aton gethostbyname ios t)
      | NewTcp k \<Rightarrow> (case tunnel_tcp t of Some s \<Rightarrow> put_tcp k s t | None \<Rightarrow> t)
      | NewUdp k \<Rightarrow> (case tunnel_udp t of Some u \<Rightarrow> put_udp k u t | None \<Rightarrow> t)
      | TcpConnect k made rc rs \<Rightarrow> with_tcp k (\<lambda>s. react_all rs (put_tcp k (fst (tcp_start_connect made rc s)) t)) t
      | TcpSend k data room rc rs \<Rightarrow> with_tcp k (\<lambda>s. react_all rs (put_tcp k (fst (tcp_send data room rc s)) t)) t
      | TcpRecv k len \<Rightarrow> with_tcp k (\<lambda>s. put_tcp k (fst (tcp_recv len s)) t) t
      | TcpClose k rs \<Rightarrow> with_tcp k (\<lambda>s. react_all rs (put_tcp k (tcp_close s) t)) t
      | UdpOpen k made rc \<Rightarrow> with_udp k (\<lambda>u. put_udp k (fst (udp_open made rc u)) t) t
      | UdpSend k data room rc rs \<Rightarrow> with_udp k (\<lambda>u. if u_pcb u \<and> room then react_all rs t else t) t
      | UdpRecv k len \<Rightarrow> with_udp k (\<lambda>u. put_udp k (fst (udp_recv_from len u)) t) t
      | UdpClose k \<Rightarrow> with_udp k (\<lambda>u. put_udp k (udp_close u) t) t)"

end
