(* ===== verification/TunnelLaws.thy ===== *)
theory TunnelLaws
  imports Tunnel
begin

text \<open>
  What the tunnel lets out and in, over every sequence of its calls.  The abstract specification is a
  session (\<open>wg_session\<close>): the keys of the last accepted response, the next counter to send, and the
  counters already delivered; \<open>permitted\<close> says what a tunnel may do in a session.  The log of every
  run is permitted (\<open>run_permitted\<close>), proved from one lemma per operation.
\<close>

subsection \<open>The abstract sessions\<close>

type_synonym wg_session = "(bytes \<times> nat \<times> bytes \<times> nat set) option"

fun permitted :: "wg_session \<Rightarrow> tunnel_output \<Rightarrow> bool" where
  "permitted _ (SentInitiation m) = (length m = 148 \<and> m ! 0 = 1)"
| "permitted _ (TookKeys _ _) = True"
| "permitted (Some (sk, n, rk, A)) (SentData m) =
     (unat (msg_counter m) = n \<and> (\<exists>packet. length packet \<le> kTunnelMtu \<and> sealed sk m packet))"
| "permitted (Some (sk, n, rk, A)) (Delivered m packet) = (unat (msg_counter m) \<notin> A \<and> sealed rk m packet)"
| "permitted None _ = False"

fun advance :: "tunnel_output \<Rightarrow> wg_session \<Rightarrow> wg_session" where
  "advance (TookKeys sk rk) _ = Some (sk, 0, rk, {})"
| "advance (SentData m) (Some (sk, n, rk, A)) = Some (sk, n + 1, rk, A)"
| "advance (Delivered m packet) (Some (sk, n, rk, A)) = Some (sk, n, rk, insert (unat (msg_counter m)) A)"
| "advance _ s = s"

fun log_permitted :: "wg_session \<Rightarrow> tunnel_output list \<Rightarrow> bool" where
  "log_permitted s [] = True"
| "log_permitted s (x # l) = (permitted s x \<and> log_permitted (advance x s) l)"

definition session_of :: "tunnel_output list \<Rightarrow> wg_session" where
  "session_of l = fold advance l None"

lemma session_of_append [simp]: "session_of (l @ [x]) = advance x (session_of l)"
  by (simp add: session_of_def)

lemma log_permitted_fold: "log_permitted s (l @ l') \<longleftrightarrow> log_permitted s l \<and> log_permitted (fold advance l s) l'"
  by (induction l arbitrary: s) auto

lemma log_permitted_append [simp]: "log_permitted None (l @ [x]) \<longleftrightarrow> log_permitted None l \<and> permitted (session_of l) x"
  by (simp add: log_permitted_fold session_of_def)

lemma session_count: "fold advance l s = Some (sk, n, rk, A) \<Longrightarrow>
  n \<le> length l + (case s of Some (_, k, _, _) \<Rightarrow> k | None \<Rightarrow> 0)"
proof (induction l arbitrary: s)
  case (Cons x l)
  have "(case advance x s of Some (_, k, _, _) \<Rightarrow> k | None \<Rightarrow> 0) \<le> 1 + (case s of Some (_, k, _, _) \<Rightarrow> k | None \<Rightarrow> (0 :: nat))"
    by (cases "(x, s)" rule: advance.cases) auto
  with Cons.IH [of "advance x s"] Cons.prems show ?case by simp
qed simp

lemma session_of_count: "session_of l = Some (sk, n, rk, A) \<Longrightarrow> n \<le> length l"
  using session_count [of l None sk n rk A] by (simp add: session_of_def)

subsection \<open>The peer within a session\<close>

definition in_session :: "wg_session \<Rightarrow> wg_peer \<Rightarrow> bool" where
  "in_session s p \<longleftrightarrow> length (w_static_public p) = 32 \<and>
     (w_established p \<longrightarrow> (\<exists>A B. s = Some (w_send_key p, unat (w_send_counter p), w_recv_key p, A) \<and> A \<subseteq> B \<and> seen_ok p B))"

lemma in_session_frame:
  "in_session s p \<Longrightarrow> w_static_public q = w_static_public p \<Longrightarrow> w_established q \<longrightarrow> w_established p \<Longrightarrow>
   w_send_key q = w_send_key p \<Longrightarrow> w_recv_key q = w_recv_key p \<Longrightarrow> w_send_counter q = w_send_counter p \<Longrightarrow>
   w_have_recv q = w_have_recv p \<Longrightarrow> w_recv_highest q = w_recv_highest p \<Longrightarrow> w_recv_window q = w_recv_window p \<Longrightarrow>
   in_session s q"
  by (auto simp: in_session_def seen_ok_frame [of q p])

lemma in_session_initiation:
  assumes "in_session s p"
  shows "in_session s (fst (make_initiation rnd index now ns p))"
  by (rule in_session_frame [OF assms])
    (simp_all add: make_initiation_def Let_def open_transcript_def mix_key_def absorb_hash_def split: prod.splits)

lemma initiation_size:
  assumes "make_initiation rnd index now ns p = (p', Some m)" "length (w_static_public p) = 32"
  shows "length m = 148 \<and> m ! 0 = 1"
proof -
  obtain a b ck h where ff: "first_flight (w_peer_public p) (derive_public_key (generate_private_key rnd)) (w_static_public p)
      (secret1 rnd p) (secret2 p) (tai64n ns) = (a, b, ck, h)" by (rule prod_cases4)
  have "\<not> x25519_is_zero (secret1 rnd p)" "\<not> x25519_is_zero (secret2 p)"
    using make_initiation_refused [of rnd p index now ns] assms(1) by auto
  then obtain mac where "length mac = 32" "m = [1, 0, 0, 0] @ write_le32 index @ derive_public_key (generate_private_key rnd) @ a @ b @ mac"
    using make_initiation_flight [OF ff, of index now] assms(1) by auto
  then show ?thesis using first_flight_lengths [OF ff] assms(2) by simp
qed

lemma in_session_refused:
  assumes "consume_response m now p = (p', False)" "in_session s p"
  shows "in_session s p'"
  using assms(1)
  by (intro in_session_frame [OF assms(2)])
    (auto simp: consume_response_def Let_def mix_key_def absorb_hash_def split: if_splits prod.splits option.splits)

lemma in_session_accepted:
  assumes "consume_response m now p = (p', True)" "length (w_static_public p) = 32"
  shows "in_session (Some (w_send_key p', 0, w_recv_key p', {})) p'"
proof -
  have "w_static_public p' = w_static_public p \<and> w_send_counter p' = 0 \<and> \<not> w_have_recv p'"
    using assms(1)
    by (auto simp: consume_response_def derive_transport_keys_def Let_def mix_key_def absorb_hash_def split: if_splits prod.splits option.splits)
  then show ?thesis using assms(2) by (auto simp: in_session_def seen_ok_def)
qed

lemma in_session_unsent:
  assumes "encapsulate packet cap now p = (p', None)" "in_session s p"
  shows "in_session s p'"
  using assms(1)
  by (intro in_session_frame [OF assms(2)]) (auto simp: encapsulate_def Let_def split: if_splits prod.splits)

lemma in_session_sent:
  assumes "encapsulate packet cap now p = (p', Some m)" "in_session (session_of l) p" "length l < 2 ^ 64 - 1" "length packet \<le> kTunnelMtu"
  shows "permitted (session_of l) (SentData m) \<and> in_session (advance (SentData m) (session_of l)) p'"
proof -
  note e = encapsulate_sends [OF assms(1)]
  obtain A B where s: "session_of l = Some (w_send_key p, unat (w_send_counter p), w_recv_key p, A)" "A \<subseteq> B" "seen_ok p B"
    using assms(2) e(1) by (auto simp: in_session_def)
  have "unat (w_send_counter p + 1) = unat (w_send_counter p) + 1"
    using session_of_count [OF s(1)] assms(3) by (simp add: unat_word_ariths)
  moreover have "sealed (w_send_key p) m packet" using e by (auto simp: sealed_def)
  ultimately show ?thesis
    using assms(2,4) s(2,3) seen_ok_frame [of p' p] e(4) by (auto simp: s(1) in_session_def e(3))
qed

lemma in_session_received:
  assumes "decapsulate m cap now p = (p', Some packet)" "in_session s p"
  shows "in_session s p'" "permitted s (Delivered m packet) \<and> in_session (advance (Delivered m packet) s) p'"
proof -
  note d = decapsulate_accepts [OF assms(1)]
  have est: "w_established p" using assms(1) by (auto simp: decapsulate_def split: if_splits)
  obtain A B where s: "s = Some (w_send_key p, unat (w_send_counter p), w_recv_key p, A)" "A \<subseteq> B" "seen_ok p B"
    using assms(2) est by (auto simp: in_session_def)
  have seen: "seen_ok p' (insert (unat (msg_counter m)) B)"
    using accept_seen [OF s(3) d(2)] seen_ok_frame [of p' "accept_counter (msg_counter m) p"] by (simp add: d(3))
  have fresh: "unat (msg_counter m) \<notin> B" by (rule replay_check_fresh [OF s(3) d(2)])
  have same: "w_static_public p' = w_static_public p" "w_send_key p' = w_send_key p" "w_recv_key p' = w_recv_key p"
      "w_send_counter p' = w_send_counter p"
    by (simp_all add: d(3)) (simp add: accept_counter_def Let_def)
  have subs: "A \<subseteq> insert (unat (msg_counter m)) B" using s(2) by blast
  show "in_session s p'" using assms(2) subs seen by (simp add: in_session_def same s(1)) blast
  show "permitted s (Delivered m packet) \<and> in_session (advance (Delivered m packet) s) p'"
    using assms(2) s(2) seen fresh d(6,7) by (simp add: in_session_def same s(1) sealed_def) blast
qed

lemma in_session_dropped:
  assumes "decapsulate m cap now p = (p', None)" "in_session s p"
  shows "in_session s p'"
  using decapsulate_refused [OF assms(1)] by (auto intro: in_session_frame [OF assms(2)])

subsection \<open>Every call is permitted\<close>

definition tunnel_ok :: "tunnel \<Rightarrow> bool" where
  "tunnel_ok t \<longleftrightarrow> log_permitted None (t_log t) \<and> in_session (session_of (t_log t)) (t_peer t)"

text \<open>\<open>safe t t'\<close>: the log only grows from \<open>t\<close> to \<open>t'\<close>, and a permitted one stays so while no counter can
  have wrapped.\<close>

definition safe :: "tunnel \<Rightarrow> tunnel \<Rightarrow> bool" where
  "safe t t' \<longleftrightarrow> length (t_log t) \<le> length (t_log t') \<and> (tunnel_ok t \<and> length (t_log t') < 2 ^ 64 \<longrightarrow> tunnel_ok t')"

lemma safe_refl [simp]: "safe t t"
  by (simp add: safe_def)

lemma safe_trans [trans]: "safe t u \<Longrightarrow> safe u v \<Longrightarrow> safe t v"
  by (auto simp: safe_def)

lemma safe_frame: "t_log u = t_log t \<Longrightarrow> t_peer u = t_peer t \<Longrightarrow> safe t u"
  by (simp add: safe_def tunnel_ok_def)

lemma safe_peer: "t_log u = t_log t \<Longrightarrow> (\<And>s. in_session s (t_peer t) \<Longrightarrow> in_session s (t_peer u)) \<Longrightarrow> safe t u"
  by (simp add: safe_def tunnel_ok_def)

lemma safe_emit:
  assumes "t_log u = t_log t @ [x]"
    "\<And>l. in_session (session_of l) (t_peer t) \<Longrightarrow> length l < 2 ^ 64 - 1 \<Longrightarrow>
      permitted (session_of l) x \<and> in_session (advance x (session_of l)) (t_peer u)"
  shows "safe t u"
  using assms(2) [of "t_log t"] by (auto simp: safe_def tunnel_ok_def assms(1))

lemma safe_fold: "(\<And>x t. safe t (f x t)) \<Longrightarrow> safe t (fold f xs t)"
proof (induction xs arbitrary: t)
  case (Cons x xs)
  have "safe t (f x t)" by (rule Cons.prems)
  also have "safe (f x t) (fold f xs (f x t))" by (rule Cons.IH) (rule Cons.prems)
  finally show ?case by simp
qed simp

lemma safe_attempts: "safe t (fst (send_attempts answers t))"
proof (induction answers arbitrary: t)
  case (Cons a answers)
  then show ?case by (auto split: send_answer.split intro: safe_frame)
qed (simp add: safe_frame)

lemma safe_output: "safe t (fst (output_packet packet answers now t))"
proof (cases "t_state t \<noteq> TunUp \<or> kTunnelMtu < length packet")
  case False
  obtain peer r where e: "encapsulate packet (kTunnelMtu + 64) now (t_peer t) = (peer, r)" by fastforce
  show ?thesis
  proof (cases r)
    case None
    then have "fst (output_packet packet answers now t) = t\<lparr>t_peer := peer, t_state := TunHandshaking\<rparr>"
      using False e by (simp add: output_packet_def)
    moreover have "safe t \<dots>" by (rule safe_peer) (use in_session_unsent e None in auto)
    ultimately show ?thesis by simp
  next
    case (Some m)
    let ?t = "t\<lparr>t_peer := peer, t_log := t_log t @ [SentData m]\<rparr>"
    have "safe t ?t"
      by (rule safe_emit [of _ _ "SentData m"]) (use in_session_sent [OF e [unfolded Some]] False in auto)
    also have "safe ?t (fst (output_packet packet answers now t))"
      using False e Some safe_attempts [of ?t] by (simp add: output_packet_def)
    finally show ?thesis .
  qed
qed (auto simp: output_packet_def)

lemma safe_handshake: "safe t (tunnel_handshake input now t)"
proof -
  obtain peer r where m: "make_initiation (i_random input) (i_index input) now (i_unix_ns input) (t_peer t) = (peer, r)" by fastforce
  have inv: "in_session s peer" if "in_session s (t_peer t)" for s
    using in_session_initiation [OF that] m by (metis fst_conv)
  show ?thesis
  proof (cases r)
    case None
    with inv show ?thesis by (intro safe_peer) (simp_all add: tunnel_handshake_def m)
  next
    case (Some i)
    have noted: "in_session s (note_handshake_sent now peer)" if "in_session s (t_peer t)" for s
      by (rule in_session_frame [OF inv [OF that]]) (simp_all add: note_handshake_sent_def)
    show ?thesis
      by (rule safe_emit [of _ _ "SentInitiation i"])
        (use initiation_size [OF m [unfolded Some]] noted in \<open>auto simp: tunnel_handshake_def m Some in_session_def\<close>)
  qed
qed

lemma safe_keepalive: "safe t (send_keepalive now t)"
proof -
  obtain peer r where e: "encapsulate [] 64 now (t_peer t) = (peer, r)" by fastforce
  show ?thesis
  proof (cases r)
    case None
    then show ?thesis by (intro safe_peer) (use in_session_unsent e None in \<open>auto simp: send_keepalive_def\<close>)
  next
    case (Some m)
    show ?thesis
      by (rule safe_emit [of _ _ "SentData m"]) (use in_session_sent [OF e [unfolded Some]] in \<open>auto simp: send_keepalive_def e Some\<close>)
  qed
qed

lemma safe_react: "safe t (react_lwip r t)"
  by (cases r) (auto simp: react_lwip_def safe_output on_tcp_def split: option.split intro: safe_frame)

lemma safe_react_all: "safe t (react_all rs t)"
  unfolding react_all_def by (rule safe_fold) (rule safe_react)

lemma safe_datagram: "safe t (tunnel_datagram data now input t)"
proof -
  consider (response) "4 \<le> length data" "data ! 0 = 2" | (data) "4 \<le> length data" "data ! 0 = 4"
    | (other) "tunnel_datagram data now input t = t"
    by (cases "length data < 4"; cases "data ! 0 = 2"; cases "data ! 0 = 4") (auto simp: tunnel_datagram_def)
  then show ?thesis
  proof cases
    case response
    obtain peer ok where c: "consume_response data now (t_peer t) = (peer, ok)" by fastforce
    show ?thesis
    proof (cases ok)
      case True
      then have c': "consume_response data now (t_peer t) = (peer, True)" using c by simp
      have "in_session (Some (w_send_key peer, 0, w_recv_key peer, {})) peer" if "in_session s (t_peer t)" for s
        using in_session_accepted [OF c'] that by (simp add: in_session_def)
      then show ?thesis
        by (intro safe_emit [of _ _ "TookKeys (w_send_key peer) (w_recv_key peer)"])
          (use response c True in \<open>simp_all add: tunnel_datagram_def\<close>)
    next
      case False
      then have c': "consume_response data now (t_peer t) = (peer, False)" using c by simp
      then show ?thesis
        by (intro safe_peer) (use response in_session_refused [OF c'] in \<open>simp_all add: tunnel_datagram_def\<close>)
    qed
  next
    case data
    obtain peer r where d: "decapsulate data (kTunnelMtu + 64) now (t_peer t) = (peer, r)" by fastforce
    show ?thesis
    proof (cases r)
      case None
      then show ?thesis
        by (intro safe_peer) (use data d in_session_dropped [OF d [unfolded None]] in \<open>simp_all add: tunnel_datagram_def\<close>)
    next
      case (Some packet)
      note rec = in_session_received [OF d [unfolded Some]]
      show ?thesis
      proof (cases "packet = [] \<or> input = None")
        case True
        then show ?thesis
          by (intro safe_peer) (use data d Some rec(1) in \<open>auto simp: tunnel_datagram_def Let_def\<close>)
      next
        case False
        then obtain rs where rs: "input = Some rs" by auto
        let ?t = "t\<lparr>t_peer := peer, t_log := t_log t @ [Delivered data packet]\<rparr>"
        have "safe t ?t" by (rule safe_emit [of _ _ "Delivered data packet"]) (use rec(2) in auto)
        also have "safe ?t (tunnel_datagram data now input t)"
          using data d Some False rs safe_react_all [of ?t rs] by (simp add: tunnel_datagram_def Let_def)
        finally show ?thesis .
      qed
    qed
  qed simp
qed

lemma safe_drain: "safe t (snd (drain k as t))"
proof (induction k as t rule: drain.induct)
  case (2 k a as t)
  let ?data = "take kMaxDatagram (a_data a)"
  let ?t = "t\<lparr>t_bytes_received := t_bytes_received t + of_nat (length ?data)\<rparr>"
  consider (stop) "kDrainBudget \<le> k \<or> ?data = []" | (skip) "\<not> kDrainBudget \<le> k" "?data \<noteq> []" "a_from a \<noteq> c_endpoint_ip (t_config t)"
    | (take) "\<not> kDrainBudget \<le> k" "?data \<noteq> []" "a_from a = c_endpoint_ip (t_config t)" by blast
  then show ?case
  proof cases
    case stop
    then show ?thesis by (auto simp: Let_def)
  next
    case skip
    then show ?thesis using "2.IH"(1) [OF skip(1) refl skip(2,3)] by (simp add: Let_def)
  next
    case take
    have "safe t ?t" by (rule safe_frame) simp_all
    also have "safe ?t (tunnel_datagram ?data (a_now a) (a_input a) ?t)" by (rule safe_datagram)
    also have "safe \<dots> (snd (drain k (a # as) t))"
      using "2.IH"(2) [OF take(1) refl take(2)] take by (simp add: Let_def)
    finally show ?thesis .
  qed
qed simp

lemma safe_pump: "safe t (pump io t)"
proof (cases "t_fd t")
  case True
  define t1 where "t1 = (if t_state t \<noteq> TunUp \<and> needs_handshake (p_now io) (t_peer t) then tunnel_handshake (p_initiation io) (p_now io) t
    else if t_state t = TunUp \<and> needs_handshake (p_now io) (t_peer t) then tunnel_handshake (p_initiation io) (p_now io) t else t)"
  define t2 where "t2 = (if p_readable io then case drain 0 (p_arrivals io) t1 of (drained, t) \<Rightarrow>
    if kDrainBudget \<le> drained then t\<lparr>t_rx_saturated := t_rx_saturated t + 1\<rparr> else t else t1)"
  define t3 where "t3 = (if t_state t2 = TunUp \<and> needs_keepalive (p_keepalive_now io) (t_peer t2) then send_keepalive (p_keepalive_sent io) t2 else t2)"
  have "safe t t1" by (simp add: t1_def safe_handshake)
  also have "safe t1 t2"
  proof (cases "p_readable io")
    case read: True
    obtain k u where d: "drain 0 (p_arrivals io) t1 = (k, u)" by fastforce
    have "safe t1 u" using safe_drain [of t1 0 "p_arrivals io"] by (simp add: d)
    also have "safe u t2" by (simp add: t2_def d read safe_frame)
    finally show ?thesis .
  qed (simp add: t2_def)
  also have "safe t2 t3" by (simp add: t3_def safe_keepalive)
  also have "safe t3 (pump io t)"
    using True by (simp only: pump_def Let_def t1_def [symmetric] t2_def [symmetric] t3_def [symmetric] not_True_eq_False if_False safe_react_all)
  finally show ?thesis .
qed (simp add: pump_def)

lemma safe_wait: "safe t (resolve_wait ios t)"
proof (induction ios arbitrary: t)
  case (Cons io ios)
  have "safe t (pump io t)" by (rule safe_pump)
  also have "safe (pump io t) (resolve_wait ios (pump io t))" by (rule Cons.IH)
  finally show ?case by simp
qed simp

lemma safe_resolve: "safe t (fst (resolve host aton gethostbyname ios t))"
proof (cases "t_state t \<noteq> TunUp \<or> aton host \<noteq> None")
  case False
  obtain answer rs where g: "gethostbyname host = (answer, rs)" by fastforce
  define t1 where "t1 = react_all rs (t\<lparr>t_dns := no_dns\<rparr>)"
  let ?t2 = "t1\<lparr>t_dns := (t_dns t1)\<lparr>d_pending := True\<rparr>\<rparr>"
  have "safe t (t\<lparr>t_dns := no_dns\<rparr>)" by (rule safe_frame) simp_all
  also have "safe \<dots> t1" by (simp add: t1_def safe_react_all)
  finally have t1: "safe t t1" .
  have wait: "safe t (resolve_wait ios ?t2)"
  proof -
    note t1
    also have "safe t1 ?t2" by (rule safe_frame) simp_all
    also have "safe ?t2 (resolve_wait ios ?t2)" by (rule safe_wait)
    finally show ?thesis .
  qed
  show ?thesis
    using False t1 wait by (cases answer) (simp_all add: resolve_def g t1_def [symmetric] Let_def)
qed (auto simp: resolve_def split: option.split)

lemma safe_start: "safe t (fst (start_tunnel io t))"
proof (cases "snd (start_tunnel io t)")
  case None
  let ?t = "t\<lparr>t_fd := True, t_peer := configure (c_private_key (t_config t)) (c_server_public (t_config t)) None (t_peer t),
    t_netif_added := True, t_state := TunHandshaking, t_handshake_started := st_now io\<rparr>"
  have "safe t ?t"
    by (rule safe_peer) (simp_all add: in_session_def configure_def reset_handshake_def)
  also have "safe ?t (tunnel_handshake (st_initiation io) (st_now io) ?t)" by (rule safe_handshake)
  also have "\<dots> = fst (start_tunnel io t)"
    using None by (auto simp: start_tunnel_def Let_def split: if_splits)
  finally show ?thesis .
next
  case (Some e)
  then show ?thesis
    by (auto simp: start_tunnel_def Let_def configure_def reset_handshake_def in_session_def
      split: if_splits intro!: safe_peer)
qed

lemma safe_step: "safe t (tunnel_step c t)"
proof -
  have put: "safe t (put_tcp k s t)" "safe t (put_udp k u t)" for k s u
    by (simp_all add: put_tcp_def put_udp_def safe_frame)
  have reacted: "safe t (react_all rs (put_tcp k s t))" for rs k s
    using put(1) safe_react_all by (rule safe_trans)
  show ?thesis
    by (cases c) (auto simp: tunnel_step_def safe_start safe_pump safe_resolve put reacted safe_react_all stop_tunnel_def safe_frame
      with_tcp_def with_udp_def split: option.split)
qed

lemma run_permitted:
  assumes "length (t_log (fold tunnel_step calls (new_tunnel config))) < 2 ^ 64"
  shows "tunnel_ok (fold tunnel_step calls (new_tunnel config))"
proof -
  have "tunnel_ok (new_tunnel config)"
    by (simp add: tunnel_ok_def new_tunnel_def in_session_def new_wg_peer_def zero_key_def)
  then show ?thesis
    using safe_fold [of tunnel_step "new_tunnel config" calls] safe_step assms by (simp add: safe_def)
qed

subsection \<open>Renewal and names\<close>

lemma initiation_index:
  "make_initiation rnd index now ns p = (p', Some m) \<Longrightarrow> w_local_index p' = index \<and> w_in_progress p' \<and>
    w_established p' = w_established p \<and> w_established_at p' = w_established_at p \<and> w_last_send p' = w_last_send p"
  by (auto simp: make_initiation_def Let_def open_transcript_def mix_key_def absorb_hash_def split: if_splits prod.splits)

lemma initiation_none:
  "make_initiation rnd index now ns p = (p', None) \<Longrightarrow> w_established p' = w_established p \<and> w_established_at p' = w_established_at p \<and> w_last_send p' = w_last_send p"
  by (auto simp: make_initiation_def Let_def open_transcript_def mix_key_def absorb_hash_def split: if_splits prod.splits)

definition no_event :: "wg_peer \<Rightarrow> pump_input \<Rightarrow> bool" where
  "no_event p io \<longleftrightarrow> kRekeyAfterMs \<le> p_now io - w_established_at p \<and> \<not> p_readable io \<and> p_timers io = [] \<and>
     p_keepalive_now io - w_last_send p < kKeepaliveMs"

lemma quiet_pump:
  assumes "t_fd t" "t_state t \<in> {TunUp, TunFailed}" "w_established (t_peer t)" "no_event (t_peer t) io"
  shows "pump io t = tunnel_handshake (p_initiation io) (p_now io) t"
proof -
  have need: "needs_handshake (p_now io) (t_peer t)" using assms(3,4) by (simp add: needs_handshake_def no_event_def)
  define u where "u = tunnel_handshake (p_initiation io) (p_now io) t"
  have "w_last_send (t_peer u) = w_last_send (t_peer t)"
    using initiation_index initiation_none
    by (auto simp: u_def tunnel_handshake_def note_handshake_sent_def split: prod.split option.split)
  then have "\<not> needs_keepalive (p_keepalive_now io) (t_peer u)"
    using assms(4) by (simp add: needs_keepalive_def no_event_def not_le)
  then show ?thesis
    using assms need by (auto simp: pump_def no_event_def react_all_def Let_def u_def [symmetric])
qed

lemma quiet_same: "w_established_at q = w_established_at p \<Longrightarrow> w_last_send q = w_last_send p \<Longrightarrow> no_event q io = no_event p io"
  by (simp add: no_event_def)

lemma renewals:
  assumes up: "t_fd t" "t_state t = TunUp" "w_established (t_peer t)"
    and no_event: "no_event (t_peer t) io1" "no_event (t_peer t) io2"
  shows "let t2 = pump io2 (pump io1 t) in t_state t2 = TunFailed \<or>
    ((\<exists>i1 i2. t_log t2 = t_log t @ [SentInitiation i1, SentInitiation i2]) \<and>
     w_local_index (t_peer t2) = i_index (p_initiation io2) \<and> w_in_progress (t_peer t2))"
proof -
  define n1 where "n1 = p_initiation io1"
  define n2 where "n2 = p_initiation io2"
  have t1: "pump io1 t = tunnel_handshake n1 (p_now io1) t" using quiet_pump [of t io1] up no_event(1) by (simp add: n1_def)
  obtain p1 r1 where m1: "make_initiation (i_random n1) (i_index n1) (p_now io1) (i_unix_ns n1) (t_peer t) = (p1, r1)" by fastforce
  define t1 where "t1 = tunnel_handshake n1 (p_now io1) t"
  have same1: "w_established (t_peer t1)" "w_established_at (t_peer t1) = w_established_at (t_peer t)" "w_last_send (t_peer t1) = w_last_send (t_peer t)"
    using m1 up(3)
    by (cases r1; auto simp: t1_def tunnel_handshake_def note_handshake_sent_def dest: initiation_index initiation_none)+
  have st1: "t_fd t1" "t_state t1 \<in> {TunUp, TunFailed}" using up by (auto simp: t1_def tunnel_handshake_def split: prod.split option.split)
  have t2: "pump io2 t1 = tunnel_handshake n2 (p_now io2) t1"
    using quiet_pump [of t1 io2] st1 same1 no_event(2) quiet_same [OF same1(2,3), of io2] by (simp add: n2_def)
  obtain p2 r2 where m2: "make_initiation (i_random n2) (i_index n2) (p_now io2) (i_unix_ns n2) (t_peer t1) = (p2, r2)" by fastforce
  show ?thesis
  proof (cases "r1 = None \<or> r2 = None")
    case True
    then have "t_state (tunnel_handshake n2 (p_now io2) t1) = TunFailed"
      using m1 m2 by (cases r1; cases r2; auto simp: t1_def tunnel_handshake_def split: prod.split)
    then show ?thesis by (simp add: t1 t1_def [symmetric] t2)
  next
    case False
    then obtain i1 i2 where r: "r1 = Some i1" "r2 = Some i2" by auto
    have "t_log t1 = t_log t @ [SentInitiation i1]" using m1 r by (simp add: t1_def tunnel_handshake_def)
    moreover have "w_local_index p2 = i_index n2 \<and> w_in_progress p2" using initiation_index m2 r by blast
    ultimately have "t_log (tunnel_handshake n2 (p_now io2) t1) = t_log t @ [SentInitiation i1, SentInitiation i2] \<and>
        w_local_index (t_peer (tunnel_handshake n2 (p_now io2) t1)) = i_index n2 \<and> w_in_progress (t_peer (tunnel_handshake n2 (p_now io2) t1))"
      using m2 r by (simp add: tunnel_handshake_def note_handshake_sent_def)
    then show ?thesis by (simp add: t1 t1_def [symmetric] t2 n2_def [symmetric])
  qed
qed


subsection \<open>The bytes of a connection\<close>

datatype stream_event = Segment bytes | Read nat

fun stream_step :: "stream_event \<Rightarrow> lwip_tcp \<times> bytes \<Rightarrow> lwip_tcp \<times> bytes" where
  "stream_step (Segment data) (s, out) = (tcp_on_recv (Some data) ErrOk s, out)"
| "stream_step (Read len) (s, out) = (case tcp_recv len s of (s', _, data) \<Rightarrow> (s', out @ data))"

fun segments :: "stream_event list \<Rightarrow> bytes" where
  "segments [] = []"
| "segments (Segment data # evs) = data @ segments evs"
| "segments (Read _ # evs) = segments evs"

definition unread :: "lwip_tcp \<Rightarrow> bytes" where
  "unread s = drop (s_rx_pos s) (s_rx s)"

lemma tcp_recv_unread:
  assumes "s_rx_pos s \<le> length (s_rx s)" "tcp_recv len s = (s', r, data)"
  shows "s_rx_pos s' \<le> length (s_rx s')" "data @ unread s' = unread s" "data = take len (unread s)"
    "r = SockWouldBlock \<or> r = SockClosed \<or> r = SockError \<Longrightarrow> unread s = []"
  using assms by (auto simp: tcp_recv_def unread_def Let_def add.commute drop_drop [symmetric] simp del: drop_drop split: if_splits)

lemma stream_run:
  "s_rx_pos s \<le> length (s_rx s) \<Longrightarrow> fold stream_step evs (s, out) = (s', out') \<Longrightarrow>
   out' @ unread s' = out @ unread s @ segments evs"
proof (induction evs arbitrary: s out)
  case (Cons ev evs)
  show ?case
  proof (cases ev)
    case (Segment data)
    let ?s = "tcp_on_recv (Some data) ErrOk s"
    have "s_rx_pos ?s \<le> length (s_rx ?s)" "unread ?s = unread s @ data"
      using Cons.prems(1) by (simp_all add: tcp_on_recv_def unread_def)
    then show ?thesis using Cons.IH [of ?s out] Cons.prems(2) by (simp add: Segment)
  next
    case (Read len)
    obtain s1 r data where r: "tcp_recv len s = (s1, r, data)" by (rule prod_cases3)
    note t = tcp_recv_unread [OF Cons.prems(1) r]
    show ?thesis using Cons.IH [OF t(1), of "out @ data"] Cons.prems(2) t(2) by (simp add: Read r)
  qed
qed simp

subsection \<open>Properties\<close>

text \<open>C5: nothing goes around the tunnel: whatever calls are made, whatever the network, the system and lwIP do
  in between, everything the tunnel hands to the system socket is an initiation or one IP packet of at
  most 1420 bytes encrypted under the sending key of the last accepted response, with counters
  0, 1, 2, ... so that no nonce repeats; nothing is sent before a first response is accepted; and every
  packet given to lwIP was encrypted with the matching receiving key, each message at most once.\<close>

theorem tunnel_traffic_permitted:
  assumes "length (t_log (fold tunnel_step calls (new_tunnel config))) < 2 ^ 64"
  shows "log_permitted None (t_log (fold tunnel_step calls (new_tunnel config)))"
  using run_permitted [OF assms] by (simp add: tunnel_ok_def)

definition test_config :: tunnel_config where
  "test_config = \<lparr>c_endpoint_ip = 1, c_endpoint_port = 51820, c_server_public = 9 # replicate 31 0, c_server_label = [],
     c_private_key = replicate 32 8, c_assigned_ip = 2, c_netmask = 0xffffffff, c_dns_ip = 0\<rparr>"

definition test_start :: start_input where
  "test_start = \<lparr>st_other_active = False, st_socket = True, st_netif = True, st_now = 5,
     st_initiation = \<lparr>i_random = replicate 32 1, i_index = 7, i_unix_ns = 0\<rparr>\<rparr>"

lemma one_initiation: "length (t_log (tunnel_handshake input now t)) \<le> length (t_log t) + 1"
  by (simp add: tunnel_handshake_def split: prod.split option.split)

theorem tunnel_traffic_permitted_witness:
  "log_permitted None (t_log (fold tunnel_step [Start test_start, NewTcp 0, Stop] (new_tunnel test_config)))"
proof (rule tunnel_traffic_permitted)
  let ?t = "fst (start_tunnel test_start (new_tunnel test_config))"
  have "length (t_log ?t) \<le> 1"
    by (simp add: start_tunnel_def test_start_def test_config_def new_tunnel_def Let_def) (rule order_trans [OF one_initiation], simp)
  then show "length (t_log (fold tunnel_step [Start test_start, NewTcp 0, Stop] (new_tunnel test_config))) < 2 ^ 64"
    by (auto simp: tunnel_step_def stop_tunnel_def put_tcp_def split: option.split)
qed

text \<open>C7: the renewal of the keys is not paced: from 120 s after the last response, each turn of \<open>pump\<close> sends
  an initiation, at once after the previous one (unless a null secret makes the tunnel fail), under a
  new index; the response to the previous initiation, genuine or not, is then refused as one of another
  session and changes nothing else.\<close>

theorem renewal_is_not_paced:
  assumes "t_fd t" "t_state t = TunUp" "w_established (t_peer t)" "no_event (t_peer t) io1" "no_event (t_peer t) io2"
    "i_index (p_initiation io1) \<noteq> i_index (p_initiation io2)"
    "length m = 92" "m ! 0 = 2" "read_le32 (drop 8 m) = i_index (p_initiation io1)"
  shows "let t2 = pump io2 (pump io1 t) in t_state t2 = TunFailed \<or>
    ((\<exists>i1 i2. t_log t2 = t_log t @ [SentInitiation i1, SentInitiation i2]) \<and>
     tunnel_datagram m now input t2 = t2\<lparr>t_peer := (t_peer t2)\<lparr>w_error := OtherSession\<rparr>\<rparr>)"
proof -
  have "tunnel_datagram m now input u = u\<lparr>t_peer := (t_peer u)\<lparr>w_error := OtherSession\<rparr>\<rparr>"
    if "w_local_index (t_peer u) = i_index (p_initiation io2)" "w_in_progress (t_peer u)" for u
    using that assms(6-9) by (simp add: tunnel_datagram_def consume_response_def)
  then show ?thesis using renewals [OF assms(1-5)] by (auto simp: Let_def)
qed

definition test_pump :: "32 word \<Rightarrow> pump_input" where
  "test_pump index = \<lparr>p_now = 130000, p_initiation = \<lparr>i_random = replicate 32 1, i_index = index, i_unix_ns = 0\<rparr>,
     p_readable = False, p_arrivals = [], p_keepalive_now = 1, p_keepalive_sent = 1, p_timers = []\<rparr>"

definition test_tunnel :: tunnel where
  "test_tunnel = (new_tunnel test_config)\<lparr>t_fd := True, t_state := TunUp, t_peer := new_wg_peer\<lparr>w_established := True\<rparr>\<rparr>"

theorem renewal_is_not_paced_witness:
  "let t2 = pump (test_pump 4) (pump (test_pump 3) test_tunnel) in t_state t2 = TunFailed \<or>
    ((\<exists>i1 i2. t_log t2 = t_log test_tunnel @ [SentInitiation i1, SentInitiation i2]) \<and>
     tunnel_datagram ([2, 0, 0, 0, 0, 0, 0, 0] @ write_le32 3 @ replicate 80 0) 130001 None t2 =
       t2\<lparr>t_peer := (t_peer t2)\<lparr>w_error := OtherSession\<rparr>\<rparr>)"
  by (rule renewal_is_not_paced)
    (simp_all add: test_tunnel_def test_pump_def no_event_def new_wg_peer_def kRekeyAfterMs_def kKeepaliveMs_def)



text \<open>A connection through the tunnel is a byte stream: however the segments lwIP delivers and the reads of
  the client interleave, and whatever their sizes, the bytes read so far followed by those kept unread
  are the bytes delivered, in order, through every compaction of the buffer.\<close>

theorem tcp_reads_stream:
  "case fold stream_step evs (new_lwip_tcp, []) of (s, out) \<Rightarrow> out @ drop (s_rx_pos s) (s_rx s) = segments evs"
proof -
  obtain s out where f: "fold stream_step evs (new_lwip_tcp, []) = (s, out)" by fastforce
  have "s_rx_pos new_lwip_tcp \<le> length (s_rx new_lwip_tcp)" "unread new_lwip_tcp = []"
    by (simp_all add: new_lwip_tcp_def unread_def)
  then show ?thesis using stream_run [OF _ f] by (simp add: f unread_def)
qed

end
