(* ===== verification/QrStandard.thy ===== *)
theory QrStandard
  imports Prelude
begin

text \<open>
  QR codes as ISO/IEC 18004 has them, versions 1 to 6 at the error correction level M: a reader, written
  from the standard and without a definition of the encoder.  A module is addressed by its column and
  its row, both from the top left.  \<open>qr_standard_read\<close> takes a square of modules, checks every module of the
  function patterns and both copies of the format information, unmasks the others in the order of
  the standard, rebuilds the blocks, checks that each is a Reed-Solomon codeword of the field
  (null syndromes) and reads the text of a segment in byte mode.
\<close>

unbundle bit_operations_syntax

subsection \<open>The field\<close>

text \<open>Multiplication by the indeterminate, on bytes, then the product of two bytes as polynomials over
  GF(2) modulo x^8 + x^4 + x^3 + x^2 + 1: for each coefficient of the second, the first times a power of
  the indeterminate.\<close>

definition xtime :: "byte \<Rightarrow> byte" where
  "xtime b = push_bit 1 b XOR (if bit b 7 then 0x1d else 0)"

definition ref_mul :: "byte \<Rightarrow> byte \<Rightarrow> byte" where
  "ref_mul a b = fold (\<lambda>k s. if bit b k then s XOR (xtime ^^ k) a else s) [0..<8] 0"

text \<open>A block is a codeword with \<open>n\<close> correction bytes when it vanishes at 2^0, ..., 2^(n-1).\<close>

definition syndrome :: "bytes \<Rightarrow> nat \<Rightarrow> byte" where
  "syndrome block i = fold (\<lambda>c acc. ref_mul acc ((ref_mul 2 ^^ i) 1) XOR c) block 0"

definition rs_ok :: "nat \<Rightarrow> bytes \<Rightarrow> bool" where
  "rs_ok n block \<longleftrightarrow> list_all (\<lambda>i. syndrome block i = 0) [0..<n]"

subsection \<open>The function patterns\<close>

definition qr_side :: "nat \<Rightarrow> int" where
  "qr_side v = 17 + 4 * int v"

text \<open>The timing lines, the three finders with their margins, the alignment pattern and the format
  information, as the standard places them.\<close>

definition fn_cell :: "nat \<Rightarrow> int \<Rightarrow> int \<Rightarrow> bool" where
  "fn_cell v a b \<longleftrightarrow> a = 6 \<or> b = 6 \<or>
     (a \<le> 7 \<and> b \<le> 7) \<or> (qr_side v - 8 \<le> a \<and> b \<le> 7) \<or> (a \<le> 7 \<and> qr_side v - 8 \<le> b) \<or>
     (2 \<le> v \<and> \<bar>a - (qr_side v - 7)\<bar> \<le> 2 \<and> \<bar>b - (qr_side v - 7)\<bar> \<le> 2) \<or>
     (a = 8 \<and> (b \<le> 8 \<or> qr_side v - 8 \<le> b)) \<or> (b = 8 \<and> (a \<le> 8 \<or> qr_side v - 8 \<le> a))"

text \<open>The rings of a finder round its centre, dark at the distances 0, 1 and 3, and of an alignment pattern,
  dark at 0 and 2; the colour of the modules that do not depend on the contents.\<close>

definition ring :: "int \<Rightarrow> int \<Rightarrow> int \<Rightarrow> int \<Rightarrow> int" where
  "ring cx cy a b = max \<bar>a - cx\<bar> \<bar>b - cy\<bar>"

definition fixed_module :: "nat \<Rightarrow> int \<Rightarrow> int \<Rightarrow> bool option" where
  "fixed_module v a b =
     (let n = qr_side v
      in if a \<le> 7 \<and> b \<le> 7 then Some (ring 3 3 a b \<in> {0, 1, 3})
         else if n - 8 \<le> a \<and> b \<le> 7 then Some (ring (n - 4) 3 a b \<in> {0, 1, 3})
         else if a \<le> 7 \<and> n - 8 \<le> b then Some (ring 3 (n - 4) a b \<in> {0, 1, 3})
         else if 2 \<le> v \<and> ring (n - 7) (n - 7) a b \<le> 2 then Some (ring (n - 7) (n - 7) a b \<in> {0, 2})
         else if a = 6 then Some (even b)
         else if b = 6 then Some (even a)
         else if a = 8 \<and> b = n - 8 then Some True
         else None)"

subsection \<open>The format information\<close>

text \<open>Where bit \<open>k\<close> is, once round the first finder and once along the two others.\<close>

definition format_at1 :: "nat \<Rightarrow> int \<times> int" where
  "format_at1 k =
     [(8, 0), (8, 1), (8, 2), (8, 3), (8, 4), (8, 5), (8, 7), (8, 8),
      (7, 8), (5, 8), (4, 8), (3, 8), (2, 8), (1, 8), (0, 8)] ! k"

definition format_at2 :: "int \<Rightarrow> nat \<Rightarrow> int \<times> int" where
  "format_at2 n k = (if k < 8 then (n - 1 - int k, 8) else (8, n - 15 + int k))"

text \<open>The sequences of the standard for the level M and the masks 0 to 7, masking included.\<close>

definition format_word :: "nat \<Rightarrow> nat" where
  "format_word k = [0x5412, 0x5125, 0x5E7C, 0x5B4B, 0x45F9, 0x40CE, 0x4F97, 0x4AA0] ! k"

definition format_read :: "int \<Rightarrow> (int \<Rightarrow> int \<Rightarrow> bool) \<Rightarrow> nat option" where
  "format_read n at = List.find (\<lambda>k. list_all (\<lambda>b.
     case_prod at (format_at1 b) = bit (format_word k) b \<and> case_prod at (format_at2 n b) = bit (format_word k) b) [0..<15]) [0..<8]"

subsection \<open>The masks and the order of the modules\<close>

text \<open>Row \<open>i\<close>, column \<open>j\<close>.\<close>

definition standard_mask :: "nat \<Rightarrow> int \<Rightarrow> int \<Rightarrow> bool" where
  "standard_mask k i j =
     ([(i + j) mod 2, i mod 2, j mod 3, (i + j) mod 3, (i div 2 + j div 3) mod 2,
       (i * j) mod 2 + (i * j) mod 3, ((i * j) mod 2 + (i * j) mod 3) mod 2,
       ((i + j) mod 2 + (i * j) mod 3) mod 2] ! k = 0)"

text \<open>Pairs of columns from the right, the vertical timing line left out; upwards in the first pair, then
  downwards and upwards in turn, the right module of each row first.\<close>

definition pair_column :: "int \<Rightarrow> nat \<Rightarrow> int" where
  "pair_column n p = (if 6 < n - 1 - 2 * int p then n - 1 - 2 * int p else n - 2 - 2 * int p)"

definition pair_order :: "int \<Rightarrow> int \<Rightarrow> bool \<Rightarrow> (int \<times> int) list" where
  "pair_order n r up = concat (map (\<lambda>b. [(r, b), (r - 1, b)]) (if up then rev [0..n - 1] else [0..n - 1]))"

definition module_order :: "int \<Rightarrow> (int \<times> int) list" where
  "module_order n = concat (map (\<lambda>p. pair_order n (pair_column n p) (even p)) [0..<nat ((n - 1) div 2)])"

subsection \<open>Codewords and text\<close>

text \<open>Number of blocks, codewords per block, data codewords per block.\<close>

definition block_table :: "nat \<Rightarrow> nat \<times> nat \<times> nat" where
  "block_table v = [(1, 26, 16), (1, 44, 28), (1, 70, 44), (2, 50, 32), (2, 67, 43), (4, 43, 27)] ! (v - 1)"

definition bits_value :: "bool list \<Rightarrow> nat" where
  "bits_value bs = fold (\<lambda>b v. 2 * v + of_bool b) bs 0"

definition byte_bits :: "byte \<Rightarrow> bool list" where
  "byte_bits b = map (bit b) (rev [0..<8])"

definition read_codewords :: "nat \<Rightarrow> bool list \<Rightarrow> bytes" where
  "read_codewords n bs = map (\<lambda>i. of_nat (bits_value (take 8 (drop (8 * i) bs)))) [0..<n]"

text \<open>The data codewords of the blocks come first, one of each block in turn, then the others.\<close>

definition read_block :: "nat \<Rightarrow> nat \<Rightarrow> nat \<Rightarrow> bytes \<Rightarrow> nat \<Rightarrow> bytes" where
  "read_block count c d cw b =
     map (\<lambda>i. cw ! (i * count + b)) [0..<d] @ map (\<lambda>i. cw ! (d * count + i * count + b)) [0..<c - d]"

text \<open>The mode (4 bits, 0100 for bytes), the length (8 bits), then the bytes.\<close>

definition read_text :: "bytes \<Rightarrow> bytes option" where
  "read_text stream =
     (let bs = concat (map byte_bits stream)
      in if bits_value (take 4 bs) \<noteq> 4 then None
         else Some (map (\<lambda>i. of_nat (bits_value (take 8 (drop (12 + 8 * i) bs)))) [0..<bits_value (take 8 (drop 4 bs))]))"

subsection \<open>The reader\<close>

definition patterns_ok :: "nat \<Rightarrow> (int \<Rightarrow> int \<Rightarrow> bool) \<Rightarrow> bool" where
  "patterns_ok v at \<longleftrightarrow> list_all (\<lambda>b. list_all (\<lambda>a.
     case fixed_module v a b of None \<Rightarrow> True | Some dark \<Rightarrow> at a b = dark) [0..qr_side v - 1]) [0..qr_side v - 1]"

definition data_bits :: "nat \<Rightarrow> nat \<Rightarrow> (int \<Rightarrow> int \<Rightarrow> bool) \<Rightarrow> bool list" where
  "data_bits v k at = map (\<lambda>(a, b). at a b \<noteq> standard_mask k b a) (filter (\<lambda>(a, b). \<not> fn_cell v a b) (module_order (qr_side v)))"

definition read_blocks :: "nat \<Rightarrow> bool list \<Rightarrow> bytes list" where
  "read_blocks v bits =
     (case block_table v of (count, c, d) \<Rightarrow>
        map (read_block count c d (read_codewords (count * c) bits)) [0..<count])"

definition qr_standard_read :: "int \<Rightarrow> (int \<Rightarrow> int \<Rightarrow> bool) \<Rightarrow> bytes option" where
  "qr_standard_read n at =
     (let v = nat ((n - 17) div 4)
      in if \<not> (1 \<le> v \<and> v \<le> 6 \<and> n = qr_side v \<and> patterns_ok v at) then None
         else case format_read n at of
             None \<Rightarrow> None
           | Some k \<Rightarrow>
               let blocks = read_blocks v (data_bits v k at)
               in case block_table v of (count, c, d) \<Rightarrow>
                    if list_all (rs_ok (c - d)) blocks then read_text (concat (map (take d) blocks)) else None)"

end
