(* ===== verification/Galois.thy ===== *)
theory Galois
  imports QrStandard
begin

text \<open>
  The field of the QR codes (\<open>source/util/qr.cpp\<close>): the tables of exponents and logarithms, the
  product through them, the generator polynomial and the Reed-Solomon remainder.  The product is
  shown to be the one of polynomials over GF(2) modulo \<open>0x11d\<close> (\<open>ref_mul\<close>), which needs that 2 generates
  the whole group, and a codeword is shown to vanish at every root of the generator.
\<close>

unbundle bit_operations_syntax

subsection \<open>The code\<close>

text \<open>The first loop of \<open>GaloisTables\<close>: the variable \<open>x\<close>, the table of exponents and the one of logarithms.\<close>

definition table_step :: "nat \<Rightarrow> int \<times> bytes \<times> bytes \<Rightarrow> int \<times> bytes \<times> bytes" where
  "table_step i s =
     (case s of (x, exps, logs) \<Rightarrow>
        let exps = exps[i := word_of_int x];
            logs = logs[nat x := of_nat i];
            x = push_bit 1 x;
            x = (if x AND 0x100 \<noteq> 0 then x XOR 0x11d else x)
        in (x, exps, logs))"

definition galois_tables :: "bytes \<times> bytes" where
  "galois_tables =
     (case fold table_step [0..<255] (1, replicate 512 0, replicate 256 0) of
        (x, exps, logs) \<Rightarrow> (fold (\<lambda>i e. e[i := e ! (i - 255)]) [255..<512] exps, logs))"

definition gf_mul :: "byte \<Rightarrow> byte \<Rightarrow> byte" where
  "gf_mul a b =
     (if a = 0 \<or> b = 0 then 0
      else fst galois_tables ! (unat (snd galois_tables ! unat a) + unat (snd galois_tables ! unat b)))"

text \<open>One turn of \<open>generator_poly\<close>: a coefficient is added and updated from the end, so each one reads the
  old value of the one before it.\<close>

definition times_root :: "byte \<Rightarrow> bytes \<Rightarrow> bytes" where
  "times_root root poly =
     (let poly = poly @ [0]
      in fold (\<lambda>j p. p[j := p ! j XOR gf_mul (p ! (j - 1)) root]) (rev [1..<length poly]) poly)"

definition generator_poly :: "nat \<Rightarrow> bytes" where
  "generator_poly ec_len = fold (\<lambda>i poly. times_root (fst galois_tables ! i) poly) [0..<ec_len] [1]"

definition rs_step :: "bytes \<Rightarrow> byte \<Rightarrow> bytes \<Rightarrow> bytes" where
  "rs_step gen byte rem =
     (let factor = byte XOR rem ! 0;
          rem = drop 1 rem @ [0]
      in map (\<lambda>i. rem ! i XOR gf_mul (gen ! (i + 1)) factor) [0..<length rem])"

definition qr_reed_solomon :: "bytes \<Rightarrow> int \<Rightarrow> bytes" where
  "qr_reed_solomon data ec_len =
     (if ec_len \<le> 0 then []
      else fold (rs_step (generator_poly (nat ec_len))) data (replicate (nat ec_len) 0))"

subsection \<open>The group generated by 2\<close>

abbreviation alpha :: "nat \<Rightarrow> byte" where
  "alpha n \<equiv> (xtime ^^ n) 1"

lemma xtime_xor: "xtime (a XOR b) = xtime a XOR xtime b"
  by (simp add: xtime_def push_bit_xor bit_xor_iff ac_simps)

lemma xtime_0 [simp]: "xtime 0 = 0"
  by (simp add: xtime_def)

lemma bit_xtime: "bit (xtime b) n \<longleftrightarrow> n < 8 \<and> ((1 \<le> n \<and> bit b (n - 1)) \<noteq> (bit b 7 \<and> bit (0x1d :: byte) n))"
proof -
  have "n < 8" if "bit (0x1d :: byte) n" using bit_imp_le_length [OF that] by simp
  then show ?thesis by (auto simp only: xtime_def bit_xor_iff bit_push_bit_iff possible_bit_word split: if_splits) auto
qed

lemma pow_xor: "(xtime ^^ n) (a XOR b) = (xtime ^^ n) a XOR (xtime ^^ n) b"
  by (induction n) (simp_all add: xtime_xor)

lemma pow_0 [simp]: "(xtime ^^ n) 0 = 0"
  by (induction n) simp_all

lemma xtime_eq_0:
  assumes "xtime b = 0"
  shows "b = 0"
proof -
  have clear: "\<not> bit (xtime b) k" for k using assms by simp
  have seven: "\<not> bit b 7" using clear [of 0] by (simp add: bit_xtime)
  show ?thesis
  proof (rule bit_word_eqI)
    fix n assume n: "n < LENGTH(8)"
    then show "bit b n = bit (0 :: byte) n" using clear [of "Suc n"] seven by (cases "n = 7") (auto simp: bit_xtime)
  qed
qed

lemma xor_zero: "(a :: byte) XOR b = 0 \<Longrightarrow> a = b"
  by (metis xor.assoc xor.left_neutral xor_self_eq)

lemma xtime_inj: "xtime a = xtime b \<Longrightarrow> a = b"
proof -
  assume "xtime a = xtime b"
  then have "xtime (a XOR b) = 0" by (simp add: xtime_xor)
  then have "a XOR b = 0" by (rule xtime_eq_0)
  then show "a = b" by (metis xor.assoc xor.left_neutral xor_self_eq)
qed

lemma pow_inj: "(xtime ^^ n) a = (xtime ^^ n) b \<Longrightarrow> a = b"
  by (induction n) (auto dest: xtime_inj)

lemma alpha_add: "alpha (m + n) = (xtime ^^ m) (alpha n)"
  by (simp add: funpow_add)

lemma alpha_nonzero: "alpha n \<noteq> 0"
  by (induction n) (auto dest: xtime_eq_0)

text \<open>Evaluation by rewriting: one step at a time, on numerals.\<close>

lemma pow_eval: "(xtime ^^ numeral k) b = (xtime ^^ pred_numeral k) (xtime b)" "(xtime ^^ Suc n) b = (xtime ^^ n) (xtime b)"
  by (simp_all add: numeral_eq_Suc funpow_swap1)

lemma alpha_values: "alpha 15 = 38" "alpha 51 = 10" "alpha 85 = 214" "alpha 255 = 1"
  by (simp_all add: pow_eval xtime_def)

lemma alpha_mult:
  assumes "alpha d = 1"
  shows "alpha (d * k) = 1"
proof (induction k)
  case (Suc k)
  have "alpha (d * Suc k) = alpha (d + d * k)" by simp
  also have "\<dots> = (xtime ^^ d) (alpha (d * k))" by (rule alpha_add)
  finally show ?case using Suc assms by simp
qed simp

lemma alpha_mod:
  assumes "alpha d = 1"
  shows "alpha (n mod d) = alpha n"
proof -
  have "alpha n = alpha (n mod d + d * (n div d))" by (simp add: add.commute)
  also have "\<dots> = alpha (n mod d)" by (simp only: alpha_add alpha_mult [OF assms])
  finally show ?thesis by simp
qed

lemma alpha_gcd: "alpha a = 1 \<Longrightarrow> alpha b = 1 \<Longrightarrow> alpha (gcd a b) = 1"
proof (induction a b rule: gcd_nat_induct)
  case (step a b)
  have "alpha (a mod b) = alpha a" by (rule alpha_mod) (rule step.prems)
  then show ?case using step by (simp add: gcd_red_nat [of a b])
qed simp

lemma alpha_order:
  assumes "alpha d = 1" "0 < d" "d < 255"
  shows False
proof -
  let ?g = "gcd d 255"
  have g: "alpha ?g = 1" by (rule alpha_gcd [OF assms(1) alpha_values(4)])
  have "?g dvd 255" by simp
  moreover have "?g \<noteq> 255" using assms(2,3) gcd_le1_nat [of d 255] by linarith
  ultimately have "?g \<in> {1, 3, 5, 15, 17, 51, 85}"
  proof -
    have "?g \<le> 255" by simp
    have "list_all (\<lambda>k. (255 :: nat) mod k = 0 \<longrightarrow> k = 1 \<or> k = 3 \<or> k = 5 \<or> k = 15 \<or> k = 17 \<or> k = 51 \<or> k = 85 \<or> k = 255) [1..<256]"
      by code_simp
    then have "\<forall>k. 1 \<le> k \<and> k \<le> 255 \<longrightarrow> k dvd (255 :: nat) \<longrightarrow> k \<in> {1, 3, 5, 15, 17, 51, 85, 255}"
      by (auto simp: list_all_iff dvd_eq_mod_eq_0 simp del: upt_rec_numeral)
    moreover have "1 \<le> ?g" using assms(2) by (simp add: Suc_le_eq)
    moreover note \<open>?g \<le> 255\<close> \<open>?g dvd 255\<close> \<open>?g \<noteq> 255\<close>
    ultimately show ?thesis by blast
  qed
  then obtain k where "?g * k = 85 \<or> ?g * k = 51 \<or> ?g * k = 15"
    by (auto intro: that [of 85] that [of 17] that [of 5] that [of 3] that [of 1])
  then show False using alpha_mult [OF g, of k] alpha_values by auto
qed

lemma alpha_inj: "i < 255 \<Longrightarrow> j < 255 \<Longrightarrow> alpha i = alpha j \<Longrightarrow> i = j"
proof (induction i j rule: linorder_wlog)
  case (le i j)
  have "(xtime ^^ i) (alpha (j - i)) = (xtime ^^ i) 1"
    using le alpha_add [of i "j - i"] by simp
  then have "alpha (j - i) = 1" by (rule pow_inj)
  moreover have "j - i < 255" using le by simp
  ultimately show ?case using alpha_order [of "j - i"] le by (cases "i = j") auto
qed auto

lemma alpha_onto:
  assumes "b \<noteq> 0"
  obtains i where "i < 255" "alpha i = b"
proof -
  have inj: "inj_on alpha {..<255}" by (auto intro: inj_onI alpha_inj)
  have sub: "alpha ` {..<255} \<subseteq> UNIV - {0 :: byte}" using alpha_nonzero by auto
  have "card (UNIV :: byte set) = 256" by (simp add: card_word)
  then have "card (UNIV - {0 :: byte}) = card (alpha ` {..<255})" by (simp add: card_image [OF inj])
  then have "alpha ` {..<255} = UNIV - {0 :: byte}" by (intro card_subset_eq) (use sub in auto)
  then have "b \<in> alpha ` {..<255}" using assms by auto
  then show ?thesis using that by auto
qed

lemma pow_255: "(xtime ^^ 255) b = b"
proof (cases "b = 0")
  case False
  then obtain i where "alpha i = b" by (rule alpha_onto)
  then show ?thesis using alpha_add [of 255 i] alpha_add [of i 255] alpha_values(4) by (simp add: add.commute)
qed simp

subsection \<open>The tables\<close>

lemma xtime_int: "(let x = push_bit 1 (uint b) in if x AND 0x100 \<noteq> 0 then x XOR 0x11d else x) = uint (xtime b)"
proof -
  have top: "push_bit 1 (uint b) AND 0x100 \<noteq> 0 \<longleftrightarrow> bit b 7"
  proof -
    have "(0x100 :: int) = push_bit 8 1" by simp
    then have "push_bit 1 (uint b) AND 0x100 \<noteq> 0 \<longleftrightarrow> bit (push_bit 1 (uint b)) 8"
      by (simp only: and_exp_eq_0_iff_not_bit [of _ 8] push_bit_of_1) simp
    then show ?thesis by (simp only: bit_push_bit_iff bit_uint_iff possible_bit_int) simp
  qed
  have poly: "bit (0x11d :: int) n \<longleftrightarrow> n = 8 \<or> bit (0x1d :: byte) n" for n
  proof -
    have "(0x11d :: int) = push_bit 8 1 XOR uint (0x1d :: byte)" by simp
    then have "bit (0x11d :: int) n \<longleftrightarrow> (bit (push_bit 8 1 :: int) n \<noteq> (n < 8 \<and> bit (0x1d :: byte) n))"
      by (simp only: bit_xor_iff bit_uint_iff) simp
    moreover have "bit (push_bit 8 1 :: int) n \<longleftrightarrow> n = 8" by (simp only: bit_push_bit_iff bit_1_iff possible_bit_int) auto
    ultimately show ?thesis using bit_imp_le_length [of "0x1d :: byte" n] by auto
  qed
  have high: "\<not> bit (0x1d :: byte) 8" using bit_imp_le_length [of "0x1d :: byte" 8] by auto
  show ?thesis
  proof (rule bit_eqI)
    fix n
    have "bit (uint (xtime b)) n \<longleftrightarrow> n < 8 \<and> ((1 \<le> n \<and> bit b (n - 1)) \<noteq> (bit b 7 \<and> bit (0x1d :: byte) n))"
      by (auto simp only: bit_uint_iff bit_xtime) simp_all
    moreover have "bit (push_bit 1 (uint b)) n \<longleftrightarrow> 1 \<le> n \<and> n < 9 \<and> bit b (n - 1)"
      by (simp only: bit_push_bit_iff bit_uint_iff possible_bit_int) auto
    ultimately show "bit (let x = push_bit 1 (uint b) in if x AND 0x100 \<noteq> 0 then x XOR 0x11d else x) n = bit (uint (xtime b)) n"
      using high bit_imp_le_length [of "0x1d :: byte" n]
      by (cases "n = 8"; cases "bit b 7") (auto simp only: Let_def top poly bit_xor_iff split: if_splits, auto)
  qed
qed

definition tables_ok :: "nat \<Rightarrow> int \<times> bytes \<times> bytes \<Rightarrow> bool" where
  "tables_ok k s \<longleftrightarrow> (case s of (x, exps, logs) \<Rightarrow>
     x = uint (alpha k) \<and> length exps = 512 \<and> length logs = 256 \<and>
     (\<forall>i < k. exps ! i = alpha i) \<and> (\<forall>i < k. logs ! unat (alpha i) = of_nat i))"

lemma table_step_ok:
  assumes "tables_ok k s" "k < 255"
  shows "tables_ok (Suc k) (table_step k s)"
proof -
  obtain x exps logs where s: "s = (x, exps, logs)" by (cases s) auto
  note ok = assms(1) [unfolded tables_ok_def s prod.case]
  have x: "x = uint (alpha k)" "nat x = unat (alpha k)" "word_of_int x = alpha k" using ok by simp_all
  have small: "unat (alpha i) < 256" for i using unsigned_less [of "alpha i"] by simp
  have "(let x = push_bit 1 x in if x AND 0x100 \<noteq> 0 then x XOR 0x11d else x) = uint (alpha (Suc k))"
    using xtime_int [of "alpha k"] by (simp only: x(1) funpow.simps o_apply)
  moreover have "exps[k := alpha k] ! i = alpha i" if "i < Suc k" for i
    using that ok assms(2) by (cases "i = k") simp_all
  moreover have "logs[unat (alpha k) := of_nat k] ! unat (alpha i) = of_nat i" if "i < Suc k" for i
  proof (cases "i = k")
    case False
    then have "alpha i \<noteq> alpha k" using alpha_inj [of i k] that assms(2) by auto
    then have "unat (alpha i) \<noteq> unat (alpha k)" by (simp add: word_unat_eq_iff)
    then show ?thesis using ok that False by simp
  qed (use ok small in simp)
  ultimately show ?thesis
    using ok unfolding tables_ok_def s table_step_def prod.case x(2,3) Let_def by simp
qed

lemma tables_run: "k \<le> 255 \<Longrightarrow> tables_ok k (fold table_step [0..<k] (1, replicate 512 0, replicate 256 0))"
proof (induction k)
  case (Suc k)
  then show ?case using table_step_ok [of k] by simp
qed (simp add: tables_ok_def)

lemma extend_table:
  assumes "length e = 512" "\<And>i. i < 255 \<Longrightarrow> e ! i = alpha i" "m \<le> 257"
  shows "length (fold (\<lambda>i e. e[i := e ! (i - 255)]) [255..<255 + m] e) = 512 \<and>
    (\<forall>i < 255 + m. fold (\<lambda>i e. e[i := e ! (i - 255)]) [255..<255 + m] e ! i = alpha i)"
  using assms(3)
proof (induction m)
  case (Suc m)
  let ?e = "fold (\<lambda>i e. e[i := e ! (i - 255)]) [255..<255 + m] e"
  have eq: "fold (\<lambda>i e. e[i := e ! (i - 255)]) [255..<255 + Suc m] e = ?e[255 + m := ?e ! m]"
    using upt_Suc_append [of 255 "255 + m"] by (simp only: add_Suc_right fold_append o_apply) simp
  have ih: "length ?e = 512" "\<forall>i < 255 + m. ?e ! i = alpha i" using Suc by simp_all
  have "?e ! m = alpha (255 + m)" using ih(2) alpha_add [of 255 m] by (simp add: pow_255)
  then show ?case unfolding eq using ih Suc.prems by (auto simp: nth_list_update less_Suc_eq)
qed (simp add: assms)

lemma galois_exp: "i < 512 \<Longrightarrow> fst galois_tables ! i = alpha i"
  and galois_log: "i < 255 \<Longrightarrow> snd galois_tables ! unat (alpha i) = of_nat i"
proof -
  obtain x exps logs where f: "fold table_step [0..<255] (1, replicate 512 0, replicate 256 0) = (x, exps, logs)"
    by (rule prod_cases3)
  have ok: "length exps = 512" "\<And>i. i < 255 \<Longrightarrow> exps ! i = alpha i" "\<And>i. i < 255 \<Longrightarrow> logs ! unat (alpha i) = of_nat i"
    using tables_run [of 255] unfolding f tables_ok_def by simp_all
  have t: "galois_tables = (fold (\<lambda>i e. e[i := e ! (i - 255)]) [255..<255 + 257] exps, logs)"
    unfolding galois_tables_def f by (simp del: upt_rec_numeral)
  show "i < 512 \<Longrightarrow> fst galois_tables ! i = alpha i"
    using extend_table [OF ok(1,2), of 257] unfolding t by (simp del: upt_rec_numeral)
  show "i < 255 \<Longrightarrow> snd galois_tables ! unat (alpha i) = of_nat i" using ok(3) unfolding t by (simp del: upt_rec_numeral)
qed

lemma gf_mul_alpha:
  assumes "i < 255"
  shows "gf_mul (alpha i) b = (xtime ^^ i) b"
proof (cases "b = 0")
  case False
  then obtain j where j: "j < 255" "alpha j = b" by (rule alpha_onto)
  have "unat (of_nat i :: byte) = i" "unat (of_nat j :: byte) = j"
    using assms j(1) by (simp_all add: unat_of_nat)
  then have "gf_mul (alpha i) b = fst galois_tables ! (i + j)"
    using assms j alpha_nonzero by (auto simp: gf_mul_def galois_log)
  also have "\<dots> = (xtime ^^ i) b" using assms j by (simp add: galois_exp alpha_add)
  finally show ?thesis .
qed (simp add: gf_mul_def)

subsection \<open>The field\<close>

lemma gf_mul_0 [simp]: "gf_mul 0 b = 0" "gf_mul b 0 = 0"
  by (simp_all add: gf_mul_def)

lemma gf_mul_xor_right: "gf_mul a (b XOR c) = gf_mul a b XOR gf_mul a c"
proof (cases "a = 0")
  case False
  then obtain i where "i < 255" "alpha i = a" by (rule alpha_onto)
  then show ?thesis using gf_mul_alpha [of i] by (metis pow_xor)
qed simp

lemma gf_mul_comm: "gf_mul a b = gf_mul b a"
  by (simp add: gf_mul_def add.commute)

lemma gf_mul_xor_left: "gf_mul (b XOR c) a = gf_mul b a XOR gf_mul c a"
  using gf_mul_xor_right [of a b c] by (simp only: gf_mul_comm [of _ a])

lemma gf_mul_1 [simp]: "gf_mul 1 b = b" "gf_mul b 1 = b"
  using gf_mul_alpha [of 0 b] gf_mul_comm [of b 1] by simp_all

lemma gf_mul_assoc: "gf_mul (gf_mul a b) c = gf_mul a (gf_mul b c)"
proof (cases "a = 0 \<or> b = 0")
  case False
  then obtain i j where ij: "i < 255" "alpha i = a" "j < 255" "alpha j = b"
    by (metis alpha_onto)
  have ab: "gf_mul a b = alpha (i + j)" using gf_mul_alpha [of i b] ij by (simp add: alpha_add)
  have "alpha ((i + j) mod 255) = alpha (i + j)" by (rule alpha_mod) (rule alpha_values(4))
  then have "gf_mul (gf_mul a b) c = (xtime ^^ ((i + j) mod 255)) c"
    using gf_mul_alpha [of "(i + j) mod 255" c] ab by simp
  also have "\<dots> = (xtime ^^ (i + j)) c"
  proof -
    have "(xtime ^^ (255 * k)) c = c" for k by (induction k) (simp_all add: funpow_add pow_255)
    then have "(xtime ^^ ((i + j) mod 255 + 255 * ((i + j) div 255))) c = (xtime ^^ ((i + j) mod 255)) c"
      by (simp only: funpow_add o_apply)
    then show ?thesis by (metis add.commute mult_div_mod_eq)
  qed
  also have "\<dots> = gf_mul a (gf_mul b c)" using gf_mul_alpha ij by (auto simp: funpow_add)
  finally show ?thesis .
qed auto

subsection \<open>The product is the one of the standard\<close>

lemma alpha_small: "k < 8 \<Longrightarrow> alpha k = push_bit k 1"
proof -
  have "alpha 0 = push_bit 0 1" "alpha 1 = push_bit 1 1" "alpha 2 = push_bit 2 1" "alpha 3 = push_bit 3 1"
    "alpha 4 = push_bit 4 1" "alpha 5 = push_bit 5 1" "alpha 6 = push_bit 6 1" "alpha 7 = push_bit 7 1"
    by (simp_all add: pow_eval xtime_def)
  then show "k < 8 \<Longrightarrow> alpha k = push_bit k 1" by (auto simp: less_Suc_eq numeral_eq_Suc)
qed

lemma bits_sum: "take_bit n (b :: byte) = fold (\<lambda>k s. if bit b k then s XOR push_bit k 1 else s) [0..<n] 0"
proof (induction n)
  case (Suc n)
  have "take_bit (Suc n) b = take_bit n b XOR (if bit b n then push_bit n 1 else 0)"
    by (rule bit_word_eqI) (auto simp: bit_take_bit_iff bit_xor_iff bit_push_bit_iff bit_1_iff bit_exp_iff less_Suc_eq)
  then show ?case using Suc by simp
qed simp

lemma gf_mul_fold:
  assumes "n \<le> 8"
  shows "gf_mul a (fold (\<lambda>k s. if bit b k then s XOR push_bit k 1 else s) [0..<n] 0) =
    fold (\<lambda>k s. if bit b k then s XOR (xtime ^^ k) a else s) [0..<n] 0"
  using assms
proof (induction n)
  case (Suc n)
  have "gf_mul a (push_bit n 1) = (xtime ^^ n) a"
    using gf_mul_alpha [of n a] alpha_small [of n] Suc.prems gf_mul_comm [of a "push_bit n 1"] by simp
  then show ?case using Suc by (simp add: gf_mul_xor_right)
qed simp

lemma gf_mul_ref: "gf_mul a b = ref_mul a b"
proof -
  have "take_bit 8 b = b" using take_bit_length_eq [of b] by simp
  then show ?thesis using bits_sum [of 8 b] gf_mul_fold [of 8 a b] by (simp add: ref_mul_def del: upt_rec_numeral)
qed

subsection \<open>Polynomials\<close>

text \<open>Evaluation, the highest coefficient first.\<close>

definition horner :: "byte \<Rightarrow> bytes \<Rightarrow> byte" where
  "horner r cs = fold (\<lambda>c acc. gf_mul acc r XOR c) cs 0"

fun gf_pow :: "byte \<Rightarrow> nat \<Rightarrow> byte" where
  "gf_pow r 0 = 1"
| "gf_pow r (Suc n) = gf_mul r (gf_pow r n)"

lemma horner_from: "fold (\<lambda>c acc. gf_mul acc r XOR c) cs a = gf_mul a (gf_pow r (length cs)) XOR horner r cs"
proof (induction cs arbitrary: a)
  case (Cons c cs)
  show ?case
    using Cons [of "gf_mul a r XOR c"] Cons [of c] by (simp add: horner_def gf_mul_xor_left gf_mul_assoc xor.assoc)
qed (simp add: horner_def)

lemma horner_simps [simp]:
  "horner r [] = 0" "horner r (c # cs) = gf_mul c (gf_pow r (length cs)) XOR horner r cs"
  using horner_from [of r cs c] by (simp_all add: horner_def)

lemma horner_append: "horner r (xs @ ys) = gf_mul (horner r xs) (gf_pow r (length ys)) XOR horner r ys"
  using horner_from [of r ys "horner r xs"] by (simp add: horner_def)

lemma horner_snoc [simp]: "horner r (cs @ [c]) = gf_mul (horner r cs) r XOR c"
  by (simp add: horner_append)

lemma horner_scaled:
  "length xs = length ys \<Longrightarrow> horner r (map2 (\<lambda>x y. x XOR gf_mul y f) xs ys) = horner r xs XOR gf_mul (horner r ys) f"
proof (induction xs ys rule: list_induct2)
  case (Cons x xs y ys)
  have "gf_mul (gf_mul y f) (gf_pow r (length ys)) = gf_mul (gf_mul y (gf_pow r (length ys))) f"
    by (metis gf_mul_assoc gf_mul_comm)
  then show ?case using Cons by (simp add: gf_mul_xor_left ac_simps)
qed simp

lemma times_root_fold:
  "k < length p \<Longrightarrow> fold (\<lambda>j p. p[j := p ! j XOR gf_mul (p ! (j - 1)) root]) (rev [1..<Suc k]) p =
    map (\<lambda>j. if 1 \<le> j \<and> j \<le> k then p ! j XOR gf_mul (p ! (j - 1)) root else p ! j) [0..<length p]"
proof (induction k arbitrary: p)
  case 0
  then show ?case by (intro nth_equalityI) auto
next
  case (Suc k)
  let ?p = "p[Suc k := p ! Suc k XOR gf_mul (p ! k) root]"
  have "rev [1..<Suc (Suc k)] = Suc k # rev [1..<Suc k]" by simp
  then show ?case using Suc.IH [of ?p] Suc.prems
    by (auto simp: nth_list_update intro!: map_cong)
qed

lemma times_root_map2:
  assumes "poly \<noteq> []"
  shows "times_root root poly = map2 (\<lambda>x y. x XOR gf_mul y root) (poly @ [0]) (0 # poly)"
proof -
  let ?p = "poly @ [0]"
  have l: "length ?p = Suc (length poly)" by simp
  have "times_root root poly = fold (\<lambda>j p. p[j := p ! j XOR gf_mul (p ! (j - 1)) root]) (rev [1..<Suc (length poly)]) ?p"
    by (simp only: times_root_def Let_def l)
  also have "\<dots> =
      map (\<lambda>j. if 1 \<le> j \<and> j \<le> length poly then ?p ! j XOR gf_mul (?p ! (j - 1)) root else ?p ! j) [0..<length ?p]"
    by (rule times_root_fold) simp
  also have "\<dots> = map2 (\<lambda>x y. x XOR gf_mul y root) ?p (0 # poly)"
    by (intro nth_equalityI) (auto simp: nth_Cons' nth_append less_Suc_eq)
  finally show ?thesis .
qed

lemma times_root_horner:
  assumes "poly \<noteq> []"
  shows "horner r (times_root root poly) = gf_mul (horner r poly) (r XOR root)"
  using horner_scaled [of "poly @ [0]" "0 # poly" r root] assms
  by (simp add: times_root_map2 gf_mul_xor_right)

lemma generator_facts:
  "n \<le> 512 \<Longrightarrow> length (generator_poly n) = Suc n \<and> hd (generator_poly n) = 1 \<and>
    (\<forall>i < n. horner (alpha i) (generator_poly n) = 0)"
proof (induction n)
  case (Suc n)
  let ?g = "generator_poly n"
  have g: "generator_poly (Suc n) = times_root (alpha n) ?g"
    using Suc.prems by (simp add: generator_poly_def galois_exp)
  have ih: "length ?g = Suc n" "hd ?g = 1" "\<forall>i < n. horner (alpha i) ?g = 0" using Suc by simp_all
  then obtain t where t: "?g = 1 # t" by (cases ?g) auto
  have "horner (alpha i) (generator_poly (Suc n)) = 0" if "i < Suc n" for i
    using that ih(3) by (cases "i = n") (simp_all add: g t times_root_horner)
  moreover have "length (generator_poly (Suc n)) = Suc (Suc n)" "hd (generator_poly (Suc n)) = 1"
    using ih(1) by (simp_all add: g t times_root_map2)
  ultimately show ?case by simp
qed (simp add: generator_poly_def)

subsection \<open>The remainder\<close>

lemma rs_step_horner:
  assumes gen: "gen = 1 # t" "length t = n" "horner r gen = 0" and rem: "length rem = n" "0 < n"
  shows "length (rs_step gen byte rem) = n"
    "horner r (rs_step gen byte rem) = gf_mul r (horner r rem) XOR gf_mul byte (gf_pow r n)"
proof -
  obtain h u where hu: "rem = h # u" "length u = n - 1" using rem by (cases rem) auto
  obtain m where m: "n = Suc m" using rem(2) by (cases n) auto
  let ?f = "byte XOR h"
  have eq: "rs_step gen byte rem = map2 (\<lambda>x y. x XOR gf_mul y ?f) (u @ [0]) t"
    using gen hu m by (intro nth_equalityI) (auto simp: rs_step_def Let_def simp del: upt_Suc)
  show "length (rs_step gen byte rem) = n" unfolding eq using gen(2) hu m by simp
  have "horner r t = gf_pow r n"
    using gen xor_zero [of "gf_pow r n" "horner r t"] by simp
  moreover have "length (u @ [0]) = length t" using gen(2) hu m by simp
  ultimately have "horner r (rs_step gen byte rem) = gf_mul (horner r u) r XOR gf_mul (gf_pow r n) ?f"
    unfolding eq by (subst horner_scaled) simp_all
  also have "gf_mul (gf_pow r n) ?f = gf_mul byte (gf_pow r n) XOR gf_mul r (gf_mul h (gf_pow r m))"
    by (simp add: gf_mul_xor_right m) (metis gf_mul_assoc gf_mul_comm)
  also have "gf_mul (horner r u) r = gf_mul r (horner r u)" by (rule gf_mul_comm)
  also have "gf_mul r (horner r u) XOR (gf_mul byte (gf_pow r n) XOR gf_mul r (gf_mul h (gf_pow r m))) =
      gf_mul r (horner r rem) XOR gf_mul byte (gf_pow r n)"
    using hu m by (simp add: gf_mul_xor_right ac_simps)
  finally show "horner r (rs_step gen byte rem) = gf_mul r (horner r rem) XOR gf_mul byte (gf_pow r n)" .
qed

lemma rs_run:
  assumes gen: "gen = 1 # t" "length t = n" "horner r gen = 0" "0 < n"
  shows "length rem = n \<Longrightarrow> length (fold (rs_step gen) data rem) = n \<and>
    horner r (fold (rs_step gen) data rem) = gf_mul (horner r data) (gf_pow r n) XOR gf_mul (gf_pow r (length data)) (horner r rem)"
proof (induction data arbitrary: rem)
  case (Cons b data)
  note s = rs_step_horner [OF gen(1-3) Cons.prems gen(4), of b]
  have "gf_mul (gf_pow r (length data)) (gf_mul r (horner r rem)) = gf_mul (gf_mul r (gf_pow r (length data))) (horner r rem)"
    "gf_mul (gf_pow r (length data)) (gf_mul b (gf_pow r n)) = gf_mul (gf_mul b (gf_pow r (length data))) (gf_pow r n)"
    by (metis gf_mul_assoc gf_mul_comm)+
  then show ?case
    using Cons.IH [OF s(1)] by (simp add: s(2) gf_mul_xor_left gf_mul_xor_right ac_simps)
qed simp

lemma rs_codeword:
  assumes "0 < n" "n \<le> 512" "i < n"
  shows "length (qr_reed_solomon data (int n)) = n" "horner (alpha i) (data @ qr_reed_solomon data (int n)) = 0"
proof -
  let ?g = "generator_poly n" and ?r = "alpha i"
  have g: "length ?g = Suc n" "hd ?g = 1" "horner ?r ?g = 0" using generator_facts [OF assms(2)] assms(3) by auto
  then obtain t where t: "?g = 1 # t" "length t = n" by (cases ?g) auto
  have rs: "qr_reed_solomon data (int n) = fold (rs_step ?g) data (replicate n 0)"
    using assms(1) by (simp add: qr_reed_solomon_def)
  have zero: "horner ?r (replicate k 0) = 0" for k by (induction k) simp_all
  note run = rs_run [OF t g(3) assms(1), of "replicate n 0" data]
  show "length (qr_reed_solomon data (int n)) = n" using run by (simp add: rs)
  show "horner ?r (data @ qr_reed_solomon data (int n)) = 0"
    using run by (simp add: rs horner_append zero)
qed

lemma ref_mul_2: "ref_mul 2 = xtime"
proof
  fix b
  show "ref_mul 2 b = xtime b" using gf_mul_alpha [of 1 b] by (simp add: gf_mul_ref [symmetric] xtime_def)
qed

lemma syndromes_null:
  assumes "0 < n" "n \<le> 512"
  shows "rs_ok n (data @ qr_reed_solomon data (int n))"
  using rs_codeword(2) [OF assms, of _ data]
  by (simp add: rs_ok_def syndrome_def list_all_iff horner_def gf_mul_ref [symmetric] ref_mul_2)

subsection \<open>Properties\<close>

text \<open>The product through the two tables is the one of the field: for all bytes, 0 included, the entry at
  the sum of the logarithms, in a table of 512 entries so that no reduction is needed, is the product
  of the two polynomials over GF(2) modulo the polynomial 0x11d the standard imposes.\<close>

theorem gf_mul_is_field_product: "gf_mul a b = ref_mul a b"
  by (rule gf_mul_ref)

text \<open>C40: the bytes of correction make a Reed-Solomon codeword: for every data and every number n of correction
  bytes the table allows, n bytes are computed, and the data followed by them, as a polynomial over the
  field, vanish at 2^0, ..., 2^(n-1), the powers and the products being those of the field, so that a
  reader finds null syndromes exactly as the standard requires.\<close>

theorem reed_solomon_syndromes_null:
  assumes "0 < n" "n \<le> 512" "i < n"
  shows "length (qr_reed_solomon data (int n)) = n \<and>
    fold (\<lambda>c acc. ref_mul acc ((ref_mul 2 ^^ i) 1) XOR c) (data @ qr_reed_solomon data (int n)) 0 = 0"
proof -
  show ?thesis
    using rs_codeword [OF assms, of data] by (simp add: horner_def gf_mul_ref [symmetric] ref_mul_2)
qed

theorem reed_solomon_syndromes_null_witness:
  "length (qr_reed_solomon [0x40, 0x56] (int 10)) = 10 \<and>
    fold (\<lambda>c acc. ref_mul acc ((ref_mul 2 ^^ 9) 1) XOR c) ([0x40, 0x56] @ qr_reed_solomon [0x40, 0x56] (int 10)) 0 = 0"
  by (rule reed_solomon_syndromes_null) simp_all

end
