(* ===== verification/Qr.thy ===== *)
theory Qr
  imports Galois
begin

text \<open>
  The QR encoder of \<open>source/util/qr.cpp\<close>: \<open>qr_matrix\<close> is the class \<open>Matrix\<close>, \<open>qr_encode\<close> the function
  of that name.  Modules and the marks of the function patterns are lists of booleans indexed as in
  the code, coordinates are integers.
\<close>

subsection \<open>Versions\<close>

text \<open>Total codewords, correction codewords per block, blocks.\<close>

definition kVersions :: "(nat \<times> nat \<times> nat) list" where
  "kVersions = [(26, 10, 1), (44, 16, 1), (70, 26, 1), (100, 18, 2), (134, 24, 2), (172, 16, 4)]"

definition kMaxVersion :: nat where
  "kMaxVersion = 6"

definition data_codewords :: "nat \<Rightarrow> nat" where
  "data_codewords version = (case kVersions ! (version - 1) of (all, ec, blocks) \<Rightarrow> all - ec * blocks)"

definition byte_capacity :: "nat \<Rightarrow> nat" where
  "byte_capacity version = (data_codewords version * 8 - 12) div 8"

subsection \<open>The matrix\<close>

record qr_matrix =
  q_version :: int
  q_size :: int
  q_modules :: "bool list"
  q_function :: "bool list"

definition new_matrix :: "nat \<Rightarrow> qr_matrix" where
  "new_matrix version =
     (let sz = 17 + 4 * int version
      in \<lparr>q_version = int version, q_size = sz, q_modules = replicate (nat (sz * sz)) False,
          q_function = replicate (nat (sz * sz)) False\<rparr>)"

definition q_idx :: "qr_matrix \<Rightarrow> int \<Rightarrow> int \<Rightarrow> nat" where
  "q_idx m x y = nat (y * q_size m + x)"

definition q_get :: "qr_matrix \<Rightarrow> int \<Rightarrow> int \<Rightarrow> bool" where
  "q_get m x y = q_modules m ! q_idx m x y"

definition q_is_function :: "qr_matrix \<Rightarrow> int \<Rightarrow> int \<Rightarrow> bool" where
  "q_is_function m x y = q_function m ! q_idx m x y"

definition set_function :: "int \<Rightarrow> int \<Rightarrow> bool \<Rightarrow> qr_matrix \<Rightarrow> qr_matrix" where
  "set_function x y dark m =
     (if x < 0 \<or> y < 0 \<or> q_size m \<le> x \<or> q_size m \<le> y then m
      else m\<lparr>q_modules := (q_modules m)[q_idx m x y := dark], q_function := (q_function m)[q_idx m x y := True]\<rparr>)"

definition set_data :: "int \<Rightarrow> int \<Rightarrow> bool \<Rightarrow> qr_matrix \<Rightarrow> qr_matrix" where
  "set_data x y dark m = m\<lparr>q_modules := (q_modules m)[q_idx m x y := dark]\<rparr>"

definition q_flip :: "int \<Rightarrow> int \<Rightarrow> qr_matrix \<Rightarrow> qr_matrix" where
  "q_flip x y m = m\<lparr>q_modules := (q_modules m)[q_idx m x y := \<not> q_modules m ! q_idx m x y]\<rparr>"

definition draw_finder :: "int \<Rightarrow> int \<Rightarrow> qr_matrix \<Rightarrow> qr_matrix" where
  "draw_finder cx cy m =
     fold (\<lambda>(dx, dy). let dist = max \<bar>dx\<bar> \<bar>dy\<bar> in set_function (cx + dx) (cy + dy) (dist \<noteq> 2 \<and> dist \<noteq> 4))
       (concat (map (\<lambda>dy. map (\<lambda>dx. (dx, dy)) [-4..4]) [-4..4])) m"

definition draw_alignment :: "int \<Rightarrow> int \<Rightarrow> qr_matrix \<Rightarrow> qr_matrix" where
  "draw_alignment cx cy m =
     fold (\<lambda>(dx, dy). set_function (cx + dx) (cy + dy) (max \<bar>dx\<bar> \<bar>dy\<bar> \<noteq> 1))
       (concat (map (\<lambda>dy. map (\<lambda>dx. (dx, dy)) [-2..2]) [-2..2])) m"

text \<open>The fifteen bits of format information: the level M is 00, then the mask and its BCH remainder.\<close>

definition format_bits :: "int \<Rightarrow> int" where
  "format_bits msk =
     (let data = msk;
          rem = fold (\<lambda>_ rem. push_bit 1 rem XOR (drop_bit 9 rem * 0x537)) [0..<10] data
      in (push_bit 10 data OR rem) XOR 0x5412)"

definition draw_format :: "int \<Rightarrow> qr_matrix \<Rightarrow> qr_matrix" where
  "draw_format msk m =
     (let bits = format_bits msk;
          bit_at = (\<lambda>i. drop_bit (nat i) bits AND 1 \<noteq> 0);
          m = fold (\<lambda>i. set_function 8 i (bit_at i)) [0..5] m;
          m = set_function 8 7 (bit_at 6) m;
          m = set_function 8 8 (bit_at 7) m;
          m = set_function 7 8 (bit_at 8) m;
          m = fold (\<lambda>i. set_function (14 - i) 8 (bit_at i)) [9..14] m;
          m = fold (\<lambda>i. set_function (q_size m - 1 - i) 8 (bit_at i)) [0..7] m;
          m = fold (\<lambda>i. set_function 8 (q_size m - 15 + i) (bit_at i)) [8..14] m
      in set_function 8 (q_size m - 8) True m)"

definition draw_function_patterns :: "qr_matrix \<Rightarrow> qr_matrix" where
  "draw_function_patterns m =
     (let m = fold (\<lambda>i m. set_function i 6 (i mod 2 = 0) (set_function 6 i (i mod 2 = 0) m)) [0..q_size m - 1] m;
          m = draw_finder 3 3 m;
          m = draw_finder (q_size m - 4) 3 m;
          m = draw_finder 3 (q_size m - 4) m;
          m = (if 2 \<le> q_version m then let c = 4 * q_version m + 10 in draw_alignment c c m else m)
      in draw_format 0 m)"

text \<open>The columns of the zigzag, from the right, two by two, skipping the timing column.\<close>

function qr_columns :: "int \<Rightarrow> int list" where
  "qr_columns right =
     (if right < 1 then []
      else let right = (if right = 6 then 5 else right) in right # qr_columns (right - 2))"
  by auto
termination by (relation "measure (\<lambda>r. nat (r + 2))") auto

declare qr_columns.simps [simp del]

text \<open>The modules visited, in order.\<close>

definition zigzag :: "int \<Rightarrow> (int \<times> int) list" where
  "zigzag sz =
     concat (map (\<lambda>right. concat (map (\<lambda>vert.
         map (\<lambda>j. (right - j, if (right + 1) AND 2 = 0 then sz - 1 - vert else vert)) [0, 1])
       [0..sz - 1])) (qr_columns (sz - 1)))"

definition draw_cell :: "bytes \<Rightarrow> int \<times> int \<Rightarrow> nat \<times> nat \<times> qr_matrix \<Rightarrow> nat \<times> nat \<times> qr_matrix" where
  "draw_cell data cell s =
     (case (cell, s) of ((x, y), (k, free, m)) \<Rightarrow>
        if q_is_function m x y then (k, free, m)
        else if length data * 8 \<le> k then (k, free + 1, m)
        else (k + 1, free + 1, set_data x y (drop_bit (7 - k mod 8) (data ! (k div 8)) AND 1 \<noteq> 0) m))"

definition draw_codewords :: "bytes \<Rightarrow> qr_matrix \<Rightarrow> nat \<times> qr_matrix" where
  "draw_codewords data m = (case fold (draw_cell data) (zigzag (q_size m)) (0, 0, m) of (k, free, m) \<Rightarrow> (free, m))"

definition mask_condition :: "int \<Rightarrow> int \<Rightarrow> int \<Rightarrow> bool" where
  "mask_condition msk x y =
     (if msk = 0 then (x + y) mod 2 = 0
      else if msk = 1 then y mod 2 = 0
      else if msk = 2 then x mod 3 = 0
      else if msk = 3 then (x + y) mod 3 = 0
      else if msk = 4 then (y div 2 + x div 3) mod 2 = 0
      else if msk = 5 then (x * y) mod 2 + (x * y) mod 3 = 0
      else if msk = 6 then ((x * y) mod 2 + (x * y) mod 3) mod 2 = 0
      else ((x + y) mod 2 + (x * y) mod 3) mod 2 = 0)"

definition grid :: "int \<Rightarrow> (int \<times> int) list" where
  "grid sz = concat (map (\<lambda>y. map (\<lambda>x. (x, y)) [0..sz - 1]) [0..sz - 1])"

definition apply_mask :: "int \<Rightarrow> qr_matrix \<Rightarrow> qr_matrix" where
  "apply_mask msk m =
     fold (\<lambda>(x, y) m. if q_is_function m x y then m else if mask_condition msk x y then q_flip x y m else m)
       (grid (q_size m)) m"

subsection \<open>The penalty\<close>

text \<open>Rule 1 on one line: the score, the run so far, over the pairs of neighbours.\<close>

definition run_step :: "bool \<Rightarrow> int \<times> int \<Rightarrow> int \<times> int" where
  "run_step same s =
     (case s of (score, run) \<Rightarrow>
        if same then
          let run = run + 1 in (if run = 5 then score + 3 else if 5 < run then score + 1 else score, run)
        else (score, 1))"

definition line_runs :: "(int \<Rightarrow> bool) \<Rightarrow> int \<Rightarrow> int" where
  "line_runs at sz = fst (fold (\<lambda>i. run_step (at i = at (i - 1))) [1..sz - 1] (0, 1))"

definition clear_run_h :: "qr_matrix \<Rightarrow> int \<Rightarrow> int \<Rightarrow> int \<Rightarrow> bool" where
  "clear_run_h m x y len = list_all (\<lambda>k. x + k < 0 \<or> q_size m \<le> x + k \<or> \<not> q_get m (x + k) y) [0..len - 1]"

definition clear_run_v :: "qr_matrix \<Rightarrow> int \<Rightarrow> int \<Rightarrow> int \<Rightarrow> bool" where
  "clear_run_v m x y len = list_all (\<lambda>k. y + k < 0 \<or> q_size m \<le> y + k \<or> \<not> q_get m x (y + k)) [0..len - 1]"

definition kPattern :: "bool list" where
  "kPattern = [True, False, True, True, True, False, True]"

definition penalty :: "qr_matrix \<Rightarrow> int" where
  "penalty m =
     (let n = q_size m;
          rows = sum_list (map (\<lambda>y. line_runs (\<lambda>x. q_get m x y) n) [0..n - 1]);
          cols = sum_list (map (\<lambda>x. line_runs (\<lambda>y. q_get m x y) n) [0..n - 1]);
          blocks = sum_list (map (\<lambda>y. sum_list (map (\<lambda>x.
            let c = q_get m x y
            in if c = q_get m (x + 1) y \<and> c = q_get m x (y + 1) \<and> c = q_get m (x + 1) (y + 1) then 3 else 0) [0..n - 2])) [0..n - 2]);
          finders_h = sum_list (map (\<lambda>y. sum_list (map (\<lambda>x.
            if list_all (\<lambda>k. q_get m (x + int k) y = kPattern ! k) [0..<7] \<and> (clear_run_h m (x - 4) y 4 \<or> clear_run_h m (x + 7) y 4)
            then 40 else 0) [0..n - 7])) [0..n - 1]);
          finders_v = sum_list (map (\<lambda>x. sum_list (map (\<lambda>y.
            if list_all (\<lambda>k. q_get m x (y + int k) = kPattern ! k) [0..<7] \<and> (clear_run_v m x (y - 4) 4 \<or> clear_run_v m x (y + 7) 4)
            then 40 else 0) [0..n - 7])) [0..n - 1]);
          dark = int (length (filter id (q_modules m)));
          percent = dark * 100 div (n * n);
          deviation = \<bar>percent - 50\<bar> div 5
      in rows + cols + blocks + finders_h + finders_v + deviation * 10)"

subsection \<open>Encoding\<close>

record qr_code =
  qr_version :: nat
  qr_size :: int
  qr_modules :: "bool list"

definition push_bits :: "nat \<Rightarrow> nat \<Rightarrow> bool list" where
  "push_bits v width = map (\<lambda>i. bit v i) (rev [0..<width])"

text \<open>The bytes of a list of bits whose length is a multiple of eight.\<close>

fun bits_to_bytes :: "bool list \<Rightarrow> bytes" where
  "bits_to_bytes [] = []"
| "bits_to_bytes (b # bits) =
     fold (\<lambda>b byte. push_bit 1 byte OR (if b then 1 else 0)) (take 8 (b # bits)) 0 # bits_to_bytes (drop 7 bits)"

fun pad_bytes :: "nat \<Rightarrow> bool \<Rightarrow> bytes" where
  "pad_bytes 0 alternate = []"
| "pad_bytes (Suc n) alternate = (if alternate then 0x11 else 0xec) # pad_bytes n (\<not> alternate)"

definition data_stream :: "nat \<Rightarrow> bytes \<Rightarrow> bytes" where
  "data_stream total_data text =
     (let bits = push_bits 4 4 @ push_bits (length text) 8 @ concat (map (\<lambda>c. push_bits (unat c) 8) text);
          capacity = total_data * 8;
          bits = bits @ replicate (min 4 (capacity - length bits)) False;
          bits = bits @ replicate ((8 - length bits mod 8) mod 8) False;
          stream = bits_to_bytes bits
      in stream @ pad_bytes (total_data - length stream) False)"

definition data_blocks :: "nat \<Rightarrow> nat \<Rightarrow> bytes \<Rightarrow> bytes list" where
  "data_blocks blocks per_block stream = map (\<lambda>b. take per_block (drop (b * per_block) stream)) [0..<blocks]"

definition interleave :: "nat \<Rightarrow> bytes list \<Rightarrow> bytes" where
  "interleave n blocks = concat (map (\<lambda>i. map (\<lambda>block. block ! i) blocks) [0..<n])"

definition final_bytes :: "nat \<Rightarrow> bytes \<Rightarrow> bytes" where
  "final_bytes version text =
     (case kVersions ! (version - 1) of (all, ec, blocks) \<Rightarrow>
        let total_data = data_codewords version;
            per_block = total_data div blocks;
            datas = data_blocks blocks per_block (data_stream total_data text);
            ecs = map (\<lambda>block. qr_reed_solomon block (int ec)) datas
        in interleave per_block datas @ interleave ec ecs)"

text \<open>One turn of the choice of the mask: the best matrix and score so far, or the failure.\<close>

definition try_mask :: "nat \<Rightarrow> bytes \<Rightarrow> nat \<Rightarrow> int \<Rightarrow> (qr_matrix \<times> int) option \<Rightarrow> (qr_matrix \<times> int) option" where
  "try_mask version codewords expected_free msk s =
     (case s of
        None \<Rightarrow> None
      | Some (best, best_score) \<Rightarrow>
          (case draw_codewords codewords (draw_function_patterns (new_matrix version)) of
             (free, m) \<Rightarrow>
               if free \<noteq> expected_free then None
               else
                 let m = draw_format msk (apply_mask msk m);
                     score = penalty m
                 in Some (if best_score < 0 \<or> score < best_score then (m, score) else (best, best_score))))"

definition qr_encode :: "bytes \<Rightarrow> qr_code option" where
  "qr_encode text =
     (case List.find (\<lambda>v. length text \<le> byte_capacity v) [1..<kMaxVersion + 1] of
        None \<Rightarrow> None
      | Some version \<Rightarrow>
          let expected_free = fst (kVersions ! (version - 1)) * 8 + (if version = 1 then 0 else 7)
          in case fold (try_mask version (final_bytes version text) expected_free) [0..7] (Some (new_matrix version, -1)) of
            None \<Rightarrow> None
          | Some (best, _) \<Rightarrow>
              Some \<lparr>qr_version = version, qr_size = q_size best,
                qr_modules = map (\<lambda>(x, y). q_get best x y) (grid (q_size best))\<rparr>)"

end
