(* ===== verification/QrGrid.thy ===== *)
theory QrGrid
  imports Qr
begin

text \<open>
  The geometry of the QR matrix: which modules the function patterns take (\<open>fn_cell\<close>), that the zigzag
  visits distinct modules, what the codewords, the mask and the format information leave in each.
\<close>

subsection \<open>Modules by coordinates\<close>

definition in_grid :: "int \<Rightarrow> int \<Rightarrow> int \<Rightarrow> bool" where
  "in_grid n x y \<longleftrightarrow> 0 \<le> x \<and> x < n \<and> 0 \<le> y \<and> y < n"

definition wf_matrix :: "int \<Rightarrow> qr_matrix \<Rightarrow> bool" where
  "wf_matrix n m \<longleftrightarrow> q_size m = n \<and> length (q_modules m) = nat (n * n) \<and> length (q_function m) = nat (n * n)"

lemma idx_less: "in_grid n x y \<Longrightarrow> nat (y * n + x) < nat (n * n)"
proof -
  assume g: "in_grid n x y"
  have "y * n + x < y * n + n" using g by (simp add: in_grid_def)
  also have "\<dots> = (y + 1) * n" by (simp add: algebra_simps)
  also have "\<dots> \<le> n * n" using g by (intro mult_right_mono) (auto simp: in_grid_def)
  finally have "y * n + x < n * n" .
  moreover have "0 \<le> y * n + x" using g by (simp add: in_grid_def)
  ultimately show ?thesis by (simp add: nat_less_eq_zless)
qed

lemma idx_inj:
  assumes "in_grid n x y" "in_grid n a b"
  shows "nat (y * n + x) = nat (b * n + a) \<longleftrightarrow> x = a \<and> y = b"
proof
  assume "nat (y * n + x) = nat (b * n + a)"
  moreover have "0 \<le> y * n + x" "0 \<le> b * n + a" using assms by (simp_all add: in_grid_def)
  ultimately have eq: "y * n + x = b * n + a" by linarith
  have "(y * n + x) mod n = x" "(b * n + a) mod n = a" using assms by (simp_all add: in_grid_def)
  with eq have "x = a" by simp
  moreover have "n \<noteq> 0" using assms by (auto simp: in_grid_def)
  ultimately show "x = a \<and> y = b" using eq by simp
qed simp

definition marks :: "qr_matrix \<Rightarrow> int \<Rightarrow> int \<Rightarrow> bool" where
  "marks m x y \<longleftrightarrow> in_grid (q_size m) x y \<and> q_is_function m x y"

lemma set_function_wf [simp]: "wf_matrix n (set_function x y d m) = wf_matrix n m" "q_size (set_function x y d m) = q_size m"
    "q_version (set_function x y d m) = q_version m"
  by (auto simp: wf_matrix_def set_function_def)

lemma set_function_is:
  assumes "wf_matrix n m" "in_grid n a b"
  shows "q_is_function (set_function x y d m) a b \<longleftrightarrow> (a = x \<and> b = y) \<or> q_is_function m a b"
proof (cases "in_grid n x y")
  case True
  then show ?thesis
    using assms idx_inj [of n x y a b] idx_less [of n x y]
    by (auto simp: wf_matrix_def in_grid_def set_function_def q_is_function_def q_idx_def nth_list_update)
next
  case False
  then have "set_function x y d m = m" using assms(1) by (auto simp: in_grid_def set_function_def wf_matrix_def)
  then show ?thesis using False assms(2) by auto
qed

lemma set_function_get:
  assumes "wf_matrix n m" "in_grid n a b"
  shows "q_get (set_function x y d m) a b = (if a = x \<and> b = y then d else q_get m a b)"
proof (cases "in_grid n x y")
  case True
  then show ?thesis
    using assms idx_inj [of n x y a b] idx_less [of n x y]
    by (auto simp: wf_matrix_def in_grid_def set_function_def q_get_def q_idx_def nth_list_update)
next
  case False
  then have "set_function x y d m = m" using assms(1) by (auto simp: in_grid_def set_function_def wf_matrix_def)
  then show ?thesis using False assms(2) by auto
qed

lemma set_function_fold [simp]:
  "wf_matrix n (fold (\<lambda>c. set_function (fx c) (fy c) (d c)) cs m) = wf_matrix n m"
  "q_size (fold (\<lambda>c. set_function (fx c) (fy c) (d c)) cs m) = q_size m"
  "q_version (fold (\<lambda>c. set_function (fx c) (fy c) (d c)) cs m) = q_version m"
  by (induction cs arbitrary: m) simp_all

lemma set_function_fold_is:
  assumes "wf_matrix n m" "in_grid n a b"
  shows "q_is_function (fold (\<lambda>c. set_function (fx c) (fy c) (d c)) cs m) a b \<longleftrightarrow>
    (\<exists>c \<in> set cs. a = fx c \<and> b = fy c) \<or> q_is_function m a b"
  using assms(1)
proof (induction cs arbitrary: m)
  case (Cons c cs)
  then show ?case using set_function_is [OF Cons.prems assms(2)] by auto
qed simp

lemma set_function_fold_get:
  assumes "wf_matrix n m" "in_grid n a b" "\<forall>c \<in> set cs. \<not> (a = fx c \<and> b = fy c)"
  shows "q_get (fold (\<lambda>c. set_function (fx c) (fy c) (d c)) cs m) a b = q_get m a b"
  using assms(1,3)
proof (induction cs arbitrary: m)
  case (Cons c cs)
  then show ?case using set_function_get [OF Cons.prems(1) assms(2)] by auto
qed simp

lemma grid_set: "(x, y) \<in> set (grid n) \<longleftrightarrow> in_grid n x y"
  by (force simp: grid_def in_grid_def)

lemma grid_distinct: "distinct (grid n)"
proof -
  have "distinct (concat (map (\<lambda>y. map (\<lambda>x. (x, y)) [0..n - 1]) ys))" if "distinct ys" for ys :: "int list"
    using that by (induction ys) (auto simp: distinct_map inj_on_def)
  then show ?thesis by (simp add: grid_def)
qed

subsection \<open>The zigzag\<close>

lemma columns_bound: "x \<in> set (qr_columns r) \<Longrightarrow> 1 \<le> x \<and> x \<le> r"
proof (induction r rule: qr_columns.induct)
  case (1 r)
  show ?case
  proof (cases "r < 1")
    case False
    let ?r = "if r = 6 then 5 else r"
    have "x = ?r \<or> x \<in> set (qr_columns (?r - 2))" using 1(2) False by (simp add: qr_columns.simps [of r] Let_def split: if_splits)
    then show ?thesis
    proof
      assume "x \<in> set (qr_columns (?r - 2))"
      then have "1 \<le> x \<and> x \<le> ?r - 2" by (rule 1(1) [OF False refl])
      then show ?thesis by (auto split: if_splits)
    qed (use False in \<open>auto split: if_splits\<close>)
  qed (use 1(2) in \<open>simp add: qr_columns.simps\<close>)
qed

definition column_cells :: "int \<Rightarrow> int \<Rightarrow> (int \<times> int) list" where
  "column_cells n right = concat (map (\<lambda>vert.
     map (\<lambda>j. (right - j, if (right + 1) AND 2 = 0 then n - 1 - vert else vert)) [0, 1]) [0..n - 1])"

lemma zigzag_columns: "zigzag n = concat (map (column_cells n) (qr_columns (n - 1)))"
  unfolding zigzag_def column_cells_def ..

lemma column_cells_set: "(x, y) \<in> set (column_cells n r) \<Longrightarrow> (x = r \<or> x = r - 1) \<and> 0 \<le> y \<and> y < n"
  by (auto simp: column_cells_def split: if_splits)

lemma column_cells_distinct: "distinct (column_cells n r)"
proof -
  have "distinct (concat (map (\<lambda>vert. map (\<lambda>j. (r - j, if (r + 1) AND 2 = 0 then n - 1 - vert else vert)) [0, 1]) vs))"
    if "distinct vs" for vs :: "int list"
    using that by (induction vs) (auto split: if_splits)
  then show ?thesis by (simp add: column_cells_def)
qed

lemma columns_distinct: "distinct (concat (map (column_cells n) (qr_columns r)))"
proof (induction r rule: qr_columns.induct)
  case (1 r)
  show ?case
  proof (cases "r < 1")
    case False
    let ?r = "if r = 6 then 5 else r"
    have ih: "distinct (concat (map (column_cells n) (qr_columns (?r - 2))))" by (rule 1 [OF False refl])
    have "set (column_cells n ?r) \<inter> set (concat (map (column_cells n) (qr_columns (?r - 2)))) = {}"
    proof (rule equals0I)
      fix c assume c: "c \<in> set (column_cells n ?r) \<inter> set (concat (map (column_cells n) (qr_columns (?r - 2))))"
      obtain x y where xy: "c = (x, y)" by (cases c) auto
      obtain q where q: "q \<in> set (qr_columns (?r - 2))" "(x, y) \<in> set (column_cells n q)" using c xy by auto
      have "q \<le> ?r - 2" using columns_bound [OF q(1)] by simp
      moreover have "x = q \<or> x = q - 1" using column_cells_set [OF q(2)] by simp
      moreover have "x = ?r \<or> x = ?r - 1" using column_cells_set [of x y n ?r] c xy by simp
      ultimately show False by linarith
    qed
    then show ?thesis
      using False ih column_cells_distinct by (simp add: qr_columns.simps [of r] Let_def)
  qed (simp add: qr_columns.simps)
qed

lemma zigzag_distinct: "distinct (zigzag n)"
  unfolding zigzag_columns by (rule columns_distinct)

lemma zigzag_in_grid: "(x, y) \<in> set (zigzag n) \<Longrightarrow> in_grid n x y"
proof -
  assume "(x, y) \<in> set (zigzag n)"
  then obtain r where r: "r \<in> set (qr_columns (n - 1))" "(x, y) \<in> set (column_cells n r)" by (auto simp: zigzag_columns)
  then show ?thesis using columns_bound [OF r(1)] column_cells_set [OF r(2)] by (auto simp: in_grid_def)
qed

subsection \<open>The function patterns\<close>

definition format_cell :: "int \<Rightarrow> int \<Rightarrow> int \<Rightarrow> bool" where
  "format_cell n a b \<longleftrightarrow> (a = 8 \<and> (b \<le> 8 \<and> b \<noteq> 6 \<or> n - 8 \<le> b)) \<or> (b = 8 \<and> (a \<le> 8 \<and> a \<noteq> 6 \<or> n - 8 \<le> a))"

lemma draw_format_frame [simp]:
  "wf_matrix n (draw_format k m) = wf_matrix n m" "q_size (draw_format k m) = q_size m" "q_version (draw_format k m) = q_version m"
  by (simp_all add: draw_format_def Let_def)

text \<open>The writing of the format information, with any bits and any ranges.\<close>

lemma format_shape:
  assumes "wf_matrix n m" "in_grid n a b"
  shows "q_is_function (set_function 8 y4 True (fold (\<lambda>i. set_function 8 (y3 + i) (bt i)) l4 (fold (\<lambda>i. set_function (x3 - i) 8 (bt i)) l3
      (fold (\<lambda>i. set_function (x2 - i) 8 (bt i)) l2 (set_function 7 8 (bt 8) (set_function 8 8 (bt 7) (set_function 8 7 (bt 6)
      (fold (\<lambda>i. set_function 8 i (bt i)) l1 m)))))))) a b \<longleftrightarrow>
    (a = 8 \<and> b = y4) \<or> (\<exists>c \<in> set l4. a = 8 \<and> b = y3 + c) \<or> (\<exists>c \<in> set l3. a = x3 - c \<and> b = 8) \<or>
    (\<exists>c \<in> set l2. a = x2 - c \<and> b = 8) \<or> (a = 7 \<and> b = 8) \<or> (a = 8 \<and> b = 8) \<or> (a = 8 \<and> b = 7) \<or>
    (\<exists>c \<in> set l1. a = 8 \<and> b = c) \<or> q_is_function m a b"
  by (simp add: assms set_function_is [OF _ assms(2)] set_function_fold_is [OF _ assms(2)])

lemma shifted_range:
  "(\<exists>c \<in> {l..u}. P \<and> x = k + c) \<longleftrightarrow> P \<and> k + l \<le> x \<and> x \<le> k + (u :: int)"
  "(\<exists>c \<in> {l..u}. x = k - c \<and> P) \<longleftrightarrow> P \<and> k - u \<le> x \<and> x \<le> k - (l :: int)"
  "(\<exists>c \<in> {l..u}. P \<and> x = c) \<longleftrightarrow> P \<and> l \<le> x \<and> x \<le> u"
  by (auto intro: bexI [of _ "x - k"] bexI [of _ "k - x"])

lemma draw_format_is:
  assumes "wf_matrix n m" "in_grid n a b" "17 \<le> n"
  shows "q_is_function (draw_format k m) a b \<longleftrightarrow> format_cell n a b \<or> q_is_function m a b"
proof -
  have n: "q_size m = n" using assms(1) by (simp add: wf_matrix_def)
  have "q_is_function (draw_format k m) a b \<longleftrightarrow>
      (a = 8 \<and> b = n - 8) \<or> (\<exists>c \<in> {8..14}. a = 8 \<and> b = n - 15 + c) \<or> (\<exists>c \<in> {0..7}. a = n - 1 - c \<and> b = 8) \<or>
      (\<exists>c \<in> {9..14}. a = 14 - c \<and> b = 8) \<or> (a = 7 \<and> b = 8) \<or> (a = 8 \<and> b = 8) \<or> (a = 8 \<and> b = 7) \<or>
      (\<exists>c \<in> {0..5}. a = 8 \<and> b = c) \<or> q_is_function m a b"
    unfolding draw_format_def Let_def set_function_fold set_function_wf n set_upto [symmetric]
    by (rule format_shape [where bt = "\<lambda>i. drop_bit (nat i) (format_bits k) AND 1 \<noteq> 0", OF assms(1,2)])
  also have "\<dots> \<longleftrightarrow> (a = 8 \<and> b = n - 8) \<or> (a = 8 \<and> n - 7 \<le> b \<and> b \<le> n - 1) \<or> (b = 8 \<and> n - 8 \<le> a \<and> a \<le> n - 1) \<or>
      (b = 8 \<and> 0 \<le> a \<and> a \<le> 5) \<or> (a = 7 \<and> b = 8) \<or> (a = 8 \<and> b = 8) \<or> (a = 8 \<and> b = 7) \<or>
      (a = 8 \<and> 0 \<le> b \<and> b \<le> 5) \<or> q_is_function m a b"
    unfolding shifted_range by simp
  finally have is_fn: "q_is_function (draw_format k m) a b \<longleftrightarrow> \<dots>" .
  have "format_cell n a b \<longleftrightarrow> (a = 8 \<and> b = n - 8) \<or> (a = 8 \<and> n - 7 \<le> b \<and> b \<le> n - 1) \<or> (b = 8 \<and> n - 8 \<le> a \<and> a \<le> n - 1) \<or>
      (b = 8 \<and> 0 \<le> a \<and> a \<le> 5) \<or> (a = 7 \<and> b = 8) \<or> (a = 8 \<and> b = 8) \<or> (a = 8 \<and> b = 7) \<or> (a = 8 \<and> 0 \<le> b \<and> b \<le> 5)"
    using assms(2,3) unfolding format_cell_def in_grid_def by presburger
  with is_fn show ?thesis by blast
qed

lemma square_cells:
  "(\<exists>c \<in> set (concat (map (\<lambda>dy. map (\<lambda>dx. (dx, dy)) [- k..k]) [- k..k])). case c of (dx, dy) \<Rightarrow> a = cx + dx \<and> b = cy + dy) \<longleftrightarrow>
   \<bar>a - cx\<bar> \<le> k \<and> \<bar>b - cy\<bar> \<le> (k :: int)"
proof
  assume "\<bar>a - cx\<bar> \<le> k \<and> \<bar>b - cy\<bar> \<le> k"
  then have "(a - cx, b - cy) \<in> set (concat (map (\<lambda>dy. map (\<lambda>dx. (dx, dy)) [- k..k]) [- k..k]))" by force
  then show "\<exists>c \<in> set (concat (map (\<lambda>dy. map (\<lambda>dx. (dx, dy)) [- k..k]) [- k..k])). case c of (dx, dy) \<Rightarrow> a = cx + dx \<and> b = cy + dy"
    by (rule rev_bexI) simp
qed auto

lemma finder_fold: "draw_finder cx cy m =
    fold (\<lambda>c. set_function (cx + fst c) (cy + snd c) (max \<bar>fst c\<bar> \<bar>snd c\<bar> \<noteq> 2 \<and> max \<bar>fst c\<bar> \<bar>snd c\<bar> \<noteq> 4))
      (concat (map (\<lambda>dy. map (\<lambda>dx. (dx, dy)) [- 4..4]) [- 4..4])) m"
  unfolding draw_finder_def by (rule fold_cong) (auto simp: Let_def)

lemma alignment_fold: "draw_alignment cx cy m =
    fold (\<lambda>c. set_function (cx + fst c) (cy + snd c) (max \<bar>fst c\<bar> \<bar>snd c\<bar> \<noteq> 1))
      (concat (map (\<lambda>dy. map (\<lambda>dx. (dx, dy)) [- 2..2]) [- 2..2])) m"
  unfolding draw_alignment_def by (rule fold_cong) auto

lemma finder_frame [simp]:
  "wf_matrix n (draw_finder cx cy m) = wf_matrix n m" "q_size (draw_finder cx cy m) = q_size m" "q_version (draw_finder cx cy m) = q_version m"
  "wf_matrix n (draw_alignment cx cy m) = wf_matrix n m" "q_size (draw_alignment cx cy m) = q_size m"
  "q_version (draw_alignment cx cy m) = q_version m"
  unfolding finder_fold alignment_fold by (simp_all only: set_function_fold)

lemma draw_finder_is:
  assumes "wf_matrix n m" "in_grid n a b"
  shows "q_is_function (draw_finder cx cy m) a b \<longleftrightarrow> (\<bar>a - cx\<bar> \<le> 4 \<and> \<bar>b - cy\<bar> \<le> 4) \<or> q_is_function m a b"
    "q_is_function (draw_alignment cx cy m) a b \<longleftrightarrow> (\<bar>a - cx\<bar> \<le> 2 \<and> \<bar>b - cy\<bar> \<le> 2) \<or> q_is_function m a b"
  using square_cells [of 4 a cx b cy] square_cells [of 2 a cx b cy]
  unfolding finder_fold alignment_fold set_function_fold_is [OF assms] by (simp_all only: case_prod_beta)

lemma new_matrix_wf [simp]: "wf_matrix (qr_side v) (new_matrix v)" "q_size (new_matrix v) = qr_side v" "q_version (new_matrix v) = int v"
  by (simp_all add: wf_matrix_def new_matrix_def qr_side_def Let_def)

lemma new_matrix_cells:
  "in_grid (qr_side v) a b \<Longrightarrow> \<not> q_is_function (new_matrix v) a b" "in_grid (qr_side v) a b \<Longrightarrow> \<not> q_get (new_matrix v) a b"
  using idx_less [of "qr_side v" a b]
  by (simp_all add: q_is_function_def q_get_def q_idx_def new_matrix_def qr_side_def Let_def)

definition timing :: "int \<Rightarrow> qr_matrix \<Rightarrow> qr_matrix" where
  "timing n m = fold (\<lambda>i m. set_function i 6 (i mod 2 = 0) (set_function 6 i (i mod 2 = 0) m)) [0..n - 1] m"

lemma timing_is:
  assumes "wf_matrix n m" "in_grid n a b"
  shows "wf_matrix n (timing n m)" "q_size (timing n m) = q_size m" "q_version (timing n m) = q_version m"
    "q_is_function (timing n m) a b \<longleftrightarrow> a = 6 \<or> b = 6 \<or> q_is_function m a b"
proof -
  let ?f = "\<lambda>i m. set_function i 6 (i mod 2 = 0) (set_function 6 i (i mod 2 = 0) m)"
  have "wf_matrix n (fold ?f js m) \<and> q_size (fold ?f js m) = q_size m \<and> q_version (fold ?f js m) = q_version m \<and>
      (q_is_function (fold ?f js m) a b \<longleftrightarrow> (\<exists>i \<in> set js. (a = i \<and> b = 6) \<or> (a = 6 \<and> b = i)) \<or> q_is_function m a b)" for js
    using assms(1)
  proof (induction js arbitrary: m)
    case (Cons i js)
    have "q_is_function (?f i m) a b \<longleftrightarrow> (a = i \<and> b = 6) \<or> (a = 6 \<and> b = i) \<or> q_is_function m a b"
      using set_function_is [OF _ assms(2), of "set_function 6 i (i mod 2 = 0) m" i 6] set_function_is [OF Cons.prems assms(2), of 6 i] Cons.prems
      by simp
    then show ?case using Cons.IH [of "?f i m"] Cons.prems by simp blast
  qed simp
  note all = this [of "[0..n - 1]"]
  show "wf_matrix n (timing n m)" "q_size (timing n m) = q_size m" "q_version (timing n m) = q_version m"
    using all by (simp_all add: timing_def)
  show "q_is_function (timing n m) a b \<longleftrightarrow> a = 6 \<or> b = 6 \<or> q_is_function m a b"
  proof -
    have "(\<exists>i \<in> set [0..n - 1]. (a = i \<and> b = 6) \<or> (a = 6 \<and> b = i)) \<longleftrightarrow> a = 6 \<or> b = 6"
      using assms(2) by (auto simp: in_grid_def)
    then show ?thesis using all unfolding timing_def by blast
  qed
qed

lemma patterns_facts:
  assumes "in_grid (qr_side v) a b" "1 \<le> v"
  shows "q_is_function (draw_function_patterns (new_matrix v)) a b \<longleftrightarrow> fn_cell v a b"
    "wf_matrix (qr_side v) (draw_function_patterns (new_matrix v))" "q_size (draw_function_patterns (new_matrix v)) = qr_side v"
proof -
  let ?n = "qr_side v"
  define m1 where "m1 = timing ?n (new_matrix v)"
  note t = timing_is [OF new_matrix_wf(1) assms(1), folded m1_def]
  define m2 where "m2 = draw_finder 3 (?n - 4) (draw_finder (?n - 4) 3 (draw_finder 3 3 m1))"
  have m2: "wf_matrix ?n m2" "q_size m2 = ?n" "q_version m2 = int v" using t by (simp_all add: m2_def)
  have m2_is: "q_is_function m2 a b \<longleftrightarrow> a = 6 \<or> b = 6 \<or> (\<bar>a - 3\<bar> \<le> 4 \<and> \<bar>b - 3\<bar> \<le> 4) \<or>
      (\<bar>a - (?n - 4)\<bar> \<le> 4 \<and> \<bar>b - 3\<bar> \<le> 4) \<or> (\<bar>a - 3\<bar> \<le> 4 \<and> \<bar>b - (?n - 4)\<bar> \<le> 4)"
    using t new_matrix_cells(1) [OF assms(1)] by (auto simp: m2_def draw_finder_is(1) [OF _ assms(1)])
  define m3 where "m3 = (if 2 \<le> v then draw_alignment (?n - 7) (?n - 7) m2 else m2)"
  have m3: "wf_matrix ?n m3" "q_size m3 = ?n" using m2 by (simp_all add: m3_def)
  have m3_is: "q_is_function m3 a b \<longleftrightarrow> (2 \<le> v \<and> \<bar>a - (?n - 7)\<bar> \<le> 2 \<and> \<bar>b - (?n - 7)\<bar> \<le> 2) \<or> q_is_function m2 a b"
    using draw_finder_is(2) [OF m2(1) assms(1)] by (simp add: m3_def)
  have eq: "draw_function_patterns (new_matrix v) = draw_format 0 m3"
  proof -
    have f: "fold (\<lambda>i m. set_function i 6 (i mod 2 = 0) (set_function 6 i (i mod 2 = 0) m)) [0..?n - 1] (new_matrix v) = m1"
      unfolding m1_def timing_def ..
    have c: "4 * int v + 10 = ?n - 7" by (simp add: qr_side_def)
    show ?thesis
      unfolding draw_function_patterns_def Let_def f finder_frame t(2,3) new_matrix_wf(2,3) c by (simp add: m3_def m2_def)
  qed
  show "wf_matrix ?n (draw_function_patterns (new_matrix v))" "q_size (draw_function_patterns (new_matrix v)) = ?n"
    using m3 by (simp_all add: eq)
  have "17 \<le> ?n" by (simp add: qr_side_def)
  then have "fn_cell v a b \<longleftrightarrow> format_cell ?n a b \<or> (2 \<le> v \<and> \<bar>a - (?n - 7)\<bar> \<le> 2 \<and> \<bar>b - (?n - 7)\<bar> \<le> 2) \<or> a = 6 \<or> b = 6 \<or>
      (\<bar>a - 3\<bar> \<le> 4 \<and> \<bar>b - 3\<bar> \<le> 4) \<or> (\<bar>a - (?n - 4)\<bar> \<le> 4 \<and> \<bar>b - 3\<bar> \<le> 4) \<or> (\<bar>a - 3\<bar> \<le> 4 \<and> \<bar>b - (?n - 4)\<bar> \<le> 4)"
  proof -
    have "\<bar>a - 3\<bar> \<le> 4 \<longleftrightarrow> a \<le> 7" "\<bar>b - 3\<bar> \<le> 4 \<longleftrightarrow> b \<le> 7"
      "\<bar>a - (?n - 4)\<bar> \<le> 4 \<longleftrightarrow> ?n - 8 \<le> a" "\<bar>b - (?n - 4)\<bar> \<le> 4 \<longleftrightarrow> ?n - 8 \<le> b"
      using assms(1) by (simp_all add: in_grid_def abs_le_iff) linarith+
    then show ?thesis unfolding fn_cell_def format_cell_def by blast
  qed
  then show "q_is_function (draw_function_patterns (new_matrix v)) a b \<longleftrightarrow> fn_cell v a b"
    unfolding eq draw_format_is [OF m3(1) assms(1) \<open>17 \<le> ?n\<close>] m3_is m2_is by blast
qed

end
