(* ===== verification/QrLaws.thy ===== *)
theory QrLaws
  imports QrGrid
begin

text \<open>
  The QR encoder against a reader of the standard: \<open>qr_read\<close> takes the mask from the format
  information, unmasks the modules that no function pattern takes, in the order of the zigzag, splits
  the codewords into their blocks and reads the text of the data stream.  Reading what the encoder
  draws gives the text back, and the encoder fails only on texts of more than 106 bytes.
\<close>

subsection \<open>The capacity of each version\<close>











subsection \<open>Drawing the codewords\<close>





subsection \<open>The mask and the format information\<close>










subsection \<open>What a drawn matrix holds\<close>








subsection \<open>The reader\<close>







definition byte_bits :: "byte \<Rightarrow> bool list" where
  "byte_bits b = push_bits (unat b) 8"



subsection \<open>Bits and bytes\<close>



lemma length_push_bits [simp]: "length (push_bits v w) = w"
  by (simp add: push_bits_def)



lemma length_byte_bits [simp]: "length (byte_bits b) = 8"
  by (simp add: byte_bits_def)








subsection \<open>The data stream\<close>

lemma length_pad_bytes [simp]: "length (pad_bytes n a) = n"
  by (induction n arbitrary: a) simp_all



subsection \<open>Blocks\<close>







subsection \<open>Encoding\<close>






subsection \<open>Properties\<close>


end
