(* ===== verification/Spec2Isabelle.thy ===== *)
theory Spec2Isabelle
  imports Bytes Sha1 Bencode Metainfo Magnet Bitfield Picker StoragePieces Writer PeerWire DhtSearch Tracker SessionPrivacy TorrentLaws WireguardKeys TunnelLaws QrLaws
begin

text \<open>
  A model of the torfoil BitTorrent client (\<open>source/\<close> and \<open>include/\<close> of the repository) and the
  properties that make its parts correct.
\<close>

end
